(* ===== verification/YogPrelude.thy ===== *)
theory YogPrelude
  imports Main "HOL-Library.Word"
begin

text \<open>
  What every component of the Yog interpreter model shares: the exceptions and failures an
  operation can end with, the result type and its sequencing, C memory accesses with their
  bounds, and the two machine integer types of \<^verbatim>\<open>include/yog/yog.h\<close>
  (\<^verbatim>\<open>uint_t\<close> and \<^verbatim>\<open>int_t\<close>, both 64 bits wide on the platform the project supports).
\<close>

unbundle bit_operations_syntax

section \<open>Exceptions, failures and results\<close>

text \<open>
  The constructors up to \<open>LocalJumpError\<close> are the Yog exceptions that
  \<^verbatim>\<open>YogError_raise_XXX\<close> throws (with \<^verbatim>\<open>longjmp\<close>); their argument is the message or the format
  string the code passes. \<open>YogBug\<close> is \<^verbatim>\<open>YOG_BUG\<close> and a failed \<^verbatim>\<open>YOG_ASSERT\<close>, which abort the
  process. \<open>UserError\<close> is an exception that a called block or method raises. \<open>MemFault\<close> is a C
  access outside the object it addresses, \<open>ArithFault\<close> a C division by zero (SIGFPE) and
  \<open>NoReturn\<close> a loop that is never left: three behaviours the code does not handle.
\<close>

datatype yog_error =
    TypeError string
  | IndexError string
  | ValueError string
  | KeyError string
  | ZeroDivisionError string
  | OverflowError string
  | ArgumentError string
  | AttributeError string
  | SyntaxError string
  | LocalJumpError string
  | UserError nat
  | YogBug string
  | MemFault
  | ArithFault
  | NoReturn

type_synonym 'a res = "yog_error + 'a"

definition res_bind :: "'a res \<Rightarrow> ('a \<Rightarrow> 'b res) \<Rightarrow> 'b res" where
  "res_bind m f = (case m of Inl e \<Rightarrow> Inl e | Inr x \<Rightarrow> f x)"

definition res_ok :: "'a res \<Rightarrow> bool" where
  "res_ok m = (case m of Inl _ \<Rightarrow> False | Inr _ \<Rightarrow> True)"

lemma res_bind_simps [simp]:
  "res_bind (Inl e) f = Inl e"
  "res_bind (Inr x) f = f x"
  by (simp_all add: res_bind_def)

lemma res_ok_simps [simp]: "\<not> res_ok (Inl e)" "res_ok (Inr x)"
  by (simp_all add: res_ok_def)

lemma res_bind_Inr_iff:
  "res_bind m f = Inr y \<longleftrightarrow> (\<exists>x. m = Inr x \<and> f x = Inr y)"
  by (cases m) auto

lemma res_bind_InrE:
  assumes "res_bind m f = Inr y"
  obtains x where "m = Inr x" "f x = Inr y"
  using assms by (cases m) auto

lemma res_bind_assoc: "res_bind (res_bind m f) g = res_bind m (\<lambda>x. res_bind (f x) g)"
  by (cases m) auto

lemma res_bind_cong [fundef_cong]:
  "m = m' \<Longrightarrow> (\<And>x. m' = Inr x \<Longrightarrow> f x = g x) \<Longrightarrow> res_bind m f = res_bind m' g"
  by (cases m') auto

text \<open>The fold of a step that may fail over a list, stopped by the first failure: what a loop over
  a container with a block does.\<close>

fun foldM :: "('a \<Rightarrow> 's \<Rightarrow> 's res) \<Rightarrow> 'a list \<Rightarrow> 's \<Rightarrow> 's res" where
  "foldM f [] s = Inr s"
| "foldM f (x # xs) s = res_bind (f x s) (foldM f xs)"

lemma foldM_append: "foldM f (xs @ ys) s = res_bind (foldM f xs s) (foldM f ys)"
proof (induction xs arbitrary: s)
  case (Cons x xs)
  then show ?case by (cases "f x s") simp_all
qed simp

lemma foldM_map: "foldM f (map g xs) s = foldM (\<lambda>x. f (g x)) xs s"
proof (induction xs arbitrary: s)
  case (Cons x xs)
  then show ?case by (cases "f (g x) s") simp_all
qed simp

lemma foldM_pure: "(\<And>x s. f x s = Inr (g x s)) \<Longrightarrow> foldM f xs s = Inr (fold g xs s)"
  by (induction xs arbitrary: s) simp_all

lemma find_SomeD: "find P xs = Some x \<Longrightarrow> x \<in> set xs \<and> P x"
  by (induction xs) (auto split: if_splits)

section \<open>Memory of a C array\<close>

text \<open>
  An array object of the C heap is the list of its items. Reads and writes check the bounds:
  outside of them the C code has undefined behaviour, which is \<open>MemFault\<close> here.
  \<open>mem_copy dst d src s n\<close> is \<^verbatim>\<open>memcpy(dst + d, src + s, n)\<close> counted in items.
\<close>

definition mem_load :: "'a list \<Rightarrow> nat \<Rightarrow> 'a res" where
  "mem_load xs i = (if i < length xs then Inr (xs ! i) else Inl MemFault)"

definition mem_store :: "'a list \<Rightarrow> nat \<Rightarrow> 'a \<Rightarrow> 'a list res" where
  "mem_store xs i x = (if i < length xs then Inr (xs[i := x]) else Inl MemFault)"

definition mem_copy :: "'a list \<Rightarrow> nat \<Rightarrow> 'a list \<Rightarrow> nat \<Rightarrow> nat \<Rightarrow> 'a list res" where
  "mem_copy dst d src s n =
     (if n = 0 then Inr dst
      else if d + n \<le> length dst \<and> s + n \<le> length src
      then Inr (take d dst @ take n (drop s src) @ drop (d + n) dst)
      else Inl MemFault)"

lemma mem_load_ok [simp]: "i < length xs \<Longrightarrow> mem_load xs i = Inr (xs ! i)"
  by (simp add: mem_load_def)

lemma mem_store_ok [simp]: "i < length xs \<Longrightarrow> mem_store xs i x = Inr (xs[i := x])"
  by (simp add: mem_store_def)

lemma mem_load_fault: "length xs \<le> i \<Longrightarrow> mem_load xs i = Inl MemFault"
  by (simp add: mem_load_def)

lemma mem_store_fault: "length xs \<le> i \<Longrightarrow> mem_store xs i x = Inl MemFault"
  by (simp add: mem_store_def)

lemma mem_copy_ok:
  "d + n \<le> length dst \<Longrightarrow> s + n \<le> length src \<Longrightarrow>
   mem_copy dst d src s n = Inr (take d dst @ take n (drop s src) @ drop (d + n) dst)"
  by (auto simp: mem_copy_def)

lemma length_mem_copy: "mem_copy dst d src s n = Inr xs \<Longrightarrow> length xs = length dst"
  by (auto simp: mem_copy_def split: if_splits)

lemma mem_copy_take:
  "mem_copy dst d src s n = Inr xs \<Longrightarrow> d + n \<le> length dst \<Longrightarrow>
   take (d + n) xs = take d dst @ take n (drop s src)"
  by (auto simp: mem_copy_def split: if_splits)

section \<open>Machine integers\<close>

text \<open>
  A \<^verbatim>\<open>uint_t\<close> is a natural number below \<open>2 ^ 64\<close>, with the wrap-around of its arithmetic
  written out by \<open>uwrap\<close> and \<open>usub\<close>. An \<^verbatim>\<open>int_t\<close> is an integer in
  \<open>[- 2 ^ 63, 2 ^ 63)\<close>; \<open>iwrap\<close> is the two's complement wrap-around. A conversion of a
  signed value to \<^verbatim>\<open>uint_t\<close> is \<open>to_uint\<close>, back it is \<open>to_int\<close>.
\<close>

definition uwrap :: "nat \<Rightarrow> nat" where
  "uwrap n = n mod 2 ^ 64"

definition usub :: "nat \<Rightarrow> nat \<Rightarrow> nat" where
  "usub a b = (a + 2 ^ 64 - b) mod 2 ^ 64"

definition UNSIGNED_MAX :: nat where
  "UNSIGNED_MAX = 2 ^ 64 - 1"

definition SIGNED_MAX :: int where
  "SIGNED_MAX = 2 ^ 63 - 1"

definition SIGNED_MIN :: int where
  "SIGNED_MIN = - (2 ^ 63)"

definition iwrap :: "int \<Rightarrow> int" where
  "iwrap n = (n + 2 ^ 63) mod 2 ^ 64 - 2 ^ 63"

definition to_uint :: "int \<Rightarrow> nat" where
  "to_uint n = nat (n mod 2 ^ 64)"

definition to_int :: "nat \<Rightarrow> int" where
  "to_int n = iwrap (int n)"

lemma uwrap_small [simp]: "n < 2 ^ 64 \<Longrightarrow> uwrap n = n"
  by (simp add: uwrap_def)

lemma uwrap_less: "uwrap n < 2 ^ 64"
  by (simp add: uwrap_def)

lemma usub_le [simp]:
  assumes "b \<le> a" "a < 2 ^ 64"
  shows "usub a b = a - b"
proof -
  have "a + 2 ^ 64 - b = (a - b) + 2 ^ 64" using assms(1) by (simp del: power_numeral)
  moreover have "a - b < 2 ^ 64" using assms(2) by (rule le_less_trans[rotated]) simp
  ultimately show ?thesis by (simp only: usub_def mod_add_self2 mod_less)
qed

lemma usub_gt: "a < b \<Longrightarrow> b < 2 ^ 64 \<Longrightarrow> usub a b = a + 2 ^ 64 - b"
  by (simp add: usub_def)

lemma iwrap_small [simp]: "- (2 ^ 63) \<le> n \<Longrightarrow> n < 2 ^ 63 \<Longrightarrow> iwrap n = n"
  by (simp add: iwrap_def)

lemma iwrap_range: "- (2 ^ 63) \<le> iwrap n" "iwrap n < 2 ^ 63"
proof -
  have "0 \<le> (n + 2 ^ 63) mod 2 ^ 64" "(n + 2 ^ 63) mod 2 ^ 64 < (2 ^ 64 :: int)" by simp_all
  then show "- (2 ^ 63) \<le> iwrap n" "iwrap n < 2 ^ 63" by (simp_all add: iwrap_def)
qed

lemma to_uint_nonneg [simp]: "0 \<le> n \<Longrightarrow> n < 2 ^ 64 \<Longrightarrow> to_uint n = nat n"
  by (simp add: to_uint_def)

lemma to_int_small [simp]: "n < 2 ^ 63 \<Longrightarrow> to_int n = int n"
proof -
  assume "n < 2 ^ 63"
  then have "int n < 2 ^ 63" by (metis of_nat_less_iff of_nat_numeral of_nat_power)
  then show ?thesis by (simp add: to_int_def)
qed

text \<open>
  \<^verbatim>\<open>YogGC_check_multiply_overflow\<close> of \<^verbatim>\<open>src/gc.c\<close>: every allocation of an array of items
  passes through it.
\<close>

definition YogGC_check_multiply_overflow :: "nat \<Rightarrow> nat \<Rightarrow> unit res" where
  "YogGC_check_multiply_overflow n m =
     (let l = uwrap (n * m)
      in if m = 0 \<or> l div m = n then Inr ()
         else Inl (YogBug ''Multiplying %u with %u failed.''))"

lemma check_multiply_ok:
  assumes "n * m < 2 ^ 64"
  shows "YogGC_check_multiply_overflow n m = Inr ()"
  using assms by (cases "m = 0") (auto simp: YogGC_check_multiply_overflow_def)

lemma check_multiply_overflow_iff:
  assumes "n < 2 ^ 64" "0 < m"
  shows "YogGC_check_multiply_overflow n m = Inr () \<longleftrightarrow> n * m < 2 ^ 64"
proof
  assume "YogGC_check_multiply_overflow n m = Inr ()"
  with assms have "uwrap (n * m) div m = n"
    by (auto simp: YogGC_check_multiply_overflow_def Let_def split: if_splits)
  then have "n * m \<le> uwrap (n * m)"
    by (metis div_times_less_eq_dividend)
  also have "\<dots> < 2 ^ 64" by (rule uwrap_less)
  finally show "n * m < 2 ^ 64" .
qed (rule check_multiply_ok)

end
