(* ===== verification/YogValue.thy ===== *)
theory YogValue
  imports YogPrelude
begin

text \<open>
  Tagged values, from \<^verbatim>\<open>include/yog/yog.h\<close> and \<^verbatim>\<open>src/value.c\<close>. A \<^verbatim>\<open>YogVal\<close> is a 64 bit
  word whose low bits say what it is; the macros are definitions on \<open>64 word\<close>. Components that
  do not look at the bits work on \<open>yval\<close>, the view of a word that \<open>word_view\<close> reads.
\<close>

type_synonym YogVal = "64 word"

section \<open>The macros of yog.h\<close>

definition YUNDEF :: YogVal where "YUNDEF = 0x02"
definition YNIL :: YogVal where "YNIL = 0x06"
definition YFALSE :: YogVal where "YFALSE = 0x0a"
definition YTRUE :: YogVal where "YTRUE = 0x1a"

definition INT2VAL :: "int \<Rightarrow> YogVal" where
  "INT2VAL n = push_bit 1 (word_of_int n) + 1"

definition ID2VAL :: "64 word \<Rightarrow> YogVal" where
  "ID2VAL i = push_bit 4 i OR 0x0e"

definition VAL2INT :: "YogVal \<Rightarrow> int" where
  "VAL2INT v = sint (signed_drop_bit 1 v)"

definition VAL2ID :: "YogVal \<Rightarrow> 64 word" where
  "VAL2ID v = drop_bit 4 v"

definition VAL2BOOL :: "YogVal \<Rightarrow> bool" where
  "VAL2BOOL v \<longleftrightarrow> drop_bit 4 v \<noteq> 0"

definition IS_UNDEF :: "YogVal \<Rightarrow> bool" where "IS_UNDEF v \<longleftrightarrow> v = 0x02"
definition IS_PTR :: "YogVal \<Rightarrow> bool" where "IS_PTR v \<longleftrightarrow> v AND 0x03 = 0"
definition IS_FIXNUM :: "YogVal \<Rightarrow> bool" where "IS_FIXNUM v \<longleftrightarrow> v AND 0x01 = 0x01"
definition IS_BOOL :: "YogVal \<Rightarrow> bool" where "IS_BOOL v \<longleftrightarrow> v AND 0x0f = 0x0a"
definition IS_TRUE :: "YogVal \<Rightarrow> bool" where "IS_TRUE v \<longleftrightarrow> v = YTRUE"
definition IS_FALSE :: "YogVal \<Rightarrow> bool" where "IS_FALSE v \<longleftrightarrow> v = YFALSE"
definition IS_NIL :: "YogVal \<Rightarrow> bool" where "IS_NIL v \<longleftrightarrow> v = 0x06"
definition IS_SYMBOL :: "YogVal \<Rightarrow> bool" where "IS_SYMBOL v \<longleftrightarrow> v AND 0x0f = 0x0e"

definition YOG_TEST :: "YogVal \<Rightarrow> bool" where
  "YOG_TEST v \<longleftrightarrow> \<not> IS_NIL v \<and> \<not> IS_FALSE v"

definition YINT_MAX :: int where "YINT_MAX = SIGNED_MAX div 2"
definition YINT_MIN :: int where "YINT_MIN = SIGNED_MIN div 2"

definition FIXABLE :: "int \<Rightarrow> bool" where
  "FIXABLE n \<longleftrightarrow> YINT_MIN \<le> n \<and> n \<le> YINT_MAX"

lemmas YINT_range = YINT_MAX_def YINT_MIN_def SIGNED_MAX_def SIGNED_MIN_def

lemma FIXABLE_iff: "FIXABLE n \<longleftrightarrow> - (2 ^ 62) \<le> n \<and> n < 2 ^ 62"
  by (auto simp: FIXABLE_def YINT_range)

section \<open>The bits of a tagged value\<close>

lemma and_mask_numerals:
  fixes v :: YogVal
  shows "v AND 1 = take_bit 1 v" "v AND 3 = take_bit 2 v" "v AND 15 = take_bit 4 v"
  by (simp_all add: take_bit_eq_mask mask_eq_exp_minus_1)

text \<open>The kinds of a value, in the order of the table in \<^verbatim>\<open>yog.h\<close>.\<close>

definition kinds :: "YogVal \<Rightarrow> bool list" where
  "kinds v = [IS_FIXNUM v, IS_UNDEF v, IS_NIL v, IS_BOOL v, IS_SYMBOL v, IS_PTR v]"

lemma kinds_of_low_bits:
  fixes v :: YogVal
  shows "IS_FIXNUM v \<longleftrightarrow> take_bit 1 (take_bit 4 v) = 1"
    and "IS_PTR v \<longleftrightarrow> take_bit 2 (take_bit 4 v) = 0"
    and "IS_BOOL v \<longleftrightarrow> take_bit 4 v = 10"
    and "IS_SYMBOL v \<longleftrightarrow> take_bit 4 v = 14"
    and "IS_UNDEF v \<Longrightarrow> take_bit 4 v = 2"
    and "IS_NIL v \<Longrightarrow> take_bit 4 v = 6"
  by (auto simp: IS_FIXNUM_def IS_PTR_def IS_BOOL_def IS_SYMBOL_def IS_UNDEF_def IS_NIL_def
      and_mask_numerals)

lemma kinds_exclusive: "length (filter id (kinds v)) \<le> 1"
proof -
  define b where "b = take_bit 4 v"
  note k = kinds_of_low_bits[of v, folded b_def]
  have u: "IS_UNDEF v \<Longrightarrow> b = 2" "IS_NIL v \<Longrightarrow> b = 6" using k(5,6) by auto
  consider "IS_UNDEF v" | "IS_NIL v" | "b = 10" | "b = 14"
    | "\<not> IS_UNDEF v" "\<not> IS_NIL v" "b \<noteq> 10" "b \<noteq> 14" by blast
  then show ?thesis
  proof cases
    case 1
    then show ?thesis by (simp add: IS_UNDEF_def kinds_def IS_NIL_def IS_BOOL_def IS_SYMBOL_def
          IS_PTR_def IS_FIXNUM_def)
  next
    case 2
    then show ?thesis by (simp add: IS_UNDEF_def kinds_def IS_NIL_def IS_BOOL_def IS_SYMBOL_def
          IS_PTR_def IS_FIXNUM_def)
  next
    case 3 then show ?thesis using u by (auto simp: kinds_def k)
  next
    case 4 then show ?thesis using u by (auto simp: kinds_def k)
  next
    case 5
    have "take_bit 1 b = take_bit 1 (take_bit 2 b)" by (simp only: take_bit_take_bit) simp
    then have "\<not> (take_bit 1 b = 1 \<and> take_bit 2 b = 0)" by (auto simp del: take_bit_take_bit)
    with 5 show ?thesis by (cases "take_bit 1 b = 1") (simp_all only: kinds_def k, auto)
  qed
qed

lemma INT2VAL_word_of_int: "INT2VAL n = word_of_int (2 * n + 1)"
  by (simp add: INT2VAL_def)

lemma VAL2INT_sint: "VAL2INT v = sint v div 2"
  by (simp add: VAL2INT_def sint_signed_drop_bit_eq drop_bit_eq_div)

lemma VAL2INT_INT2VAL: "VAL2INT (INT2VAL n) = signed_take_bit 62 n"
proof -
  have "sint (INT2VAL n) = signed_take_bit (Suc 62) (2 * n + 1)"
    by (simp only: INT2VAL_word_of_int sint_sbintrunc') simp
  also have "\<dots> = 1 + 2 * signed_take_bit 62 n"
    by (simp only: signed_take_bit_Suc) simp
  finally show ?thesis by (simp add: VAL2INT_sint)
qed

lemma signed_take_bit_62_FIXABLE: "FIXABLE n \<Longrightarrow> signed_take_bit 62 n = n"
  by (simp add: FIXABLE_iff signed_take_bit_int_eq_self)

lemma FIXABLE_signed_take_bit: "FIXABLE (signed_take_bit 62 n)"
  using signed_take_bit_int_less_exp[of 62 n] signed_take_bit_int_greater_eq_minus_exp[of 62 n]
  by (simp add: FIXABLE_iff)

lemma FIXABLE_VAL2INT: "FIXABLE (VAL2INT v)"
proof -
  have "- (2 ^ 63) \<le> sint v" "sint v < 2 ^ 63"
    using sint_greater_eq[of v] sint_less[of v] by simp_all
  then show ?thesis unfolding VAL2INT_sint FIXABLE_iff by (simp, arith)
qed

lemma IS_FIXNUM_odd: "IS_FIXNUM v \<longleftrightarrow> odd v"
  by (simp add: IS_FIXNUM_def and_one_eq odd_iff_mod_2_eq_one)

lemma IS_FIXNUM_INT2VAL [simp]: "IS_FIXNUM (INT2VAL n)"
  by (simp add: IS_FIXNUM_odd INT2VAL_def)

lemma IS_SYMBOL_ID2VAL [simp]: "IS_SYMBOL (ID2VAL i)"
proof -
  have "take_bit 4 (push_bit 4 i OR 14 :: YogVal) = 14"
    by (simp add: take_bit_or take_bit_push_bit)
  then show ?thesis by (simp add: kinds_of_low_bits(4) ID2VAL_def)
qed

lemma VAL2ID_ID2VAL: "VAL2ID (ID2VAL i) = take_bit 60 i"
proof -
  have "drop_bit 4 (push_bit 4 i OR 14 :: YogVal) = drop_bit 4 (push_bit 4 i)"
    by (simp add: drop_bit_or)
  also have "\<dots> = take_bit 60 i"
    by (rule bit_word_eqI) (auto simp: bit_simps)
  finally show ?thesis by (simp add: VAL2ID_def ID2VAL_def)
qed

section \<open>The view of a value\<close>

text \<open>
  What a value is to the code that only asks for its kind: the payload of an immediate, or what
  it points to. \<open>word_view\<close> reads the view from a word (\<open>None\<close>: none of the six kinds), testing
  in the order of \<^verbatim>\<open>YogVal_print\<close>.
\<close>

datatype 'o yval =
    YUndef
  | YNil
  | YBool bool
  | YFixnum int
  | YSymbol "64 word"
  | YPtr 'o

definition word_view :: "YogVal \<Rightarrow> YogVal yval option" where
  "word_view v =
     (if IS_UNDEF v then Some YUndef
      else if IS_FIXNUM v then Some (YFixnum (VAL2INT v))
      else if IS_PTR v then Some (YPtr v)
      else if IS_BOOL v then Some (YBool (VAL2BOOL v))
      else if IS_NIL v then Some YNil
      else if IS_SYMBOL v then Some (YSymbol (VAL2ID v))
      else None)"

text \<open>\<open>int2val\<close> is \<^verbatim>\<open>INT2VAL\<close> on views: the payload of a Fixnum has 63 bits.\<close>

definition int2val :: "int \<Rightarrow> 'o yval" where
  "int2val n = YFixnum (signed_take_bit 62 n)"

definition bool2val :: "bool \<Rightarrow> 'o yval" where
  "bool2val b = YBool b"

definition yog_test :: "'o yval \<Rightarrow> bool" where
  "yog_test v = (case v of YNil \<Rightarrow> False | YBool b \<Rightarrow> b | _ \<Rightarrow> True)"

lemma int2val_FIXABLE [simp]: "FIXABLE n \<Longrightarrow> int2val n = YFixnum n"
  by (simp add: int2val_def signed_take_bit_62_FIXABLE)

lemma word_view_INT2VAL: "word_view (INT2VAL n) = Some (int2val n)"
proof -
  have "INT2VAL n \<noteq> 2" using IS_FIXNUM_INT2VAL[of n] by (auto simp: IS_FIXNUM_odd)
  then show ?thesis by (simp add: word_view_def IS_UNDEF_def int2val_def VAL2INT_INT2VAL)
qed

lemma word_view_constants:
  "word_view YUNDEF = Some YUndef" "word_view YNIL = Some YNil"
  "word_view YFALSE = Some (YBool False)" "word_view YTRUE = Some (YBool True)"
  by (simp_all add: word_view_def YUNDEF_def YNIL_def YFALSE_def YTRUE_def IS_UNDEF_def
      IS_FIXNUM_def IS_PTR_def IS_BOOL_def IS_NIL_def VAL2BOOL_def drop_bit_eq_div)

lemma word_view_ID2VAL: "word_view (ID2VAL i) = Some (YSymbol (take_bit 60 i))"
proof -
  have b: "take_bit 4 (ID2VAL i) = 14"
    using IS_SYMBOL_ID2VAL[of i] by (simp add: kinds_of_low_bits(4))
  have "\<not> IS_UNDEF (ID2VAL i)" "\<not> IS_NIL (ID2VAL i)"
    using kinds_of_low_bits(5,6)[of "ID2VAL i"] b by auto
  then show ?thesis
    using b by (simp add: word_view_def kinds_of_low_bits(1-3) VAL2ID_ID2VAL kinds_of_low_bits(4))
qed

text \<open>C31: whatever 64 bit word a value is, at most one of the six kind tests of yog.h answers
  yes, so the order in which the interpreter asks does not matter.\<close>

theorem value_kinds_exclusive: "length (filter id (kinds v)) \<le> 1"
  by (rule kinds_exclusive)

text \<open>An integer in the Fixnum range survives tagging: INT2VAL gives a word that every test
  reads as a Fixnum, and VAL2INT gives the integer back.\<close>

lemma fixnum_tag_roundtrip:
  assumes "FIXABLE n"
  shows "word_view (INT2VAL n) = Some (YFixnum n) \<and> VAL2INT (INT2VAL n) = n"
  using assms by (simp add: word_view_INT2VAL VAL2INT_INT2VAL signed_take_bit_62_FIXABLE)

lemma fixnum_tag_roundtrip_instance:
  "word_view (INT2VAL (- 5)) = Some (YFixnum (- 5)) \<and> VAL2INT (INT2VAL (- 5)) = - 5"
  by (rule fixnum_tag_roundtrip) (simp add: FIXABLE_iff)

section \<open>src/value.c\<close>

text \<open>
  The class of a value: the five classes of the VM for immediates, the \<^verbatim>\<open>klass\<close> member of the
  object otherwise (\<open>klass_of\<close> reads it).
\<close>

record vm_classes =
  cFixnum :: nat
  cBool :: nat
  cNil :: nat
  cSymbol :: nat

definition YogVal_get_class :: "vm_classes \<Rightarrow> (YogVal \<Rightarrow> nat) \<Rightarrow> YogVal \<Rightarrow> nat res" where
  "YogVal_get_class vm klass_of v =
     (if IS_FIXNUM v then Inr (cFixnum vm)
      else if IS_PTR v then Inr (klass_of v)
      else if IS_BOOL v then Inr (cBool vm)
      else if IS_NIL v then Inr (cNil vm)
      else if IS_SYMBOL v then Inr (cSymbol vm)
      else Inl (YogBug ''Uknown type of value (0x%08x)''))"

text \<open>
  \<^verbatim>\<open>YogVal_is_subclass_of\<close> climbs the \<^verbatim>\<open>super\<close> links (\<open>None\<close> is nil); \<open>None\<close> as a result is a
  climb that never ends.
\<close>

partial_function (option) climb_super :: "(nat \<Rightarrow> nat option) \<Rightarrow> nat option \<Rightarrow> nat \<Rightarrow> bool option"
where
  "climb_super super c klass =
     (case c of
        None \<Rightarrow> Some False
      | Some k \<Rightarrow> if k = klass then Some True else climb_super super (super k) klass)"

definition YogVal_is_subclass_of ::
  "vm_classes \<Rightarrow> (YogVal \<Rightarrow> nat) \<Rightarrow> (nat \<Rightarrow> nat option) \<Rightarrow> YogVal \<Rightarrow> nat \<Rightarrow> bool option res"
where
  "YogVal_is_subclass_of vm klass_of super v klass =
     res_bind (YogVal_get_class vm klass_of v) (\<lambda>c. Inr (climb_super super (Some c) klass))"

lemma climb_super_None [simp]: "climb_super super None klass = Some False"
  by (simp add: climb_super.simps)

lemma climb_super_Some:
  "climb_super super (Some k) klass =
     (if k = klass then Some True else climb_super super (super k) klass)"
  by (subst climb_super.simps) simp

lemma climb_super_total:
  assumes "wf {(b, a). super a = Some b}"
  shows "climb_super super (Some c) klass = Some ((c, klass) \<in> {(a, b). super a = Some b}\<^sup>*)"
  using assms
proof (induction c rule: wf_induct_rule)
  case (less c)
  let ?R = "{(a, b). super a = Some b}"
  show ?case
  proof (cases "c = klass")
    case True
    then show ?thesis by (simp add: climb_super_Some)
  next
    case False
    then have step: "(c, klass) \<in> ?R\<^sup>* \<longleftrightarrow> (\<exists>b. super c = Some b \<and> (b, klass) \<in> ?R\<^sup>*)"
      by (auto elim: converse_rtranclE intro: converse_rtrancl_into_rtrancl)
    show ?thesis
    proof (cases "super c")
      case None
      then show ?thesis using False step by (simp add: climb_super_Some)
    next
      case (Some b)
      then have "climb_super super (Some b) klass = Some ((b, klass) \<in> ?R\<^sup>*)"
        using less.IH by simp
      then show ?thesis using False step Some by (simp add: climb_super_Some)
    qed
  qed
qed

text \<open>C32: when no class is its own ancestor, YogVal_is_subclass_of always returns, and what it
  answers is exactly whether the class is among the ancestors of the value's class.\<close>

theorem is_subclass_of_reachability:
  assumes "wf {(b, a). super a = Some b}" and "YogVal_get_class vm klass_of v = Inr c"
  shows "YogVal_is_subclass_of vm klass_of super v klass =
           Inr (Some ((c, klass) \<in> {(a, b). super a = Some b}\<^sup>*))"
  using assms by (simp add: YogVal_is_subclass_of_def climb_super_total)

theorem is_subclass_of_reachability_witness:
  "YogVal_is_subclass_of \<lparr>cFixnum = 1, cBool = 2, cNil = 3, cSymbol = 4\<rparr> (\<lambda>_. 5)
     (\<lambda>k. if k = 0 then None else Some 0) (INT2VAL 7) 0 =
     Inr (Some (((1::nat), (0::nat)) \<in> {(a, b). (if a = 0 then None else Some 0) = Some b}\<^sup>*))"
proof (rule is_subclass_of_reachability)
  have "{(b, a). (if a = 0 then None else Some 0) = Some b} \<subseteq> measure (\<lambda>n :: nat. n)"
    by auto
  then show "wf {(b :: nat, a). (if a = 0 then None else Some 0) = Some b}"
    by (rule wf_subset[rotated]) simp
qed (simp add: YogVal_get_class_def)

section \<open>Numbers\<close>

text \<open>
  A number that a Fixnum operation yields. What does not fit a Fixnum is handed over to
  \<^verbatim>\<open>src/bignum.c\<close>: the result then is the call the code makes there, as a term of \<open>bigexp\<close>
  (\<open>BFix\<close> and \<open>BObj\<close> are operands: a Fixnum and an existing Bignum object), and
  \<open>bigexp_val\<close> is the integer the code asks for. Doubles are a parameter (\<open>float_ops\<close>): HOL has
  no C \<^verbatim>\<open>double\<close>.
\<close>

datatype 'b bigexp =
    BFix int
  | BObj 'b
  | BFromInt int
  | BFromUnsigned nat
  | BAdd "'b bigexp" "'b bigexp"
  | BSubtract "'b bigexp" "'b bigexp"
  | BMultiply "'b bigexp" "'b bigexp"
  | BModulo "'b bigexp" "'b bigexp"
  | BFloorDivide "'b bigexp" "'b bigexp"
  | BLshift "'b bigexp" int
  | BXor "'b bigexp" int
  | BAnd "'b bigexp" int
  | BOr "'b bigexp" int
  | BPower "'b bigexp" int

primrec bigexp_val :: "('b \<Rightarrow> int) \<Rightarrow> 'b bigexp \<Rightarrow> int" where
  "bigexp_val I (BFix n) = n"
| "bigexp_val I (BObj b) = I b"
| "bigexp_val I (BFromInt n) = n"
| "bigexp_val I (BFromUnsigned n) = int n"
| "bigexp_val I (BAdd x y) = bigexp_val I x + bigexp_val I y"
| "bigexp_val I (BSubtract x y) = bigexp_val I x - bigexp_val I y"
| "bigexp_val I (BMultiply x y) = bigexp_val I x * bigexp_val I y"
| "bigexp_val I (BModulo x y) = bigexp_val I x mod bigexp_val I y"
| "bigexp_val I (BFloorDivide x y) = bigexp_val I x div bigexp_val I y"
| "bigexp_val I (BLshift x n) = bigexp_val I x * 2 ^ nat n"
| "bigexp_val I (BXor x n) = (bigexp_val I x XOR n)"
| "bigexp_val I (BAnd x n) = (bigexp_val I x AND n)"
| "bigexp_val I (BOr x n) = (bigexp_val I x OR n)"
| "bigexp_val I (BPower x n) = bigexp_val I x ^ nat n"

datatype ('f, 'b, 's) num =
    NFix int
  | NBig "'b bigexp"
  | NFloat 'f
  | NStringMultiply 's int
  | NNil

definition int2num :: "int \<Rightarrow> ('f, 'b, 's) num" where
  "int2num n = NFix (signed_take_bit 62 n)"

fun num_val :: "('b \<Rightarrow> int) \<Rightarrow> ('f, 'b, 's) num \<Rightarrow> int option" where
  "num_val I (NFix n) = Some n"
| "num_val I (NBig e) = Some (bigexp_val I e)"
| "num_val I _ = None"

lemma int2num_FIXABLE [simp]: "FIXABLE n \<Longrightarrow> int2num n = NFix n"
  by (simp add: int2num_def signed_take_bit_62_FIXABLE)

definition YogVal_from_int :: "int \<Rightarrow> ('f, 'b, 's) num" where
  "YogVal_from_int n = (if FIXABLE n then int2num n else NBig (BFromInt n))"

definition YogVal_from_long_long :: "int \<Rightarrow> ('f, 'b, 's) num" where
  "YogVal_from_long_long n = (if FIXABLE n then int2num n else NBig (BFromInt n))"

definition YogVal_from_unsigned_int :: "nat \<Rightarrow> ('f, 'b, 's) num" where
  "YogVal_from_unsigned_int n =
     (if int n < YINT_MAX then int2num (int n) else NBig (BFromUnsigned n))"

definition YogVal_from_unsigned_long_long :: "nat \<Rightarrow> ('f, 'b, 's) num" where
  "YogVal_from_unsigned_long_long n =
     (if int n < YINT_MAX then int2num (int n) else NBig (BFromUnsigned n))"

lemma num_val_from_int [simp]:
  "num_val I (YogVal_from_int n) = Some n" "num_val I (YogVal_from_long_long n) = Some n"
  by (simp_all add: YogVal_from_int_def YogVal_from_long_long_def)

lemma num_val_from_unsigned [simp]:
  "num_val I (YogVal_from_unsigned_int n) = Some (int n)"
  "num_val I (YogVal_from_unsigned_long_long n) = Some (int n)"
proof -
  have "int n < YINT_MAX \<Longrightarrow> FIXABLE (int n)"
    by (simp add: FIXABLE_def YINT_range)
  then show "num_val I (YogVal_from_unsigned_int n) = Some (int n)"
    "num_val I (YogVal_from_unsigned_long_long n) = Some (int n)"
    by (simp_all add: YogVal_from_unsigned_int_def YogVal_from_unsigned_long_long_def)
qed

text \<open>
  Conversions of a value to a C integer, with the name of the argument for the message.
  \<open>to_unsigned\<close> and \<open>to_signed\<close> are the conversions of \<^verbatim>\<open>src/bignum.c\<close>;
  \<open>is_bignum\<close> is the test \<^verbatim>\<open>BASIC_OBJ_TYPE(self) == TYPE_BIGNUM\<close>.
\<close>

definition YogFixnum_to_uint :: "'o yval \<Rightarrow> nat res" where
  "YogFixnum_to_uint self =
     (case self of
        YFixnum n \<Rightarrow>
          if n < 0 then Inl (ValueError ''%s must be greater or equal 0, not %d'')
          else Inr (to_uint n)
      | _ \<Rightarrow> Inl (TypeError ''%s must be %s, not %C''))"

definition YogVal_to_uint :: "('o \<Rightarrow> bool) \<Rightarrow> ('o \<Rightarrow> nat res) \<Rightarrow> 'o yval \<Rightarrow> nat res" where
  "YogVal_to_uint is_bignum to_unsigned self =
     (case self of
        YFixnum _ \<Rightarrow> YogFixnum_to_uint self
      | YPtr o1 \<Rightarrow>
          if is_bignum o1 then to_unsigned o1
          else Inl (TypeError ''%s must be Fixnum or Bignum, not %C'')
      | _ \<Rightarrow> Inl (TypeError ''%s must be Fixnum or Bignum, not %C''))"

definition YogVal_to_signed_type :: "('o \<Rightarrow> bool) \<Rightarrow> ('o \<Rightarrow> int res) \<Rightarrow> 'o yval \<Rightarrow> int res"
where
  "YogVal_to_signed_type is_bignum to_signed self =
     (case self of
        YFixnum n \<Rightarrow> Inr n
      | YPtr o1 \<Rightarrow>
          if is_bignum o1 then to_signed o1
          else Inl (TypeError ''%s must be Fixnum or Bignum, not %C'')
      | _ \<Rightarrow> Inl (TypeError ''%s must be Fixnum or Bignum, not %C''))"

end
