(* ===== verification/YogFixnum.thy ===== *)
theory YogFixnum
  imports YogValue "HOL-Library.Signed_Division"
begin

text \<open>
  \<^verbatim>\<open>src/fixnum.c\<close>: arithmetic on tagged 63 bit integers with overflow into Bignum, shifts, bits,
  comparison, \<^verbatim>\<open>times\<close> and \<^verbatim>\<open>to_s\<close>. One definition per C function, branches in its order; a C
  \<^verbatim>\<open>int_t\<close> is an integer kept in range by \<open>iwrap\<close>, a C \<^verbatim>\<open>int\<close> by \<open>iwrap32\<close>; C division
  truncates (\<open>sdiv\<close>, \<open>smod\<close>) and traps on a zero divisor (\<open>ArithFault\<close>).
\<close>

section \<open>Operands and doubles\<close>

text \<open>The objects that the operators of a Fixnum know as right operands.\<close>

datatype ('f, 'b, 's) operand_obj = OFloat 'f | OBignum 'b | OString 's | OOther

type_synonym ('f, 'b, 's) operand = "('f, 'b, 's) operand_obj yval"

record ('f, 'b) float_ops =
  f_of_int :: "int \<Rightarrow> 'f"
  f_of_bignum :: "'b \<Rightarrow> 'f"
  f_add :: "'f \<Rightarrow> 'f \<Rightarrow> 'f"
  f_sub :: "'f \<Rightarrow> 'f \<Rightarrow> 'f"
  f_mul :: "'f \<Rightarrow> 'f \<Rightarrow> 'f"
  f_div :: "'f \<Rightarrow> 'f \<Rightarrow> 'f"
  f_pow :: "'f \<Rightarrow> 'f \<Rightarrow> 'f"
  f_power :: "'f \<Rightarrow> int \<Rightarrow> 'f"
  f_is_zero :: "'f \<Rightarrow> bool"

definition binop_type_error :: "string \<Rightarrow> 'a res" where
  "binop_type_error opname =
     Inl (TypeError (''unsupported operand type(s) for '' @
       (if opname = ''%'' then ''%%'' else opname) @ '': %C and %C''))"

definition check_self_fixnum :: "'o yval \<Rightarrow> (int \<Rightarrow> 'a res) \<Rightarrow> 'a res" where
  "check_self_fixnum self f =
     (case self of YFixnum n \<Rightarrow> f n | _ \<Rightarrow> Inl (TypeError ''self must be Fixnum''))"

definition iwrap32 :: "int \<Rightarrow> int" where
  "iwrap32 n = (n + 2 ^ 31) mod 2 ^ 32 - 2 ^ 31"

section \<open>Addition, subtraction, multiplication\<close>

definition YogFixnum_binop_add ::
  "('f, 'b) float_ops \<Rightarrow> int \<Rightarrow> ('f, 'b, 's) operand \<Rightarrow> ('f, 'b, 's) num res" where
  "YogFixnum_binop_add F self right =
     (case right of
        YFixnum m \<Rightarrow> Inr (YogVal_from_int (iwrap (self + m)))
      | YPtr (OFloat f) \<Rightarrow> Inr (NFloat (f_add F (f_of_int F self) f))
      | YPtr (OBignum b) \<Rightarrow> Inr (NBig (BAdd (BObj b) (BFix self)))
      | YUndef \<Rightarrow> Inl MemFault
      | _ \<Rightarrow> binop_type_error ''+'')"

definition YogFixnum_binop_subtract ::
  "('f, 'b) float_ops \<Rightarrow> int \<Rightarrow> ('f, 'b, 's) operand \<Rightarrow> ('f, 'b, 's) num res" where
  "YogFixnum_binop_subtract F self right =
     (case right of
        YFixnum m \<Rightarrow> Inr (YogVal_from_int (iwrap (self - m)))
      | YPtr (OFloat f) \<Rightarrow> Inr (NFloat (f_sub F (f_of_int F self) f))
      | YPtr (OBignum b) \<Rightarrow> Inr (NBig (BSubtract (BFromInt self) (BObj b)))
      | YUndef \<Rightarrow> Inl MemFault
      | _ \<Rightarrow> binop_type_error ''-'')"

definition multiply_int :: "int \<Rightarrow> int \<Rightarrow> ('f, 'b, 's) num" where
  "multiply_int n m =
     (if n = 0 then int2num 0
      else let l = iwrap (n * m)
           in if l sdiv n = m \<and> FIXABLE l then int2num l
              else NBig (BMultiply (BFromInt n) (BFix m)))"

definition YogFixnum_binop_multiply ::
  "('f, 'b) float_ops \<Rightarrow> int \<Rightarrow> ('f, 'b, 's) operand \<Rightarrow> ('f, 'b, 's) num res" where
  "YogFixnum_binop_multiply F self right =
     (case right of
        YFixnum m \<Rightarrow> Inr (multiply_int self m)
      | YPtr (OFloat f) \<Rightarrow> Inr (NFloat (f_mul F (f_of_int F self) f))
      | YPtr (OBignum b) \<Rightarrow> Inr (NBig (BMultiply (BFromInt self) (BObj b)))
      | YPtr (OString s) \<Rightarrow> Inr (NStringMultiply s self)
      | YUndef \<Rightarrow> Inl MemFault
      | _ \<Rightarrow> binop_type_error ''*'')"

section \<open>Division\<close>

definition divide_int :: "('f, 'b) float_ops \<Rightarrow> int \<Rightarrow> int \<Rightarrow> 'f res" where
  "divide_int F left right =
     (if right = 0 then Inl (ZeroDivisionError ''Fixnum division by zero'')
      else Inr (f_div F (f_of_int F left) (f_of_int F right)))"

definition divide_float :: "('f, 'b) float_ops \<Rightarrow> int \<Rightarrow> 'f \<Rightarrow> 'f res" where
  "divide_float F left right =
     (if f_is_zero F right then Inl (ZeroDivisionError ''Float division'')
      else Inr (f_div F (f_of_int F left) right))"

definition YogFixnum_binop_divide ::
  "('f, 'b) float_ops \<Rightarrow> int \<Rightarrow> ('f, 'b, 's) operand \<Rightarrow> ('f, 'b, 's) num res" where
  "YogFixnum_binop_divide F self right =
     (case right of
        YBool _ \<Rightarrow> binop_type_error ''/''
      | YNil \<Rightarrow> binop_type_error ''/''
      | YSymbol _ \<Rightarrow> binop_type_error ''/''
      | YFixnum m \<Rightarrow> res_bind (divide_int F self m) (\<lambda>f. Inr (NFloat f))
      | YPtr (OFloat g) \<Rightarrow> res_bind (divide_float F self g) (\<lambda>f. Inr (NFloat f))
      | YPtr (OBignum b) \<Rightarrow> Inr (NFloat (f_div F (f_of_int F self) (f_of_bignum F b)))
      | YUndef \<Rightarrow> Inl MemFault
      | YPtr _ \<Rightarrow> Inl (YogBug ''Invalid operand (%p)''))"

text \<open>
  \<^verbatim>\<open>div(n, m)\<close> of \<^verbatim>\<open>stdlib.h\<close> takes two C \<^verbatim>\<open>int\<close>s: the conversion of its arguments keeps the
  low 32 bits. It traps when the divisor is zero or the quotient is not an \<^verbatim>\<open>int\<close>.
\<close>

definition c_div :: "int \<Rightarrow> int \<Rightarrow> (int \<times> int) res" where
  "c_div n m =
     (let a = iwrap32 n; b = iwrap32 m
      in if b = 0 \<or> (a = - (2 ^ 31) \<and> b = - 1) then Inl ArithFault
         else Inr (a sdiv b, a smod b))"

definition floor_divide_int :: "int \<Rightarrow> int \<Rightarrow> int res" where
  "floor_divide_int n m =
     (if m = 0 then Inl (ZeroDivisionError ''Fixnum division by zero'')
      else res_bind (c_div n m) (\<lambda>(quot, rem).
        if (rem < 0 \<and> 0 < m) \<or> (0 < rem \<and> m < 0) then Inr (quot - 1) else Inr quot))"

definition floor_divide_float :: "('f, 'b) float_ops \<Rightarrow> int \<Rightarrow> 'f \<Rightarrow> 'f res" where
  "floor_divide_float F left right =
     (if f_is_zero F right then Inl (ZeroDivisionError ''float division'')
      else Inr (f_div F (f_of_int F left) right))"

definition YogFixnum_binop_floor_divide ::
  "('f, 'b) float_ops \<Rightarrow> int \<Rightarrow> ('f, 'b, 's) operand \<Rightarrow> ('f, 'b, 's) num res" where
  "YogFixnum_binop_floor_divide F self right =
     (case right of
        YFixnum m \<Rightarrow> res_bind (floor_divide_int self m) (\<lambda>q. Inr (int2num q))
      | YPtr (OFloat g) \<Rightarrow> res_bind (floor_divide_float F self g) (\<lambda>f. Inr (NFloat f))
      | YPtr (OBignum b) \<Rightarrow> Inr (NBig (BFloorDivide (BFromInt self) (BObj b)))
      | YUndef \<Rightarrow> Inl MemFault
      | _ \<Rightarrow> binop_type_error ''//'')"

definition YogFixnum_binop_modulo ::
  "int \<Rightarrow> ('f, 'b, 's) operand \<Rightarrow> ('f, 'b, 's) num res" where
  "YogFixnum_binop_modulo self right =
     (case right of
        YFixnum m \<Rightarrow> if m = 0 then Inl ArithFault else Inr (int2num (self smod m))
      | YPtr (OBignum b) \<Rightarrow> Inr (NBig (BModulo (BFromInt self) (BObj b)))
      | _ \<Rightarrow> binop_type_error ''%'')"

section \<open>Shifts\<close>

definition do_rshift :: "int \<Rightarrow> int \<Rightarrow> ('f, 'b, 's) num res" where
  "do_rshift val width =
     (if \<not> 0 \<le> width then Inl (YogBug ''negative width (%d)'')
      else if width < 64 then Inr (int2num (drop_bit (nat width) val))
      else Inr (int2num 0))"

definition do_lshift :: "int \<Rightarrow> int \<Rightarrow> ('f, 'b, 's) num res" where
  "do_lshift val width =
     (if \<not> 0 \<le> width then Inl (YogBug ''negative width (%d)'')
      else if width < 64
           \<and> (let result = iwrap (push_bit (nat width) val)
              in drop_bit (nat width) result = val \<and> FIXABLE result)
           then Inr (int2num (iwrap (push_bit (nat width) val)))
           else Inr (NBig (BLshift (BFromInt val) width)))"

definition YogFixnum_binop_rshift ::
  "int \<Rightarrow> ('f, 'b, 's) operand \<Rightarrow> ('f, 'b, 's) num res" where
  "YogFixnum_binop_rshift self right =
     (case right of
        YFixnum width \<Rightarrow>
          if 0 < width then do_rshift self width else do_lshift self (- width)
      | _ \<Rightarrow> binop_type_error ''>>'')"

definition YogFixnum_binop_lshift ::
  "int \<Rightarrow> ('f, 'b, 's) operand \<Rightarrow> ('f, 'b, 's) num res" where
  "YogFixnum_binop_lshift self right =
     (case right of
        YFixnum width \<Rightarrow>
          if 0 < width then do_lshift self width else do_rshift self (- width)
      | _ \<Rightarrow> binop_type_error ''<<'')"

section \<open>Bits\<close>

definition YogFixnum_binop_xor ::
  "int \<Rightarrow> ('f, 'b, 's) operand \<Rightarrow> ('f, 'b, 's) num res" where
  "YogFixnum_binop_xor self right =
     (case right of
        YFixnum m \<Rightarrow> Inr (int2num (self XOR m))
      | YPtr (OBignum b) \<Rightarrow> Inr (NBig (BXor (BObj b) self))
      | YUndef \<Rightarrow> Inl MemFault
      | _ \<Rightarrow> binop_type_error ''^'')"

definition YogFixnum_binop_and ::
  "int \<Rightarrow> ('f, 'b, 's) operand \<Rightarrow> ('f, 'b, 's) num res" where
  "YogFixnum_binop_and self right =
     (case right of
        YFixnum m \<Rightarrow> Inr (int2num (self AND m))
      | YPtr (OBignum b) \<Rightarrow> Inr (NBig (BAnd (BObj b) self))
      | YUndef \<Rightarrow> Inl MemFault
      | _ \<Rightarrow> binop_type_error ''&'')"

definition YogFixnum_binop_or ::
  "int \<Rightarrow> ('f, 'b, 's) operand \<Rightarrow> ('f, 'b, 's) num res" where
  "YogFixnum_binop_or self right =
     (case right of
        YFixnum m \<Rightarrow> Inr (int2num (self OR m))
      | YPtr (OBignum b) \<Rightarrow> Inr (NBig (BOr (BObj b) self))
      | YUndef \<Rightarrow> Inl MemFault
      | _ \<Rightarrow> binop_type_error ''|'')"

section \<open>Power\<close>

text \<open>The loop of \<^verbatim>\<open>power_int\<close>: \<open>None\<close> is the exit into \<^verbatim>\<open>YogBignum_power\<close>.\<close>

function power_loop :: "int \<Rightarrow> int \<Rightarrow> int \<Rightarrow> int option" where
  "power_loop base x y =
     (if 1 < y then
        let x2 = iwrap (x * base)
        in if \<not> FIXABLE x2 \<or> (x \<noteq> 0 \<and> x2 sdiv x \<noteq> base) then None
           else power_loop base x2 (y - 1)
      else Some x)"
  by pat_completeness auto
termination
  by (relation "measure (\<lambda>(base, x, y). nat y)") (auto simp: Let_def)

declare power_loop.simps [simp del]

definition power_int :: "('f, 'b) float_ops \<Rightarrow> int \<Rightarrow> int \<Rightarrow> ('f, 'b, 's) num res" where
  "power_int F base exp =
     (if exp < 0 then
        if base = 0
        then Inl (ZeroDivisionError ''0.0 cannot be raised to a negative power'')
        else Inr (NFloat (f_power F (f_div F (f_of_int F 1) (f_of_int F base)) (- exp)))
      else if exp = 0 then Inr (int2num 1)
      else case power_loop base base exp of
             Some x \<Rightarrow> Inr (int2num x)
           | None \<Rightarrow> Inr (NBig (BPower (BFromInt base) exp)))"

definition YogFixnum_binop_power ::
  "('f, 'b) float_ops \<Rightarrow> int \<Rightarrow> ('f, 'b, 's) operand \<Rightarrow> ('f, 'b, 's) num res" where
  "YogFixnum_binop_power F self right =
     (case right of
        YFixnum m \<Rightarrow> power_int F self m
      | YPtr (OFloat f) \<Rightarrow> Inr (NFloat (f_pow F (f_of_int F self) f))
      | YUndef \<Rightarrow> Inl MemFault
      | _ \<Rightarrow> binop_type_error ''**'')"

section \<open>Comparison, unary operators, hash\<close>

definition YogFixnum_binop_ufo :: "int \<Rightarrow> ('f, 'b, 's) operand \<Rightarrow> ('f, 'b, 's) num res" where
  "YogFixnum_binop_ufo self right =
     (case right of
        YFixnum n \<Rightarrow>
          let m = iwrap (self - n)
          in if m < 0 then Inr (int2num (- 1)) else if m = 0 then Inr (int2num 0)
             else Inr (int2num 1)
      | _ \<Rightarrow> Inr NNil)"

definition fixnum_negative :: "'o yval \<Rightarrow> ('f, 'b, 's) num res" where
  "fixnum_negative self = check_self_fixnum self (\<lambda>n. Inr (int2num (iwrap (- n))))"

definition fixnum_positive :: "'o yval \<Rightarrow> ('f, 'b, 's) num res" where
  "fixnum_positive self = check_self_fixnum self (\<lambda>n. Inr (NFix n))"

definition fixnum_not :: "'o yval \<Rightarrow> ('f, 'b, 's) num res" where
  "fixnum_not self = check_self_fixnum self (\<lambda>n. Inr (int2num (NOT n)))"

definition fixnum_hash :: "'o yval \<Rightarrow> ('f, 'b, 's) num res" where
  "fixnum_hash self = check_self_fixnum self (\<lambda>n. Inr (NFix n))"

section \<open>times\<close>

text \<open>
  The counter \<^verbatim>\<open>i\<close> is a \<^verbatim>\<open>uint_t\<close> and the bound an \<^verbatim>\<open>int_t\<close>, so C compares them unsigned. The
  block is a function on the state of the interpreter; it may raise.
\<close>

function times_loop :: "(int \<Rightarrow> 's \<Rightarrow> 's res) \<Rightarrow> nat \<Rightarrow> nat \<Rightarrow> 's \<Rightarrow> 's res" where
  "times_loop block n i s =
     (if i < n then
        res_bind (block (signed_take_bit 62 (int i)) s) (\<lambda>t. times_loop block n (Suc i) t)
      else Inr s)"
  by pat_completeness auto
termination
  by (relation "measure (\<lambda>(block, n, i, s). n - i)") auto

declare times_loop.simps [simp del]

definition fixnum_times :: "(int \<Rightarrow> 's \<Rightarrow> 's res) \<Rightarrow> 'o yval \<Rightarrow> 's \<Rightarrow> 's res" where
  "fixnum_times block self s = check_self_fixnum self (\<lambda>n. times_loop block (to_uint n) 0 s)"

section \<open>to_s\<close>

text \<open>
  \<^verbatim>\<open>to_s_internal\<close> writes the digits from the end of a buffer of 31 bytes towards its start.
  \<open>buf_put\<close> is \<^verbatim>\<open>*p = c; p--\<close> with \<open>p\<close> an offset into the buffer; the string is what lies
  between the last \<open>p\<close> and the terminating NUL at offset 30.
\<close>

definition digit_char :: "int \<Rightarrow> char" where
  "digit_char d = (if d < 10 then char_of (48 + nat d) else char_of (97 + nat d - 10))"

definition buf_put :: "char list \<Rightarrow> int \<Rightarrow> char \<Rightarrow> (char list \<times> int) res" where
  "buf_put buf p c =
     (if p < 0 then Inl MemFault
      else res_bind (mem_store buf (nat p) c) (\<lambda>b. Inr (b, p - 1)))"

function to_s_loop :: "char list \<Rightarrow> int \<Rightarrow> int \<Rightarrow> int \<Rightarrow> (char list \<times> int) res" where
  "to_s_loop buf p num radix =
     (let d = num smod radix
      in res_bind (buf_put buf p (digit_char d)) (\<lambda>(b, q).
           let num' = num sdiv radix
           in if num' \<noteq> 0 then to_s_loop b q num' radix else Inr (b, q)))"
  by pat_completeness auto
termination
  by (relation "measure (\<lambda>(buf, p, num, radix). nat (p + 1))")
     (auto simp: buf_put_def split: if_splits elim!: res_bind_InrE)

declare to_s_loop.simps [simp del]

definition to_s_internal :: "int \<Rightarrow> int \<Rightarrow> char list res" where
  "to_s_internal self radix =
     (let buf = (replicate 31 (CHR 0x00)) [30 := CHR 0x00]
      in res_bind (to_s_loop buf 29 \<bar>self\<bar> radix) (\<lambda>(b, p).
           res_bind (if self < 0 then buf_put b p (CHR 0x2D) else Inr (b, p)) (\<lambda>(b', p').
             Inr (takeWhile (\<lambda>c. c \<noteq> CHR 0x00) (drop (nat (p' + 1)) b')))))"

definition fixnum_to_s :: "'o yval \<Rightarrow> 'p yval option \<Rightarrow> char list res" where
  "fixnum_to_s self radix =
     check_self_fixnum self (\<lambda>n.
       case radix of
         None \<Rightarrow> to_s_internal n 10
       | Some (YFixnum r) \<Rightarrow>
           if r < 2 \<or> 36 < r
           then Inl (ValueError ''radix must be in range from 2 to 36, not %d'')
           else to_s_internal n r
       | Some _ \<Rightarrow> Inl (TypeError ''%s must be %s, not %C''))"

section \<open>The methods: check of self, then the operator\<close>

definition fixnum_add ::
  "('f, 'b) float_ops \<Rightarrow> 'o yval \<Rightarrow> ('f, 'b, 's) operand \<Rightarrow> ('f, 'b, 's) num res" where
  "fixnum_add F self n = check_self_fixnum self (\<lambda>s. YogFixnum_binop_add F s n)"

definition fixnum_subtract ::
  "('f, 'b) float_ops \<Rightarrow> 'o yval \<Rightarrow> ('f, 'b, 's) operand \<Rightarrow> ('f, 'b, 's) num res" where
  "fixnum_subtract F self n = check_self_fixnum self (\<lambda>s. YogFixnum_binop_subtract F s n)"

definition fixnum_multiply ::
  "('f, 'b) float_ops \<Rightarrow> 'o yval \<Rightarrow> ('f, 'b, 's) operand \<Rightarrow> ('f, 'b, 's) num res" where
  "fixnum_multiply F self n = check_self_fixnum self (\<lambda>s. YogFixnum_binop_multiply F s n)"

definition fixnum_divide ::
  "('f, 'b) float_ops \<Rightarrow> 'o yval \<Rightarrow> ('f, 'b, 's) operand \<Rightarrow> ('f, 'b, 's) num res" where
  "fixnum_divide F self n = check_self_fixnum self (\<lambda>s. YogFixnum_binop_divide F s n)"

definition fixnum_modulo ::
  "'o yval \<Rightarrow> ('f, 'b, 's) operand \<Rightarrow> ('f, 'b, 's) num res" where
  "fixnum_modulo self n = check_self_fixnum self (\<lambda>s. YogFixnum_binop_modulo s n)"

definition fixnum_floor_divide ::
  "('f, 'b) float_ops \<Rightarrow> 'o yval \<Rightarrow> ('f, 'b, 's) operand \<Rightarrow> ('f, 'b, 's) num res" where
  "fixnum_floor_divide F self n = check_self_fixnum self (\<lambda>s. YogFixnum_binop_floor_divide F s n)"

definition fixnum_xor :: "'o yval \<Rightarrow> ('f, 'b, 's) operand \<Rightarrow> ('f, 'b, 's) num res" where
  "fixnum_xor self n = check_self_fixnum self (\<lambda>s. YogFixnum_binop_xor s n)"

definition fixnum_and :: "'o yval \<Rightarrow> ('f, 'b, 's) operand \<Rightarrow> ('f, 'b, 's) num res" where
  "fixnum_and self n = check_self_fixnum self (\<lambda>s. YogFixnum_binop_and s n)"

definition fixnum_or :: "'o yval \<Rightarrow> ('f, 'b, 's) operand \<Rightarrow> ('f, 'b, 's) num res" where
  "fixnum_or self n = check_self_fixnum self (\<lambda>s. YogFixnum_binop_or s n)"

definition fixnum_rshift :: "'o yval \<Rightarrow> ('f, 'b, 's) operand \<Rightarrow> ('f, 'b, 's) num res" where
  "fixnum_rshift self n = check_self_fixnum self (\<lambda>s. YogFixnum_binop_rshift s n)"

definition fixnum_lshift :: "'o yval \<Rightarrow> ('f, 'b, 's) operand \<Rightarrow> ('f, 'b, 's) num res" where
  "fixnum_lshift self n = check_self_fixnum self (\<lambda>s. YogFixnum_binop_lshift s n)"

definition fixnum_power ::
  "('f, 'b) float_ops \<Rightarrow> 'o yval \<Rightarrow> ('f, 'b, 's) operand \<Rightarrow> ('f, 'b, 's) num res" where
  "fixnum_power F self n = check_self_fixnum self (\<lambda>s. YogFixnum_binop_power F s n)"

definition fixnum_ufo :: "'o yval \<Rightarrow> ('f, 'b, 's) operand \<Rightarrow> ('f, 'b, 's) num res" where
  "fixnum_ufo self n = check_self_fixnum self (\<lambda>s. YogFixnum_binop_ufo s n)"

section \<open>Integer results\<close>

text \<open>
  The facts behind exactness: the \<^verbatim>\<open>int_t\<close> arithmetic on two Fixnums does not wrap where the code
  does not check, and where it checks (by dividing or shifting back) the check accepts exactly the
  results that fit. \<open>normal_num\<close> says that a result is an immediate exactly when it fits.
\<close>

named_theorems fixnum_defs

definition normal_num :: "('b \<Rightarrow> int) \<Rightarrow> ('f, 'b, 's) num \<Rightarrow> int \<Rightarrow> bool" where
  "normal_num I r z \<longleftrightarrow> num_val I r = Some z \<and> (FIXABLE z \<longrightarrow> r = NFix z)
     \<and> (\<forall>n. r = NFix n \<longrightarrow> FIXABLE z)"

lemma normal_num_from_int: "normal_num I (YogVal_from_int z) z"
  by (auto simp: normal_num_def YogVal_from_int_def)

lemma iwrap_add_fixables: "FIXABLE a \<Longrightarrow> FIXABLE b \<Longrightarrow> iwrap (a + b) = a + b"
  by (rule iwrap_small) (simp_all add: FIXABLE_iff)

lemma iwrap_diff_fixables: "FIXABLE a \<Longrightarrow> FIXABLE b \<Longrightarrow> iwrap (a - b) = a - b"
  by (rule iwrap_small) (simp_all add: FIXABLE_iff)

lemma iwrap_FIXABLE [simp]: "FIXABLE n \<Longrightarrow> iwrap n = n"
  by (rule iwrap_small) (simp_all add: FIXABLE_iff)

lemma iwrap_congruent: "\<exists>k. iwrap n = n - k * 2 ^ 64"
proof
  have "(n + 2 ^ 63) mod 2 ^ 64 = n + 2 ^ 63 - (n + 2 ^ 63) div 2 ^ 64 * 2 ^ 64"
    by (simp add: minus_div_mult_eq_mod)
  then show "iwrap n = n - (n + 2 ^ 63) div 2 ^ 64 * 2 ^ 64" by (simp add: iwrap_def)
qed

lemma multiply_check:
  assumes "n \<noteq> 0" "FIXABLE n" "iwrap (n * m) sdiv n = m"
  shows "iwrap (n * m) = n * m"
proof -
  obtain k where k: "iwrap (n * m) = n * m - k * 2 ^ 64" using iwrap_congruent by blast
  have "iwrap (n * m) - m * n = iwrap (n * m) smod n"
    using assms(3) minus_sdiv_mult_eq_smod[of "iwrap (n * m)" n] by simp
  moreover have "\<bar>iwrap (n * m) smod n\<bar> < \<bar>n\<bar>"
    using smod_int_range[of n "iwrap (n * m)"] assms(1) by auto
  ultimately have "\<bar>k * 2 ^ 64\<bar> < \<bar>n\<bar>" using k by (simp add: mult.commute)
  also have "\<bar>n\<bar> < 2 ^ 64" using assms(2) by (simp add: FIXABLE_iff abs_less_iff)
  finally have "k = 0" by (simp add: abs_mult)
  then show ?thesis using k by simp
qed

lemma sdiv_cancel: "n \<noteq> 0 \<Longrightarrow> n * m sdiv n = (m :: int)"
  by (simp add: signed_divide_int_def abs_mult sgn_mult mult.assoc[symmetric]) 
     (simp add: sgn_mult_abs sgn_if)

lemma multiply_int_normal:
  assumes "FIXABLE n" "FIXABLE m"
  shows "normal_num I (multiply_int n m) (n * m)"
proof (cases "n = 0 \<or> FIXABLE (n * m)")
  case True
  then show ?thesis
    by (auto simp: multiply_int_def Let_def normal_num_def sdiv_cancel FIXABLE_iff[of 0])
next
  case False
  then have "\<not> (iwrap (n * m) sdiv n = m \<and> FIXABLE (iwrap (n * m)))"
    using multiply_check[OF _ assms(1), of m] by auto
  with False show ?thesis by (simp add: multiply_int_def Let_def normal_num_def)
qed

lemma shift_check:
  assumes "w < 64" "drop_bit w (iwrap (push_bit w a)) = a"
  shows "iwrap (push_bit w a) = push_bit w a"
proof -
  let ?r = "iwrap (push_bit w a)"
  obtain k where k: "?r = push_bit w a - k * 2 ^ 64" using iwrap_congruent by blast
  have "(2 :: int) ^ 64 = 2 ^ (64 - w) * 2 ^ w" using assms(1) by (simp flip: power_add)
  then have "?r = (a - k * 2 ^ (64 - w)) * 2 ^ w"
    using k by (simp add: push_bit_eq_mult algebra_simps del: power_numeral)
  then have "?r = push_bit w (drop_bit w ?r)" by (simp add: push_bit_eq_mult drop_bit_eq_div)
  then show ?thesis using assms(2) by simp
qed

lemma FIXABLE_push_bit: "FIXABLE (push_bit w a) \<Longrightarrow> w < 64 \<or> a = 0"
proof (rule ccontr)
  assume f: "FIXABLE (push_bit w a)" and "\<not> (w < 64 \<or> a = 0)"
  then have "a \<noteq> 0" "(2 :: int) ^ 64 \<le> 2 ^ w"
    by (blast, intro power_increasing, simp_all)
  moreover have "\<bar>push_bit w a\<bar> = \<bar>a\<bar> * 2 ^ w" by (simp add: push_bit_eq_mult abs_mult)
  moreover have "1 * 2 ^ w \<le> \<bar>a\<bar> * 2 ^ w" using \<open>a \<noteq> 0\<close> by (intro mult_right_mono) auto
  moreover have "\<bar>push_bit w a\<bar> < 2 ^ 64" using f by (simp add: FIXABLE_iff abs_less_iff)
  ultimately show False by linarith
qed

lemma do_lshift_exact:
  assumes "0 \<le> w"
  shows "\<exists>r. do_lshift a w = Inr r \<and> num_val I r = Some (a * 2 ^ nat w)"
proof (cases "w < 64 \<and> drop_bit (nat w) (iwrap (push_bit (nat w) a)) = a
               \<and> FIXABLE (iwrap (push_bit (nat w) a))")
  case True
  then have "iwrap (push_bit (nat w) a) = push_bit (nat w) a"
    by (intro shift_check) auto
  with True assms show ?thesis by (auto simp: do_lshift_def push_bit_eq_mult)
next
  case False
  then show ?thesis using assms by (auto simp: do_lshift_def Let_def)
qed

lemma do_lshift_immediate:
  assumes "0 \<le> w" "w < 64" "FIXABLE (a * 2 ^ nat w)"
  shows "do_lshift a w = Inr (NFix (a * 2 ^ nat w))"
  using assms by (simp add: do_lshift_def push_bit_eq_mult drop_bit_eq_div Let_def)

lemma do_rshift_floor:
  assumes "0 \<le> w" "w < 64" "FIXABLE a"
  shows "do_rshift a w = Inr (NFix (a div 2 ^ nat w))"
proof -
  have "FIXABLE (a div 2 ^ n)" for n
  proof (induction n)
    case (Suc n)
    have "a div 2 ^ Suc n = a div 2 ^ n div 2"
      by (metis mult.commute power_Suc zdiv_zmult2_eq zero_le_numeral)
    moreover have "x div 2 \<in> {- (2 ^ 62)..<2 ^ 62}" if "x \<in> {- (2 ^ 62)..<2 ^ 62}" for x :: int
      using that by (simp, arith)
    ultimately show ?case using Suc by (simp add: FIXABLE_iff)
  qed (use assms in simp)
  then show ?thesis using assms by (simp add: do_rshift_def drop_bit_eq_div)
qed

section \<open>Power\<close>

text \<open>The accumulator of the loop after some rounds is a power of the base; either it stays exact
  to the end or the loop gives up, and then Bignum computes the same power.\<close>

lemma power_loop_exact:
  assumes "FIXABLE base" "FIXABLE x" "power_loop base x y = Some r"
  shows "r = x * base ^ nat (y - 1) \<and> FIXABLE r"
  using assms
proof (induction base x y rule: power_loop.induct)
  case (1 base x y)
  show ?case
  proof (cases "1 < y")
    case False
    then show ?thesis using 1 by (simp add: power_loop.simps[of base x y])
  next
    case True
    let ?x2 = "iwrap (x * base)"
    have c: "FIXABLE ?x2" "x = 0 \<or> ?x2 sdiv x = base" "power_loop base ?x2 (y - 1) = Some r"
      using "1.prems"(3) True by (auto simp: power_loop.simps[of base x y] Let_def split: if_splits)
    have x2: "?x2 = x * base" using c(2) multiply_check[OF _ "1.prems"(2)] by (cases "x = 0") auto
    have "r = ?x2 * base ^ nat (y - 1 - 1) \<and> FIXABLE r"
      using "1.IH"[OF True refl _ "1.prems"(1) c(1,3)] c by auto
    moreover have "nat (y - 1) = Suc (nat (y - 1 - 1))" using True by simp
    ultimately show ?thesis by (auto simp: x2 mult.assoc)
  qed
qed

lemma power_int_exact:
  assumes "FIXABLE base" "0 \<le> exp"
  shows "\<exists>r. power_int F base exp = Inr r \<and> num_val I r = Some (base ^ nat exp)"
proof (cases "power_loop base base exp")
  case None
  then show ?thesis using assms by (auto simp: power_int_def FIXABLE_iff)
next
  case (Some x)
  then have "x = base * base ^ nat (exp - 1) \<and> FIXABLE x"
    by (intro power_loop_exact assms)
  moreover have "exp \<noteq> 0 \<Longrightarrow> nat exp = Suc (nat (exp - 1))" using assms(2) by simp
  ultimately show ?thesis using Some assms by (auto simp: power_int_def FIXABLE_iff)
qed

section \<open>Floor division\<close>

lemma div_sdiv_smod:
  fixes n m :: int
  assumes "m \<noteq> 0"
  shows "n div m = (if (n smod m < 0 \<and> 0 < m) \<or> (0 < n smod m \<and> m < 0)
                    then n sdiv m - 1 else n sdiv m)"
proof -
  let ?q = "n sdiv m" and ?r = "n smod m"
  have n: "n = m * ?q + ?r" using sdiv_mult_smod_eq[of n m] by (simp add: mult.commute)
  have r: "\<bar>?r\<bar> < \<bar>m\<bar>" using smod_int_range[OF assms, of n] by auto
  show ?thesis
  proof (cases "(?r < 0 \<and> 0 < m) \<or> (0 < ?r \<and> m < 0)")
    case True
    have "n = m * (?q - 1) + (?r + m)" using n by (simp add: algebra_simps)
    then have "n div m = ?q - 1"
      using True r int_div_pos_eq[of n m "?q - 1" "?r + m"] int_div_neg_eq[of n m "?q - 1" "?r + m"]
      by auto
    then show ?thesis using True by simp
  next
    case False
    then have "n div m = ?q"
      using n r assms int_div_pos_eq[of n m ?q ?r] int_div_neg_eq[of n m ?q ?r]
      by (cases m "0 :: int" rule: linorder_cases) auto
    then show ?thesis using False by simp
  qed
qed

lemma iwrap32_small [simp]: "- (2 ^ 31) \<le> n \<Longrightarrow> n < 2 ^ 31 \<Longrightarrow> iwrap32 n = n"
  by (simp add: iwrap32_def)

definition c_int_range :: "int \<Rightarrow> bool" where
  "c_int_range n \<longleftrightarrow> - (2 ^ 31) \<le> n \<and> n < 2 ^ 31"

lemma floor_divide_int_div:
  assumes "c_int_range n" "c_int_range m" "m \<noteq> 0" "\<not> (n = - (2 ^ 31) \<and> m = - 1)"
  shows "floor_divide_int n m = Inr (n div m)"
  using assms unfolding floor_divide_int_def c_div_def Let_def c_int_range_def
  by (simp only: iwrap32_small if_False) (simp add: div_sdiv_smod del: sdiv_int_numeral_numeral)

section \<open>to_s and times\<close>

text \<open>The digits of a natural number, most significant first, and the number that a string of
  digits denotes: the specification of \<^verbatim>\<open>to_s\<close>.\<close>

function digits :: "int \<Rightarrow> int \<Rightarrow> char list" where
  "digits radix n =
     (if n < radix \<or> radix < 2 then [digit_char n]
      else digits radix (n div radix) @ [digit_char (n mod radix)])"
  by pat_completeness auto
termination
  by (relation "measure (\<lambda>(radix, n). nat n)") (auto simp: int_div_less_self)

declare digits.simps [simp del]

definition digit_value :: "char \<Rightarrow> int" where
  "digit_value c = (let k = int (of_char c) in if k < 58 then k - 48 else k - 87)"

definition parse_digits :: "int \<Rightarrow> string \<Rightarrow> int" where
  "parse_digits radix s = foldl (\<lambda>n c. n * radix + digit_value c) 0 s"

definition parse_int :: "int \<Rightarrow> string \<Rightarrow> int" where
  "parse_int radix s =
     (if s \<noteq> [] \<and> hd s = CHR 0x2D then - parse_digits radix (tl s) else parse_digits radix s)"

lemma of_char_digit_char:
  assumes "0 \<le> d" "d < 36"
  shows "(of_char (digit_char d) :: nat) = (if d < 10 then 48 + nat d else 87 + nat d)"
proof -
  have "nat d < 36" using assms by simp
  then show ?thesis by (auto simp: digit_char_def)
qed

lemma digit_value_digit_char:
  assumes "0 \<le> d" "d < 36"
  shows "digit_value (digit_char d) = d"
  using assms by (simp only: digit_value_def of_char_digit_char[OF assms] Let_def) auto

lemma digit_char_printable:
  assumes "0 \<le> d" "d < 36"
  shows "digit_char d \<noteq> CHR 0x00" "digit_char d \<noteq> CHR 0x2D"
proof -
  have "(of_char (digit_char d) :: nat) \<noteq> of_char (CHR 0x00)"
       "(of_char (digit_char d) :: nat) \<noteq> of_char (CHR 0x2D)"
    using of_char_digit_char[OF assms] by auto
  then show "digit_char d \<noteq> CHR 0x00" "digit_char d \<noteq> CHR 0x2D" by auto
qed

lemma parse_digits_snoc: "parse_digits radix (s @ [c]) = parse_digits radix s * radix + digit_value c"
  by (simp add: parse_digits_def)

lemma digits_spec:
  assumes "0 \<le> n" "2 \<le> radix" "radix \<le> 36"
  shows "parse_digits radix (digits radix n) = n \<and> digits radix n \<noteq> []
     \<and> CHR 0x00 \<notin> set (digits radix n) \<and> CHR 0x2D \<notin> set (digits radix n)"
  using assms
proof (induction radix n rule: digits.induct)
  case (1 radix n)
  show ?case
  proof (cases "n < radix")
    case True
    then show ?thesis using 1 digit_char_printable[of n]
      by (simp add: digits.simps[of radix n] parse_digits_def digit_value_digit_char)
  next
    case False
    have m: "0 \<le> n mod radix" "n mod radix < 36"
      using pos_mod_bound[of radix n] pos_mod_sign[of radix n] 1(3,4) by linarith+
    show ?thesis using 1 False digit_char_printable[OF m]
      by (simp add: digits.simps[of radix n] parse_digits_snoc digit_value_digit_char[OF m]
          pos_imp_zdiv_nonneg_iff)
  qed
qed

lemma length_digits:
  assumes "0 \<le> n" "2 \<le> radix" "n < radix ^ k" "0 < k"
  shows "length (digits radix n) \<le> k"
  using assms
proof (induction radix n arbitrary: k rule: digits.induct)
  case (1 radix n)
  show ?case
  proof (cases "n < radix")
    case True
    then show ?thesis using 1 by (simp add: digits.simps[of radix n])
  next
    case False
    obtain j where k: "k = Suc j" using 1(5) by (cases k) auto
    with False 1(4) have "0 < j" by (cases j) auto
    have "n div radix < radix ^ j"
    proof (rule ccontr)
      assume "\<not> n div radix < radix ^ j"
      then have "radix ^ j * radix \<le> n div radix * radix" using 1(3) by (intro mult_right_mono) auto
      also have "\<dots> \<le> n"
        using minus_mod_eq_div_mult[of n radix] pos_mod_sign[of radix n] 1(3) by linarith
      finally show False using 1(4) k by (simp add: mult.commute)
    qed
    then show ?thesis using 1 False k \<open>0 < j\<close>
      by (simp add: digits.simps[of radix n] pos_imp_zdiv_nonneg_iff)
  qed
qed

text \<open>The loop leaves in the buffer, right before the offset where it started, the digits of the
  number.\<close>

lemma buf_put_ok:
  "0 \<le> p \<Longrightarrow> p < int (length buf) \<Longrightarrow> buf_put buf p c = Inr (buf[nat p := c], p - 1)"
  by (simp add: buf_put_def mem_store_def nat_less_iff)

lemma to_s_loop_spec:
  assumes "0 \<le> n" "2 \<le> radix" "length (digits radix n) \<le> Suc p" "p < length buf"
  shows "to_s_loop buf (int p) n radix =
    Inr (take (Suc p - length (digits radix n)) buf @ digits radix n @ drop (Suc p) buf,
         int p - int (length (digits radix n)))"
  using assms
proof (induction radix n arbitrary: buf p rule: digits.induct)
  case (1 radix n)
  have sm: "n smod radix = n mod radix" "n sdiv radix = n div radix"
    using 1 by (simp_all add: smod_mod_positive signed_divide_int_def sgn_if)
  have put: "buf_put buf (int p) c = Inr (buf[p := c], int p - 1)" for c
    using 1 by (simp add: buf_put_ok)
  have upd: "buf[p := c] = take p buf @ c # drop (Suc p) buf" for c
    using 1 by (simp add: upd_conv_take_nth_drop)
  show ?case
  proof (cases "n < radix")
    case True
    then have "n mod radix = n" "n div radix = 0" using 1 by simp_all
    then show ?thesis using True
      by (simp add: to_s_loop.simps[of buf] digits.simps[of radix n] sm put Let_def upd)
  next
    case False
    then have nz: "n div radix \<noteq> 0" "0 \<le> n div radix" using 1 
      by (simp_all add: pos_imp_zdiv_nonneg_iff zdiv_eq_0_iff)
    let ?c = "digit_char (n mod radix)" and ?ds = "digits radix (n div radix)"
    have d: "digits radix n = ?ds @ [?c]" using False 1 by (simp add: digits.simps[of radix n])
    have "?ds \<noteq> []" by (subst digits.simps) simp
    then obtain p' where p: "p = Suc p'" using 1(4) d by (cases p) auto
    have "to_s_loop (buf[p := ?c]) (int p') (n div radix) radix =
      Inr (take (Suc p' - length ?ds) (buf[p := ?c]) @ ?ds @ drop (Suc p') (buf[p := ?c]),
           int p' - int (length ?ds))"
      using 1(1)[of p' "buf[p := ?c]"] False 1(2-) d p nz by auto
    moreover have "buf_put buf (1 + int p') ?c = Inr (buf[Suc p' := ?c], int p')"
      using put[of ?c] p by simp
    ultimately show ?thesis using nz 1(5)
      by (simp add: to_s_loop.simps[of buf] sm Let_def d p) (simp add: upd[unfolded p])
  qed
qed

lemma replicate_update: "(replicate (Suc k) x @ ys)[k := c] = replicate k x @ c # ys"
  by (induction k) auto

lemma nul_buf: "(replicate 31 (CHR 0x00))[30 := CHR 0x00] = replicate 31 (CHR 0x00)"
  by (simp add: numeral_eq_Suc)

lemma to_s_internal_spec:
  assumes "2 \<le> radix" "radix \<le> 36" "\<bar>n\<bar> < radix ^ 29"
  shows "to_s_internal n radix = Inr ((if n < 0 then ''-'' else []) @ digits radix \<bar>n\<bar>)"
proof -
  let ?ds = "digits radix \<bar>n\<bar>"
  let ?buf = "(replicate 31 (CHR 0x00))[30 := CHR 0x00]"
  have l: "length ?ds \<le> 29" using assms by (intro length_digits) simp_all
  have loop: "to_s_loop ?buf 29 \<bar>n\<bar> radix =
    Inr (take (30 - length ?ds) ?buf @ ?ds @ [CHR 0x00], 29 - int (length ?ds))"
    using to_s_loop_spec[of "\<bar>n\<bar>" radix 29 ?buf] assms l by (simp add: nul_buf)
  have nz: "CHR 0x00 \<notin> set ?ds" using digits_spec[of "\<bar>n\<bar>" radix] assms by simp
  then have tw: "takeWhile (\<lambda>c. c \<noteq> CHR 0x00) (?ds @ CHR 0x00 # ys) = ?ds" for ys
    by (subst takeWhile_append2) auto
  show ?thesis
  proof (cases "n < 0")
    case True
    obtain k where k: "length ?ds = 29 - k" "k \<le> 29" using l by (metis diff_diff_cancel diff_le_self)
    have "buf_put (take (30 - length ?ds) ?buf @ ?ds @ [CHR 0x00]) (29 - int (length ?ds)) CHR 0x2D
      = Inr (take (29 - length ?ds) ?buf @ CHR 0x2D # ?ds @ [CHR 0x00], 28 - int (length ?ds))"
      using k by (subst buf_put_ok) (auto simp: nul_buf replicate_update Suc_diff_le simp del: replicate_Suc)
    then show ?thesis using True loop tw l nz
      by (simp add: to_s_internal_def Let_def)
  next
    case False
    then show ?thesis using loop tw l nz by (simp add: to_s_internal_def Let_def)
  qed
qed

lemma pow29_bound: "5 \<le> radix \<Longrightarrow> FIXABLE n \<Longrightarrow> \<bar>n\<bar> < radix ^ 29"
proof -
  assume "5 \<le> radix" "FIXABLE n"
  then have "\<bar>n\<bar> < 5 ^ 29" by (simp add: FIXABLE_iff abs_less_iff)
  also have "\<dots> \<le> radix ^ 29" using \<open>5 \<le> radix\<close> by (intro power_mono) auto
  finally show ?thesis .
qed

lemma parse_to_s:
  assumes "2 \<le> radix" "radix \<le> 36" "\<bar>n\<bar> < radix ^ 29" "to_s_internal n radix = Inr s"
  shows "parse_int radix s = n"
proof -
  have ds: "parse_digits radix (digits radix \<bar>n\<bar>) = \<bar>n\<bar>" "CHR 0x2D \<notin> set (digits radix \<bar>n\<bar>)"
    using digits_spec[of "\<bar>n\<bar>" radix] assms by auto
  have s: "s = (if n < 0 then ''-'' else []) @ digits radix \<bar>n\<bar>"
    using to_s_internal_spec[OF assms(1-3)] assms(4) by simp
  show ?thesis
  proof (cases "n < 0")
    case False
    then have "s \<noteq> [] \<Longrightarrow> hd s \<noteq> CHR 0x2D" using s ds(2) by (metis append_Nil hd_in_set)
    then show ?thesis using False s ds(1) by (auto simp: parse_int_def)
  qed (use s ds in \<open>simp add: parse_int_def\<close>)
qed

text \<open>times: the reference is the fold of the block over the numbers below the bound, stopped by
  the first exception.\<close>

lemma times_loop_foldM:
  assumes "int n < 2 ^ 62"
  shows "times_loop block n i s = foldM (\<lambda>k. block (int k)) [i..<n] s"
  using assms
proof (induction block n i s rule: times_loop.induct)
  case (1 block n i s)
  show ?case
  proof (cases "i < n")
    case True
    then have "signed_take_bit 62 (int i) = int i"
      using 1(2) by (intro signed_take_bit_62_FIXABLE) (simp add: FIXABLE_iff)
    then show ?thesis using 1 True
      by (cases "block (int i) s") (simp_all add: times_loop.simps[of block n i] upt_conv_Cons)
  qed (simp add: times_loop.simps[of block n i])
qed

lemma signed_take_bit_bitwise:
  fixes n m :: int
  shows "signed_take_bit k (n XOR m) = (signed_take_bit k n XOR signed_take_bit k m)"
    "signed_take_bit k (n AND m) = (signed_take_bit k n AND signed_take_bit k m)"
    "signed_take_bit k (n OR m) = (signed_take_bit k n OR signed_take_bit k m)"
  by (auto intro!: bit_eqI simp: bit_simps)

lemmas fixnum_binop_defs = YogFixnum_binop_add_def YogFixnum_binop_subtract_def
  YogFixnum_binop_multiply_def YogFixnum_binop_divide_def YogFixnum_binop_floor_divide_def
  YogFixnum_binop_modulo_def YogFixnum_binop_rshift_def YogFixnum_binop_lshift_def
  YogFixnum_binop_xor_def YogFixnum_binop_and_def YogFixnum_binop_or_def
  YogFixnum_binop_power_def YogFixnum_binop_ufo_def

lemmas fixnum_method_defs = fixnum_add_def fixnum_subtract_def fixnum_multiply_def
  fixnum_divide_def fixnum_modulo_def fixnum_floor_divide_def fixnum_xor_def fixnum_and_def
  fixnum_or_def fixnum_rshift_def fixnum_lshift_def fixnum_power_def fixnum_ufo_def
  fixnum_negative_def fixnum_positive_def fixnum_not_def fixnum_hash_def fixnum_times_def
  fixnum_to_s_def check_self_fixnum_def

section \<open>Properties\<close>

text \<open>Floating point operations for the instances of the properties: integers.\<close>

definition int_floats :: "(int, int) float_ops" where
  "int_floats = \<lparr>f_of_int = (\<lambda>n. n), f_of_bignum = (\<lambda>b. b), f_add = (+), f_sub = (-), f_mul = (*),
     f_div = (div), f_pow = (\<lambda>x y. x ^ nat y), f_power = (\<lambda>x n. x ^ nat n), f_is_zero = (\<lambda>x. x = 0)\<rparr>"

definition int_value :: "int \<Rightarrow> int" where
  "int_value b = b"

text \<open>Addition, subtraction and multiplication of two Fixnums never lose a bit: the result
  denotes the exact integer, it is an immediate Fixnum exactly when that integer is in the Fixnum
  range, and otherwise the Bignum that the code builds denotes it.\<close>

lemma fixnum_ring_exact:
  assumes "FIXABLE n" "FIXABLE m"
  shows "\<exists>a s p. fixnum_add F (YFixnum n) (YFixnum m) = Inr a \<and> normal_num I a (n + m)
    \<and> fixnum_subtract F (YFixnum n) (YFixnum m) = Inr s \<and> normal_num I s (n - m)
    \<and> fixnum_multiply F (YFixnum n) (YFixnum m) = Inr p \<and> normal_num I p (n * m)"
  using assms by (simp add: fixnum_method_defs fixnum_binop_defs iwrap_add_fixables
      iwrap_diff_fixables normal_num_from_int multiply_int_normal)

lemma fixnum_ring_exact_instance:
  "\<exists>a s p. fixnum_add int_floats (YFixnum (2 ^ 61)) (YFixnum (2 ^ 61)) = Inr a
      \<and> normal_num int_value a ((2 ^ 61 :: int) + 2 ^ 61)
    \<and> fixnum_subtract int_floats (YFixnum (2 ^ 61)) (YFixnum (2 ^ 61)) = Inr s
      \<and> normal_num int_value s ((2 ^ 61 :: int) - 2 ^ 61)
    \<and> fixnum_multiply int_floats (YFixnum (2 ^ 61)) (YFixnum (2 ^ 61)) = Inr p
      \<and> normal_num int_value p ((2 ^ 61 :: int) * 2 ^ 61)"
  by (rule fixnum_ring_exact) (simp_all add: FIXABLE_iff)

text \<open>The left shift by a positive width multiplies by the power of two, in a Fixnum or in a
  Bignum; the right shift by a width below the word size is the floor of the division by it.\<close>

lemma fixnum_shift_exact:
  assumes "FIXABLE n" "0 < w"
  shows "(\<exists>r. fixnum_lshift (YFixnum n) (YFixnum w) = Inr r
            \<and> num_val I r = Some (n * 2 ^ nat w))
    \<and> (w < 64 \<longrightarrow> fixnum_rshift (YFixnum n) (YFixnum w) = Inr (NFix (n div 2 ^ nat w)))"
  using assms by (simp add: fixnum_method_defs fixnum_binop_defs do_lshift_exact do_rshift_floor)

lemma fixnum_shift_exact_instance:
  "(\<exists>r. fixnum_lshift (YFixnum (- 3)) (YFixnum 62) = Inr r
            \<and> num_val int_value r = Some (- 3 * 2 ^ nat 62))
    \<and> fixnum_rshift (YFixnum (- 3)) (YFixnum 62) = Inr (NFix (- 3 div 2 ^ nat 62))"
  using fixnum_shift_exact[of "- 3" 62 int_value] by (simp add: FIXABLE_iff)

text \<open>A Fixnum raised to a Fixnum that is not negative is the exact power, whether the loop
  with its overflow check completes or the code falls back to Bignum.\<close>

lemma fixnum_power_exact:
  assumes "FIXABLE n" "0 \<le> e"
  shows "\<exists>r. fixnum_power F (YFixnum n) (YFixnum e) = Inr r \<and> num_val I r = Some (n ^ nat e)"
  using assms by (simp add: fixnum_method_defs fixnum_binop_defs power_int_exact)

lemma fixnum_power_exact_instance:
  "\<exists>r. fixnum_power int_floats (YFixnum 10) (YFixnum 30) = Inr r \<and> num_val int_value r = Some (10 ^ nat 30)"
  by (rule fixnum_power_exact) (simp_all add: FIXABLE_iff)

text \<open>For operands that a C int holds, except the least one over -1, where \<^verbatim>\<open>div\<close> traps, floor division rounds towards minus
  infinity, for every combination of signs, and a zero divisor raises ZeroDivisionError.\<close>

lemma fixnum_floor_divide_floors:
  assumes "c_int_range n" "c_int_range m" "\<not> (n = - (2 ^ 31) \<and> m = - 1)"
  shows "fixnum_floor_divide F (YFixnum n) (YFixnum m) =
    (if m = 0 then Inl (ZeroDivisionError ''Fixnum division by zero'') else Inr (NFix (n div m)))"
proof (cases "m = 0")
  case False
  have "\<bar>n div m\<bar> \<le> \<bar>n\<bar> + 1"
    using sdiv_int_range[of n m] by (auto simp: div_sdiv_smod[OF False])
  then have "FIXABLE (n div m)" using assms(1) by (auto simp: c_int_range_def FIXABLE_iff)
  then show ?thesis using False floor_divide_int_div[OF assms(1,2) False assms(3)]
    by (simp add: fixnum_method_defs fixnum_binop_defs)
qed (simp add: fixnum_method_defs fixnum_binop_defs floor_divide_int_def)

lemma fixnum_floor_divide_floors_instance:
  "fixnum_floor_divide int_floats (YFixnum (- 7)) (YFixnum 2) =
    (if (2 :: int) = 0 then Inl (ZeroDivisionError ''Fixnum division by zero'')
     else Inr (NFix (- 7 div 2)))"
  by (rule fixnum_floor_divide_floors) (simp_all add: c_int_range_def)

text \<open>The bitwise operators on two Fixnums are those on the infinite two's complement: no bit
  is lost to the tag, and the complement is an immediate Fixnum again.\<close>

lemma fixnum_bits_exact:
  assumes "FIXABLE n" "FIXABLE m"
  shows "fixnum_xor (YFixnum n) (YFixnum m) = Inr (NFix (n XOR m))
    \<and> fixnum_and (YFixnum n) (YFixnum m) = Inr (NFix (n AND m))
    \<and> fixnum_or (YFixnum n) (YFixnum m) = Inr (NFix (n OR m))
    \<and> fixnum_not (YFixnum n) = Inr (NFix (- n - 1))"
proof -
  have "FIXABLE (NOT n)" using assms(1) by (simp add: FIXABLE_iff not_int_def)
  then show ?thesis using assms
    by (simp add: fixnum_method_defs fixnum_binop_defs int2num_def signed_take_bit_bitwise signed_take_bit_62_FIXABLE not_int_def)
qed

lemma fixnum_bits_exact_instance:
  "fixnum_xor (YFixnum (- 4)) (YFixnum 6) = Inr (NFix ((- 4) XOR 6))
    \<and> fixnum_and (YFixnum (- 4)) (YFixnum 6) = Inr (NFix ((- 4) AND 6))
    \<and> fixnum_or (YFixnum (- 4)) (YFixnum 6) = Inr (NFix ((- 4) OR 6))
    \<and> fixnum_not (YFixnum (- 4)) = Inr (NFix (- (- 4) - 1))"
  by (rule fixnum_bits_exact) (simp_all add: FIXABLE_iff)

text \<open>Times runs the block on 0, 1, ..., n - 1 in this order, stops at the first exception with
  that exception, and returns for every n that is not negative.\<close>

lemma fixnum_times_runs:
  assumes "FIXABLE n" "0 \<le> n"
  shows "fixnum_times block (YFixnum n) s = foldM (\<lambda>k. block (int k)) [0..<nat n] s"
  using assms times_loop_foldM[of "nat n" block 0 s]
  by (simp add: fixnum_method_defs FIXABLE_iff)

lemma fixnum_times_runs_instance:
  "fixnum_times (\<lambda>k s. if k = 2 then Inl (UserError 7) else Inr (s + k)) (YFixnum 5) (0 :: int) =
   foldM (\<lambda>k s. if int k = 2 then Inl (UserError 7) else Inr (s + int k)) [0..<nat 5] 0"
  by (rule fixnum_times_runs) (simp_all add: FIXABLE_iff)

text \<open>C27: to_s in a radix from 5 to 36 stays inside its buffer for every Fixnum, and reading the
  string back in that radix gives the Fixnum.\<close>

theorem fixnum_to_s_roundtrip:
  assumes "FIXABLE n" "5 \<le> radix" "radix \<le> 36"
  shows "\<exists>s. fixnum_to_s (YFixnum n) (Some (YFixnum radix)) = Inr s \<and> parse_int radix s = n"
  using assms to_s_internal_spec[of radix n] pow29_bound[of radix n] parse_to_s[of radix n]
  by (simp add: fixnum_method_defs)

theorem fixnum_to_s_roundtrip_witness:
  "\<exists>s. fixnum_to_s (YFixnum (- 4611686018427387904)) (Some (YFixnum 5)) = Inr s
     \<and> parse_int 5 s = - 4611686018427387904"
  by (rule fixnum_to_s_roundtrip) (simp_all add: FIXABLE_iff)

text \<open>In the radixes 2, 3 and 4 the buffer of 31 bytes is too small for some Fixnums: the
  conversion of 2 ^ 30 to binary writes before its start.\<close>

lemma fixnum_to_s_underflow:
  "fixnum_to_s (YFixnum (2 ^ 30)) (Some (YFixnum 2)) = Inl MemFault"
  by code_simp

text \<open>Shifting a negative Fixnum right by the word size or more yields 0, although every
  smaller width rounds towards minus infinity (-1 for the large ones).\<close>

lemma fixnum_rshift_wide:
  assumes "n < 0" "FIXABLE n" "62 \<le> w"
  shows "fixnum_rshift (YFixnum n) (YFixnum w) = Inr (NFix (if w < 64 then - 1 else 0))"
proof -
  have "n div 2 ^ nat w = - 1" if "w < 64"
  proof -
    have "(2 :: int) ^ 62 \<le> 2 ^ nat w" using assms(3) by (intro power_increasing) auto
    then show ?thesis using assms by (intro int_div_pos_eq[of _ _ _ "n + 2 ^ nat w"])
        (simp_all add: FIXABLE_iff)
  qed
  then show ?thesis using assms 
    by (cases "w < 64") (simp_all add: fixnum_method_defs fixnum_binop_defs do_rshift_floor,
        simp add: do_rshift_def FIXABLE_iff[of 0])
qed

lemma fixnum_rshift_wide_instance:
  "fixnum_rshift (YFixnum (- 8)) (YFixnum 64) = Inr (NFix (if (64 :: int) < 64 then - 1 else 0))"
  by (rule fixnum_rshift_wide) (simp_all add: FIXABLE_iff)

section \<open>Facts for the mixin of comparison operators\<close>

lemma fixnum_ufo_sgn:
  "FIXABLE n \<Longrightarrow> FIXABLE m \<Longrightarrow> fixnum_ufo (YFixnum n) (YFixnum m) = Inr (NFix (sgn (n - m)))"
  by (simp add: fixnum_method_defs fixnum_binop_defs iwrap_diff_fixables Let_def sgn_if
      FIXABLE_iff[of "-1"] FIXABLE_iff[of 0] FIXABLE_iff[of 1])

end
