(* ===== verification/YogComparable.thy ===== *)
theory YogComparable
  imports YogFixnum
begin

text \<open>
  \<^verbatim>\<open>src/comparable.c\<close>: the mixin that derives the six comparison methods of a class from its
  \<^verbatim>\<open><=>\<close>. The method call \<^verbatim>\<open>self <=> x\<close> is an argument of every operation. The interface
  \<open>ufo_order\<close> is what the mixin relies on; Fixnum is interpreted here, String in its own theory.
\<close>

section \<open>The methods\<close>

definition cmp :: "('a \<Rightarrow> 'a \<Rightarrow> 'o yval res) \<Rightarrow> 'a \<Rightarrow> 'a \<Rightarrow> 'o yval res" where
  "cmp ufo self x = ufo self x"

definition conv_to_cmp :: "'o yval \<Rightarrow> int res" where
  "conv_to_cmp c =
     (case c of YFixnum n \<Rightarrow> Inr n | _ \<Rightarrow> Inl (TypeError ''comparison of %C with %C failed''))"

definition greater_equal :: "('a \<Rightarrow> 'a \<Rightarrow> 'o yval res) \<Rightarrow> 'a \<Rightarrow> 'a \<Rightarrow> bool res" where
  "greater_equal ufo self x =
     res_bind (cmp ufo self x) (\<lambda>c. res_bind (conv_to_cmp c) (\<lambda>n.
       if 0 \<le> n then Inr True else Inr False))"

definition greater_than :: "('a \<Rightarrow> 'a \<Rightarrow> 'o yval res) \<Rightarrow> 'a \<Rightarrow> 'a \<Rightarrow> bool res" where
  "greater_than ufo self x =
     res_bind (cmp ufo self x) (\<lambda>c. res_bind (conv_to_cmp c) (\<lambda>n.
       if 0 < n then Inr True else Inr False))"

definition less_equal :: "('a \<Rightarrow> 'a \<Rightarrow> 'o yval res) \<Rightarrow> 'a \<Rightarrow> 'a \<Rightarrow> bool res" where
  "less_equal ufo self x =
     res_bind (cmp ufo self x) (\<lambda>c. res_bind (conv_to_cmp c) (\<lambda>n.
       if n \<le> 0 then Inr True else Inr False))"

definition less_than :: "('a \<Rightarrow> 'a \<Rightarrow> 'o yval res) \<Rightarrow> 'a \<Rightarrow> 'a \<Rightarrow> bool res" where
  "less_than ufo self x =
     res_bind (cmp ufo self x) (\<lambda>c. res_bind (conv_to_cmp c) (\<lambda>n.
       if n < 0 then Inr True else Inr False))"

definition not_equal :: "('a \<Rightarrow> 'a \<Rightarrow> 'o yval res) \<Rightarrow> 'a \<Rightarrow> 'a \<Rightarrow> bool res" where
  "not_equal ufo self x =
     res_bind (cmp ufo self x) (\<lambda>c.
       if c = YNil then Inr True
       else res_bind (conv_to_cmp c) (\<lambda>n. if n \<noteq> 0 then Inr True else Inr False))"

definition equal_to :: "('a \<Rightarrow> 'a \<Rightarrow> 'o yval res) \<Rightarrow> 'a \<Rightarrow> 'a \<Rightarrow> bool res" where
  "equal_to ufo self x =
     res_bind (cmp ufo self x) (\<lambda>c.
       if c = YNil then Inr False
       else res_bind (conv_to_cmp c) (\<lambda>n. if n = 0 then Inr True else Inr False))"

lemmas comparable_defs = cmp_def conv_to_cmp_def greater_equal_def greater_than_def less_equal_def
  less_than_def not_equal_def equal_to_def

section \<open>The interface\<close>

text \<open>
  What \<^verbatim>\<open><=>\<close> promises on a set of values: it returns a Fixnum with the sign of the comparison of
  two ranks. From that every derived method returns and the six are one linear order.
\<close>

locale ufo_order =
  fixes ufo :: "'a \<Rightarrow> 'a \<Rightarrow> 'o yval res"
    and dom :: "'a \<Rightarrow> bool"
    and rank :: "'a \<Rightarrow> 'r :: linorder"
  assumes ufo_fixnum: "dom x \<Longrightarrow> dom y \<Longrightarrow> \<exists>n. ufo x y = Inr (YFixnum n)"
    and ufo_neg: "dom x \<Longrightarrow> dom y \<Longrightarrow> ufo x y = Inr (YFixnum n) \<Longrightarrow> n < 0 \<longleftrightarrow> rank x < rank y"
    and ufo_zero: "dom x \<Longrightarrow> dom y \<Longrightarrow> ufo x y = Inr (YFixnum n) \<Longrightarrow> n = 0 \<longleftrightarrow> rank x = rank y"
begin

lemma ufo_cases:
  assumes "dom x" "dom y"
  obtains n where "ufo x y = Inr (YFixnum n)" "n < 0 \<longleftrightarrow> rank x < rank y" "n = 0 \<longleftrightarrow> rank x = rank y"
  using ufo_fixnum[OF assms] ufo_neg[OF assms] ufo_zero[OF assms] by blast

lemma derived_order:
  assumes "dom x" "dom y"
  shows "less_than ufo x y = Inr (rank x < rank y)"
    and "less_equal ufo x y = Inr (rank x \<le> rank y)"
    and "greater_than ufo x y = Inr (rank y < rank x)"
    and "greater_equal ufo x y = Inr (rank y \<le> rank x)"
    and "equal_to ufo x y = Inr (rank x = rank y)"
    and "not_equal ufo x y = Inr (rank x \<noteq> rank y)"
  by (rule ufo_cases[OF assms]; auto simp: comparable_defs)+

lemma derived_antisym:
  "dom x \<Longrightarrow> dom y \<Longrightarrow> less_equal ufo x y = Inr True \<Longrightarrow> less_equal ufo y x = Inr True \<Longrightarrow>
   equal_to ufo x y = Inr True"
  using derived_order by auto

lemma derived_trans:
  "dom x \<Longrightarrow> dom y \<Longrightarrow> dom z \<Longrightarrow> less_equal ufo x y = Inr True \<Longrightarrow>
   less_equal ufo y z = Inr True \<Longrightarrow> less_equal ufo x z = Inr True"
  using derived_order(2)[of x y] derived_order(2)[of y z] derived_order(2)[of x z] by auto

lemma derived_complement:
  "dom x \<Longrightarrow> dom y \<Longrightarrow> less_than ufo x y = Inr b \<Longrightarrow> greater_equal ufo x y = Inr (\<not> b)"
  using derived_order by auto

end

section \<open>Fixnum\<close>

text \<open>\<^verbatim>\<open><=>\<close> of Fixnum as a method on values; its result is a Fixnum or nil.\<close>

definition fixnum_ufo_method :: "('f, 'b, 's) operand \<Rightarrow> ('f, 'b, 's) operand \<Rightarrow> 'o yval res" where
  "fixnum_ufo_method self x =
     res_bind (fixnum_ufo self x) (\<lambda>r :: ('f, 'b, 's) num.
       case r of NFix n \<Rightarrow> Inr (YFixnum n) | _ \<Rightarrow> Inr YNil)"

definition is_fixnum_val :: "'o yval \<Rightarrow> bool" where
  "is_fixnum_val v = (case v of YFixnum n \<Rightarrow> FIXABLE n | _ \<Rightarrow> False)"

definition fixnum_of :: "'o yval \<Rightarrow> int" where
  "fixnum_of v = (case v of YFixnum n \<Rightarrow> n | _ \<Rightarrow> 0)"

lemma is_fixnum_valE:
  assumes "is_fixnum_val v"
  obtains n where "v = YFixnum n" "FIXABLE n"
  using assms by (cases v) (auto simp: is_fixnum_val_def)

lemma fixnum_ufo_method_sgn:
  assumes "is_fixnum_val x" "is_fixnum_val y"
  shows "fixnum_ufo_method x y = Inr (YFixnum (sgn (fixnum_of x - fixnum_of y)))"
  using assms by (auto elim!: is_fixnum_valE simp: fixnum_ufo_method_def fixnum_ufo_sgn fixnum_of_def)

interpretation fixcmp: ufo_order fixnum_ufo_method is_fixnum_val fixnum_of
  by unfold_locales (auto simp: fixnum_ufo_method_sgn sgn_if split: if_splits)

text \<open>The six comparison methods that Fixnum gets from the Comparable mixin are the order of
  the integers: none raises on two Fixnums and each answers as the integers compare.\<close>

lemma fixnum_comparison_order:
  assumes "FIXABLE n" "FIXABLE m"
  shows "less_than fixnum_ufo_method (YFixnum n) (YFixnum m) = Inr (n < m)
    \<and> less_equal fixnum_ufo_method (YFixnum n) (YFixnum m) = Inr (n \<le> m)
    \<and> greater_than fixnum_ufo_method (YFixnum n) (YFixnum m) = Inr (m < n)
    \<and> greater_equal fixnum_ufo_method (YFixnum n) (YFixnum m) = Inr (m \<le> n)
    \<and> equal_to fixnum_ufo_method (YFixnum n) (YFixnum m) = Inr (n = m)
    \<and> not_equal fixnum_ufo_method (YFixnum n) (YFixnum m) = Inr (n \<noteq> m)"
  using assms fixcmp.derived_order[of "YFixnum n" "YFixnum m"]
  by (simp add: is_fixnum_val_def fixnum_of_def)

lemma fixnum_comparison_order_instance:
  "less_than fixnum_ufo_method (YFixnum (- 2)) (YFixnum 3) = Inr ((- 2 :: int) < 3)
    \<and> less_equal fixnum_ufo_method (YFixnum (- 2)) (YFixnum 3) = Inr ((- 2 :: int) \<le> 3)
    \<and> greater_than fixnum_ufo_method (YFixnum (- 2)) (YFixnum 3) = Inr ((3 :: int) < - 2)
    \<and> greater_equal fixnum_ufo_method (YFixnum (- 2)) (YFixnum 3) = Inr ((3 :: int) \<le> - 2)
    \<and> equal_to fixnum_ufo_method (YFixnum (- 2)) (YFixnum 3) = Inr ((- 2 :: int) = 3)
    \<and> not_equal fixnum_ufo_method (YFixnum (- 2)) (YFixnum 3) = Inr ((- 2 :: int) \<noteq> 3)"
  by (rule fixnum_comparison_order) (simp_all add: FIXABLE_iff)

end
