(* ===== verification/YogTable.thy ===== *)
theory YogTable
  imports YogValue "HOL-Library.Signed_Division"
begin

text \<open>
  \<^verbatim>\<open>src/table.c\<close>: the chained hash table under dictionaries, sets, attributes and symbols.
  Entries are heap objects at addresses; a table holds its heap (\<open>entries\<close>), the array of bin
  tops and its counters. A pointer is \<open>Some\<close> of an address, \<open>None\<close> is nil or undef (the code only
  asks \<^verbatim>\<open>IS_PTR\<close>). Following a dangling pointer is \<open>MemFault\<close>, \<^verbatim>\<open>% 0\<close> is \<open>ArithFault\<close>. A walk along
  a chain is given as fuel the number of addresses ever allocated: only a cyclic chain is longer.
\<close>

record ('k, 'v) entry =
  e_hash :: nat
  e_key :: 'k
  e_record :: 'v
  e_next :: "nat option"

type_synonym ('k, 'v) entry_heap = "nat \<Rightarrow> ('k, 'v) entry option"

record ('k, 'v) table =
  num_bins :: nat
  num_entries :: int
  bins :: "nat option list"
  entries :: "('k, 'v) entry_heap"
  next_addr :: nat

text \<open>\<^verbatim>\<open>YogHashType\<close>: how keys are compared and hashed. Hashing may raise.\<close>

record 'k hash_type =
  ht_compare :: "'k \<Rightarrow> 'k \<Rightarrow> bool"
  ht_hash :: "'k \<Rightarrow> int res"

section \<open>Sizes and allocation\<close>

definition primes :: "int list" where
  "primes =
     [8 + 3, 16 + 3, 32 + 5, 64 + 3, 128 + 3, 256 + 27, 512 + 9, 1024 + 9, 2048 + 5, 4096 + 3,
      8192 + 27, 16384 + 43, 32768 + 3, 65536 + 45, 131072 + 29, 262144 + 3, 524288 + 21,
      1048576 + 7, 2097152 + 17, 4194304 + 15, 8388608 + 9, 16777216 + 43, 33554432 + 35,
      67108864 + 15, 134217728 + 29, 268435456 + 3, 536870912 + 11, 1073741824 + 85, 0]"

fun new_size_loop :: "int list \<Rightarrow> int \<Rightarrow> int \<Rightarrow> int" where
  "new_size_loop [] newsize sz = - 1"
| "new_size_loop (p # ps) newsize sz =
     (if sz < newsize then p else new_size_loop ps (newsize * 2) sz)"

definition new_size :: "int \<Rightarrow> int" where
  "new_size sz = new_size_loop primes 8 sz"

definition alloc_bins :: "int \<Rightarrow> nat option list res" where
  "alloc_bins sz =
     res_bind (YogGC_check_multiply_overflow (to_uint sz) 8) (\<lambda>_. Inr (replicate (nat sz) None))"

definition alloc_table :: "('k, 'v) table" where
  "alloc_table = \<lparr>num_bins = 0, num_entries = 0, bins = [], entries = Map.empty, next_addr = 0\<rparr>"

definition st_init_table_with_size :: "int \<Rightarrow> ('k, 'v) table res" where
  "st_init_table_with_size sz =
     (let sz' = new_size sz
      in res_bind (alloc_bins sz') (\<lambda>bs.
           Inr (alloc_table\<lparr>num_entries := 0, num_bins := nat sz', bins := bs\<rparr>)))"

definition st_init_table :: "('k, 'v) table res" where
  "st_init_table = st_init_table_with_size 0"

definition load_entry :: "('k, 'v) entry_heap \<Rightarrow> nat option \<Rightarrow> ('k, 'v) entry res" where
  "load_entry h p =
     (case p of None \<Rightarrow> Inl MemFault
      | Some a \<Rightarrow> (case h a of None \<Rightarrow> Inl MemFault | Some e \<Rightarrow> Inr e))"

section \<open>Rehashing\<close>

fun rehash_chain ::
  "nat \<Rightarrow> nat \<Rightarrow> ('k, 'v) entry_heap \<Rightarrow> nat option list \<Rightarrow> nat option
     \<Rightarrow> (('k, 'v) entry_heap \<times> nat option list) res"
where
  "rehash_chain fuel n h new_bins None = Inr (h, new_bins)"
| "rehash_chain 0 n h new_bins (Some a) = Inl NoReturn"
| "rehash_chain (Suc fuel) n h new_bins (Some a) =
     res_bind (load_entry h (Some a)) (\<lambda>e.
       if n = 0 then Inl ArithFault
       else let hash_val = e_hash e mod n
            in res_bind (mem_load new_bins hash_val) (\<lambda>top.
               res_bind (mem_store new_bins hash_val (Some a)) (\<lambda>new_bins'.
                 rehash_chain fuel n (h(a \<mapsto> e\<lparr>e_next := top\<rparr>)) new_bins' (e_next e))))"

fun rehash_bins ::
  "nat \<Rightarrow> nat \<Rightarrow> nat option list \<Rightarrow> nat list \<Rightarrow> ('k, 'v) entry_heap \<Rightarrow> nat option list
     \<Rightarrow> (('k, 'v) entry_heap \<times> nat option list) res"
where
  "rehash_bins fuel n old_bins [] h new_bins = Inr (h, new_bins)"
| "rehash_bins fuel n old_bins (i # is) h new_bins =
     res_bind (mem_load old_bins i) (\<lambda>ptr.
     res_bind (rehash_chain fuel n h new_bins ptr) (\<lambda>(h', new_bins').
       rehash_bins fuel n old_bins is h' new_bins'))"

definition rehash :: "('k, 'v) table \<Rightarrow> ('k, 'v) table res" where
  "rehash t =
     (let old_num_bins = num_bins t;
          new_num_bins = new_size (int old_num_bins + 1)
      in res_bind (alloc_bins new_num_bins) (\<lambda>new_bins.
         res_bind (rehash_bins (next_addr t) (nat new_num_bins) (bins t) [0..<old_num_bins]
                     (entries t) new_bins) (\<lambda>(h, new_bins').
           Inr (t\<lparr>entries := h, num_bins := nat new_num_bins, bins := new_bins'\<rparr>))))"

section \<open>Search\<close>

definition do_hash :: "'k hash_type \<Rightarrow> 'k \<Rightarrow> nat res" where
  "do_hash ht key = res_bind (ht_hash ht key) (\<lambda>h. Inr (to_uint h))"

definition do_hash_bin :: "'k hash_type \<Rightarrow> ('k, 'v) table \<Rightarrow> 'k \<Rightarrow> nat res" where
  "do_hash_bin ht t key =
     res_bind (do_hash ht key) (\<lambda>h.
       if num_bins t = 0 then Inl ArithFault else Inr (h mod num_bins t))"

definition ptr_not_equal ::
  "'k hash_type \<Rightarrow> ('k, 'v) entry_heap \<Rightarrow> nat option \<Rightarrow> nat \<Rightarrow> 'k \<Rightarrow> bool res" where
  "ptr_not_equal ht h ptr hash_val key =
     (if ptr = None then Inr False
      else res_bind (load_entry h ptr) (\<lambda>e.
        if e_hash e \<noteq> hash_val then Inr True else Inr (\<not> ht_compare ht key (e_key e))))"

fun find_loop ::
  "nat \<Rightarrow> 'k hash_type \<Rightarrow> ('k, 'v) entry_heap \<Rightarrow> nat option \<Rightarrow> nat \<Rightarrow> 'k \<Rightarrow> nat option res"
where
  "find_loop fuel ht h ptr hash_val key =
     res_bind (load_entry h ptr) (\<lambda>e.
     res_bind (ptr_not_equal ht h (e_next e) hash_val key) (\<lambda>ne.
       if ne then (case fuel of 0 \<Rightarrow> Inl NoReturn
                   | Suc f \<Rightarrow> find_loop f ht h (e_next e) hash_val key)
       else Inr (e_next e)))"

declare find_loop.simps [simp del]

definition find_entry ::
  "'k hash_type \<Rightarrow> ('k, 'v) table \<Rightarrow> nat \<Rightarrow> 'k \<Rightarrow> (nat option \<times> nat) res" where
  "find_entry ht t hash_val key =
     (if num_bins t = 0 then Inl ArithFault
      else let bin_pos = hash_val mod num_bins t
           in res_bind (mem_load (bins t) bin_pos) (\<lambda>ptr.
              res_bind (ptr_not_equal ht (entries t) ptr hash_val key) (\<lambda>ne.
                if ne then res_bind (find_loop (next_addr t) ht (entries t) ptr hash_val key)
                             (\<lambda>p. Inr (p, bin_pos))
                else Inr (ptr, bin_pos))))"

text \<open>\<open>None\<close> is the result FALSE, \<open>Some\<close> the result TRUE with the value stored through the
  pointer. \<^verbatim>\<open>YogTable_lookup_sym\<close> is the same code without the GC guard.\<close>

definition YogTable_lookup :: "'k hash_type \<Rightarrow> ('k, 'v) table \<Rightarrow> 'k \<Rightarrow> 'v option res" where
  "YogTable_lookup ht t key =
     res_bind (do_hash ht key) (\<lambda>hash_val.
     res_bind (find_entry ht t hash_val key) (\<lambda>(ptr, bin_pos).
       if ptr = None then Inr None
       else res_bind (load_entry (entries t) ptr) (\<lambda>e. Inr (Some (e_record e)))))"

definition YogTable_lookup_sym :: "'k hash_type \<Rightarrow> ('k, 'v) table \<Rightarrow> 'k \<Rightarrow> 'v option res" where
  "YogTable_lookup_sym ht t key =
     res_bind (do_hash ht key) (\<lambda>hash_val.
     res_bind (find_entry ht t hash_val key) (\<lambda>(ptr, bin_pos).
       if ptr = None then Inr None
       else res_bind (load_entry (entries t) ptr) (\<lambda>e. Inr (Some (e_record e)))))"

section \<open>Insertion\<close>

definition alloc_entry :: "('k, 'v) table \<Rightarrow> ('k, 'v) entry \<Rightarrow> nat \<times> ('k, 'v) table" where
  "alloc_entry t e =
     (next_addr t, t\<lparr>entries := (entries t)(next_addr t \<mapsto> e), next_addr := Suc (next_addr t)\<rparr>)"

definition add_direct ::
  "('k, 'v) table \<Rightarrow> 'k \<Rightarrow> 'v \<Rightarrow> nat \<Rightarrow> nat \<Rightarrow> ('k, 'v) table res" where
  "add_direct t key value hash_val bin_pos =
     (if num_bins t = 0 then Inl ArithFault
      else res_bind
        (if 5 < num_entries t sdiv int (num_bins t)
         then res_bind (rehash t) (\<lambda>t'.
                if num_bins t' = 0 then Inl ArithFault else Inr (t', hash_val mod num_bins t'))
         else Inr (t, bin_pos)) (\<lambda>(t1, bin_pos').
        res_bind (mem_load (bins t1) bin_pos') (\<lambda>top.
          let (entry, t2) = alloc_entry t1
                \<lparr>e_hash = hash_val, e_key = key, e_record = value, e_next = top\<rparr>
          in res_bind (mem_store (bins t2) bin_pos' (Some entry)) (\<lambda>bs.
               Inr (t2\<lparr>bins := bs, num_entries := num_entries t2 + 1\<rparr>)))))"

definition YogTable_insert ::
  "'k hash_type \<Rightarrow> ('k, 'v) table \<Rightarrow> 'k \<Rightarrow> 'v \<Rightarrow> (bool \<times> ('k, 'v) table) res" where
  "YogTable_insert ht t key value =
     res_bind (do_hash ht key) (\<lambda>hash_val.
     res_bind (find_entry ht t hash_val key) (\<lambda>(ptr, bin_pos).
       case ptr of
         None \<Rightarrow> res_bind (add_direct t key value hash_val bin_pos) (\<lambda>t'. Inr (False, t'))
       | Some a \<Rightarrow> res_bind (load_entry (entries t) ptr) (\<lambda>e.
           Inr (True, t\<lparr>entries := (entries t)(a \<mapsto> e\<lparr>e_record := value\<rparr>)\<rparr>))))"

definition YogTable_add_direct ::
  "'k hash_type \<Rightarrow> ('k, 'v) table \<Rightarrow> 'k \<Rightarrow> 'v \<Rightarrow> ('k, 'v) table res" where
  "YogTable_add_direct ht t key value =
     res_bind (do_hash ht key) (\<lambda>hash_val.
       if num_bins t = 0 then Inl ArithFault
       else let bin_pos = hash_val mod num_bins t in add_direct t key value hash_val bin_pos)"

definition YogTable_size :: "('k, 'v) table \<Rightarrow> int" where
  "YogTable_size t = num_entries t"

section \<open>Deletion\<close>

text \<open>
  What \<^verbatim>\<open>YogTable_delete\<close> leaves behind its pointer arguments: \<open>Deleted\<close> is TRUE with the key and
  value of the entry, \<open>NotFound\<close> is FALSE with both arguments untouched, and \<open>NotFoundNil\<close> is FALSE
  with nil stored as the value (the exit for an empty bin).
\<close>

datatype ('k, 'v) delete_result = Deleted 'k 'v | NotFound | NotFoundNil

fun delete_loop ::
  "nat \<Rightarrow> 'k hash_type \<Rightarrow> ('k, 'v) table \<Rightarrow> nat option \<Rightarrow> 'k
     \<Rightarrow> (('k, 'v) delete_result \<times> ('k, 'v) table) res"
where
  "delete_loop fuel ht t None key = Inl MemFault"
| "delete_loop fuel ht t (Some a) key =
     res_bind (load_entry (entries t) (Some a)) (\<lambda>e.
       if e_next e = None then Inr (NotFound, t)
       else res_bind (load_entry (entries t) (e_next e)) (\<lambda>n.
         if ht_compare ht (e_key n) key
         then Inr (Deleted (e_key n) (e_record n),
                   t\<lparr>entries := (entries t)(a \<mapsto> e\<lparr>e_next := e_next n\<rparr>),
                     num_entries := num_entries t - 1\<rparr>)
         else (case fuel of 0 \<Rightarrow> Inl NoReturn
               | Suc f \<Rightarrow> delete_loop f ht t (e_next e) key)))"

declare delete_loop.simps(2) [simp del]

definition YogTable_delete ::
  "'k hash_type \<Rightarrow> ('k, 'v) table \<Rightarrow> 'k \<Rightarrow> (('k, 'v) delete_result \<times> ('k, 'v) table) res" where
  "YogTable_delete ht t key =
     res_bind (do_hash_bin ht t key) (\<lambda>hash_val.
     res_bind (mem_load (bins t) hash_val) (\<lambda>ptr.
       if ptr = None then Inr (NotFoundNil, t)
       else res_bind (load_entry (entries t) ptr) (\<lambda>e.
         if ht_compare ht key (e_key e)
         then res_bind (mem_store (bins t) hash_val (e_next e)) (\<lambda>bs.
                Inr (Deleted (e_key e) (e_record e),
                     t\<lparr>bins := bs, num_entries := num_entries t - 1\<rparr>))
         else delete_loop (next_addr t) ht t ptr key)))"

section \<open>foreach\<close>

text \<open>
  The callback gets a key and its value and works on the table and a state of its own. The
  parameter \<open>fuel\<close> bounds the number of steps, because a callback may insert without end.
\<close>

datatype st_retval = ST_CONTINUE | ST_STOP | ST_DELETE | ST_CHECK

type_synonym ('k, 'v, 's) foreach_func =
  "'k \<Rightarrow> 'v \<Rightarrow> ('k, 'v) table \<times> 's \<Rightarrow> (st_retval \<times> ('k, 'v) table \<times> 's) res"

fun chain_has :: "nat \<Rightarrow> ('k, 'v) entry_heap \<Rightarrow> nat option \<Rightarrow> nat \<Rightarrow> bool res" where
  "chain_has fuel h None a = Inr False"
| "chain_has 0 h (Some b) a = Inl NoReturn"
| "chain_has (Suc fuel) h (Some b) a =
     (if b = a then Inr True
      else res_bind (load_entry h (Some b)) (\<lambda>e. chain_has fuel h (e_next e) a))"

definition foreach_check :: "('k, 'v) table \<Rightarrow> nat \<Rightarrow> nat \<Rightarrow> bool res" where
  "foreach_check t i a =
     (if i < num_bins t
      then res_bind (mem_load (bins t) i) (\<lambda>top. chain_has (Suc (next_addr t)) (entries t) top a)
      else Inr False)"

definition foreach_delete ::
  "('k, 'v) table \<Rightarrow> nat \<Rightarrow> nat \<Rightarrow> nat option \<Rightarrow> (nat option \<times> ('k, 'v) table) res" where
  "foreach_delete t i a last_p =
     res_bind (load_entry (entries t) (Some a)) (\<lambda>e.
     res_bind
       (case last_p of
          None \<Rightarrow> res_bind (mem_store (bins t) i (e_next e)) (\<lambda>bs. Inr (t\<lparr>bins := bs\<rparr>))
        | Some l \<Rightarrow> res_bind (load_entry (entries t) last_p) (\<lambda>el.
            Inr (t\<lparr>entries := (entries t)(l \<mapsto> el\<lparr>e_next := e_next e\<rparr>)\<rparr>))) (\<lambda>t1.
     res_bind (load_entry (entries t1) (Some a)) (\<lambda>e1.
       Inr (e_next e1, t1\<lparr>num_entries := num_entries t1 - 1\<rparr>))))"

fun foreach_loop ::
  "nat \<Rightarrow> ('k, 'v, 's) foreach_func \<Rightarrow> nat \<Rightarrow> nat option \<Rightarrow> nat option \<Rightarrow> ('k, 'v) table \<times> 's
     \<Rightarrow> (bool \<times> ('k, 'v) table \<times> 's) res"
where
  "foreach_loop 0 func i ptr last_p (t, s) = Inl NoReturn"
| "foreach_loop (Suc fuel) func i None last_p (t, s) =
     (if Suc i < num_bins t
      then res_bind (mem_load (bins t) (Suc i)) (\<lambda>top. foreach_loop fuel func (Suc i) top last_p (t, s))
      else Inr (True, t, s))"
| "foreach_loop (Suc fuel) func i (Some a) last_p (t, s) =
     res_bind (load_entry (entries t) (Some a)) (\<lambda>e.
     res_bind (func (e_key e) (e_record e) (t, s)) (\<lambda>(retval, t', s').
       case retval of
         ST_CHECK \<Rightarrow>
           res_bind (foreach_check t' i a) (\<lambda>found.
             if found
             then res_bind (load_entry (entries t') (Some a)) (\<lambda>e'.
                    foreach_loop fuel func i (e_next e') (Some a) (t', s'))
             else Inr (False, t', s'))
       | ST_CONTINUE \<Rightarrow>
           res_bind (load_entry (entries t') (Some a)) (\<lambda>e'.
             foreach_loop fuel func i (e_next e') (Some a) (t', s'))
       | ST_STOP \<Rightarrow> Inr (True, t', s')
       | ST_DELETE \<Rightarrow>
           res_bind (foreach_delete t' i a last_p) (\<lambda>(ptr, t'').
             foreach_loop fuel func i ptr last_p (t'', s'))))"

definition YogTable_foreach ::
  "nat \<Rightarrow> ('k, 'v, 's) foreach_func \<Rightarrow> ('k, 'v) table \<times> 's \<Rightarrow> (bool \<times> ('k, 'v) table \<times> 's) res"
where
  "YogTable_foreach fuel func ts =
     (case ts of (t, s) \<Rightarrow>
        if 0 < num_bins t
        then res_bind (mem_load (bins t) 0) (\<lambda>top. foreach_loop fuel func 0 top None (t, s))
        else Inr (True, t, s))"

section \<open>The iterator\<close>

record table_iter =
  bins_index :: nat
  it_entry :: "nat option"

definition YogTable_get_iterator :: "('k, 'v) table \<Rightarrow> table_iter" where
  "YogTable_get_iterator t = \<lparr>bins_index = 0, it_entry = None\<rparr>"

definition YogTableIterator_current_value :: "('k, 'v) table \<Rightarrow> table_iter \<Rightarrow> 'v res" where
  "YogTableIterator_current_value t it =
     res_bind (load_entry (entries t) (it_entry it)) (\<lambda>e. Inr (e_record e))"

definition YogTableIterator_current_key :: "('k, 'v) table \<Rightarrow> table_iter \<Rightarrow> 'k res" where
  "YogTableIterator_current_key t it =
     res_bind (load_entry (entries t) (it_entry it)) (\<lambda>e. Inr (e_key e))"

function scan_bins :: "nat option list \<Rightarrow> nat \<Rightarrow> nat \<Rightarrow> (nat \<times> nat option) res" where
  "scan_bins bs n i =
     (if i < n
      then res_bind (mem_load bs i) (\<lambda>entry.
             if entry \<noteq> None then Inr (i, entry) else scan_bins bs n (Suc i))
      else Inr (i, None))"
  by pat_completeness auto
termination
  by (relation "measure (\<lambda>(bs, n, i). n - i)") auto

declare scan_bins.simps [simp del]

definition YogTableIterator_next ::
  "('k, 'v) table \<Rightarrow> table_iter \<Rightarrow> (bool \<times> table_iter) res" where
  "YogTableIterator_next t it =
     res_bind (case it_entry it of None \<Rightarrow> Inr None
               | Some a \<Rightarrow> res_bind (load_entry (entries t) (Some a)) (\<lambda>e. Inr (e_next e))) (\<lambda>nxt.
       if nxt \<noteq> None then Inr (True, it\<lparr>it_entry := nxt\<rparr>)
       else res_bind (scan_bins (bins t) (num_bins t) (bins_index it)) (\<lambda>(i, entry).
         if i < num_bins t then Inr (True, it\<lparr>bins_index := i + 1, it_entry := entry\<rparr>)
         else Inr (False, it\<lparr>bins_index := i\<rparr>)))"

section \<open>The hash types\<close>

definition compare_symbol :: "YogVal \<Rightarrow> YogVal \<Rightarrow> bool" where
  "compare_symbol a b = (if a = b then True else False)"

definition hash_symbol :: "YogVal \<Rightarrow> int res" where
  "hash_symbol key = Inr (sint (VAL2ID key))"

definition type_symbol :: "YogVal hash_type" where
  "type_symbol = \<lparr>ht_compare = compare_symbol, ht_hash = hash_symbol\<rparr>"

definition YogTable_create_symbol_table :: "(YogVal, 'v) table res" where
  "YogTable_create_symbol_table = st_init_table"

text \<open>
  \<^verbatim>\<open>type_val\<close> compares with the method \<^verbatim>\<open>==\<close> and hashes with the method \<^verbatim>\<open>hash\<close> of the key:
  \<open>call_eq\<close> and \<open>call_hash\<close> are these calls. An exception of \<^verbatim>\<open>==\<close> counts as unequal.
\<close>

definition compare_val :: "('k \<Rightarrow> 'k \<Rightarrow> 'o yval res) \<Rightarrow> 'k \<Rightarrow> 'k \<Rightarrow> bool" where
  "compare_val call_eq a b =
     (case call_eq a b of Inl e \<Rightarrow> False | Inr val \<Rightarrow> if yog_test val then True else False)"

definition hash_val ::
  "('o \<Rightarrow> bool) \<Rightarrow> ('o \<Rightarrow> int res) \<Rightarrow> ('k \<Rightarrow> 'o yval res) \<Rightarrow> 'k \<Rightarrow> int res" where
  "hash_val is_bignum to_signed call_hash val =
     res_bind (call_hash val) (\<lambda>hash. YogVal_to_signed_type is_bignum to_signed hash)"

definition type_val ::
  "('o \<Rightarrow> bool) \<Rightarrow> ('o \<Rightarrow> int res) \<Rightarrow> ('k \<Rightarrow> 'k \<Rightarrow> 'o yval res) \<Rightarrow> ('k \<Rightarrow> 'o yval res)
     \<Rightarrow> 'k hash_type"
where
  "type_val is_bignum to_signed call_eq call_hash =
     \<lparr>ht_compare = compare_val call_eq, ht_hash = hash_val is_bignum to_signed call_hash\<rparr>"

definition YogTable_create_value_table :: "('k, 'v) table res" where
  "YogTable_create_value_table = st_init_table"

end
