(* ===== verification/YogTableMap.thy ===== *)
theory YogTableMap
  imports YogTable
begin

text \<open>
  Correctness of \<^verbatim>\<open>src/table.c\<close>: the invariant that links the bins to disjoint chains of entries,
  that every operation keeps it, and that through it the table is a finite map. \<open>hash_laws\<close> is what
  the table relies on (its hash type), \<open>key_map\<close> what it provides to dictionaries and sets.
\<close>

section \<open>Chains\<close>

primrec chain :: "('k, 'v) entry_heap \<Rightarrow> nat option \<Rightarrow> nat list \<Rightarrow> bool" where
  "chain h p [] \<longleftrightarrow> p = None"
| "chain h p (a # as) \<longleftrightarrow> p = Some a \<and> (\<exists>e. h a = Some e \<and> chain h (e_next e) as)"

abbreviation ent :: "('k, 'v) entry_heap \<Rightarrow> nat \<Rightarrow> ('k, 'v) entry" where
  "ent h a \<equiv> the (h a)"

text \<open>Two heaps with the same entries up to the links.\<close>

definition same_data :: "('k, 'v) entry_heap \<Rightarrow> ('k, 'v) entry_heap \<Rightarrow> bool" where
  "same_data h h' \<longleftrightarrow> (\<forall>a. map_option (\<lambda>e. (e_hash e, e_key e, e_record e)) (h' a)
                        = map_option (\<lambda>e. (e_hash e, e_key e, e_record e)) (h a))"

lemma same_data_refl [simp]: "same_data h h"
  by (simp add: same_data_def)

lemma same_data_trans: "same_data h h' \<Longrightarrow> same_data h' h'' \<Longrightarrow> same_data h h''"
  by (simp add: same_data_def)

lemma same_data_link: "h a = Some e \<Longrightarrow> same_data h (h(a \<mapsto> e\<lparr>e_next := p\<rparr>))"
  by (simp add: same_data_def)

lemma same_data_ent:
  assumes "same_data h h'"
  shows "dom h' = dom h" "a \<in> dom h \<Longrightarrow> e_hash (ent h' a) = e_hash (ent h a)"
    "a \<in> dom h \<Longrightarrow> e_key (ent h' a) = e_key (ent h a)"
    "a \<in> dom h \<Longrightarrow> e_record (ent h' a) = e_record (ent h a)"
proof -
  have m: "map_option (\<lambda>e. (e_hash e, e_key e, e_record e)) (h' a)
         = map_option (\<lambda>e. (e_hash e, e_key e, e_record e)) (h a)" for a
    using assms by (simp add: same_data_def)
  have "h' a = None \<longleftrightarrow> h a = None" for a
    using m[of a] by (cases "h a"; cases "h' a") simp_all
  then show "dom h' = dom h" by (simp add: dom_def)
  show "a \<in> dom h \<Longrightarrow> e_hash (ent h' a) = e_hash (ent h a)"
    "a \<in> dom h \<Longrightarrow> e_key (ent h' a) = e_key (ent h a)"
    "a \<in> dom h \<Longrightarrow> e_record (ent h' a) = e_record (ent h a)"
    using m[of a] by (cases "h' a"; auto)+
qed

lemma chain_dom: "chain h p xs \<Longrightarrow> set xs \<subseteq> dom h"
  by (induction xs arbitrary: p) auto

lemma chain_frame: "(\<And>a. a \<in> set xs \<Longrightarrow> h' a = h a) \<Longrightarrow> chain h' p xs = chain h p xs"
  by (induction xs arbitrary: p) auto

lemma chain_record:
  "h a = Some e \<Longrightarrow> e_next e' = e_next e \<Longrightarrow> chain (h(a \<mapsto> e')) p xs = chain h p xs"
  by (induction xs arbitrary: p) auto

lemma chain_None [simp]: "chain h None xs \<longleftrightarrow> xs = []"
  by (cases xs) auto

lemma chain_Some: "chain h (Some a) xs \<longleftrightarrow> (\<exists>e ys. xs = a # ys \<and> h a = Some e \<and> chain h (e_next e) ys)"
  by (cases xs) auto

lemma load_entry_Some [simp]: "h a = Some e \<Longrightarrow> load_entry h (Some a) = Inr e"
  by (simp add: load_entry_def)

section \<open>Search along a chain\<close>

definition matches :: "'k hash_type \<Rightarrow> nat \<Rightarrow> 'k \<Rightarrow> ('k, 'v) entry \<Rightarrow> bool" where
  "matches ht hv key e \<longleftrightarrow> e_hash e = hv \<and> ht_compare ht key (e_key e)"

lemma ptr_not_equal_chain:
  "chain h p xs \<Longrightarrow> ptr_not_equal ht h p hv key =
     Inr (case xs of [] \<Rightarrow> False | a # _ \<Rightarrow> \<not> matches ht hv key (ent h a))"
  by (cases xs) (auto simp: ptr_not_equal_def matches_def)

lemma find_loop_chain:
  assumes "chain h p (a # xs)" "length xs \<le> fuel"
  shows "find_loop fuel ht h p hv key = Inr (find (\<lambda>b. matches ht hv key (ent h b)) xs)"
  using assms
proof (induction xs arbitrary: p a fuel)
  case Nil
  then show ?case by (auto simp: find_loop.simps[of fuel] ptr_not_equal_def)
next
  case (Cons b xs)
  then obtain e where e: "p = Some a" "h a = Some e" "chain h (e_next e) (b # xs)" by auto
  then have "e_next e = Some b" by simp
  then show ?case
    using e Cons.prems Cons.IH[OF e(3)] ptr_not_equal_chain[OF e(3), of ht hv key]
    by (cases fuel) (auto simp: find_loop.simps[of "Suc f" for f])
qed

section \<open>The invariant\<close>

text \<open>
  \<open>bins_ok h n bs cs\<close>: bin \<open>i\<close> starts a chain without repetition along the addresses \<open>cs i\<close>, whose
  hashes belong there. \<open>addrs\<close> are the addresses in the bins.
\<close>

definition bins_ok ::
  "('k, 'v) entry_heap \<Rightarrow> nat \<Rightarrow> nat option list \<Rightarrow> (nat \<Rightarrow> nat list) \<Rightarrow> bool" where
  "bins_ok h n bs cs \<longleftrightarrow> length bs = n \<and> 0 < n \<and>
     (\<forall>i < n. chain h (bs ! i) (cs i) \<and> distinct (cs i)
            \<and> (\<forall>a \<in> set (cs i). e_hash (ent h a) mod n = i))"

definition addrs :: "nat \<Rightarrow> (nat \<Rightarrow> nat list) \<Rightarrow> nat set" where
  "addrs n cs = (\<Union>i < n. set (cs i))"

definition table_inv :: "'k hash_type \<Rightarrow> (nat \<Rightarrow> nat list) \<Rightarrow> ('k, 'v) table \<Rightarrow> bool" where
  "table_inv ht cs t \<longleftrightarrow>
     bins_ok (entries t) (num_bins t) (bins t) cs
     \<and> int (num_bins t) \<in> set (take 28 primes)
     \<and> num_entries t = int (card (addrs (num_bins t) cs))
     \<and> dom (entries t) \<subseteq> {..<next_addr t}
     \<and> (\<forall>a \<in> addrs (num_bins t) cs.
           do_hash ht (e_key (ent (entries t) a)) = Inr (e_hash (ent (entries t) a)))
     \<and> (\<forall>a \<in> addrs (num_bins t) cs. \<forall>b \<in> addrs (num_bins t) cs.
           ht_compare ht (e_key (ent (entries t) a)) (e_key (ent (entries t) b)) \<longrightarrow> a = b)"

definition table_ok :: "'k hash_type \<Rightarrow> ('k, 'v) table \<Rightarrow> bool" where
  "table_ok ht t \<longleftrightarrow> (\<exists>cs. table_inv ht cs t)"

lemma finite_addrs [simp]: "finite (addrs n cs)"
  by (simp add: addrs_def)

lemma bins_ok_dom: "bins_ok h n bs cs \<Longrightarrow> addrs n cs \<subseteq> dom h"
  using chain_dom by (fastforce simp: bins_ok_def addrs_def)

lemma table_inv_dom: "table_inv ht cs t \<Longrightarrow> addrs (num_bins t) cs \<subseteq> dom (entries t)"
  unfolding table_inv_def by (blast dest: bins_ok_dom)

lemma bins_ok_disjoint:
  assumes "bins_ok h n bs cs" "i < n" "j < n" "i \<noteq> j"
  shows "set (cs i) \<inter> set (cs j) = {}"
proof -
  have "\<And>a. a \<in> set (cs i) \<Longrightarrow> e_hash (ent h a) mod n = i"
    "\<And>a. a \<in> set (cs j) \<Longrightarrow> e_hash (ent h a) mod n = j"
    using assms by (auto simp: bins_ok_def)
  then show ?thesis using assms(4) by blast
qed

lemma bins_ok_bin:
  assumes "bins_ok h n bs cs" "a \<in> addrs n cs"
  shows "a \<in> set (cs (e_hash (ent h a) mod n))"
  using assms by (auto simp: bins_ok_def addrs_def)

lemma bin_addrs: "i < n \<Longrightarrow> set (cs i) \<subseteq> addrs n cs"
  by (auto simp: addrs_def)

lemma chain_length:
  assumes "chain h p xs" "distinct xs" "dom h \<subseteq> {..<m}"
  shows "length xs \<le> m"
proof -
  have "card (set xs) \<le> card {..<m}"
    using chain_dom[OF assms(1)] assms(3) by (intro card_mono) auto
  then show ?thesis using distinct_card[OF assms(2)] by simp
qed

text \<open>Pushing an entry on top of its bin: shared by insertion and rehashing.\<close>

lemma addrs_push: "i < n \<Longrightarrow> addrs n (cs(i := a # cs i)) = insert a (addrs n cs)"
  by (auto simp: addrs_def split: if_splits)

lemma bins_ok_push:
  assumes "bins_ok h n bs cs" "a \<notin> addrs n cs" "i = e_hash e mod n" "e_next e = bs ! i"
  shows "bins_ok (h(a \<mapsto> e)) n (bs[i := Some a]) (cs(i := a # cs i))"
proof -
  have i: "i < n" using assms(1,3) by (simp add: bins_ok_def)
  have fr: "chain (h(a \<mapsto> e)) (bs ! j) (cs j)" "a \<notin> set (cs j)" if "j < n" for j
  proof -
    show "a \<notin> set (cs j)" using assms(2) that by (auto simp: addrs_def)
    then show "chain (h(a \<mapsto> e)) (bs ! j) (cs j)"
      using assms(1) that by (subst chain_frame[of _ _ h]) (auto simp: bins_ok_def)
  qed
  show ?thesis
    unfolding bins_ok_def
  proof (intro conjI allI impI)
    fix j assume j: "j < n"
    show "chain (h(a \<mapsto> e)) (bs[i := Some a] ! j) ((cs(i := a # cs i)) j)"
      "distinct ((cs(i := a # cs i)) j)"
      using fr[OF j] j i assms(1,4) by (auto simp: bins_ok_def)
    show "\<forall>b \<in> set ((cs(i := a # cs i)) j). e_hash (ent (h(a \<mapsto> e)) b) mod n = j"
      using fr(2)[OF j] j assms(1,3) by (auto simp: bins_ok_def)
  qed (use assms(1) in \<open>simp_all add: bins_ok_def\<close>)
qed

section \<open>Rehashing\<close>

lemma rehash_chain_ok:
  assumes "bins_ok h n nb cs" "chain h p xs" "distinct xs" "set xs \<inter> addrs n cs = {}"
    "length xs \<le> fuel"
  shows "\<exists>h' nb' cs'. rehash_chain fuel n h nb p = Inr (h', nb') \<and> bins_ok h' n nb' cs'
    \<and> addrs n cs' = set xs \<union> addrs n cs \<and> same_data h h' \<and> (\<forall>a. a \<notin> set xs \<longrightarrow> h' a = h a)"
  using assms
proof (induction xs arbitrary: h nb cs p fuel)
  case Nil
  then show ?case by (intro exI[of _ h] exI[of _ nb] exI[of _ cs]) simp
next
  case (Cons a xs)
  obtain e where e: "p = Some a" "h a = Some e" "chain h (e_next e) xs" using Cons.prems by auto
  obtain f where f: "fuel = Suc f" "length xs \<le> f" using Cons.prems by (cases fuel) auto
  define i where "i = e_hash e mod n"
  have n: "0 < n" "i < n" "length nb = n" using Cons.prems(1) by (auto simp: bins_ok_def i_def)
  let ?h = "h(a \<mapsto> e\<lparr>e_next := nb ! i\<rparr>)" and ?nb = "nb[i := Some a]"
    and ?cs = "cs(i := a # cs i)"
  have ok: "bins_ok ?h n ?nb ?cs"
    using Cons.prems(1,4) by (intro bins_ok_push) (auto simp: i_def)
  have ch: "chain ?h (e_next e) xs"
    using e(3) Cons.prems(3) by (subst chain_frame[of _ _ h]) auto
  have ad: "addrs n ?cs = insert a (addrs n cs)" using n by (simp add: addrs_push)
  obtain h' nb' cs' where r: "rehash_chain f n ?h ?nb (e_next e) = Inr (h', nb')"
    "bins_ok h' n nb' cs'" "addrs n cs' = set xs \<union> addrs n ?cs" "same_data ?h h'"
    "\<forall>b. b \<notin> set xs \<longrightarrow> h' b = ?h b"
  proof -
    have "set xs \<inter> addrs n ?cs = {}" "distinct xs" using Cons.prems(3,4) ad by auto
    from Cons.IH[OF ok ch this(2,1) f(2)] show ?thesis using that by blast
  qed
  show ?case
  proof (intro exI[of _ h'] exI[of _ nb'] exI[of _ cs'] conjI)
    show "rehash_chain fuel n h nb p = Inr (h', nb')"
      using e f n r(1) by (simp add: i_def Let_def)
    show "same_data h h'" using same_data_link[of h a e, OF e(2)] r(4) by (rule same_data_trans)
  qed (use r ad Cons.prems(3) in auto)
qed

lemma rehash_bins_ok:
  assumes "bins_ok h n nb cs" "length bs = m" "set is \<subseteq> {..<m}" "distinct is"
    "\<forall>i \<in> set is. chain h (bs ! i) (ds i) \<and> distinct (ds i) \<and> length (ds i) \<le> fuel
        \<and> set (ds i) \<inter> addrs n cs = {}"
    "\<forall>i \<in> set is. \<forall>j \<in> set is. i \<noteq> j \<longrightarrow> set (ds i) \<inter> set (ds j) = {}"
  shows "\<exists>h' nb' cs'. rehash_bins fuel n bs is h nb = Inr (h', nb') \<and> bins_ok h' n nb' cs'
    \<and> addrs n cs' = (\<Union>i \<in> set is. set (ds i)) \<union> addrs n cs \<and> same_data h h'"
  using assms
proof (induction "is" arbitrary: h nb cs)
  case Nil
  then show ?case by (intro exI[of _ h] exI[of _ nb] exI[of _ cs]) simp
next
  case (Cons i js)
  have "chain h (bs ! i) (ds i)" "distinct (ds i)" "length (ds i) \<le> fuel"
    "set (ds i) \<inter> addrs n cs = {}"
    using Cons.prems(5) by auto
  then obtain h1 nb1 cs1 where r1: "rehash_chain fuel n h nb (bs ! i) = Inr (h1, nb1)"
    "bins_ok h1 n nb1 cs1" "addrs n cs1 = set (ds i) \<union> addrs n cs" "same_data h h1"
    "\<forall>a. a \<notin> set (ds i) \<longrightarrow> h1 a = h a"
    using rehash_chain_ok[OF Cons.prems(1), of "bs ! i" "ds i" fuel] by blast
  have rest: "\<forall>j \<in> set js. chain h1 (bs ! j) (ds j) \<and> distinct (ds j) \<and> length (ds j) \<le> fuel
        \<and> set (ds j) \<inter> addrs n cs1 = {}"
  proof
    fix j assume j: "j \<in> set js"
    then have d: "set (ds i) \<inter> set (ds j) = {}" using Cons.prems(4,6) by auto
    then have "chain h1 (bs ! j) (ds j) = chain h (bs ! j) (ds j)"
      using r1(5) by (intro chain_frame) auto
    then show "chain h1 (bs ! j) (ds j) \<and> distinct (ds j) \<and> length (ds j) \<le> fuel
        \<and> set (ds j) \<inter> addrs n cs1 = {}"
      using j d Cons.prems(5) r1(3) by auto
  qed
  obtain h2 nb2 cs2 where r2: "rehash_bins fuel n bs js h1 nb1 = Inr (h2, nb2)"
    "bins_ok h2 n nb2 cs2" "addrs n cs2 = (\<Union>j \<in> set js. set (ds j)) \<union> addrs n cs1"
    "same_data h1 h2"
  proof -
    have "set js \<subseteq> {..<m}" "distinct js"
      "\<forall>i \<in> set js. \<forall>j \<in> set js. i \<noteq> j \<longrightarrow> set (ds i) \<inter> set (ds j) = {}"
      using Cons.prems(3,4,6) by auto
    from Cons.IH[OF r1(2) Cons.prems(2) this(1,2) rest this(3)] show ?thesis using that by blast
  qed
  show ?case
  proof (intro exI[of _ h2] exI[of _ nb2] exI[of _ cs2] conjI)
    show "rehash_bins fuel n bs (i # js) h nb = Inr (h2, nb2)"
      using r1(1) r2(1) Cons.prems(2,3) by simp
    show "same_data h h2" using r1(4) r2(4) by (rule same_data_trans)
  qed (use r1 r2 in auto)
qed

lemma new_size_next:
  assumes "int n \<in> set (take 27 primes)"
  shows "new_size (int n + 1) \<in> set (take 28 primes)"
proof -
  have "\<forall>p \<in> set (take 27 primes). new_size (p + 1) \<in> set (take 28 primes)" by code_simp
  then show ?thesis using assms by blast
qed

lemma primes_range: "p \<in> set (take 28 primes) \<Longrightarrow> 0 < p \<and> p \<le> 1073741909"
  by (auto simp: primes_def)

lemma alloc_bins_ok:
  assumes "0 \<le> n" "n < 2 ^ 40"
  shows "alloc_bins n = Inr (replicate (nat n) None)"
proof -
  have "to_uint n = nat n" using assms by (intro to_uint_nonneg) simp_all
  then show ?thesis
    using assms by (simp add: alloc_bins_def check_multiply_ok nat_less_iff)
qed

lemma bins_ok_empty: "0 < n \<Longrightarrow> bins_ok h n (replicate n None) (\<lambda>_. [])"
  by (simp add: bins_ok_def)

lemma addrs_empty [simp]: "addrs n (\<lambda>_. []) = {}"
  by (simp add: addrs_def)

lemma rehash_ok:
  assumes "table_inv ht cs t" "int (num_bins t) \<in> set (take 27 primes)"
  shows "\<exists>t' cs'. rehash t = Inr t' \<and> table_inv ht cs' t'
    \<and> addrs (num_bins t') cs' = addrs (num_bins t) cs
    \<and> same_data (entries t) (entries t') \<and> next_addr t' = next_addr t
    \<and> num_entries t' = num_entries t"
proof -
  let ?m = "num_bins t" and ?z = "new_size (int (num_bins t) + 1)"
  let ?n = "nat ?z"
  have z: "?z \<in> set (take 28 primes)" "0 < ?z" "?z \<le> 1073741909"
    using new_size_next[OF assms(2)] primes_range by auto
  have alloc: "alloc_bins ?z = Inr (replicate ?n None)" using z by (intro alloc_bins_ok) auto
  have ok: "bins_ok (entries t) ?n (replicate ?n None) (\<lambda>_. [])"
    using z by (intro bins_ok_empty) simp
  have inv: "bins_ok (entries t) ?m (bins t) cs" "dom (entries t) \<subseteq> {..<next_addr t}"
    using assms(1) by (auto simp: table_inv_def)
  have c: "\<forall>i \<in> set [0..<?m]. chain (entries t) (bins t ! i) (cs i) \<and> distinct (cs i)
      \<and> length (cs i) \<le> next_addr t \<and> set (cs i) \<inter> addrs ?n (\<lambda>_. []) = {}"
    using inv chain_length by (fastforce simp: bins_ok_def)
  have d: "\<forall>i \<in> set [0..<?m]. \<forall>j \<in> set [0..<?m]. i \<noteq> j \<longrightarrow> set (cs i) \<inter> set (cs j) = {}"
    using bins_ok_disjoint[OF inv(1)] by simp
  obtain h' nb' cs' where r:
    "rehash_bins (next_addr t) ?n (bins t) [0..<?m] (entries t) (replicate ?n None) = Inr (h', nb')"
    "bins_ok h' ?n nb' cs'" "addrs ?n cs' = (\<Union>i \<in> set [0..<?m]. set (cs i)) \<union> addrs ?n (\<lambda>_. [])"
    "same_data (entries t) h'"
  proof -
    have "length (bins t) = ?m" "set [0..<?m] \<subseteq> {..<?m}" "distinct [0..<?m]"
      using inv(1) by (auto simp: bins_ok_def)
    from rehash_bins_ok[OF ok this c d] show ?thesis using that by blast
  qed
  let ?t = "t\<lparr>entries := h', num_bins := ?n, bins := nb'\<rparr>"
  have a: "addrs ?n cs' = addrs ?m cs" using r(3) by (auto simp: addrs_def)
  have "addrs ?m cs \<subseteq> dom (entries t)" using inv(1) by (rule bins_ok_dom)
  then have "table_inv ht cs' ?t"
    using assms(1) r(2,4) z a same_data_ent[OF r(4)] unfolding table_inv_def
    by (auto simp: subset_iff)
  moreover have "rehash t = Inr ?t"
    using alloc r(1) by (simp add: rehash_def Let_def)
  ultimately show ?thesis using a r(4) by (intro exI[of _ ?t] exI[of _ cs']) simp
qed

section \<open>What a table relies on\<close>

text \<open>
  The laws of a hash type: comparison is an equivalence and equal keys hash alike. The correctness
  of search, insertion and deletion is proved under them.
\<close>

locale hash_laws =
  fixes ht :: "'k hash_type"
  assumes cmp_refl: "ht_compare ht x x"
    and cmp_sym: "ht_compare ht x y \<Longrightarrow> ht_compare ht y x"
    and cmp_trans: "ht_compare ht x y \<Longrightarrow> ht_compare ht y z \<Longrightarrow> ht_compare ht x z"
    and cmp_hash: "ht_compare ht x y \<Longrightarrow> do_hash ht x = do_hash ht y"
begin

text \<open>The search for a key ends at the one entry whose key compares equal, if there is one.\<close>

lemma find_entry_spec:
  assumes inv: "table_inv ht cs t" and hv: "do_hash ht k = Inr hv"
  shows "\<exists>p. find_entry ht t hv k = Inr (p, hv mod num_bins t)
    \<and> (case p of
         None \<Rightarrow> \<forall>a \<in> addrs (num_bins t) cs. \<not> ht_compare ht k (e_key (ent (entries t) a))
       | Some a \<Rightarrow> a \<in> addrs (num_bins t) cs \<and> ht_compare ht k (e_key (ent (entries t) a))
           \<and> e_hash (ent (entries t) a) = hv)"
proof -
  let ?n = "num_bins t" and ?h = "entries t"
  let ?i = "hv mod ?n" and ?m = "\<lambda>b. matches ht hv k (ent ?h b)"
  have ok: "bins_ok ?h ?n (bins t) cs" and dm: "dom ?h \<subseteq> {..<next_addr t}"
    using inv by (auto simp: table_inv_def)
  have n: "0 < ?n" "?i < ?n" "length (bins t) = ?n" using ok by (auto simp: bins_ok_def)
  have ch: "chain ?h (bins t ! ?i) (cs ?i)" "distinct (cs ?i)" using ok n by (auto simp: bins_ok_def)
  have len: "length (cs ?i) \<le> next_addr t" using chain_length[OF ch dm] .
  have f: "find_entry ht t hv k = Inr (find ?m (cs ?i), ?i)"
  proof (cases "cs ?i")
    case Nil
    then show ?thesis using ch n by (simp add: find_entry_def Let_def ptr_not_equal_def)
  next
    case (Cons a as)
    have c: "chain ?h (bins t ! ?i) (a # as)" "length as \<le> next_addr t" using ch len Cons by auto
    show ?thesis
      using Cons c n find_loop_chain[OF c, of ht hv k] ptr_not_equal_chain[OF c(1), of ht hv k]
      by (auto simp: find_entry_def Let_def)
  qed
  have here: "?m a \<and> a \<in> set (cs ?i)"
    if "a \<in> addrs ?n cs" "ht_compare ht k (e_key (ent ?h a))" for a
  proof -
    have "do_hash ht (e_key (ent ?h a)) = Inr (e_hash (ent ?h a))"
      using inv that(1) by (auto simp: table_inv_def)
    then have "e_hash (ent ?h a) = hv" using cmp_hash[OF that(2)] hv by simp
    then show ?thesis using bins_ok_bin[OF ok that(1)] that(2) by (simp add: matches_def)
  qed
  show ?thesis
  proof (cases "find ?m (cs ?i)")
    case None
    then have "\<forall>a \<in> set (cs ?i). \<not> ?m a" by (simp add: find_None_iff)
    then show ?thesis using None f here by auto
  next
    case (Some a)
    then have "a \<in> set (cs ?i)" "?m a" by (auto simp: find_Some_iff)
    then show ?thesis using Some f n bin_addrs[of ?i ?n cs] by (auto simp: matches_def)
  qed
qed

lemma lookup_found:
  assumes inv: "table_inv ht cs t" and a: "a \<in> addrs (num_bins t) cs"
    and c: "ht_compare ht k (e_key (ent (entries t) a))"
  shows "YogTable_lookup ht t k = Inr (Some (e_record (ent (entries t) a)))"
proof -
  let ?h = "entries t"
  have "do_hash ht k = Inr (e_hash (ent ?h a))"
    using inv a cmp_hash[OF c] by (auto simp: table_inv_def)
  note hv = this
  obtain p where p: "find_entry ht t (e_hash (ent ?h a)) k = Inr (p, e_hash (ent ?h a) mod num_bins t)"
    "case p of None \<Rightarrow> \<forall>a \<in> addrs (num_bins t) cs. \<not> ht_compare ht k (e_key (ent ?h a))
     | Some b \<Rightarrow> b \<in> addrs (num_bins t) cs \<and> ht_compare ht k (e_key (ent ?h b))
                \<and> e_hash (ent ?h b) = e_hash (ent ?h a)"
    using find_entry_spec[OF inv hv] by blast
  then obtain b where b: "p = Some b" "b \<in> addrs (num_bins t) cs"
    "ht_compare ht k (e_key (ent ?h b))"
    using a c by (cases p) auto
  then have "ht_compare ht (e_key (ent ?h b)) (e_key (ent ?h a))"
    using c cmp_sym cmp_trans by blast
  then have "b = a" using inv a b by (auto simp: table_inv_def)
  moreover have "a \<in> dom ?h" using a table_inv_dom[OF inv] by auto
  ultimately show ?thesis using hv p(1) b(1) by (auto simp: YogTable_lookup_def)
qed

lemma lookup_missing:
  assumes inv: "table_inv ht cs t" and hv: "do_hash ht k = Inr hv"
    and c: "\<forall>a \<in> addrs (num_bins t) cs. \<not> ht_compare ht k (e_key (ent (entries t) a))"
  shows "YogTable_lookup ht t k = Inr None"
proof -
  obtain p where p: "find_entry ht t hv k = Inr (p, hv mod num_bins t)"
    "case p of None \<Rightarrow> True
     | Some b \<Rightarrow> b \<in> addrs (num_bins t) cs \<and> ht_compare ht k (e_key (ent (entries t) b))"
    using find_entry_spec[OF inv hv] by (auto split: option.splits)
  then have "p = None" using c by (cases p) auto
  then show ?thesis using hv p(1) by (simp add: YogTable_lookup_def)
qed

lemma lookup_unhashable: "do_hash ht k = Inl e \<Longrightarrow> YogTable_lookup ht t k = Inl e"
  by (simp add: YogTable_lookup_def)

text \<open>Two tables with corresponding entries answer every lookup alike.\<close>

lemma lookup_same_data:
  assumes "table_inv ht cs t" "table_inv ht cs' t'" "addrs (num_bins t') cs' = addrs (num_bins t) cs"
    "same_data (entries t) (entries t')"
  shows "YogTable_lookup ht t' k = YogTable_lookup ht t k"
proof (cases "do_hash ht k")
  case (Inr hv)
  have dm: "addrs (num_bins t) cs \<subseteq> dom (entries t)"
    using assms(1) by (rule table_inv_dom)
  show ?thesis
  proof (cases "\<exists>a \<in> addrs (num_bins t) cs. ht_compare ht k (e_key (ent (entries t) a))")
    case True
    then obtain a where a: "a \<in> addrs (num_bins t) cs" "ht_compare ht k (e_key (ent (entries t) a))"
      by blast
    then have "a \<in> dom (entries t)" using dm by auto
    then show ?thesis using a lookup_found[OF assms(1) a] lookup_found[OF assms(2), of a k] assms(3)
        same_data_ent[OF assms(4)] by simp
  next
    case False
    then have "\<forall>a \<in> addrs (num_bins t') cs'. \<not> ht_compare ht k (e_key (ent (entries t') a))"
      using assms(3) same_data_ent(3)[OF assms(4)] dm by (metis subsetD)
    then show ?thesis
      using False lookup_missing[OF assms(2) Inr] lookup_missing[OF assms(1) Inr] by auto
  qed
qed (simp add: lookup_unhashable)

end

section \<open>Abstraction to a set of pairs\<close>

text \<open>\<open>assocs\<close> is the finite map that a table stands for, as its set of pairs.\<close>

definition assocs :: "(nat \<Rightarrow> nat list) \<Rightarrow> ('k, 'v) table \<Rightarrow> ('k \<times> 'v) set" where
  "assocs cs t =
     (\<lambda>a. (e_key (ent (entries t) a), e_record (ent (entries t) a))) ` addrs (num_bins t) cs"

lemma assocs_same_data:
  assumes "table_inv ht cs t" "addrs (num_bins t') cs' = addrs (num_bins t) cs"
    "same_data (entries t) (entries t')"
  shows "assocs cs' t' = assocs cs t"
  using table_inv_dom[OF assms(1)] same_data_ent[OF assms(3)]
  by (auto simp: assocs_def assms(2) subset_iff intro!: image_cong)

text \<open>A new entry on top of its bin.\<close>

lemma push_entry_ok:
  fixes v :: 'v
  assumes inv: "table_inv ht cs t" and hv: "do_hash ht k = Inr hv"
    and new: "\<forall>p \<in> assocs cs t. \<not> ht_compare ht k (fst p) \<and> \<not> ht_compare ht (fst p) k"
  defines "b \<equiv> hv mod num_bins t" and "a \<equiv> next_addr t"
  defines "t' \<equiv> t\<lparr>entries := (entries t)(a \<mapsto>
        \<lparr>e_hash = hv, e_key = k, e_record = v, e_next = bins t ! b\<rparr>), next_addr := Suc a,
        bins := (bins t)[b := Some a], num_entries := num_entries t + 1\<rparr>"
  shows "table_inv ht (cs(b := a # cs b)) t' \<and> assocs (cs(b := a # cs b)) t' = insert (k, v) (assocs cs t)"
proof -
  let ?cs = "cs(b := a # cs b)"
  have ok: "bins_ok (entries t) (num_bins t) (bins t) cs" "dom (entries t) \<subseteq> {..<a}"
    using inv by (auto simp: table_inv_def a_def)
  have na: "a \<notin> addrs (num_bins t) cs" using table_inv_dom[OF inv] ok(2) by auto
  have b: "b < num_bins t" using ok(1) by (simp add: bins_ok_def b_def)
  have ad: "addrs (num_bins t) ?cs = insert a (addrs (num_bins t) cs)" using b by (rule addrs_push)
  have e: "ent (entries t') x = ent (entries t) x" if "x \<in> addrs (num_bins t) cs" for x
    using that na by (auto simp: t'_def)
  have ea: "ent (entries t') a = \<lparr>e_hash = hv, e_key = k, e_record = v, e_next = bins t ! b\<rparr>"
    by (simp add: t'_def)
  have as: "assocs ?cs t' = insert (k, v) (assocs cs t)"
    using e ea ad by (auto simp: assocs_def t'_def)
  have pk: "\<not> ht_compare ht k (e_key (ent (entries t) x)) \<and> \<not> ht_compare ht (e_key (ent (entries t) x)) k"
    if "x \<in> addrs (num_bins t) cs" for x
    using new that by (auto simp: assocs_def)
  have "bins_ok (entries t') (num_bins t') (bins t') ?cs"
    using bins_ok_push[OF ok(1) na, of b
        "\<lparr>e_hash = hv, e_key = k, e_record = v, e_next = bins t ! b\<rparr>"] by (simp add: t'_def b_def)
  moreover have "num_entries t' = int (card (addrs (num_bins t') ?cs))"
    using inv ad na by (simp add: t'_def table_inv_def)
  moreover have "dom (entries t') \<subseteq> {..<next_addr t'}" using ok(2) by (auto simp: t'_def)
  moreover have "num_bins t' = num_bins t" by (simp add: t'_def)
  moreover have "\<forall>x \<in> addrs (num_bins t') ?cs.
      do_hash ht (e_key (ent (entries t') x)) = Inr (e_hash (ent (entries t') x))"
    using inv hv ea e ad \<open>num_bins t' = num_bins t\<close> by (auto simp: table_inv_def)
  moreover have "\<forall>x \<in> addrs (num_bins t') ?cs. \<forall>y \<in> addrs (num_bins t') ?cs.
      ht_compare ht (e_key (ent (entries t') x)) (e_key (ent (entries t') y)) \<longrightarrow> x = y"
    using inv ea e ad pk \<open>num_bins t' = num_bins t\<close> by (auto simp: table_inv_def)
  ultimately show ?thesis using inv as by (simp add: table_inv_def)
qed

lemma add_direct_ok:
  assumes inv: "table_inv ht cs t" and hv: "do_hash ht k = Inr hv"
    and new: "\<forall>p \<in> assocs cs t. \<not> ht_compare ht k (fst p) \<and> \<not> ht_compare ht (fst p) k"
    and room: "num_entries t < 6442451454"
  shows "\<exists>t' cs'. add_direct t k v hv (hv mod num_bins t) = Inr t' \<and> table_inv ht cs' t'
    \<and> assocs cs' t' = insert (k, v) (assocs cs t) \<and> num_entries t' = num_entries t + 1"
proof -
  have n: "0 < num_bins t" "length (bins t) = num_bins t" "0 \<le> num_entries t"
    using inv by (auto simp: table_inv_def bins_ok_def)
  have tail: "\<exists>t' cs'. res_bind (mem_load (bins t1) (hv mod num_bins t1)) (\<lambda>top.
          let (entry, t2) = alloc_entry t1
                \<lparr>e_hash = hv, e_key = k, e_record = v, e_next = top\<rparr>
          in res_bind (mem_store (bins t2) (hv mod num_bins t1) (Some entry)) (\<lambda>bs.
               Inr (t2\<lparr>bins := bs, num_entries := num_entries t2 + 1\<rparr>))) = Inr t'
      \<and> table_inv ht cs' t' \<and> assocs cs' t' = insert (k, v) (assocs c1 t1)
      \<and> num_entries t' = num_entries t1 + 1"
    if i1: "table_inv ht c1 t1" and n1: "assocs c1 t1 = assocs cs t" for c1 t1
  proof -
    have l: "hv mod num_bins t1 < length (bins t1)"
      using i1 by (simp add: table_inv_def bins_ok_def)
    show ?thesis
      using push_entry_ok[OF i1 hv, of v] new n1 l by (auto simp: alloc_entry_def Let_def)
  qed
  show ?thesis
  proof (cases "5 < num_entries t sdiv int (num_bins t)")
    case False
    then show ?thesis using tail[OF inv refl] n by (simp add: add_direct_def)
  next
    case True
    have "num_entries t sdiv int (num_bins t) = num_entries t div int (num_bins t)"
      using n by (simp add: signed_divide_int_def sgn_if)
    then have "6 \<le> num_entries t div int (num_bins t)" using True by simp
    then have "6 * int (num_bins t) \<le> num_entries t"
    proof -
      assume "6 \<le> num_entries t div int (num_bins t)"
      then have "6 * int (num_bins t) \<le> num_entries t div int (num_bins t) * int (num_bins t)"
        by (intro mult_right_mono) auto
      also have "\<dots> \<le> num_entries t"
      proof -
        have "0 \<le> num_entries t mod int (num_bins t)" using n by simp
        then show ?thesis
          using minus_mod_eq_div_mult[of "num_entries t" "int (num_bins t)"] by linarith
      qed
      finally show ?thesis .
    qed
    then have "int (num_bins t) < 1073741909" using room by simp
    then have "int (num_bins t) \<in> set (take 27 primes)"
      using inv by (auto simp: table_inv_def primes_def)
    from rehash_ok[OF inv this] obtain t1 c1 where r: "rehash t = Inr t1" "table_inv ht c1 t1"
      "addrs (num_bins t1) c1 = addrs (num_bins t) cs" "same_data (entries t) (entries t1)"
      "num_entries t1 = num_entries t" by blast
    have "assocs c1 t1 = assocs cs t" using assocs_same_data[OF inv r(3,4)] .
    moreover have "0 < num_bins t1" using r(2) by (simp add: table_inv_def bins_ok_def)
    ultimately show ?thesis using tail[OF r(2)] True r n by (simp add: add_direct_def)
  qed
qed

section \<open>Insertion and deletion under the laws of the hash type\<close>

context hash_laws
begin

lemma lookup_someI:
  assumes "table_inv ht cs t" "(x, v) \<in> assocs cs t" "ht_compare ht k x"
  shows "YogTable_lookup ht t k = Inr (Some v)"
  using assms lookup_found[OF assms(1)] by (auto simp: assocs_def)

lemma lookup_noneI:
  assumes "table_inv ht cs t" "do_hash ht k = Inr hv"
    "\<forall>p \<in> assocs cs t. \<not> ht_compare ht k (fst p)"
  shows "YogTable_lookup ht t k = Inr None"
  using assms lookup_missing[OF assms(1,2)] by (auto simp: assocs_def)

lemma assocs_unique:
  assumes "table_inv ht cs t" "(x, v) \<in> assocs cs t" "(y, w) \<in> assocs cs t" "ht_compare ht x y"
  shows "x = y \<and> v = w"
proof -
  obtain a b where ab: "a \<in> addrs (num_bins t) cs" "b \<in> addrs (num_bins t) cs"
    "x = e_key (ent (entries t) a)" "v = e_record (ent (entries t) a)"
    "y = e_key (ent (entries t) b)" "w = e_record (ent (entries t) b)"
    using assms(2,3) by (auto simp: assocs_def)
  then have "a = b" using assms(1,4) unfolding table_inv_def by blast
  then show ?thesis using ab by simp
qed

text \<open>
  A table whose pairs are those of another with the pairs under \<open>k\<close> replaced by \<open>(x, v)\<close>, or
  dropped, answers lookups accordingly.
\<close>

lemma lookup_replace:
  assumes inv: "table_inv ht cs t" "table_inv ht cs' t'" and x: "ht_compare ht k x"
    and a: "assocs cs' t' = insert (x, v) {p \<in> assocs cs t. \<not> ht_compare ht k (fst p)}"
  shows "YogTable_lookup ht t' k' = (if ht_compare ht k k' then Inr (Some v) else YogTable_lookup ht t k')"
proof (cases "ht_compare ht k k'")
  case True
  then have "ht_compare ht k' x" using x cmp_sym cmp_trans by blast
  then show ?thesis using lookup_someI[OF inv(2), of x v k'] a True by simp
next
  case False
  show ?thesis
  proof (cases "do_hash ht k'")
    case (Inr hv)
    have nx: "\<not> ht_compare ht k' x" using False x cmp_sym cmp_trans by blast
    show ?thesis
    proof (cases "\<exists>p \<in> assocs cs t. ht_compare ht k' (fst p)")
      case True
      then obtain y w where y: "(y, w) \<in> assocs cs t" "ht_compare ht k' y" by auto
      have "\<not> ht_compare ht k y" using False y(2) cmp_sym cmp_trans by blast
      then have "(y, w) \<in> assocs cs' t'" using y a by simp
      then show ?thesis using False y lookup_someI[OF inv(1), of y w k']
          lookup_someI[OF inv(2), of y w k'] by simp
    next
      case none: False
      then have "\<forall>p \<in> assocs cs' t'. \<not> ht_compare ht k' (fst p)" using a nx by auto
      then show ?thesis using False none lookup_noneI[OF inv(1) Inr] lookup_noneI[OF inv(2) Inr]
        by auto
    qed
  qed (use False in \<open>simp add: lookup_unhashable\<close>)
qed

lemma lookup_drop:
  assumes inv: "table_inv ht cs t" "table_inv ht cs' t'" and hv: "do_hash ht k = Inr hv"
    and a: "assocs cs' t' = {p \<in> assocs cs t. \<not> ht_compare ht k (fst p)}"
  shows "YogTable_lookup ht t' k' = (if ht_compare ht k k' then Inr None else YogTable_lookup ht t k')"
proof (cases "do_hash ht k'")
  case (Inr hv')
  show ?thesis
  proof (cases "\<exists>p \<in> assocs cs t. ht_compare ht k' (fst p)")
    case True
    then obtain y w where y: "(y, w) \<in> assocs cs t" "ht_compare ht k' y" by auto
    show ?thesis
    proof (cases "ht_compare ht k k'")
      case True
      then have "\<forall>p \<in> assocs cs' t'. \<not> ht_compare ht k' (fst p)"
        using a cmp_trans[of k k'] by auto
      then show ?thesis using True lookup_noneI[OF inv(2) Inr] by simp
    next
      case False
      then have "\<not> ht_compare ht k y" using y(2) cmp_sym cmp_trans by blast
      then have "(y, w) \<in> assocs cs' t'" using y a by simp
      then show ?thesis using False y lookup_someI[OF inv(1), of y w k']
          lookup_someI[OF inv(2), of y w k'] by simp
    qed
  next
    case False
    then have "\<forall>p \<in> assocs cs' t'. \<not> ht_compare ht k' (fst p)" using a by auto
    then show ?thesis using False lookup_noneI[OF inv(1) Inr] lookup_noneI[OF inv(2) Inr] by auto
  qed
next
  case (Inl e)
  then have "\<not> ht_compare ht k k'" using hv cmp_hash by force
  then show ?thesis using Inl by (simp add: lookup_unhashable)
qed

lemma update_record_ok:
  fixes v :: 'v
  assumes inv: "table_inv ht cs t" and a: "a \<in> addrs (num_bins t) cs"
    and c: "ht_compare ht k (e_key (ent (entries t) a))"
  defines "t' \<equiv> t\<lparr>entries := (entries t)(a \<mapsto> (ent (entries t) a)\<lparr>e_record := v\<rparr>)\<rparr>"
  shows "table_inv ht cs t' \<and> assocs cs t' =
    insert (e_key (ent (entries t) a), v) {p \<in> assocs cs t. \<not> ht_compare ht k (fst p)}"
proof -
  let ?e = "ent (entries t) a" and ?S = "addrs (num_bins t) cs"
  have dm: "a \<in> dom (entries t)" using a table_inv_dom[OF inv] by auto
  then have h: "entries t a = Some ?e" by auto
  have ch: "chain (entries t') p xs = chain (entries t) p xs" for p xs
    using chain_record[of "entries t" a ?e "?e\<lparr>e_record := v\<rparr>"] h by (simp add: t'_def)
  have k: "e_key (ent (entries t') b) = e_key (ent (entries t) b)"
    "e_hash (ent (entries t') b) = e_hash (ent (entries t) b)" for b
    by (simp_all add: t'_def)
  have ok: "bins_ok (entries t') (num_bins t) (bins t) cs"
    using inv by (simp add: table_inv_def bins_ok_def ch k)
  have dt: "dom (entries t') = dom (entries t)" using dm by (auto simp: t'_def)
  have s: "num_bins t' = num_bins t" "bins t' = bins t" "num_entries t' = num_entries t"
    "next_addr t' = next_addr t" by (simp_all add: t'_def)
  have ti: "table_inv ht cs t'"
    using inv ok dt by (simp add: table_inv_def s k)
  have only: "b = a" if "b \<in> ?S" "ht_compare ht k (e_key (ent (entries t) b))" for b
  proof -
    have "ht_compare ht (e_key (ent (entries t) b)) (e_key ?e)" using that(2) c cmp_sym cmp_trans by blast
    then show ?thesis using inv a that(1) unfolding table_inv_def by blast
  qed
  have rec: "e_record (ent (entries t') b) = (if b = a then v else e_record (ent (entries t) b))" for b
    by (simp add: t'_def)
  have split: "assocs cs t' = insert (e_key ?e, v)
      ((\<lambda>b. (e_key (ent (entries t) b), e_record (ent (entries t) b))) ` (?S - {a}))"
  proof -
    let ?f = "\<lambda>b. (e_key (ent (entries t) b), e_record (ent (entries t) b))"
    let ?g = "\<lambda>b. (e_key (ent (entries t) b), if b = a then v else e_record (ent (entries t) b))"
    have "insert a (?S - {a}) = ?S" using a by (rule insert_Diff)
    then have "?g ` ?S = ?g ` insert a (?S - {a})" by (rule arg_cong[OF sym])
    then have "?g ` ?S = insert (?g a) (?g ` (?S - {a}))" by (simp only: image_insert)
    moreover have "?g ` (?S - {a}) = ?f ` (?S - {a})" by (rule image_cong) auto
    moreover have "assocs cs t' = ?g ` ?S" by (simp only: assocs_def s k rec)
    ultimately show ?thesis by simp
  qed
  have "{p \<in> assocs cs t. \<not> ht_compare ht k (fst p)}
      = (\<lambda>b. (e_key (ent (entries t) b), e_record (ent (entries t) b))) ` (?S - {a})"
    using only c by (auto simp: assocs_def)
  then show ?thesis using ti split by simp
qed

lemma insert_ok:
  assumes inv: "table_inv ht cs t" and hv: "do_hash ht k = Inr hv"
    and room: "num_entries t < 6442451454"
  shows "\<exists>found t' cs' x. YogTable_insert ht t k v = Inr (found, t') \<and> table_inv ht cs' t'
    \<and> ht_compare ht k x
    \<and> assocs cs' t' = insert (x, v) {p \<in> assocs cs t. \<not> ht_compare ht k (fst p)}
    \<and> found = (\<exists>p \<in> assocs cs t. ht_compare ht k (fst p))
    \<and> num_entries t' = num_entries t + (if found then 0 else 1)"
proof -
  obtain p where p: "find_entry ht t hv k = Inr (p, hv mod num_bins t)"
    "case p of None \<Rightarrow> \<forall>a \<in> addrs (num_bins t) cs. \<not> ht_compare ht k (e_key (ent (entries t) a))
     | Some a \<Rightarrow> a \<in> addrs (num_bins t) cs \<and> ht_compare ht k (e_key (ent (entries t) a))
         \<and> e_hash (ent (entries t) a) = hv"
    using find_entry_spec[OF inv hv] by blast
  show ?thesis
  proof (cases p)
    case None
    then have no: "\<forall>q \<in> assocs cs t. \<not> ht_compare ht k (fst q)" using p(2) by (auto simp: assocs_def)
    then have "\<forall>q \<in> assocs cs t. \<not> ht_compare ht k (fst q) \<and> \<not> ht_compare ht (fst q) k"
      using cmp_sym by blast
    from add_direct_ok[OF inv hv this room, of v] obtain t' cs' where
      r: "add_direct t k v hv (hv mod num_bins t) = Inr t'" "table_inv ht cs' t'"
      "assocs cs' t' = insert (k, v) (assocs cs t)" "num_entries t' = num_entries t + 1" by blast
    have "assocs cs' t' = insert (k, v) {q \<in> assocs cs t. \<not> ht_compare ht k (fst q)}"
      using r(3) no by auto
    moreover have "YogTable_insert ht t k v = Inr (False, t')"
      using hv p(1) r(1) None by (simp add: YogTable_insert_def)
    moreover have "\<not> (\<exists>q \<in> assocs cs t. ht_compare ht k (fst q))" using no by blast
    ultimately show ?thesis using r(2,4) cmp_refl[of k]
      by (intro exI[of _ False] exI[of _ t'] exI[of _ cs'] exI[of _ k]) simp
  next
    case (Some a)
    let ?e = "ent (entries t) a"
    have a: "a \<in> addrs (num_bins t) cs" "ht_compare ht k (e_key ?e)" using p(2) Some by auto
    then have "entries t a = Some ?e" using table_inv_dom[OF inv] by auto
    then have "YogTable_insert ht t k v =
      Inr (True, t\<lparr>entries := (entries t)(a \<mapsto> ?e\<lparr>e_record := v\<rparr>)\<rparr>)"
      using hv p(1) Some by (simp add: YogTable_insert_def)
    moreover have "\<exists>q \<in> assocs cs t. ht_compare ht k (fst q)" using a by (auto simp: assocs_def)
    ultimately show ?thesis using update_record_ok[OF inv a, of v] a(2)
      by (intro exI[of _ True] exI[of _ "t\<lparr>entries := (entries t)(a \<mapsto> ?e\<lparr>e_record := v\<rparr>)\<rparr>"]
          exI[of _ cs] exI[of _ "e_key ?e"]) simp
  qed
qed

text \<open>Unlinking an entry of bin \<open>i\<close>.\<close>

lemma unlink_ok:
  assumes inv: "table_inv ht cs t" and i: "i < num_bins t" and b: "b \<in> set (cs i)"
    and c: "ht_compare ht k (e_key (ent (entries t) b))"
    and h': "same_data (entries t) h'" "\<forall>x. x \<notin> set (cs i) \<longrightarrow> h' x = entries t x"
    and bs': "length bs' = num_bins t" "\<forall>j < num_bins t. j \<noteq> i \<longrightarrow> bs' ! j = bins t ! j"
      "chain h' (bs' ! i) (removeAll b (cs i))"
  defines "t' \<equiv> t\<lparr>entries := h', bins := bs', num_entries := num_entries t - 1\<rparr>"
  defines "cs' \<equiv> cs(i := removeAll b (cs i))"
  shows "table_inv ht cs' t' \<and> assocs cs' t' = {p \<in> assocs cs t. \<not> ht_compare ht k (fst p)}"
proof -
  let ?n = "num_bins t" and ?h = "entries t"
  have ok: "bins_ok ?h ?n (bins t) cs" using inv by (simp add: table_inv_def)
  have bS: "b \<in> addrs ?n cs" using bin_addrs[OF i] b by blast
  have ad: "addrs ?n cs' = addrs ?n cs - {b}"
  proof -
    have "b \<notin> set (cs j)" if "j < ?n" "j \<noteq> i" for j
      using bins_ok_disjoint[OF ok i that(1)] that b by blast
    then show ?thesis using i by (auto simp: addrs_def cs'_def split: if_splits)
  qed
  have dm: "addrs ?n cs \<subseteq> dom ?h" using inv by (rule table_inv_dom)
  have e: "e_key (ent h' x) = e_key (ent ?h x)" "e_hash (ent h' x) = e_hash (ent ?h x)"
    "e_record (ent h' x) = e_record (ent ?h x)" if "x \<in> addrs ?n cs" for x
    using same_data_ent[OF h'(1)] that dm by blast+
  have ok': "bins_ok h' ?n bs' cs'"
    unfolding bins_ok_def
  proof (intro conjI allI impI)
    fix j assume j: "j < ?n"
    have "chain h' (bins t ! j) (cs j)" if "j \<noteq> i"
      using ok j h'(2) bins_ok_disjoint[OF ok i j] that
      by (subst chain_frame[of _ _ ?h]) (auto simp: bins_ok_def)
    then show "chain h' (bs' ! j) (cs' j)" using j bs'(2,3) by (auto simp: cs'_def)
    show "distinct (cs' j)" using ok j by (auto simp: bins_ok_def cs'_def distinct_removeAll)
    show "\<forall>a \<in> set (cs' j). e_hash (ent h' a) mod ?n = j"
      using ok j e(2) bin_addrs[OF j, of cs] bin_addrs[OF i, of cs] i
      by (auto simp: bins_ok_def cs'_def subset_iff split: if_splits)
  qed (use ok bs'(1) in \<open>simp_all add: bins_ok_def\<close>)
  have cd: "int (card (addrs ?n cs - {b})) = num_entries t - 1"
  proof -
    have "0 < card (addrs ?n cs)" using bS by (auto simp: card_gt_0_iff)
    then show ?thesis using inv bS by (simp add: table_inv_def of_nat_diff)
  qed
  have ti: "table_inv ht cs' t'"
    using inv ok' ad cd e same_data_ent(1)[OF h'(1)] unfolding table_inv_def t'_def by auto
  have only: "x = b" if "x \<in> addrs ?n cs" "ht_compare ht k (e_key (ent ?h x))" for x
  proof -
    have "ht_compare ht (e_key (ent ?h x)) (e_key (ent ?h b))"
      using that(2) c cmp_sym cmp_trans by blast
    then show ?thesis using inv bS that(1) unfolding table_inv_def by blast
  qed
  have "assocs cs' t' = (\<lambda>a. (e_key (ent ?h a), e_record (ent ?h a))) ` (addrs ?n cs - {b})"
    using e ad unfolding assocs_def t'_def by (intro image_cong) auto
  also have "\<dots> = {p \<in> assocs cs t. \<not> ht_compare ht k (fst p)}"
    using only c by (auto simp: assocs_def)
  finally show ?thesis using ti by simp
qed

lemma delete_loop_chain:
  assumes "chain (entries t) p (a # xs)" "distinct (a # xs)" "length xs \<le> fuel"
  shows "((\<forall>b \<in> set xs. \<not> ht_compare ht (e_key (ent (entries t) b)) k)
      \<and> delete_loop fuel ht t p k = Inr (NotFound, t))
    \<or> (\<exists>b h'. b \<in> set xs \<and> ht_compare ht (e_key (ent (entries t) b)) k
      \<and> delete_loop fuel ht t p k = Inr (Deleted (e_key (ent (entries t) b))
           (e_record (ent (entries t) b)), t\<lparr>entries := h', num_entries := num_entries t - 1\<rparr>)
      \<and> chain h' p (a # removeAll b xs) \<and> same_data (entries t) h'
      \<and> (\<forall>c. c \<notin> set (a # xs) \<longrightarrow> h' c = entries t c))"
  using assms
proof (induction xs arbitrary: p a fuel)
  case Nil
  then show ?case by (auto simp: delete_loop.simps(2)[of fuel])
next
  case (Cons b xs)
  let ?h = "entries t"
  obtain e where e: "p = Some a" "?h a = Some e" "chain ?h (e_next e) (b # xs)"
    using Cons.prems(1) by auto
  then obtain n where n: "e_next e = Some b" "?h b = Some n" "chain ?h (e_next n) xs" by auto
  obtain f where f: "fuel = Suc f" "length xs \<le> f" using Cons.prems(3) by (cases fuel) auto
  show ?case
  proof (cases "ht_compare ht (e_key n) k")
    case True
    let ?h' = "?h(a \<mapsto> e\<lparr>e_next := e_next n\<rparr>)"
    have "chain ?h' (e_next n) xs" using n(3) Cons.prems(2) by (subst chain_frame[of _ _ ?h]) auto
    moreover have "removeAll b xs = xs" using Cons.prems(2) by (simp add: removeAll_id)
    ultimately have "chain ?h' p (a # removeAll b (b # xs))" using e by simp
    moreover have "same_data ?h ?h'" using same_data_link[of ?h a e, OF e(2)] .
    ultimately show ?thesis using True e n Cons.prems(2)
      by (intro disjI2 exI[of _ b] exI[of _ ?h']) (simp add: delete_loop.simps(2)[of fuel] fun_upd_def)
  next
    case False
    have step: "delete_loop fuel ht t p k = delete_loop f ht t (e_next e) k"
      using False e n f by (simp add: delete_loop.simps(2)[of "Suc f"])
    have d: "distinct (b # xs)" using Cons.prems(2) by simp
    from Cons.IH[OF e(3) d f(2)] show ?thesis
    proof (elim disjE exE conjE)
      fix c h' assume c: "c \<in> set xs" "ht_compare ht (e_key (ent ?h c)) k"
        "delete_loop f ht t (e_next e) k = Inr (Deleted (e_key (ent ?h c)) (e_record (ent ?h c)),
           t\<lparr>entries := h', num_entries := num_entries t - 1\<rparr>)"
        "chain h' (e_next e) (b # removeAll c xs)" "same_data ?h h'"
        "\<forall>x. x \<notin> set (b # xs) \<longrightarrow> h' x = ?h x"
      have "h' a = Some e" using c(6) Cons.prems(2) e(2) by auto
      moreover have "b \<noteq> c" using c(1) Cons.prems(2) by auto
      ultimately have "chain h' p (a # removeAll c (b # xs))" using c(4) e(1) by simp
      then show ?thesis using c step by (intro disjI2 exI[of _ c] exI[of _ h']) auto
    qed (use False n step in auto)
  qed
qed

lemma delete_ok:
  assumes inv: "table_inv ht cs t" and hv: "do_hash ht k = Inr hv"
  shows "(\<exists>x v t' cs'. YogTable_delete ht t k = Inr (Deleted x v, t') \<and> (x, v) \<in> assocs cs t
      \<and> ht_compare ht k x \<and> table_inv ht cs' t'
      \<and> assocs cs' t' = {p \<in> assocs cs t. \<not> ht_compare ht k (fst p)}
      \<and> num_entries t' = num_entries t - 1)
    \<or> (\<exists>r. YogTable_delete ht t k = Inr (r, t) \<and> (r = NotFound \<or> r = NotFoundNil)
      \<and> (\<forall>p \<in> assocs cs t. \<not> ht_compare ht k (fst p)))"
proof -
  let ?n = "num_bins t" and ?h = "entries t"
  define i where "i = hv mod ?n"
  have ok: "bins_ok ?h ?n (bins t) cs" and dm: "dom ?h \<subseteq> {..<next_addr t}"
    using inv by (auto simp: table_inv_def)
  have n: "0 < ?n" "i < ?n" "length (bins t) = ?n" using ok by (auto simp: bins_ok_def i_def)
  have ch: "chain ?h (bins t ! i) (cs i)" "distinct (cs i)" using ok n by (auto simp: bins_ok_def)
  have len: "length (cs i) \<le> next_addr t" using chain_length[OF ch dm] .
  have bin: "do_hash_bin ht t k = Inr i" using hv n by (simp add: do_hash_bin_def i_def)
  have here: "a \<in> set (cs i)" if "a \<in> addrs ?n cs" "ht_compare ht k (e_key (ent ?h a))" for a
  proof -
    have "do_hash ht (e_key (ent ?h a)) = Inr (e_hash (ent ?h a))"
      using inv that(1) by (auto simp: table_inv_def)
    then have "e_hash (ent ?h a) = hv" using cmp_hash[OF that(2)] hv by simp
    then show ?thesis using bins_ok_bin[OF ok that(1)] by (simp add: i_def)
  qed
  show ?thesis
  proof (cases "cs i")
    case Nil
    then have "YogTable_delete ht t k = Inr (NotFoundNil, t)"
      using ch n bin by (simp add: YogTable_delete_def)
    moreover have "\<forall>p \<in> assocs cs t. \<not> ht_compare ht k (fst p)"
      using here Nil by (fastforce simp: assocs_def)
    ultimately show ?thesis by blast
  next
    case (Cons a as)
    then obtain e where e: "bins t ! i = Some a" "?h a = Some e" "chain ?h (e_next e) as"
      using ch(1) by auto
    have aS: "a \<in> set (cs i)" using Cons by simp
    show ?thesis
    proof (cases "ht_compare ht k (e_key e)")
      case True
      let ?t = "t\<lparr>bins := (bins t)[i := e_next e], num_entries := num_entries t - 1\<rparr>"
      have rm: "removeAll a (cs i) = as" using Cons ch(2) by (simp add: removeAll_id)
      have "table_inv ht (cs(i := removeAll a (cs i)))
          (t\<lparr>entries := ?h, bins := (bins t)[i := e_next e], num_entries := num_entries t - 1\<rparr>)
        \<and> assocs (cs(i := removeAll a (cs i)))
          (t\<lparr>entries := ?h, bins := (bins t)[i := e_next e], num_entries := num_entries t - 1\<rparr>)
          = {p \<in> assocs cs t. \<not> ht_compare ht k (fst p)}"
        using True e n rm by (intro unlink_ok[OF inv n(2) aS]) simp_all
      moreover have "YogTable_delete ht t k = Inr (Deleted (e_key e) (e_record e), ?t)"
        using True e n bin by (simp add: YogTable_delete_def)
      moreover have "(e_key e, e_record e) \<in> assocs cs t"
        using aS bin_addrs[OF n(2), of cs] e(2) by (force simp: assocs_def)
      ultimately show ?thesis using True by (intro disjI1) force
    next
      case False
      have c: "chain ?h (bins t ! i) (a # as)" "distinct (a # as)" "length as \<le> next_addr t"
        using ch len Cons by auto
      have del: "YogTable_delete ht t k = delete_loop (next_addr t) ht t (bins t ! i) k"
        using False e n bin by (simp add: YogTable_delete_def)
      from delete_loop_chain[OF c, of k] show ?thesis
      proof (elim disjE exE conjE)
        assume r: "\<forall>b \<in> set as. \<not> ht_compare ht (e_key (ent ?h b)) k"
          "delete_loop (next_addr t) ht t (bins t ! i) k = Inr (NotFound, t)"
        have "\<not> ht_compare ht k (e_key (ent ?h b))" if b: "b \<in> addrs ?n cs" for b
          using here[OF b] r(1) False e(2) Cons by (auto dest: cmp_sym)
        then show ?thesis using del r(2) by (auto simp: assocs_def)
      next
        fix b h' assume b: "b \<in> set as" "ht_compare ht (e_key (ent ?h b)) k"
          "delete_loop (next_addr t) ht t (bins t ! i) k = Inr (Deleted (e_key (ent ?h b))
             (e_record (ent ?h b)), t\<lparr>entries := h', num_entries := num_entries t - 1\<rparr>)"
          "chain h' (bins t ! i) (a # removeAll b as)" "same_data ?h h'"
          "\<forall>x. x \<notin> set (a # as) \<longrightarrow> h' x = ?h x"
        have bc: "b \<in> set (cs i)" "ht_compare ht k (e_key (ent ?h b))" "a \<noteq> b"
          using b(1,2) Cons c(2) cmp_sym by auto
        let ?t = "t\<lparr>entries := h', num_entries := num_entries t - 1\<rparr>"
        have "table_inv ht (cs(i := removeAll b (cs i)))
            (t\<lparr>entries := h', bins := bins t, num_entries := num_entries t - 1\<rparr>)
          \<and> assocs (cs(i := removeAll b (cs i)))
            (t\<lparr>entries := h', bins := bins t, num_entries := num_entries t - 1\<rparr>)
            = {p \<in> assocs cs t. \<not> ht_compare ht k (fst p)}"
          using b bc n Cons by (intro unlink_ok[OF inv n(2)]) simp_all
        moreover have "(e_key (ent ?h b), e_record (ent ?h b)) \<in> assocs cs t"
          using bc(1) bin_addrs[OF n(2), of cs] by (auto simp: assocs_def)
        ultimately show ?thesis using del b(3) bc(2) by (intro disjI1) force
      qed
    qed
  qed
qed

end

section \<open>The interface to dictionaries and sets\<close>

text \<open>
  What a client of the table may rely on. \<open>ok\<close> is its invariant, \<open>room\<close> that it may grow (it may below \<open>cap\<close> entries), \<open>eq\<close> the
  equality of keys and \<open>hashes\<close> that hashing a key does not raise.
\<close>

locale key_map =
  fixes ok :: "'t \<Rightarrow> bool"
    and room :: "'t \<Rightarrow> bool"
    and eq :: "'k \<Rightarrow> 'k \<Rightarrow> bool"
    and hashes :: "'k \<Rightarrow> bool"
    and get :: "'t \<Rightarrow> 'k \<Rightarrow> 'v option res"
    and put :: "'t \<Rightarrow> 'k \<Rightarrow> 'v \<Rightarrow> (bool \<times> 't) res"
    and del :: "'t \<Rightarrow> 'k \<Rightarrow> (('k, 'v) delete_result \<times> 't) res"
    and count :: "'t \<Rightarrow> int"
    and cap :: int
  assumes room_cap: "count t < cap \<Longrightarrow> room t"
    and eq_refl: "eq k k"
    and eq_sym: "eq k k' \<Longrightarrow> eq k' k"
    and eq_trans: "eq k k' \<Longrightarrow> eq k' k'' \<Longrightarrow> eq k k''"
    and get_eq: "ok t \<Longrightarrow> eq k k' \<Longrightarrow> get t k = get t k'"
    and get_total: "ok t \<Longrightarrow> hashes k \<Longrightarrow> \<exists>r. get t k = Inr r"
    and put_total: "ok t \<Longrightarrow> room t \<Longrightarrow> hashes k \<Longrightarrow> \<exists>b t'. put t k v = Inr (b, t')"
    and put_hashes: "put t k v = Inr q \<Longrightarrow> hashes k"
    and put_ok: "ok t \<Longrightarrow> room t \<Longrightarrow> put t k v = Inr (b, t') \<Longrightarrow> ok t'"
    and get_put: "ok t \<Longrightarrow> room t \<Longrightarrow> put t k v = Inr (b, t') \<Longrightarrow>
        get t' k' = (if eq k k' then Inr (Some v) else get t k')"
    and put_count: "ok t \<Longrightarrow> room t \<Longrightarrow> put t k v = Inr (b, t') \<Longrightarrow>
        b = (get t k \<noteq> Inr None) \<and> count t' = count t + (if get t k = Inr None then 1 else 0)"
    and del_total: "ok t \<Longrightarrow> hashes k \<Longrightarrow> \<exists>r t'. del t k = Inr (r, t')"
    and del_ok: "ok t \<Longrightarrow> hashes k \<Longrightarrow> del t k = Inr (r, t') \<Longrightarrow> ok t'"
    and get_del: "ok t \<Longrightarrow> hashes k \<Longrightarrow> del t k = Inr (r, t') \<Longrightarrow>
        get t' k' = (if eq k k' then Inr None else get t k')"
    and del_result: "ok t \<Longrightarrow> hashes k \<Longrightarrow> del t k = Inr (r, t') \<Longrightarrow>
        (case r of Deleted x v \<Rightarrow> eq k x \<and> get t k = Inr (Some v) \<and> count t' = count t - 1
         | _ \<Rightarrow> get t k = Inr None \<and> t' = t)"
begin

lemma get_put_same: "ok t \<Longrightarrow> room t \<Longrightarrow> put t k v = Inr (b, t') \<Longrightarrow> get t' k = Inr (Some v)"
  using get_put eq_refl by simp

lemma del_put:
  assumes "ok t" "room t" "put t k v = Inr (b, t1)" "del t1 k = Inr (r, t2)" "get t k = Inr None"
  shows "count t2 = count t" "get t2 k' = get t k'"
proof -
  have h: "hashes k" using assms(3) by (rule put_hashes)
  have ok1: "ok t1" using assms by (blast intro: put_ok)
  have g1: "get t1 k = Inr (Some v)" using assms get_put_same by blast
  have c1: "count t1 = count t + 1" using put_count[OF assms(1-3)] assms(5) by simp
  show "count t2 = count t" using del_result[OF ok1 h assms(4)] g1 c1 by (cases r) auto
  show "get t2 k' = get t k'"
  proof (cases "eq k k'")
    case True
    then show ?thesis using get_del[OF ok1 h assms(4), of k'] get_eq[OF assms(1) True] assms(5) by simp
  next
    case False
    then show ?thesis using get_del[OF ok1 h assms(4), of k'] get_put[OF assms(1-3), of k'] by simp
  qed
qed

text \<open>Putting a list of pairs, one after the other: the last pair under a key wins.\<close>

lemma put_all:
  assumes "ok t" "\<forall>p \<in> set kvs. hashes (fst p)" "count t + int (length kvs) \<le> cap"
  shows "\<exists>t'. foldM (\<lambda>(k, v) t. res_bind (put t k v) (\<lambda>(b, t'). Inr t')) kvs t = Inr t' \<and> ok t'
    \<and> count t \<le> count t' \<and> count t' \<le> count t + int (length kvs)
    \<and> (\<forall>k'. get t' k' = (case find (\<lambda>p. eq (fst p) k') (rev kvs) of
                           Some p \<Rightarrow> Inr (Some (snd p)) | None \<Rightarrow> get t k'))"
  using assms
proof (induction kvs arbitrary: t)
  case (Cons p kvs)
  obtain k v where p: "p = (k, v)" by (cases p)
  have room: "room t" using Cons.prems(3) by (intro room_cap) simp
  obtain b t1 where t1: "put t k v = Inr (b, t1)"
    using put_total[OF Cons.prems(1) room] Cons.prems(2) p by fastforce
  have ok1: "ok t1" and c1: "count t \<le> count t1" "count t1 \<le> count t + 1"
    using put_ok[OF Cons.prems(1) room t1] put_count[OF Cons.prems(1) room t1] by auto
  obtain t2 where t2: "foldM (\<lambda>(k, v) t. res_bind (put t k v) (\<lambda>(b, t'). Inr t')) kvs t1 = Inr t2"
    "ok t2" "count t1 \<le> count t2" "count t2 \<le> count t1 + int (length kvs)"
    "\<forall>k'. get t2 k' = (case find (\<lambda>p. eq (fst p) k') (rev kvs) of
                         Some p \<Rightarrow> Inr (Some (snd p)) | None \<Rightarrow> get t1 k')"
    using Cons.IH[OF ok1] Cons.prems(2,3) c1 by auto
  have app: "find P (xs @ [y]) = (case find P xs of None \<Rightarrow> if P y then Some y else None | Some z \<Rightarrow> Some z)"
    for P xs and y :: "'b \<times> 'c" by (induction xs) auto
  have "get t2 k' = (case find (\<lambda>p. eq (fst p) k') (rev (p # kvs)) of
           Some p \<Rightarrow> Inr (Some (snd p)) | None \<Rightarrow> get t k')" for k'
    using t2(5) get_put[OF Cons.prems(1) room t1, of k'] p by (simp add: app split: option.split)
  then show ?case using t1 t2 p c1 by auto
qed (auto intro: exI)

end

definition key_hashes :: "'k hash_type \<Rightarrow> 'k \<Rightarrow> bool" where
  "key_hashes ht k \<longleftrightarrow> res_ok (do_hash ht k)"

definition table_room :: "('k, 'v) table \<Rightarrow> bool" where
  "table_room t \<longleftrightarrow> num_entries t < 6442451454"

lemma key_hashesE:
  assumes "key_hashes ht k"
  obtains hv where "do_hash ht k = Inr hv"
  using assms by (cases "do_hash ht k") (auto simp: key_hashes_def)

context hash_laws
begin

lemma lookup_total: "table_ok ht t \<Longrightarrow> key_hashes ht k \<Longrightarrow> \<exists>r. YogTable_lookup ht t k = Inr r"
  unfolding table_ok_def using lookup_found lookup_missing by (elim exE key_hashesE) blast

lemma lookup_eq:
  assumes "table_ok ht t" "ht_compare ht k k'"
  shows "YogTable_lookup ht t k = YogTable_lookup ht t k'"
proof -
  obtain cs where inv: "table_inv ht cs t" using assms(1) by (auto simp: table_ok_def)
  show ?thesis
  proof (cases "do_hash ht k")
    case (Inr hv)
    then have hv': "do_hash ht k' = Inr hv" using cmp_hash[OF assms(2)] by simp
    have iff: "ht_compare ht k x \<longleftrightarrow> ht_compare ht k' x" for x
      using assms(2) cmp_sym cmp_trans by blast
    show ?thesis
    proof (cases "\<exists>p \<in> assocs cs t. ht_compare ht k (fst p)")
      case True
      then obtain x v where "(x, v) \<in> assocs cs t" "ht_compare ht k x" by auto
      then show ?thesis using lookup_someI[OF inv, of x v] iff by simp
    next
      case False
      then show ?thesis using lookup_noneI[OF inv Inr] lookup_noneI[OF inv hv'] iff by auto
    qed
  next
    case (Inl e)
    then have "do_hash ht k' = Inl e" using cmp_hash[OF assms(2)] by simp
    then show ?thesis using Inl by (simp add: lookup_unhashable)
  qed
qed

lemma lookup_None_iff:
  assumes "table_inv ht cs t" "do_hash ht k = Inr hv"
  shows "YogTable_lookup ht t k = Inr None \<longleftrightarrow> (\<forall>p \<in> assocs cs t. \<not> ht_compare ht k (fst p))"
proof
  assume "YogTable_lookup ht t k = Inr None"
  then show "\<forall>p \<in> assocs cs t. \<not> ht_compare ht k (fst p)"
    using lookup_someI[OF assms(1)] by fastforce
qed (rule lookup_noneI[OF assms])

lemma table_insert_spec:
  assumes "table_ok ht t" "table_room t" "key_hashes ht k"
  shows "\<exists>t'. YogTable_insert ht t k v = Inr (YogTable_lookup ht t k \<noteq> Inr None, t') \<and> table_ok ht t'
    \<and> (\<forall>k'. YogTable_lookup ht t' k' =
          (if ht_compare ht k k' then Inr (Some v) else YogTable_lookup ht t k'))
    \<and> num_entries t' = num_entries t + (if YogTable_lookup ht t k = Inr None then 1 else 0)"
proof -
  obtain cs where inv: "table_inv ht cs t" using assms(1) by (auto simp: table_ok_def)
  obtain hv where hv: "do_hash ht k = Inr hv" using assms(3) by (rule key_hashesE)
  obtain found t' cs' x where r: "YogTable_insert ht t k v = Inr (found, t')" "table_inv ht cs' t'"
    "ht_compare ht k x" "assocs cs' t' = insert (x, v) {p \<in> assocs cs t. \<not> ht_compare ht k (fst p)}"
    "found = (\<exists>p \<in> assocs cs t. ht_compare ht k (fst p))"
    "num_entries t' = num_entries t + (if found then 0 else 1)"
    using insert_ok[OF inv hv, of v] assms(2) by (auto simp: table_room_def)
  have "found = (YogTable_lookup ht t k \<noteq> Inr None)"
    using lookup_None_iff[OF inv hv] r(5) by blast
  then show ?thesis using r lookup_replace[OF inv r(2,3,4)] by (auto simp: table_ok_def)
qed

text \<open>\<^verbatim>\<open>YogTable_add_direct\<close> skips the search: on an absent key it does what insertion does.\<close>

lemma add_direct_absent:
  assumes "table_ok ht t" "table_room t" "key_hashes ht k" "YogTable_lookup ht t k = Inr None"
  shows "\<exists>t'. YogTable_add_direct ht t k v = Inr t' \<and> table_ok ht t'
    \<and> (\<forall>k'. YogTable_lookup ht t' k' =
          (if ht_compare ht k k' then Inr (Some v) else YogTable_lookup ht t k'))
    \<and> num_entries t' = num_entries t + 1"
proof -
  obtain cs where inv: "table_inv ht cs t" using assms(1) by (auto simp: table_ok_def)
  obtain hv where hv: "do_hash ht k = Inr hv" using assms(3) by (rule key_hashesE)
  obtain p where p: "find_entry ht t hv k = Inr (p, hv mod num_bins t)"
    using find_entry_spec[OF inv hv] by blast
  have n: "num_bins t \<noteq> 0" using inv by (auto simp: table_inv_def bins_ok_def)
  have none: "p = None" using assms(4) hv p by (auto simp: YogTable_lookup_def res_bind_Inr_iff split: if_splits)
  obtain t' where t': "YogTable_insert ht t k v = Inr (False, t')" "table_ok ht t'"
    "\<forall>k'. YogTable_lookup ht t' k' = (if ht_compare ht k k' then Inr (Some v) else YogTable_lookup ht t k')"
    "num_entries t' = num_entries t + 1"
    using table_insert_spec[OF assms(1-3), of v] assms(4) by auto
  have "YogTable_add_direct ht t k v = Inr t'"
    using t'(1) hv p none n
    by (simp add: YogTable_insert_def YogTable_add_direct_def res_bind_Inr_iff Let_def)
  then show ?thesis using t'(2-4) by blast
qed

lemma table_delete_spec:
  assumes "table_ok ht t" "key_hashes ht k"
  shows "\<exists>r t'. YogTable_delete ht t k = Inr (r, t') \<and> table_ok ht t'
    \<and> (\<forall>k'. YogTable_lookup ht t' k' =
          (if ht_compare ht k k' then Inr None else YogTable_lookup ht t k'))
    \<and> (case r of Deleted x v \<Rightarrow> ht_compare ht k x \<and> YogTable_lookup ht t k = Inr (Some v)
                    \<and> num_entries t' = num_entries t - 1
         | _ \<Rightarrow> YogTable_lookup ht t k = Inr None \<and> t' = t)"
proof -
  obtain cs where inv: "table_inv ht cs t" using assms(1) by (auto simp: table_ok_def)
  obtain hv where hv: "do_hash ht k = Inr hv" using assms(2) by (rule key_hashesE)
  have "(\<exists>x v t' cs'. YogTable_delete ht t k = Inr (Deleted x v, t') \<and> (x, v) \<in> assocs cs t
      \<and> ht_compare ht k x \<and> table_inv ht cs' t'
      \<and> assocs cs' t' = {p \<in> assocs cs t. \<not> ht_compare ht k (fst p)}
      \<and> num_entries t' = num_entries t - 1)
    \<or> ((YogTable_delete ht t k = Inr (NotFound, t) \<or> YogTable_delete ht t k = Inr (NotFoundNil, t))
      \<and> (\<forall>p \<in> assocs cs t. \<not> ht_compare ht k (fst p)))"
    using delete_ok[OF inv hv] by blast
  then show ?thesis
  proof (rule disjE)
    assume "\<exists>x v t' cs'. YogTable_delete ht t k = Inr (Deleted x v, t') \<and> (x, v) \<in> assocs cs t
      \<and> ht_compare ht k x \<and> table_inv ht cs' t'
      \<and> assocs cs' t' = {p \<in> assocs cs t. \<not> ht_compare ht k (fst p)}
      \<and> num_entries t' = num_entries t - 1"
    then obtain x v t' cs' where r: "YogTable_delete ht t k = Inr (Deleted x v, t')"
      "(x, v) \<in> assocs cs t" "ht_compare ht k x" "table_inv ht cs' t'"
      "assocs cs' t' = {p \<in> assocs cs t. \<not> ht_compare ht k (fst p)}"
      "num_entries t' = num_entries t - 1" by blast
    then show ?thesis using lookup_drop[OF inv r(4) hv r(5)] lookup_someI[OF inv r(2,3)]
      by (auto simp: table_ok_def)
  next
    assume r: "(YogTable_delete ht t k = Inr (NotFound, t) \<or> YogTable_delete ht t k = Inr (NotFoundNil, t))
      \<and> (\<forall>p \<in> assocs cs t. \<not> ht_compare ht k (fst p))"
    then have "YogTable_lookup ht t k = Inr None" using lookup_noneI[OF inv hv] by simp
    then have "YogTable_lookup ht t k' = (if ht_compare ht k k' then Inr None else YogTable_lookup ht t k')"
      for k' using lookup_eq[OF assms(1), of k k'] by simp
    then have "YogTable_delete ht t k = Inr (q, t) \<Longrightarrow> q = NotFound \<or> q = NotFoundNil \<Longrightarrow> ?thesis" for q
      using assms(1) \<open>YogTable_lookup ht t k = Inr None\<close>
      by (intro exI[of _ q] exI[of _ t]) (auto split: delete_result.split)
    then show ?thesis using r by blast
  qed
qed

end

sublocale hash_laws \<subseteq> tbl: key_map "table_ok ht :: ('k, 'w) table \<Rightarrow> bool" table_room "ht_compare ht" "key_hashes ht"
  "YogTable_lookup ht" "YogTable_insert ht" "YogTable_delete ht" num_entries 6442451454
proof
  fix t t' :: "('k, 'w) table" and k k' :: 'k and v :: 'w and b r
  assume ok: "table_ok ht t" and room: "table_room t" and p: "YogTable_insert ht t k v = Inr (b, t')"
  have h: "key_hashes ht k"
    using p by (cases "do_hash ht k") (auto simp: YogTable_insert_def key_hashes_def)
  note s = table_insert_spec[OF ok room h, of v] p
  show "table_ok ht t'" using s by auto
  show "YogTable_lookup ht t' k' =
      (if ht_compare ht k k' then Inr (Some v) else YogTable_lookup ht t k')" using s by auto
  show "b = (YogTable_lookup ht t k \<noteq> Inr None) \<and>
      num_entries t' = num_entries t + (if YogTable_lookup ht t k = Inr None then 1 else 0)"
    using s by auto
next
  fix t t' :: "('k, 'w) table" and k k' :: 'k and v :: 'w and b r
  assume "table_ok ht t" "key_hashes ht k" "YogTable_delete ht t k = Inr (r, t')"
  note s = table_delete_spec[OF this(1,2)] this(3)
  show "table_ok ht t'" using s by auto
  show "YogTable_lookup ht t' k' =
      (if ht_compare ht k k' then Inr None else YogTable_lookup ht t k')" using s by auto
  show "case r of Deleted x v \<Rightarrow> ht_compare ht k x \<and> YogTable_lookup ht t k = Inr (Some v)
          \<and> num_entries t' = num_entries t - 1
        | _ \<Rightarrow> YogTable_lookup ht t k = Inr None \<and> t' = t" using s by auto
next
  fix t :: "('k, 'w) table" and k :: 'k and v :: 'w and q
  show "YogTable_insert ht t k v = Inr q \<Longrightarrow> key_hashes ht k"
    by (cases "do_hash ht k") (auto simp: YogTable_insert_def key_hashes_def)
  show "num_entries t < 6442451454 \<Longrightarrow> table_room t" by (simp add: table_room_def)
  show "table_ok ht t \<Longrightarrow> table_room t \<Longrightarrow> key_hashes ht k \<Longrightarrow>
      \<exists>b t'. YogTable_insert ht t k v = Inr (b, t')" by (drule (2) table_insert_spec) blast
  show "table_ok ht t \<Longrightarrow> key_hashes ht k \<Longrightarrow> \<exists>r t'. YogTable_delete ht t k = Inr (r, t')"
    by (drule (1) table_delete_spec) blast
  show "table_ok ht t \<Longrightarrow> key_hashes ht k \<Longrightarrow> \<exists>r. YogTable_lookup ht t k = Inr r"
    by (rule lookup_total)
qed (fact cmp_refl, rule cmp_sym, assumption, rule cmp_trans, assumption+, rule lookup_eq)

end
