(* ===== verification/YogTableIter.thy ===== *)
theory YogTableIter
  imports YogTableMap
begin

text \<open>
  New tables, the iterator and \<^verbatim>\<open>YogTable_foreach\<close> of \<^verbatim>\<open>src/table.c\<close>, the hash type of symbols as an
  instance of the laws, and the properties of the whole component.
\<close>

section \<open>A new table\<close>

definition fresh_table :: "('k, 'v) table" where
  "fresh_table = \<lparr>num_bins = 11, num_entries = 0, bins = replicate 11 None,
                  entries = Map.empty, next_addr = 0\<rparr>"

lemma st_init_table_fresh: "st_init_table = Inr fresh_table"
proof -
  have z: "new_size 0 = 11" by code_simp
  show ?thesis
    by (simp add: st_init_table_def st_init_table_with_size_def z alloc_bins_ok alloc_table_def
        fresh_table_def Let_def)
qed

lemma fresh_table_inv: "table_inv ht (\<lambda>_. []) fresh_table"
proof -
  have "int 11 \<in> set (take 28 primes)" by code_simp
  then show ?thesis
    using bins_ok_empty[of 11 Map.empty] by (simp add: table_inv_def fresh_table_def)
qed

lemma fresh_table_ok: "table_ok ht fresh_table"
  using fresh_table_inv by (auto simp: table_ok_def)

lemma fresh_table_room: "table_room fresh_table"
  by (simp add: table_room_def fresh_table_def)

lemma num_entries_fresh: "num_entries fresh_table = 0"
  by (simp add: fresh_table_def)

lemma lookup_fresh:
  assumes "hash_laws ht" "do_hash ht k = Inr hv"
  shows "YogTable_lookup ht fresh_table k = Inr None"
  using hash_laws.lookup_noneI[OF assms(1) fresh_table_inv assms(2)]
  by (simp add: assocs_def fresh_table_def)

section \<open>Symbols\<close>

lemma symbol_do_hash: "do_hash type_symbol k = Inr (to_uint (sint (VAL2ID k)))"
  by (simp add: do_hash_def type_symbol_def hash_symbol_def)

interpretation symbol: hash_laws type_symbol
  by unfold_locales (auto simp: type_symbol_def compare_symbol_def split: if_splits)

lemma symbol_hashes: "key_hashes type_symbol k"
  by (simp add: key_hashes_def symbol_do_hash)

section \<open>The iterator\<close>

text \<open>The entries in the order of the bins, and what is left of them at a position.\<close>

definition contents :: "(nat \<Rightarrow> nat list) \<Rightarrow> ('k, 'v) table \<Rightarrow> ('k \<times> 'v) list" where
  "contents cs t = map (\<lambda>a. (e_key (ent (entries t) a), e_record (ent (entries t) a)))
                     (concat (map cs [0..<num_bins t]))"

lemma set_contents: "set (contents cs t) = assocs cs t"
  by (simp add: contents_def assocs_def addrs_def atLeast0LessThan)

lemma distinct_bins:
  assumes "bins_ok h n bs cs"
  shows "i \<le> n \<Longrightarrow> distinct (concat (map cs [i..<n]))"
proof (induction rule: inc_induct)
  case (step i)
  have "set (cs i) \<inter> set (concat (map cs [Suc i..<n])) = {}"
    using bins_ok_disjoint[OF assms, of i] by fastforce
  moreover have "distinct (cs i)" using assms step by (simp add: bins_ok_def)
  moreover have "[i..<n] = i # [Suc i..<n]" using step by (simp add: upt_conv_Cons)
  ultimately show ?case using step by (simp only: list.map concat.simps distinct_append)
qed simp

lemma length_bins:
  assumes "bins_ok h n bs cs"
  shows "length (concat (map cs [0..<n])) = card (addrs n cs)"
  using distinct_card[OF distinct_bins[OF assms, of 0]]
  by (simp add: addrs_def atLeast0LessThan)

definition iter_at ::
  "(nat \<Rightarrow> nat list) \<Rightarrow> ('k, 'v) table \<Rightarrow> table_iter \<Rightarrow> nat list \<Rightarrow> bool" where
  "iter_at cs t it rest \<longleftrightarrow> bins_index it \<le> num_bins t \<and>
     (\<exists>ys. rest = ys @ concat (map cs [bins_index it..<num_bins t])
         \<and> (case it_entry it of None \<Rightarrow> ys = []
             | Some a \<Rightarrow> \<exists>e. entries t a = Some e \<and> chain (entries t) (e_next e) ys))"

lemma scan_bins_spec:
  assumes ok: "bins_ok h n bs cs" and i: "i \<le> n"
  shows "case concat (map cs [i..<n]) of
      [] \<Rightarrow> scan_bins bs n i = Inr (n, None)
    | a # as \<Rightarrow> \<exists>j ys. scan_bins bs n i = Inr (j, Some a) \<and> j < n
        \<and> cs j = a # ys \<and> as = ys @ concat (map cs [Suc j..<n])"
  using i
proof (induction rule: inc_induct)
  case base
  then show ?case by (simp add: scan_bins.simps[of bs n n])
next
  case (step i)
  have b: "chain h (bs ! i) (cs i)" "i < length bs" using ok step by (auto simp: bins_ok_def)
  show ?case
  proof (cases "cs i")
    case Nil
    then have "scan_bins bs n i = scan_bins bs n (Suc i)"
      using b step by (simp add: scan_bins.simps[of bs n i])
    moreover have "concat (map cs [i..<n]) = concat (map cs [Suc i..<n])"
      using step Nil by (simp add: upt_conv_Cons)
    ultimately show ?thesis using step.IH by (simp only:)
  next
    case (Cons a ys)
    then have "scan_bins bs n i = Inr (i, Some a)"
      using b step by (auto simp: scan_bins.simps[of bs n i])
    then show ?thesis using step Cons by (simp add: upt_conv_Cons)
  qed
qed

lemma iter_next:
  assumes ok: "bins_ok (entries t) (num_bins t) (bins t) cs" and at: "iter_at cs t it rest"
  shows "case rest of
      [] \<Rightarrow> \<exists>it'. YogTableIterator_next t it = Inr (False, it')
    | a # as \<Rightarrow> \<exists>it'. YogTableIterator_next t it = Inr (True, it') \<and> it_entry it' = Some a
                  \<and> iter_at cs t it' as"
proof -
  let ?h = "entries t" and ?n = "num_bins t"
  obtain ys where ys: "rest = ys @ concat (map cs [bins_index it..<?n])" "bins_index it \<le> ?n"
    "case it_entry it of None \<Rightarrow> ys = []
     | Some a \<Rightarrow> \<exists>e. ?h a = Some e \<and> chain ?h (e_next e) ys"
    using at by (auto simp: iter_at_def)
  show ?thesis
  proof (cases ys)
    case (Cons a zs)
    then obtain b e where b: "it_entry it = Some b" "?h b = Some e" "chain ?h (e_next e) (a # zs)"
      using ys(3) by (auto split: option.splits)
    then have n: "e_next e = Some a" and c: "\<exists>e'. ?h a = Some e' \<and> chain ?h (e_next e') zs" by auto
    have "YogTableIterator_next t it = Inr (True, it\<lparr>it_entry := Some a\<rparr>)"
      using b n by (simp add: YogTableIterator_next_def)
    moreover have "iter_at cs t (it\<lparr>it_entry := Some a\<rparr>) (zs @ concat (map cs [bins_index it..<?n]))"
      using c ys(2) by (auto simp: iter_at_def)
    ultimately show ?thesis using ys(1) Cons by simp
  next
    case Nil
    then have nx: "(case it_entry it of None \<Rightarrow> Inr None
        | Some a \<Rightarrow> res_bind (load_entry ?h (Some a)) (\<lambda>e. Inr (e_next e))) = Inr None"
      using ys(3) by (auto split: option.splits)
    have rest: "rest = concat (map cs [bins_index it..<?n])" using ys(1) Nil by simp
    note s = scan_bins_spec[OF ok ys(2), folded rest]
    show ?thesis
    proof (cases rest)
      case Nil
      then show ?thesis using s nx by (simp add: YogTableIterator_next_def)
    next
      case (Cons a as)
      then obtain j zs where j: "scan_bins (bins t) ?n (bins_index it) = Inr (j, Some a)" "j < ?n"
        "cs j = a # zs" "as = zs @ concat (map cs [Suc j..<?n])"
        using s by auto
      let ?it = "it\<lparr>bins_index := j + 1, it_entry := Some a\<rparr>"
      have "chain ?h (bins t ! j) (a # zs)" using ok j(2,3) by (force simp: bins_ok_def)
      then have "iter_at cs t ?it as" using j by (auto simp: iter_at_def)
      moreover have "YogTableIterator_next t it = Inr (True, ?it)"
        using j nx by (simp add: YogTableIterator_next_def)
      ultimately show ?thesis using Cons by auto
    qed
  qed
qed

text \<open>The loop in which every client uses the iterator; \<open>fuel\<close> bounds the rounds.\<close>

fun iter_loop ::
  "nat \<Rightarrow> ('k, 'v) table \<Rightarrow> ('k \<Rightarrow> 'v \<Rightarrow> 's \<Rightarrow> 's res) \<Rightarrow> table_iter \<Rightarrow> 's \<Rightarrow> 's res"
where
  "iter_loop 0 t f it s = Inl NoReturn"
| "iter_loop (Suc fuel) t f it s =
     res_bind (YogTableIterator_next t it) (\<lambda>(more, it').
       if more then
         res_bind (YogTableIterator_current_key t it') (\<lambda>k.
         res_bind (YogTableIterator_current_value t it') (\<lambda>v.
         res_bind (f k v s) (\<lambda>s'. iter_loop fuel t f it' s')))
       else Inr s)"

lemma iter_loop_at:
  assumes "bins_ok (entries t) (num_bins t) (bins t) cs" "iter_at cs t it rest"
    "set rest \<subseteq> dom (entries t)" "length rest < fuel"
  shows "iter_loop fuel t f it s = foldM (\<lambda>a. f (e_key (ent (entries t) a)) (e_record (ent (entries t) a))) rest s"
  using assms
proof (induction fuel arbitrary: it rest s)
  case (Suc fuel)
  note n = iter_next[OF Suc.prems(1,2)]
  show ?case
  proof (cases rest)
    case Nil
    then show ?thesis using n by auto
  next
    case (Cons a as)
    then obtain it' where it': "YogTableIterator_next t it = Inr (True, it')" "it_entry it' = Some a"
      "iter_at cs t it' as" using n by auto
    obtain e where e: "entries t a = Some e" using Suc.prems(3) Cons by auto
    have "iter_loop fuel t f it' = foldM (\<lambda>a. f (e_key (ent (entries t) a))
        (e_record (ent (entries t) a))) as"
      using Suc.IH[OF Suc.prems(1) it'(3)] Suc.prems(3,4) Cons by (intro ext) simp
    then show ?thesis using it' e Cons
      by (simp add: YogTableIterator_current_key_def YogTableIterator_current_value_def)
  qed
qed simp

lemma iter_loop_contents:
  assumes "table_inv ht cs t" "num_entries t < int fuel"
  shows "iter_loop fuel t f (YogTable_get_iterator t) s = foldM (\<lambda>(k, v). f k v) (contents cs t) s"
proof -
  have ok: "bins_ok (entries t) (num_bins t) (bins t) cs" using assms(1) by (simp add: table_inv_def)
  let ?rest = "concat (map cs [0..<num_bins t])"
  have at: "iter_at cs t (YogTable_get_iterator t) ?rest"
    by (simp add: iter_at_def YogTable_get_iterator_def)
  have sub: "set ?rest \<subseteq> dom (entries t)"
    using table_inv_dom[OF assms(1)] by (simp add: addrs_def atLeast0LessThan)
  have len: "length ?rest < fuel"
    using length_bins[OF ok] assms by (simp add: table_inv_def)
  show ?thesis using iter_loop_at[OF ok at sub len, of f s]
    by (simp add: contents_def foldM_map)
qed

lemma contents_distinct:
  assumes "table_inv ht cs t" "hash_laws ht"
  shows "distinct (map fst (contents cs t))" "length (contents cs t) = nat (num_entries t)"
proof -
  let ?rest = "concat (map cs [0..<num_bins t])"
  have ok: "bins_ok (entries t) (num_bins t) (bins t) cs" using assms(1) by (simp add: table_inv_def)
  have inj: "inj_on (\<lambda>a. e_key (ent (entries t) a)) (set ?rest)"
  proof (rule inj_onI)
    fix a b assume "a \<in> set ?rest" "b \<in> set ?rest"
      and eq: "e_key (ent (entries t) a) = e_key (ent (entries t) b)"
    then have "a \<in> addrs (num_bins t) cs" "b \<in> addrs (num_bins t) cs"
      by (auto simp: addrs_def)
    moreover have "ht_compare ht (e_key (ent (entries t) a)) (e_key (ent (entries t) b))"
      using eq hash_laws.cmp_refl[OF assms(2)] by simp
    ultimately show "a = b" using assms(1) unfolding table_inv_def by blast
  qed
  show "distinct (map fst (contents cs t))"
    using distinct_bins[OF ok, of 0] inj by (simp add: contents_def distinct_map o_def)
  show "length (contents cs t) = nat (num_entries t)"
    using length_bins[OF ok] assms(1) by (simp add: contents_def table_inv_def)
qed

section \<open>foreach\<close>

text \<open>With a callback that only reads the table and always continues, \<open>YogTable_foreach\<close> is the
  fold of the callback over the entries.\<close>

lemma foreach_loop_read:
  assumes ok: "bins_ok (entries t) (num_bins t) (bins t) cs"
    and f: "\<And>k v s. func k v (t, s) = res_bind (g k v s) (\<lambda>s'. Inr (ST_CONTINUE, t, s'))"
    and "i < num_bins t" "chain (entries t) p xs"
    and "length (xs @ concat (map cs [Suc i..<num_bins t])) + (num_bins t - i) \<le> fuel"
  shows "foreach_loop fuel func i p last_p (t, s) =
    res_bind (foldM (\<lambda>a. g (e_key (ent (entries t) a)) (e_record (ent (entries t) a)))
       (xs @ concat (map cs [Suc i..<num_bins t])) s) (\<lambda>s'. Inr (True, t, s'))"
  using assms(3-)
proof (induction fuel arbitrary: i p xs last_p s)
  case (Suc fuel)
  show ?case
  proof (cases xs)
    case Nil
    then have p: "p = None" using Suc.prems(2) by simp
    show ?thesis
    proof (cases "Suc i < num_bins t")
      case True
      then have c: "chain (entries t) (bins t ! Suc i) (cs (Suc i))" "Suc i < length (bins t)"
        using ok by (auto simp: bins_ok_def)
      have u: "[Suc i..<num_bins t] = Suc i # [Suc (Suc i)..<num_bins t]"
        using True by (simp add: upt_conv_Cons)
      show ?thesis
        using Suc.IH[OF True c(1), of "last_p" s] Suc.prems(3) Nil True c(2) p by (simp add: u)
    next
      case False
      then show ?thesis using Nil p by simp
    qed
  next
    case (Cons a ys)
    then obtain e where e: "p = Some a" "entries t a = Some e" "chain (entries t) (e_next e) ys"
      using Suc.prems(2) by auto
    have IH: "foreach_loop fuel func i (e_next e) (Some a) (t, s') =
      res_bind (foldM (\<lambda>a. g (e_key (ent (entries t) a)) (e_record (ent (entries t) a)))
         (ys @ concat (map cs [Suc i..<num_bins t])) s') (\<lambda>s'. Inr (True, t, s'))" for s'
      using Suc.IH[OF Suc.prems(1) e(3)] Suc.prems(3) Cons by simp
    show ?thesis
    proof (cases "g (e_key e) (e_record e) s")
      case (Inl x)
      then show ?thesis using e Cons f by simp
    next
      case (Inr s')
      then show ?thesis using e Cons f IH by simp
    qed
  qed
qed simp

lemma foreach_read:
  assumes inv: "table_inv ht cs t"
    and f: "\<And>k v s. func k v (t, s) = res_bind (g k v s) (\<lambda>s'. Inr (ST_CONTINUE, t, s'))"
    and fuel: "nat (num_entries t) + num_bins t \<le> fuel"
  shows "YogTable_foreach fuel func (t, s) =
    res_bind (foldM (\<lambda>(k, v). g k v) (contents cs t) s) (\<lambda>s'. Inr (True, t, s'))"
proof -
  have ok: "bins_ok (entries t) (num_bins t) (bins t) cs" using inv by (simp add: table_inv_def)
  then have n: "0 < num_bins t" "0 < length (bins t)" "chain (entries t) (bins t ! 0) (cs 0)"
    by (auto simp: bins_ok_def)
  have u: "[0..<num_bins t] = 0 # [Suc 0..<num_bins t]" using n by (simp add: upt_conv_Cons)
  have "length (concat (map cs [0..<num_bins t])) = nat (num_entries t)"
    using length_bins[OF ok] inv by (simp add: table_inv_def)
  then have l: "length (cs 0 @ concat (map cs [Suc 0..<num_bins t])) + (num_bins t - 0) \<le> fuel"
    using fuel u by simp
  show ?thesis
    using foreach_loop_read[where func = func and g = g, OF ok f n(1) n(3) l, of None s] n u
    by (simp add: YogTable_foreach_def contents_def foldM_map flip: map_append)
qed

text \<open>A callback that asks for the deletion of one key, and what becomes of a table of two symbols
  in different bins.\<close>

definition delete_callback :: "'k \<Rightarrow> ('k, 'v, unit) foreach_func" where
  "delete_callback key k v ts = Inr (if k = key then ST_DELETE else ST_CONTINUE, ts)"

definition two_symbols :: "(YogVal, nat) table res" where
  "two_symbols =
     res_bind YogTable_create_symbol_table (\<lambda>t.
     res_bind (YogTable_insert type_symbol t (ID2VAL 0) 10) (\<lambda>(_, t1).
     res_bind (YogTable_insert type_symbol t1 (ID2VAL 1) 11) (\<lambda>(_, t2). Inr t2)))"

definition foreach_delete_outcome :: "YogVal \<Rightarrow> (int \<times> nat option) res" where
  "foreach_delete_outcome key =
     res_bind two_symbols (\<lambda>t.
     res_bind (YogTable_foreach 20 (delete_callback key) (t, ())) (\<lambda>(_, t', _).
     res_bind (YogTable_lookup type_symbol t' key) (\<lambda>v. Inr (num_entries t', v))))"

lemma symbol_hash_small:
  "do_hash type_symbol (ID2VAL 0) = Inr 0" "do_hash type_symbol (ID2VAL 1) = Inr 1"
proof -
  have "to_uint (sint (VAL2ID (ID2VAL 0))) = 0" "to_uint (sint (VAL2ID (ID2VAL 1))) = 1" by code_simp+
  then show "do_hash type_symbol (ID2VAL 0) = Inr 0" "do_hash type_symbol (ID2VAL 1) = Inr 1"
    by (simp_all add: symbol_do_hash)
qed

lemma symbol_keys_differ: "ID2VAL 0 \<noteq> ID2VAL 1"
  by code_simp

definition one_symbol_table :: "(YogVal, nat) table" where
  "one_symbol_table = \<lparr>num_bins = 11, num_entries = 1, bins = (replicate 11 None)[0 := Some 0],
     entries = [0 \<mapsto> \<lparr>e_hash = 0, e_key = ID2VAL 0, e_record = 10, e_next = None\<rparr>],
     next_addr = 1\<rparr>"

definition two_symbols_table :: "(YogVal, nat) table" where
  "two_symbols_table = \<lparr>num_bins = 11, num_entries = 2,
     bins = (replicate 11 None)[0 := Some 0, 1 := Some 1],
     entries = [0 \<mapsto> \<lparr>e_hash = 0, e_key = ID2VAL 0, e_record = 10, e_next = None\<rparr>,
                1 \<mapsto> \<lparr>e_hash = 1, e_key = ID2VAL 1, e_record = 11, e_next = None\<rparr>],
     next_addr = 2\<rparr>"

lemma insert_first: "YogTable_insert type_symbol fresh_table (ID2VAL 0) 10 = Inr (False, one_symbol_table)"
  by (simp add: fresh_table_def one_symbol_table_def YogTable_insert_def symbol_hash_small
      find_entry_def ptr_not_equal_def add_direct_def alloc_entry_def Let_def)

lemma insert_second:
  "YogTable_insert type_symbol one_symbol_table (ID2VAL 1) 11 = Inr (False, two_symbols_table)"
  by (simp add: one_symbol_table_def two_symbols_table_def YogTable_insert_def symbol_hash_small
      find_entry_def ptr_not_equal_def add_direct_def alloc_entry_def Let_def signed_divide_int_def
      numeral_2_eq_2)

lemma two_symbols_value: "two_symbols = Inr two_symbols_table"
  by (simp add: two_symbols_def YogTable_create_symbol_table_def st_init_table_fresh insert_first
      insert_second)

lemma foreach_tail:
  assumes "length (bins t) = num_bins t" "i < num_bins t" "num_bins t - i \<le> fuel"
    "\<forall>j. i < j \<longrightarrow> j < num_bins t \<longrightarrow> bins t ! j = None"
  shows "foreach_loop fuel func i None l (t, s) = Inr (True, t, s)"
  using assms by (induction fuel arbitrary: i) auto

text \<open>After the run the entry of the first bin is its own old self, the second bin still starts
  with the entry that was to be deleted.\<close>

lemma foreach_delete_second:
  "YogTable_foreach 20 (delete_callback (ID2VAL 1)) (two_symbols_table, ())
    = Inr (True, two_symbols_table\<lparr>num_entries := 1\<rparr>, ())"
proof -
  let ?t = "two_symbols_table" and ?f = "delete_callback (ID2VAL 1)"
  let ?u = "two_symbols_table\<lparr>num_entries := 1\<rparr>"
  have t: "num_bins ?t = 11" "bins ?t ! 0 = Some 0" "bins ?t ! 1 = Some 1" "length (bins ?t) = 11"
    "entries ?t 0 = Some \<lparr>e_hash = 0, e_key = ID2VAL 0, e_record = 10, e_next = None\<rparr>"
    "entries ?t 1 = Some \<lparr>e_hash = 1, e_key = ID2VAL 1, e_record = 11, e_next = None\<rparr>"
    "num_entries ?t = 2"
    by (simp_all add: two_symbols_table_def)
  have del: "foreach_delete ?t 1 1 (Some 0) = Inr (None, ?u)"
    using t by (simp add: foreach_delete_def) (simp add: two_symbols_table_def fun_eq_iff)
  obtain f where f: "f = (17 :: nat)" by simp
  have tail: "foreach_loop f ?f 1 None (Some 0) (?u, ()) = Inr (True, ?u, ())"
    unfolding f by (rule foreach_tail) (auto simp: two_symbols_table_def nth_list_update)
  have "foreach_loop (Suc f) ?f 1 (Some 1) (Some 0) (?t, ()) = Inr (True, ?u, ())"
    using t del tail by (simp add: delete_callback_def)
  then have "foreach_loop (Suc (Suc f)) ?f 0 None (Some 0) (?t, ()) = Inr (True, ?u, ())"
    using t by simp
  then have "foreach_loop (Suc (Suc (Suc f))) ?f 0 (Some 0) None (?t, ()) = Inr (True, ?u, ())"
    using t symbol_keys_differ by (simp add: delete_callback_def)
  moreover have "Suc (Suc (Suc f)) = 20" by (simp add: f)
  ultimately have "foreach_loop 20 ?f 0 (Some 0) None (?t, ()) = Inr (True, ?u, ())" by metis
  then show ?thesis using t by (simp add: YogTable_foreach_def)
qed

lemma lookup_second: "YogTable_lookup type_symbol (two_symbols_table\<lparr>num_entries := 1\<rparr>) (ID2VAL 1) = Inr (Some 11)"
  by (simp add: YogTable_lookup_def symbol_hash_small find_entry_def ptr_not_equal_def
      two_symbols_table_def Let_def symbol.cmp_refl)

lemma rehash_zero_bins:
  assumes "new_size (int (num_bins t) + 1) = 0" "0 < num_bins t" "length (bins t) = num_bins t"
    "bins t ! 0 = Some a" "entries t a = Some e" "0 < next_addr t"
  shows "rehash t = Inl ArithFault"
proof -
  have u: "[0..<num_bins t] = 0 # [Suc 0..<num_bins t]" using assms(2) by (simp add: upt_conv_Cons)
  obtain f where "next_addr t = Suc f" using assms(6) by (cases "next_addr t") auto
  then show ?thesis using assms by (simp add: rehash_def Let_def alloc_bins_ok u)
qed

section \<open>Properties\<close>

text \<open>A new table is well formed and empty: its size is 0 and every lookup of a key that can
  be hashed answers that the key is absent.\<close>

lemma table_create_empty:
  assumes "hash_laws ht"
  shows "\<exists>t. st_init_table = Inr t \<and> table_ok ht t \<and> table_room t \<and> YogTable_size t = 0
    \<and> (\<forall>k hv. do_hash ht k = Inr hv \<longrightarrow> YogTable_lookup ht t k = Inr None)"
proof -
  have "YogTable_lookup ht fresh_table k = Inr None" if "do_hash ht k = Inr hv" for k hv
    using lookup_fresh[OF assms that] .
  moreover have "YogTable_size fresh_table = 0" by (simp add: YogTable_size_def fresh_table_def)
  ultimately show ?thesis using st_init_table_fresh fresh_table_ok fresh_table_room
    by (intro exI[of _ fresh_table]) blast
qed

lemma table_create_empty_instance:
  "\<exists>t :: (YogVal, nat) table. st_init_table = Inr t \<and> table_ok type_symbol t \<and> table_room t
    \<and> YogTable_size t = 0
    \<and> (\<forall>k hv. do_hash type_symbol k = Inr hv \<longrightarrow> YogTable_lookup type_symbol t k = Inr None)"
  by (rule table_create_empty) (rule symbol.hash_laws_axioms)

text \<open>C4: insertion implements a finite map. On a well-formed table with room it returns, keeps the
  table well formed (through a rehash of every bin when the density is exceeded), reports whether
  the key was there, and afterwards every lookup sees the new value under the key and nothing
  else changed.\<close>

theorem table_insert_is_map_update:
  assumes "hash_laws ht" "table_ok ht t" "table_room t" "key_hashes ht k"
  shows "\<exists>t'. YogTable_insert ht t k v = Inr (YogTable_lookup ht t k \<noteq> Inr None, t') \<and> table_ok ht t'
    \<and> (\<forall>k'. YogTable_lookup ht t' k' =
          (if ht_compare ht k k' then Inr (Some v) else YogTable_lookup ht t k'))
    \<and> YogTable_size t' = YogTable_size t + (if YogTable_lookup ht t k = Inr None then 1 else 0)"
  using hash_laws.table_insert_spec[OF assms] by (simp add: YogTable_size_def)

theorem table_insert_is_map_update_witness:
  "\<exists>t'. YogTable_insert type_symbol fresh_table (ID2VAL 3) (7 :: nat) =
          Inr (YogTable_lookup type_symbol (fresh_table :: (YogVal, nat) table) (ID2VAL 3) \<noteq> Inr None, t')
    \<and> table_ok type_symbol t'
    \<and> (\<forall>k'. YogTable_lookup type_symbol t' k' =
          (if ht_compare type_symbol (ID2VAL 3) k' then Inr (Some 7)
           else YogTable_lookup type_symbol fresh_table k'))
    \<and> YogTable_size t' = YogTable_size (fresh_table :: (YogVal, nat) table)
        + (if YogTable_lookup type_symbol (fresh_table :: (YogVal, nat) table) (ID2VAL 3) = Inr None then 1 else 0)"
  by (rule table_insert_is_map_update)
    (rule symbol.hash_laws_axioms fresh_table_ok fresh_table_room symbol_hashes)+

text \<open>C5: deletion removes exactly the entry of the key: it returns the stored key and value,
  unlinks the entry wherever it stands in its chain, keeps the table well formed and leaves every
  other key as it was; on an absent key the table does not change.\<close>

theorem table_delete_is_map_removal:
  assumes "hash_laws ht" "table_ok ht t" "key_hashes ht k"
  shows "\<exists>r t'. YogTable_delete ht t k = Inr (r, t') \<and> table_ok ht t'
    \<and> (\<forall>k'. YogTable_lookup ht t' k' =
          (if ht_compare ht k k' then Inr None else YogTable_lookup ht t k'))
    \<and> (case r of Deleted x v \<Rightarrow> ht_compare ht k x \<and> YogTable_lookup ht t k = Inr (Some v)
                    \<and> num_entries t' = num_entries t - 1
         | _ \<Rightarrow> YogTable_lookup ht t k = Inr None \<and> t' = t)"
  using hash_laws.table_delete_spec[OF assms] .

theorem table_delete_is_map_removal_witness:
  "\<exists>r t'. YogTable_delete type_symbol (fresh_table :: (YogVal, nat) table) (ID2VAL 3) = Inr (r, t')
    \<and> table_ok type_symbol t'
    \<and> (\<forall>k'. YogTable_lookup type_symbol t' k' =
          (if ht_compare type_symbol (ID2VAL 3) k' then Inr None
           else YogTable_lookup type_symbol fresh_table k'))
    \<and> (case r of Deleted x v \<Rightarrow> ht_compare type_symbol (ID2VAL 3) x
           \<and> YogTable_lookup type_symbol fresh_table (ID2VAL 3) = Inr (Some v)
           \<and> num_entries t' = num_entries (fresh_table :: (YogVal, nat) table) - 1
         | _ \<Rightarrow> YogTable_lookup type_symbol (fresh_table :: (YogVal, nat) table) (ID2VAL 3) = Inr None
             \<and> t' = fresh_table)"
  by (rule table_delete_is_map_removal)
    (rule symbol.hash_laws_axioms fresh_table_ok symbol_hashes)+

text \<open>Rehashing a table of less than the largest size moves every entry to its bin in a larger array and changes nothing else: the
  table stays well formed, has more bins, keeps its size and answers every lookup as before.\<close>

lemma table_rehash_preserves:
  assumes "hash_laws ht" "table_ok ht t" "int (num_bins t) < 1073741909"
  shows "\<exists>t'. rehash t = Inr t' \<and> table_ok ht t' \<and> num_bins t < num_bins t'
    \<and> YogTable_size t' = YogTable_size t
    \<and> (\<forall>k. YogTable_lookup ht t' k = YogTable_lookup ht t k)"
proof -
  obtain cs where inv: "table_inv ht cs t" using assms(2) by (auto simp: table_ok_def)
  have n: "int (num_bins t) \<in> set (take 27 primes)"
    using inv assms(3) by (auto simp: table_inv_def primes_def)
  from rehash_ok[OF inv n] obtain t' cs' where r: "rehash t = Inr t'" "table_inv ht cs' t'"
    "addrs (num_bins t') cs' = addrs (num_bins t) cs" "same_data (entries t) (entries t')"
    "num_entries t' = num_entries t" by blast
  have "\<forall>p \<in> set (take 27 primes). p < new_size (p + 1)" by code_simp
  then have "int (num_bins t) < new_size (int (num_bins t) + 1)" using n by blast
  moreover have "num_bins t' = nat (new_size (int (num_bins t) + 1))"
    using r(1) by (auto simp: rehash_def Let_def elim!: res_bind_InrE)
  ultimately have "num_bins t < num_bins t'" by simp
  then show ?thesis
    using r hash_laws.lookup_same_data[OF assms(1) inv r(2,3,4)]
    by (auto simp: table_ok_def YogTable_size_def)
qed

lemma table_rehash_preserves_instance:
  "\<exists>t'. rehash (fresh_table :: (YogVal, nat) table) = Inr t' \<and> table_ok type_symbol t'
    \<and> num_bins (fresh_table :: (YogVal, nat) table) < num_bins t'
    \<and> YogTable_size t' = YogTable_size (fresh_table :: (YogVal, nat) table)
    \<and> (\<forall>k. YogTable_lookup type_symbol t' k = YogTable_lookup type_symbol fresh_table k)"
  by (rule table_rehash_preserves)
    (simp_all add: symbol.hash_laws_axioms fresh_table_ok, simp add: fresh_table_def)

text \<open>C30: the iterator visits every entry exactly once: a loop over it ends, with one round per
  entry, on distinct keys, and the pairs that it has seen are the map that lookup answers from.\<close>

theorem table_iterator_enumerates:
  assumes "hash_laws ht" "table_ok ht t" "num_entries t < int fuel"
  shows "\<exists>kvs. (\<forall>(f :: _ \<Rightarrow> _ \<Rightarrow> 's \<Rightarrow> 's res) s.
            iter_loop fuel t f (YogTable_get_iterator t) s = foldM (\<lambda>(k, v). f k v) kvs s)
    \<and> distinct (map fst kvs) \<and> length kvs = nat (YogTable_size t)
    \<and> (\<forall>(k, v) \<in> set kvs. YogTable_lookup ht t k = Inr (Some v))
    \<and> (\<forall>k v. YogTable_lookup ht t k = Inr (Some v) \<longrightarrow> (\<exists>x. (x, v) \<in> set kvs \<and> ht_compare ht k x))"
proof -
  obtain cs where inv: "table_inv ht cs t" using assms(2) by (auto simp: table_ok_def)
  have in1: "YogTable_lookup ht t k = Inr (Some v)" if "(k, v) \<in> set (contents cs t)" for k v
    using hash_laws.lookup_someI[OF assms(1) inv, of k v k] that hash_laws.cmp_refl[OF assms(1)]
    by (simp add: set_contents)
  have in2: "\<exists>x. (x, v) \<in> set (contents cs t) \<and> ht_compare ht k x"
    if l: "YogTable_lookup ht t k = Inr (Some v)" for k v
  proof -
    obtain hv where "do_hash ht k = Inr hv"
      using l by (cases "do_hash ht k") (auto simp: YogTable_lookup_def)
    then have "\<exists>p \<in> assocs cs t. ht_compare ht k (fst p)"
      using l hash_laws.lookup_noneI[OF assms(1) inv, of k] by auto
    then obtain x w where "(x, w) \<in> assocs cs t" "ht_compare ht k x" by auto
    then show ?thesis using l hash_laws.lookup_someI[OF assms(1) inv, of x w k]
      by (auto simp: set_contents)
  qed
  have "\<forall>(f :: _ \<Rightarrow> _ \<Rightarrow> 's \<Rightarrow> 's res) s.
      iter_loop fuel t f (YogTable_get_iterator t) s = foldM (\<lambda>(k, v). f k v) (contents cs t) s"
    using iter_loop_contents[OF inv assms(3)] by blast
  then show ?thesis using in1 in2 contents_distinct[OF inv assms(1)]
    by (intro exI[of _ "contents cs t"]) (auto simp: YogTable_size_def)
qed

theorem table_iterator_enumerates_witness:
  "\<exists>kvs. (\<forall>(f :: YogVal \<Rightarrow> nat \<Rightarrow> nat \<Rightarrow> nat res) s.
            iter_loop 1 fresh_table f (YogTable_get_iterator (fresh_table :: (YogVal, nat) table)) s
              = foldM (\<lambda>(k, v). f k v) kvs s)
    \<and> distinct (map fst kvs) \<and> length kvs = nat (YogTable_size (fresh_table :: (YogVal, nat) table))
    \<and> (\<forall>(k, v) \<in> set kvs. YogTable_lookup type_symbol fresh_table k = Inr (Some v))
    \<and> (\<forall>k v. YogTable_lookup type_symbol fresh_table k = Inr (Some v) \<longrightarrow>
          (\<exists>x. (x, v) \<in> set kvs \<and> ht_compare type_symbol k x))"
  by (rule table_iterator_enumerates)
    (simp_all add: symbol.hash_laws_axioms fresh_table_ok, simp add: fresh_table_def)

text \<open>With a callback that reads and continues, foreach returns TRUE after one call per entry
  in the order of the bins, within a number of steps of the size plus the number of bins, and an
  exception of the callback ends it with that exception.\<close>

lemma table_foreach_reads_all:
  assumes "hash_laws ht" "table_ok ht t" "nat (num_entries t) + num_bins t \<le> fuel"
    and "\<And>k v s. func k v (t, s) = res_bind (g k v s) (\<lambda>s'. Inr (ST_CONTINUE, t, s'))"
  shows "\<exists>kvs. YogTable_foreach fuel func (t, s) =
      res_bind (foldM (\<lambda>(k, v). g k v) kvs s) (\<lambda>s'. Inr (True, t, s'))
    \<and> distinct (map fst kvs) \<and> length kvs = nat (num_entries t)
    \<and> (\<forall>(k, v) \<in> set kvs. YogTable_lookup ht t k = Inr (Some v))"
proof -
  obtain cs where inv: "table_inv ht cs t" using assms(2) by (auto simp: table_ok_def)
  have "YogTable_lookup ht t k = Inr (Some v)" if "(k, v) \<in> set (contents cs t)" for k v
    using hash_laws.lookup_someI[OF assms(1) inv, of k v k] that hash_laws.cmp_refl[OF assms(1)]
    by (simp add: set_contents)
  then show ?thesis
    using foreach_read[where func = func and g = g, OF inv assms(4,3), of s]
      contents_distinct[OF inv assms(1)]
    by (intro exI[of _ "contents cs t"]) auto
qed

lemma table_foreach_reads_all_instance:
  "\<exists>kvs. YogTable_foreach 11 (\<lambda>k v (t, s). Inr (ST_CONTINUE, t, s + v))
        (fresh_table :: (YogVal, nat) table, 0) =
      res_bind (foldM (\<lambda>(k, v) s. Inr (s + v)) kvs 0) (\<lambda>s'. Inr (True, fresh_table, s'))
    \<and> distinct (map fst kvs) \<and> length kvs = nat (num_entries (fresh_table :: (YogVal, nat) table))
    \<and> (\<forall>(k, v) \<in> set kvs. YogTable_lookup type_symbol fresh_table k = Inr (Some v))"
  by (rule table_foreach_reads_all[where g = "\<lambda>k v s. Inr (s + v)"])
    (simp_all add: symbol.hash_laws_axioms fresh_table_ok, simp add: fresh_table_def)

text \<open>Foreach with ST_DELETE does not unlink the first entry of a bin when an earlier bin had
  an entry: on a table with two symbols in different bins, a callback that deletes the second one
  leaves it reachable, while the size drops to 1.\<close>

lemma table_foreach_delete_leaves_entry:
  "foreach_delete_outcome (ID2VAL 1) = Inr (1, Some 11)"
  by (simp add: foreach_delete_outcome_def two_symbols_value foreach_delete_second lookup_second)

text \<open>A table with the largest number of bins cannot grow: the next size is the 0 that ends the
  table of primes, and rehashing divides by it at the first entry.\<close>

lemma table_growth_ends_in_zero_bins:
  assumes "num_bins t = 1073741909" "length (bins t) = num_bins t" "bins t ! 0 = Some a"
    "entries t a = Some e" "0 < next_addr t"
  shows "rehash t = Inl ArithFault"
proof (rule rehash_zero_bins[OF _ _ assms(2-5)])
  have "new_size 1073741910 = 0" by code_simp
  then show "new_size (int (num_bins t) + 1) = 0" by (simp add: assms(1))
qed (simp add: assms(1))

lemma table_growth_ends_in_zero_bins_instance:
  "rehash \<lparr>num_bins = 1073741909, num_entries = 1, bins = Some 0 # replicate 1073741908 None,
     entries = [0 \<mapsto> \<lparr>e_hash = 0, e_key = ID2VAL 0, e_record = (), e_next = None\<rparr>], next_addr = 1\<rparr>
   = Inl ArithFault"
proof (rule table_growth_ends_in_zero_bins[where a = 0
      and e = "\<lparr>e_hash = 0, e_key = ID2VAL 0, e_record = (), e_next = None\<rparr>"])
  have "length (Some 0 # replicate n (None :: nat option)) = Suc n" for n by simp
  then show "length (bins \<lparr>num_bins = 1073741909, num_entries = 1, bins = Some 0 # replicate 1073741908 None,
     entries = [0 \<mapsto> \<lparr>e_hash = 0, e_key = ID2VAL 0, e_record = (), e_next = None\<rparr>], next_addr = 1\<rparr>)
   = num_bins \<lparr>num_bins = 1073741909, num_entries = 1, bins = Some 0 # replicate 1073741908 None,
     entries = [0 \<mapsto> \<lparr>e_hash = 0, e_key = ID2VAL 0, e_record = (), e_next = None\<rparr>], next_addr = 1\<rparr>"
    by (simp only: table.simps)
qed (simp_all only: table.simps nth_Cons_0 fun_upd_same zero_less_one)

end
