(* ===== verification/YogDict.thy ===== *)
theory YogDict
  imports YogTableIter
begin

text \<open>
  \<^verbatim>\<open>src/dict.c\<close> and \<^verbatim>\<open>src/set.c\<close>: dictionaries are value tables, sets are dictionaries whose values
  are the Fixnum 1. The hash type of the keys is an argument (\<open>type_val\<close> of the table for the
  interpreter's values). Blocks are functions on a state of their own that may raise.
\<close>

section \<open>Dict\<close>

record ('k, 'o) dict =
  d_tbl :: "('k, 'o yval) table"

datatype 'd dict_obj = ODict 'd | ONotDict

definition check_self_dict :: "'d dict_obj yval \<Rightarrow> ('d \<Rightarrow> 'a res) \<Rightarrow> 'a res" where
  "check_self_dict self f =
     (case self of YPtr (ODict d) \<Rightarrow> f d | _ \<Rightarrow> Inl (TypeError ''self must be Dict''))"

definition YogDict_alloc :: "('k, 'o) dict res" where
  "YogDict_alloc = res_bind YogTable_create_value_table (\<lambda>t. Inr \<lparr>d_tbl = t\<rparr>)"

definition YogDict_new :: "('k, 'o) dict res" where
  "YogDict_new = YogDict_alloc"

definition YogDict_get :: "'k hash_type \<Rightarrow> ('k, 'o) dict \<Rightarrow> 'k \<Rightarrow> 'o yval res" where
  "YogDict_get ht self key =
     res_bind (YogTable_lookup ht (d_tbl self) key) (\<lambda>r.
       case r of Some val \<Rightarrow> Inr val | None \<Rightarrow> Inr YUndef)"

definition YogDict_include :: "'k hash_type \<Rightarrow> ('k, 'o) dict \<Rightarrow> 'k \<Rightarrow> bool res" where
  "YogDict_include ht self key =
     res_bind (YogDict_get ht self key) (\<lambda>v. Inr (if v = YUndef then False else True))"

definition YogDict_subscript :: "'k hash_type \<Rightarrow> ('k, 'o) dict \<Rightarrow> 'k \<Rightarrow> 'o yval res" where
  "YogDict_subscript ht self key =
     res_bind (YogTable_lookup ht (d_tbl self) key) (\<lambda>r.
       case r of Some val \<Rightarrow> Inr val | None \<Rightarrow> Inl (KeyError ''Not found''))"

definition dict_subscript ::
  "'k hash_type \<Rightarrow> ('k, 'o) dict dict_obj yval \<Rightarrow> 'k \<Rightarrow> 'o yval res" where
  "dict_subscript ht self key = check_self_dict self (\<lambda>d. YogDict_subscript ht d key)"

definition YogDict_set ::
  "'k hash_type \<Rightarrow> ('k, 'o) dict \<Rightarrow> 'k \<Rightarrow> 'o yval \<Rightarrow> ('k, 'o) dict res" where
  "YogDict_set ht self key val =
     res_bind (YogTable_insert ht (d_tbl self) key val) (\<lambda>(_, t). Inr (self\<lparr>d_tbl := t\<rparr>))"

definition dict_subscript_assign ::
  "'k hash_type \<Rightarrow> ('k, 'o) dict dict_obj yval \<Rightarrow> 'k \<Rightarrow> 'o yval \<Rightarrow> ('k, 'o) dict res" where
  "dict_subscript_assign ht self key val = check_self_dict self (\<lambda>d. YogDict_set ht d key val)"

definition YogDict_size :: "('k, 'o) dict \<Rightarrow> int" where
  "YogDict_size self = YogTable_size (d_tbl self)"

definition dict_get_size :: "('k, 'o) dict \<Rightarrow> ('f, 'b, 's) num" where
  "dict_get_size self = YogVal_from_int (YogDict_size self)"

text \<open>The iterator of a dictionary wraps the one of its table.\<close>

record dict_iter =
  tbl_iter :: table_iter

definition YogDict_get_iterator :: "('k, 'o) dict \<Rightarrow> dict_iter" where
  "YogDict_get_iterator self = \<lparr>tbl_iter = YogTable_get_iterator (d_tbl self)\<rparr>"

definition YogDictIterator_next :: "('k, 'o) dict \<Rightarrow> dict_iter \<Rightarrow> (bool \<times> dict_iter) res" where
  "YogDictIterator_next self it =
     res_bind (YogTableIterator_next (d_tbl self) (tbl_iter it)) (\<lambda>(b, ti).
       Inr (b, it\<lparr>tbl_iter := ti\<rparr>))"

definition YogDictIterator_current_key :: "('k, 'o) dict \<Rightarrow> dict_iter \<Rightarrow> 'k res" where
  "YogDictIterator_current_key self it = YogTableIterator_current_key (d_tbl self) (tbl_iter it)"

definition YogDictIterator_current_value :: "('k, 'o) dict \<Rightarrow> dict_iter \<Rightarrow> 'o yval res" where
  "YogDictIterator_current_value self it = YogTableIterator_current_value (d_tbl self) (tbl_iter it)"

text \<open>
  The loop of \<^verbatim>\<open>YogDict_add\<close> and of both \<^verbatim>\<open>each\<close>: the dictionary that is iterated does not change
  meanwhile. A well-formed table ends it within as many rounds as it has entries, so the number of
  allocated addresses is fuel enough.
\<close>

fun dict_loop ::
  "nat \<Rightarrow> ('k, 'o) dict \<Rightarrow> ('k \<Rightarrow> 'o yval \<Rightarrow> 's \<Rightarrow> 's res) \<Rightarrow> dict_iter \<Rightarrow> 's \<Rightarrow> 's res"
where
  "dict_loop 0 d f it s = Inl NoReturn"
| "dict_loop (Suc fuel) d f it s =
     res_bind (YogDictIterator_next d it) (\<lambda>(more, it').
       if more then
         res_bind (YogDictIterator_current_key d it') (\<lambda>k.
         res_bind (YogDictIterator_current_value d it') (\<lambda>v.
         res_bind (f k v s) (\<lambda>s'. dict_loop fuel d f it' s')))
       else Inr s)"

definition dict_fuel :: "('k, 'o) dict \<Rightarrow> nat" where
  "dict_fuel d = Suc (next_addr (d_tbl d))"

definition YogDict_add ::
  "'k hash_type \<Rightarrow> ('k, 'o) dict \<Rightarrow> ('k, 'o) dict \<Rightarrow> ('k, 'o) dict res" where
  "YogDict_add ht self dict =
     dict_loop (dict_fuel dict) dict (\<lambda>key val d. YogDict_set ht d key val)
       (YogDict_get_iterator dict) self"

definition dict_each ::
  "('k, 'o) dict dict_obj yval \<Rightarrow> ('k \<Rightarrow> 'o yval \<Rightarrow> 's \<Rightarrow> 's res) \<Rightarrow> 's \<Rightarrow> 's res" where
  "dict_each self block s =
     check_self_dict self (\<lambda>d. dict_loop (dict_fuel d) d block (YogDict_get_iterator d) s)"

definition dict_add ::
  "'k hash_type \<Rightarrow> ('k, 'o) dict dict_obj yval \<Rightarrow> ('k, 'o) dict dict_obj yval \<Rightarrow> ('k, 'o) dict res"
where
  "dict_add ht self right =
     check_self_dict self (\<lambda>d.
       case right of
         YPtr (ODict r) \<Rightarrow>
           res_bind YogDict_new (\<lambda>dict.
           res_bind (YogDict_add ht dict d) (\<lambda>dict1. YogDict_add ht dict1 r))
       | _ \<Rightarrow> Inl (TypeError ''operand must be Dict''))"

section \<open>Set\<close>

definition YogSet_new :: "('k, 'o) dict res" where
  "YogSet_new = YogDict_alloc"

definition YogSet_add :: "'k hash_type \<Rightarrow> ('k, 'o) dict \<Rightarrow> 'k \<Rightarrow> ('k, 'o) dict res" where
  "YogSet_add ht self elem = YogDict_set ht self elem (int2val 1)"

definition set_add :: "'k hash_type \<Rightarrow> ('k, 'o) dict \<Rightarrow> 'k list \<Rightarrow> ('k, 'o) dict res" where
  "set_add ht self objs = foldM (\<lambda>i d. YogSet_add ht d (objs ! i)) [0..<length objs] self"

definition set_include :: "'k hash_type \<Rightarrow> ('k, 'o) dict \<Rightarrow> 'k \<Rightarrow> bool res" where
  "set_include ht self elem =
     res_bind (YogDict_include ht self elem) (\<lambda>b. if b then Inr True else Inr False)"

definition set_get_size :: "('k, 'o) dict \<Rightarrow> ('f, 'b, 's) num" where
  "set_get_size self = YogVal_from_int (YogDict_size self)"

definition set_each :: "('k, 'o) dict \<Rightarrow> ('k \<Rightarrow> 's \<Rightarrow> 's res) \<Rightarrow> 's \<Rightarrow> 's res" where
  "set_each self block s =
     dict_loop (dict_fuel self) self (\<lambda>k _. block k) (YogDict_get_iterator self) s"

section \<open>From the table to the dictionary\<close>

text \<open>A dictionary is well formed when its table is and no value is the undefined value, with which
  \<^verbatim>\<open>YogDict_get\<close> reports a missing key.\<close>

definition dict_ok :: "'k hash_type \<Rightarrow> ('k, 'o) dict \<Rightarrow> bool" where
  "dict_ok ht d \<longleftrightarrow> table_ok ht (d_tbl d)
     \<and> (\<forall>k. YogTable_lookup ht (d_tbl d) k \<noteq> Inr (Some YUndef))"

lemma dict_loop_iter_loop:
  "dict_loop fuel d f it s = iter_loop fuel (d_tbl d) f (tbl_iter it) s"
proof (induction fuel arbitrary: it s)
  case (Suc fuel)
  show ?case
    by (cases "YogTableIterator_next (d_tbl d) (tbl_iter it)")
      (auto simp: YogDictIterator_next_def YogDictIterator_current_key_def
        YogDictIterator_current_value_def Suc split: prod.split intro!: arg_cong2[where f = res_bind] ext)
qed simp

lemma dict_loop_contents:
  assumes "table_inv ht cs (d_tbl d)"
  shows "dict_loop (dict_fuel d) d f (YogDict_get_iterator d) s
    = foldM (\<lambda>(k, v). f k v) (contents cs (d_tbl d)) s"
proof -
  let ?t = "d_tbl d"
  have "addrs (num_bins ?t) cs \<subseteq> {..<next_addr ?t}"
    using table_inv_dom[OF assms] assms by (auto simp: table_inv_def)
  then have "card (addrs (num_bins ?t) cs) \<le> card {..<next_addr ?t}" by (intro card_mono) auto
  then have "num_entries ?t < int (dict_fuel d)"
    using assms by (simp add: table_inv_def dict_fuel_def)
  from iter_loop_contents[OF assms this, of f s] show ?thesis
    by (simp add: dict_loop_iter_loop YogDict_get_iterator_def)
qed

context hash_laws
begin

lemma dict_get_found:
  "dict_ok ht d \<Longrightarrow> YogTable_lookup ht (d_tbl d) k = Inr (Some v) \<Longrightarrow>
   YogDict_get ht d k = Inr v \<and> YogDict_include ht d k = Inr True
   \<and> YogDict_subscript ht d k = Inr v"
  by (auto simp: YogDict_get_def YogDict_include_def YogDict_subscript_def dict_ok_def)

lemma dict_get_missing:
  "YogTable_lookup ht (d_tbl d) k = Inr None \<Longrightarrow>
   YogDict_get ht d k = Inr YUndef \<and> YogDict_include ht d k = Inr False
   \<and> YogDict_subscript ht d k = Inl (KeyError ''Not found'')"
  by (simp add: YogDict_get_def YogDict_include_def YogDict_subscript_def)

lemma dict_fold_table:
  "foldM (\<lambda>(k, v) d. YogDict_set ht d k v) kvs d =
   res_bind (foldM (\<lambda>(k, v) t. res_bind (YogTable_insert ht t k v) (\<lambda>(b, t'). Inr t')) kvs (d_tbl d))
     (\<lambda>t. Inr (d\<lparr>d_tbl := t\<rparr>))"
proof (induction kvs arbitrary: d)
  case (Cons p kvs)
  obtain k v where p: "p = (k, v)" by (cases p)
  show ?case
    by (cases "YogTable_insert ht (d_tbl d) k v") (auto simp: p YogDict_set_def Cons.IH[unfolded YogDict_set_def])
qed simp

lemma dict_set_spec:
  assumes "dict_ok ht d" "YogDict_size d < 6442451454" "key_hashes ht k" "v \<noteq> YUndef"
  shows "\<exists>d'. YogDict_set ht d k v = Inr d' \<and> dict_ok ht d'
    \<and> (\<forall>k'. YogTable_lookup ht (d_tbl d') k' =
         (if ht_compare ht k k' then Inr (Some v) else YogTable_lookup ht (d_tbl d) k'))
    \<and> YogDict_size d' = YogDict_size d + (if YogTable_lookup ht (d_tbl d) k = Inr None then 1 else 0)"
proof -
  have ok: "table_ok ht (d_tbl d)" "table_room (d_tbl d)"
    using assms(1,2) by (simp_all add: dict_ok_def table_room_def YogDict_size_def YogTable_size_def)
  from table_insert_spec[OF this assms(3), of v] obtain t' where
    t: "YogTable_insert ht (d_tbl d) k v = Inr (YogTable_lookup ht (d_tbl d) k \<noteq> Inr None, t')"
    "table_ok ht t'" "\<forall>k'. YogTable_lookup ht t' k' =
         (if ht_compare ht k k' then Inr (Some v) else YogTable_lookup ht (d_tbl d) k')"
    "num_entries t' = num_entries (d_tbl d) + (if YogTable_lookup ht (d_tbl d) k = Inr None then 1 else 0)"
    by blast
  show ?thesis
  proof (intro exI[of _ "d\<lparr>d_tbl := t'\<rparr>"] conjI)
    show "YogDict_set ht d k v = Inr (d\<lparr>d_tbl := t'\<rparr>)" using t(1) by (simp add: YogDict_set_def)
    show "dict_ok ht (d\<lparr>d_tbl := t'\<rparr>)"
      unfolding dict_ok_def using t(2,3) assms(1,4) by (auto simp: dict_ok_def)
    show "YogDict_size (d\<lparr>d_tbl := t'\<rparr>) =
        YogDict_size d + (if YogTable_lookup ht (d_tbl d) k = Inr None then 1 else 0)"
      using t(4) by (simp add: YogDict_size_def YogTable_size_def)
  qed (use t(3) in simp)
qed

text \<open>Adding all entries of a dictionary: the added dictionary wins.\<close>

lemma dict_add_all:
  assumes d: "dict_ok ht d" and r: "dict_ok ht r"
    and size: "YogDict_size d + YogDict_size r \<le> 6442451454"
  shows "\<exists>d'. YogDict_add ht d r = Inr d' \<and> dict_ok ht d'
    \<and> YogDict_size d' \<le> YogDict_size d + YogDict_size r
    \<and> (\<forall>k. YogTable_lookup ht (d_tbl d') k =
         (if YogTable_lookup ht (d_tbl r) k = Inr None then YogTable_lookup ht (d_tbl d) k
          else YogTable_lookup ht (d_tbl r) k))"
proof -
  obtain cs where inv: "table_inv ht cs (d_tbl r)" using r by (auto simp: dict_ok_def table_ok_def)
  let ?kvs = "contents cs (d_tbl r)"
  let ?step = "\<lambda>(k, v) t. res_bind (YogTable_insert ht t k v) (\<lambda>(b, t'). Inr t')"
  have len: "int (length ?kvs) = YogDict_size r"
    using contents_distinct(2)[OF inv hash_laws_axioms] inv
    by (simp add: YogDict_size_def YogTable_size_def table_inv_def)
  have "\<forall>p \<in> set ?kvs. key_hashes ht (fst p)"
    using inv by (fastforce simp: set_contents assocs_def table_inv_def key_hashes_def)
  moreover have "table_ok ht (d_tbl d)" using d by (simp add: dict_ok_def)
  moreover have "num_entries (d_tbl d) + int (length ?kvs) \<le> 6442451454"
    using size len by (simp add: YogDict_size_def YogTable_size_def)
  ultimately obtain t' where t: "foldM ?step ?kvs (d_tbl d) = Inr t'" "table_ok ht t'"
    "num_entries t' \<le> num_entries (d_tbl d) + int (length ?kvs)"
    "\<forall>k'. YogTable_lookup ht t' k' = (case find (\<lambda>p. ht_compare ht (fst p) k') (rev ?kvs) of
        Some p \<Rightarrow> Inr (Some (snd p)) | None \<Rightarrow> YogTable_lookup ht (d_tbl d) k')"
    using tbl.put_all by blast
  have look: "YogTable_lookup ht t' k = (if YogTable_lookup ht (d_tbl r) k = Inr None
      then YogTable_lookup ht (d_tbl d) k else YogTable_lookup ht (d_tbl r) k)" for k
  proof (cases "find (\<lambda>p. ht_compare ht (fst p) k) (rev ?kvs)")
    case None
    then have no: "\<forall>p \<in> assocs cs (d_tbl r). \<not> ht_compare ht k (fst p)"
      using cmp_sym by (auto simp: find_None_iff simp flip: set_contents)
    have *: "YogTable_lookup ht t' k = YogTable_lookup ht (d_tbl d) k" using t(4) None by simp
    show ?thesis
    proof (cases "do_hash ht k")
      case (Inr hv)
      then show ?thesis using * lookup_noneI[OF inv Inr no] by simp
    next
      case (Inl e)
      then show ?thesis using * by (simp add: lookup_unhashable)
    qed
  next
    case (Some p)
    then have "p \<in> set (rev ?kvs)" "ht_compare ht (fst p) k" using find_SomeD by fast+
    then have "(fst p, snd p) \<in> assocs cs (d_tbl r)" "ht_compare ht k (fst p)"
      using cmp_sym by (auto simp flip: set_contents)
    then have "YogTable_lookup ht (d_tbl r) k = Inr (Some (snd p))" by (rule lookup_someI[OF inv])
    then show ?thesis using t(4) Some by simp
  qed
  have "YogDict_add ht d r = Inr (d\<lparr>d_tbl := t'\<rparr>)"
    using dict_loop_contents[OF inv, of "\<lambda>key val d. YogDict_set ht d key val" d] t(1)
    by (simp add: YogDict_add_def dict_fold_table)
  moreover have "dict_ok ht (d\<lparr>d_tbl := t'\<rparr>)"
    using t(2) look d r by (auto simp: dict_ok_def)
  ultimately show ?thesis using look t(3) len
    by (auto simp: YogDict_size_def YogTable_size_def)
qed

lemma dict_new_spec: "\<exists>d :: ('k, 'z) dict. YogDict_new = Inr d \<and> dict_ok ht d \<and> YogDict_size d = 0
    \<and> (\<forall>k. YogTable_lookup ht (d_tbl d) k = (case do_hash ht k of Inl e \<Rightarrow> Inl e | Inr _ \<Rightarrow> Inr None))"
proof -
  let ?d = "\<lparr>d_tbl = fresh_table\<rparr> :: ('k, 'z) dict"
  have l: "YogTable_lookup ht (fresh_table :: ('k, 'z yval) table) k = (case do_hash ht k of Inl e \<Rightarrow> Inl e | Inr _ \<Rightarrow> Inr None)"
    for k using lookup_noneI[OF fresh_table_inv, of k] lookup_unhashable[of k]
    by (cases "do_hash ht k") (auto simp: assocs_def fresh_table_def)
  have "YogDict_new = Inr ?d"
    by (simp add: YogDict_new_def YogDict_alloc_def YogTable_create_value_table_def st_init_table_fresh)
  moreover have "dict_ok ht ?d" using l fresh_table_ok by (auto simp: dict_ok_def split: sum.splits)
  moreover have "YogDict_size ?d = 0"
    by (simp add: YogDict_size_def YogTable_size_def fresh_table_def)
  ultimately show ?thesis using l by (intro exI[of _ ?d]) simp
qed

end

section \<open>Properties\<close>

definition symbol_dict :: "(YogVal, nat) dict" where
  "symbol_dict = \<lparr>d_tbl = fresh_table\<rparr>"

lemma symbol_dict_ok: "dict_ok type_symbol symbol_dict"
proof -
  have "YogTable_lookup type_symbol (fresh_table :: (YogVal, nat yval) table) k = Inr None" for k
    using symbol.lookup_noneI[OF fresh_table_inv symbol_do_hash, of k]
    by (simp add: assocs_def fresh_table_def)
  then show ?thesis by (simp add: dict_ok_def symbol_dict_def fresh_table_ok)
qed

lemma symbol_dict_size: "YogDict_size symbol_dict = 0"
  by (simp add: symbol_dict_def YogDict_size_def YogTable_size_def fresh_table_def)

text \<open>After d[k] = v the subscript of any key equal to k yields v, every other key yields what
  it did before, KeyError for a missing key included, and the size grows by one exactly when the
  key was new, for every hash type that keeps the laws.\<close>

lemma dict_assign_subscript_laws:
  assumes "hash_laws ht" "dict_ok ht d" "YogDict_size d < 6442451454" "key_hashes ht k" "v \<noteq> YUndef"
  shows "\<exists>d'. dict_subscript_assign ht (YPtr (ODict d)) k v = Inr d' \<and> dict_ok ht d'
    \<and> (\<forall>k'. key_hashes ht k' \<longrightarrow> dict_subscript ht (YPtr (ODict d')) k' =
          (if ht_compare ht k k' then Inr v else dict_subscript ht (YPtr (ODict d)) k'))
    \<and> YogDict_size d' = YogDict_size d + (if YogDict_include ht d k = Inr True then 0 else 1)"
proof -
  obtain d' where d': "YogDict_set ht d k v = Inr d'" "dict_ok ht d'"
    "\<forall>k'. YogTable_lookup ht (d_tbl d') k' =
       (if ht_compare ht k k' then Inr (Some v) else YogTable_lookup ht (d_tbl d) k')"
    "YogDict_size d' = YogDict_size d + (if YogTable_lookup ht (d_tbl d) k = Inr None then 1 else 0)"
    using hash_laws.dict_set_spec[OF assms] by blast
  have "YogDict_include ht d k = Inr True \<longleftrightarrow> YogTable_lookup ht (d_tbl d) k \<noteq> Inr None"
    using hash_laws.lookup_total[OF assms(1), of "d_tbl d" k] assms(2,4)
    by (auto simp: YogDict_include_def YogDict_get_def dict_ok_def split: option.splits)
  then show ?thesis using d'
    by (auto simp: dict_subscript_assign_def dict_subscript_def check_self_dict_def YogDict_subscript_def)
qed

text \<open>The sum of two dictionaries is a new one, not larger than both together, in which every
  key of the right operand has the right operand's value and every other key the left one's.\<close>

lemma dict_add_right_wins:
  fixes l r :: "('k, 'z) dict"
  assumes "hash_laws ht" "dict_ok ht l" "dict_ok ht r" "YogDict_size l + YogDict_size r \<le> 6442451454"
  shows "\<exists>d. dict_add ht (YPtr (ODict l)) (YPtr (ODict r)) = Inr d \<and> dict_ok ht d
    \<and> YogDict_size d \<le> YogDict_size l + YogDict_size r
    \<and> (\<forall>k. key_hashes ht k \<longrightarrow> YogDict_get ht d k =
          (if YogDict_include ht r k = Inr True then YogDict_get ht r k else YogDict_get ht l k))"
proof -
  have pos: "0 \<le> YogDict_size l" "0 \<le> YogDict_size r"
    using assms(2,3) by (auto simp: dict_ok_def table_ok_def table_inv_def YogDict_size_def YogTable_size_def)
  obtain d0 :: "('k, 'z) dict" where d0: "YogDict_new = Inr d0" "dict_ok ht d0" "YogDict_size d0 = 0"
    "\<forall>k. YogTable_lookup ht (d_tbl d0) k = (case do_hash ht k of Inl e \<Rightarrow> Inl e | Inr _ \<Rightarrow> Inr None)"
    using hash_laws.dict_new_spec[OF assms(1)] by blast
  obtain d1 where d1: "YogDict_add ht d0 l = Inr d1" "dict_ok ht d1"
    "YogDict_size d1 \<le> YogDict_size d0 + YogDict_size l"
    "\<forall>k. YogTable_lookup ht (d_tbl d1) k = (if YogTable_lookup ht (d_tbl l) k = Inr None
        then YogTable_lookup ht (d_tbl d0) k else YogTable_lookup ht (d_tbl l) k)"
    using hash_laws.dict_add_all[OF assms(1) d0(2) assms(2)] d0(3) assms(4) pos by auto
  obtain d2 where d2: "YogDict_add ht d1 r = Inr d2" "dict_ok ht d2"
    "YogDict_size d2 \<le> YogDict_size d1 + YogDict_size r"
    "\<forall>k. YogTable_lookup ht (d_tbl d2) k = (if YogTable_lookup ht (d_tbl r) k = Inr None
        then YogTable_lookup ht (d_tbl d1) k else YogTable_lookup ht (d_tbl r) k)"
    using hash_laws.dict_add_all[OF assms(1) d1(2) assms(3)] d1(3) d0(3) assms(4) by auto
  have get: "YogDict_get ht d2 k =
      (if YogDict_include ht r k = Inr True then YogDict_get ht r k else YogDict_get ht l k)"
    if h: "key_hashes ht k" for k
  proof -
    have n0: "YogTable_lookup ht (d_tbl d0) k = Inr None"
      using d0(4) h by (auto elim: key_hashesE)
    have inc: "YogDict_include ht r k = Inr True \<longleftrightarrow> YogTable_lookup ht (d_tbl r) k \<noteq> Inr None"
      using hash_laws.lookup_total[OF assms(1), of "d_tbl r" k] assms(3) h
      by (auto simp: YogDict_include_def YogDict_get_def dict_ok_def split: option.splits)
    show ?thesis using d2(4) d1(4) n0 inc by (auto simp: YogDict_get_def)
  qed
  have "dict_add ht (YPtr (ODict l)) (YPtr (ODict r)) = Inr d2"
    using d1(1) d2(1) by (simp add: dict_add_def check_self_dict_def d0(1))
  then show ?thesis using d2(2,3) d1(3) d0(3) get by (intro exI[of _ d2]) auto
qed

lemma dict_add_right_wins_instance:
  "\<exists>d. dict_add type_symbol (YPtr (ODict symbol_dict)) (YPtr (ODict symbol_dict)) = Inr d
    \<and> dict_ok type_symbol d
    \<and> YogDict_size d \<le> YogDict_size symbol_dict + YogDict_size symbol_dict
    \<and> (\<forall>k. key_hashes type_symbol k \<longrightarrow> YogDict_get type_symbol d k =
          (if YogDict_include type_symbol symbol_dict k = Inr True
           then YogDict_get type_symbol symbol_dict k else YogDict_get type_symbol symbol_dict k))"
  by (rule dict_add_right_wins)
    (simp_all add: symbol.hash_laws_axioms symbol_dict_ok symbol_dict_size)

text \<open>The method add of a set makes exactly its arguments members beside the old members, in
  whatever order and with whatever repetitions they are given.\<close>

lemma set_add_membership:
  assumes "hash_laws ht" "dict_ok ht d" "\<forall>x \<in> set objs. key_hashes ht x"
    "YogDict_size d + int (length objs) \<le> 6442451454"
  shows "\<exists>d'. set_add ht d objs = Inr d' \<and> dict_ok ht d'
    \<and> (\<forall>k. key_hashes ht k \<longrightarrow> set_include ht d' k =
          (if \<exists>x \<in> set objs. ht_compare ht x k then Inr True else set_include ht d k))"
proof -
  let ?step = "\<lambda>x d. YogSet_add ht d x"
  have fold: "set_add ht d objs = foldM ?step objs d"
    using foldM_map[of ?step "\<lambda>i. objs ! i" "[0..<length objs]" d, symmetric]
    by (simp add: set_add_def map_nth)
  have "\<exists>d'. foldM ?step xs e = Inr d' \<and> dict_ok ht d'
    \<and> (\<forall>k. key_hashes ht k \<longrightarrow> set_include ht d' k =
          (if \<exists>x \<in> set xs. ht_compare ht x k then Inr True else set_include ht e k))"
    if "dict_ok ht e" "\<forall>x \<in> set xs. key_hashes ht x" "YogDict_size e + int (length xs) \<le> 6442451454"
    for xs e
    using that
  proof (induction xs arbitrary: e)
    case (Cons x xs)
    have "key_hashes ht x" "YogDict_size e < 6442451454" using Cons.prems by auto
    from hash_laws.dict_set_spec[OF assms(1) Cons.prems(1) this(2,1), of "int2val 1"] obtain e1 where
      e1: "YogDict_set ht e x (int2val 1) = Inr e1" "dict_ok ht e1"
      "\<forall>k'. YogTable_lookup ht (d_tbl e1) k' =
         (if ht_compare ht x k' then Inr (Some (int2val 1)) else YogTable_lookup ht (d_tbl e) k')"
      "YogDict_size e1 = YogDict_size e + (if YogTable_lookup ht (d_tbl e) x = Inr None then 1 else 0)"
      by (auto simp: int2val_def)
    have "YogDict_size e1 + int (length xs) \<le> 6442451454" using e1(4) Cons.prems(3) by simp
    from Cons.IH[OF e1(2) _ this] Cons.prems(2) obtain d' where d':
      "foldM ?step xs e1 = Inr d'" "dict_ok ht d'"
      "\<forall>k. key_hashes ht k \<longrightarrow> set_include ht d' k =
          (if \<exists>x \<in> set xs. ht_compare ht x k then Inr True else set_include ht e1 k)" by auto
    have "set_include ht e1 k = (if ht_compare ht x k then Inr True else set_include ht e k)" for k
      using e1(3) by (simp add: set_include_def YogDict_include_def YogDict_get_def int2val_def)
    then show ?case using d' e1(1) by (auto simp: YogSet_add_def)
  qed simp
  from this[OF assms(2-4)] show ?thesis by (simp only: fold)
qed

lemma set_add_membership_instance:
  "\<exists>d'. set_add type_symbol symbol_dict [ID2VAL 4, ID2VAL 9, ID2VAL 4] = Inr d' \<and> dict_ok type_symbol d'
    \<and> (\<forall>k. key_hashes type_symbol k \<longrightarrow> set_include type_symbol d' k =
          (if \<exists>x \<in> set [ID2VAL 4, ID2VAL 9, ID2VAL 4]. ht_compare type_symbol x k then Inr True
           else set_include type_symbol symbol_dict k))"
  by (rule set_add_membership)
    (simp_all add: symbol.hash_laws_axioms symbol_dict_ok symbol_dict_size symbol_hashes)

end
