(* ===== verification/YogSequence.thy ===== *)
theory YogSequence
  imports YogPrelude
begin

text \<open>
  The interfaces of the growing containers, arrays, strings and binaries: what the code that
  appends to one, or uses one as a stack or a queue, relies on. Each container interprets them on
  its own operations.
\<close>

section \<open>Appending\<close>

text \<open>
  A container of elements with an operation that appends one. \<open>cap\<close> bounds the sizes for which the
  container promises to find the memory without an overflow.
\<close>

locale growable =
  fixes ok :: "'s \<Rightarrow> bool"
    and size_of :: "'s \<Rightarrow> nat"
    and cap :: nat
    and elems_of :: "'s \<Rightarrow> 'e list"
    and push :: "'s \<Rightarrow> 'e \<Rightarrow> 's res"
  assumes size_elems: "ok s \<Longrightarrow> size_of s = length (elems_of s)"
    and push_law: "ok s \<Longrightarrow> size_of s < cap \<Longrightarrow>
        \<exists>t. push s e = Inr t \<and> ok t \<and> elems_of t = elems_of s @ [e]"
begin

lemma push_all:
  assumes "ok s" "size_of s + length es \<le> cap"
  shows "\<exists>t. foldM (\<lambda>e s. push s e) es s = Inr t \<and> ok t \<and> elems_of t = elems_of s @ es"
  using assms
proof (induction es arbitrary: s)
  case (Cons e es)
  then have "size_of s < cap" by simp
  then obtain s1 where s1: "push s e = Inr s1" "ok s1" "elems_of s1 = elems_of s @ [e]"
    using push_law[OF Cons.prems(1)] by blast
  moreover have "size_of s1 + length es \<le> cap"
    using Cons.prems s1(3) size_elems[OF s1(2)] size_elems[OF Cons.prems(1)] by simp
  ultimately show ?case using Cons.IH[OF s1(2)] by auto
qed auto

end

section \<open>Both ends\<close>

fun drain :: "('s \<Rightarrow> ('e \<times> 's) res) \<Rightarrow> nat \<Rightarrow> 's \<Rightarrow> ('e list \<times> 's) res" where
  "drain take_one 0 s = Inr ([], s)"
| "drain take_one (Suc n) s =
     res_bind (take_one s) (\<lambda>(e, t). res_bind (drain take_one n t) (\<lambda>(es, u). Inr (e # es, u)))"

text \<open>
  A sequence also gives back and takes elements at both ends, as a list does.
\<close>

locale sequence = growable +
  fixes pop :: "'s \<Rightarrow> ('e \<times> 's) res"
    and shift :: "'s \<Rightarrow> ('e \<times> 's) res"
    and unshift :: "'s \<Rightarrow> 'e \<Rightarrow> 's res"
  assumes pop_law: "ok s \<Longrightarrow> elems_of s \<noteq> [] \<Longrightarrow>
        \<exists>t. pop s = Inr (last (elems_of s), t) \<and> ok t \<and> elems_of t = butlast (elems_of s)"
    and shift_law: "ok s \<Longrightarrow> elems_of s \<noteq> [] \<Longrightarrow>
        \<exists>t. shift s = Inr (hd (elems_of s), t) \<and> ok t \<and> elems_of t = tl (elems_of s)"
    and unshift_law: "ok s \<Longrightarrow> size_of s < cap \<Longrightarrow>
        \<exists>t. unshift s e = Inr t \<and> ok t \<and> elems_of t = e # elems_of s"
begin

lemma push_pop:
  assumes "ok s" "size_of s < cap" "push s e = Inr t"
  shows "\<exists>u. pop t = Inr (e, u) \<and> ok u \<and> elems_of u = elems_of s"
  using push_law[OF assms(1,2), of e] assms(3) pop_law[of t] by auto

lemma unshift_shift:
  assumes "ok s" "size_of s < cap" "unshift s e = Inr t"
  shows "\<exists>u. shift t = Inr (e, u) \<and> ok u \<and> elems_of u = elems_of s"
  using unshift_law[OF assms(1,2), of e] assms(3) shift_law[of t] by auto

text \<open>A queue: what is pushed at one end comes out at the other in the same order.\<close>

lemma drain_elems:
  "ok s \<Longrightarrow> n \<le> length (elems_of s) \<Longrightarrow>
   \<exists>t. drain shift n s = Inr (take n (elems_of s), t) \<and> ok t \<and> elems_of t = drop n (elems_of s)"
proof (induction n arbitrary: s)
  case (Suc n)
  then have ne: "elems_of s \<noteq> []" by auto
  then obtain t where t: "shift s = Inr (hd (elems_of s), t)" "ok t" "elems_of t = tl (elems_of s)"
    using shift_law[OF Suc.prems(1)] by blast
  have "n \<le> length (elems_of t)" using Suc.prems(2) t(3) by simp
  then obtain u where "drain shift n t = Inr (take n (elems_of t), u)" "ok u"
    "elems_of u = drop n (elems_of t)" using Suc.IH[OF t(2)] by blast
  then show ?case using t ne by (cases "elems_of s") auto
qed simp

end

end
