(* ===== verification/YogArray.thy ===== *)
theory YogArray
  imports YogValue YogSequence
begin

text \<open>
  \<^verbatim>\<open>src/array.c\<close>: growable arrays. An array has a size and a body, a heap object whose length is
  its capacity; growing replaces the body by a larger copy. Reads and writes of the body are
  checked memory accesses, so that an access past the end is \<open>MemFault\<close> as it is undefined in C.
  Methods return the array they leave behind; blocks work on the array and a state of their own.
\<close>

section \<open>Bodies\<close>

type_synonym 'o body = "'o yval list"

record 'o yarray =
  a_size :: nat
  a_body :: "'o body"

datatype 'a arr_obj = OArray 'a | ONotArray

text \<open>\<^verbatim>\<open>CHECK_SELF_TYPE\<close> lets a value that is not a pointer pass; the code then follows it.\<close>

definition check_self_array :: "'a arr_obj yval \<Rightarrow> ('a \<Rightarrow> 'b res) \<Rightarrow> 'b res" where
  "check_self_array self f =
     (case self of
        YPtr (OArray a) \<Rightarrow> f a
      | YPtr ONotArray \<Rightarrow> Inl (TypeError ''self must be Array'')
      | _ \<Rightarrow> Inl MemFault)"

definition YogValArray_size :: "'o body \<Rightarrow> nat" where
  "YogValArray_size array = length array"

definition YogValArray_at :: "'o body \<Rightarrow> nat \<Rightarrow> 'o yval res" where
  "YogValArray_at array n =
     (if n < YogValArray_size array then Inr (array ! n)
      else Inl (YogBug ''index exceed array body size (%u, %u)''))"

definition YogArray_at :: "'o yarray \<Rightarrow> nat \<Rightarrow> 'o yval res" where
  "YogArray_at array n = YogValArray_at (a_body array) n"

definition YogArray_size :: "'o yarray \<Rightarrow> nat" where
  "YogArray_size array = a_size array"

definition YogValArray_new :: "nat \<Rightarrow> 'o body res" where
  "YogValArray_new n =
     res_bind (YogGC_check_multiply_overflow n 8) (\<lambda>_. Inr (replicate n YNil))"

section \<open>Growing\<close>

text \<open>The loop wraps to 0 and never ends when no product reaches the wanted size: \<open>None\<close>.\<close>

partial_function (option) multiple_size :: "nat \<Rightarrow> nat \<Rightarrow> nat \<Rightarrow> nat option" where
  "multiple_size min_size cur_size ratio =
     (if cur_size < min_size then multiple_size min_size (uwrap (cur_size * ratio)) ratio
      else Some cur_size)"

definition get_next_size :: "nat \<Rightarrow> nat \<Rightarrow> nat \<Rightarrow> nat option" where
  "get_next_size min_size cur_size ratio =
     (if cur_size = 0 then Some 1 else multiple_size min_size cur_size ratio)"

definition copy_body :: "'o body \<Rightarrow> 'o body \<Rightarrow> nat \<Rightarrow> nat \<Rightarrow> 'o body res" where
  "copy_body new old n offset =
     foldM (\<lambda>i b. res_bind (mem_load old i) (\<lambda>v. mem_store b (offset + i) v)) [0..<n] new"

definition ensure_body_size :: "'o yarray \<Rightarrow> nat \<Rightarrow> 'o yarray res" where
  "ensure_body_size array n =
     (if YogValArray_size (a_body array) < n then
        case get_next_size n (YogValArray_size (a_body array)) 2 of
          None \<Rightarrow> Inl NoReturn
        | Some new_size \<Rightarrow>
            res_bind (YogValArray_new new_size) (\<lambda>new_body.
            res_bind (copy_body new_body (a_body array) (a_size array) 0) (\<lambda>new_body'.
              Inr (array\<lparr>a_body := new_body'\<rparr>)))
      else Inr array)"

section \<open>Operations\<close>

definition YogArray_push :: "'o yarray \<Rightarrow> 'o yval \<Rightarrow> 'o yarray res" where
  "YogArray_push array val =
     res_bind (ensure_body_size array (uwrap (YogArray_size array + 1))) (\<lambda>array1.
     res_bind (mem_store (a_body array1) (a_size array1) val) (\<lambda>body.
       Inr (array1\<lparr>a_body := body, a_size := uwrap (a_size array1 + 1)\<rparr>)))"

definition YogArray_extend :: "'o yarray \<Rightarrow> 'o yarray \<Rightarrow> 'o yarray res" where
  "YogArray_extend array a =
     (let old_size = YogArray_size array;
          new_size = uwrap (old_size + YogArray_size a)
      in res_bind (ensure_body_size array new_size) (\<lambda>array1.
         res_bind (copy_body (a_body array1) (a_body a) (YogArray_size a) old_size) (\<lambda>to.
           Inr (array1\<lparr>a_body := to, a_size := new_size\<rparr>))))"

definition array_alloc_obj :: "nat \<Rightarrow> 'o yarray res" where
  "array_alloc_obj n =
     res_bind (YogValArray_new n) (\<lambda>body. Inr \<lparr>a_size = 0, a_body = body\<rparr>)"

definition YogArray_of_size :: "nat \<Rightarrow> 'o yarray res" where
  "YogArray_of_size n = array_alloc_obj n"

definition array_alloc :: "'o yarray res" where
  "array_alloc = array_alloc_obj 1"

definition YogArray_new :: "'o yarray res" where
  "YogArray_new = YogArray_of_size 1"

definition YogArray_add :: "'o yarray \<Rightarrow> 'o yarray \<Rightarrow> 'o yarray res" where
  "YogArray_add self array =
     foldM (\<lambda>i a. res_bind (YogArray_at array i) (\<lambda>val. YogArray_push a val))
       [0..<YogArray_size array] self"

definition array_add ::
  "'o yarray arr_obj yval \<Rightarrow> 'o yarray arr_obj yval \<Rightarrow> 'o yarray res" where
  "array_add self right =
     check_self_array self (\<lambda>a.
       case right of
         YPtr (OArray r) \<Rightarrow>
           res_bind YogArray_new (\<lambda>array.
           res_bind (YogArray_add array a) (\<lambda>array1. YogArray_add array1 r))
       | _ \<Rightarrow> Inl (TypeError ''operand must be Array''))"

definition array_lshift :: "'o yarray arr_obj yval \<Rightarrow> 'o yval \<Rightarrow> 'o yarray res" where
  "array_lshift self elem = check_self_array self (\<lambda>a. YogArray_push a elem)"

definition array_push :: "'o yarray arr_obj yval \<Rightarrow> 'o yval \<Rightarrow> 'o yarray res" where
  "array_push self obj = check_self_array self (\<lambda>a. YogArray_push a obj)"

definition normalize_index :: "'o yarray \<Rightarrow> int \<Rightarrow> int" where
  "normalize_index self index = (if 0 \<le> index then index else iwrap (int (YogArray_size self) + index))"

definition array_assign :: "'o yarray \<Rightarrow> int \<Rightarrow> 'o yval \<Rightarrow> 'o yarray res" where
  "array_assign self index val =
     (let n = normalize_index self index
      in if n < 0 \<or> YogArray_size self \<le> to_uint n
         then Inl (IndexError ''Array assignment index (%d) out of range (%u)'')
         else res_bind (mem_store (a_body self) (nat n) val) (\<lambda>body. Inr (self\<lparr>a_body := body\<rparr>)))"

definition array_assign_subscript ::
  "'o yarray arr_obj yval \<Rightarrow> 'o yval \<Rightarrow> 'o yval \<Rightarrow> 'o yarray res" where
  "array_assign_subscript self index val =
     check_self_array self (\<lambda>a.
       case index of
         YFixnum i \<Rightarrow> array_assign a i val
       | _ \<Rightarrow> Inl (TypeError ''index must be Fixnum''))"

definition YogArray_subscript :: "'o yarray \<Rightarrow> 'o yval \<Rightarrow> 'o yval res" where
  "YogArray_subscript self index =
     (case index of
        YFixnum i \<Rightarrow>
          let n = (if i < 0 then iwrap (i + int (YogArray_size self)) else i)
          in if n < 0 \<or> YogArray_size self \<le> to_uint n
             then Inl (IndexError ''Array index out of range'')
             else YogArray_at self (to_uint n)
      | _ \<Rightarrow> Inl (TypeError ''Index must be Fixnum''))"

definition array_subscript :: "'o yarray arr_obj yval \<Rightarrow> 'o yval \<Rightarrow> 'o yval res" where
  "array_subscript self index = check_self_array self (\<lambda>a. YogArray_subscript a index)"

text \<open>
  \<^verbatim>\<open>init\<close>: \<open>sz\<close> and \<open>block\<close> are optional arguments. A block without a size makes the code follow
  the missing handle.
\<close>

definition array_init ::
  "'o yarray arr_obj yval \<Rightarrow> 'o yval option
     \<Rightarrow> (int \<Rightarrow> 'o yarray \<times> 's \<Rightarrow> ('o yval \<times> 'o yarray \<times> 's) res) option \<Rightarrow> 's
     \<Rightarrow> ('o yarray \<times> 's) res"
where
  "array_init self sz block s =
     check_self_array self (\<lambda>a.
     res_bind (case sz of None \<Rightarrow> Inr 0 | Some (YFixnum n) \<Rightarrow> Inr n
               | Some _ \<Rightarrow> Inl (TypeError ''%s must be %s, not %C'')) (\<lambda>n.
       if n < 0 then Inl (ValueError ''size must be positive, not %d'')
       else
         res_bind (YogValArray_new (nat n)) (\<lambda>body.
         let a1 = a\<lparr>a_body := body, a_size := nat n\<rparr>
         in case block of
              None \<Rightarrow> Inr (a1, s)
            | Some f \<Rightarrow>
                if sz = None then Inl MemFault
                else foldM (\<lambda>i (arr, t).
                  res_bind (f (int i) (arr, t)) (\<lambda>(val, arr', t').
                  res_bind (array_assign arr' (int i) val) (\<lambda>arr''. Inr (arr'', t'))))
                  [0..<nat n] (a1, s))))"

text \<open>\<^verbatim>\<open>get\<close> takes the integer of the tagged index without asking whether it is a Fixnum.\<close>

definition array_get ::
  "'o yarray arr_obj yval \<Rightarrow> YogVal \<Rightarrow> 'o yval \<Rightarrow> 'o yval res" where
  "array_get self index dflt =
     check_self_array self (\<lambda>a.
       let n = VAL2INT index
       in if n < 0 \<or> YogArray_size a \<le> to_uint n then Inr dflt else YogArray_at a (to_uint n))"

definition array_each ::
  "'o yarray \<Rightarrow> ('o yval \<Rightarrow> 'o yarray \<times> 's \<Rightarrow> ('o yarray \<times> 's) res) \<Rightarrow> 's
     \<Rightarrow> ('o yarray \<times> 's) res"
where
  "array_each self block s =
     foldM (\<lambda>i (a, t). res_bind (YogArray_at a i) (\<lambda>v. block v (a, t)))
       [0..<YogArray_size self] (self, s)"

definition array_get_empty :: "'o yarray arr_obj yval \<Rightarrow> bool res" where
  "array_get_empty self =
     check_self_array self (\<lambda>a. if YogArray_size a < 1 then Inr True else Inr False)"

definition array_get_size :: "'o yarray \<Rightarrow> 'o yval" where
  "array_get_size self = int2val (int (YogArray_size self))"

definition YogArray_shift :: "'o yarray \<Rightarrow> ('o yval \<times> 'o yarray) res" where
  "YogArray_shift self =
     (let n = YogArray_size self
      in if \<not> 0 < n then Inl (YogBug ''array is empty'')
         else
           res_bind (YogArray_at self 0) (\<lambda>retval.
           res_bind (foldM (\<lambda>i b. res_bind (YogValArray_at b i) (\<lambda>elem. mem_store b (i - 1) elem))
                       [1..<n] (a_body self)) (\<lambda>body.
           res_bind (mem_store body (n - 1) YUndef) (\<lambda>body'.
             Inr (retval, self\<lparr>a_body := body', a_size := n - 1\<rparr>)))))"

definition array_shift :: "'o yarray arr_obj yval \<Rightarrow> ('o yval \<times> 'o yarray) res" where
  "array_shift self =
     check_self_array self (\<lambda>a.
       if YogArray_size a < 1 then Inl (IndexError ''shift from empty array'')
       else YogArray_shift a)"

definition YogArray_pop :: "'o yarray \<Rightarrow> ('o yval \<times> 'o yarray) res" where
  "YogArray_pop self =
     (let n = YogArray_size self
      in if n < 1 then Inl (IndexError ''pop from empty list'')
         else res_bind (YogArray_at self (n - 1)) (\<lambda>retval.
                Inr (retval, self\<lparr>a_size := n - 1\<rparr>)))"

definition array_pop :: "'o yarray arr_obj yval \<Rightarrow> ('o yval \<times> 'o yarray) res" where
  "array_pop self = check_self_array self YogArray_pop"

definition array_unshift :: "'o yarray arr_obj yval \<Rightarrow> 'o yval \<Rightarrow> 'o yarray res" where
  "array_unshift self obj =
     check_self_array self (\<lambda>a.
       let n = YogArray_size a
       in res_bind (ensure_body_size a (uwrap (n + 1))) (\<lambda>a1.
          res_bind (foldM (\<lambda>i b. res_bind (YogValArray_at b (i - 1)) (\<lambda>val. mem_store b i val))
                      (rev [1..<n + 1]) (a_body a1)) (\<lambda>body.
          res_bind (mem_store body 0 obj) (\<lambda>body'.
            Inr (a1\<lparr>a_body := body', a_size := uwrap (a_size a1 + 1)\<rparr>)))))"

section \<open>Loops over a body\<close>

lemma copy_body_ok:
  assumes "offset + n \<le> length new" "n \<le> length old"
  shows "copy_body new old n offset = Inr (take offset new @ take n old @ drop (offset + n) new)"
  using assms
proof (induction n)
  case (Suc n)
  then have "copy_body new old n offset = Inr (take offset new @ take n old @ drop (offset + n) new)"
    by simp
  then show ?case using Suc.prems
    by (simp add: copy_body_def foldM_append list_update_append take_Suc_conv_app_nth
        flip: Cons_nth_drop_Suc)
qed (simp add: copy_body_def)

lemma copy_body_fault:
  assumes "i < n" "n \<le> length old" "length new = offset + i"
  shows "copy_body new old n offset = Inl MemFault"
proof -
  have u: "[0..<n] = [0..<i] @ [i..<n]" "[i..<n] = i # [Suc i..<n]"
    using assms(1) upt_add_eq_append[of 0 i "n - i"] by (simp_all add: upt_conv_Cons del: upt_Suc)
  have "copy_body new old i offset = Inr (take offset new @ take i old @ drop (offset + i) new)"
    using assms by (intro copy_body_ok) auto
  then show ?thesis using assms
    by (simp add: copy_body_def u(1) foldM_append) (simp add: u(2) mem_store_fault)
qed

lemma shift_loop_Suc:
  assumes "Suc m \<le> length b"
  shows "foldM (\<lambda>i b. res_bind (YogValArray_at b i) (\<lambda>elem. mem_store b (i - 1) elem)) [1..<Suc m] b
    = Inr (take m (tl b) @ drop m b)"
  using assms
proof (induction m)
  case (Suc m)
  let ?b = "take m (tl b) @ drop m b"
  have d: "drop m b = b ! m # b ! Suc m # drop (Suc (Suc m)) b"
    using Suc.prems by (simp add: Cons_nth_drop_Suc)
  then have "YogValArray_at ?b (Suc m) = Inr (b ! Suc m)"
    using Suc.prems by (simp add: YogValArray_at_def YogValArray_size_def nth_append)
  moreover have "?b[m := b ! Suc m] = take (Suc m) (tl b) @ drop (Suc m) b"
  proof -
    have "drop m b = b ! m # drop (Suc m) b" using Suc.prems by (simp add: Cons_nth_drop_Suc)
    then have "(drop m b)[0 := b ! Suc m] = b ! Suc m # drop (Suc m) b" by simp
    then show ?thesis using Suc.prems
      by (simp add: list_update_append take_Suc_conv_app_nth nth_tl)
  qed
  moreover have "m < length ?b" using Suc.prems by simp
  moreover have "[1..<Suc (Suc m)] = [1..<Suc m] @ [Suc m]" by simp
  ultimately show ?case using Suc.IH Suc.prems
    by (simp only: foldM_append) (simp add: mem_store_def)
qed simp

lemma shift_loop:
  assumes "1 \<le> n" "n \<le> length b"
  shows "foldM (\<lambda>i b. res_bind (YogValArray_at b i) (\<lambda>elem. mem_store b (i - 1) elem)) [1..<n] b
    = Inr (take (n - 1) (tl b) @ drop (n - 1) b)"
  using shift_loop_Suc[of "n - 1" b] assms by simp

lemma unshift_loop:
  assumes "n < length b"
  shows "foldM (\<lambda>i b. res_bind (YogValArray_at b (i - 1)) (\<lambda>val. mem_store b i val)) (rev [1..<n + 1]) b
    = Inr (take 1 b @ take n b @ drop (n + 1) b)"
  using assms
proof (induction n arbitrary: b)
  case 0
  then show ?case by (cases b) auto
next
  case (Suc n)
  let ?b = "b[Suc n := b ! n]"
  have "drop (n + 1) ?b = b ! n # drop (n + 2) b"
    using Suc.prems by (simp add: drop_update_swap Cons_nth_drop_Suc[symmetric])
  moreover have "take n ?b = take n b" "take 1 ?b = take 1 b" by simp_all
  moreover have "take (Suc n) b = take n b @ [b ! n]" using Suc.prems by (simp add: take_Suc_conv_app_nth)
  ultimately show ?case using Suc.prems Suc.IH[of ?b]
    by (simp add: YogValArray_at_def YogValArray_size_def)
qed

lemma multiple_size_spec:
  assumes "0 < cur" "cur \<le> 2 * mn" "mn \<le> 2 ^ 62"
  shows "\<exists>c. multiple_size mn cur 2 = Some c \<and> mn \<le> c \<and> c \<le> 2 * mn"
  using assms
proof (induction "mn - cur" arbitrary: cur rule: less_induct)
  case less
  show ?case
  proof (cases "cur < mn")
    case True
    have "uwrap (cur * 2) = cur * 2" using True less.prems by (intro uwrap_small) simp
    then show ?thesis using True less.prems less.hyps[of "cur * 2"]
      by (simp add: multiple_size.simps[of mn cur])
  next
    case False
    then show ?thesis using less.prems by (simp add: multiple_size.simps[of mn cur])
  qed
qed

section \<open>Arrays as lists\<close>

text \<open>The list that an array stands for; an array is well formed when it fits its body.\<close>

definition elems :: "'o yarray \<Rightarrow> 'o yval list" where
  "elems a = take (a_size a) (a_body a)"

definition array_ok :: "'o yarray \<Rightarrow> bool" where
  "array_ok a \<longleftrightarrow> a_size a \<le> length (a_body a) \<and> length (a_body a) < 2 ^ 61"

definition array_room :: "'o yarray \<Rightarrow> bool" where
  "array_room a \<longleftrightarrow> a_size a < 2 ^ 59"

lemma length_elems [simp]: "array_ok a \<Longrightarrow> length (elems a) = a_size a"
  by (simp add: array_ok_def elems_def)

lemma YogValArray_new_ok: "n < 2 ^ 61 \<Longrightarrow> YogValArray_new n = Inr (replicate n YNil)"
  by (simp add: YogValArray_new_def check_multiply_ok)

lemma ensure_body_size_ok:
  assumes ok: "array_ok a" and n: "n \<le> 2 ^ 59"
    and grow: "length (a_body a) = 0 \<Longrightarrow> n \<le> 1"
  shows "\<exists>a'. ensure_body_size a n = Inr a' \<and> array_ok a' \<and> a_size a' = a_size a
    \<and> n \<le> length (a_body a') \<and> elems a' = elems a \<and> length (a_body a) \<le> length (a_body a')"
proof (cases "length (a_body a) < n")
  case False
  then show ?thesis using ok by (simp add: ensure_body_size_def YogValArray_size_def)
next
  case True
  obtain c where c: "get_next_size n (length (a_body a)) 2 = Some c" "n \<le> c" "c < 2 ^ 61"
  proof (cases "length (a_body a) = 0")
    case z: True
    show ?thesis using that[of 1] grow[OF z] z by (simp add: get_next_size_def)
  next
    case False
    then obtain c where c: "multiple_size n (length (a_body a)) 2 = Some c" "n \<le> c" "c \<le> 2 * n"
      using multiple_size_spec[of "length (a_body a)" n] True n by auto
    show ?thesis using that[of c] c n False by (simp add: get_next_size_def)
  qed
  have s: "a_size a \<le> length (a_body a)" using ok by (simp add: array_ok_def)
  have "copy_body (replicate c YNil) (a_body a) (a_size a) 0
      = Inr (take (a_size a) (a_body a) @ drop (a_size a) (replicate c YNil))"
    using copy_body_ok[of 0 "a_size a" "replicate c YNil" "a_body a"] s True c by simp
  then show ?thesis using True c s
    by (auto simp: ensure_body_size_def YogValArray_size_def YogValArray_new_ok array_ok_def elems_def)
qed

lemma grow_by_one:
  assumes "array_ok a" "array_room a"
  shows "\<exists>a'. ensure_body_size a (a_size a + 1) = Inr a' \<and> array_ok a' \<and> a_size a' = a_size a
    \<and> a_size a + 1 \<le> length (a_body a') \<and> elems a' = elems a"
proof -
  have "a_size a + 1 \<le> 2 ^ 59" "length (a_body a) = 0 \<Longrightarrow> a_size a + 1 \<le> 1"
    using assms by (auto simp: array_room_def array_ok_def)
  from ensure_body_size_ok[OF assms(1) this] show ?thesis by blast
qed

lemma push_ok:
  assumes ok: "array_ok a" and room: "array_room a"
  shows "\<exists>a'. YogArray_push a v = Inr a' \<and> array_ok a' \<and> elems a' = elems a @ [v]
    \<and> a_size a' = a_size a + 1"
proof -
  let ?n = "a_size a"
  have u: "uwrap (?n + 1) = ?n + 1" using room by (intro uwrap_small) (simp add: array_room_def)
  obtain a1 where a1: "ensure_body_size a (?n + 1) = Inr a1" "array_ok a1" "a_size a1 = ?n"
    "?n + 1 \<le> length (a_body a1)" "elems a1 = elems a"
    using grow_by_one[OF ok room] by blast
  show ?thesis
  proof (intro exI[of _ "a1\<lparr>a_body := (a_body a1)[?n := v], a_size := ?n + 1\<rparr>"] conjI)
    show "YogArray_push a v = Inr (a1\<lparr>a_body := (a_body a1)[?n := v], a_size := ?n + 1\<rparr>)"
      using u a1 by (simp add: YogArray_push_def YogArray_size_def)
    show "elems (a1\<lparr>a_body := (a_body a1)[?n := v], a_size := ?n + 1\<rparr>) = elems a @ [v]"
      using a1(3-5) by (simp add: elems_def take_Suc_conv_app_nth)
  qed (use a1 in \<open>simp_all add: array_ok_def\<close>)
qed

lemma pop_ok:
  assumes "array_ok a" "elems a \<noteq> []"
  shows "\<exists>a'. YogArray_pop a = Inr (last (elems a), a') \<and> array_ok a' \<and> elems a' = butlast (elems a)
    \<and> a_size a' = a_size a - 1"
  using assms
  by (auto simp: YogArray_pop_def YogArray_size_def YogArray_at_def YogValArray_at_def
      YogValArray_size_def array_ok_def elems_def Let_def last_conv_nth butlast_take)

lemma shift_ok:
  assumes ok: "array_ok a" and ne: "elems a \<noteq> []"
  shows "\<exists>a'. YogArray_shift a = Inr (hd (elems a), a') \<and> array_ok a' \<and> elems a' = tl (elems a)
    \<and> a_size a' = a_size a - 1"
proof -
  let ?n = "a_size a" and ?b = "a_body a"
  have n: "1 \<le> ?n" "?n \<le> length ?b" using ok ne by (auto simp: array_ok_def elems_def)
  let ?b' = "(take (?n - 1) (tl ?b) @ drop (?n - 1) ?b)[?n - 1 := YUndef]"
  have "YogArray_shift a = Inr (hd (elems a), a\<lparr>a_body := ?b', a_size := ?n - 1\<rparr>)"
    using n shift_loop[OF n]
    by (auto simp: YogArray_shift_def YogArray_size_def YogArray_at_def YogValArray_at_def
        YogValArray_size_def Let_def elems_def hd_conv_nth)
  moreover have "elems (a\<lparr>a_body := ?b', a_size := ?n - 1\<rparr>) = tl (elems a)"
    using n by (simp add: elems_def list_update_append tl_take)
  ultimately show ?thesis using ok n by (auto simp: array_ok_def)
qed

lemma unshift_ok:
  assumes ok: "array_ok a" and room: "array_room a"
  shows "\<exists>a'. array_unshift (YPtr (OArray a)) v = Inr a' \<and> array_ok a' \<and> elems a' = v # elems a
    \<and> a_size a' = a_size a + 1"
proof -
  let ?n = "a_size a"
  have u: "uwrap (?n + 1) = ?n + 1" using room by (intro uwrap_small) (simp add: array_room_def)
  obtain a1 where a1: "ensure_body_size a (?n + 1) = Inr a1" "array_ok a1" "a_size a1 = ?n"
    "?n + 1 \<le> length (a_body a1)" "elems a1 = elems a"
    using grow_by_one[OF ok room] by blast
  let ?b = "a_body a1"
  have b: "?n < length ?b" "?b \<noteq> []" using a1(4) by auto
  let ?b' = "(take 1 ?b @ take ?n ?b @ drop (?n + 1) ?b)[0 := v]"
  have l: "length ?b' = length ?b" using b by auto
  have "array_unshift (YPtr (OArray a)) v = Inr (a1\<lparr>a_body := ?b', a_size := ?n + 1\<rparr>)"
    using u a1 b unshift_loop[OF b(1)] l
    by (simp add: array_unshift_def check_self_array_def YogArray_size_def Let_def)
  moreover have "elems (a1\<lparr>a_body := ?b', a_size := ?n + 1\<rparr>) = v # elems a"
    using b a1(3,5) ok by (cases ?b) (simp_all add: elems_def array_ok_def)
  ultimately show ?thesis using a1(2,4) l by (auto simp: array_ok_def)
qed

section \<open>The array is a sequence\<close>

interpretation arr: sequence array_ok a_size "2 ^ 59" elems YogArray_push YogArray_pop YogArray_shift
  "\<lambda>a v. array_unshift (YPtr (OArray a)) v"
proof
  show "array_ok a \<Longrightarrow> a_size a = length (elems a)" for a :: "'a yarray" by simp
qed (use push_ok pop_ok shift_ok unshift_ok in \<open>fastforce simp: array_room_def\<close>)+

section \<open>Properties\<close>

definition sample_array :: "nat yarray" where
  "sample_array = \<lparr>a_size = 2, a_body = [YFixnum 4, YNil, YUndef]\<rparr>"

lemma sample_array_ok: "array_ok sample_array" "elems sample_array = [YFixnum 4, YNil]"
  "a_size sample_array = 2"
  by (simp_all add: sample_array_def array_ok_def elems_def)

text \<open>C26: the operations at the ends of an array are those of a list: push appends, unshift
  prepends, pop and shift take the last and the first element and leave the others in order, the
  body is replaced when it is too small and no access leaves it.\<close>

theorem array_ends_are_list_ends:
  assumes "array_ok a" "a_size a < 2 ^ 59"
  shows "(\<exists>b. YogArray_push a v = Inr b \<and> array_ok b \<and> elems b = elems a @ [v])
    \<and> (\<exists>b. array_unshift (YPtr (OArray a)) v = Inr b \<and> array_ok b \<and> elems b = v # elems a)
    \<and> (if elems a = [] then array_pop (YPtr (OArray a)) = Inl (IndexError ''pop from empty list'')
          \<and> array_shift (YPtr (OArray a)) = Inl (IndexError ''shift from empty array'')
       else (\<exists>b. array_pop (YPtr (OArray a)) = Inr (last (elems a), b) \<and> array_ok b
                \<and> elems b = butlast (elems a))
          \<and> (\<exists>b. array_shift (YPtr (OArray a)) = Inr (hd (elems a), b) \<and> array_ok b
                \<and> elems b = tl (elems a)))"
proof -
  have "\<exists>b. YogArray_push a v = Inr b \<and> array_ok b \<and> elems b = elems a @ [v]"
    using arr.push_law[OF assms] .
  moreover have "\<exists>b. array_unshift (YPtr (OArray a)) v = Inr b \<and> array_ok b \<and> elems b = v # elems a"
    using arr.unshift_law[OF assms] .
  moreover have "array_pop (YPtr (OArray a)) = Inl (IndexError ''pop from empty list'')
      \<and> array_shift (YPtr (OArray a)) = Inl (IndexError ''shift from empty array'')"
    if "elems a = []"
    using arr.size_elems[OF assms(1)] that
    by (simp add: array_pop_def array_shift_def check_self_array_def YogArray_pop_def YogArray_size_def)
  moreover have "a_size a = 0 \<longleftrightarrow> elems a = []" using arr.size_elems[OF assms(1)] by simp
  ultimately show ?thesis using arr.pop_law[OF assms(1)] arr.shift_law[OF assms(1)]
    by (auto simp: array_pop_def array_shift_def check_self_array_def YogArray_size_def)
qed

theorem array_ends_are_list_ends_witness:
  "(\<exists>b. YogArray_push sample_array YNil = Inr b \<and> array_ok b \<and> elems b = elems sample_array @ [YNil])
    \<and> (\<exists>b. array_unshift (YPtr (OArray sample_array)) YNil = Inr b \<and> array_ok b
          \<and> elems b = YNil # elems sample_array)
    \<and> (if elems sample_array = []
       then array_pop (YPtr (OArray sample_array)) = Inl (IndexError ''pop from empty list'')
          \<and> array_shift (YPtr (OArray sample_array)) = Inl (IndexError ''shift from empty array'')
       else (\<exists>b. array_pop (YPtr (OArray sample_array)) = Inr (last (elems sample_array), b) \<and> array_ok b
                \<and> elems b = butlast (elems sample_array))
          \<and> (\<exists>b. array_shift (YPtr (OArray sample_array)) = Inr (hd (elems sample_array), b) \<and> array_ok b
                \<and> elems b = tl (elems sample_array)))"
  by (rule array_ends_are_list_ends) (simp_all add: sample_array_ok)

text \<open>Indexing. An index from minus the size up to the size minus one addresses the element that
  it does in a list (negative ones count from the end), assignment replaces just that element, and
  any other index raises IndexError and changes nothing.\<close>

lemma array_index_in_range:
  assumes "array_ok a" "FIXABLE i"
  shows "if - int (a_size a) \<le> i \<and> i < int (a_size a) then
      array_subscript (YPtr (OArray a)) (YFixnum i) =
        Inr (elems a ! nat (if i < 0 then i + int (a_size a) else i))
      \<and> (\<exists>b. array_assign_subscript (YPtr (OArray a)) (YFixnum i) v = Inr b \<and> array_ok b
          \<and> elems b = (elems a)[nat (if i < 0 then i + int (a_size a) else i) := v])
    else array_subscript (YPtr (OArray a)) (YFixnum i) = Inl (IndexError ''Array index out of range'')
      \<and> array_assign_subscript (YPtr (OArray a)) (YFixnum i) v =
          Inl (IndexError ''Array assignment index (%d) out of range (%u)'')"
proof -
  have n: "a_size a \<le> length (a_body a)" "int (a_size a) < 2 ^ 61"
    using assms(1) by (auto simp: array_ok_def)
  define m where "m = (if i < 0 then i + int (a_size a) else i)"
  have w: "iwrap (i + int (a_size a)) = i + int (a_size a)"
    using n assms(2) by (intro iwrap_small) (simp_all add: FIXABLE_iff)
  have u: "to_uint m = nat m" if "0 \<le> m"
    using that n assms(2) by (intro to_uint_nonneg) (auto simp: m_def FIXABLE_iff split: if_splits)
  have sub: "array_subscript (YPtr (OArray a)) (YFixnum i) =
      (if m < 0 \<or> a_size a \<le> to_uint m then Inl (IndexError ''Array index out of range'')
       else YogArray_at a (to_uint m))"
    using w by (simp add: array_subscript_def check_self_array_def YogArray_subscript_def
        YogArray_size_def m_def Let_def)
  have asg: "array_assign_subscript (YPtr (OArray a)) (YFixnum i) v =
      (if m < 0 \<or> a_size a \<le> to_uint m
       then Inl (IndexError ''Array assignment index (%d) out of range (%u)'')
       else res_bind (mem_store (a_body a) (nat m) v) (\<lambda>body. Inr (a\<lparr>a_body := body\<rparr>)))"
    using w by (simp add: array_assign_subscript_def check_self_array_def array_assign_def
        normalize_index_def YogArray_size_def m_def Let_def add.commute)
  show ?thesis
  proof (cases "- int (a_size a) \<le> i \<and> i < int (a_size a)")
    case True
    then have m: "0 \<le> m" "nat m < a_size a" by (auto simp: m_def)
    have "YogArray_at a (nat m) = Inr (elems a ! nat m)"
      using m n by (simp add: YogArray_at_def YogValArray_at_def YogValArray_size_def elems_def)
    moreover have "array_ok (a\<lparr>a_body := (a_body a)[nat m := v]\<rparr>)" using assms(1) by (simp add: array_ok_def)
    moreover have "elems (a\<lparr>a_body := (a_body a)[nat m := v]\<rparr>) = (elems a)[nat m := v]"
      by (simp add: elems_def take_update_swap)
    ultimately show ?thesis using True m n sub asg u by (simp flip: m_def)
  next
    case False
    then have "m < 0 \<or> a_size a \<le> to_uint m" using u by (cases "m < 0") (auto simp: m_def)
    then show ?thesis using False sub asg by auto
  qed
qed

lemma array_index_in_range_instance:
  "if - int (a_size sample_array) \<le> - 1 \<and> - 1 < int (a_size sample_array) then
      array_subscript (YPtr (OArray sample_array)) (YFixnum (- 1)) =
        Inr (elems sample_array ! nat (if (- 1 :: int) < 0 then - 1 + int (a_size sample_array) else - 1))
      \<and> (\<exists>b. array_assign_subscript (YPtr (OArray sample_array)) (YFixnum (- 1)) YNil = Inr b \<and> array_ok b
          \<and> elems b = (elems sample_array)
              [nat (if (- 1 :: int) < 0 then - 1 + int (a_size sample_array) else - 1) := YNil])
    else array_subscript (YPtr (OArray sample_array)) (YFixnum (- 1)) =
        Inl (IndexError ''Array index out of range'')
      \<and> array_assign_subscript (YPtr (OArray sample_array)) (YFixnum (- 1)) YNil =
          Inl (IndexError ''Array assignment index (%d) out of range (%u)'')"
  by (rule array_index_in_range) (simp_all add: sample_array_ok FIXABLE_iff)

text \<open>The sum of two arrays is a new array with the elements of the left and then those of the
  right operand, and both operands keep theirs.\<close>

lemma array_add_appends:
  fixes a b :: "'o yarray"
  assumes "array_ok a" "array_ok b" "a_size a + a_size b \<le> 2 ^ 59"
  shows "\<exists>c. array_add (YPtr (OArray a)) (YPtr (OArray b)) = Inr c \<and> array_ok c
    \<and> elems c = elems a @ elems b"
proof -
  have step: "YogArray_add c x = foldM (\<lambda>e c. YogArray_push c e) (elems x) c" if "array_ok x"
    for c x :: "'o yarray"
  proof -
    have "foldM (\<lambda>i a. res_bind (YogArray_at x i) (\<lambda>val. YogArray_push a val)) is c
        = foldM (\<lambda>i a. YogArray_push a (elems x ! i)) is c"
      if "set is \<subseteq> {..<a_size x}" for "is" c
      using that
    proof (induction "is" arbitrary: c)
      case (Cons i js)
      then have "YogArray_at x i = Inr (elems x ! i)"
        using \<open>array_ok x\<close>
        by (simp add: YogArray_at_def YogValArray_at_def YogValArray_size_def elems_def array_ok_def)
      then show ?case using Cons by (cases "YogArray_push c (elems x ! i)") simp_all
    qed simp
    moreover have "map (\<lambda>i. elems x ! i) [0..<a_size x] = elems x"
      using map_nth[of "elems x"] that by simp
    then have "foldM (\<lambda>e c. YogArray_push c e) (elems x) c
        = foldM (\<lambda>i c. YogArray_push c (elems x ! i)) [0..<a_size x] c"
      using foldM_map[of "\<lambda>e c. YogArray_push c e" "\<lambda>i. elems x ! i" "[0..<a_size x]" c] by simp
    ultimately show ?thesis
      by (simp add: YogArray_add_def YogArray_size_def atLeast0LessThan)
  qed
  have "2 ^ 0 < (2 ^ 61 :: nat)" by simp
  then obtain c0 :: "'o yarray" where c0: "YogArray_new = Inr c0" "array_ok c0" "elems c0 = []" "a_size c0 = 0"
    by (simp add: YogArray_new_def YogArray_of_size_def array_alloc_obj_def YogValArray_new_ok
        array_ok_def elems_def)
  obtain c1 where c1: "YogArray_add c0 a = Inr c1" "array_ok c1" "elems c1 = elems a"
    using arr.push_all[OF c0(2), of "elems a"] assms c0 by (auto simp: step)
  obtain c2 where c2: "YogArray_add c1 b = Inr c2" "array_ok c2" "elems c2 = elems a @ elems b"
    using arr.push_all[OF c1(2), of "elems b"] assms c1 arr.size_elems[OF c1(2)] by (auto simp: step)
  show ?thesis using c1(1) c2 by (auto simp: array_add_def check_self_array_def c0(1))
qed

lemma array_add_appends_instance:
  "\<exists>c. array_add (YPtr (OArray sample_array)) (YPtr (OArray sample_array)) = Inr c \<and> array_ok c
    \<and> elems c = elems sample_array @ elems sample_array"
  by (rule array_add_appends) (simp_all add: sample_array_ok)

text \<open>An array used as a queue returns what was pushed, in the order of the pushes, whatever it
  held before and however often its body is replaced in between.\<close>

lemma array_queue_order:
  assumes "array_ok a" "elems a = []" "length vs \<le> 2 ^ 59"
  shows "\<exists>b c. foldM (\<lambda>e s. YogArray_push s e) vs a = Inr b
    \<and> drain YogArray_shift (length vs) b = Inr (vs, c) \<and> array_ok c \<and> elems c = []"
proof -
  have "a_size a + length vs \<le> 2 ^ 59" using assms arr.size_elems[OF assms(1)] by simp
  then obtain b where b: "foldM (\<lambda>e s. YogArray_push s e) vs a = Inr b" "array_ok b" "elems b = vs"
    using arr.push_all[OF assms(1)] assms(2) by auto
  then show ?thesis using arr.drain_elems[OF b(2), of "length vs"] by auto
qed

lemma array_queue_order_instance:
  "\<exists>b c. foldM (\<lambda>e s. YogArray_push s e) [YFixnum 1, YNil, YFixnum 3] (\<lparr>a_size = 0, a_body = []\<rparr> :: nat yarray)
      = Inr b
    \<and> drain YogArray_shift (length [YFixnum 1, YNil, YFixnum 3]) b = Inr ([YFixnum 1, YNil, YFixnum 3], c)
    \<and> array_ok c \<and> elems c = []"
  using array_queue_order[of "\<lparr>a_size = 0, a_body = []\<rparr> :: nat yarray" "[YFixnum 1, YNil, YFixnum 3]"]
  by (simp add: array_ok_def elems_def del: foldM.simps drain.simps)

text \<open>Extending an array whose body has no items writes past the body that ensure_body_size
  makes: it grows to one item, however many are needed.\<close>

lemma array_extend_overruns_empty_body:
  fixes b :: "'o yarray"
  assumes "2 \<le> a_size b" "array_ok b"
  shows "YogArray_extend \<lparr>a_size = 0, a_body = []\<rparr> b = Inl MemFault"
proof -
  have u: "uwrap (a_size b) = a_size b"
    using assms by (intro uwrap_small) (simp add: array_ok_def)
  have "ensure_body_size (\<lparr>a_size = 0, a_body = []\<rparr> :: 'o yarray) (a_size b) = Inr \<lparr>a_size = 0, a_body = [YNil]\<rparr>"
    using assms by (simp add: ensure_body_size_def YogValArray_size_def get_next_size_def
        YogValArray_new_ok copy_body_def)
  then show ?thesis using u copy_body_fault[of 1 "a_size b" "a_body b" "[YNil]" 0] assms
    by (simp add: YogArray_extend_def YogArray_size_def Let_def array_ok_def)
qed

lemma array_extend_overruns_empty_body_instance:
  "YogArray_extend \<lparr>a_size = 0, a_body = []\<rparr> sample_array = Inl MemFault"
  by (rule array_extend_overruns_empty_body) (simp_all add: sample_array_ok)

text \<open>Get does not check its index: with nil as the index it answers the element at 3, the
  integer in the tag bits of nil.\<close>

lemma array_get_takes_nil:
  assumes "array_ok a" "3 < a_size a"
  shows "array_get (YPtr (OArray a)) YNIL dflt = Inr (elems a ! 3)"
proof -
  have "VAL2INT YNIL = 3" by code_simp
  then show ?thesis using assms
    by (simp add: array_get_def check_self_array_def YogArray_size_def YogArray_at_def
        YogValArray_at_def YogValArray_size_def elems_def array_ok_def)
qed

lemma array_get_takes_nil_instance:
  "array_get (YPtr (OArray \<lparr>a_size = 4, a_body = [YNil, YNil, YNil, YFixnum 8]\<rparr>)) YNIL YUndef =
   Inr (elems \<lparr>a_size = 4, a_body = [YNil, YNil, YNil, YFixnum 8]\<rparr> ! 3)"
  by (rule array_get_takes_nil) (simp_all add: array_ok_def)

end
