(* ===== verification/YogEncoding.thy ===== *)
theory YogEncoding
  imports YogPrelude
begin

text \<open>
  \<^verbatim>\<open>src/encoding.c\<close>: the conversions between byte strings and strings of \<^verbatim>\<open>YogChar\<close> (32 bit
  unsigned code points). A byte string is a list of \<open>8 word\<close>; a C \<^verbatim>\<open>char\<close> is signed on the
  supported platform, so that a byte that the code widens without a cast is sign extended.
  A pointer into a byte string is the string with an offset. The conversion tables that the build
  generates (\<^verbatim>\<open>*.inc\<close>) are parameters.
\<close>

type_synonym byte = "8 word"
type_synonym YogChar = "32 word"

section \<open>The functions of an encoding\<close>

record encoding =
  get_char_bytes :: "byte list \<Rightarrow> nat \<Rightarrow> nat res"
  conv_char_to_yog :: "byte list \<Rightarrow> nat \<Rightarrow> YogChar res"
  get_yog_char_bytes :: "YogChar \<Rightarrow> nat res"
  conv_char_from_yog :: "YogChar \<Rightarrow> byte list \<Rightarrow> nat \<Rightarrow> (nat \<times> byte list) res"
  max_size :: nat

text \<open>Bytes as the operands of the C expressions: unsigned, and signed.\<close>

definition uchar :: "byte \<Rightarrow> nat" where "uchar b = unat b"
definition schar :: "byte \<Rightarrow> YogChar" where "schar b = scast b"

definition isascii :: "YogChar \<Rightarrow> bool" where "isascii c \<longleftrightarrow> c < 0x80"

text \<open>The bit fields of \<^verbatim>\<open>GET_n_BITS(s[i]) << k\<close>.\<close>

definition bits_shift :: "byte \<Rightarrow> byte \<Rightarrow> nat \<Rightarrow> YogChar" where
  "bits_shift b m k = push_bit k (ucast (b AND m))"

section \<open>Whole strings\<close>

text \<open>\<open>fuel\<close> bounds the rounds of the loop; a round that does not advance would repeat for ever.\<close>

fun count_chars_loop :: "nat \<Rightarrow> encoding \<Rightarrow> byte list \<Rightarrow> nat \<Rightarrow> nat \<Rightarrow> nat \<Rightarrow> nat res" where
  "count_chars_loop 0 enc s pc end_p n = (if pc < end_p then Inl NoReturn else Inr n)"
| "count_chars_loop (Suc fuel) enc s pc end_p n =
     (if pc < end_p
      then res_bind (get_char_bytes enc s pc) (\<lambda>k. count_chars_loop fuel enc s (pc + k) end_p (n + 1))
      else Inr n)"

definition count_chars :: "encoding \<Rightarrow> byte list \<Rightarrow> nat \<Rightarrow> nat \<Rightarrow> nat res" where
  "count_chars enc s begin_p end_p = count_chars_loop (end_p - begin_p) enc s begin_p end_p 0"

definition compute_bytes :: "encoding \<Rightarrow> YogChar list \<Rightarrow> nat res" where
  "compute_bytes enc s =
     foldM (\<lambda>c n. res_bind (get_yog_char_bytes enc c) (\<lambda>k. Inr (uwrap (n + k)))) s 0"

text \<open>
  \<^verbatim>\<open>YogEncoding_conv_from_yog\<close> returns the body of the new Binary and its size, which counts the
  terminating NUL. The contents of fresh memory do not matter: \<open>0\<close> here.
\<close>

definition conv_from_yog :: "encoding \<Rightarrow> YogChar list \<Rightarrow> (byte list \<times> nat) res" where
  "conv_from_yog enc s =
     res_bind (compute_bytes enc s) (\<lambda>bytes_num.
     res_bind (foldM (\<lambda>c (pc, buf). res_bind (conv_char_from_yog enc c buf pc) (\<lambda>(k, buf').
                 Inr (pc + k, buf'))) s (0, replicate (bytes_num + 1) 0)) (\<lambda>(pc, buf).
     res_bind (mem_store buf pc 0) (\<lambda>buf'. Inr (buf', pc + 1))))"

definition conv_to_yog :: "encoding \<Rightarrow> byte list \<Rightarrow> nat \<Rightarrow> nat \<Rightarrow> YogChar list res" where
  "conv_to_yog enc s begin_p end_p =
     res_bind (count_chars enc s begin_p end_p) (\<lambda>chars_num.
     res_bind (foldM (\<lambda>i (pc, cs).
                 res_bind (conv_char_to_yog enc s pc) (\<lambda>c.
                 res_bind (mem_store cs i c) (\<lambda>cs'.
                 res_bind (get_char_bytes enc s pc) (\<lambda>k. Inr (pc + k, cs')))))
                 [0..<chars_num] (begin_p, replicate chars_num 0)) (\<lambda>(pc, cs).
       Inr cs))"

text \<open>\<^verbatim>\<open>tolower\<close> of the C library in the C locale, and the name of an encoding in lower case with
  hyphens.\<close>

definition c_tolower :: "YogChar \<Rightarrow> YogChar" where
  "c_tolower c = (if 0x41 \<le> c \<and> c \<le> 0x5a then c + 0x20 else c)"

definition normalize_name :: "YogChar list \<Rightarrow> YogChar list" where
  "normalize_name name = map (\<lambda>c. if c = 0x5f then 0x2d else c_tolower c) name"

section \<open>UTF-8\<close>

definition utf8_get_char_bytes :: "byte list \<Rightarrow> nat \<Rightarrow> nat res" where
  "utf8_get_char_bytes s p =
     res_bind (mem_load s p) (\<lambda>b.
       if b AND 0xfc = 0xfc then Inr 6
       else if b AND 0xf8 = 0xf8 then Inr 5
       else if b AND 0xf0 = 0xf0 then Inr 4
       else if b AND 0xe0 = 0xe0 then Inr 3
       else if b AND 0xc0 = 0xc0 then Inr 2
       else Inr 1)"

definition utf8_conv_char_to_yog :: "byte list \<Rightarrow> nat \<Rightarrow> YogChar res" where
  "utf8_conv_char_to_yog s p =
     res_bind (utf8_get_char_bytes s p) (\<lambda>n.
     res_bind (mem_load s p) (\<lambda>s0.
       if n = 1 then Inr (schar s0)
       else res_bind (mem_load s (p + 1)) (\<lambda>s1.
         if n = 2 then Inr (bits_shift s0 0x1f 6 + bits_shift s1 0x3f 0)
         else res_bind (mem_load s (p + 2)) (\<lambda>s2.
           if n = 3 then Inr (bits_shift s0 0x0f 12 + bits_shift s1 0x3f 6 + bits_shift s2 0x3f 0)
           else res_bind (mem_load s (p + 3)) (\<lambda>s3.
             if n = 4 then Inr (bits_shift s0 0x07 18 + bits_shift s1 0x3f 12
                                + bits_shift s2 0x3f 12 + bits_shift s3 0x3f 0)
             else res_bind (mem_load s (p + 4)) (\<lambda>s4.
               if n = 5 then Inr (bits_shift s0 0x03 24 + bits_shift s1 0x3f 18
                                  + bits_shift s2 0x3f 12 + bits_shift s3 0x3f 6 + bits_shift s4 0x3f 0)
               else res_bind (mem_load s (p + 5)) (\<lambda>s5.
                 if n = 6 then Inr (bits_shift s0 0x01 30 + bits_shift s1 0x03 24
                                    + bits_shift s2 0x3f 18 + bits_shift s3 0x3f 12
                                    + bits_shift s4 0x3f 6 + bits_shift s5 0x3f 0)
                 else Inr 0x3f)))))))"

definition utf8_get_yog_char_bytes :: "YogChar \<Rightarrow> nat res" where
  "utf8_get_yog_char_bytes c =
     (if isascii c then Inr 1
      else if c < 0x800 then Inr 2
      else if c < 0x10000 then Inr 3
      else if c < 0x200000 then Inr 4
      else if c < 0x4000000 then Inr 5
      else Inr 6)"

text \<open>Stores of consecutive bytes, each checked.\<close>

definition store_bytes :: "byte list \<Rightarrow> nat \<Rightarrow> byte list \<Rightarrow> (nat \<times> byte list) res" where
  "store_bytes dest p bs =
     res_bind (foldM (\<lambda>i d. mem_store d (p + i) (bs ! i)) [0..<length bs] dest)
       (\<lambda>d. Inr (length bs, d))"

text \<open>\<^verbatim>\<open>0x80 | ((c >> k) & 0x3f)\<close>, stored into a \<^verbatim>\<open>char\<close>.\<close>

definition cont_byte :: "YogChar \<Rightarrow> nat \<Rightarrow> byte" where
  "cont_byte c k = ucast (0x80 OR (drop_bit k c AND 0x3f))"

definition lead_byte :: "YogChar \<Rightarrow> YogChar \<Rightarrow> nat \<Rightarrow> byte" where
  "lead_byte m c k = ucast (m OR drop_bit k c)"

definition utf8_conv_char_from_yog :: "YogChar \<Rightarrow> byte list \<Rightarrow> nat \<Rightarrow> (nat \<times> byte list) res" where
  "utf8_conv_char_from_yog c dest p =
     (if isascii c then store_bytes dest p [ucast c]
      else if c < 0x800 then store_bytes dest p [lead_byte 0xc0 c 6, cont_byte c 0]
      else if c < 0x10000 then
        store_bytes dest p [lead_byte 0xe0 c 12, cont_byte c 6, cont_byte c 0]
      else if c < 0x200000 then
        store_bytes dest p [lead_byte 0xf0 c 18, cont_byte c 12, cont_byte c 6, cont_byte c 0]
      else if c < 0x4000000 then
        store_bytes dest p [lead_byte 0xf8 c 24, cont_byte c 18, cont_byte c 12, cont_byte c 6,
                            cont_byte c 0]
      else
        store_bytes dest p [lead_byte 0xfc c 30, cont_byte c 24, cont_byte c 18, cont_byte c 12,
                            cont_byte c 6, cont_byte c 0])"

definition create_utf8 :: encoding where
  "create_utf8 = \<lparr>get_char_bytes = utf8_get_char_bytes, conv_char_to_yog = utf8_conv_char_to_yog,
     get_yog_char_bytes = utf8_get_yog_char_bytes, conv_char_from_yog = utf8_conv_char_from_yog,
     max_size = 6\<rparr>"

section \<open>ASCII\<close>

definition ascii_get_char_bytes :: "byte list \<Rightarrow> nat \<Rightarrow> nat res" where
  "ascii_get_char_bytes s p = Inr 1"

definition ascii_conv_char_to_yog :: "byte list \<Rightarrow> nat \<Rightarrow> YogChar res" where
  "ascii_conv_char_to_yog s p = res_bind (mem_load s p) (\<lambda>b. Inr (schar b))"

definition ascii_get_yog_char_bytes :: "YogChar \<Rightarrow> nat res" where
  "ascii_get_yog_char_bytes c = Inr 1"

definition ascii_conv_char_from_yog :: "YogChar \<Rightarrow> byte list \<Rightarrow> nat \<Rightarrow> (nat \<times> byte list) res" where
  "ascii_conv_char_from_yog c dest p =
     res_bind (mem_store dest p (if isascii c then ucast c else 0x3f)) (\<lambda>d. Inr (1, d))"

definition create_ascii :: encoding where
  "create_ascii = \<lparr>get_char_bytes = ascii_get_char_bytes, conv_char_to_yog = ascii_conv_char_to_yog,
     get_yog_char_bytes = ascii_get_yog_char_bytes, conv_char_from_yog = ascii_conv_char_from_yog,
     max_size = 1\<rparr>"

section \<open>Tables of characters\<close>

text \<open>
  The tables from characters to bytes: two arrays and a sorted list for the rest, which is
  searched. A missing entry is the NULL pointer; so is a character that is not in the list.
  \<open>min\<close> and \<open>max\<close> are \<^verbatim>\<open>uint_t\<close>: below 0 the upper bound wraps, and the next probe is out of bounds.
\<close>

type_synonym yog_table = "(YogChar \<times> byte list) list"

fun binary_search :: "nat \<Rightarrow> yog_table \<Rightarrow> nat \<Rightarrow> nat \<Rightarrow> YogChar \<Rightarrow> byte list option res" where
  "binary_search 0 table min_p max_p c = Inl NoReturn"
| "binary_search (Suc fuel) table min_p max_p c =
     (if max_p < min_p then Inr None
      else let pos = uwrap (min_p + max_p) div 2
           in res_bind (mem_load table pos) (\<lambda>(tc, ts).
              if tc = c then Inr (Some ts)
              else if tc < c then binary_search fuel table (uwrap (pos + 1)) max_p c
              else binary_search fuel table min_p (usub pos 1) c))"

record yog2bin =
  tbl1 :: "byte list option list"
  tbl2 :: "byte list option list"
  tbl3 :: yog_table

text \<open>\<^verbatim>\<open>yog2shift_jis\<close> and \<^verbatim>\<open>yog2euc_jp\<close>, the same code on their own tables. The string literals are
  without their terminating NUL.\<close>

definition yog2shift_jis :: "yog2bin \<Rightarrow> YogChar \<Rightarrow> byte list option res" where
  "yog2shift_jis T c =
     (if 0xa0 \<le> c \<and> c \<le> 0x1ff then mem_load (tbl1 T) (unat (c - 0xa0))
      else if 0x250 \<le> c \<and> c \<le> 0x451 then mem_load (tbl2 T) (unat (c - 0x250))
      else if c < 0x1e3e \<or> 0x2a6b2 < c then Inr (Some [0x3f])
      else binary_search (Suc (length (tbl3 T))) (tbl3 T) 0 (usub (length (tbl3 T)) 1) c)"

definition yog2euc_jp :: "yog2bin \<Rightarrow> YogChar \<Rightarrow> byte list option res" where
  "yog2euc_jp T c =
     (if 0xa0 \<le> c \<and> c \<le> 0x1ff then mem_load (tbl1 T) (unat (c - 0xa0))
      else if 0x250 \<le> c \<and> c \<le> 0x451 then mem_load (tbl2 T) (unat (c - 0x250))
      else if c < 0x1e3e \<or> 0x2a6b2 < c then Inr (Some [0x3f])
      else binary_search (Suc (length (tbl3 T))) (tbl3 T) 0 (usub (length (tbl3 T)) 1) c)"

text \<open>\<^verbatim>\<open>strlen\<close> and \<^verbatim>\<open>copy_string\<close> on the result; NULL is a fault.\<close>

definition copy_string :: "byte list \<Rightarrow> nat \<Rightarrow> byte list option \<Rightarrow> (nat \<times> byte list) res" where
  "copy_string dest p src =
     (case src of None \<Rightarrow> Inl MemFault | Some bs \<Rightarrow> store_bytes dest p bs)"

definition c_strlen :: "byte list option \<Rightarrow> nat res" where
  "c_strlen src = (case src of None \<Rightarrow> Inl MemFault | Some bs \<Rightarrow> Inr (length bs))"

section \<open>Shift_JIS\<close>

definition shift_jis_get_char_bytes :: "byte list \<Rightarrow> nat \<Rightarrow> nat res" where
  "shift_jis_get_char_bytes s p =
     res_bind (mem_load s p) (\<lambda>b.
       let c = uchar b
       in if 0x81 \<le> c \<and> c \<le> 0x9f then Inr 2
          else if 0xe0 \<le> c \<and> c \<le> 0xfc then Inr 2
          else Inr 1)"

record bin2yog =
  hankaku :: "YogChar list"
  zenkaku :: "YogChar list"
  three_bytes :: "YogChar list"

definition shift_jis_conv_char_to_yog :: "bin2yog \<Rightarrow> byte list \<Rightarrow> nat \<Rightarrow> YogChar res" where
  "shift_jis_conv_char_to_yog T s p =
     res_bind (mem_load s p) (\<lambda>b1.
       let c1 = uchar b1
       in if c1 < 0x80 then Inr (ucast b1)
          else if 0xa1 \<le> c1 \<and> c1 \<le> 0xdf then mem_load (hankaku T) (c1 - 0xa1)
          else if \<not> (0x81 \<le> c1 \<and> c1 \<le> 0x9f) \<and> \<not> (0xe0 \<le> c1 \<and> c1 \<le> 0xfc) then Inr 0x3f
          else
            let n = (if 0x81 \<le> c1 \<and> c1 \<le> 0x9f then c1 - 0x81
                     else c1 - 0xc0 + 0x9f - 0x81 + 1)
            in res_bind (mem_load s (p + 1)) (\<lambda>b2.
                 let c2 = uchar b2
                 in if \<not> (0x40 \<le> c2 \<and> c2 \<le> 0x7e) \<and> \<not> (0x80 \<le> c2 \<and> c2 \<le> 0xfc) then Inr 0x3f
                    else
                      let m = (if 0x40 \<le> c2 \<and> c2 \<le> 0x7e then c2 - 0x40
                               else c2 - 0x80 + 0x7e - 0x40 + 1);
                          index = ((0x7e - 0x40 + 1) + (0xfc - 0x80 + 1)) * n + m
                      in mem_load (zenkaku T) index))"

definition shift_jis_get_yog_char_bytes :: "yog2bin \<Rightarrow> YogChar \<Rightarrow> nat res" where
  "shift_jis_get_yog_char_bytes T c = res_bind (yog2shift_jis T c) c_strlen"

definition shift_jis_conv_char_from_yog ::
  "yog2bin \<Rightarrow> YogChar \<Rightarrow> byte list \<Rightarrow> nat \<Rightarrow> (nat \<times> byte list) res" where
  "shift_jis_conv_char_from_yog T c dest p = res_bind (yog2shift_jis T c) (copy_string dest p)"

definition create_shift_jis :: "bin2yog \<Rightarrow> yog2bin \<Rightarrow> encoding" where
  "create_shift_jis D E = \<lparr>get_char_bytes = shift_jis_get_char_bytes,
     conv_char_to_yog = shift_jis_conv_char_to_yog D,
     get_yog_char_bytes = shift_jis_get_yog_char_bytes E,
     conv_char_from_yog = shift_jis_conv_char_from_yog E, max_size = 2\<rparr>"

section \<open>EUC-JP\<close>

definition euc_jp_get_char_bytes :: "byte list \<Rightarrow> nat \<Rightarrow> nat res" where
  "euc_jp_get_char_bytes s p =
     res_bind (mem_load s p) (\<lambda>b.
       let c = uchar b
       in if (0xa1 \<le> c \<and> c \<le> 0xfe) \<or> c = 0x8e then Inr 2
          else if c = 0x8f then Inr 3
          else Inr 1)"

text \<open>In the case of three bytes \<^verbatim>\<open>s[1] - 0xa1\<close> subtracts from a signed \<^verbatim>\<open>char\<close> and converts the
  negative result to \<^verbatim>\<open>uint_t\<close>.\<close>

definition euc_jp_conv_char_to_yog :: "bin2yog \<Rightarrow> byte list \<Rightarrow> nat \<Rightarrow> YogChar res" where
  "euc_jp_conv_char_to_yog T s p =
     res_bind (mem_load s p) (\<lambda>b1.
       let c1 = uchar b1
       in if c1 < 0x80 then Inr (ucast b1)
          else if c1 = 0x8e then
            res_bind (mem_load s (p + 1)) (\<lambda>b2.
              if uchar b2 < 0xa1 then Inl MemFault else mem_load (hankaku T) (uchar b2 - 0xa1))
          else if c1 = 0x8f then
            res_bind (mem_load s (p + 1)) (\<lambda>b2.
            res_bind (mem_load s (p + 2)) (\<lambda>b3.
              let n = to_uint (sint b2 - 0xa1); m = to_uint (sint b3 - 0xa1)
              in mem_load (three_bytes T) (uwrap ((0xfe - 0xa1 + 1) * n + m))))
          else
            let n = to_uint (int c1 - 0xa1)
            in res_bind (mem_load s (p + 1)) (\<lambda>b2.
                 let m = to_uint (int (uchar b2) - 0xa1)
                 in mem_load (zenkaku T) (uwrap ((0xfe - 0xa1 + 1) * n + m))))"

definition euc_jp_conv_char_from_yog ::
  "yog2bin \<Rightarrow> YogChar \<Rightarrow> byte list \<Rightarrow> nat \<Rightarrow> (nat \<times> byte list) res" where
  "euc_jp_conv_char_from_yog T c dest p = res_bind (yog2euc_jp T c) (copy_string dest p)"

definition euc_jp_get_yog_char_bytes :: "yog2bin \<Rightarrow> YogChar \<Rightarrow> nat res" where
  "euc_jp_get_yog_char_bytes T c = res_bind (yog2euc_jp T c) c_strlen"

definition create_euc_jp :: "bin2yog \<Rightarrow> yog2bin \<Rightarrow> encoding" where
  "create_euc_jp D E = \<lparr>get_char_bytes = euc_jp_get_char_bytes,
     conv_char_to_yog = euc_jp_conv_char_to_yog D,
     get_yog_char_bytes = euc_jp_get_yog_char_bytes E,
     conv_char_from_yog = euc_jp_conv_char_from_yog E, max_size = 2\<rparr>"

section \<open>What a string conversion relies on\<close>

lemma store_bytes_ok:
  assumes "p + length bs \<le> length dest"
  shows "store_bytes dest p bs = Inr (length bs, take p dest @ bs @ drop (p + length bs) dest)"
proof -
  have "n \<le> length bs \<Longrightarrow> foldM (\<lambda>i d. mem_store d (p + i) (bs ! i)) [0..<n] dest
      = Inr (take p dest @ take n bs @ drop (p + n) dest)" for n
  proof (induction n)
    case (Suc n)
    then show ?case using assms
      by (simp add: foldM_append list_update_append take_Suc_conv_app_nth flip: Cons_nth_drop_Suc)
  qed simp
  from this[of "length bs"] show ?thesis by (simp add: store_bytes_def)
qed

definition encode_with :: "(YogChar \<Rightarrow> byte list) \<Rightarrow> YogChar list \<Rightarrow> byte list" where
  "encode_with bytes_of s = concat (map bytes_of s)"

text \<open>
  What writing a string relies on: each character in \<open>ok\<close> has a string of bytes, and the announced
  length is the length of what is written.
\<close>

locale char_writer =
  fixes enc :: encoding
    and ok :: "YogChar \<Rightarrow> bool"
    and bytes_of :: "YogChar \<Rightarrow> byte list"
  assumes nonempty: "ok c \<Longrightarrow> bytes_of c \<noteq> []"
    and announce: "ok c \<Longrightarrow> get_yog_char_bytes enc c = Inr (length (bytes_of c))"
    and write_char: "ok c \<Longrightarrow> conv_char_from_yog enc c dest p = store_bytes dest p (bytes_of c)"
begin

lemma compute_bytes_encode:
  assumes "\<forall>c \<in> set s. ok c" "length (encode_with bytes_of s) < 2 ^ 64"
  shows "compute_bytes enc s = Inr (length (encode_with bytes_of s))"
proof -
  have "foldM (\<lambda>c n. res_bind (get_yog_char_bytes enc c) (\<lambda>k. Inr (uwrap (n + k)))) s n
      = Inr (n + length (encode_with bytes_of s))" if "\<forall>c \<in> set s. ok c" "n + length (encode_with bytes_of s) < 2 ^ 64" for n s
    using that by (induction s arbitrary: n) (auto simp: announce encode_with_def)
  from this[of s 0] assms show ?thesis by (simp add: compute_bytes_def)
qed

lemma write_all:
  assumes "\<forall>c \<in> set s. ok c" "pc + length (encode_with bytes_of s) \<le> length buf"
  shows "foldM (\<lambda>c (pc, buf). res_bind (conv_char_from_yog enc c buf pc) (\<lambda>(k, buf').
           Inr (pc + k, buf'))) s (pc, buf)
    = Inr (pc + length (encode_with bytes_of s), take pc buf @ encode_with bytes_of s @ drop (pc + length (encode_with bytes_of s)) buf)"
  using assms
proof (induction s arbitrary: pc buf)
  case (Cons c s)
  have e: "encode_with bytes_of (c # s) = bytes_of c @ encode_with bytes_of s" by (simp add: encode_with_def)
  have f: "pc + length (bytes_of c) \<le> length buf" using Cons.prems e by simp
  show ?case using Cons e store_bytes_ok[OF f]
    by (simp add: write_char ac_simps)
qed (simp add: encode_with_def)

lemma conv_from_yog_encode:
  assumes "\<forall>c \<in> set s. ok c" "length (encode_with bytes_of s) < 2 ^ 64"
  shows "conv_from_yog enc s = Inr (encode_with bytes_of s @ [0], length (encode_with bytes_of s) + 1)"
proof -
  let ?e = "encode_with bytes_of s"
  have "drop (length ?e) (replicate (length ?e + 1) (0 :: byte)) = [0]"
    by (simp only: drop_replicate) simp
  then show ?thesis
    using compute_bytes_encode[OF assms] write_all[OF assms(1), of 0 "replicate (length ?e + 1) 0"]
    by (simp add: conv_from_yog_def list_update_append del: replicate_Suc)
qed

end

text \<open>
  A codec reads back what it writes, whatever stands before and after it. The conversions of whole
  strings are correct for every codec.
\<close>

locale codec = char_writer +
  assumes read_length: "ok c \<Longrightarrow>
        get_char_bytes enc (pre @ bytes_of c @ post) (length pre) = Inr (length (bytes_of c))"
    and read_char: "ok c \<Longrightarrow> conv_char_to_yog enc (pre @ bytes_of c @ post) (length pre) = Inr c"
begin

lemma count_chars_encode:
  assumes "\<forall>c \<in> set s. ok c" "length (encode_with bytes_of s) \<le> fuel"
  shows "count_chars_loop fuel enc (pre @ encode_with bytes_of s @ post) (length pre)
      (length pre + length (encode_with bytes_of s)) n = Inr (n + length s)"
  using assms
proof (induction s arbitrary: pre n fuel)
  case Nil
  then show ?case by (cases fuel) (simp_all add: encode_with_def)
next
  case (Cons c s)
  have e: "encode_with bytes_of (c # s) = bytes_of c @ encode_with bytes_of s" by (simp add: encode_with_def)
  have ne: "0 < length (bytes_of c)" using Cons.prems nonempty by simp
  then obtain f where f: "fuel = Suc f" "length (encode_with bytes_of s) \<le> f"
    using Cons.prems(2) e by (cases fuel) (auto simp: Suc_le_eq neq_Nil_conv)
  have "count_chars_loop f enc ((pre @ bytes_of c) @ encode_with bytes_of s @ post) (length (pre @ bytes_of c))
      (length (pre @ bytes_of c) + length (encode_with bytes_of s)) (n + 1) = Inr (n + 1 + length s)"
    using Cons.IH[of f "pre @ bytes_of c" "n + 1"] Cons.prems(1) f(2) by simp
  then show ?case using Cons.prems(1) f ne read_length[of c pre "encode_with bytes_of s @ post"]
    by (simp add: e add.assoc)
qed

lemma read_all:
  assumes "\<forall>c \<in> set s. ok c" "\<forall>c \<in> set done. ok c"
  shows "foldM (\<lambda>i (pc, cs).
           res_bind (conv_char_to_yog enc (pre @ encode_with bytes_of (done @ s) @ post) pc) (\<lambda>c.
           res_bind (mem_store cs i c) (\<lambda>cs'.
           res_bind (get_char_bytes enc (pre @ encode_with bytes_of (done @ s) @ post) pc) (\<lambda>k. Inr (pc + k, cs')))))
         [length done..<length done + length s]
         (length pre + length (encode_with bytes_of done), done @ replicate (length s) 0)
    = Inr (length pre + length (encode_with bytes_of (done @ s)), done @ s)"
  using assms
proof (induction s arbitrary: "done")
  case (Cons c s)
  have e: "pre @ encode_with bytes_of (done @ c # s) @ post = (pre @ encode_with bytes_of done) @ bytes_of c @ encode_with bytes_of s @ post"
    by (simp add: encode_with_def)
  have u: "[length done..<Suc (length done + length s)] =
      length done # [Suc (length done)..<Suc (length done + length s)]"
    by (simp add: upt_conv_Cons del: upt_Suc)
  have l: "length pre + length (encode_with bytes_of done) + length (bytes_of c) = length pre + length (encode_with bytes_of (done @ [c]))"
    by (simp add: encode_with_def)
  have ok: "ok c" "\<forall>x \<in> set (done @ [c]). ok x" using Cons.prems by auto
  show ?case
    using Cons.IH[of "done @ [c]"] Cons.prems ok(2)
      read_char[OF ok(1), of "pre @ encode_with bytes_of done" "encode_with bytes_of s @ post"]
      read_length[OF ok(1), of "pre @ encode_with bytes_of done" "encode_with bytes_of s @ post"]
    by (simp add: u l e del: upt_Suc)
qed simp

lemma conv_to_yog_encode:
  assumes "\<forall>c \<in> set s. ok c"
  shows "conv_to_yog enc (pre @ encode_with bytes_of s @ post) (length pre) (length pre + length (encode_with bytes_of s)) = Inr s"
  using count_chars_encode[OF assms, of "length (encode_with bytes_of s)" pre post 0]
    read_all[OF assms, of "[]" pre post]
  by (simp add: conv_to_yog_def count_chars_def encode_with_def)

lemma roundtrip:
  assumes "\<forall>c \<in> set s. ok c" "length (encode_with bytes_of s) < 2 ^ 64" "conv_from_yog enc s = Inr (buf, sz)"
  shows "conv_to_yog enc buf 0 (sz - 1) = Inr s \<and> sz = length buf"
  using conv_from_yog_encode[OF assms(1,2)] assms(3) conv_to_yog_encode[OF assms(1), of "[]" "[0]"]
  by auto

end

section \<open>UTF-8 and ASCII are codecs\<close>

text \<open>The bytes that UTF-8 assigns to a character of up to three bytes.\<close>

definition utf8_bytes :: "YogChar \<Rightarrow> byte list" where
  "utf8_bytes c =
     (if c < 0x80 then [ucast c]
      else if c < 0x800 then [lead_byte 0xc0 c 6, cont_byte c 0]
      else [lead_byte 0xe0 c 12, cont_byte c 6, cont_byte c 0])"

definition utf8_ok :: "YogChar \<Rightarrow> bool" where
  "utf8_ok c \<longleftrightarrow> c < 0x10000"


lemma and_mask_bits: "(b :: byte) AND m = m \<longleftrightarrow> (\<forall>n<8. bit m n \<longrightarrow> bit b n)"
  by (auto simp: bit_simps intro!: bit_word_eqI) (metis bit_and_iff)

lemma all_less_8: "(\<forall>n<8. P n) \<longleftrightarrow> P 0 \<and> P 1 \<and> P 2 \<and> P 3 \<and> P 4 \<and> P 5 \<and> P 6 \<and> P (7::nat)"
  by (simp add: numeral_eq_Suc All_less_Suc conj_ac)

text \<open>The number of bytes that a first byte announces, by its highest bits.\<close>

lemma utf8_length_bits:
  "utf8_get_char_bytes (pre @ b # post) (length pre) = Inr (
     if \<not> bit b 7 \<or> \<not> bit b 6 then 1 else if \<not> bit b 5 then 2 else if \<not> bit b 4 then 3
     else if \<not> bit b 3 then 4 else if \<not> bit b 2 then 5 else 6)"
  by (auto simp: utf8_get_char_bytes_def and_mask_bits all_less_8)

lemma mem_load_append [simp]:
  "mem_load (pre @ x # post) (length pre) = Inr x"
  "mem_load (pre @ x # y # post) (Suc (length pre)) = Inr y"
  "mem_load (pre @ x # y # z # post) (Suc (Suc (length pre))) = Inr z"
  "mem_load (pre @ x # y # z # w # post) (Suc (Suc (Suc (length pre)))) = Inr w"
  by (simp_all add: mem_load_def nth_append)

lemma mask_bits:
  "(0x01 :: byte) = mask 1" "(0x03 :: byte) = mask 2" "(0x07 :: byte) = mask 3"
  "(0x0f :: byte) = mask 4" "(0x1f :: byte) = mask 5" "(0x3f :: byte) = mask 6"
  by (simp_all add: mask_eq_exp_minus_1)

lemma bit_lead_mask:
  "bit (0xc0 :: YogChar) n \<longleftrightarrow> 6 \<le> n \<and> n < 8"
  "bit (0xe0 :: YogChar) n \<longleftrightarrow> 5 \<le> n \<and> n < 8"
  "bit (0xf0 :: YogChar) n \<longleftrightarrow> 4 \<le> n \<and> n < 8"
proof -
  have e: "(0xc0 :: YogChar) = push_bit 6 (mask 2)" "(0xe0 :: YogChar) = push_bit 5 (mask 3)"
    "(0xf0 :: YogChar) = push_bit 4 (mask 4)" by (simp_all add: mask_eq_exp_minus_1)
  show "bit (0xc0 :: YogChar) n \<longleftrightarrow> 6 \<le> n \<and> n < 8" "bit (0xe0 :: YogChar) n \<longleftrightarrow> 5 \<le> n \<and> n < 8"
    "bit (0xf0 :: YogChar) n \<longleftrightarrow> 4 \<le> n \<and> n < 8"
    unfolding e bit_push_bit_iff bit_mask_iff by auto
qed

lemma bit_lead_byte: "bit (lead_byte m c k) n \<longleftrightarrow> n < 8 \<and> (bit m n \<or> bit c (k + n))"
  by (auto simp: lead_byte_def bit_ucast_iff bit_or_iff bit_drop_bit_eq)

lemma bit_cont_byte: "bit (cont_byte c k) n \<longleftrightarrow> n = 7 \<or> n < 6 \<and> bit c (k + n)"
proof -
  have m: "(0x3f :: YogChar) = mask 6" "(0x80 :: YogChar) = push_bit 7 1"
    by (simp_all add: mask_eq_exp_minus_1)
  show ?thesis unfolding cont_byte_def m
    apply (simp only: bit_ucast_iff bit_or_iff bit_and_iff bit_mask_iff bit_drop_bit_eq bit_push_bit_iff bit_1_iff)
    apply auto
    done
qed

lemma high_bits_clear: "unat c < 2 ^ m \<Longrightarrow> m \<le> n \<Longrightarrow> \<not> bit (c :: YogChar) n"
proof -
  assume c: "unat c < 2 ^ m" and n: "m \<le> n"
  show ?thesis
  proof (cases "n < 32")
    case True
    have "unat c div 2 ^ n = 0" using c n by (meson div_less less_le_trans one_le_numeral power_increasing)
    moreover have "bit c n \<longleftrightarrow> bit (unat c) n" by (simp add: bit_unsigned_iff)
    ultimately show ?thesis by (simp only: bit_iff_odd[of "unat c"]) simp
  qed (simp add: bit_word.rep_eq)
qed

text \<open>A continuation byte gives back its six bits, a first byte those that its mask leaves.\<close>

lemma cont_field: "bits_shift (cont_byte c k) 0x3f j = push_bit j (take_bit 6 (drop_bit k c))"
  unfolding bits_shift_def mask_bits
  by (rule arg_cong[where f="push_bit j"], rule bit_word_eqI)
    (auto simp: bit_ucast_iff bit_and_iff bit_mask_iff bit_drop_bit_eq bit_take_bit_iff bit_cont_byte)

lemma lead_field:
  assumes "b = mask w" "\<And>n. n < w \<Longrightarrow> \<not> bit m n" "w \<le> 8"
  shows "bits_shift (lead_byte m c k) b j = push_bit j (take_bit w (drop_bit k c))"
  unfolding bits_shift_def assms(1)
  by (rule arg_cong[where f="push_bit j"], rule bit_word_eqI)
    (use assms(2,3) in \<open>auto simp: bit_ucast_iff bit_and_iff bit_mask_iff bit_drop_bit_eq bit_take_bit_iff bit_lead_byte\<close>)

lemma field_split:
  "push_bit k (take_bit m (drop_bit k c)) + take_bit k c = take_bit (k + m) (c :: YogChar)"
proof -
  have "push_bit k (take_bit m (drop_bit k c)) + take_bit k c = push_bit k (take_bit m (drop_bit k c)) OR take_bit k c"
    by (rule disjunctive_add) (auto simp: bit_push_bit_iff bit_take_bit_iff)
  also have "\<dots> = take_bit (k + m) c"
    by (rule bit_word_eqI) (auto simp: bit_or_iff bit_push_bit_iff bit_take_bit_iff bit_drop_bit_eq)
  finally show ?thesis .
qed

lemma fields_2: "push_bit 6 (take_bit 5 (drop_bit 6 c)) + take_bit 6 c = take_bit 11 (c :: YogChar)"
  using field_split[of 6 5 c] by simp

lemma fields_3:
  "push_bit 12 (take_bit 4 (drop_bit 12 c)) + push_bit 6 (take_bit 6 (drop_bit 6 c)) + take_bit 6 c
   = take_bit 16 (c :: YogChar)"
  using field_split[of 6 6 c] field_split[of 12 4 c] by (simp add: add.assoc)

lemma fields_4:
  "push_bit 18 (take_bit 3 (drop_bit 18 c)) + push_bit 12 (take_bit 6 (drop_bit 12 c))
   + push_bit 6 (take_bit 6 (drop_bit 6 c)) + take_bit 6 c = take_bit 21 (c :: YogChar)"
  using field_split[of 6 6 c] field_split[of 12 6 c] field_split[of 18 3 c] by (simp add: add.assoc)

lemma utf8_read_length:
  assumes "utf8_ok c"
  shows "utf8_get_char_bytes (pre @ utf8_bytes c @ post) (length pre) = Inr (length (utf8_bytes c))"
proof -
  have "c < 0x80 \<Longrightarrow> \<not> bit c 7" "c < 0x800 \<Longrightarrow> \<not> bit c 11" "c < 0x10000 \<Longrightarrow> \<not> bit c 16"
    using high_bits_clear[of c 7 7] high_bits_clear[of c 11 11] high_bits_clear[of c 16 16]
    by (simp_all add: word_less_nat_alt)
  then show ?thesis using assms
    by (simp add: utf8_ok_def utf8_bytes_def utf8_length_bits bit_lead_byte bit_lead_mask bit_ucast_iff)
qed


lemma take_bit_small: "unat c < 2 ^ m \<Longrightarrow> take_bit m (c :: YogChar) = c"
  by (rule bit_word_eqI) (metis bit_take_bit_iff high_bits_clear not_less)

lemma schar_ascii: "c < 0x80 \<Longrightarrow> schar (ucast c) = c"
proof -
  assume "c < 0x80"
  then have "\<not> bit c n" if "7 \<le> n" for n using that high_bits_clear[of c 7 n] by (simp add: word_less_nat_alt)
  then have "bit c (min 7 n) \<longleftrightarrow> bit c n" for n by (cases "n \<le> 7") (auto simp: min_def)
  then show ?thesis
    by (intro bit_word_eqI) (auto simp: schar_def bit_signed_iff bit_ucast_iff)
qed

lemma utf8_read_char:
  assumes "utf8_ok c"
  shows "utf8_conv_char_to_yog (pre @ utf8_bytes c @ post) (length pre) = Inr c"
proof -
  note len = utf8_read_length[OF assms, of pre post]
  consider (one) "c < 0x80" | (two) "\<not> c < 0x80" "c < 0x800" | (three) "\<not> c < 0x800" "c < 0x10000"
    using assms by (auto simp: utf8_ok_def)
  then show ?thesis
  proof cases
    case one
    then show ?thesis using len by (simp add: utf8_conv_char_to_yog_def utf8_bytes_def schar_ascii)
  next
    case two
    then have "take_bit 11 c = c" by (intro take_bit_small) (simp add: word_less_nat_alt)
    moreover have "bits_shift (lead_byte 0xc0 c 6) 0x1f 6 = push_bit 6 (take_bit 5 (drop_bit 6 c))"
      by (rule lead_field) (simp_all only: mask_bits bit_lead_mask, auto)
    ultimately show ?thesis using two len fields_2[of c]
      by (simp add: utf8_conv_char_to_yog_def utf8_bytes_def cont_field)
  next
    case three
    then have "take_bit 16 c = c" by (intro take_bit_small) (simp add: word_less_nat_alt)
    moreover have "bits_shift (lead_byte 0xe0 c 12) 0x0f 12 = push_bit 12 (take_bit 4 (drop_bit 12 c))"
      by (rule lead_field) (simp_all only: mask_bits bit_lead_mask, auto)
    moreover have "\<not> c < 0x80" using three by (simp add: word_less_nat_alt)
    ultimately show ?thesis using three len fields_3[of c]
      by (simp add: utf8_conv_char_to_yog_def utf8_bytes_def cont_field)
  qed
qed

interpretation utf8: codec create_utf8 utf8_ok utf8_bytes
proof (unfold_locales)
  fix c :: YogChar and pre post dest :: "byte list" and p :: nat
  assume ok: "utf8_ok c"
  show "utf8_bytes c \<noteq> []" by (simp add: utf8_bytes_def)
  show "get_yog_char_bytes create_utf8 c = Inr (length (utf8_bytes c))"
    using ok by (simp add: create_utf8_def utf8_get_yog_char_bytes_def utf8_bytes_def isascii_def utf8_ok_def)
  show "conv_char_from_yog create_utf8 c dest p = store_bytes dest p (utf8_bytes c)"
    using ok by (simp add: create_utf8_def utf8_conv_char_from_yog_def utf8_bytes_def isascii_def utf8_ok_def)
  show "get_char_bytes create_utf8 (pre @ utf8_bytes c @ post) (length pre) = Inr (length (utf8_bytes c))"
    using utf8_read_length[OF ok] by (simp add: create_utf8_def)
  show "conv_char_to_yog create_utf8 (pre @ utf8_bytes c @ post) (length pre) = Inr c"
    using utf8_read_char[OF ok] by (simp add: create_utf8_def)
qed

interpretation ascii: codec create_ascii isascii "\<lambda>c. [ucast c]"
proof (unfold_locales)
  fix c :: YogChar and pre post dest :: "byte list" and p :: nat
  assume ok: "isascii c"
  show "conv_char_from_yog create_ascii c dest p = store_bytes dest p [ucast c]"
    using ok by (cases "p < length dest")
      (simp_all add: create_ascii_def ascii_conv_char_from_yog_def store_bytes_def mem_store_def)
  show "conv_char_to_yog create_ascii (pre @ [ucast c] @ post) (length pre) = Inr c"
    using ok by (simp add: create_ascii_def ascii_conv_char_to_yog_def isascii_def schar_ascii)
qed (simp_all add: create_ascii_def ascii_get_yog_char_bytes_def ascii_get_char_bytes_def)

lemma utf8_bytes_length: "length (encode_with utf8_bytes s) \<le> 3 * length s"
  by (induction s) (auto simp: encode_with_def utf8_bytes_def)

text \<open>A character of four bytes is read back with its third byte at the place of the second.\<close>

lemma utf8_four_bytes:
  assumes "\<not> c < 0x10000" "c < 0x200000"
  shows "utf8_conv_char_to_yog (pre @ [lead_byte 0xf0 c 18, cont_byte c 12, cont_byte c 6, cont_byte c 0] @ post)
      (length pre) = Inr (c + 4032 * take_bit 6 (drop_bit 6 c))"
proof -
  have "\<not> bit c 21" using assms high_bits_clear[of c 21 21] by (simp add: word_less_nat_alt)
  then have len: "utf8_get_char_bytes (pre @ [lead_byte 0xf0 c 18, cont_byte c 12, cont_byte c 6, cont_byte c 0] @ post)
      (length pre) = Inr 4"
    by (simp add: utf8_length_bits bit_lead_byte bit_lead_mask)
  have "bits_shift (lead_byte 0xf0 c 18) 0x07 18 = push_bit 18 (take_bit 3 (drop_bit 18 c))"
    by (rule lead_field) (simp_all only: mask_bits bit_lead_mask, auto)
  moreover have "take_bit 21 c = c" using assms by (intro take_bit_small) (simp add: word_less_nat_alt)
  moreover have "push_bit 12 x = push_bit 6 x + 4032 * x" for x :: YogChar
    by (simp add: push_bit_eq_mult flip: distrib_left)
  ultimately show ?thesis using len fields_4[of c]
    by (simp add: utf8_conv_char_to_yog_def cont_field) (simp add: ac_simps)
qed


text \<open>The lossy writers: ASCII writes a question mark for what it cannot represent, and the two
  Japanese encodings write one for every character below \<open>0xa0\<close>.\<close>

definition ascii_lossy :: "YogChar \<Rightarrow> YogChar" where
  "ascii_lossy c = (if isascii c then c else 0x3f)"

interpretation ascii_all: char_writer create_ascii "\<lambda>c. True" "\<lambda>c. [ucast (ascii_lossy c)]"
proof (unfold_locales)
  fix c :: YogChar and dest :: "byte list" and p :: nat
  show "conv_char_from_yog create_ascii c dest p = store_bytes dest p [ucast (ascii_lossy c)]"
    by (cases "p < length dest")
      (simp_all add: create_ascii_def ascii_conv_char_from_yog_def store_bytes_def mem_store_def ascii_lossy_def)
qed (simp_all add: create_ascii_def ascii_get_yog_char_bytes_def)

interpretation shift_jis_low: char_writer "create_shift_jis D E" isascii "\<lambda>c. [0x3f]" for D E
  by unfold_locales
    (simp_all add: create_shift_jis_def shift_jis_get_yog_char_bytes_def shift_jis_conv_char_from_yog_def
      yog2shift_jis_def isascii_def c_strlen_def copy_string_def word_less_nat_alt word_le_nat_alt)

interpretation euc_jp_low: char_writer "create_euc_jp D E" isascii "\<lambda>c. [0x3f]" for D E
  by unfold_locales
    (simp_all add: create_euc_jp_def euc_jp_get_yog_char_bytes_def euc_jp_conv_char_from_yog_def
      yog2euc_jp_def isascii_def c_strlen_def copy_string_def word_less_nat_alt word_le_nat_alt)

text \<open>The search keeps the entries that may hold the character between its bounds.\<close>

lemma binary_search_correct:
  fixes t :: yog_table
  assumes sorted: "sorted_wrt (<) (map fst t)" and len: "length t < 2 ^ 63"
    and low: "t \<noteq> []" "fst (hd t) \<le> c"
    and bounds: "lo \<le> hi + 1" "hi < length t" "hi + 1 - lo < fuel"
    and below: "\<forall>i < lo. fst (t ! i) < c" and above: "\<forall>i. hi < i \<and> i < length t \<longrightarrow> c < fst (t ! i)"
  shows "binary_search fuel t lo hi c = Inr (map_of t c)"
  using bounds below above
proof (induction fuel arbitrary: lo hi)
  case (Suc fuel)
  have mono: "fst (t ! i) < fst (t ! j)" if "i < j" "j < length t" for i j
    using sorted that by (simp add: sorted_wrt_iff_nth_less)
  show ?case
  proof (cases "hi < lo")
    case True
    have "fst (t ! i) \<noteq> c" if "i < length t" for i
    proof (cases "i < lo")
      case i: False
      then have "c < fst (t ! i)" using Suc.prems(5) that True by simp
      then show ?thesis by simp
    qed (use Suc.prems(4) in fastforce)
    then have "c \<notin> fst ` set t" by (auto simp: in_set_conv_nth) (metis fst_conv)
    then show ?thesis using True by (simp add: iffD2[OF map_of_eq_None_iff])
  next
    case False
    let ?pos = "(lo + hi) div 2"
    have p: "lo \<le> ?pos" "?pos \<le> hi" "?pos < length t" using False Suc.prems(2) by auto
    have w: "uwrap (lo + hi) div 2 = ?pos" "uwrap (?pos + 1) = ?pos + 1"
      using False Suc.prems(2) len by (simp_all add: uwrap_def)
    show ?thesis
    proof (cases "fst (t ! ?pos) = c")
      case True
      have d: "distinct (map fst t)" using sorted by (simp add: strict_sorted_iff)
      have "(c, snd (t ! ?pos)) \<in> set t" using p(3) True by (metis nth_mem prod.collapse)
      then have "map_of t c = Some (snd (t ! ?pos))" using d by simp
      then show ?thesis using False p(3) True
        by (simp add: w mem_load_def Let_def case_prod_unfold)
    next
      case ne: False
      show ?thesis
      proof (cases "fst (t ! ?pos) < c")
        case True
        have "\<forall>i < ?pos + 1. fst (t ! i) < c"
          using less_trans[OF mono[OF _ p(3)] True] True by (auto simp: less_Suc_eq)
        then have "binary_search fuel t (?pos + 1) hi c = Inr (map_of t c)"
          using Suc.IH[of "?pos + 1" hi] Suc.prems p by simp
        then show ?thesis using False ne True p(3) w by (simp add: mem_load_def Let_def case_prod_unfold)
      next
        case gt: False
        then have gt': "c < fst (t ! ?pos)" using ne by simp
        then have "?pos \<noteq> 0" using low by (metis hd_conv_nth not_less)
        moreover have "\<forall>i. ?pos - 1 < i \<and> i < length t \<longrightarrow> c < fst (t ! i)"
        proof (intro allI impI)
          fix i assume i: "?pos - 1 < i \<and> i < length t"
          then have "i = ?pos \<or> ?pos < i" by auto
          then show "c < fst (t ! i)" using less_trans[OF gt' mono[of ?pos i]] gt' i by auto
        qed
        ultimately have "binary_search fuel t lo (?pos - 1) c = Inr (map_of t c)" "usub ?pos 1 = ?pos - 1"
          using Suc.IH[of lo "?pos - 1"] Suc.prems p len by auto
        then show ?thesis using False ne gt p(3) w by (simp add: mem_load_def Let_def case_prod_unfold)
      qed
    qed
  qed
qed simp

section \<open>Properties\<close>

text \<open>Every string of characters below U+10000 is converted to UTF-8 with a terminating NUL and
  comes back unchanged, whatever lies behind it in the buffer.\<close>

lemma utf8_string_roundtrip:
  assumes "\<forall>c \<in> set s. c < 0x10000" "length s < 2 ^ 62"
  shows "\<exists>buf. conv_from_yog create_utf8 s = Inr (buf @ [0], length buf + 1)
    \<and> (\<forall>rest. conv_to_yog create_utf8 (buf @ rest) 0 (length buf) = Inr s)"
proof -
  have "length (encode_with utf8_bytes s) < 2 ^ 64" using utf8_bytes_length[of s] assms(2) by simp
  moreover have ok: "\<forall>c \<in> set s. utf8_ok c" using assms(1) by (simp add: utf8_ok_def)
  ultimately show ?thesis
    using utf8.conv_from_yog_encode[OF ok] utf8.conv_to_yog_encode[OF ok, of "[]"] by auto
qed

lemma utf8_string_roundtrip_instance:
  "\<exists>buf. conv_from_yog create_utf8 [0x41, 0xe9, 0x3042] = Inr (buf @ [0], length buf + 1)
    \<and> (\<forall>rest. conv_to_yog create_utf8 (buf @ rest) 0 (length buf) = Inr [0x41, 0xe9, 0x3042])"
  by (rule utf8_string_roundtrip) (simp_all add: word_less_nat_alt)

text \<open>The ASCII encoding replaces each character above \<open>0x7f\<close> by a question mark, one byte for
  one character, and reads the rest back.\<close>

lemma ascii_string_lossy:
  assumes "length s < 2 ^ 64"
  shows "conv_from_yog create_ascii s = Inr (map (ucast \<circ> ascii_lossy) s @ [0], length s + 1)
    \<and> conv_to_yog create_ascii (map (ucast \<circ> ascii_lossy) s @ [0]) 0 (length s) = Inr (map ascii_lossy s)"
proof -
  have e: "encode_with (\<lambda>c. [ucast (ascii_lossy c)]) s = map (ucast \<circ> ascii_lossy) s"
    "encode_with (\<lambda>c. [ucast c]) (map ascii_lossy s) = map (ucast \<circ> ascii_lossy) s"
    by (induction s) (simp_all add: encode_with_def)
  have ok: "\<forall>c \<in> set (map ascii_lossy s). isascii c" by (auto simp: ascii_lossy_def isascii_def)
  show ?thesis using ascii_all.conv_from_yog_encode[of s] ascii.conv_to_yog_encode[OF ok, of "[]" "[0]"] assms
    by (simp add: e)
qed

lemma ascii_string_lossy_instance:
  "conv_from_yog create_ascii [0x41, 0xe9] = Inr (map (ucast \<circ> ascii_lossy) [0x41, 0xe9] @ [0], length [0x41 :: YogChar, 0xe9] + 1)
    \<and> conv_to_yog create_ascii (map (ucast \<circ> ascii_lossy) [0x41, 0xe9] @ [0]) 0 (length [0x41 :: YogChar, 0xe9]) = Inr (map ascii_lossy [0x41, 0xe9])"
  by (rule ascii_string_lossy) simp

text \<open>A UTF-8 sequence of four bytes is misread: the bits of its third byte are added at the
  place of the second, so that \<open>63 * 64\<close> times those bits too much come back.\<close>

lemma utf8_four_bytes_misread:
  assumes "\<not> c < 0x10000" "c < 0x200000" "p + 4 \<le> length dest"
  shows "\<exists>buf. conv_char_from_yog create_utf8 c dest p = Inr (4, buf)
    \<and> conv_char_to_yog create_utf8 buf p = Inr (c + 4032 * take_bit 6 (drop_bit 6 c))"
proof -
  let ?bs = "[lead_byte 0xf0 c 18, cont_byte c 12, cont_byte c 6, cont_byte c 0]"
  have "\<not> c < 0x80" "\<not> c < 0x800" using assms(1) by (simp_all add: word_less_nat_alt)
  then have "conv_char_from_yog create_utf8 c dest p = Inr (4, take p dest @ ?bs @ drop (p + 4) dest)"
    using assms store_bytes_ok[of p ?bs dest]
    by (simp add: create_utf8_def utf8_conv_char_from_yog_def isascii_def eval_nat_numeral)
  moreover have "conv_char_to_yog create_utf8 (take p dest @ ?bs @ drop (p + 4) dest) p
      = Inr (c + 4032 * take_bit 6 (drop_bit 6 c))"
    using utf8_four_bytes[OF assms(1,2), of "take p dest" "drop (p + 4) dest"] assms(3)
    by (simp add: create_utf8_def)
  ultimately show ?thesis by blast
qed

lemma utf8_four_bytes_misread_instance:
  "\<exists>buf. conv_char_from_yog create_utf8 0x1f600 [0, 0, 0, 0] 0 = Inr (4, buf)
    \<and> conv_char_to_yog create_utf8 buf 0 = Inr (0x1f600 + 4032 * take_bit 6 (drop_bit 6 0x1f600))"
  by (rule utf8_four_bytes_misread) (simp_all add: word_less_nat_alt)

text \<open>The binary search of a sorted table of characters returns what the table holds for the
  character, and none for one that is not in it, provided it is not below the first entry.\<close>

lemma binary_search_finds:
  fixes t :: yog_table
  assumes "sorted_wrt (<) (map fst t)" "length t < 2 ^ 63" "t \<noteq> []" "fst (hd t) \<le> c"
  shows "binary_search (Suc (length t)) t 0 (usub (length t) 1) c = Inr (map_of t c)"
proof -
  have "usub (length t) 1 = length t - 1" using assms by (intro usub_le) (simp_all add: Suc_leI)
  moreover have "binary_search (Suc (length t)) t 0 (length t - 1) c = Inr (map_of t c)"
    by (rule binary_search_correct[OF assms]) (use assms(3) in auto)
  ultimately show ?thesis by simp
qed

definition sample_table :: yog_table where
  "sample_table = [(0x3042, [0x82, 0xa0]), (0x3044, [0x82, 0xa2])]"

lemma binary_search_finds_instance:
  "binary_search (Suc (length sample_table)) sample_table 0 (usub (length sample_table) 1) 0x3044
   = Inr (map_of sample_table 0x3044)"
  by (rule binary_search_finds) (simp_all add: sample_table_def word_less_nat_alt word_le_nat_alt)

text \<open>Shift_JIS and EUC-JP lose every ASCII string: each character is written as a question
  mark.\<close>

lemma japanese_encodings_lose_ascii:
  assumes "\<forall>c \<in> set s. isascii c" "length s < 2 ^ 64"
  shows "conv_from_yog (create_shift_jis D E) s = Inr (replicate (length s) 0x3f @ [0], length s + 1)
    \<and> conv_from_yog (create_euc_jp D E) s = Inr (replicate (length s) 0x3f @ [0], length s + 1)"
proof -
  have e: "encode_with (\<lambda>c. [0x3f]) s = replicate (length s) 0x3f"
    by (induction s) (simp_all add: encode_with_def)
  show ?thesis using shift_jis_low.conv_from_yog_encode[of s D E] euc_jp_low.conv_from_yog_encode[of s D E] assms
    by (simp add: e)
qed

definition no_bin2yog :: bin2yog where
  "no_bin2yog = \<lparr>hankaku = [], zenkaku = [], three_bytes = []\<rparr>"

definition no_yog2bin :: yog2bin where
  "no_yog2bin = \<lparr>tbl1 = [], tbl2 = [], tbl3 = []\<rparr>"

lemma japanese_encodings_lose_ascii_instance:
  "conv_from_yog (create_shift_jis no_bin2yog no_yog2bin) [0x59, 0x6f, 0x67]
     = Inr (replicate (length [0x59 :: YogChar, 0x6f, 0x67]) 0x3f @ [0], length [0x59 :: YogChar, 0x6f, 0x67] + 1)
   \<and> conv_from_yog (create_euc_jp no_bin2yog no_yog2bin) [0x59, 0x6f, 0x67]
     = Inr (replicate (length [0x59 :: YogChar, 0x6f, 0x67]) 0x3f @ [0], length [0x59 :: YogChar, 0x6f, 0x67] + 1)"
  by (rule japanese_encodings_lose_ascii) (simp_all add: isascii_def word_less_nat_alt)

text \<open>A Shift_JIS character whose first byte is \<open>0xe0\<close> or more is looked up behind the end of a
  table that has the \<open>60 * 188\<close> entries of all the first bytes: its row is counted from \<open>0xc0\<close>.\<close>

lemma shift_jis_upper_rows_overrun:
  assumes "p + 1 < length s" "0xe0 \<le> uchar (s ! p)" "uchar (s ! p) \<le> 0xfc"
    "0x40 \<le> uchar (s ! (p + 1))" "uchar (s ! (p + 1)) \<le> 0x7e" "length (zenkaku D) \<le> 60 * 188"
  shows "conv_char_to_yog (create_shift_jis D E) s p = Inl MemFault"
  using assms by (simp add: create_shift_jis_def shift_jis_conv_char_to_yog_def mem_load_def Let_def)

lemma shift_jis_upper_rows_overrun_instance:
  "conv_char_to_yog (create_shift_jis no_bin2yog no_yog2bin) [0xe0, 0x40] 0 = Inl MemFault"
  by (rule shift_jis_upper_rows_overrun) (simp_all add: uchar_def no_bin2yog_def)

end
