(* ===== verification/YogString.thy ===== *)
theory YogString
  imports YogEncoding YogFixnum
begin

text \<open>
  \<^verbatim>\<open>src/string.c\<close>: strings of \<^verbatim>\<open>YogChar\<close>. A string has a size and a body, an array of characters
  with room for at least that many; the body is YUNDEF (\<open>None\<close>) until the first character needs
  one. A fresh array holds whatever the allocator gives, zeros here. The class is kept as a number,
  since some operations copy it. Operations that mutate the string return the new one. The regular
  expressions (\<^verbatim>\<open>=~\<close>) call the vendored Corgi and are left out; \<^verbatim>\<open>to_i\<close> is in \<open>YogStringNumber\<close>.
\<close>

record ystring =
  s_size :: nat
  s_body :: "YogChar list option"
  s_class :: nat

text \<open>What a value is to the code here that asks for a String.\<close>

datatype str_obj = OStr ystring | ONotStr

definition cString :: nat where "cString = 0"
definition cPath :: nat where "cPath = 1"

definition check_self_string :: "str_obj yval \<Rightarrow> (ystring \<Rightarrow> 'a res) \<Rightarrow> 'a res" where
  "check_self_string self f =
     (case self of YPtr (OStr s) \<Rightarrow> f s | _ \<Rightarrow> Inl (TypeError ''self must be String''))"

text \<open>\<^verbatim>\<open>STRING_CHARS\<close>: a body that is YUNDEF has no characters; a copy of no character does not
  touch it.\<close>

definition STRING_CHARS :: "ystring \<Rightarrow> YogChar list" where
  "STRING_CHARS s = (case s_body s of None \<Rightarrow> [] | Some cs \<Rightarrow> cs)"

definition with_chars :: "ystring \<Rightarrow> YogChar list \<Rightarrow> ystring" where
  "with_chars s cs = (case s_body s of None \<Rightarrow> s | Some _ \<Rightarrow> s\<lparr>s_body := Some cs\<rparr>)"

text \<open>\<^verbatim>\<open>memcpy(STRING_CHARS(dest) + d, STRING_CHARS(src) + p, sizeof(YogChar) * n)\<close>\<close>

definition copy_chars :: "ystring \<Rightarrow> nat \<Rightarrow> ystring \<Rightarrow> nat \<Rightarrow> nat \<Rightarrow> ystring res" where
  "copy_chars dest d src p n =
     res_bind (mem_copy (STRING_CHARS dest) d (STRING_CHARS src) p n) (\<lambda>cs. Inr (with_chars dest cs))"

section \<open>Bodies\<close>

definition YogCharArray_new :: "nat \<Rightarrow> YogChar list res" where
  "YogCharArray_new n =
     res_bind (YogGC_check_multiply_overflow n 4) (\<lambda>_. Inr (replicate n 0))"

definition YogString_size :: "ystring \<Rightarrow> nat" where
  "YogString_size s = s_size s"

definition ensure_body :: "ystring \<Rightarrow> ystring res" where
  "ensure_body s =
     (case s_body s of
        None \<Rightarrow> res_bind (YogCharArray_new 1) (\<lambda>body. Inr (s\<lparr>s_body := Some body\<rparr>))
      | Some _ \<Rightarrow> Inr s)"

text \<open>The doubling of the capacity, which starts from 1: after 64 rounds it has wrapped to 0 and stays
  there.\<close>

fun capacity_loop :: "nat \<Rightarrow> nat \<Rightarrow> nat \<Rightarrow> nat res" where
  "capacity_loop 0 capacity needed_size = Inl NoReturn"
| "capacity_loop (Suc fuel) capacity needed_size =
     (let capacity' = uwrap (2 * capacity)
      in if capacity' < needed_size then capacity_loop fuel capacity' needed_size else Inr capacity')"

definition ensure_size :: "ystring \<Rightarrow> nat \<Rightarrow> ystring res" where
  "ensure_size s needed_size =
     res_bind (ensure_body s) (\<lambda>s.
       if needed_size \<le> length (STRING_CHARS s) then Inr s
       else
         res_bind (capacity_loop 65 1 needed_size) (\<lambda>capacity.
         res_bind (YogCharArray_new capacity) (\<lambda>new_body.
         res_bind (mem_copy new_body 0 (STRING_CHARS s) 0 (s_size s)) (\<lambda>body.
           Inr (s\<lparr>s_body := Some body\<rparr>)))))"

definition YogString_push :: "ystring \<Rightarrow> YogChar \<Rightarrow> ystring res" where
  "YogString_push self c =
     (let n = s_size self; needed_size = uwrap (n + 1)
      in res_bind (ensure_size self needed_size) (\<lambda>s.
         res_bind (mem_store (STRING_CHARS s) n c) (\<lambda>cs.
           Inr ((with_chars s cs)\<lparr>s_size := needed_size\<rparr>))))"

definition YogString_clear :: "ystring \<Rightarrow> ystring" where
  "YogString_clear self = self\<lparr>s_size := 0\<rparr>"

definition string_alloc :: "nat \<Rightarrow> ystring" where
  "string_alloc klass = \<lparr>s_size = 0, s_body = None, s_class = klass\<rparr>"

definition YogString_new :: "ystring res" where
  "YogString_new =
     res_bind (YogCharArray_new 1) (\<lambda>body. Inr ((string_alloc cString)\<lparr>s_body := Some body, s_size := 0\<rparr>))"

definition YogString_of_size :: "nat \<Rightarrow> ystring res" where
  "YogString_of_size n =
     (if n = 0 then Inr (string_alloc cString)
      else res_bind (YogCharArray_new n) (\<lambda>body.
        Inr ((string_alloc cString)\<lparr>s_size := 0, s_body := Some body\<rparr>)))"

text \<open>The string that \<^verbatim>\<open>YogEncoding_conv_to_yog\<close> makes of the characters it has read.\<close>

definition yog_string :: "YogChar list \<Rightarrow> ystring" where
  "yog_string cs = \<lparr>s_size = length cs, s_body = (if cs = [] then None else Some cs), s_class = cString\<rparr>"

text \<open>\<^verbatim>\<open>strncpy\<close>: up to \<open>n\<close> bytes, padded with NUL after the first one.\<close>

fun c_strncpy :: "byte list \<Rightarrow> nat \<Rightarrow> nat \<Rightarrow> byte list res" where
  "c_strncpy buf p 0 = Inr []"
| "c_strncpy buf p (Suc n) =
     res_bind (mem_load buf p) (\<lambda>b.
       if b = 0 then Inr (replicate (Suc n) 0)
       else res_bind (c_strncpy buf (p + 1) n) (\<lambda>bs. Inr (b # bs)))"

definition YogString_from_range :: "encoding \<Rightarrow> byte list \<Rightarrow> nat \<Rightarrow> nat \<Rightarrow> ystring res" where
  "YogString_from_range enc buf start end_p =
     (let n = (if start \<le> end_p then end_p - start + 1 else 0)
      in res_bind (c_strncpy buf start n) (\<lambda>pc.
         res_bind (conv_to_yog enc pc 0 n) (\<lambda>cs. Inr (yog_string cs))))"

text \<open>The C string \<open>s\<close> is given without its terminating NUL.\<close>

definition YogString_from_string :: "byte list \<Rightarrow> ystring res" where
  "YogString_from_string s =
     res_bind (conv_to_yog create_utf8 (s @ [0]) 0 (length s)) (\<lambda>cs. Inr (yog_string cs))"

definition YogString_clone :: "ystring \<Rightarrow> ystring res" where
  "YogString_clone self =
     res_bind (YogString_of_size (s_size self)) (\<lambda>s.
     res_bind (copy_chars s 0 self 0 (s_size self)) (\<lambda>s.
       Inr (s\<lparr>s_size := s_size self\<rparr>)))"

section \<open>Searching\<close>

text \<open>\<^verbatim>\<open>strstr\<close>: the bytes that are left of the searched string when a character differs; none means
  that it was found. \<open>cs\<close> are the characters below the end of the string.\<close>

fun match_rest :: "YogChar list \<Rightarrow> byte list \<Rightarrow> byte list" where
  "match_rest (c # cs) (q # qs) = (if c = schar q then match_rest cs qs else q # qs)"
| "match_rest cs qs = qs"

function strstr_internal :: "YogChar list \<Rightarrow> nat \<Rightarrow> byte list \<Rightarrow> int" where
  "strstr_internal cs pos substr =
     (let c0 = (case substr of [] \<Rightarrow> 0 | q # _ \<Rightarrow> schar q);
          p = pos + length (takeWhile (\<lambda>c. c \<noteq> c0) (drop pos cs))
      in if length cs \<le> p then - 1
         else if match_rest (drop p cs) substr = [] then int p
         else strstr_internal cs (p + 1) substr)"
  by pat_completeness auto
termination
  by (relation "measure (\<lambda>(cs, pos, _). length cs - pos)") (auto simp: Let_def)

declare strstr_internal.simps [simp del]

definition YogString_strstr :: "ystring \<Rightarrow> byte list \<Rightarrow> int" where
  "YogString_strstr self substr = strstr_internal (take (s_size self) (STRING_CHARS self)) 0 substr"

text \<open>The difference of two characters is unsigned: \<^verbatim>\<open>strncmp\<close> is never negative.\<close>

fun strncmp_loop :: "YogChar list \<Rightarrow> YogChar list \<Rightarrow> nat list \<Rightarrow> int res" where
  "strncmp_loop cs ds [] = Inr 0"
| "strncmp_loop cs ds (i # is) =
     res_bind (mem_load cs i) (\<lambda>c. res_bind (mem_load ds i) (\<lambda>d.
       if c \<noteq> d then Inr (int (unat (c - d))) else strncmp_loop cs ds is))"

definition YogString_strncmp :: "ystring \<Rightarrow> ystring \<Rightarrow> nat \<Rightarrow> int res" where
  "YogString_strncmp self s n = strncmp_loop (STRING_CHARS self) (STRING_CHARS s) [0..<n]"

text \<open>\<^verbatim>\<open>find\<close>: the first position from \<open>from\<close> on where the substring stands, \<^verbatim>\<open>UNSIGNED_MAX\<close> if there
  is none.\<close>

fun match_loop :: "YogChar list \<Rightarrow> YogChar list \<Rightarrow> nat \<Rightarrow> nat list \<Rightarrow> bool res" where
  "match_loop cs sub i [] = Inr True"
| "match_loop cs sub i (j # js) =
     res_bind (mem_load cs (i + j)) (\<lambda>c. res_bind (mem_load sub j) (\<lambda>d.
       if c \<noteq> d then Inr False else match_loop cs sub i js))"

fun find_pos_loop :: "YogChar list \<Rightarrow> YogChar list \<Rightarrow> nat \<Rightarrow> nat list \<Rightarrow> nat res" where
  "find_pos_loop cs sub m [] = Inr UNSIGNED_MAX"
| "find_pos_loop cs sub m (i # is) =
     res_bind (match_loop cs sub i [0..<m]) (\<lambda>found.
       if found then Inr i else find_pos_loop cs sub m is)"

definition string_find :: "ystring \<Rightarrow> ystring \<Rightarrow> nat \<Rightarrow> nat res" where
  "string_find self substr from =
     (let end_pos = usub (s_size self) (s_size substr)
      in if s_size self < end_pos then Inr UNSIGNED_MAX
         else find_pos_loop (STRING_CHARS self) (STRING_CHARS substr) (s_size substr)
                [from..<end_pos + 1])"

fun strrchr_loop :: "YogChar list \<Rightarrow> YogChar \<Rightarrow> nat \<Rightarrow> int res" where
  "strrchr_loop cs c 0 = Inr (- 1)"
| "strrchr_loop cs c (Suc i) =
     res_bind (mem_load cs i) (\<lambda>d. if d = c then Inr (int i) else strrchr_loop cs c i)"

definition YogString_strrchr :: "ystring \<Rightarrow> byte \<Rightarrow> int res" where
  "YogString_strrchr self c = strrchr_loop (STRING_CHARS self) (schar c) (s_size self)"

fun find_char_loop :: "YogChar list \<Rightarrow> YogChar \<Rightarrow> nat list \<Rightarrow> int res" where
  "find_char_loop cs c [] = Inr (- 1)"
| "find_char_loop cs c (i # is) =
     res_bind (mem_load cs i) (\<lambda>d. if d = c then Inr (int i) else find_char_loop cs c is)"

definition YogString_find_char :: "ystring \<Rightarrow> nat \<Rightarrow> YogChar \<Rightarrow> int res" where
  "YogString_find_char self start c = find_char_loop (STRING_CHARS self) c [start..<s_size self]"

section \<open>Concatenation and substitution\<close>

definition YogString_append :: "ystring \<Rightarrow> ystring \<Rightarrow> ystring res" where
  "YogString_append self s =
     (let self_size = YogString_size self; sz = YogString_size s; n = uwrap (self_size + sz)
      in res_bind (ensure_size self n) (\<lambda>self.
         res_bind (copy_chars self self_size s 0 sz) (\<lambda>self. Inr (self\<lparr>s_size := n\<rparr>))))"

definition YogString_append_string :: "ystring \<Rightarrow> byte list \<Rightarrow> ystring res" where
  "YogString_append_string self s =
     res_bind (YogString_from_string s) (\<lambda>t.
       let size1 = s_size self; size2 = s_size t; n = uwrap (size1 + size2)
       in if \<not> size1 \<le> n then Inl (YogBug ''maybe overflow (%u + %u = %u)'')
          else
            res_bind (YogCharArray_new n) (\<lambda>body.
            res_bind (mem_copy body 0 (STRING_CHARS self) 0 size1) (\<lambda>body.
            res_bind (mem_copy body size1 (STRING_CHARS t) 0 size2) (\<lambda>body.
              Inr (self\<lparr>s_body := Some body, s_size := n\<rparr>)))))"

text \<open>\<open>ADD_STR\<close> of \<^verbatim>\<open>gsub\<close>: the characters of \<open>self\<close> from \<open>from\<close> up to \<open>end_p\<close> are appended to \<open>s\<close>. A
  round of the loop that finds an empty substring does not advance; \<open>fuel\<close> bounds the rounds.\<close>

definition add_str :: "ystring \<Rightarrow> ystring \<Rightarrow> nat \<Rightarrow> nat \<Rightarrow> ystring res" where
  "add_str self s from end_p =
     (let n = usub end_p from
      in res_bind (YogString_of_size n) (\<lambda>t.
         res_bind (copy_chars t 0 self from n) (\<lambda>t.
           YogString_append s (t\<lparr>s_size := n\<rparr>))))"

fun gsub_loop :: "nat \<Rightarrow> ystring \<Rightarrow> ystring \<Rightarrow> ystring \<Rightarrow> ystring \<Rightarrow> nat \<Rightarrow> ystring res" where
  "gsub_loop 0 self substr to s from = Inl NoReturn"
| "gsub_loop (Suc fuel) self substr to s from =
     res_bind (string_find self substr from) (\<lambda>index.
       if index \<noteq> UNSIGNED_MAX
       then res_bind (add_str self s from index) (\<lambda>s.
            res_bind (YogString_append s to) (\<lambda>s.
              gsub_loop fuel self substr to s (uwrap (index + YogString_size substr))))
       else add_str self s from (s_size self))"

definition string_gsub :: "str_obj yval \<Rightarrow> str_obj yval \<Rightarrow> str_obj yval \<Rightarrow> nat \<Rightarrow> ystring res" where
  "string_gsub self substr to fuel =
     check_self_string self (\<lambda>self.
       case substr of
         YPtr (OStr substr) \<Rightarrow>
           (case to of
              YPtr (OStr to) \<Rightarrow> res_bind YogString_new (\<lambda>s. gsub_loop fuel self substr to s 0)
            | _ \<Rightarrow> Inl (TypeError ''replacing string must be String''))
       | _ \<Rightarrow> Inl (TypeError ''substring must be String''))"

definition string_get_size :: "str_obj yval \<Rightarrow> 'o yval res" where
  "string_get_size self = check_self_string self (\<lambda>s. Inr (int2val (int (s_size s))))"

definition string_to_s :: "str_obj yval \<Rightarrow> ystring res" where
  "string_to_s self = check_self_string self Inr"

definition update_class :: "ystring \<Rightarrow> nat \<Rightarrow> ystring" where
  "update_class self klass = self\<lparr>s_class := klass\<rparr>"

definition update_class_to :: "ystring \<Rightarrow> ystring \<Rightarrow> ystring" where
  "update_class_to self other = update_class self (s_class other)"

definition YogString_binop_add :: "ystring \<Rightarrow> str_obj yval \<Rightarrow> ystring res" where
  "YogString_binop_add self s =
     (case s of
        YPtr (OStr right) \<Rightarrow>
          (let size1 = s_size self; size2 = s_size right; n = uwrap (size1 + size2)
           in res_bind (YogString_of_size n) (\<lambda>t.
              res_bind (copy_chars t 0 self 0 size1) (\<lambda>t.
              res_bind (copy_chars t size1 right 0 size2) (\<lambda>t.
                Inr (update_class_to (t\<lparr>s_size := n\<rparr>) self)))))
      | _ \<Rightarrow> binop_type_error ''+'')"

definition string_add :: "str_obj yval \<Rightarrow> str_obj yval \<Rightarrow> ystring res" where
  "string_add self s =
     check_self_string self (\<lambda>self.
       case s of
         YPtr (OStr right) \<Rightarrow> YogString_binop_add self s
       | _ \<Rightarrow> Inl (TypeError ''Can't convert %C object to string implicitly''))"

definition YogString_binop_multiply :: "ystring \<Rightarrow> 'o yval \<Rightarrow> ystring res" where
  "YogString_binop_multiply self n =
     (case n of
        YFixnum num \<Rightarrow>
          (let sz = s_size self; needed_size = uwrap (sz * to_uint num)
           in if num < 0 then Inl (ArgumentError ''Negative argument'')
              else if num \<noteq> 0 \<and> needed_size div to_uint num \<noteq> sz
              then Inl (OverflowError ''Repeated string is too long'')
              else
                res_bind (YogString_of_size needed_size) (\<lambda>s.
                res_bind (foldM (\<lambda>i s. copy_chars s (uwrap (i * sz)) self 0 sz) [0..<nat num] s) (\<lambda>s.
                  Inr (update_class_to (s\<lparr>s_size := needed_size\<rparr>) self))))
      | _ \<Rightarrow> Inl (TypeError ''Can't multiply string by non-Fixnum of type %C''))"

definition string_multiply :: "str_obj yval \<Rightarrow> 'o yval \<Rightarrow> ystring res" where
  "string_multiply self n = check_self_string self (\<lambda>self. YogString_binop_multiply self n)"

definition YogString_binop_lshift :: "ystring \<Rightarrow> str_obj yval \<Rightarrow> ystring res" where
  "YogString_binop_lshift self s =
     (case s of
        YPtr (OStr s) \<Rightarrow>
          (let size1 = YogString_size self; size2 = YogString_size s; n = uwrap (size1 + size2)
           in res_bind (ensure_size self n) (\<lambda>self.
              res_bind (copy_chars self size1 s 0 size2) (\<lambda>self. Inr (self\<lparr>s_size := n\<rparr>))))
      | _ \<Rightarrow> Inl (TypeError ''Operand must be String''))"

definition string_lshift :: "str_obj yval \<Rightarrow> str_obj yval \<Rightarrow> ystring res" where
  "string_lshift self s = check_self_string self (\<lambda>self. YogString_binop_lshift self s)"

section \<open>Indices\<close>

definition index2offset :: "ystring \<Rightarrow> int \<Rightarrow> nat option" where
  "index2offset self index =
     (if index < 0 then None else if nat index < s_size self then Some (nat index) else None)"

text \<open>\<^verbatim>\<open>STRING_SIZE(self) + index\<close> is computed as \<^verbatim>\<open>uint_t\<close> and converted.\<close>

definition string_normalize_index :: "ystring \<Rightarrow> int \<Rightarrow> int" where
  "string_normalize_index self index =
     (if 0 \<le> index then index else to_int (uwrap (s_size self + to_uint index)))"

definition unnormalized_index2offset :: "ystring \<Rightarrow> int \<Rightarrow> nat res" where
  "unnormalized_index2offset self index =
     (case index2offset self (string_normalize_index self index) of
        None \<Rightarrow> Inl (IndexError ''String index out of range'')
      | Some offset \<Rightarrow> Inr offset)"

definition get_at :: "ystring \<Rightarrow> nat \<Rightarrow> ystring res" where
  "get_at self offset =
     res_bind (YogString_of_size 1) (\<lambda>c.
     res_bind (mem_load (STRING_CHARS self) offset) (\<lambda>x.
     res_bind (mem_store (STRING_CHARS c) 0 x) (\<lambda>cs.
       Inr ((with_chars c cs)\<lparr>s_size := 1\<rparr>))))"

text \<open>\<^verbatim>\<open>get\<close> returns the default as it is; it does not check \<open>self\<close>.\<close>

definition string_get :: "ystring \<Rightarrow> 'o yval \<Rightarrow> str_obj yval \<Rightarrow> str_obj yval res" where
  "string_get self index default_val =
     (case index of
        YFixnum i \<Rightarrow>
          (case index2offset self (string_normalize_index self i) of
             None \<Rightarrow> Inr default_val
           | Some offset \<Rightarrow> res_bind (get_at self offset) (\<lambda>c. Inr (YPtr (OStr c))))
      | _ \<Rightarrow> Inl (TypeError ''String index must be Fixnum''))"

definition YogString_subscript :: "ystring \<Rightarrow> 'o yval \<Rightarrow> ystring res" where
  "YogString_subscript self index =
     (case index of
        YFixnum i \<Rightarrow> res_bind (unnormalized_index2offset self i) (get_at self)
      | _ \<Rightarrow> Inl (TypeError ''String index must be Fixnum''))"

definition string_subscript :: "str_obj yval \<Rightarrow> 'o yval \<Rightarrow> ystring res" where
  "string_subscript self index = check_self_string self (\<lambda>self. YogString_subscript self index)"

definition string_assign_subscript :: "str_obj yval \<Rightarrow> 'o yval \<Rightarrow> str_obj yval \<Rightarrow> ystring res" where
  "string_assign_subscript self index val =
     check_self_string self (\<lambda>self.
       case index of
         YFixnum i \<Rightarrow>
           (case val of
              YPtr (OStr v) \<Rightarrow>
                res_bind (unnormalized_index2offset self i) (\<lambda>offset.
                res_bind (mem_load (STRING_CHARS v) 0) (\<lambda>c.
                res_bind (mem_store (STRING_CHARS self) offset c) (\<lambda>cs.
                  Inr (with_chars self cs))))
            | _ \<Rightarrow> Inl (TypeError ''value must be String''))
       | _ \<Rightarrow> Inl (TypeError ''String index must be Fixnum''))"

definition normalize_position :: "int \<Rightarrow> int \<Rightarrow> int" where
  "normalize_position pos max_index = (if pos < 0 then pos + max_index + 1 else pos)"

text \<open>The optional length is used as an integer without a check of its kind.\<close>

definition normalize_length :: "YogVal option \<Rightarrow> int \<Rightarrow> int \<Rightarrow> int" where
  "normalize_length len max_index pos =
     (case len of
        None \<Rightarrow> max_index - pos + 1
      | Some l \<Rightarrow> if max_index < pos + VAL2INT l then max_index - pos + 1 else VAL2INT l)"

definition YogString_slice :: "ystring \<Rightarrow> nat \<Rightarrow> nat \<Rightarrow> ystring res" where
  "YogString_slice self pos n =
     res_bind (YogString_of_size n) (\<lambda>s.
     res_bind (copy_chars s 0 self pos n) (\<lambda>s. Inr (s\<lparr>s_size := n\<rparr>)))"

definition create_string_of_class :: "ystring \<Rightarrow> ystring res" where
  "create_string_of_class self = res_bind YogString_new (\<lambda>s. Inr (update_class_to s self))"

definition string_slice :: "str_obj yval \<Rightarrow> YogVal \<Rightarrow> YogVal option \<Rightarrow> ystring res" where
  "string_slice self pos len =
     check_self_string self (\<lambda>self.
       let max_index = to_int (usub (s_size self) 1)
       in if \<not> IS_FIXNUM pos then Inl (TypeError ''pos must be Fixnum, not %C'')
          else
            let n = normalize_position (VAL2INT pos) max_index
            in if n < 0 \<or> max_index < n then create_string_of_class self
               else
                 case index2offset self n of
                   None \<Rightarrow> Inl (IndexError ''Position %d out of range [-%u, %u]'')
                 | Some begin_off \<Rightarrow>
                     if (case len of None \<Rightarrow> False | Some l \<Rightarrow> VAL2INT l \<le> 0)
                     then create_string_of_class self
                     else
                       (case index2offset self (n + normalize_length len max_index n - 1) of
                          None \<Rightarrow> Inl (ValueError ''Length %d out of range [0, %d]'')
                        | Some end_off \<Rightarrow>
                            res_bind (YogString_slice self begin_off (end_off - begin_off + 1)) (\<lambda>s.
                              Inr (update_class_to s self))))"

section \<open>Iteration and formatting\<close>

text \<open>\<open>block\<close> is a call of the block with one string; it does not change \<open>self\<close>.\<close>

fun each_line_loop :: "nat \<Rightarrow> ystring \<Rightarrow> (ystring \<Rightarrow> 's \<Rightarrow> 's res) \<Rightarrow> nat \<Rightarrow> 's \<Rightarrow> 's res" where
  "each_line_loop 0 self block i st = (if i < s_size self then Inl NoReturn else Inr st)"
| "each_line_loop (Suc fuel) self block i st =
     (if i < s_size self then
        res_bind (YogString_find_char self i 0x0a) (\<lambda>pos.
          let len = usub (if pos < 0 then s_size self else nat pos) i
          in res_bind (YogString_slice self i len) (\<lambda>line.
             res_bind (block line st) (\<lambda>st.
               each_line_loop fuel self block (uwrap (i + len + (if pos < 0 then 0 else 1))) st)))
      else Inr st)"

definition string_each_line :: "str_obj yval \<Rightarrow> (ystring \<Rightarrow> 's \<Rightarrow> 's res) \<Rightarrow> 's \<Rightarrow> 's res" where
  "string_each_line self block st =
     check_self_string self (\<lambda>self. each_line_loop (s_size self) self block 0 st)"

definition string_each :: "str_obj yval \<Rightarrow> (ystring \<Rightarrow> 's \<Rightarrow> 's res) \<Rightarrow> 's \<Rightarrow> 's res" where
  "string_each self block st =
     check_self_string self (\<lambda>self.
       foldM (\<lambda>i st. res_bind (get_at self i) (\<lambda>c. block c st)) [0..<s_size self] st)"

text \<open>\<^verbatim>\<open>%08x\<close>, and the bytes of an ASCII literal.\<close>

definition hex_digit :: "nat \<Rightarrow> byte" where
  "hex_digit d = of_nat (if d < 10 then 48 + d else 87 + d)"

definition format_08x :: "YogChar \<Rightarrow> byte list" where
  "format_08x c = map (\<lambda>k. hex_digit (unat c div 16 ^ k mod 16)) [7, 6, 5, 4, 3, 2, 1, 0]"

definition ascii_bytes :: "string \<Rightarrow> byte list" where
  "ascii_bytes s = map of_char s"

definition string_dump :: "str_obj yval \<Rightarrow> ystring res" where
  "string_dump self =
     check_self_string self (\<lambda>self.
       res_bind YogString_new (\<lambda>s.
       res_bind (mem_load (STRING_CHARS self) 0) (\<lambda>c.
       res_bind (YogString_append_string s (ascii_bytes ''0x'' @ format_08x c)) (\<lambda>s.
         foldM (\<lambda>i s. res_bind (mem_load (STRING_CHARS self) i) (\<lambda>c.
                   YogString_append_string s (ascii_bytes '' 0x'' @ format_08x c)))
           [1..<s_size self] s))))"

section \<open>Hashing and comparison\<close>

definition hash_step :: "YogChar list \<Rightarrow> nat \<Rightarrow> int \<Rightarrow> int res" where
  "hash_step cs i val = res_bind (mem_load cs i) (\<lambda>c. Inr (iwrap (val * 997 + int (unat c))))"

definition YogString_hash :: "ystring \<Rightarrow> int res" where
  "YogString_hash self =
     res_bind (foldM (hash_step (STRING_CHARS self)) [0..<s_size self] 0) (\<lambda>val.
       Inr (iwrap (val + drop_bit 5 val)))"

definition string_hash :: "str_obj yval \<Rightarrow> 'o yval res" where
  "string_hash self =
     check_self_string self (\<lambda>self. res_bind (YogString_hash self) (\<lambda>h. Inr (int2val h)))"

text \<open>The bytes of the first \<open>n\<close> characters in memory, least significant first, and \<^verbatim>\<open>memcmp\<close> on as many
  bytes of both sides.\<close>

definition char_bytes :: "YogChar \<Rightarrow> byte list" where
  "char_bytes c = [ucast c, ucast (drop_bit 8 c), ucast (drop_bit 16 c), ucast (drop_bit 24 c)]"

definition string_bytes :: "ystring \<Rightarrow> nat \<Rightarrow> byte list res" where
  "string_bytes s n =
     (if n \<le> length (STRING_CHARS s) then Inr (concat (map char_bytes (take n (STRING_CHARS s))))
      else Inl MemFault)"

fun c_memcmp :: "byte list \<Rightarrow> byte list \<Rightarrow> int" where
  "c_memcmp (x # xs) (y # ys) = (if x < y then - 1 else if y < x then 1 else c_memcmp xs ys)"
| "c_memcmp xs ys = 0"

definition get_smaller_size :: "ystring \<Rightarrow> ystring \<Rightarrow> nat" where
  "get_smaller_size s t = (if s_size s < s_size t then s_size s else s_size t)"

definition YogString_binop_ufo :: "ystring \<Rightarrow> str_obj yval \<Rightarrow> 'o yval res" where
  "YogString_binop_ufo self s =
     (case s of
        YPtr (OStr t) \<Rightarrow>
          (let n = get_smaller_size self t
           in res_bind (string_bytes self n) (\<lambda>p.
              res_bind (string_bytes t n) (\<lambda>q.
                let result = c_memcmp p q
                in if result < 0 then Inr (int2val (- 1))
                   else if 0 < result then Inr (int2val 1)
                   else if s_size self < s_size t then Inr (int2val (- 1))
                   else if s_size t < s_size self then Inr (int2val 1)
                   else Inr (int2val 0))))
      | _ \<Rightarrow> Inr YNil)"

definition string_ufo :: "str_obj yval \<Rightarrow> str_obj yval \<Rightarrow> 'o yval res" where
  "string_ufo self n = check_self_string self (\<lambda>self. YogString_binop_ufo self n)"

definition YogString_change_class_to_path :: "ystring \<Rightarrow> ystring" where
  "YogString_change_class_to_path self = update_class self cPath"

definition YogString_to_path :: "ystring \<Rightarrow> ystring res" where
  "YogString_to_path self =
     res_bind (YogString_clone self) (\<lambda>path. Inr (YogString_change_class_to_path path))"

definition string_to_path :: "str_obj yval \<Rightarrow> ystring res" where
  "string_to_path self = check_self_string self YogString_to_path"

end
