(* ===== verification/YogStringLaws.thy ===== *)
theory YogStringLaws
  imports YogString YogSequence YogComparable "HOL-Library.List_Lexorder"
begin

text \<open>
  What the operations of \<^verbatim>\<open>YogString\<close> promise on well-formed strings: the growth of the body, the
  operations as operations on the list of characters, substitution against a reference function,
  and the order of \<^verbatim>\<open><=>\<close>.
\<close>

section \<open>Well-formed strings\<close>

definition string_ok :: "ystring \<Rightarrow> bool" where
  "string_ok s \<longleftrightarrow> s_size s \<le> length (STRING_CHARS s) \<and> length (STRING_CHARS s) < 2 ^ 62"

definition chars_of :: "ystring \<Rightarrow> YogChar list" where
  "chars_of s = take (s_size s) (STRING_CHARS s)"

lemma length_chars_of [simp]: "string_ok s \<Longrightarrow> length (chars_of s) = s_size s"
  by (simp add: string_ok_def chars_of_def)

lemma string_ok_small: "string_ok s \<Longrightarrow> s_size s < 2 ^ 62"
  by (simp add: string_ok_def)

lemma STRING_CHARS_simps [simp]:
  "s_body s = Some cs \<Longrightarrow> STRING_CHARS s = cs"
  "STRING_CHARS (s\<lparr>s_body := Some cs\<rparr>) = cs"
  "STRING_CHARS (s\<lparr>s_size := n\<rparr>) = STRING_CHARS s"
  "STRING_CHARS (s\<lparr>s_class := k\<rparr>) = STRING_CHARS s"
  by (simp_all add: STRING_CHARS_def)

lemma with_chars_simps [simp]:
  "length cs = length (STRING_CHARS s) \<Longrightarrow> STRING_CHARS (with_chars s cs) = cs"
  "s_size (with_chars s cs) = s_size s"
  "s_class (with_chars s cs) = s_class s"
  by (cases s; auto simp: with_chars_def STRING_CHARS_def split: option.splits)+

lemma YogCharArray_new_ok: "n < 2 ^ 62 \<Longrightarrow> YogCharArray_new n = Inr (replicate n 0)"
  by (simp add: YogCharArray_new_def check_multiply_ok)

lemma copy_chars_ok:
  assumes "d + n \<le> length (STRING_CHARS dest)" "p + n \<le> length (STRING_CHARS src)"
  shows "copy_chars dest d src p n =
    Inr (with_chars dest (take d (STRING_CHARS dest) @ take n (drop p (STRING_CHARS src))
           @ drop (d + n) (STRING_CHARS dest)))"
  using assms by (simp add: copy_chars_def mem_copy_ok)

lemma of_size_ok:
  assumes "n < 2 ^ 62"
  shows "\<exists>s. YogString_of_size n = Inr s \<and> s_size s = 0 \<and> length (STRING_CHARS s) = n
    \<and> s_class s = cString"
  using assms
  by (cases "n = 0")
    (auto simp: YogString_of_size_def YogCharArray_new_ok string_alloc_def STRING_CHARS_def)

text \<open>A new string that is filled by one copy, as most operations build their result.\<close>

lemma filled_copy:
  assumes "n < 2 ^ 62" "p + n \<le> length (STRING_CHARS src)"
  shows "\<exists>s t. YogString_of_size n = Inr s \<and> copy_chars s 0 src p n = Inr t
    \<and> STRING_CHARS t = take n (drop p (STRING_CHARS src)) \<and> s_class t = cString"
proof -
  obtain s where s: "YogString_of_size n = Inr s" "length (STRING_CHARS s) = n" "s_class s = cString"
    using of_size_ok[OF assms(1)] by blast
  have "copy_chars s 0 src p n = Inr (with_chars s (take n (drop p (STRING_CHARS src))))"
    using copy_chars_ok[of 0 n s p src] s assms by simp
  then show ?thesis using s assms by auto
qed

section \<open>Growth\<close>

lemma capacity_loop_ok:
  assumes "c \<le> needed" "needed < c * 2 ^ f" "needed \<le> 2 ^ 62" "0 < c"
  shows "\<exists>r. capacity_loop f c needed = Inr r \<and> needed \<le> r \<and> r \<le> 2 * needed"
  using assms
proof (induction f arbitrary: c)
  case (Suc f)
  have w: "uwrap (2 * c) = 2 * c" using Suc.prems by (intro uwrap_small) simp
  show ?case
  proof (cases "2 * c < needed")
    case True
    then show ?thesis using Suc.IH[of "2 * c"] Suc.prems w by (simp add: Let_def)
  next
    case False
    then show ?thesis using Suc.prems w by (simp add: Let_def)
  qed
qed simp

lemma ensure_size_ok:
  assumes ok: "string_ok s" and n: "n \<le> 2 ^ 60"
  shows "\<exists>t. ensure_size s n = Inr t \<and> string_ok t \<and> s_size t = s_size s \<and> s_class t = s_class s
    \<and> n \<le> length (STRING_CHARS t) \<and> chars_of t = chars_of s"
proof -
  obtain s1 where s1: "ensure_body s = Inr s1" "string_ok s1" "s_size s1 = s_size s"
    "s_class s1 = s_class s" "chars_of s1 = chars_of s" "1 \<le> length (STRING_CHARS s1) \<or> s_body s1 \<noteq> None"
  proof (cases "s_body s")
    case None
    then have "s_size s = 0" using ok by (simp add: string_ok_def STRING_CHARS_def)
    then show ?thesis using None that[of "s\<lparr>s_body := Some [0]\<rparr>"]
      by (simp add: ensure_body_def YogCharArray_new_ok string_ok_def chars_of_def)
  next
    case (Some cs)
    then show ?thesis using that[of s] ok by (simp add: ensure_body_def)
  qed
  show ?thesis
  proof (cases "n \<le> length (STRING_CHARS s1)")
    case True
    then show ?thesis using s1 by (simp add: ensure_size_def)
  next
    case False
    then obtain r where r: "capacity_loop 65 1 n = Inr r" "n \<le> r" "r \<le> 2 * n"
      using capacity_loop_ok[of 1 n 65] n by fastforce
    have r62: "r < 2 ^ 62" using r n by simp
    have sz: "s_size s1 \<le> length (STRING_CHARS s1)" "s_size s1 \<le> r"
      using s1(2) False r(2) by (simp_all add: string_ok_def)
    let ?b = "take (s_size s1) (STRING_CHARS s1) @ drop (s_size s1) (replicate r 0)"
    have "mem_copy (replicate r 0) 0 (STRING_CHARS s1) 0 (s_size s1) = Inr ?b"
      using mem_copy_ok[of 0 "s_size s1" "replicate r 0" 0 "STRING_CHARS s1"] sz by simp
    then have "ensure_size s n = Inr (s1\<lparr>s_body := Some ?b\<rparr>)"
      using s1(1) False r(1) r62 by (simp add: ensure_size_def YogCharArray_new_ok del: capacity_loop.simps)
    moreover have "length ?b = r" using sz by simp
    ultimately show ?thesis using s1 sz r(2) r62
      by (simp add: string_ok_def chars_of_def del: length_append take_append)
        (simp add: min_def)
  qed
qed


section \<open>Appending\<close>

text \<open>The end of every appending operation: the room is there and the characters are copied behind
  the old ones.\<close>

lemma append_at_end:
  assumes self: "string_ok self" and s: "string_ok s" and n: "s_size self + s_size s \<le> 2 ^ 60"
  shows "\<exists>t u. ensure_size self (s_size self + s_size s) = Inr t
    \<and> copy_chars t (s_size self) s 0 (s_size s) = Inr u
    \<and> string_ok (u\<lparr>s_size := s_size self + s_size s\<rparr>)
    \<and> chars_of (u\<lparr>s_size := s_size self + s_size s\<rparr>) = chars_of self @ chars_of s
    \<and> s_class u = s_class self"
proof -
  obtain t where t: "ensure_size self (s_size self + s_size s) = Inr t" "string_ok t"
    "s_size t = s_size self" "s_class t = s_class self"
    "s_size self + s_size s \<le> length (STRING_CHARS t)" "chars_of t = chars_of self"
    using ensure_size_ok[OF self n] by blast
  let ?cs = "take (s_size self) (STRING_CHARS t) @ take (s_size s) (STRING_CHARS s)
    @ drop (s_size self + s_size s) (STRING_CHARS t)"
  have sz: "s_size s \<le> length (STRING_CHARS s)" using s by (simp add: string_ok_def)
  have l: "length ?cs = length (STRING_CHARS t)" using t(5) sz by simp
  have "copy_chars t (s_size self) s 0 (s_size s) = Inr (with_chars t ?cs)"
    using copy_chars_ok[of "s_size self" "s_size s" t 0 s] t(5) sz by simp
  moreover have "chars_of ((with_chars t ?cs)\<lparr>s_size := s_size self + s_size s\<rparr>) = chars_of self @ chars_of s"
    using t(3,5,6) sz l by (simp add: chars_of_def)
  moreover have "string_ok ((with_chars t ?cs)\<lparr>s_size := s_size self + s_size s\<rparr>)"
    using t(2,5) l sz by (simp add: string_ok_def)
  ultimately show ?thesis using t by auto
qed

lemma append_ok:
  assumes "string_ok self" "string_ok s" "s_size self + s_size s \<le> 2 ^ 60"
  shows "\<exists>t. YogString_append self s = Inr t \<and> string_ok t \<and> chars_of t = chars_of self @ chars_of s
    \<and> s_class t = s_class self"
  using append_at_end[OF assms] assms(3)
  by (auto simp: YogString_append_def YogString_size_def Let_def)

lemma lshift_ok:
  assumes "string_ok self" "string_ok s" "s_size self + s_size s \<le> 2 ^ 60"
  shows "\<exists>t. YogString_binop_lshift self (YPtr (OStr s)) = Inr t \<and> string_ok t
    \<and> chars_of t = chars_of self @ chars_of s \<and> s_class t = s_class self"
  using append_at_end[OF assms] assms(3)
  by (auto simp: YogString_binop_lshift_def YogString_size_def Let_def)

lemma push_char_ok:
  assumes ok: "string_ok self" and n: "s_size self < 2 ^ 60"
  shows "\<exists>t. YogString_push self c = Inr t \<and> string_ok t \<and> chars_of t = chars_of self @ [c]"
proof -
  have u: "uwrap (s_size self + 1) = s_size self + 1" using n by (intro uwrap_small) simp
  obtain t where t: "ensure_size self (s_size self + 1) = Inr t" "string_ok t"
    "s_size t = s_size self" "s_size self + 1 \<le> length (STRING_CHARS t)" "chars_of t = chars_of self"
    using ensure_size_ok[OF ok, of "s_size self + 1"] n by auto
  then show ?thesis using u
    by (auto simp: YogString_push_def Let_def string_ok_def chars_of_def take_Suc_conv_app_nth)
qed

interpretation str: growable string_ok s_size "2 ^ 60" chars_of YogString_push
  by unfold_locales (simp, rule push_char_ok)

lemma of_chars_ok:
  assumes "length cs < 2 ^ 62"
  shows "string_ok (yog_string cs)" "chars_of (yog_string cs) = cs"
  using assms by (simp_all add: yog_string_def string_ok_def chars_of_def STRING_CHARS_def)

lemma YogString_new_ok:
  "\<exists>s. YogString_new = Inr s \<and> string_ok s \<and> chars_of s = [] \<and> s_size s = 0"
  by (simp add: YogString_new_def YogCharArray_new_ok string_ok_def chars_of_def)

section \<open>Copies\<close>

lemma slice_ok:
  assumes "string_ok self" "pos + n \<le> s_size self"
  shows "\<exists>t. YogString_slice self pos n = Inr t \<and> string_ok t
    \<and> chars_of t = take n (drop pos (chars_of self)) \<and> s_class t = cString \<and> s_size t = n"
proof -
  have b: "pos + n \<le> length (STRING_CHARS self)" "n < 2 ^ 62" using assms by (auto simp: string_ok_def)
  obtain s t where "YogString_of_size n = Inr s" "copy_chars s 0 self pos n = Inr t"
    "STRING_CHARS t = take n (drop pos (STRING_CHARS self))" "s_class t = cString"
    using filled_copy[OF b(2,1)] by blast
  moreover have "take n (drop pos (STRING_CHARS self)) = take n (drop pos (chars_of self))"
    using assms(2) by (simp add: chars_of_def drop_take min_def)
  ultimately show ?thesis using b assms
    by (simp add: YogString_slice_def string_ok_def) (simp add: chars_of_def)
qed

lemma clone_ok:
  assumes "string_ok self"
  shows "\<exists>t. YogString_clone self = Inr t \<and> string_ok t \<and> chars_of t = chars_of self"
  using slice_ok[OF assms, of 0 "s_size self"] assms
  by (auto simp: YogString_clone_def YogString_slice_def)

section \<open>Searching\<close>

definition occurs_at :: "YogChar list \<Rightarrow> YogChar list \<Rightarrow> nat \<Rightarrow> bool" where
  "occurs_at cs pat i \<longleftrightarrow> take (length pat) (drop i cs) = pat"

lemma occurs_at_bound: "occurs_at cs pat i \<Longrightarrow> pat \<noteq> [] \<Longrightarrow> i + length pat \<le> length cs"
proof -
  assume "occurs_at cs pat i" "pat \<noteq> []"
  then have "min (length cs - i) (length pat) = length pat" "0 < length pat"
    by (auto simp: occurs_at_def dest: arg_cong[where f=length])
  then show ?thesis by arith
qed

lemma match_loop_all:
  "\<forall>j \<in> set js. i + j < length cs \<and> j < length sub \<Longrightarrow>
   match_loop cs sub i js = Inr (\<forall>j \<in> set js. cs ! (i + j) = sub ! j)"
  by (induction js) auto

lemma match_loop_occurs:
  assumes "i + m \<le> n" "n \<le> length cs" "m \<le> length sub"
  shows "match_loop cs sub i [0..<m] = Inr (occurs_at (take n cs) (take m sub) i)"
proof -
  have "(\<forall>j \<in> set [0..<m]. cs ! (i + j) = sub ! j) \<longleftrightarrow> take m (drop i (take n cs)) = take m sub"
    using assms by (auto simp: list_eq_iff_nth_eq)
  then show ?thesis using assms match_loop_all[of "[0..<m]" i cs sub]
    by (auto simp: occurs_at_def)
qed

lemma find_pos_loop_find:
  assumes "\<forall>i \<in> set is. match_loop cs sub i [0..<m] = Inr (P i)"
  shows "find_pos_loop cs sub m is = Inr (case find P is of None \<Rightarrow> UNSIGNED_MAX | Some i \<Rightarrow> i)"
  using assms by (induction "is") auto

lemma string_find_spec:
  assumes "string_ok self" "string_ok substr"
  shows "string_find self substr from = Inr (case find (occurs_at (chars_of self) (chars_of substr))
      [from..<s_size self + 1 - s_size substr] of None \<Rightarrow> UNSIGNED_MAX | Some i \<Rightarrow> i)"
proof (cases "s_size substr \<le> s_size self")
  case True
  have "find_pos_loop (STRING_CHARS self) (STRING_CHARS substr) (s_size substr)
      [from..<s_size self + 1 - s_size substr]
    = Inr (case find (occurs_at (chars_of self) (chars_of substr)) [from..<s_size self + 1 - s_size substr]
        of None \<Rightarrow> UNSIGNED_MAX | Some i \<Rightarrow> i)"
    by (rule find_pos_loop_find, unfold chars_of_def, intro ballI match_loop_occurs)
      (use assms True in \<open>auto simp: string_ok_def\<close>)
  moreover have "s_size self - s_size substr + 1 = s_size self + 1 - s_size substr" using True by simp
  ultimately show ?thesis using True assms string_ok_small[of self]
    by (simp add: string_find_def Let_def del: upt_Suc)
next
  case False
  then have "s_size self < usub (s_size self) (s_size substr)"
    using assms string_ok_small by (subst usub_gt) (auto simp: string_ok_def)
  then show ?thesis using False by (simp add: string_find_def Let_def)
qed

text \<open>The first occurrence: what \<^verbatim>\<open>find\<close> returns when it finds something, and when not.\<close>

lemma find_upt_Some:
  "find P [a..<b] = Some i \<Longrightarrow> a \<le> i \<and> i < b \<and> P i \<and> (\<forall>j. a \<le> j \<and> j < i \<longrightarrow> \<not> P j)"
proof -
  assume "find P [a..<b] = Some i"
  then obtain k where k: "k < b - a" "i = a + k" "P i" "\<forall>j<k. \<not> P (a + j)"
    by (auto simp: find_Some_iff)
  have "\<not> P j" if "a \<le> j" "j < i" for j using k(2,4) that by (auto dest: le_Suc_ex)
  then show ?thesis using k by auto
qed

lemma find_upt_None: "find P [a..<b] = None \<longleftrightarrow> (\<forall>j. a \<le> j \<and> j < b \<longrightarrow> \<not> P j)"
  by (auto simp: find_None_iff)

section \<open>Substitution\<close>

text \<open>The reference: read the string from the left and replace each occurrence that is met.\<close>

lemma drop_occurrence: "pat \<noteq> [] \<Longrightarrow> take (length pat) cs = pat \<Longrightarrow> length (drop (length pat) cs) < length cs"
  by (cases cs; cases pat) auto

function replace_all :: "YogChar list \<Rightarrow> YogChar list \<Rightarrow> YogChar list \<Rightarrow> YogChar list" where
  "replace_all pat to cs =
     (if pat \<noteq> [] \<and> take (length pat) cs = pat
      then to @ replace_all pat to (drop (length pat) cs)
      else case cs of [] \<Rightarrow> [] | c # cs' \<Rightarrow> c # replace_all pat to cs')"
  by pat_completeness auto
termination
  by (relation "measure (\<lambda>(_, _, cs). length cs)") (auto simp: drop_occurrence simp del: length_drop)

declare replace_all.simps [simp del]

lemma replace_all_skip:
  "\<forall>j < k. \<not> occurs_at cs pat j \<Longrightarrow> k \<le> length cs \<Longrightarrow>
   replace_all pat to cs = take k cs @ replace_all pat to (drop k cs)"
proof (induction k arbitrary: cs)
  case (Suc k)
  then obtain c cs' where cs: "cs = c # cs'" by (cases cs) auto
  have "\<forall>j < k. \<not> occurs_at cs' pat j" using Suc.prems(1) cs by (auto simp: occurs_at_def)
  moreover have "\<not> occurs_at cs pat 0" using Suc.prems(1) by simp
  ultimately show ?case using Suc.IH[of cs'] Suc.prems(2) cs
    by (subst replace_all.simps) (auto simp: occurs_at_def)
qed simp

lemma replace_all_hit:
  "pat \<noteq> [] \<Longrightarrow> occurs_at cs pat 0 \<Longrightarrow>
   replace_all pat to cs = to @ replace_all pat to (drop (length pat) cs)"
  by (subst replace_all.simps) (simp add: occurs_at_def)

lemma replace_all_none:
  assumes "\<forall>j < length cs + 1 - length pat. \<not> occurs_at cs pat j" "pat \<noteq> []"
  shows "replace_all pat to cs = cs"
proof -
  have "\<not> occurs_at cs pat j" for j
    using assms(1) occurs_at_bound[of cs pat j] assms(2) by (cases "j < length cs + 1 - length pat") auto
  then show ?thesis using replace_all_skip[of "length cs" cs pat to] assms(2)
    by (simp add: replace_all.simps)
qed

lemma occurs_at_drop: "occurs_at (drop a cs) pat i = occurs_at cs pat (a + i)"
  by (simp add: occurs_at_def add.commute)

lemma replace_all_first:
  assumes "find (occurs_at cs pat) [a..<length cs + 1 - length pat] = Some i" "pat \<noteq> []"
  shows "replace_all pat to (drop a cs) = take (i - a) (drop a cs) @ to @ replace_all pat to (drop (i + length pat) cs)
    \<and> a \<le> i \<and> i + length pat \<le> length cs"
proof -
  have i: "a \<le> i" "occurs_at cs pat i" "\<forall>j. a \<le> j \<and> j < i \<longrightarrow> \<not> occurs_at cs pat j"
    using find_upt_Some[OF assms(1)] by auto
  have b: "i + length pat \<le> length cs" by (rule occurs_at_bound[OF i(2) assms(2)])
  have "replace_all pat to (drop a cs) = take (i - a) (drop a cs) @ replace_all pat to (drop (i - a) (drop a cs))"
    by (rule replace_all_skip) (use i b in \<open>auto simp: occurs_at_drop\<close>)
  also have "drop (i - a) (drop a cs) = drop i cs" using i(1) by simp
  also have "replace_all pat to (drop i cs) = to @ replace_all pat to (drop (i + length pat) cs)"
    using replace_all_hit[of pat "drop i cs" to] assms(2) i(2) by (simp add: occurs_at_drop add.commute)
  finally show ?thesis using i(1) b by simp
qed

lemma replace_all_last:
  assumes "find (occurs_at cs pat) [a..<length cs + 1 - length pat] = None" "pat \<noteq> []"
  shows "replace_all pat to (drop a cs) = drop a cs"
proof (rule replace_all_none)
  have "\<not> occurs_at cs pat (a + j)" for j
    using assms occurs_at_bound[of cs pat "a + j"] by (auto simp: find_upt_None)
  then show "\<forall>j < length (drop a cs) + 1 - length pat. \<not> occurs_at (drop a cs) pat j"
    by (simp add: occurs_at_drop)
qed (rule assms(2))

lemma add_str_ok:
  assumes "string_ok self" "string_ok s" "from \<le> e" "e \<le> s_size self" "s_size s + (e - from) \<le> 2 ^ 60"
  shows "\<exists>t. add_str self s from e = Inr t \<and> string_ok t
    \<and> chars_of t = chars_of s @ take (e - from) (drop from (chars_of self))"
proof -
  have u: "usub e from = e - from" using assms string_ok_small[of self] by (intro usub_le) auto
  obtain t where t: "YogString_slice self from (e - from) = Inr t" "string_ok t" "s_size t = e - from"
    "chars_of t = take (e - from) (drop from (chars_of self))"
    using slice_ok[of self "from" "e - from"] assms by auto
  have "add_str self s from e = res_bind (YogString_slice self from (e - from)) (YogString_append s)"
    by (simp add: add_str_def YogString_slice_def u res_bind_assoc Let_def)
  then show ?thesis using append_ok[OF assms(2) t(2)] t assms(5) by auto
qed

lemma gsub_loop_ok:
  assumes self: "string_ok self" and sub: "string_ok substr" and to: "string_ok to"
    and ne: "chars_of substr \<noteq> []"
    and s: "string_ok s" "from \<le> s_size self" "s_size self - from < fuel"
    and room: "s_size s + length (replace_all (chars_of substr) (chars_of to) (drop from (chars_of self))) \<le> 2 ^ 60"
  shows "\<exists>t. gsub_loop fuel self substr to s from = Inr t \<and> string_ok t
    \<and> chars_of t = chars_of s @ replace_all (chars_of substr) (chars_of to) (drop from (chars_of self))"
  using s room
proof (induction fuel arbitrary: s "from")
  case (Suc fuel)
  let ?cs = "chars_of self" and ?p = "chars_of substr" and ?t = "chars_of to"
  have len: "length ?cs = s_size self" "length ?p = s_size substr" "length ?t = s_size to"
    using self sub to by simp_all
  note find = string_find_spec[OF self sub, of "from", folded len]
  show ?case
  proof (cases "find (occurs_at ?cs ?p) [from..<length ?cs + 1 - length ?p]")
    case None
    note r = replace_all_last[OF None ne, of ?t]
    have "\<exists>t. add_str self s from (s_size self) = Inr t \<and> string_ok t
        \<and> chars_of t = chars_of s @ take (s_size self - from) (drop from ?cs)"
      by (rule add_str_ok) (use self Suc.prems r len in auto)
    then show ?thesis using find None r len by auto
  next
    case (Some i)
    have r: "replace_all ?p ?t (drop from ?cs) = take (i - from) (drop from ?cs) @ ?t
        @ replace_all ?p ?t (drop (i + length ?p) ?cs)"
      and i: "from \<le> i" "i + length ?p \<le> length ?cs"
      using replace_all_first[OF Some ne, of ?t] by auto
    have room: "s_size s + (i - from) + s_size to + length (replace_all ?p ?t (drop (i + length ?p) ?cs)) \<le> 2 ^ 60"
      using Suc.prems(4) i len r by simp
    have max: "i \<noteq> UNSIGNED_MAX" using i(2) len string_ok_small[OF self] by (simp add: UNSIGNED_MAX_def)
    obtain s1 where s1: "add_str self s from i = Inr s1" "string_ok s1"
      "chars_of s1 = chars_of s @ take (i - from) (drop from ?cs)"
      using add_str_ok[OF self Suc.prems(1) i(1)] i(2) len room by fastforce
    have l1: "s_size s1 = s_size s + (i - from)"
      using arg_cong[OF s1(3), of length] s1(2) Suc.prems(1) i len by simp
    obtain s2 where s2: "YogString_append s1 to = Inr s2" "string_ok s2" "chars_of s2 = chars_of s1 @ ?t"
      using append_ok[OF s1(2) to] l1 room by fastforce
    have l2: "s_size s2 = s_size s1 + s_size to" using arg_cong[OF s2(3), of length] s2(2) s1(2) len by simp
    have w: "uwrap (i + s_size substr) = i + s_size substr"
      using i(2) len string_ok_small[OF self] by (intro uwrap_small) simp
    have "length (chars_of substr) \<noteq> 0" using ne by simp
    then have pos: "0 < s_size substr" by (simp only: len(2))
    have "\<exists>t. gsub_loop fuel self substr to s2 (i + length ?p) = Inr t \<and> string_ok t
        \<and> chars_of t = chars_of s2 @ replace_all ?p ?t (drop (i + length ?p) ?cs)"
      by (rule Suc.IH) (use s2(2) i len l1 l2 room Suc.prems(2,3) pos in auto)
    then show ?thesis using find Some max s1 s2 w len r by (auto simp: YogString_size_def)
  qed
qed simp

text \<open>An empty substring is found where the search starts, so that the loop stays there.\<close>

lemma gsub_loop_empty:
  assumes "string_ok self" "string_ok substr" "string_ok to" "s_size substr = 0"
    and "string_ok s" "from \<le> s_size self" "s_size s + fuel * s_size to \<le> 2 ^ 60"
  shows "gsub_loop fuel self substr to s from = Inl NoReturn"
  using assms(5-)
proof (induction fuel arbitrary: s)
  case (Suc fuel)
  have "chars_of substr = []" using assms(4) by (simp add: chars_of_def)
  then have "find (occurs_at (chars_of self) (chars_of substr)) [from..<s_size self + 1 - s_size substr] = Some from"
    using Suc.prems(2) assms(4) by (simp add: upt_conv_Cons occurs_at_def del: upt_Suc)
  then have find: "string_find self substr from = Inr from"
    using string_find_spec[OF assms(1,2), of "from"] by simp
  have max: "from \<noteq> UNSIGNED_MAX" "from < 2 ^ 62"
    using Suc.prems(2) string_ok_small[OF assms(1)] by (simp_all add: UNSIGNED_MAX_def)
  obtain s1 where s1: "add_str self s from from = Inr s1" "string_ok s1" "chars_of s1 = chars_of s"
    using add_str_ok[OF assms(1) Suc.prems(1), of "from" "from"] Suc.prems(2,3) by auto
  have l1: "s_size s1 = s_size s" using arg_cong[OF s1(3), of length] s1(2) Suc.prems(1) by simp
  obtain s2 where s2: "YogString_append s1 to = Inr s2" "string_ok s2" "chars_of s2 = chars_of s @ chars_of to"
    using append_ok[OF s1(2) assms(3)] l1 s1(3) Suc.prems(3) by auto
  have "s_size s2 = s_size s + s_size to"
    using arg_cong[OF s2(3), of length] s2(2) Suc.prems(1) assms(3) by simp
  then have "gsub_loop fuel self substr to s2 from = Inl NoReturn"
    using Suc.IH[OF s2(2) Suc.prems(2)] Suc.prems(3) by simp
  then show ?case using find max s1(1) s2(1) assms(4) by (simp add: YogString_size_def)
qed simp

section \<open>Comparison\<close>

text \<open>\<^verbatim>\<open><=>\<close> orders strings by the bytes of their characters in memory.\<close>

definition memory_bytes :: "ystring \<Rightarrow> byte list" where
  "memory_bytes s = concat (map char_bytes (chars_of s))"

lemma c_memcmp_lex:
  "length xs = length ys \<Longrightarrow> c_memcmp xs ys = (if xs < ys then - 1 else if ys < xs then 1 else 0)"
  by (induction xs ys rule: list_induct2) auto

lemma lex_append:
  fixes p q r u :: "byte list"
  shows "length p = length q \<Longrightarrow> p @ r < q @ u \<longleftrightarrow> p < q \<or> p = q \<and> r < u"
  by (induction p q rule: list_induct2) auto

lemma length_char_bytes [simp]: "length (concat (map char_bytes cs)) = 4 * length cs"
  by (induction cs) (simp_all add: char_bytes_def)

lemma char_bytes_inj: "char_bytes c = char_bytes d \<longleftrightarrow> c = d"
proof
  assume e: "char_bytes c = char_bytes d"
  have "bit c n = bit d n" if "n < 32" for n
  proof -
    have "n div 8 < 4" using that by simp
    then have "n div 8 = 0 \<or> n div 8 = 1 \<or> n div 8 = 2 \<or> n div 8 = 3" by auto
    then have "(ucast (drop_bit (8 * (n div 8)) c) :: byte) = ucast (drop_bit (8 * (n div 8)) d)"
      using e by (auto simp: char_bytes_def)
    then have "bit (ucast (drop_bit (8 * (n div 8)) c) :: byte) (n mod 8)
        = bit (ucast (drop_bit (8 * (n div 8)) d) :: byte) (n mod 8)" by simp
    then show ?thesis by (simp add: bit_ucast_iff bit_drop_bit_eq)
  qed
  then show "c = d" by (intro bit_word_eqI) simp
qed simp

lemma concat_char_bytes_inj:
  "concat (map char_bytes cs) = concat (map char_bytes ds) \<longleftrightarrow> cs = ds"
proof (induction cs arbitrary: ds)
  case Nil
  then show ?case by (cases ds) (simp_all add: char_bytes_def)
next
  case (Cons c cs)
  show ?case
  proof (cases ds)
    case (Cons d ds')
    have "length (char_bytes c) = length (char_bytes d)" by (simp add: char_bytes_def)
    then show ?thesis using Cons.IH[of ds'] Cons by (simp add: char_bytes_inj)
  qed (simp add: char_bytes_def)
qed

lemma memory_bytes_inj: "memory_bytes s = memory_bytes t \<longleftrightarrow> chars_of s = chars_of t"
  by (simp add: memory_bytes_def concat_char_bytes_inj)

lemma string_ufo_sign:
  assumes s: "string_ok s" and t: "string_ok t"
  shows "YogString_binop_ufo s (YPtr (OStr t)) = Inr (YFixnum (
    if memory_bytes s < memory_bytes t then - 1 else if memory_bytes t < memory_bytes s then 1 else 0))"
proof -
  let ?n = "get_smaller_size s t"
  let ?p = "concat (map char_bytes (take ?n (chars_of s)))" and ?q = "concat (map char_bytes (take ?n (chars_of t)))"
  let ?r = "concat (map char_bytes (drop ?n (chars_of s)))" and ?u = "concat (map char_bytes (drop ?n (chars_of t)))"
  have n: "?n \<le> s_size s" "?n \<le> s_size t" by (auto simp: get_smaller_size_def)
  have b: "string_bytes s ?n = Inr ?p" "string_bytes t ?n = Inr ?q"
    using n s t by (simp_all add: string_bytes_def chars_of_def string_ok_def min_def)
  have split: "memory_bytes s = ?p @ ?r" "memory_bytes t = ?q @ ?u"
    by (simp_all add: memory_bytes_def flip: concat_append map_append)
  have len: "length ?p = length ?q" using n s t by simp
  have nil: "?r = [] \<longleftrightarrow> s_size s \<le> ?n" "?u = [] \<longleftrightarrow> s_size t \<le> ?n"
    using s t by (simp_all flip: length_0_conv)
  have less: "[] < xs \<longleftrightarrow> xs \<noteq> []" "\<not> xs < []" for xs :: "byte list" by (cases xs; simp)+
  have "?r = [] \<or> ?u = []" using nil by (auto simp: get_smaller_size_def)
  then have rest: "?r < ?u \<longleftrightarrow> s_size s < s_size t" "?u < ?r \<longleftrightarrow> s_size t < s_size s"
    using nil by (auto simp only: less get_smaller_size_def split: if_splits)
  have "FIXABLE (- 1)" "FIXABLE 1" "FIXABLE 0" by (simp_all add: FIXABLE_iff)
  then show ?thesis
    unfolding split lex_append[OF len] lex_append[OF len[symmetric]] rest
    using c_memcmp_lex[OF len] b by (auto simp: YogString_binop_ufo_def Let_def)
qed

definition is_string_val :: "str_obj yval \<Rightarrow> bool" where
  "is_string_val v = (case v of YPtr (OStr s) \<Rightarrow> string_ok s | _ \<Rightarrow> False)"

definition val_bytes :: "str_obj yval \<Rightarrow> byte list" where
  "val_bytes v = (case v of YPtr (OStr s) \<Rightarrow> memory_bytes s | _ \<Rightarrow> [])"

lemma is_string_valE:
  assumes "is_string_val v"
  obtains s where "v = YPtr (OStr s)" "string_ok s"
  using assms by (auto simp: is_string_val_def split: yval.splits str_obj.splits)

interpretation strcmp: ufo_order string_ufo is_string_val val_bytes
  by unfold_locales
    (auto elim!: is_string_valE simp: string_ufo_def check_self_string_def string_ufo_sign val_bytes_def
      split: if_splits)

section \<open>Concatenation into a new string\<close>

lemma binop_add_ok:
  assumes self: "string_ok self" and s: "string_ok s" and n: "s_size self + s_size s \<le> 2 ^ 60"
  shows "\<exists>t. YogString_binop_add self (YPtr (OStr s)) = Inr t \<and> string_ok t
    \<and> chars_of t = chars_of self @ chars_of s \<and> s_class t = s_class self"
proof -
  let ?a = "s_size self" and ?b = "s_size s"
  have w: "uwrap (?a + ?b) = ?a + ?b" "?a + ?b < 2 ^ 62" using n by (auto intro!: uwrap_small)
  have sz: "?a \<le> length (STRING_CHARS self)" "?b \<le> length (STRING_CHARS s)"
    using self s by (simp_all add: string_ok_def)
  obtain t where t: "YogString_of_size (?a + ?b) = Inr t" "length (STRING_CHARS t) = ?a + ?b"
    using of_size_ok[OF w(2)] by blast
  let ?c1 = "take ?a (STRING_CHARS self) @ drop ?a (STRING_CHARS t)"
  have l1: "length ?c1 = length (STRING_CHARS t)" using t sz by simp
  have c1: "copy_chars t 0 self 0 ?a = Inr (with_chars t ?c1)"
    using copy_chars_ok[of 0 ?a t 0 self] t sz by simp
  let ?c2 = "take ?a (STRING_CHARS self) @ take ?b (STRING_CHARS s)"
  have "copy_chars (with_chars t ?c1) ?a s 0 ?b = Inr (with_chars (with_chars t ?c1) ?c2)"
    using copy_chars_ok[of ?a ?b "with_chars t ?c1" 0 s] t sz l1 by simp
  moreover have "length ?c2 = length (STRING_CHARS (with_chars t ?c1))" using t sz l1 by simp
  ultimately show ?thesis using w t c1 sz
    by (auto simp: YogString_binop_add_def Let_def update_class_to_def update_class_def string_ok_def chars_of_def)
qed

section \<open>Properties\<close>

text \<open>The three ways to join strings agree with the concatenation of their characters: append and
  the method << grow the string in place, + makes a new one of the class of the left operand. The
  body that is grown has room for all characters, whatever it was before.\<close>

lemma string_concatenation:
  assumes "string_ok self" "string_ok s" "s_size self + s_size s \<le> 2 ^ 60"
  shows "\<exists>t u v. YogString_append self s = Inr t \<and> chars_of t = chars_of self @ chars_of s \<and> string_ok t
    \<and> string_lshift (YPtr (OStr self)) (YPtr (OStr s)) = Inr u \<and> chars_of u = chars_of self @ chars_of s \<and> string_ok u
    \<and> string_add (YPtr (OStr self)) (YPtr (OStr s)) = Inr v \<and> chars_of v = chars_of self @ chars_of s \<and> string_ok v
    \<and> s_class v = s_class self"
  using append_ok[OF assms] lshift_ok[OF assms] binop_add_ok[OF assms]
  by (auto simp: string_lshift_def string_add_def check_self_string_def)

definition sample_string :: ystring where
  "sample_string = yog_string [0x59, 0x6f, 0x67]"

lemma sample_string_ok: "string_ok sample_string" "s_size sample_string = 3"
  by (simp_all add: sample_string_def yog_string_def string_ok_def STRING_CHARS_def)

lemma string_concatenation_instance:
  "\<exists>t u v. YogString_append sample_string sample_string = Inr t
    \<and> chars_of t = chars_of sample_string @ chars_of sample_string \<and> string_ok t
    \<and> string_lshift (YPtr (OStr sample_string)) (YPtr (OStr sample_string)) = Inr u
    \<and> chars_of u = chars_of sample_string @ chars_of sample_string \<and> string_ok u
    \<and> string_add (YPtr (OStr sample_string)) (YPtr (OStr sample_string)) = Inr v
    \<and> chars_of v = chars_of sample_string @ chars_of sample_string \<and> string_ok v
    \<and> s_class v = s_class sample_string"
  by (rule string_concatenation) (simp_all add: sample_string_ok)

text \<open>C25: gsub replaces all occurrences of a substring that is not empty, as the reference function
  does that reads the string from the left; as many rounds as the string has characters, and one,
  are enough.\<close>

theorem gsub_replaces_all:
  assumes "string_ok self" "string_ok substr" "string_ok to" "s_size substr \<noteq> 0"
    and "length (replace_all (chars_of substr) (chars_of to) (chars_of self)) \<le> 2 ^ 60"
  shows "\<exists>t. string_gsub (YPtr (OStr self)) (YPtr (OStr substr)) (YPtr (OStr to)) (s_size self + 1) = Inr t
    \<and> string_ok t \<and> chars_of t = replace_all (chars_of substr) (chars_of to) (chars_of self)"
proof -
  have "chars_of substr \<noteq> []" using assms(2,4) by (metis length_chars_of list.size(3))
  moreover obtain s where new: "YogString_new = Inr s" and "string_ok s" "chars_of s = []" "s_size s = 0"
    using YogString_new_ok by blast
  ultimately show ?thesis using gsub_loop_ok[OF assms(1-3), of s 0 "s_size self + 1"] assms(5)
    by (simp add: new string_gsub_def check_self_string_def del: gsub_loop.simps)
qed

theorem gsub_replaces_all_witness:
  "\<exists>t. string_gsub (YPtr (OStr sample_string)) (YPtr (OStr (yog_string [0x6f]))) (YPtr (OStr sample_string))
        (s_size sample_string + 1) = Inr t
    \<and> string_ok t \<and> chars_of t = replace_all (chars_of (yog_string [0x6f])) (chars_of sample_string) (chars_of sample_string)"
proof (rule gsub_replaces_all)
  show "length (replace_all (chars_of (yog_string [0x6f])) (chars_of sample_string) (chars_of sample_string)) \<le> 2 ^ 60"
    by (simp add: of_chars_ok sample_string_def replace_all.simps)
qed (simp_all add: sample_string_ok of_chars_ok, simp add: yog_string_def)

text \<open>C39: gsub with an empty substring does not return: each round finds it where the last one ended,
  as long as there is memory for the growing result; for an empty replacement, for ever.\<close>

theorem gsub_empty_never_returns:
  assumes "string_ok self" "string_ok substr" "string_ok to" "s_size substr = 0" "fuel * s_size to \<le> 2 ^ 60"
  shows "string_gsub (YPtr (OStr self)) (YPtr (OStr substr)) (YPtr (OStr to)) fuel = Inl NoReturn"
proof -
  obtain s where new: "YogString_new = Inr s" and "string_ok s" "s_size s = 0" using YogString_new_ok by blast
  then show ?thesis using gsub_loop_empty[OF assms(1-4), of s 0 fuel] assms(5)
    by (simp add: new string_gsub_def check_self_string_def)
qed

theorem gsub_empty_never_returns_witness:
  "string_gsub (YPtr (OStr sample_string)) (YPtr (OStr (yog_string []))) (YPtr (OStr (yog_string []))) (2 ^ 70)
   = Inl NoReturn"
  by (rule gsub_empty_never_returns) (simp_all add: sample_string_ok of_chars_ok, simp_all add: yog_string_def)

text \<open>The comparison methods of two strings never raise, order them linearly by their bytes in
  memory, and call two strings equal when they have the same characters.\<close>

lemma string_comparison_order:
  assumes "string_ok s" "string_ok t"
  shows "less_than string_ufo (YPtr (OStr s)) (YPtr (OStr t)) = Inr (memory_bytes s < memory_bytes t)
    \<and> less_equal string_ufo (YPtr (OStr s)) (YPtr (OStr t)) = Inr (memory_bytes s \<le> memory_bytes t)
    \<and> equal_to string_ufo (YPtr (OStr s)) (YPtr (OStr t)) = Inr (chars_of s = chars_of t)
    \<and> not_equal string_ufo (YPtr (OStr s)) (YPtr (OStr t)) = Inr (chars_of s \<noteq> chars_of t)"
  using strcmp.derived_order[of "YPtr (OStr s)" "YPtr (OStr t)"] assms
  by (simp add: is_string_val_def val_bytes_def memory_bytes_inj)

lemma string_comparison_order_instance:
  "less_than string_ufo (YPtr (OStr sample_string)) (YPtr (OStr (yog_string []))) = Inr (memory_bytes sample_string < memory_bytes (yog_string []))
    \<and> less_equal string_ufo (YPtr (OStr sample_string)) (YPtr (OStr (yog_string []))) = Inr (memory_bytes sample_string \<le> memory_bytes (yog_string []))
    \<and> equal_to string_ufo (YPtr (OStr sample_string)) (YPtr (OStr (yog_string []))) = Inr (chars_of sample_string = chars_of (yog_string []))
    \<and> not_equal string_ufo (YPtr (OStr sample_string)) (YPtr (OStr (yog_string []))) = Inr (chars_of sample_string \<noteq> chars_of (yog_string []))"
  by (rule string_comparison_order) (simp_all add: sample_string_ok of_chars_ok)

text \<open>The order of strings is not the order of code points: the bytes of a character are compared
  from the least significant, so that a character above U+00FF whose low byte is small comes first.\<close>

lemma string_order_little_endian:
  assumes "c < d" "ucast d < (ucast c :: byte)"
  shows "less_than string_ufo (YPtr (OStr (yog_string [d]))) (YPtr (OStr (yog_string [c]))) = Inr True"
  using strcmp.derived_order(1)[of "YPtr (OStr (yog_string [d]))" "YPtr (OStr (yog_string [c]))"] assms(2)
  by (simp add: is_string_val_def val_bytes_def of_chars_ok memory_bytes_def char_bytes_def)

lemma string_order_little_endian_instance:
  "less_than string_ufo (YPtr (OStr (yog_string [0x100]))) (YPtr (OStr (yog_string [0x41]))) = Inr True"
  by (rule string_order_little_endian) (simp_all add: word_less_nat_alt)

end
