(* ===== verification/YogSymbols.thy ===== *)
theory YogSymbols
  imports YogStringLaws YogTableIter
begin

text \<open>
  Symbols: \<^verbatim>\<open>src/symbol.c\<close>, the string keys of \<^verbatim>\<open>src/table.c\<close> and the part of \<^verbatim>\<open>src/vm.c\<close> that interns
  names. The virtual machine keeps the next ID and two tables, from names to symbols and back.
  Interning looks the name up under a read lock, and again under the write lock before it adds it;
  each critical section is one step here, and threads interleave between the two.
\<close>

section \<open>Strings as keys\<close>

definition compare_string :: "ystring \<Rightarrow> ystring \<Rightarrow> bool" where
  "compare_string a b =
     (if s_size a \<noteq> s_size b then False
      else if take (s_size a) (STRING_CHARS a) = take (s_size a) (STRING_CHARS b) then True else False)"

definition hash_string :: "ystring \<Rightarrow> int res" where
  "hash_string key = YogString_hash key"

definition type_string :: "ystring hash_type" where
  "type_string = \<lparr>ht_compare = compare_string, ht_hash = hash_string\<rparr>"

definition YogTable_create_string_table :: "(ystring, 'v) table res" where
  "YogTable_create_string_table = st_init_table"

lemma mem_load_take: "i < n \<Longrightarrow> mem_load (take n xs) i = mem_load xs i"
  by (simp add: mem_load_def)

lemma foldM_cong:
  "(\<And>x s. x \<in> set xs \<Longrightarrow> f x s = g x s) \<Longrightarrow> foldM f xs s = foldM g xs s"
proof (induction xs arbitrary: s)
  case (Cons x xs)
  then show ?case by (cases "g x s") auto
qed simp

lemma string_hash_take:
  "YogString_hash s = res_bind (foldM (hash_step (take (s_size s) (STRING_CHARS s))) [0..<s_size s] 0)
     (\<lambda>val. Inr (iwrap (val + drop_bit 5 val)))"
proof -
  have "foldM (hash_step (STRING_CHARS s)) [0..<s_size s] v
      = foldM (hash_step (take (s_size s) (STRING_CHARS s))) [0..<s_size s] v" for v
    by (rule foldM_cong) (simp add: hash_step_def mem_load_take)
  then show ?thesis by (simp add: YogString_hash_def)
qed

lemma compare_string_hash: "compare_string a b \<Longrightarrow> YogString_hash a = YogString_hash b"
  by (simp add: string_hash_take[of a] string_hash_take[of b] compare_string_def split: if_splits)

interpretation strkey: hash_laws type_string
  by unfold_locales
    (auto simp: type_string_def compare_string_def do_hash_def hash_string_def
      dest: compare_string_hash split: if_splits
      intro!: arg_cong[where f="\<lambda>h. res_bind h (\<lambda>h. Inr (to_uint h))"] compare_string_hash)

lemma string_hashes: "string_ok s \<Longrightarrow> key_hashes type_string s"
proof -
  assume ok: "string_ok s"
  have "\<exists>v. foldM (hash_step (STRING_CHARS s)) xs u = Inr v" if "\<forall>i \<in> set xs. i < length (STRING_CHARS s)" for xs u
    using that by (induction xs arbitrary: u) (auto simp: hash_step_def)
  from this[of "[0..<s_size s]" 0] ok obtain v where "foldM (hash_step (STRING_CHARS s)) [0..<s_size s] 0 = Inr v"
    by (auto simp: string_ok_def)
  then show ?thesis
    by (simp add: key_hashes_def do_hash_def type_string_def hash_string_def YogString_hash_def)
qed

lemma compare_string_iff:
  "string_ok a \<Longrightarrow> string_ok b \<Longrightarrow> ht_compare type_string a b \<longleftrightarrow> chars_of a = chars_of b"
  by (auto simp: type_string_def compare_string_def chars_of_def string_ok_def dest: arg_cong[where f=length])

section \<open>The tables of the virtual machine\<close>

record vm_symbols =
  next_id :: "64 word"
  id2name :: "(YogVal, ystring) table"
  name2id :: "(ystring, YogVal) table"

definition setup_symbol_tables :: "vm_symbols res" where
  "setup_symbol_tables =
     res_bind YogTable_create_symbol_table (\<lambda>i2n.
     res_bind YogTable_create_string_table (\<lambda>n2i.
       Inr \<lparr>next_id = 0, id2name = i2n, name2id = n2i\<rparr>))"

definition YogVM_id2name :: "vm_symbols \<Rightarrow> 64 word \<Rightarrow> ystring res" where
  "YogVM_id2name vm i =
     res_bind (YogTable_lookup type_symbol (id2name vm) (ID2VAL i)) (\<lambda>val.
       case val of None \<Rightarrow> Inl (YogBug ''can't find symbol (0x%x)'') | Some s \<Rightarrow> Inr s)"

text \<open>\<open>FIND_SYM\<close>, and the two critical sections of \<^verbatim>\<open>YogVM_intern2\<close>.\<close>

definition find_sym :: "vm_symbols \<Rightarrow> ystring \<Rightarrow> 64 word option res" where
  "find_sym vm name =
     res_bind (YogTable_lookup type_string (name2id vm) name) (\<lambda>v.
       case v of None \<Rightarrow> Inr None | Some val \<Rightarrow> Inr (Some (VAL2ID val)))"

definition intern_read :: "vm_symbols \<Rightarrow> ystring \<Rightarrow> 64 word option res" where
  "intern_read vm name = find_sym vm name"

definition intern_write :: "vm_symbols \<Rightarrow> ystring \<Rightarrow> (64 word \<times> vm_symbols) res" where
  "intern_write vm name =
     res_bind (find_sym vm name) (\<lambda>found.
       case found of
         Some i \<Rightarrow> Inr (i, vm)
       | None \<Rightarrow>
           res_bind (YogString_clone name) (\<lambda>clone.
           let i = next_id vm; symbol = ID2VAL i
           in res_bind (YogTable_add_direct type_string (name2id vm) clone symbol) (\<lambda>n2i.
              res_bind (YogTable_add_direct type_symbol (id2name vm) symbol clone) (\<lambda>i2n.
                Inr (i, vm\<lparr>name2id := n2i, id2name := i2n, next_id := i + 1\<rparr>)))))"

definition YogVM_intern2 :: "vm_symbols \<Rightarrow> ystring \<Rightarrow> (64 word \<times> vm_symbols) res" where
  "YogVM_intern2 vm name =
     res_bind (intern_read vm name) (\<lambda>found.
       case found of Some i \<Rightarrow> Inr (i, vm) | None \<Rightarrow> intern_write vm name)"

definition YogVM_intern :: "vm_symbols \<Rightarrow> byte list \<Rightarrow> (64 word \<times> vm_symbols) res" where
  "YogVM_intern vm name = res_bind (YogString_from_string name) (YogVM_intern2 vm)"

definition YogString_intern :: "vm_symbols \<Rightarrow> ystring \<Rightarrow> (64 word \<times> vm_symbols) res" where
  "YogString_intern vm s = YogVM_intern2 vm s"

definition string_to_sym :: "vm_symbols \<Rightarrow> str_obj yval \<Rightarrow> (YogVal \<times> vm_symbols) res" where
  "string_to_sym vm self =
     check_self_string self (\<lambda>s.
       res_bind (YogString_intern vm s) (\<lambda>(i, vm'). Inr (ID2VAL i, vm')))"

section \<open>The methods of Symbol\<close>

definition symbol_inspect :: "vm_symbols \<Rightarrow> YogVal \<Rightarrow> ystring res" where
  "symbol_inspect vm self =
     res_bind (YogString_from_string [39]) (\<lambda>s.
     res_bind (YogVM_id2name vm (VAL2ID self)) (\<lambda>sym. YogString_append s sym))"

definition symbol_to_s :: "vm_symbols \<Rightarrow> YogVal \<Rightarrow> ystring res" where
  "symbol_to_s vm self = YogVM_id2name vm (VAL2ID self)"

definition symbol_hash :: "YogVal \<Rightarrow> YogVal" where
  "symbol_hash self = INT2VAL (sint (VAL2ID self))"

definition symbol_equal :: "YogVal \<Rightarrow> YogVal \<Rightarrow> YogVal" where
  "symbol_equal self x = (if IS_SYMBOL x \<and> self = x then YTRUE else YFALSE)"

section \<open>The abstract symbol table\<close>

text \<open>
  What the two tables promise: a list of distinct names, the symbol of a name being its position.
  Interning a name leaves the list alone or appends the name.
\<close>

definition intern_names :: "YogChar list list \<Rightarrow> YogChar list \<Rightarrow> YogChar list list" where
  "intern_names ns cs = (if cs \<in> set ns then ns else ns @ [cs])"

fun index_of :: "YogChar list list \<Rightarrow> YogChar list \<Rightarrow> nat" where
  "index_of [] cs = 0"
| "index_of (n # ns) cs = (if n = cs then 0 else Suc (index_of ns cs))"

lemma index_of_less: "cs \<in> set ns \<Longrightarrow> index_of ns cs < length ns"
  by (induction ns) auto

lemma nth_index_of: "cs \<in> set ns \<Longrightarrow> ns ! index_of ns cs = cs"
  by (induction ns) auto

lemma index_of_nth: "distinct ns \<Longrightarrow> i < length ns \<Longrightarrow> index_of ns (ns ! i) = i"
  by (metis index_of_less nth_index_of nth_eq_iff_index_eq nth_mem)

lemma index_of_append: "index_of (ns @ [cs]) ds = (if ds \<in> set ns then index_of ns ds
    else if cs = ds then length ns else Suc (length ns))"
  by (induction ns) auto

definition sym_id :: "nat \<Rightarrow> 64 word" where "sym_id i = of_nat i"

definition symbols_rep :: "vm_symbols \<Rightarrow> YogChar list list \<Rightarrow> bool" where
  "symbols_rep vm ns \<longleftrightarrow>
     distinct ns \<and> next_id vm = sym_id (length ns)
     \<and> table_ok type_string (name2id vm) \<and> num_entries (name2id vm) = int (length ns)
     \<and> table_ok type_symbol (id2name vm) \<and> num_entries (id2name vm) = int (length ns)
     \<and> (\<forall>s. string_ok s \<longrightarrow> YogTable_lookup type_string (name2id vm) s =
          Inr (if chars_of s \<in> set ns then Some (ID2VAL (sym_id (index_of ns (chars_of s)))) else None))
     \<and> (\<forall>i < 2 ^ 60. if i < length ns
          then \<exists>t. YogTable_lookup type_symbol (id2name vm) (ID2VAL (sym_id i)) = Inr (Some t)
                 \<and> string_ok t \<and> chars_of t = ns ! i
          else YogTable_lookup type_symbol (id2name vm) (ID2VAL (sym_id i)) = Inr None)"

definition symbols_cap :: nat where "symbols_cap = 6442451454"

lemma VAL2ID_sym_id: "i < 2 ^ 60 \<Longrightarrow> VAL2ID (ID2VAL (sym_id i)) = sym_id i"
proof -
  assume "i < 2 ^ 60"
  then have "take_bit 60 (sym_id i) = sym_id i"
    unfolding sym_id_def take_bit_of_nat by (simp only: take_bit_nat_eq_self)
  then show ?thesis by (simp add: VAL2ID_ID2VAL)
qed

lemma ID2VAL_sym_id_inj: "i < 2 ^ 60 \<Longrightarrow> j < 2 ^ 60 \<Longrightarrow> ID2VAL (sym_id i) = ID2VAL (sym_id j) \<longleftrightarrow> i = j"
proof
  assume b: "i < 2 ^ 60" "j < 2 ^ 60" and e: "ID2VAL (sym_id i) = ID2VAL (sym_id j)"
  have "unat (sym_id i) = unat (VAL2ID (ID2VAL (sym_id i)))" by (simp only: VAL2ID_sym_id[OF b(1)])
  also have "\<dots> = unat (sym_id j)" by (simp only: e VAL2ID_sym_id[OF b(2)])
  finally have "unat (sym_id i) = unat (sym_id j)" .
  moreover have "unat (sym_id k) = k" if "k < 2 ^ 60" for k
    unfolding sym_id_def unsigned_of_nat using that by (simp add: take_bit_nat_eq_self)
  ultimately show "i = j" using b by (simp only:)
qed simp

section \<open>Interning refines the list of names\<close>

lemma find_sym_rep:
  assumes "symbols_rep vm ns" "string_ok name" "length ns \<le> 2 ^ 60"
  shows "find_sym vm name =
    Inr (if chars_of name \<in> set ns then Some (sym_id (index_of ns (chars_of name))) else None)"
proof -
  have "VAL2ID (ID2VAL (sym_id (index_of ns (chars_of name)))) = sym_id (index_of ns (chars_of name))"
    if "chars_of name \<in> set ns"
    using index_of_less[OF that] assms(3) by (intro VAL2ID_sym_id) simp
  then show ?thesis using assms(1,2) by (simp add: find_sym_def symbols_rep_def)
qed

lemma intern_write_new:
  assumes rep: "symbols_rep vm ns" and name: "string_ok name" and new: "chars_of name \<notin> set ns"
    and room: "length ns < symbols_cap"
  shows "\<exists>vm'. intern_write vm name = Inr (sym_id (length ns), vm') \<and> symbols_rep vm' (ns @ [chars_of name])"
proof -
  let ?sym = "ID2VAL (sym_id (length ns))"
  have small: "length ns < 2 ^ 60" "length ns \<le> 2 ^ 60" using room by (simp_all add: symbols_cap_def)
  have roomt: "table_room (name2id vm)" "table_room (id2name vm)"
    using rep room by (simp_all add: symbols_rep_def table_room_def symbols_cap_def)
  obtain c where c: "YogString_clone name = Inr c" "string_ok c" "chars_of c = chars_of name"
    using clone_ok[OF name] by blast
  have absent: "YogTable_lookup type_string (name2id vm) c = Inr None"
    "YogTable_lookup type_symbol (id2name vm) ?sym = Inr None"
    using rep c new small by (auto simp: symbols_rep_def)
  obtain n2i where n2i: "YogTable_add_direct type_string (name2id vm) c ?sym = Inr n2i" "table_ok type_string n2i"
    "\<forall>k. YogTable_lookup type_string n2i k =
      (if ht_compare type_string c k then Inr (Some ?sym) else YogTable_lookup type_string (name2id vm) k)"
    "num_entries n2i = num_entries (name2id vm) + 1"
    using strkey.add_direct_absent[OF _ roomt(1) string_hashes[OF c(2)] absent(1), of ?sym] rep
    by (auto simp: symbols_rep_def)
  obtain i2n where i2n: "YogTable_add_direct type_symbol (id2name vm) ?sym c = Inr i2n" "table_ok type_symbol i2n"
    "\<forall>k. YogTable_lookup type_symbol i2n k =
      (if ht_compare type_symbol ?sym k then Inr (Some c) else YogTable_lookup type_symbol (id2name vm) k)"
    "num_entries i2n = num_entries (id2name vm) + 1"
    using symbol.add_direct_absent[OF _ roomt(2) symbol_hashes absent(2), of c] rep
    by (auto simp: symbols_rep_def)
  let ?vm = "vm\<lparr>name2id := n2i, id2name := i2n, next_id := next_id vm + 1\<rparr>"
  have "intern_write vm name = Inr (sym_id (length ns), ?vm)"
    using find_sym_rep[OF rep name small(2)] new c(1) n2i(1) i2n(1) rep
    by (simp add: intern_write_def Let_def symbols_rep_def)
  moreover have "symbols_rep ?vm (ns @ [chars_of name])"
    unfolding symbols_rep_def
  proof (intro conjI allI impI)
    show "next_id ?vm = sym_id (length (ns @ [chars_of name]))"
      using rep by (simp add: symbols_rep_def sym_id_def)
    fix s assume s: "string_ok s"
    then show "YogTable_lookup type_string (name2id ?vm) s = Inr (if chars_of s \<in> set (ns @ [chars_of name])
        then Some (ID2VAL (sym_id (index_of (ns @ [chars_of name]) (chars_of s)))) else None)"
      using n2i(3) rep new compare_string_iff[OF c(2) s] c(3) by (auto simp: symbols_rep_def index_of_append)
  next
    fix i :: nat assume i: "i < 2 ^ 60"
    have "ht_compare type_symbol ?sym (ID2VAL (sym_id i)) \<longleftrightarrow> i = length ns"
      using ID2VAL_sym_id_inj[OF small(1) i] by (auto simp: type_symbol_def compare_symbol_def)
    then show "if i < length (ns @ [chars_of name])
      then \<exists>t. YogTable_lookup type_symbol (id2name ?vm) (ID2VAL (sym_id i)) = Inr (Some t)
             \<and> string_ok t \<and> chars_of t = (ns @ [chars_of name]) ! i
      else YogTable_lookup type_symbol (id2name ?vm) (ID2VAL (sym_id i)) = Inr None"
      using i2n(3) rep i c by (auto simp: symbols_rep_def nth_append less_Suc_eq)
  qed (use rep new n2i(2,4) i2n(2,4) in \<open>simp_all add: symbols_rep_def\<close>)
  ultimately show ?thesis by blast
qed

text \<open>The critical section under the write lock refines the abstract operation from every state, also
  when another thread has added the name since the look-up under the read lock.\<close>

lemma intern_write_refines:
  assumes "symbols_rep vm ns" "string_ok name" "length ns < symbols_cap"
  shows "\<exists>vm'. intern_write vm name =
      Inr (sym_id (index_of (intern_names ns (chars_of name)) (chars_of name)), vm')
    \<and> symbols_rep vm' (intern_names ns (chars_of name))"
proof (cases "chars_of name \<in> set ns")
  case True
  have "length ns \<le> 2 ^ 60" using assms(3) by (simp add: symbols_cap_def)
  from find_sym_rep[OF assms(1,2) this] True show ?thesis
    using assms(1) by (simp add: intern_write_def intern_names_def)
next
  case False
  then show ?thesis using intern_write_new[OF assms(1,2) False assms(3)]
    by (simp add: intern_names_def index_of_append)
qed

lemma intern2_refines:
  assumes "symbols_rep vm ns" "string_ok name" "length ns < symbols_cap"
  shows "\<exists>vm'. YogVM_intern2 vm name =
      Inr (sym_id (index_of (intern_names ns (chars_of name)) (chars_of name)), vm')
    \<and> symbols_rep vm' (intern_names ns (chars_of name))"
proof -
  have "length ns \<le> 2 ^ 60" using assms(3) by (simp add: symbols_cap_def)
  then show ?thesis
    using find_sym_rep[OF assms(1,2)] intern_write_refines[OF assms] assms(1)
    by (cases "chars_of name \<in> set ns") (simp_all add: YogVM_intern2_def intern_read_def intern_names_def)
qed

lemma id2name_rep:
  assumes "symbols_rep vm ns" "i < 2 ^ 60"
  shows "if i < length ns then \<exists>s. YogVM_id2name vm (sym_id i) = Inr s \<and> string_ok s \<and> chars_of s = ns ! i
    else YogVM_id2name vm (sym_id i) = Inl (YogBug ''can't find symbol (0x%x)'')"
proof -
  have "if i < length ns
      then \<exists>t. YogTable_lookup type_symbol (id2name vm) (ID2VAL (sym_id i)) = Inr (Some t)
             \<and> string_ok t \<and> chars_of t = ns ! i
      else YogTable_lookup type_symbol (id2name vm) (ID2VAL (sym_id i)) = Inr None"
    using assms unfolding symbols_rep_def by blast
  then show ?thesis by (cases "i < length ns") (auto simp: YogVM_id2name_def)
qed

definition fresh_symbols :: vm_symbols where
  "fresh_symbols = \<lparr>next_id = 0, id2name = fresh_table, name2id = fresh_table\<rparr>"

lemma setup_rep: "setup_symbol_tables = Inr fresh_symbols" "symbols_rep fresh_symbols []"
proof -
  show "setup_symbol_tables = Inr fresh_symbols"
    by (simp add: setup_symbol_tables_def YogTable_create_symbol_table_def
        YogTable_create_string_table_def st_init_table_fresh fresh_symbols_def)
  have "YogTable_lookup type_string (fresh_table :: (ystring, YogVal) table) s = Inr None" if "string_ok s" for s
    using string_hashes[OF that] lookup_fresh[OF strkey.hash_laws_axioms] by (auto elim: key_hashesE)
  moreover have "YogTable_lookup type_symbol (fresh_table :: (YogVal, ystring) table) k = Inr None" for k
    using lookup_fresh[OF symbol.hash_laws_axioms symbol_do_hash] .
  ultimately show "symbols_rep fresh_symbols []"
    by (simp add: symbols_rep_def fresh_symbols_def fresh_table_ok sym_id_def num_entries_fresh)
qed

section \<open>Threads that intern names\<close>

text \<open>
  A thread that interns a name is before the read section, between the two sections, or done with
  the symbol's ID. A step lets one thread execute its next section; the lock makes each of them
  atomic.
\<close>

datatype intern_pc = WantRead ystring | WantWrite ystring | InternDone ystring "64 word"

fun pc_name :: "intern_pc \<Rightarrow> ystring" where
  "pc_name (WantRead s) = s"
| "pc_name (WantWrite s) = s"
| "pc_name (InternDone s i) = s"

inductive intern_step :: "vm_symbols \<times> intern_pc list \<Rightarrow> vm_symbols \<times> intern_pc list \<Rightarrow> bool" where
  read_hit: "k < length ts \<Longrightarrow> ts ! k = WantRead s \<Longrightarrow> intern_read vm s = Inr (Some i) \<Longrightarrow>
     intern_step (vm, ts) (vm, ts[k := InternDone s i])"
| read_miss: "k < length ts \<Longrightarrow> ts ! k = WantRead s \<Longrightarrow> intern_read vm s = Inr None \<Longrightarrow>
     intern_step (vm, ts) (vm, ts[k := WantWrite s])"
| write_add: "k < length ts \<Longrightarrow> ts ! k = WantWrite s \<Longrightarrow> intern_write vm s = Inr (i, vm') \<Longrightarrow>
     intern_step (vm, ts) (vm', ts[k := InternDone s i])"

inductive_cases intern_stepE: "intern_step (vm, ts) (vm', ts')"

inductive intern_reach :: "vm_symbols \<times> intern_pc list \<Rightarrow> vm_symbols \<times> intern_pc list \<Rightarrow> bool" for c where
  reach_refl: "intern_reach c c"
| reach_step: "intern_reach c d \<Longrightarrow> intern_step d e \<Longrightarrow> intern_reach c e"

text \<open>The invariant: the tables represent a list of names of threads, and the ID a thread has is the
  position of its name.\<close>

definition thread_ok :: "YogChar list list \<Rightarrow> intern_pc \<Rightarrow> bool" where
  "thread_ok ns pc \<longleftrightarrow> string_ok (pc_name pc) \<and>
     (case pc of InternDone s i \<Rightarrow> chars_of s \<in> set ns \<and> i = sym_id (index_of ns (chars_of s)) | _ \<Rightarrow> True)"

definition intern_inv :: "vm_symbols \<times> intern_pc list \<Rightarrow> bool" where
  "intern_inv c \<longleftrightarrow> (\<exists>ns. symbols_rep (fst c) ns \<and> set ns \<subseteq> (chars_of \<circ> pc_name) ` set (snd c)
     \<and> (\<forall>pc \<in> set (snd c). thread_ok ns pc) \<and> length (snd c) < symbols_cap)"

lemma intern_invE:
  assumes "intern_inv (vm, ts)"
  obtains ns where "symbols_rep vm ns" "set ns \<subseteq> (chars_of \<circ> pc_name) ` set ts"
    "\<forall>pc \<in> set ts. thread_ok ns pc" "length ts < symbols_cap" "length ns < symbols_cap" "length ns \<le> 2 ^ 60"
proof -
  obtain ns where ns: "symbols_rep vm ns" "set ns \<subseteq> (chars_of \<circ> pc_name) ` set ts"
    "\<forall>pc \<in> set ts. thread_ok ns pc" "length ts < symbols_cap"
    using assms by (auto simp: intern_inv_def)
  have "length ns = card (set ns)" using ns(1) by (simp add: symbols_rep_def distinct_card)
  also have "\<dots> \<le> length ts"
    using card_mono[OF _ ns(2)] card_image_le[of "set ts" "chars_of \<circ> pc_name"] card_length[of ts] by simp
  finally have l: "length ns \<le> length ts" .
  show ?thesis by (rule that[OF ns]) (use l ns(4) in \<open>simp_all add: symbols_cap_def\<close>)
qed

lemma thread_ok_grow:
  "thread_ok ns pc \<Longrightarrow> thread_ok (intern_names ns cs) pc"
  by (auto simp: thread_ok_def intern_names_def index_of_append split: intern_pc.splits)

lemma names_update:
  "k < length ts \<Longrightarrow> pc_name (ts ! k) = pc_name pc \<Longrightarrow>
   (chars_of \<circ> pc_name) ` set (ts[k := pc]) = (chars_of \<circ> pc_name) ` set ts"
  by (simp only: image_set map_update o_apply) (metis (no_types, lifting) list_update_id nth_map o_apply)

lemma intern_step_inv:
  assumes "intern_step c d" "intern_inv c"
  shows "intern_inv d"
  using assms
proof (induction rule: intern_step.induct)
  case (read_hit k ts s vm i)
  from read_hit(4) obtain ns where ns: "symbols_rep vm ns" "set ns \<subseteq> (chars_of \<circ> pc_name) ` set ts"
    "\<forall>pc \<in> set ts. thread_ok ns pc" "length ts < symbols_cap" "length ns < symbols_cap" "length ns \<le> 2 ^ 60"
    by (rule intern_invE)
  have s: "string_ok s" using ns(3) read_hit(1,2) by (metis nth_mem pc_name.simps(1) thread_ok_def)
  have "chars_of s \<in> set ns \<and> i = sym_id (index_of ns (chars_of s))"
    using find_sym_rep[OF ns(1) s ns(6)] read_hit(3) by (auto simp: intern_read_def split: if_splits)
  then have "thread_ok ns (InternDone s i)" using s by (simp add: thread_ok_def)
  then show ?case using ns read_hit(1,2) names_update[of k ts "InternDone s i"]
    by (auto simp: intern_inv_def dest!: set_update_subset_insert[THEN subsetD])
next
  case (read_miss k ts s vm)
  from read_miss(4) obtain ns where ns: "symbols_rep vm ns" "set ns \<subseteq> (chars_of \<circ> pc_name) ` set ts"
    "\<forall>pc \<in> set ts. thread_ok ns pc" "length ts < symbols_cap" "length ns < symbols_cap" "length ns \<le> 2 ^ 60"
    by (rule intern_invE)
  have s: "string_ok s" using ns(3) read_miss(1,2) by (metis nth_mem pc_name.simps(1) thread_ok_def)
  then have "thread_ok ns (WantWrite s)" by (simp add: thread_ok_def)
  then show ?case using ns read_miss(1,2) names_update[of k ts "WantWrite s"]
    by (auto simp: intern_inv_def dest!: set_update_subset_insert[THEN subsetD])
next
  case (write_add k ts s vm i vm')
  from write_add(4) obtain ns where ns: "symbols_rep vm ns" "set ns \<subseteq> (chars_of \<circ> pc_name) ` set ts"
    "\<forall>pc \<in> set ts. thread_ok ns pc" "length ts < symbols_cap" "length ns < symbols_cap" "length ns \<le> 2 ^ 60"
    by (rule intern_invE)
  let ?ns = "intern_names ns (chars_of s)"
  have s: "string_ok s" using ns(3) write_add(1,2) by (metis nth_mem pc_name.simps(2) thread_ok_def)
  have w: "i = sym_id (index_of ?ns (chars_of s))" "symbols_rep vm' ?ns"
    using intern_write_refines[OF ns(1) s ns(5)] write_add(3) by auto
  have "chars_of s \<in> (chars_of \<circ> pc_name) ` set ts"
    using write_add(1,2) by (metis comp_apply image_eqI nth_mem pc_name.simps(2))
  then have "set ?ns \<subseteq> (chars_of \<circ> pc_name) ` set ts" using ns(2) by (auto simp: intern_names_def)
  moreover have "thread_ok ?ns (InternDone s i)" using s w(1) by (simp add: thread_ok_def intern_names_def)
  ultimately show ?case
    using w(2) ns(3,4) write_add(1,2) names_update[of k ts "InternDone s i"] thread_ok_grow[of ns _ "chars_of s"]
    unfolding intern_inv_def
    by (intro exI[of _ ?ns]) (auto dest!: set_update_subset_insert[THEN subsetD])
qed

lemma intern_reach_inv: "intern_reach c d \<Longrightarrow> intern_inv c \<Longrightarrow> intern_inv d"
  by (induction rule: intern_reach.induct) (auto intro: intern_step_inv)

text \<open>The work that is left: two sections before the read, one before the write.\<close>

fun pc_work :: "intern_pc \<Rightarrow> nat" where
  "pc_work (WantRead s) = 2"
| "pc_work (WantWrite s) = 1"
| "pc_work (InternDone s i) = 0"

definition intern_work :: "vm_symbols \<times> intern_pc list \<Rightarrow> nat" where
  "intern_work c = sum_list (map pc_work (snd c))"

lemma intern_step_work: "intern_step c d \<Longrightarrow> intern_work d < intern_work c"
proof -
  have less: "sum_list (map pc_work (ts[k := pc])) < sum_list (map pc_work ts)"
    if "k < length ts" "pc_work pc < pc_work (ts ! k)" for ts k pc
    using that
  proof (induction ts arbitrary: k)
    case (Cons t ts)
    then show ?case by (cases k) auto
  qed simp
  show "intern_step c d \<Longrightarrow> intern_work d < intern_work c"
    by (induction rule: intern_step.induct) (auto simp: intern_work_def intro!: less)
qed

lemma intern_step_exists:
  assumes "intern_inv (vm, ts)" "intern_work (vm, ts) \<noteq> 0"
  shows "\<exists>d. intern_step (vm, ts) d"
proof -
  obtain ns where ns: "symbols_rep vm ns" "\<forall>pc \<in> set ts. thread_ok ns pc" "length ns < symbols_cap" "length ns \<le> 2 ^ 60"
    using assms(1) by (rule intern_invE)
  obtain k where k: "k < length ts" "pc_work (ts ! k) \<noteq> 0"
    using assms(2) by (auto simp: intern_work_def sum_list_eq_0_iff in_set_conv_nth)
  have s: "string_ok (pc_name (ts ! k))" using ns(2) k(1) by (simp add: thread_ok_def)
  show ?thesis
  proof (cases "ts ! k")
    case (WantRead s)
    then show ?thesis
      using find_sym_rep[OF ns(1) _ ns(4), of s] s
        read_hit[OF k(1) WantRead, of vm] read_miss[OF k(1) WantRead, of vm]
      by (cases "chars_of s \<in> set ns") (auto simp: intern_read_def)
  next
    case (WantWrite s)
    then have "string_ok s" using s by simp
    then obtain i vm' where "intern_write vm s = Inr (i, vm')"
      using intern_write_refines[OF ns(1) _ ns(3)] by blast
    then show ?thesis using write_add[OF k(1) WantWrite] by blast
  qed (use k(2) in simp)
qed

lemma intern_start_inv:
  assumes "\<forall>s \<in> set names. string_ok s" "length names < symbols_cap"
  shows "intern_inv (fresh_symbols, map WantRead names)"
  using assms setup_rep(2) by (auto simp: intern_inv_def thread_ok_def intro!: exI[of _ "[]"])

section \<open>Properties\<close>

text \<open>C7: interning a name refines the abstract symbol table. The ID is the position of the name in the
  list of distinct names, to which a new name is appended; the two tables represent the new list,
  and the ID gives the name back.\<close>

theorem intern_refines_names:
  assumes "symbols_rep vm ns" "string_ok name" "length ns < symbols_cap"
  shows "\<exists>i vm' s. YogVM_intern2 vm name = Inr (i, vm') \<and> symbols_rep vm' (intern_names ns (chars_of name))
    \<and> i = sym_id (index_of (intern_names ns (chars_of name)) (chars_of name))
    \<and> YogVM_id2name vm' i = Inr s \<and> chars_of s = chars_of name"
proof -
  let ?ns = "intern_names ns (chars_of name)"
  obtain vm' where vm': "YogVM_intern2 vm name = Inr (sym_id (index_of ?ns (chars_of name)), vm')" "symbols_rep vm' ?ns"
    using intern2_refines[OF assms] by blast
  have mem: "chars_of name \<in> set ?ns" by (simp add: intern_names_def)
  have "length ?ns \<le> symbols_cap" using assms(3) by (simp add: intern_names_def)
  then have "index_of ?ns (chars_of name) < 2 ^ 60"
    using index_of_less[OF mem] by (simp add: symbols_cap_def)
  then show ?thesis
    using vm' id2name_rep[OF vm'(2), of "index_of ?ns (chars_of name)"] index_of_less[OF mem] nth_index_of[OF mem]
    by auto
qed

theorem intern_refines_names_witness:
  "\<exists>i vm' s. YogVM_intern2 fresh_symbols sample_string = Inr (i, vm')
    \<and> symbols_rep vm' (intern_names [] (chars_of sample_string))
    \<and> i = sym_id (index_of (intern_names [] (chars_of sample_string)) (chars_of sample_string))
    \<and> YogVM_id2name vm' i = Inr s \<and> chars_of s = chars_of sample_string"
  by (rule intern_refines_names) (simp_all add: setup_rep sample_string_ok symbols_cap_def)

text \<open>C6: threads that intern names at the same time agree. In every state that any interleaving of
  their critical sections reaches, two threads that are done have the same ID exactly when their
  names have the same characters, and every ID they got names its symbol.\<close>

theorem concurrent_interning_agrees:
  assumes "intern_reach (fresh_symbols, map WantRead names) (vm, ts)"
    and "\<forall>s \<in> set names. string_ok s" "length names < symbols_cap"
    and "InternDone s i \<in> set ts" "InternDone t j \<in> set ts"
  shows "(i = j \<longleftrightarrow> chars_of s = chars_of t) \<and> (\<exists>n. YogVM_id2name vm i = Inr n \<and> chars_of n = chars_of s)"
proof -
  have inv: "intern_inv (vm, ts)" using intern_reach_inv[OF assms(1) intern_start_inv[OF assms(2,3)]] .
  then obtain ns where ns: "symbols_rep vm ns" "\<forall>pc \<in> set ts. thread_ok ns pc" "length ns < symbols_cap"
    "length ns \<le> 2 ^ 60" by (rule intern_invE)
  have i: "chars_of s \<in> set ns" "i = sym_id (index_of ns (chars_of s))"
    and j: "chars_of t \<in> set ns" "j = sym_id (index_of ns (chars_of t))"
    using ns(2) assms(4,5) by (auto simp: thread_ok_def)
  have b: "index_of ns (chars_of s) < 2 ^ 60" "index_of ns (chars_of t) < 2 ^ 60"
    using index_of_less[OF i(1)] index_of_less[OF j(1)] ns(4) by simp_all
  have "i = j \<longleftrightarrow> index_of ns (chars_of s) = index_of ns (chars_of t)"
    using ID2VAL_sym_id_inj[OF b] i(2) j(2) by metis
  also have "\<dots> \<longleftrightarrow> chars_of s = chars_of t" using nth_index_of[OF i(1)] nth_index_of[OF j(1)] by metis
  finally show ?thesis
    using id2name_rep[OF ns(1) b(1)] index_of_less[OF i(1)] nth_index_of[OF i(1)] i(2) by auto
qed

definition other_string :: ystring where
  "other_string = yog_string [0x79]"

theorem concurrent_interning_agrees_witness:
  "\<exists>vm ts. intern_reach (fresh_symbols, map WantRead [sample_string]) (vm, ts)
    \<and> (\<exists>i. InternDone sample_string i \<in> set ts
      \<and> (i = i \<longleftrightarrow> chars_of sample_string = chars_of sample_string)
      \<and> (\<exists>n. YogVM_id2name vm i = Inr n \<and> chars_of n = chars_of sample_string))"
proof -
  obtain vm' where w: "intern_write fresh_symbols sample_string = Inr (sym_id 0, vm')"
    using intern_write_new[OF setup_rep(2) sample_string_ok(1)] by (auto simp: symbols_cap_def)
  have r: "intern_read fresh_symbols sample_string = Inr None"
    using find_sym_rep[OF setup_rep(2) sample_string_ok(1)] by (simp add: intern_read_def)
  have "intern_step (fresh_symbols, [WantRead sample_string]) (fresh_symbols, [WantWrite sample_string])"
    using read_miss[of 0 "[WantRead sample_string]", OF _ _ r] by simp
  moreover have "intern_step (fresh_symbols, [WantWrite sample_string]) (vm', [InternDone sample_string (sym_id 0)])"
    using write_add[of 0 "[WantWrite sample_string]", OF _ _ w] by simp
  ultimately have reach: "intern_reach (fresh_symbols, map WantRead [sample_string]) (vm', [InternDone sample_string (sym_id 0)])"
    using reach_step[OF reach_step[OF reach_refl]] by simp
  have "(sym_id 0 = sym_id 0 \<longleftrightarrow> chars_of sample_string = chars_of sample_string)
      \<and> (\<exists>n. YogVM_id2name vm' (sym_id 0) = Inr n \<and> chars_of n = chars_of sample_string)"
    by (rule concurrent_interning_agrees[OF reach]) (simp_all add: sample_string_ok symbols_cap_def)
  then show ?thesis using reach
    by (intro exI[of _ vm'] exI[of _ "[InternDone sample_string (sym_id 0)]"] conjI exI[of _ "sym_id 0"])
      simp_all
qed

text \<open>C33: no thread that interns a name is ever stuck: while one is not done, some step is possible,
  and every step does a part of the work that is left.\<close>

theorem interning_makes_progress:
  assumes "intern_reach (fresh_symbols, map WantRead names) c"
    and "\<forall>s \<in> set names. string_ok s" "length names < symbols_cap"
  shows "(intern_work c = 0 \<or> (\<exists>d. intern_step c d)) \<and> (\<forall>d. intern_step c d \<longrightarrow> intern_work d < intern_work c)"
proof -
  obtain vm ts where c: "c = (vm, ts)" by (cases c)
  have "intern_inv c" using intern_reach_inv[OF assms(1) intern_start_inv[OF assms(2,3)]] .
  then show ?thesis using intern_step_exists[of vm ts] intern_step_work c by blast
qed

theorem interning_makes_progress_witness:
  "\<exists>d. intern_step (fresh_symbols, map WantRead [sample_string, other_string]) d
    \<and> intern_work d < intern_work (fresh_symbols, map WantRead [sample_string, other_string])"
proof -
  let ?c = "(fresh_symbols, map WantRead [sample_string, other_string])"
  have "(intern_work ?c = 0 \<or> (\<exists>d. intern_step ?c d)) \<and> (\<forall>d. intern_step ?c d \<longrightarrow> intern_work d < intern_work ?c)"
    by (rule interning_makes_progress, rule reach_refl)
      (simp_all add: sample_string_ok other_string_def of_chars_ok symbols_cap_def)
  moreover have "intern_work ?c \<noteq> 0" by (simp add: intern_work_def)
  ultimately show ?thesis by blast
qed

end
