(* ===== verification/YogBinary.thy ===== *)
theory YogBinary
  imports YogStringLaws
begin

text \<open>
  \<^verbatim>\<open>src/binary.c\<close>: growable byte strings, which the compiler also uses to build code, and the
  conversions between String and Binary of \<^verbatim>\<open>src/string.c\<close>. A binary has a size and a body, a byte
  array of at least that size, YUNDEF (\<open>None\<close>) until something is pushed. A fresh array holds
  whatever the allocator gives, zeros here. Words are stored least significant byte first.
\<close>

section \<open>Bodies\<close>

record yog_binary =
  b_size :: nat
  b_body :: "byte list option"

datatype bin_obj = OBin yog_binary | ONotBin

definition check_binary :: "string \<Rightarrow> bin_obj yval \<Rightarrow> (yog_binary \<Rightarrow> 'a res) \<Rightarrow> 'a res" where
  "check_binary name v f =
     (case v of YPtr (OBin b) \<Rightarrow> f b | _ \<Rightarrow> Inl (TypeError ''%s must be Binary, not %C''))"

definition BINARY_CSTR :: "yog_binary \<Rightarrow> byte list" where
  "BINARY_CSTR b = (case b_body b of None \<Rightarrow> [] | Some bs \<Rightarrow> bs)"

definition with_bytes :: "yog_binary \<Rightarrow> byte list \<Rightarrow> yog_binary" where
  "with_bytes b bs = (case b_body b of None \<Rightarrow> b | Some _ \<Rightarrow> b\<lparr>b_body := Some bs\<rparr>)"

definition YogBinary_size :: "yog_binary \<Rightarrow> nat" where
  "YogBinary_size b = b_size b"

definition YogByteArray_size :: "byte list \<Rightarrow> nat" where
  "YogByteArray_size bs = length bs"

definition YogByteArray_new :: "nat \<Rightarrow> byte list res" where
  "YogByteArray_new n = res_bind (YogGC_check_multiply_overflow n 1) (\<lambda>_. Inr (replicate n 0))"

definition YogBinary_shrink :: "yog_binary \<Rightarrow> yog_binary res" where
  "YogBinary_shrink b =
     (let n = YogBinary_size b
      in res_bind (YogByteArray_new n) (\<lambda>new_body.
         res_bind (mem_copy new_body 0 (BINARY_CSTR b) 0 n) (\<lambda>bs. Inr (b\<lparr>b_body := Some bs\<rparr>))))"

definition ensure_bytes :: "yog_binary \<Rightarrow> nat \<Rightarrow> yog_binary res" where
  "ensure_bytes b needed_size =
     (case b_body b of
        Some bs \<Rightarrow>
          if needed_size \<le> length bs then Inr b
          else res_bind (YogByteArray_new (uwrap (2 * needed_size))) (\<lambda>new_body.
               res_bind (mem_copy new_body 0 bs 0 (b_size b)) (\<lambda>bs'.
                 Inr (b\<lparr>b_body := Some bs'\<rparr>)))
      | None \<Rightarrow>
          res_bind (YogByteArray_new (uwrap (2 * needed_size))) (\<lambda>new_body.
            Inr (b\<lparr>b_body := Some new_body\<rparr>)))"

section \<open>Pushing machine values\<close>

fun le_bytes :: "nat \<Rightarrow> nat \<Rightarrow> byte list" where
  "le_bytes 0 n = []"
| "le_bytes (Suc k) n = of_nat (n mod 256) # le_bytes k (n div 256)"

fun le_value :: "byte list \<Rightarrow> nat" where
  "le_value [] = 0"
| "le_value (b # bs) = unat b + 256 * le_value bs"

text \<open>\<open>PUSH_TYPE\<close>: the bytes of the value are stored behind the others in one access.\<close>

definition push_type :: "yog_binary \<Rightarrow> byte list \<Rightarrow> yog_binary res" where
  "push_type b value =
     (let needed_size = uwrap (b_size b + length value)
      in res_bind (ensure_bytes b needed_size) (\<lambda>b.
         res_bind (mem_copy (BINARY_CSTR b) (b_size b) value 0 (length value)) (\<lambda>bs.
           Inr ((with_bytes b bs)\<lparr>b_size := uwrap (b_size b + length value)\<rparr>))))"

definition YogBinary_push_uint8 :: "yog_binary \<Rightarrow> byte \<Rightarrow> yog_binary res" where
  "YogBinary_push_uint8 b n = push_type b [n]"

definition YogBinary_push_char :: "yog_binary \<Rightarrow> byte \<Rightarrow> yog_binary res" where
  "YogBinary_push_char b c = push_type b [c]"

definition YogBinary_push_id :: "yog_binary \<Rightarrow> 64 word \<Rightarrow> yog_binary res" where
  "YogBinary_push_id b i = push_type b (le_bytes 8 (unat i))"

definition YogBinary_push_uint :: "yog_binary \<Rightarrow> nat \<Rightarrow> yog_binary res" where
  "YogBinary_push_uint b n = push_type b (le_bytes 8 n)"

definition YogBinary_push_pc :: "yog_binary \<Rightarrow> nat \<Rightarrow> yog_binary res" where
  "YogBinary_push_pc b pc = push_type b (le_bytes 8 pc)"

definition binary_alloc :: yog_binary where
  "binary_alloc = \<lparr>b_size = 0, b_body = None\<rparr>"

definition YogBinary_add :: "yog_binary \<Rightarrow> byte list \<Rightarrow> nat \<Rightarrow> yog_binary res" where
  "YogBinary_add self buf n =
     (let current_size = YogBinary_size self; needed_size = uwrap (current_size + n)
      in res_bind (ensure_bytes self needed_size) (\<lambda>self.
         res_bind (mem_copy (BINARY_CSTR self) current_size buf 0 n) (\<lambda>bs.
           Inr ((with_bytes self bs)\<lparr>b_size := needed_size\<rparr>))))"

definition YogBinary_of_size :: "nat \<Rightarrow> yog_binary res" where
  "YogBinary_of_size n =
     res_bind (YogByteArray_new n) (\<lambda>body. Inr (binary_alloc\<lparr>b_body := Some body\<rparr>))"

definition YogBinary_new :: yog_binary where
  "YogBinary_new = binary_alloc"

section \<open>The methods\<close>

definition binary_get_size :: "bin_obj yval \<Rightarrow> ('f, 'b, 's) num res" where
  "binary_get_size self =
     check_binary ''self'' self (\<lambda>b. Inr (YogVal_from_unsigned_int (b_size b)))"

definition lshift_int :: "yog_binary \<Rightarrow> int \<Rightarrow> yog_binary res" where
  "lshift_int self n =
     (if n < 0 \<or> 255 < n then Inl (ValueError ''Value must be between 0 and 255, but %d given'')
      else
        let sz = YogBinary_size self
        in res_bind (ensure_bytes self (uwrap (sz + 1))) (\<lambda>self.
           res_bind (mem_store (BINARY_CSTR self) sz (of_int n)) (\<lambda>bs.
             Inr ((with_bytes self bs)\<lparr>b_size := uwrap (b_size self + 1)\<rparr>))))"

definition binary_lshift :: "bin_obj yval \<Rightarrow> bin_obj yval \<Rightarrow> yog_binary res" where
  "binary_lshift self bin =
     check_binary ''self'' self (\<lambda>self.
       case bin of
         YFixnum n \<Rightarrow> lshift_int self n
       | _ \<Rightarrow> check_binary ''bin'' bin (\<lambda>bin.
           let size1 = YogBinary_size self; size2 = YogBinary_size bin; n = uwrap (size1 + size2)
           in if n < size1 \<or> n < size2 then Inl (ValueError ''Too large Binary'')
              else
                res_bind (ensure_bytes self n) (\<lambda>self.
                res_bind (mem_copy (BINARY_CSTR self) size1 (BINARY_CSTR bin) 0 size2) (\<lambda>bs.
                  Inr ((with_bytes self bs)\<lparr>b_size := n\<rparr>)))))"

definition binary_to_bin :: "bin_obj yval \<Rightarrow> bin_obj yval" where
  "binary_to_bin self = self"

text \<open>The last byte is the terminating NUL. An empty binary gives an end before the beginning, and no
  character. The copy of the bytes on the C stack, which a large binary could overflow, is left out.\<close>

definition YogBinary_to_s :: "yog_binary \<Rightarrow> encoding \<Rightarrow> ystring res" where
  "YogBinary_to_s self enc =
     (let n = b_size self
      in res_bind (mem_copy (replicate n 0) 0 (BINARY_CSTR self) 0 n) (\<lambda>buf.
         res_bind (conv_to_yog enc buf 0 (n - 1)) (\<lambda>cs. Inr (yog_string cs))))"

text \<open>\<^verbatim>\<open>pos += size\<close> adds as \<^verbatim>\<open>uint_t\<close>.\<close>

definition YogBinary_slice :: "yog_binary \<Rightarrow> int \<Rightarrow> int \<Rightarrow> yog_binary res" where
  "YogBinary_slice self pos len =
     (let n = YogBinary_size self;
          pos = (if pos < 0 then to_int (uwrap (to_uint pos + n)) else pos)
      in if pos < 0 then Inl (ValueError ''Binary index out of range'')
         else if len < 0 then Inl (ValueError ''Binary length out of range'')
         else if n \<le> nat pos then Inr YogBinary_new
         else
           res_bind (YogBinary_of_size (nat len)) (\<lambda>bin.
           res_bind (mem_copy (BINARY_CSTR bin) 0 (BINARY_CSTR self) (nat pos) (nat len)) (\<lambda>bs.
             Inr ((with_bytes bin bs)\<lparr>b_size := nat len\<rparr>))))"

definition binary_slice :: "bin_obj yval \<Rightarrow> 'o yval \<Rightarrow> 'p yval \<Rightarrow> yog_binary res" where
  "binary_slice self pos len =
     check_binary ''self'' self (\<lambda>self.
       case pos of
         YFixnum p \<Rightarrow>
           (case len of
              YNil \<Rightarrow> YogBinary_slice self p (to_int (YogBinary_size self))
            | YFixnum l \<Rightarrow> YogBinary_slice self p l
            | _ \<Rightarrow> Inl (TypeError ''len must be Fixnum, not %C''))
       | _ \<Rightarrow> Inl (TypeError ''pos must be Fixnum, not %C''))"

text \<open>\<^verbatim>\<open>\x%02x\<close>\<close>

definition format_x02x :: "byte \<Rightarrow> byte list" where
  "format_x02x b = [92, 120, hex_digit (unat b div 16), hex_digit (unat b mod 16)]"

definition binary_inspect :: "bin_obj yval \<Rightarrow> ystring res" where
  "binary_inspect self =
     check_binary ''self'' self (\<lambda>self.
       if b_body self = None then YogString_from_string [98, 34, 34]
       else
         res_bind (YogString_from_string [98, 34]) (\<lambda>s.
         res_bind (foldM (\<lambda>i s. res_bind (mem_load (BINARY_CSTR self) i) (\<lambda>c.
                     YogString_append_string s (format_x02x c))) [0..<YogBinary_size self] s) (\<lambda>s.
           YogString_append_string s [34])))"

text \<open>\<^verbatim>\<open>subscript\<close> and \<^verbatim>\<open>to_s\<close> do not check \<open>self\<close>. \<^verbatim>\<open>n + size\<close> is computed as \<^verbatim>\<open>uint_t\<close>.\<close>

definition binary_subscript :: "yog_binary \<Rightarrow> 'o yval \<Rightarrow> 'p yval res" where
  "binary_subscript self index =
     (case index of
        YFixnum n \<Rightarrow>
          (let sz = b_size self; pos = to_int (uwrap (to_uint n + (if n < 0 then sz else 0)))
           in if pos < 0 \<or> sz \<le> nat pos
              then Inl (IndexError ''Binary index out of range: size is %u, but %d given'')
              else res_bind (mem_load (BINARY_CSTR self) (nat pos)) (\<lambda>b. Inr (int2val (int (unat b)))))
      | _ \<Rightarrow> Inl (TypeError ''%s must be Fixnum, not %C''))"

definition binary_to_s :: "yog_binary \<Rightarrow> encoding option \<Rightarrow> ystring res" where
  "binary_to_s self enc =
     (case enc of None \<Rightarrow> Inl (TypeError ''%s must be Encoding, not %C'')
      | Some e \<Rightarrow> YogBinary_to_s self e)"

text \<open>From strings: \<^verbatim>\<open>to_cstr\<close> is the binary that \<^verbatim>\<open>YogEncoding_conv_from_yog\<close> makes, \<^verbatim>\<open>to_bin\<close> drops the
  terminating NUL.\<close>

definition string_to_cstr :: "str_obj yval \<Rightarrow> encoding option \<Rightarrow> yog_binary res" where
  "string_to_cstr self enc =
     check_self_string self (\<lambda>self.
       case enc of None \<Rightarrow> Inl (TypeError ''%s must be Encoding, not %C'')
       | Some e \<Rightarrow>
           if s_size self \<le> length (STRING_CHARS self)
           then res_bind (conv_from_yog e (take (s_size self) (STRING_CHARS self))) (\<lambda>(body, n).
                  Inr \<lparr>b_size = n, b_body = Some body\<rparr>)
           else Inl MemFault)"

definition string_to_bin :: "str_obj yval \<Rightarrow> encoding option \<Rightarrow> yog_binary res" where
  "string_to_bin self enc =
     res_bind (string_to_cstr self enc) (\<lambda>bin.
       if 0 < b_size bin then Inr (bin\<lparr>b_size := b_size bin - 1\<rparr>)
       else Inl (YogBug ''Assertion failed''))"

section \<open>Well-formed binaries\<close>

definition binary_ok :: "yog_binary \<Rightarrow> bool" where
  "binary_ok b \<longleftrightarrow> b_size b \<le> length (BINARY_CSTR b) \<and> length (BINARY_CSTR b) < 2 ^ 63"

definition bytes_of :: "yog_binary \<Rightarrow> byte list" where
  "bytes_of b = take (b_size b) (BINARY_CSTR b)"

lemma length_bytes_of [simp]: "binary_ok b \<Longrightarrow> length (bytes_of b) = b_size b"
  by (simp add: binary_ok_def bytes_of_def)

lemma BINARY_CSTR_simps [simp]:
  "b_body b = Some bs \<Longrightarrow> BINARY_CSTR b = bs"
  "b_body b = None \<Longrightarrow> BINARY_CSTR b = []"
  "BINARY_CSTR (b\<lparr>b_body := Some bs\<rparr>) = bs"
  "BINARY_CSTR (b\<lparr>b_size := n\<rparr>) = BINARY_CSTR b"
  by (simp_all add: BINARY_CSTR_def)

lemma with_bytes_simps [simp]:
  "length bs = length (BINARY_CSTR b) \<Longrightarrow> BINARY_CSTR (with_bytes b bs) = bs"
  "b_size (with_bytes b bs) = b_size b"
  by (cases "b_body b"; simp add: with_bytes_def)+

lemma YogByteArray_new_ok: "n < 2 ^ 64 \<Longrightarrow> YogByteArray_new n = Inr (replicate n 0)"
  by (simp add: YogByteArray_new_def check_multiply_ok)

lemma ensure_bytes_ok:
  assumes ok: "binary_ok b" and n: "n < 2 ^ 62" "b_size b \<le> n"
  shows "\<exists>t. ensure_bytes b n = Inr t \<and> binary_ok t \<and> b_size t = b_size b
    \<and> n \<le> length (BINARY_CSTR t) \<and> bytes_of t = bytes_of b"
proof -
  have w: "uwrap (2 * n) = 2 * n" "2 * n < 2 ^ 64" "2 * n < 2 ^ 63" using n(1) by (auto intro!: uwrap_small)
  show ?thesis
  proof (cases "b_body b")
    case None
    then show ?thesis using ok w
      by (simp add: ensure_bytes_def YogByteArray_new_ok binary_ok_def bytes_of_def)
  next
    case (Some bs)
    then have sz: "b_size b \<le> length bs" using ok by (simp add: binary_ok_def)
    have "mem_copy (replicate (2 * n) 0) 0 bs 0 (b_size b)
        = Inr (take (b_size b) bs @ drop (b_size b) (replicate (2 * n) 0))"
      using mem_copy_ok[of 0 "b_size b" "replicate (2 * n) 0" 0 bs] sz n(2) by simp
    then show ?thesis using ok w Some sz n(2)
      by (simp add: ensure_bytes_def YogByteArray_new_ok binary_ok_def bytes_of_def)
  qed
qed

lemma append_bytes:
  assumes ok: "binary_ok b" and n: "b_size b + length vs < 2 ^ 62"
  shows "\<exists>t bs. ensure_bytes b (b_size b + length vs) = Inr t \<and> b_size t = b_size b
    \<and> mem_copy (BINARY_CSTR t) (b_size b) vs 0 (length vs) = Inr bs
    \<and> binary_ok ((with_bytes t bs)\<lparr>b_size := b_size b + length vs\<rparr>)
    \<and> bytes_of ((with_bytes t bs)\<lparr>b_size := b_size b + length vs\<rparr>) = bytes_of b @ vs"
proof -
  obtain t where t: "ensure_bytes b (b_size b + length vs) = Inr t" "binary_ok t" "b_size t = b_size b"
    "b_size b + length vs \<le> length (BINARY_CSTR t)" "bytes_of t = bytes_of b"
    using ensure_bytes_ok[OF ok n] by auto
  let ?bs = "take (b_size b) (BINARY_CSTR t) @ vs @ drop (b_size b + length vs) (BINARY_CSTR t)"
  have l: "length ?bs = length (BINARY_CSTR t)" using t(4) by simp
  have "mem_copy (BINARY_CSTR t) (b_size b) vs 0 (length vs) = Inr ?bs"
    using mem_copy_ok[of "b_size b" "length vs" "BINARY_CSTR t" 0 vs] t(4) by simp
  moreover have "bytes_of ((with_bytes t ?bs)\<lparr>b_size := b_size b + length vs\<rparr>) = bytes_of b @ vs"
    using t(3,5) l t(4) by (simp add: bytes_of_def)
  moreover have "binary_ok ((with_bytes t ?bs)\<lparr>b_size := b_size b + length vs\<rparr>)"
    using t(2,4) l by (simp add: binary_ok_def)
  ultimately show ?thesis using t by auto
qed

lemma push_type_ok:
  assumes "binary_ok b" "b_size b + length vs < 2 ^ 62"
  shows "\<exists>t. push_type b vs = Inr t \<and> binary_ok t \<and> bytes_of t = bytes_of b @ vs"
  using append_bytes[OF assms] assms(2) by (auto simp: push_type_def Let_def)

lemma add_bytes_ok:
  assumes "binary_ok b" "b_size b + length vs < 2 ^ 62"
  shows "\<exists>t. YogBinary_add b vs (length vs) = Inr t \<and> binary_ok t \<and> bytes_of t = bytes_of b @ vs"
  using append_bytes[OF assms] assms(2) by (auto simp: YogBinary_add_def YogBinary_size_def Let_def)

interpretation bin: growable binary_ok b_size "2 ^ 61" bytes_of YogBinary_push_uint8
proof
  show "b_size b < 2 ^ 61 \<Longrightarrow> binary_ok b \<Longrightarrow>
      \<exists>t. YogBinary_push_uint8 b e = Inr t \<and> binary_ok t \<and> bytes_of t = bytes_of b @ [e]" for b e
    using push_type_ok[of b "[e]"] by (simp add: YogBinary_push_uint8_def)
qed simp

lemma length_le_bytes [simp]: "length (le_bytes k n) = k"
  by (induction k arbitrary: n) simp_all

lemma le_value_bytes: "n < 256 ^ k \<Longrightarrow> le_value (le_bytes k n) = n"
proof (induction k arbitrary: n)
  case (Suc k)
  have "unat (of_nat (n mod 256) :: byte) = n mod 256"
    unfolding unsigned_of_nat by (simp add: take_bit_nat_eq_self)
  moreover have "n div 256 < 256 ^ k" using Suc.prems by (simp add: less_mult_imp_div_less mult.commute)
  ultimately show ?case using Suc.IH[of "n div 256"] by simp
qed simp

lemma push_uints_ok:
  assumes "binary_ok b" "b_size b + 8 * length ns < 2 ^ 62"
  shows "\<exists>t. foldM (\<lambda>n b. YogBinary_push_uint b n) ns b = Inr t \<and> binary_ok t
    \<and> bytes_of t = bytes_of b @ concat (map (le_bytes 8) ns)"
  using assms
proof (induction ns arbitrary: b)
  case (Cons n ns)
  have "b_size b + length (le_bytes 8 n) < 2 ^ 62" using Cons.prems(2) by simp
  from push_type_ok[OF Cons.prems(1) this] obtain b1 where b1: "YogBinary_push_uint b n = Inr b1"
    "binary_ok b1" "bytes_of b1 = bytes_of b @ le_bytes 8 n"
    by (auto simp: YogBinary_push_uint_def)
  have "b_size b1 = b_size b + 8" using arg_cong[OF b1(3), of length] b1(2) Cons.prems(1) by simp
  then show ?case using Cons.IH[OF b1(2)] Cons.prems(2) b1 by auto
qed simp

lemma chunk_nth:
  "\<forall>x \<in> set xs. length (f x) = m \<Longrightarrow> k < length xs \<Longrightarrow> take m (drop (m * k) (concat (map f xs))) = f (xs ! k)"
proof (induction xs arbitrary: k)
  case (Cons x xs)
  then show ?case by (cases k) simp_all
qed simp

lemma slice_bytes:
  assumes ok: "binary_ok b" and r: "0 \<le> pos" "0 \<le> len" "nat pos + nat len \<le> b_size b" "nat pos < b_size b"
  shows "\<exists>t. YogBinary_slice b pos len = Inr t \<and> binary_ok t
    \<and> bytes_of t = take (nat len) (drop (nat pos) (bytes_of b))"
proof -
  have sz: "b_size b \<le> length (BINARY_CSTR b)" "length (BINARY_CSTR b) < 2 ^ 63" using ok by (simp_all add: binary_ok_def)
  have n: "nat len < 2 ^ 64" "nat len < 2 ^ 63" using r sz by simp_all
  let ?bs = "take (nat len) (drop (nat pos) (BINARY_CSTR b))"
  have l: "length ?bs = nat len" using r sz by simp
  have "mem_copy (replicate (nat len) 0) 0 (BINARY_CSTR b) (nat pos) (nat len) = Inr ?bs"
    using mem_copy_ok[of 0 "nat len" "replicate (nat len) 0" "nat pos" "BINARY_CSTR b"] r sz by simp
  then have "YogBinary_slice b pos len = Inr \<lparr>b_size = nat len, b_body = Some ?bs\<rparr>"
    using r n(1) by (simp add: YogBinary_slice_def YogBinary_size_def YogBinary_of_size_def YogByteArray_new_ok
        binary_alloc_def with_bytes_def not_le Let_def)
  moreover have "nat len \<le> b_size b - nat pos" using r by simp
  ultimately show ?thesis using l n(2)
    by (simp add: binary_ok_def) (simp add: bytes_of_def drop_take min_def)
qed

section \<open>Properties\<close>

text \<open>Words that are pushed are read back from where they were pushed: after any sequence of
  pushes the old bytes are unchanged and the word number \<open>k\<close> stands \<open>8 * k\<close> bytes behind them.\<close>

lemma push_uint_reads_back:
  assumes "binary_ok b" "b_size b + 8 * length ns < 2 ^ 62" "\<forall>n \<in> set ns. n < 2 ^ 64"
  shows "\<exists>t. foldM (\<lambda>n b. YogBinary_push_uint b n) ns b = Inr t \<and> binary_ok t
    \<and> take (b_size b) (bytes_of t) = bytes_of b
    \<and> (\<forall>k < length ns. le_value (take 8 (drop (b_size b + 8 * k) (bytes_of t))) = ns ! k)"
proof -
  obtain t where t: "foldM (\<lambda>n b. YogBinary_push_uint b n) ns b = Inr t" "binary_ok t"
    "bytes_of t = bytes_of b @ concat (map (le_bytes 8) ns)"
    using push_uints_ok[OF assms(1,2)] by blast
  have "le_value (take 8 (drop (b_size b + 8 * k) (bytes_of t))) = ns ! k" if k: "k < length ns" for k
    using t(3) assms(1,3) k chunk_nth[of ns "le_bytes 8" 8 k] le_value_bytes[of "ns ! k" 8]
    by simp
  then show ?thesis using t assms(1) by auto
qed

definition sample_binary :: yog_binary where
  "sample_binary = \<lparr>b_size = 3, b_body = Some [0x59, 0x6f, 0x67]\<rparr>"

lemma sample_binary_ok: "binary_ok sample_binary" "b_size sample_binary = 3"
  by (simp_all add: sample_binary_def binary_ok_def BINARY_CSTR_def)

lemma push_uint_reads_back_instance:
  "\<exists>t. foldM (\<lambda>n b. YogBinary_push_uint b n) [7, 2 ^ 63] sample_binary = Inr t \<and> binary_ok t
    \<and> take (b_size sample_binary) (bytes_of t) = bytes_of sample_binary
    \<and> (\<forall>k < length [7 :: nat, 2 ^ 63]. le_value (take 8 (drop (b_size sample_binary + 8 * k) (bytes_of t))) = [7, 2 ^ 63] ! k)"
  by (rule push_uint_reads_back) (simp_all add: sample_binary_ok)

text \<open>A slice that lies inside the binary has exactly the bytes of the range; a position at or
  behind the end gives an empty binary; a negative length, or a position before the beginning, is
  a ValueError.\<close>

lemma binary_slice_ranges:
  assumes "binary_ok b"
  shows "(0 \<le> pos \<and> 0 \<le> len \<and> nat pos + nat len \<le> b_size b \<and> nat pos < b_size b \<longrightarrow>
      (\<exists>t. YogBinary_slice b pos len = Inr t \<and> bytes_of t = take (nat len) (drop (nat pos) (bytes_of b))))
    \<and> (int (b_size b) \<le> pos \<and> 0 \<le> len \<longrightarrow> YogBinary_slice b pos len = Inr YogBinary_new)
    \<and> (0 \<le> pos \<and> len < 0 \<longrightarrow> YogBinary_slice b pos len = Inl (ValueError ''Binary length out of range''))
    \<and> (- (2 ^ 62) \<le> pos \<and> pos < - int (b_size b) \<longrightarrow>
        YogBinary_slice b pos len = Inl (ValueError ''Binary index out of range''))"
proof -
  have far: "to_int (uwrap (to_uint pos + b_size b)) < 0" if "- (2 ^ 62) \<le> pos" "pos < - int (b_size b)"
  proof -
    have "(pos + 2 ^ 64) mod 2 ^ 64 = pos + 2 ^ 64"
      by (rule mod_pos_pos_trivial) (use that in auto)
    then have m: "pos mod 2 ^ 64 = pos + 2 ^ 64" by (simp only: mod_add_self2)
    have "to_uint pos = nat (pos + 2 ^ 64)" by (simp only: to_uint_def m)
    then have "to_uint pos + b_size b = nat (pos + 2 ^ 64 + int (b_size b))" "pos + 2 ^ 64 + int (b_size b) < 2 ^ 64"
      using that by (simp_all add: nat_add_distrib)
    then have "uwrap (to_uint pos + b_size b) = nat (pos + 2 ^ 64 + int (b_size b))"
      by (simp add: uwrap_def nat_mod_distrib)
    then have "to_int (uwrap (to_uint pos + b_size b)) = iwrap (pos + 2 ^ 64 + int (b_size b))"
      using that by (simp add: to_int_def)
    also have "\<dots> = pos + int (b_size b)"
    proof -
      have "(pos + int (b_size b) + 2 ^ 63 + 2 ^ 64) mod 2 ^ 64 = (pos + int (b_size b) + 2 ^ 63) mod 2 ^ 64"
        by (rule mod_add_self2)
      also have "\<dots> = pos + int (b_size b) + 2 ^ 63" by (rule mod_pos_pos_trivial) (use that in auto)
      finally show ?thesis by (simp add: iwrap_def algebra_simps)
    qed
    finally show ?thesis using that by simp
  qed
  have "YogBinary_slice b pos len = Inl (ValueError ''Binary index out of range'')"
    if "- (2 ^ 62) \<le> pos" "pos < - int (b_size b)"
    using far[OF that] that by (simp add: YogBinary_slice_def YogBinary_size_def Let_def)
  moreover have "YogBinary_slice b pos len = Inr YogBinary_new" if "int (b_size b) \<le> pos" "0 \<le> len"
    using that by (simp add: YogBinary_slice_def YogBinary_size_def Let_def le_nat_iff)
  moreover have "YogBinary_slice b pos len = Inl (ValueError ''Binary length out of range'')" if "0 \<le> pos" "len < 0"
    using that by (simp add: YogBinary_slice_def Let_def)
  ultimately show ?thesis using slice_bytes[OF assms, of pos len] by blast
qed

lemma binary_slice_ranges_instance:
  "(\<exists>t. YogBinary_slice sample_binary 1 2 = Inr t \<and> bytes_of t = take (nat 2) (drop (nat 1) (bytes_of sample_binary)))
    \<and> YogBinary_slice sample_binary 3 2 = Inr YogBinary_new
    \<and> YogBinary_slice sample_binary 1 (- 2) = Inl (ValueError ''Binary length out of range'')
    \<and> YogBinary_slice sample_binary (- 4) 2 = Inl (ValueError ''Binary index out of range'')"
  using binary_slice_ranges[OF sample_binary_ok(1), of 1 2] binary_slice_ranges[OF sample_binary_ok(1), of 3 2]
    binary_slice_ranges[OF sample_binary_ok(1), of 1 "- 2"] binary_slice_ranges[OF sample_binary_ok(1), of "- 4" 2]
  by (simp add: sample_binary_ok(2))

text \<open>Without a length, slice copies as many bytes as the whole binary has: with a body of exactly
  its size, as shrink leaves it, every slice from an inner position reads behind the end.\<close>

lemma binary_slice_overreads:
  assumes "b_body b = Some bs" "b_size b = length bs" "length bs < 2 ^ 62" "0 < p" "p < int (length bs)"
  shows "binary_slice (YPtr (OBin b)) (YFixnum p) YNil = Inl MemFault"
proof -
  have "to_int (b_size b) = int (length bs)" using assms(2,3) by simp
  moreover have "nat p < length bs" "bs \<noteq> []" using assms(4,5) by auto
  ultimately show ?thesis using assms
    by (simp add: binary_slice_def check_binary_def YogBinary_slice_def YogBinary_size_def YogBinary_of_size_def
        YogByteArray_new_ok binary_alloc_def mem_copy_def Let_def)
qed

lemma binary_slice_overreads_instance:
  "binary_slice (YPtr (OBin sample_binary)) (YFixnum 1) YNil = Inl MemFault"
  by (rule binary_slice_overreads[of _ "[0x59, 0x6f, 0x67]"]) (simp_all add: sample_binary_def)

text \<open>C28: a string of characters below U+10000 that is converted to a binary in UTF-8 and back has the
  same characters.\<close>

theorem string_binary_roundtrip:
  assumes "string_ok s" "\<forall>c \<in> set (chars_of s). c < 0x10000"
  shows "\<exists>b t. string_to_cstr (YPtr (OStr s)) (Some create_utf8) = Inr b
    \<and> binary_to_s b (Some create_utf8) = Inr t \<and> chars_of t = chars_of s"
proof -
  let ?e = "encode_with utf8_bytes (chars_of s)"
  have ok: "\<forall>c \<in> set (chars_of s). utf8_ok c" using assms(2) by (simp add: utf8_ok_def)
  have sz: "s_size s \<le> length (STRING_CHARS s)" "s_size s < 2 ^ 62" using assms(1) by (auto simp: string_ok_def)
  have l: "length ?e < 2 ^ 64" using utf8_bytes_length[of "chars_of s"] assms(1) sz by simp
  have "string_to_cstr (YPtr (OStr s)) (Some create_utf8) = Inr \<lparr>b_size = length ?e + 1, b_body = Some (?e @ [0])\<rparr>"
    using utf8.conv_from_yog_encode[OF ok l] sz
    by (simp add: string_to_cstr_def check_self_string_def chars_of_def)
  moreover have "mem_copy (replicate (length ?e + 1) 0) 0 (?e @ [0]) 0 (length ?e + 1) = Inr (?e @ [0])"
    by (simp add: mem_copy_def del: replicate_Suc)
  moreover have "conv_to_yog create_utf8 (?e @ [0]) 0 (length ?e) = Inr (chars_of s)"
    using utf8.conv_to_yog_encode[OF ok, of "[]" "[0]"] by simp
  ultimately show ?thesis using sz assms(1)
    by (simp add: binary_to_s_def YogBinary_to_s_def of_chars_ok Let_def del: replicate_Suc)
qed

theorem string_binary_roundtrip_witness:
  "\<exists>b t. string_to_cstr (YPtr (OStr sample_string)) (Some create_utf8) = Inr b
    \<and> binary_to_s b (Some create_utf8) = Inr t \<and> chars_of t = chars_of sample_string"
  by (rule string_binary_roundtrip[OF sample_string_ok(1)])
    (simp add: sample_string_def of_chars_ok word_less_nat_alt)

end
