(* ===== verification/BigDigits.thy ===== *)
theory BigDigits
  imports YogPrelude
begin

text \<open>
  The multiple precision arithmetic under the interpreter's big integers:
  \<^verbatim>\<open>BigDigits/bigdigits.c\<close>, the project's 64 bit adaptation of a public library. A number is
  an array of 64 bit digits, the least significant first; a C function on arrays of \<^verbatim>\<open>ndigits\<close>
  digits is a function on lists of that length, its loop a recursion over them.
\<close>

section \<open>Digits\<close>

type_synonym digit = "64 word"

definition base :: int where "base = 2 ^ 64"

primrec digits_val :: "digit list \<Rightarrow> int" where
  "digits_val [] = 0"
| "digits_val (d # ds) = uint d + base * digits_val ds"

lemma base_pos [simp]: "0 < base" "0 \<le> base" "base \<noteq> 0" "1 < base" "1 \<le> base"
  by (simp_all add: base_def)

lemma uint_base [simp]: "uint (d :: digit) < base"
  using uint_lt2p[of d] by (simp add: base_def)

lemma digits_val_nonneg [simp]: "0 \<le> digits_val ds"
  by (induction ds) auto

lemma digits_val_less: "digits_val ds < base ^ length ds"
proof (induction ds)
  case (Cons d ds)
  then have "base * (digits_val ds + 1) \<le> base * base ^ length ds" by (intro mult_left_mono) auto
  moreover have "uint d < base" by simp
  ultimately have "uint d + base * digits_val ds < base * base ^ length ds"
    unfolding distrib_left mult_1_right by linarith
  then show ?case by simp
qed simp

lemma digits_val_append: "digits_val (xs @ ys) = digits_val xs + base ^ length xs * digits_val ys"
  by (induction xs) (simp_all add: algebra_simps)

lemma digits_val_zeros [simp]: "digits_val (replicate n 0) = 0"
  by (induction n) auto

lemma digits_val_take_drop:
  "digits_val xs = digits_val (take n xs) + base ^ length (take n xs) * digits_val (drop n xs)"
  by (metis append_take_drop_id digits_val_append)

lemma uint_carry: "uint (a + b) = uint a + uint b - (if a + b < b then base else 0)"
  for a b :: digit
proof -
  have "uint a < base" "uint b < base" "0 \<le> uint a" "0 \<le> uint b" by simp_all
  then show ?thesis by (auto simp: uint_plus_if' word_less_alt base_def)
qed

lemma uint_max: "uint (- 1 :: digit) = base - 1"
proof -
  have "uint (- 1 :: digit) = mask 64" by (simp add: unsigned_minus_1_eq_mask)
  then show ?thesis by (simp add: mask_eq_exp_minus_1 base_def)
qed

lemma uint_max_minus: "uint (- 1 - b) = base - 1 - uint b" for b :: digit
  using uint_base[of b] uint_max by (simp add: uint_sub_if' del: uint_base)

lemma uint_borrow: "uint (a - b) = uint a - uint b + (if a - b > - 1 - b then base else 0)"
  for a b :: digit
proof -
  have r: "uint a < base" "uint b < base" "0 \<le> uint a" "0 \<le> uint b" by simp_all
  have d: "uint (a - b) = (if uint b \<le> uint a then uint a - uint b else uint a - uint b + base)"
    by (simp add: uint_sub_if' base_def)
  show ?thesis
  proof (cases "uint b \<le> uint a")
    case True
    then have "uint (a - b) = uint a - uint b" using d by simp
    then have "\<not> base - 1 - uint b < uint (a - b)" using r by linarith
    then show ?thesis using True d by (simp add: word_less_alt uint_max_minus)
  next
    case False
    then have "uint (a - b) = uint a - uint b + base" using d by simp
    then have "base - 1 - uint b < uint (a - b)" using r by linarith
    then show ?thesis using False d by (simp add: word_less_alt uint_max_minus)
  qed
qed

section \<open>Single digits\<close>

definition MAX_DIGIT :: digit where "MAX_DIGIT = - 1"
definition MAX_HALF_DIGIT :: digit where "MAX_HALF_DIGIT = drop_bit 32 MAX_DIGIT"
definition LOHALF :: "digit \<Rightarrow> digit" where "LOHALF x = x AND MAX_HALF_DIGIT"
definition HIHALF :: "digit \<Rightarrow> digit" where "HIHALF x = drop_bit 32 x AND MAX_HALF_DIGIT"
definition TOHIGH :: "digit \<Rightarrow> digit" where "TOHIGH x = push_bit 32 x"

definition spMultiply :: "digit \<Rightarrow> digit \<Rightarrow> digit \<times> digit" where
  "spMultiply x y =
     (let x0 = LOHALF x; x1 = HIHALF x; y0 = LOHALF y; y1 = HIHALF y;
          p0 = x0 * y0;
          u = x1 * y0;
          t = x0 * y1 + u;
          carry = TOHIGH (if t < u then 1 else 0) + HIHALF t;
          t' = TOHIGH t;
          p0' = p0 + t';
          carry' = (if p0' < t' then carry + 1 else carry)
      in (p0', x1 * y1 + carry'))"

lemma max_half: "MAX_HALF_DIGIT = mask 32"
  by (simp add: MAX_HALF_DIGIT_def MAX_DIGIT_def mask_eq_exp_minus_1)

lemma LOHALF_take_bit: "LOHALF x = take_bit 32 x"
  by (simp add: LOHALF_def max_half take_bit_eq_mask)

lemma HIHALF_drop_bit: "HIHALF x = drop_bit 32 x"
proof -
  have "take_bit 32 (drop_bit 32 x) = drop_bit 32 (x :: digit)"
    by (rule bit_word_eqI) (auto simp: bit_simps dest: bit_imp_le_length)
  then show ?thesis by (simp add: HIHALF_def max_half flip: take_bit_eq_mask)
qed

lemma uint_LOHALF: "uint (LOHALF x) = uint x mod 2 ^ 32"
  by (metis LOHALF_take_bit unsigned_take_bit_eq take_bit_eq_mod)

lemma uint_HIHALF: "uint (HIHALF x) = uint x div 2 ^ 32"
proof -
  have "take_bit 64 (uint x) = uint x" using bintr_uint[of 64 x] by simp
  moreover have "uint (HIHALF x) = drop_bit 32 (take_bit 64 (uint x))"
    by (simp add: HIHALF_drop_bit unsigned_drop_bit_eq del: drop_bit_take_bit)
  ultimately show ?thesis by (metis drop_bit_eq_div)
qed

lemma uint_TOHIGH: "uint (TOHIGH x) = 2 ^ 32 * uint (LOHALF x)"
proof -
  have "uint (TOHIGH x) = take_bit 64 (push_bit 32 (uint x))"
    using unsigned_push_bit_eq[of 32 x] by (simp add: TOHIGH_def)
  then have "uint (TOHIGH x) = uint x * 2 ^ 32 mod 2 ^ 64"
    by (metis take_bit_eq_mod push_bit_eq_mult)
  also have "\<dots> = 2 ^ 32 * (uint x mod 2 ^ 32)"
    using mult_mod_right[of "2 ^ 32" "uint x" "2 ^ 32"] by (simp add: mult.commute)
  finally show ?thesis by (simp add: uint_LOHALF)
qed

lemma half_bounds: "0 \<le> uint (LOHALF x)" "uint (LOHALF x) < 2 ^ 32"
  "0 \<le> uint (HIHALF x)" "uint (HIHALF x) < 2 ^ 32"
proof -
  have "uint x < 2 ^ 32 * 2 ^ 32" using uint_base[of x] by (simp add: base_def)
  then show "uint (HIHALF x) < 2 ^ 32" unfolding uint_HIHALF by simp
qed (simp_all add: uint_LOHALF)

lemma halves: "uint x = uint (LOHALF x) + 2 ^ 32 * uint (HIHALF x)"
  by (simp add: uint_LOHALF uint_HIHALF)

lemma uint_times: "uint x * uint y < base \<Longrightarrow> uint (x * y) = uint x * uint y" for x y :: digit
  using uint_mult_lem[of x y] by (simp add: base_def)

lemma spMultiply_spec:
  assumes "spMultiply x y = (p0, p1)"
  shows "uint p0 + base * uint p1 = uint x * uint y"
proof -
  define x0 x1 y0 y1 where h: "x0 = LOHALF x" "x1 = HIHALF x" "y0 = LOHALF y" "y1 = HIHALF y"
  let ?H = "2 ^ 32 :: int"
  have b: "base = ?H * ?H" by (simp add: base_def)
  have prod: "uint (a * c) = uint a * uint c" "uint a * uint c \<le> (?H - 1) * (?H - 1)"
    if "uint a < ?H" "uint c < ?H" for a c :: digit
  proof -
    show "uint a * uint c \<le> (?H - 1) * (?H - 1)" using that by (intro mult_mono) auto
    then show "uint (a * c) = uint a * uint c" by (intro uint_times) (simp add: base_def)
  qed
  note hb = half_bounds[of x, folded h] half_bounds[of y, folded h]
  define u t where ut: "u = x1 * y0" "t = x0 * y1 + u"
  define c1 :: int where "c1 = (if t < u then 1 else 0)"
  have t: "uint t = uint x0 * uint y1 + uint x1 * uint y0 - base * c1"
    using uint_carry[of "x0 * y1" u] hb prod by (simp add: ut c1_def)
  define q where "q = x0 * y0 + TOHIGH t"
  define c2 :: int where "c2 = (if q < TOHIGH t then 1 else 0)"
  have q: "uint q = uint x0 * uint y0 + ?H * uint (LOHALF t) - base * c2"
    using uint_carry[of "x0 * y0" "TOHIGH t"] hb prod by (simp add: q_def c2_def uint_TOHIGH)
  define C where "C = ?H * c1 + uint (HIHALF t) + c2"
  have total: "uint q + base * (uint x1 * uint y1 + C) = uint x * uint y"
    using halves[of x] halves[of y] halves[of t] t q unfolding h(1-4)[symmetric] b C_def
    by (simp only:) (algebra)
  have "uint x * uint y \<le> (base - 1) * (base - 1)"
    using uint_base[of x] uint_base[of y] by (intro mult_mono) auto
  also have "\<dots> < base * base" by (simp add: base_def)
  finally have "base * (uint x1 * uint y1 + C) < base * base"
    using total uint_ge_0[of q] by linarith
  then have fit: "uint x1 * uint y1 + C < base" by simp
  have c: "0 \<le> c1" "c1 \<le> 1" "0 \<le> c2" "c2 \<le> 1" by (simp_all add: c1_def c2_def)
  have hi: "uint (TOHIGH (if t < u then 1 else 0)) = ?H * c1"
    by (simp add: uint_TOHIGH LOHALF_take_bit c1_def)
  have Cr: "0 \<le> C" using c half_bounds[of t] by (simp add: C_def)
  have C0: "uint (TOHIGH (if t < u then 1 else 0) + HIHALF t) = ?H * c1 + uint (HIHALF t)"
    using c half_bounds(4)[of t] unfolding hi[symmetric] by (subst uint_add_lem[symmetric]) (simp add: hi)
  have C': "uint (if q < TOHIGH t then TOHIGH (if t < u then 1 else 0) + HIHALF t + 1
       else TOHIGH (if t < u then 1 else 0) + HIHALF t) = C"
    using c half_bounds(4)[of t] C0 uint_plus_if'[of "TOHIGH (if t < u then 1 else 0) + HIHALF t" 1]
    by (auto simp: C_def c2_def)
  have p: "p0 = q" "p1 = x1 * y1 + (if q < TOHIGH t then TOHIGH (if t < u then 1 else 0) + HIHALF t + 1
       else TOHIGH (if t < u then 1 else 0) + HIHALF t)"
    using assms[symmetric] unfolding spMultiply_def Let_def h ut q_def prod.inject by blast+
  have "uint p1 = uint x1 * uint y1 + C"
    using prod(1)[of x1 y1] hb fit Cr
    unfolding p by (simp add: uint_plus_if' C' base_def)
  then show ?thesis using total p by simp
qed

text \<open>One digit of a loop and what the loop does on the others: \<open>k'\<close> is what is carried over.\<close>

lemma digit_recursion:
  assumes "x + base * k' = a" "W + base ^ n * c = U + k'"
  shows "x + base * W + base ^ Suc n * c = a + base * U"
proof -
  have "base * (W + base ^ n * c) = base * (U + k')" using assms(2) by simp
  then show ?thesis using assms(1) by (simp add: algebra_simps)
qed

section \<open>Addition and subtraction\<close>

fun mpAdd_loop :: "digit list \<Rightarrow> digit list \<Rightarrow> digit \<Rightarrow> digit list \<times> digit" where
  "mpAdd_loop (u # us) (v # vs) k =
     (let w = u + k;
          k1 = (if w < k then 1 else 0);
          w' = w + v;
          k2 = (if w' < v then k1 + 1 else k1);
          (ws, carry) = mpAdd_loop us vs k2
      in (w' # ws, carry))"
| "mpAdd_loop _ _ k = ([], k)"

definition mpAdd :: "digit list \<Rightarrow> digit list \<Rightarrow> digit list \<times> digit" where
  "mpAdd u v = mpAdd_loop u v 0"

fun mpSubtract_loop :: "digit list \<Rightarrow> digit list \<Rightarrow> digit \<Rightarrow> digit list \<times> digit" where
  "mpSubtract_loop (u # us) (v # vs) k =
     (let w = u - k;
          k1 = (if w > MAX_DIGIT - k then 1 else 0);
          w' = w - v;
          k2 = (if w' > MAX_DIGIT - v then k1 + 1 else k1);
          (ws, borrow) = mpSubtract_loop us vs k2
      in (w' # ws, borrow))"
| "mpSubtract_loop _ _ k = ([], k)"

definition mpSubtract :: "digit list \<Rightarrow> digit list \<Rightarrow> digit list \<times> digit" where
  "mpSubtract u v = mpSubtract_loop u v 0"

lemma add_step:
  fixes u v k k2 :: digit
  assumes "uint k \<le> 1" "w = u + k" "w' = w + v"
    and "k2 = (if w' < v then (if w < k then 1 else 0) + 1 else (if w < k then 1 else 0))"
  shows "uint w' + base * uint k2 = uint u + uint v + uint k" "uint k2 \<le> 1"
proof -
  define a b :: int where ab: "a = (if w < k then 1 else 0)" "b = (if w' < v then 1 else 0)"
  have w: "uint w = uint u + uint k - base * a" "uint w' = uint w + uint v - base * b"
    using uint_carry[of u k] uint_carry[of w v] assms(2,3) by (auto simp: ab)
  have r: "uint u < base" "uint v < base" "0 \<le> uint w" "0 \<le> uint w'" "0 \<le> uint u" by simp_all
  have "a + b \<le> 1"
  proof (rule ccontr)
    assume "\<not> a + b \<le> 1"
    then have "a = 1" "b = 1" by (auto simp: ab split: if_splits)
    then show False using w r assms(1) by simp
  qed
  moreover have "uint k2 = a + b" by (simp add: assms(4) ab)
  ultimately show "uint w' + base * uint k2 = uint u + uint v + uint k" "uint k2 \<le> 1"
    using w by (simp_all add: algebra_simps)
qed

lemma mpAdd_loop_spec:
  assumes "length u = length v" "uint k \<le> 1" "mpAdd_loop u v k = (w, c)"
  shows "digits_val w + base ^ length u * uint c = digits_val u + digits_val v + uint k
    \<and> length w = length u \<and> uint c \<le> 1"
  using assms
proof (induction u v k arbitrary: w c rule: mpAdd_loop.induct)
  case (1 u us v vs k)
  define w1 where "w1 = u + k"
  define w2 where "w2 = w1 + v"
  define k2 :: digit where "k2 = (if w2 < v then (if w1 < k then 1 else 0) + 1 else (if w1 < k then 1 else 0))"
  obtain ws c' where r: "mpAdd_loop us vs k2 = (ws, c')" by fastforce
  have rest: "mpAdd_loop us vs k2 = (ws, c)" "w = w2 # ws"
    using 1(4) r unfolding mpAdd_loop.simps Let_def w1_def[symmetric] w2_def[symmetric]
      k2_def[symmetric] by simp_all
  note st = add_step[OF 1(3) w1_def w2_def k2_def]
  have "digits_val ws + base ^ length us * uint c = digits_val us + digits_val vs + uint k2
    \<and> length ws = length us \<and> uint c \<le> 1"
    using 1(2) by (intro 1(1)[OF w1_def refl w2_def k2_def _ st(2) rest(1)]) simp
  then show ?case
    using digit_recursion[OF st(1), of "digits_val ws" "length us" "uint c" "digits_val us + digits_val vs"]
    by (simp add: rest(2) algebra_simps)
qed auto

lemma mpAdd_spec:
  assumes "length u = length v" "mpAdd u v = (w, c)"
  shows "digits_val w + base ^ length u * uint c = digits_val u + digits_val v"
    "length w = length u" "uint c \<le> 1"
  using mpAdd_loop_spec[of u v 0 w c] assms by (simp_all add: mpAdd_def)

lemma sub_step:
  fixes u v k k2 :: digit
  assumes "uint k \<le> 1" "w = u - k" "w' = w - v"
    and "k2 = (if w' > MAX_DIGIT - v then (if w > MAX_DIGIT - k then 1 else 0) + 1
               else (if w > MAX_DIGIT - k then 1 else 0))"
  shows "uint w' - base * uint k2 = uint u - uint v - uint k" "uint k2 \<le> 1"
proof -
  define a b :: int where ab: "a = (if w > MAX_DIGIT - k then 1 else 0)"
    "b = (if w' > MAX_DIGIT - v then 1 else 0)"
  have w: "uint w = uint u - uint k + base * a" "uint w' = uint w - uint v + base * b"
    using uint_borrow[of u k] uint_borrow[of w v] assms(2,3) by (auto simp: ab MAX_DIGIT_def)
  have r: "uint v < base" "uint w < base" "0 \<le> uint u" "0 \<le> uint v" "uint w' < base" by simp_all
  have "a + b \<le> 1"
  proof (rule ccontr)
    assume "\<not> a + b \<le> 1"
    then have "a = 1" "b = 1" by (auto simp: ab split: if_splits)
    then show False using w r assms(1) by simp
  qed
  moreover have "uint k2 = a + b" by (simp add: assms(4) ab)
  ultimately show "uint w' - base * uint k2 = uint u - uint v - uint k" "uint k2 \<le> 1"
    using w by (simp_all add: algebra_simps)
qed

lemma mpSubtract_loop_spec:
  assumes "length u = length v" "uint k \<le> 1" "mpSubtract_loop u v k = (w, c)"
  shows "digits_val w - base ^ length u * uint c = digits_val u - digits_val v - uint k
    \<and> length w = length u \<and> uint c \<le> 1"
  using assms
proof (induction u v k arbitrary: w c rule: mpSubtract_loop.induct)
  case (1 u us v vs k)
  define w1 where "w1 = u - k"
  define w2 where "w2 = w1 - v"
  define k2 :: digit where "k2 = (if w2 > MAX_DIGIT - v then (if w1 > MAX_DIGIT - k then 1 else 0) + 1
    else (if w1 > MAX_DIGIT - k then 1 else 0))"
  obtain ws c' where r: "mpSubtract_loop us vs k2 = (ws, c')" by fastforce
  have rest: "mpSubtract_loop us vs k2 = (ws, c)" "w = w2 # ws"
    using 1(4) r unfolding mpSubtract_loop.simps Let_def w1_def[symmetric] w2_def[symmetric]
      k2_def[symmetric] by simp_all
  note st = sub_step[OF 1(3) w1_def w2_def k2_def]
  have "digits_val ws - base ^ length us * uint c = digits_val us - digits_val vs - uint k2
    \<and> length ws = length us \<and> uint c \<le> 1"
    using 1(2) by (intro 1(1)[OF w1_def refl w2_def k2_def _ st(2) rest(1)]) simp
  then show ?case
    using digit_recursion[of "uint w2" "- uint k2" "uint u - uint v - uint k" "digits_val ws"
        "length us" "- uint c" "digits_val us - digits_val vs"] st(1)
    by (simp add: rest(2) algebra_simps)
qed auto

lemma mpSubtract_spec:
  assumes "length u = length v" "mpSubtract u v = (w, c)"
  shows "digits_val w - base ^ length u * uint c = digits_val u - digits_val v"
    "length w = length u" "uint c \<le> 1"
  using mpSubtract_loop_spec[of u v 0 w c] assms by (simp_all add: mpSubtract_def)

section \<open>Multiplication\<close>

text \<open>
  One row of the schoolbook product: \<open>mpMultiply_row u v w k\<close> is the loop M3 to M5 on the window
  of the product that starts at \<^verbatim>\<open>w[j]\<close>. \<open>mpMultiply_loop\<close> is the loop on \<open>j\<close>; its array is what
  starts at \<^verbatim>\<open>w[j]\<close>.
\<close>

fun mpMultiply_row :: "digit list \<Rightarrow> digit \<Rightarrow> digit list \<Rightarrow> digit \<Rightarrow> digit list \<times> digit" where
  "mpMultiply_row (u # us) v (w # ws) k =
     (let (t0, t1) = spMultiply u v;
          t0' = t0 + k;
          t1' = (if t0' < k then t1 + 1 else t1);
          t0'' = t0' + w;
          t1'' = (if t0'' < w then t1' + 1 else t1');
          (rs, carry) = mpMultiply_row us v ws t1''
      in (t0'' # rs, carry))"
| "mpMultiply_row _ v _ k = ([], k)"

fun mpMultiply_loop :: "digit list \<Rightarrow> digit list \<Rightarrow> digit list \<Rightarrow> digit list" where
  "mpMultiply_loop u [] w = w"
| "mpMultiply_loop u (v # vs) w =
     (let m = length u;
          w' = (if v = 0 then w[m := 0]
                else let (row, k) = mpMultiply_row u v (take m w) 0 in row @ k # drop (m + 1) w)
      in hd w' # mpMultiply_loop u vs (tl w'))"

definition mpMultiply :: "digit list \<Rightarrow> digit list \<Rightarrow> digit list" where
  "mpMultiply u v = mpMultiply_loop u v (replicate (2 * length u) 0)"

lemma mul_step:
  fixes u v w k t0 t1 t1' t1'' :: digit
  assumes "spMultiply u v = (t0, t1)" "t0' = t0 + k" "t1' = (if t0' < k then t1 + 1 else t1)"
    "t0'' = t0' + w" "t1'' = (if t0'' < w then t1' + 1 else t1')"
  shows "uint t0'' + base * uint t1'' = uint u * uint v + uint k + uint w"
proof -
  define a b :: int where ab: "a = (if t0' < k then 1 else 0)" "b = (if t0'' < w then 1 else 0)"
  have t: "uint t0' = uint t0 + uint k - base * a" "uint t0'' = uint t0' + uint w - base * b"
    using uint_carry[of t0 k] uint_carry[of t0' w] assms(2,4) by (auto simp: ab)
  have total: "uint t0'' + base * (uint t1 + a + b) = uint u * uint v + uint k + uint w"
    using spMultiply_spec[OF assms(1)] t by (simp add: algebra_simps)
  have "uint u * uint v \<le> (base - 1) * (base - 1)"
    using uint_base[of u] uint_base[of v] by (intro mult_mono) auto
  moreover have "uint k \<le> base - 1" "uint w \<le> base - 1"
    using uint_base[of k] uint_base[of w] by linarith+
  ultimately have "uint u * uint v + uint k + uint w \<le> base * base - 1"
    by (simp add: algebra_simps)
  then have "base * (uint t1 + a + b) < base * base"
    using total uint_ge_0[of t0''] by linarith
  then have fit: "uint t1 + a + b < base" by simp
  have nn: "0 \<le> a" "0 \<le> b" by (simp_all add: ab)
  have t1': "uint t1' = uint t1 + a"
    using fit nn assms(3) uint_plus_if'[of t1 1] unfolding ab(1) base_def by auto
  then have "uint t1'' = uint t1 + a + b"
    using fit nn assms(5) uint_plus_if'[of t1' 1] unfolding ab(2) base_def by auto
  then show ?thesis using total by simp
qed

lemma mpMultiply_row_spec:
  assumes "length u = length w" "mpMultiply_row u v w k = (r, c)"
  shows "digits_val r + base ^ length u * uint c = digits_val u * uint v + digits_val w + uint k
    \<and> length r = length u"
  using assms
proof (induction u v w k arbitrary: r c rule: mpMultiply_row.induct)
  case (1 u us v w ws k)
  obtain t0 t1 where m: "spMultiply u v = (t0, t1)" by fastforce
  define t0' where "t0' = t0 + k"
  define t1' where "t1' = (if t0' < k then t1 + 1 else t1)"
  define t0'' where "t0'' = t0' + w"
  define t1'' where "t1'' = (if t0'' < w then t1' + 1 else t1')"
  note d = t0'_def t1'_def t0''_def t1''_def
  obtain rs c' where rr: "mpMultiply_row us v ws t1'' = (rs, c')" by fastforce
  have rest: "mpMultiply_row us v ws t1'' = (rs, c)" "r = t0'' # rs"
    using 1(3) rr unfolding mpMultiply_row.simps Let_def m prod.case t0'_def[symmetric]
      t1'_def[symmetric] t0''_def[symmetric] t1''_def[symmetric] by simp_all
  note st = mul_step[OF m d]
  have "digits_val rs + base ^ length us * uint c = digits_val us * uint v + digits_val ws + uint t1''
    \<and> length rs = length us"
    using 1(2) by (intro 1(1)[OF m[symmetric] refl d _ rest(1)]) simp
  then show ?case
    using digit_recursion[OF st, of "digits_val rs" "length us" "uint c" "digits_val us * uint v + digits_val ws"]
    by (simp add: rest(2) algebra_simps)
qed auto

lemma mpMultiply_loop_spec:
  assumes "length w = length u + length v" "drop (length u) w = replicate (length v) 0"
  shows "digits_val (mpMultiply_loop u v w) = digits_val w + digits_val u * digits_val v
    \<and> length (mpMultiply_loop u v w) = length w"
  using assms
proof (induction v arbitrary: w)
  case (Cons v vs)
  let ?m = "length u"
  define w' where "w' = (if v = 0 then w[?m := 0]
    else let (row, k) = mpMultiply_row u v (take ?m w) 0 in row @ k # drop (?m + 1) w)"
  have d: "drop ?m w = 0 # replicate (length vs) 0" using Cons.prems by simp
  have "drop (Suc ?m) w = tl (drop ?m w)" by (simp add: drop_Suc tl_drop)
  then have d1: "drop (?m + 1) w = replicate (length vs) 0" using d by simp
  have wm: "w ! ?m = 0" using d by (rule nth_via_drop)
  have vw: "digits_val w = digits_val (take ?m w)"
    using digits_val_take_drop[of w ?m] by (simp add: d)
  have w': "digits_val w' = digits_val w + digits_val u * uint v \<and> length w' = length w
    \<and> drop (?m + 1) w' = replicate (length vs) 0"
  proof (cases "v = 0")
    case True
    then have "w' = w" using wm list_update_id[of w ?m] by (simp add: w'_def)
    then show ?thesis using True d1 by simp
  next
    case False
    obtain row k where r: "mpMultiply_row u v (take ?m w) 0 = (row, k)" by fastforce
    have w'e: "w' = row @ k # drop (?m + 1) w" using False r by (simp add: w'_def)
    have rs: "digits_val row + base ^ ?m * uint k = digits_val u * uint v + digits_val (take ?m w)"
      "length row = ?m"
      using mpMultiply_row_spec[OF _ r] Cons.prems(1) by simp_all
    have "digits_val w' = digits_val row + base ^ ?m * uint k"
      by (simp add: w'e digits_val_append rs(2) d1[simplified])
    then show ?thesis using rs vw w'e d1 Cons.prems(1) by simp
  qed
  have ne: "w' \<noteq> []" using w' Cons.prems(1) by auto
  have "drop ?m (tl w') = replicate (length vs) 0" using w' by (simp add: drop_Suc)
  then have "digits_val (mpMultiply_loop u vs (tl w')) = digits_val (tl w') + digits_val u * digits_val vs
    \<and> length (mpMultiply_loop u vs (tl w')) = length (tl w')"
    using w' Cons.prems(1) by (intro Cons.IH) auto
  moreover have "digits_val w' = uint (hd w') + base * digits_val (tl w')"
    using ne by (metis digits_val.simps(2) list.collapse)
  moreover have "mpMultiply_loop u (v # vs) w = hd w' # mpMultiply_loop u vs (tl w')"
    by (simp add: w'_def Let_def)
  ultimately show ?case using w' Cons.prems(1) by (simp add: algebra_simps)
qed simp

lemma mpMultiply_spec:
  assumes "length u = length v"
  shows "digits_val (mpMultiply u v) = digits_val u * digits_val v"
    "length (mpMultiply u v) = 2 * length u"
  using mpMultiply_loop_spec[of "replicate (2 * length u) 0" u v] assms
  by (simp_all add: mpMultiply_def)

section \<open>Comparison and size\<close>

text \<open>These loops run from the most significant of \<^verbatim>\<open>ndigits\<close> digits down.\<close>

primrec mpCompare :: "digit list \<Rightarrow> digit list \<Rightarrow> nat \<Rightarrow> int" where
  "mpCompare a b 0 = 0"
| "mpCompare a b (Suc n) =
     (if a ! n > b ! n then 1 else if a ! n < b ! n then - 1 else mpCompare a b n)"

fun mpIsZero :: "digit list \<Rightarrow> bool" where
  "mpIsZero [] = True"
| "mpIsZero (d # ds) = (if d \<noteq> 0 then False else mpIsZero ds)"

primrec mpSizeof :: "digit list \<Rightarrow> nat \<Rightarrow> nat" where
  "mpSizeof a 0 = 0"
| "mpSizeof a (Suc n) = (if a ! n \<noteq> 0 then Suc n else mpSizeof a n)"

lemma digits_val_take_Suc:
  "n < length a \<Longrightarrow> digits_val (take (Suc n) a) = digits_val (take n a) + base ^ n * uint (a ! n)"
  by (simp add: take_Suc_conv_app_nth digits_val_append)

lemma mpCompare_spec:
  assumes "n \<le> length a" "n \<le> length b"
  shows "mpCompare a b n = sgn (digits_val (take n a) - digits_val (take n b))"
  using assms
proof (induction n)
  case (Suc n)
  let ?x = "digits_val (take n a)" and ?y = "digits_val (take n b)"
  have r: "0 \<le> ?x" "0 \<le> ?y" "?x < base ^ n" "?y < base ^ n"
    using digits_val_less[of "take n a"] digits_val_less[of "take n b"] Suc.prems by simp_all
  have gap: "base ^ n \<le> base ^ n * (p - q)" if "q < p" for p q :: int
  proof -
    have "base ^ n * 1 \<le> base ^ n * (p - q)" using that by (intro mult_left_mono) auto
    then show ?thesis by simp
  qed
  consider "uint (a ! n) = uint (b ! n)" | "uint (a ! n) < uint (b ! n)" | "uint (a ! n) > uint (b ! n)"
    by linarith
  then show ?case
  proof cases
    case 1
    then show ?thesis using Suc by (simp add: digits_val_take_Suc word_less_alt)
  next
    case 2
    then have "?x + base ^ n * uint (a ! n) < ?y + base ^ n * uint (b ! n)"
      using gap[OF 2] r unfolding right_diff_distrib by linarith
    then show ?thesis using 2 Suc.prems by (simp add: digits_val_take_Suc word_less_alt)
  next
    case 3
    then have "?y + base ^ n * uint (b ! n) < ?x + base ^ n * uint (a ! n)"
      using gap[OF 3] r unfolding right_diff_distrib by linarith
    then show ?thesis using 3 Suc.prems by (simp add: digits_val_take_Suc word_less_alt)
  qed
qed simp

lemma mpIsZero_spec: "mpIsZero a \<longleftrightarrow> digits_val a = 0"
proof (induction a)
  case (Cons d ds)
  have "uint d + base * digits_val ds = 0 \<longleftrightarrow> d = 0 \<and> digits_val ds = 0"
    using digits_val_nonneg[of ds] by (simp add: add_nonneg_eq_0_iff uint_0_iff)
  then show ?case using Cons by simp
qed simp

lemma mpSizeof_le: "mpSizeof a n \<le> n"
  by (induction n) auto

lemma mpSizeof_val:
  "n \<le> length a \<Longrightarrow> digits_val (take (mpSizeof a n) a) = digits_val (take n a)"
  by (induction n) (auto simp: digits_val_take_Suc)

lemma mpSizeof_top: "0 < mpSizeof a n \<Longrightarrow> a ! (mpSizeof a n - 1) \<noteq> 0"
  by (induction n) (auto split: if_splits)

section \<open>Shifts\<close>

text \<open>
  The part of \<^verbatim>\<open>mpShiftLeft\<close> and \<^verbatim>\<open>mpShiftRight\<close> for widths below the digit size, and the
  whole functions, which move whole digits first. The carry of a shift by whole digits is read
  from an index that the caller must keep inside the array (\<open>mem_load\<close>). A shift by no bits at all
  masks with zero before it shifts by 64, where C leaves the result to the processor and every
  processor gives 0.
\<close>

fun shift_left_loop :: "digit list \<Rightarrow> nat \<Rightarrow> digit \<Rightarrow> digit list \<times> digit" where
  "shift_left_loop [] bits carry = ([], carry)"
| "shift_left_loop (b # bs) bits carry =
     (let mask = NOT (drop_bit bits (NOT 0));
          y = 64 - bits;
          nextcarry = drop_bit y (b AND mask);
          (as, c) = shift_left_loop bs bits nextcarry
      in ((push_bit bits b OR carry) # as, c))"

definition mpShiftLeft_bits :: "digit list \<Rightarrow> nat \<Rightarrow> digit list \<times> digit" where
  "mpShiftLeft_bits b bits = shift_left_loop b bits 0"

definition mpShiftLeft :: "digit list \<Rightarrow> nat \<Rightarrow> (digit list \<times> digit) res" where
  "mpShiftLeft b shift =
     (let ndigits = length b
      in if 64 \<le> shift then
           let nw = shift div 64;
               a = map (\<lambda>i. if nw \<le> i then b ! (i - nw) else 0) [0..<ndigits];
               bits = shift mod 64
           in res_bind (mem_load b (usub ndigits nw)) (\<lambda>d.
                let carry = push_bit bits d
                in if bits \<noteq> 0 then let (a', c) = mpShiftLeft_bits a bits in Inr (a', carry OR c)
                   else Inr (a, carry))
         else Inr (mpShiftLeft_bits b shift))"

fun shift_right_loop :: "digit list \<Rightarrow> nat \<Rightarrow> digit list \<times> digit" where
  "shift_right_loop [] bits = ([], 0)"
| "shift_right_loop (b # bs) bits =
     (let mask = NOT (push_bit bits (NOT 0));
          y = 64 - bits;
          (as, carry) = shift_right_loop bs bits
      in ((drop_bit bits b OR carry) # as, push_bit y (b AND mask)))"

definition mpShiftRight_bits :: "digit list \<Rightarrow> nat \<Rightarrow> digit list \<times> digit" where
  "mpShiftRight_bits b bits = shift_right_loop b bits"

definition mpShiftRight :: "digit list \<Rightarrow> nat \<Rightarrow> (digit list \<times> digit) res" where
  "mpShiftRight b shift =
     (let ndigits = length b
      in if 64 \<le> shift then
           let nw = shift div 64;
               a = map (\<lambda>i. if i + nw < ndigits then b ! (i + nw) else 0) [0..<ndigits];
               bits = shift mod 64
           in res_bind (mem_load b (nw - 1)) (\<lambda>d.
                let carry = drop_bit bits d
                in if bits \<noteq> 0 then let (a', c) = mpShiftRight_bits a bits in Inr (a', carry OR c)
                   else Inr (a, carry))
         else Inr (mpShiftRight_bits b shift))"

lemma word_or_plus: "a AND b = 0 \<Longrightarrow> a OR b = a + b" for a b :: digit
  by (simp add: disjunctive_add_eq_or)

lemma uint_push_bit: "uint (push_bit n d) = uint d * 2 ^ n mod base" for d :: digit
proof -
  have "uint (push_bit n d) = take_bit 64 (push_bit n (uint d))"
    using unsigned_push_bit_eq[of n d] by simp
  then show ?thesis unfolding base_def by (metis take_bit_eq_mod push_bit_eq_mult)
qed

lemma uint_drop_bit: "uint (drop_bit n d) = uint d div 2 ^ n" for d :: digit
proof -
  have "take_bit 64 (uint d) = uint d" using bintr_uint[where n = 64, of d] by simp
  moreover have "uint (drop_bit n d) = drop_bit n (take_bit 64 (uint d))"
    by (simp add: unsigned_drop_bit_eq del: drop_bit_take_bit)
  ultimately show ?thesis by (metis drop_bit_eq_div)
qed

lemma int_div_lessI: "0 < q \<Longrightarrow> p < k * q \<Longrightarrow> p div q < k" for p q k :: int
proof (rule ccontr)
  assume "0 < q" "p < k * q" "\<not> p div q < k"
  then have "k * q \<le> p div q * q" by (intro mult_right_mono) auto
  also have "\<dots> \<le> p" using \<open>0 < q\<close> minus_mod_eq_div_mult[of p q] pos_mod_sign[of q p] by linarith
  finally show False using \<open>p < k * q\<close> by simp
qed

lemma shift_left_digit:
  fixes b c :: digit
  assumes "bits < 64" "uint c < 2 ^ bits"
  shows "uint (push_bit bits b OR c)
      + base * uint (drop_bit (64 - bits) (b AND NOT (drop_bit bits (NOT 0)))) = 2 ^ bits * uint b + uint c"
    "uint (drop_bit (64 - bits) (b AND NOT (drop_bit bits (NOT 0)))) < 2 ^ bits"
proof -
  have B: "base = 2 ^ (64 - bits) * 2 ^ bits" using assms(1) by (simp add: base_def flip: power_add)
  have m: "drop_bit (64 - bits) (b AND NOT (drop_bit bits (NOT 0))) = drop_bit (64 - bits) b"
    by (rule bit_word_eqI) (use assms(1) in \<open>auto simp: bit_simps dest: bit_imp_le_length\<close>)
  have "uint b < 2 ^ bits * 2 ^ (64 - bits)" using uint_base[of b] B by (simp add: mult.commute)
  then show "uint (drop_bit (64 - bits) (b AND NOT (drop_bit bits (NOT 0)))) < 2 ^ bits"
    unfolding m uint_drop_bit by (intro int_div_lessI) auto
  have "uint (take_bit bits c) = uint c"
    using assms(2) by (simp add: unsigned_take_bit_eq take_bit_int_eq_self)
  then have tc: "take_bit bits c = c" by (simp only: word_uint_eq_iff)
  have "push_bit bits b AND take_bit bits c = 0"
    by (rule bit_word_eqI) (auto simp: bit_simps)
  then have plus: "push_bit bits b OR c = push_bit bits b + c" using tc by (simp add: word_or_plus)
  have r: "uint b mod 2 ^ (64 - bits) * 2 ^ bits = uint b * 2 ^ bits mod base"
    unfolding B by (simp add: mult_mod_left)
  have "uint b * 2 ^ bits mod base + uint c < base"
  proof -
    have "uint b mod 2 ^ (64 - bits) + 1 \<le> 2 ^ (64 - bits)"
      unfolding add1_zle_eq by simp
    then have "(uint b mod 2 ^ (64 - bits) + 1) * 2 ^ bits \<le> base"
      unfolding B by (intro mult_right_mono) auto
    then show ?thesis using assms(2) r by (simp add: algebra_simps)
  qed
  then have "uint (push_bit bits b OR c) = uint b * 2 ^ bits mod base + uint c"
    unfolding plus by (simp add: uint_plus_if' uint_push_bit base_def)
  then have "uint (push_bit bits b OR c) = uint b mod 2 ^ (64 - bits) * 2 ^ bits + uint c"
    unfolding r .
  moreover have "2 ^ bits * uint b = 2 ^ bits * (uint b div 2 ^ (64 - bits) * 2 ^ (64 - bits))
      + 2 ^ bits * (uint b mod 2 ^ (64 - bits))"
    unfolding distrib_left[symmetric] by (simp only: div_mult_mod_eq)
  ultimately show "uint (push_bit bits b OR c)
      + base * uint (drop_bit (64 - bits) (b AND NOT (drop_bit bits (NOT 0)))) = 2 ^ bits * uint b + uint c"
    unfolding m uint_drop_bit B by (simp only: ac_simps)
qed

lemma shift_left_loop_spec:
  assumes "bits < 64" "uint c < 2 ^ bits" "shift_left_loop b bits c = (a, c')"
  shows "digits_val a + base ^ length b * uint c' = 2 ^ bits * digits_val b + uint c
    \<and> length a = length b \<and> uint c' < 2 ^ bits"
  using assms
proof (induction b bits c arbitrary: a c' rule: shift_left_loop.induct)
  case (2 b bs bits c)
  define nc where "nc = drop_bit (64 - bits) (b AND NOT (drop_bit bits (NOT 0)))"
  obtain as d where r: "shift_left_loop bs bits nc = (as, d)" by fastforce
  have rest: "shift_left_loop bs bits nc = (as, c')" "a = (push_bit bits b OR c) # as"
    using 2(4) r unfolding shift_left_loop.simps Let_def nc_def[symmetric] by simp_all
  note dg = shift_left_digit[OF 2(2,3), of b, folded nc_def]
  have "digits_val as + base ^ length bs * uint c' = 2 ^ bits * digits_val bs + uint nc
    \<and> length as = length bs \<and> uint c' < 2 ^ bits"
    by (rule 2(1)[OF refl refl nc_def 2(2) dg(2) rest(1)])
  then show ?case
    using digit_recursion[OF dg(1), of "digits_val as" "length bs" "uint c'" "2 ^ bits * digits_val bs"]
    by (simp add: rest(2) algebra_simps)
qed simp

lemma mpShiftLeft_bits_spec:
  assumes "bits < 64" "mpShiftLeft_bits b bits = (a, c)"
  shows "digits_val a + base ^ length b * uint c = 2 ^ bits * digits_val b"
    "length a = length b" "uint c < 2 ^ bits"
  using shift_left_loop_spec[of bits 0 b a c] assms by (simp_all add: mpShiftLeft_bits_def)

lemma shift_right_digit:
  fixes b c :: digit
  assumes "bits < 64" "uint c = r * 2 ^ (64 - bits)" "0 \<le> r" "r < 2 ^ bits"
  shows "uint (drop_bit bits b OR c) = uint b div 2 ^ bits + r * 2 ^ (64 - bits)"
    "uint (push_bit (64 - bits) (b AND NOT (push_bit bits (NOT 0)))) = uint b mod 2 ^ bits * 2 ^ (64 - bits)"
proof -
  have B: "base = 2 ^ bits * 2 ^ (64 - bits)" using assms(1) by (simp add: base_def flip: power_add)
  have m: "b AND NOT (push_bit bits (NOT 0)) = take_bit bits b"
    by (rule bit_word_eqI) (auto simp: bit_simps)
  have "uint (take_bit bits b) = uint b mod 2 ^ bits"
    by (metis unsigned_take_bit_eq take_bit_eq_mod)
  moreover have "uint b mod 2 ^ bits * 2 ^ (64 - bits) < base"
    unfolding B by (intro mult_strict_right_mono) auto
  ultimately show "uint (push_bit (64 - bits) (b AND NOT (push_bit bits (NOT 0)))) = uint b mod 2 ^ bits * 2 ^ (64 - bits)"
    unfolding m uint_push_bit by simp
  have "uint c = uint (push_bit (64 - bits) (word_of_int r :: digit))"
  proof -
    have "r < base" using assms(4) power_increasing[of bits 64 "2 :: int"] assms(1)
      unfolding base_def by linarith
    then have "uint (word_of_int r :: digit) = r" using assms(3) by (simp add: base_def unsigned_of_int take_bit_int_eq_self)
    moreover have "r * 2 ^ (64 - bits) < base" using assms(4) unfolding B by (intro mult_strict_right_mono) auto
    ultimately show ?thesis using assms(2,3) by (simp add: uint_push_bit)
  qed
  then have c: "c = push_bit (64 - bits) (word_of_int r)" by (simp only: word_uint_eq_iff)
  have "drop_bit bits b AND c = 0"
    unfolding c by (rule bit_word_eqI) (use assms(1) in \<open>auto simp: bit_simps dest: bit_imp_le_length\<close>)
  then have "drop_bit bits b OR c = drop_bit bits b + c" by (rule word_or_plus)
  moreover have "uint b div 2 ^ bits + r * 2 ^ (64 - bits) < base"
  proof -
    have "uint b div 2 ^ bits < 2 ^ (64 - bits)"
      using uint_base[of b] unfolding B by (intro int_div_lessI) (auto simp: mult.commute)
    moreover have "(r + 1) * 2 ^ (64 - bits) \<le> base"
      using assms(4) unfolding B by (intro mult_right_mono) auto
    ultimately show ?thesis by (simp add: algebra_simps)
  qed
  ultimately show "uint (drop_bit bits b OR c) = uint b div 2 ^ bits + r * 2 ^ (64 - bits)"
    using assms(2) by (simp add: uint_plus_if' uint_drop_bit base_def)
qed

lemma shift_right_loop_spec:
  assumes "bits < 64" "shift_right_loop b bits = (a, c)"
  shows "\<exists>r. uint c = r * 2 ^ (64 - bits) \<and> 0 \<le> r \<and> r < 2 ^ bits
    \<and> 2 ^ bits * digits_val a + r = digits_val b \<and> length a = length b"
  using assms
proof (induction b bits arbitrary: a c rule: shift_right_loop.induct)
  case (2 b bs bits)
  obtain as d where r: "shift_right_loop bs bits = (as, d)" by fastforce
  have res: "a = (drop_bit bits b OR d) # as" "c = push_bit (64 - bits) (b AND NOT (push_bit bits (NOT 0)))"
    using 2(3) r unfolding shift_right_loop.simps Let_def by simp_all
  obtain k where k: "uint d = k * 2 ^ (64 - bits)" "0 \<le> k" "k < 2 ^ bits"
    "2 ^ bits * digits_val as + k = digits_val bs" "length as = length bs"
    using 2(1)[OF refl refl 2(2) r] by blast
  note dg = shift_right_digit[OF 2(2) k(1-3), of b]
  have B: "base = 2 ^ bits * 2 ^ (64 - bits)" using 2(2) by (simp add: base_def flip: power_add)
  have "2 ^ bits * digits_val a + uint b mod 2 ^ bits
      = 2 ^ bits * (uint b div 2 ^ bits) + uint b mod 2 ^ bits + base * (2 ^ bits * digits_val as + k)"
    by (simp add: res(1) dg(1) B algebra_simps)
  then have "2 ^ bits * digits_val a + uint b mod 2 ^ bits = digits_val (b # bs)"
    by (simp add: k(4))
  then show ?case using dg(2) res k(5) by (intro exI[of _ "uint b mod 2 ^ bits"]) simp
qed simp

lemma mpShiftRight_bits_spec:
  assumes "bits < 64" "mpShiftRight_bits b bits = (a, c)"
  shows "digits_val a = digits_val b div 2 ^ bits" "length a = length b"
proof -
  obtain r where "0 \<le> r" "r < 2 ^ bits" "2 ^ bits * digits_val a + r = digits_val b" "length a = length b"
    using shift_right_loop_spec[of bits b a c] assms by (auto simp: mpShiftRight_bits_def)
  then show "digits_val a = digits_val b div 2 ^ bits" "length a = length b"
    by (metis div_pos_pos_trivial div_mult_self2 add.commute add.right_neutral zero_less_power zero_less_numeral less_irrefl, simp)
qed

text \<open>The whole shifts. \<open>d\<close> is the number and \<open>k\<close> the room that the caller has added above it.\<close>

lemma base_power_bits: "base ^ n = 2 ^ (64 * n)"
  by (simp add: base_def power_mult)

lemma no_carry_out:
  assumes "digits_val a + base ^ n * uint c = 2 ^ bits * digits_val d" "bits < 64" "length d < n"
  shows "digits_val a = 2 ^ bits * digits_val d"
proof -
  have "2 ^ bits * digits_val d < 2 ^ bits * base ^ length d"
    using digits_val_less[of d] by simp
  also have "\<dots> \<le> base * base ^ length d"
    using assms(2) power_increasing[of bits 64 "2 :: int"] unfolding base_def
    by (intro mult_right_mono) simp_all
  also have "\<dots> \<le> base ^ n"
    using assms(3) power_increasing[of "Suc (length d)" n base] by simp
  finally have "base ^ n * uint c < base ^ n * 1" using assms(1) digits_val_nonneg[of a] by linarith
  then have "uint c < 1" by (simp del: mult_1_right)
  then have "uint c = 0" using uint_ge_0[of c] by linarith
  then show ?thesis using assms(1) by simp
qed

lemma mpShiftLeft_spec:
  assumes "b = d @ replicate k 0" "shift div 64 < k" "length b < 2 ^ 64"
  shows "\<exists>a c. mpShiftLeft b shift = Inr (a, c) \<and> digits_val a = 2 ^ shift * digits_val d
    \<and> length a = length b"
proof (cases "shift < 64")
  case True
  obtain a c where r: "mpShiftLeft_bits b shift = (a, c)" by fastforce
  have "digits_val b = digits_val d" by (simp add: assms(1) digits_val_append)
  then have "digits_val a = 2 ^ shift * digits_val d"
    using mpShiftLeft_bits_spec[OF True r] assms True by (intro no_carry_out) auto
  then show ?thesis using True r mpShiftLeft_bits_spec(2)[OF True r]
    by (simp add: mpShiftLeft_def)
next
  case False
  define nw bits where nb: "nw = shift div 64" "bits = shift mod 64"
  define a where "a = map (\<lambda>i. if nw \<le> i then b ! (i - nw) else 0) [0..<length b]"
  have sh: "shift = 64 * nw + bits" "bits < 64" "0 < nw" "nw < k" using False assms(2) by (simp_all add: nb)
  have a: "a = (replicate nw 0 @ d) @ replicate (k - nw) 0"
    by (rule nth_equalityI) (use sh in \<open>auto simp: a_def assms(1) nth_append\<close>)
  have va: "digits_val a = base ^ nw * digits_val d" by (simp add: a digits_val_append)
  have p: "2 ^ shift * digits_val d = 2 ^ bits * (base ^ nw * digits_val d)"
    by (simp add: sh(1) power_add base_power_bits)
  have ld: "mem_load b (usub (length b) nw) = Inr (b ! (length b - nw))"
    using sh assms(1,3) by simp
  show ?thesis
  proof (cases "bits = 0")
    case True
    then show ?thesis using False ld va p
      by (simp add: mpShiftLeft_def Let_def nb[symmetric] a_def[symmetric]) (auto simp: a_def)
  next
    case b0: False
    obtain a' c where r: "mpShiftLeft_bits a bits = (a', c)" by fastforce
    have "digits_val a' = 2 ^ bits * digits_val (replicate nw 0 @ d)"
      using mpShiftLeft_bits_spec[OF sh(2) r] sh a
      by (intro no_carry_out[of a' "length a" c]) (simp_all add: digits_val_append)
    then show ?thesis using False b0 ld va p r mpShiftLeft_bits_spec(2)[OF sh(2) r]
      by (simp add: mpShiftLeft_def Let_def nb[symmetric] a_def[symmetric])
        (auto simp: a_def digits_val_append)
  qed
qed

lemma mpShiftRight_spec:
  assumes "shift < 64 \<or> shift div 64 \<le> length b"
  shows "\<exists>a c. mpShiftRight b shift = Inr (a, c) \<and> digits_val a = digits_val b div 2 ^ shift
    \<and> length a = length b"
proof (cases "shift < 64")
  case True
  obtain a c where r: "mpShiftRight_bits b shift = (a, c)" by fastforce
  then show ?thesis using True mpShiftRight_bits_spec[OF True r] by (simp add: mpShiftRight_def)
next
  case False
  define nw bits where nb: "nw = shift div 64" "bits = shift mod 64"
  define a where "a = map (\<lambda>i. if i + nw < length b then b ! (i + nw) else 0) [0..<length b]"
  have sh: "shift = 64 * nw + bits" "bits < 64" "0 < nw" "nw \<le> length b"
    using False assms by (auto simp: nb)
  have a: "a = drop nw b @ replicate nw 0"
    by (rule nth_equalityI) (use sh in \<open>auto simp: a_def nth_append add.commute\<close>)
  have l: "length a = length b" by (simp add: a_def)
  have "digits_val b = digits_val (take nw b) + base ^ nw * digits_val (drop nw b)"
    using digits_val_take_drop[of b nw] sh by simp
  moreover have "digits_val (take nw b) < base ^ nw" using digits_val_less[of "take nw b"] sh by simp
  ultimately have va: "digits_val a = digits_val b div base ^ nw"
    by (simp add: a digits_val_append)
  have p: "digits_val b div 2 ^ shift = digits_val a div 2 ^ bits"
    by (simp add: sh(1) power_add base_power_bits[symmetric] va zdiv_zmult2_eq)
  have ld: "mem_load b (nw - 1) = Inr (b ! (nw - 1))" using sh by simp
  show ?thesis
  proof (cases "bits = 0")
    case True
    then show ?thesis using False ld l p
      by (simp add: mpShiftRight_def Let_def nb[symmetric] a_def[symmetric])
  next
    case b0: False
    obtain a' c where r: "mpShiftRight_bits a bits = (a', c)" by fastforce
    then show ?thesis using False b0 ld p l mpShiftRight_bits_spec[OF sh(2) r]
      by (simp add: mpShiftRight_def Let_def nb[symmetric] a_def[symmetric])
  qed
qed

lemma mpShiftRight_overruns:
  assumes "length b < shift div 64"
  shows "mpShiftRight b shift = Inl MemFault"
  using assms by (auto simp: mpShiftRight_def Let_def mem_load_def)

section \<open>One digit as an operand\<close>

text \<open>\<^verbatim>\<open>mpShortAdd\<close> and \<^verbatim>\<open>mpShortSub\<close> add the digit to the first digit and then the carry to the
  others, in the same way.\<close>

fun mpShortAdd :: "digit list \<Rightarrow> digit \<Rightarrow> digit list \<times> digit" where
  "mpShortAdd [] k = ([], k)"
| "mpShortAdd (u # us) k =
     (let w = u + k;
          (ws, c) = mpShortAdd us (if w < k then 1 else 0)
      in (w # ws, c))"

fun mpShortSub :: "digit list \<Rightarrow> digit \<Rightarrow> digit list \<times> digit" where
  "mpShortSub [] k = ([], k)"
| "mpShortSub (u # us) k =
     (let w = u - k;
          (ws, c) = mpShortSub us (if w > MAX_DIGIT - k then 1 else 0)
      in (w # ws, c))"

fun mpShortMult_loop :: "digit list \<Rightarrow> digit \<Rightarrow> digit \<Rightarrow> digit list \<times> digit" where
  "mpShortMult_loop [] v k = ([], k)"
| "mpShortMult_loop (u # us) v k =
     (let (t0, t1) = spMultiply u v;
          w = t0 + k;
          k' = (if w < k then t1 + 1 else t1);
          (ws, c) = mpShortMult_loop us v k'
      in (w # ws, c))"

definition mpShortMult :: "digit list \<Rightarrow> digit \<Rightarrow> digit list \<times> digit" where
  "mpShortMult u v = (if v = 0 then (replicate (length u) 0, 0) else mpShortMult_loop u v 0)"

lemma mpShortAdd_spec:
  assumes "mpShortAdd u k = (w, c)"
  shows "digits_val w + base ^ length u * uint c = digits_val u + uint k \<and> length w = length u
    \<and> (u \<noteq> [] \<longrightarrow> uint c \<le> 1)"
  using assms
proof (induction u k arbitrary: w c rule: mpShortAdd.induct)
  case (2 u us k)
  define x k' where x: "x = u + k" "k' = (if x < k then 1 else 0 :: digit)"
  obtain ws d where r: "mpShortAdd us k' = (ws, d)" by fastforce
  have res: "w = x # ws" "c = d"
    using 2(2) r unfolding mpShortAdd.simps Let_def x[symmetric] by simp_all
  have st: "uint x + base * uint k' = uint u + uint k" using uint_carry[of u k] by (simp add: x)
  have k': "uint k' \<le> 1" by (simp add: x)
  have "digits_val ws + base ^ length us * uint d = digits_val us + uint k' \<and> length ws = length us
    \<and> (us \<noteq> [] \<longrightarrow> uint d \<le> 1)"
    by (rule 2(1)[OF x(1), of ws d, folded x(2), OF r])
  moreover have "us = [] \<Longrightarrow> d = k'" using r by auto
  ultimately show ?case
    using digit_recursion[OF st, of "digits_val ws" "length us" "uint d" "digits_val us"] k'
    by (cases "us = []") (auto simp: res algebra_simps)
qed simp

lemma mpShortSub_spec:
  assumes "mpShortSub u k = (w, c)"
  shows "digits_val w - base ^ length u * uint c = digits_val u - uint k \<and> length w = length u
    \<and> (u \<noteq> [] \<longrightarrow> uint c \<le> 1)"
  using assms
proof (induction u k arbitrary: w c rule: mpShortSub.induct)
  case (2 u us k)
  define x k' where x: "x = u - k" "k' = (if x > MAX_DIGIT - k then 1 else 0 :: digit)"
  obtain ws d where r: "mpShortSub us k' = (ws, d)" by fastforce
  have res: "w = x # ws" "c = d"
    using 2(2) r unfolding mpShortSub.simps Let_def x[symmetric] by simp_all
  have st: "uint x + base * (- uint k') = uint u - uint k"
    using uint_borrow[of u k] by (simp add: x MAX_DIGIT_def)
  have k': "uint k' \<le> 1" by (simp add: x)
  have "digits_val ws - base ^ length us * uint d = digits_val us - uint k' \<and> length ws = length us
    \<and> (us \<noteq> [] \<longrightarrow> uint d \<le> 1)"
    by (rule 2(1)[OF x(1), of ws d, folded x(2), OF r])
  moreover have "us = [] \<Longrightarrow> d = k'" using r by auto
  ultimately show ?case
    using digit_recursion[OF st, of "digits_val ws" "length us" "- uint d" "digits_val us"] k'
    by (cases "us = []") (auto simp: res algebra_simps)
qed simp

lemma mpShortMult_loop_spec:
  assumes "mpShortMult_loop u v k = (w, c)"
  shows "digits_val w + base ^ length u * uint c = digits_val u * uint v + uint k
    \<and> length w = length u"
  using assms
proof (induction u v k arbitrary: w c rule: mpShortMult_loop.induct)
  case (2 u us v k)
  obtain t0 t1 where m: "spMultiply u v = (t0, t1)" by fastforce
  define x k' where x: "x = t0 + k" "k' = (if x < k then t1 + 1 else t1)"
  obtain ws d where r: "mpShortMult_loop us v k' = (ws, d)" by fastforce
  have res: "w = x # ws" "c = d"
    using 2(2) r unfolding mpShortMult_loop.simps Let_def m prod.case x[symmetric] by simp_all
  have st: "uint x + base * uint k' = uint u * uint v + uint k"
    using mul_step[OF m x, of "x + 0" 0 k'] by simp
  have "digits_val ws + base ^ length us * uint d = digits_val us * uint v + uint k' \<and> length ws = length us"
    by (rule 2(1)[OF m[symmetric] refl x r])
  then show ?case
    using digit_recursion[OF st, of "digits_val ws" "length us" "uint d" "digits_val us * uint v"]
    by (simp add: res algebra_simps)
qed simp

lemma mpShortMult_spec:
  assumes "mpShortMult u v = (w, c)"
  shows "digits_val w + base ^ length u * uint c = digits_val u * uint v" "length w = length u"
  using assms mpShortMult_loop_spec[of u v 0 w c] by (auto simp: mpShortMult_def split: if_splits)

section \<open>Bits\<close>

fun mpXorBits :: "digit list \<Rightarrow> digit list \<Rightarrow> digit list" where
  "mpXorBits (b # bs) (c # cs) = (b XOR c) # mpXorBits bs cs"
| "mpXorBits _ _ = []"

fun mpOrBits :: "digit list \<Rightarrow> digit list \<Rightarrow> digit list" where
  "mpOrBits (b # bs) (c # cs) = (b OR c) # mpOrBits bs cs"
| "mpOrBits _ _ = []"

fun mpAndBits :: "digit list \<Rightarrow> digit list \<Rightarrow> digit list" where
  "mpAndBits (b # bs) (c # cs) = (b AND c) # mpAndBits bs cs"
| "mpAndBits _ _ = []"

lemma digits_val_Cons_concat: "uint (d :: digit) + base * x = concat_bit 64 (uint d) x"
  using bintr_uint[where n = 64, of d]
  by (simp add: concat_bit_eq push_bit_eq_mult base_def mult.commute)

lemma concat_bit_bitwise:
  fixes a b x y :: int
  shows "concat_bit n a x XOR concat_bit n b y = concat_bit n (a XOR b) (x XOR y)"
    "(concat_bit n a x OR concat_bit n b y) = concat_bit n (a OR b) (x OR y)"
    "concat_bit n a x AND concat_bit n b y = concat_bit n (a AND b) (x AND y)"
  by (rule bit_eqI; auto simp: bit_simps bit_concat_bit_iff)+

lemma mpBits_spec:
  assumes "length b = length c"
  shows "digits_val (mpXorBits b c) = digits_val b XOR digits_val c"
    "digits_val (mpOrBits b c) = (digits_val b OR digits_val c)"
    "digits_val (mpAndBits b c) = digits_val b AND digits_val c"
    "length (mpXorBits b c) = length b" "length (mpOrBits b c) = length b"
    "length (mpAndBits b c) = length b"
  using assms
  by (induction b c rule: list_induct2)
     (simp_all add: digits_val_Cons_concat concat_bit_bitwise
       flip: unsigned_xor_eq unsigned_or_eq unsigned_and_eq)

end
