(* ===== verification/BigDivide.thy ===== *)
theory BigDivide
  imports BigDigits
begin

text \<open>
  Division in \<^verbatim>\<open>BigDigits/bigdigits.c\<close>: a double digit by a digit (\<^verbatim>\<open>spDivide\<close>, in half
  digits), a number by a digit (\<^verbatim>\<open>mpShortDiv\<close>) and a number by a number (\<^verbatim>\<open>mpDivide\<close>). All three
  are Knuth's algorithm D: estimate a quotient digit from the leading digits, correct the estimate
  by two tests, multiply and subtract, and add back when the digit was one too large.
\<close>

section \<open>The code\<close>

definition HIBITMASK :: digit where "HIBITMASK = push_bit 63 1"
definition B :: digit where "B = MAX_HALF_DIGIT + 1"

definition spMultSub :: "digit \<times> digit \<Rightarrow> digit \<Rightarrow> digit \<Rightarrow> digit \<Rightarrow> digit \<times> digit" where
  "spMultSub uu qhat v1 v0 =
     (let (uu0, uu1) = uu;
          p0 = qhat * v0;
          p1 = qhat * v1;
          t = p0 + TOHIGH (LOHALF p1);
          uu0' = uu0 - t;
          uu1' = (if uu0' > MAX_DIGIT - t then uu1 - 1 else uu1)
      in (uu0', uu1' - HIHALF p1))"

text \<open>Rounds 2 and 3 of \<^verbatim>\<open>spDivide\<close> are the same code on the next half digit \<open>u\<close>.\<close>

definition spDivide_estimate :: "digit \<Rightarrow> digit \<Rightarrow> digit \<Rightarrow> digit \<Rightarrow> digit" where
  "spDivide_estimate uu0 u v1 v0 =
     (let t = uu0;
          qhat = t div v1;
          rhat = t - qhat * v1;
          t = TOHIGH rhat OR u
      in if qhat = B \<or> qhat * v0 > t then
           let qhat = qhat - 1;
               rhat = rhat + v1;
               t = TOHIGH rhat OR u
           in if rhat < B \<and> qhat * v0 > t then qhat - 1 else qhat
         else qhat)"

definition spDivide_round :: "digit \<Rightarrow> digit \<Rightarrow> digit \<Rightarrow> digit \<times> digit" where
  "spDivide_round uu0 u v =
     (let v0 = LOHALF v; v1 = HIHALF v;
          qhat = spDivide_estimate uu0 u v1 v0;
          (r0, r1) = spMultSub (TOHIGH (LOHALF uu0) OR u, HIHALF uu0) qhat v1 v0
      in if HIHALF r1 \<noteq> 0 then (qhat - 1, r0 + v) else (qhat, r0))"

text \<open>The result is the high digit of the quotient, its low digit and the remainder.\<close>

definition spDivide :: "digit \<times> digit \<Rightarrow> digit \<Rightarrow> digit \<times> digit \<times> digit" where
  "spDivide u v =
     (let (ulo, uhi) = u
      in if v AND HIBITMASK = 0 then (MAX_DIGIT, 0, 0)
         else
           let v0 = LOHALF v; v1 = HIHALF v;
               u0 = LOHALF ulo; u1 = HIHALF ulo; u2 = LOHALF uhi; u3 = HIHALF uhi;
               qhat = (if u3 < v1 then 0 else 1);
               qhat = (if qhat > 0 then
                         let rhat = u3 - v1; t = TOHIGH rhat OR u2
                         in if v0 > t then qhat - 1 else qhat
                       else qhat);
               (qhat, uu0) = (if qhat > 0 then
                         let (r0, r1) = spMultSub (uhi, 0) qhat v1 v0
                         in if HIHALF r1 \<noteq> 0 then (qhat - 1, r0 + v) else (qhat, r0)
                       else (qhat, uhi));
               q2 = qhat;
               (q1, uu0) = spDivide_round uu0 u1 v;
               (q0, uu0) = spDivide_round uu0 u0 v
           in (q2, TOHIGH q1 OR LOHALF q0, uu0))"

section \<open>The estimate of a quotient digit\<close>

text \<open>
  \<open>v1\<close> and \<open>v2\<close> are the leading digits of the divisor \<open>v\<close>, \<open>x\<close> the leading double digit of the
  dividend \<open>u\<close> and \<open>y\<close> its next digit; \<open>q\<close> is a quotient of \<open>x\<close> by \<open>v1\<close> with remainder \<open>r\<close>.
  A test is true exactly when the leading digits say that \<open>q\<close> is too large; \<open>up\<close> says that they
  are right then. After two tests \<open>q\<close> is not too large for the leading digits.
\<close>

lemma estimate_test:
  fixes b :: int
  assumes "x = q * v1 + r"
  shows "b * r + y < q * v2 \<longleftrightarrow> x * b + y < q * (v1 * b + v2)"
  by (simp add: assms algebra_simps)

definition estimate :: "int \<Rightarrow> int \<Rightarrow> int \<Rightarrow> int \<Rightarrow> int \<Rightarrow> int \<Rightarrow> int" where
  "estimate b y v1 v2 q r =
     (if b * r + y < q * v2 then
        if r + v1 < b \<and> b * (r + v1) + y < (q - 1) * v2 then q - 2 else q - 1
      else q)"

lemma estimate_spec:
  fixes b :: int
  assumes x: "x = q * v1 + r" and r: "0 \<le> r" and y: "0 \<le> y"
    and v: "b \<le> 2 * v1" "0 \<le> v2" "v2 < b" and q: "0 \<le> q" "q \<le> b + 1" and b: "0 < b"
    and low: "u < (q + 1) * v"
    and up: "\<And>k. x * b + y < k * (v1 * b + v2) \<Longrightarrow> u < k * v"
  shows "estimate b y v1 v2 q r * (v1 * b + v2) \<le> x * b + y"
    "u < (estimate b y v1 v2 q r + 1) * v" "0 \<le> estimate b y v1 v2 q r"
proof -
  have v1: "0 < v1" using v(1) b by linarith
  note t = estimate_test[of x q v1 r b y v2, OF x]
  have t1: "b * (r + v1) + y < (q - 1) * v2 \<longleftrightarrow> x * b + y < (q - 1) * (v1 * b + v2)"
    using x by (intro estimate_test) (simp add: algebra_simps)
  have t2: "b * (r + 2 * v1) + y < (q - 2) * v2 \<longleftrightarrow> x * b + y < (q - 2) * (v1 * b + v2)"
    using x by (intro estimate_test) (simp add: algebra_simps)
  have cut: "\<not> b * s + y < k * v2" if "b \<le> s" "k \<le> b" "0 \<le> k" for s k
  proof -
    have "k * v2 \<le> b * b" using that v(2,3) by (intro mult_mono) auto
    also have "\<dots> \<le> b * s" using that b by (intro mult_left_mono) auto
    finally show ?thesis using y by linarith
  qed
  have q_pos: "0 < q" if "b * r + y < q * v2"
  proof (rule ccontr)
    assume "\<not> 0 < q" then have "q = 0" using q by linarith
    moreover have "0 \<le> b * r" using r b by simp
    ultimately show False using that y by (simp only: mult_zero_left)
  qed
  show "0 \<le> estimate b y v1 v2 q r"
  proof -
    note q_pos
    moreover have "1 < q" if "b * (r + v1) + y < (q - 1) * v2"
    proof (rule ccontr)
      assume "\<not> 1 < q" then have "(q - 1) * v2 \<le> 0" using v(2) by (simp add: mult_nonpos_nonneg)
      moreover have "0 \<le> b * (r + v1)" using r b v1 by simp
      ultimately show False using that y by linarith
    qed
    ultimately show ?thesis using q by (auto simp: estimate_def)
  qed
  consider "\<not> b * r + y < q * v2"
    | "b * r + y < q * v2" "\<not> (r + v1 < b \<and> b * (r + v1) + y < (q - 1) * v2)"
    | "b * r + y < q * v2" "r + v1 < b" "b * (r + v1) + y < (q - 1) * v2" by blast
  then show "estimate b y v1 v2 q r * (v1 * b + v2) \<le> x * b + y"
    "u < (estimate b y v1 v2 q r + 1) * v" 
  proof (atomize (full), cases)
    case 1
    then show "estimate b y v1 v2 q r * (v1 * b + v2) \<le> x * b + y
      \<and> u < (estimate b y v1 v2 q r + 1) * v" using t low by (simp add: estimate_def)
  next
    case 2
    then have e: "estimate b y v1 v2 q r = q - 1" by (auto simp: estimate_def)
    have "0 < q" by (rule q_pos[OF 2(1)])
    then have "\<not> b * (r + v1) + y < (q - 1) * v2"
      using 2(2) cut[of "r + v1" "q - 1"] q(2) by auto
    then show "estimate b y v1 v2 q r * (v1 * b + v2) \<le> x * b + y
      \<and> u < (estimate b y v1 v2 q r + 1) * v" using t1 up[of q] t 2(1) by (simp add: e)
  next
    case 3
    then have e: "estimate b y v1 v2 q r = q - 2" by (simp add: estimate_def)
    have "0 \<le> q - 2" using \<open>0 \<le> estimate b y v1 v2 q r\<close> e by simp
    then have "\<not> b * (r + 2 * v1) + y < (q - 2) * v2"
      using cut[of "r + 2 * v1" "q - 2"] q(2) v(1) r by auto
    then show "estimate b y v1 v2 q r * (v1 * b + v2) \<le> x * b + y
      \<and> u < (estimate b y v1 v2 q r + 1) * v" using t2 up[of "q - 1"] t1 3(3) by (simp add: e)
  qed
qed

section \<open>A double digit by a digit\<close>

lemma uint_word_minus: "uint b \<le> uint a \<Longrightarrow> uint (a - b) = uint a - uint b" for a b :: digit
  using uint_sub_lem[of b a] by simp

lemma uint_word_plus: "uint a + uint b < base \<Longrightarrow> uint (a + b) = uint a + uint b" for a b :: digit
  using uint_add_lem[of a b] by (simp add: base_def)

lemma uint_word_div: "uint (a div b) = uint a div uint b" for a b :: digit
  by (rule uint_div_distrib)

lemma uint_TOHIGH_or:
  assumes "uint u < 2 ^ 32"
  shows "uint (TOHIGH a OR u) = 2 ^ 32 * uint (LOHALF a) + uint u"
proof -
  have "uint (take_bit 32 u) = uint u" using assms by (simp add: unsigned_take_bit_eq take_bit_int_eq_self)
  then have "take_bit 32 u = u" by (simp only: word_uint_eq_iff)
  moreover have "TOHIGH a AND take_bit 32 u = 0" unfolding TOHIGH_def
    by (rule bit_word_eqI) (auto simp: bit_simps)
  ultimately have "TOHIGH a OR u = TOHIGH a + u" by (simp add: word_or_plus)
  then show ?thesis
    using half_bounds[of a] assms by (simp add: uint_word_plus uint_TOHIGH base_def)
qed

lemma uint_LOHALF_small: "uint a < 2 ^ 32 \<Longrightarrow> uint (LOHALF a) = uint a"
  by (simp add: uint_LOHALF)

lemma uint_B: "uint B = 2 ^ 32"
  by (simp add: B_def max_half mask_eq_exp_minus_1)

lemma spDivide_estimate_eq:
  fixes uu0 u v1 v0 :: digit
  assumes v: "2 ^ 31 \<le> uint v1" "uint v1 < 2 ^ 32" "uint v0 < 2 ^ 32" and u: "uint u < 2 ^ 32"
    and x: "uint uu0 < uint v1 * 2 ^ 32 + uint v0"
  shows "uint (spDivide_estimate uu0 u v1 v0)
    = estimate (2 ^ 32) (uint u) (uint v1) (uint v0) (uint uu0 div uint v1) (uint uu0 mod uint v1)"
    and "uint uu0 div uint v1 \<le> 2 ^ 32 + 1"
proof -
  let ?H = "2 ^ 32 :: int"
  define q r where qr: "q = uint uu0 div uint v1" "r = uint uu0 mod uint v1"
  have v1: "0 < uint v1" using v(1) by simp
  have xq: "uint uu0 = q * uint v1 + r" by (simp add: qr)
  have r: "0 \<le> r" "r < uint v1" using v1 by (simp_all add: qr)
  have "uint uu0 < (?H + 2) * uint v1" using x v by (simp add: algebra_simps)
  then have "q < ?H + 2" unfolding qr using v1 by (intro int_div_lessI)
  then show ql: "uint uu0 div uint v1 \<le> ?H + 1" by (simp add: qr)
  have q0: "0 \<le> q" using v1 by (simp add: qr pos_imp_zdiv_nonneg_iff)
  define qw rw where w: "qw = uu0 div v1" "rw = uu0 - qw * v1"
  have qw: "uint qw = q" by (simp add: w qr uint_word_div)
  have "uint qw * uint v1 \<le> uint uu0" using xq r by (simp add: qw)
  then have "uint (qw * v1) = q * uint v1"
    using uint_base[of uu0] by (subst uint_times) (auto simp: qw simp del: uint_base)
  then have rw: "uint rw = r" using xq r unfolding w(2) by (subst uint_word_minus) auto
  have prod: "uint (k * v0) = uint k * uint v0" if "uint k \<le> ?H + 1" for k
  proof -
    have "uint k * uint v0 \<le> (?H + 1) * (?H - 1)" using that v(3) by (intro mult_mono) auto
    then show ?thesis by (intro uint_times) (simp add: base_def)
  qed
  have t1: "qw = B \<or> qw * v0 > TOHIGH rw OR u \<longleftrightarrow> ?H * r + uint u < q * uint v0"
  proof (cases "qw = B")
    case True
    then have "q = ?H" using qw uint_B by simp
    then have "r + 1 \<le> uint v0" using x xq by simp
    then have "?H * (r + 1) \<le> ?H * uint v0" by (intro mult_left_mono) auto
    then have "?H * r + uint u < q * uint v0" using u \<open>q = ?H\<close> by simp
    then show ?thesis using True by simp
  next
    case False
    have "uint (LOHALF rw) = r" using rw r v(2) by (subst uint_LOHALF_small) auto
    then show ?thesis using False prod[of qw] qw ql[folded qr] u
      by (simp add: word_less_alt uint_TOHIGH_or)
  qed
  show "uint (spDivide_estimate uu0 u v1 v0)
    = estimate ?H (uint u) (uint v1) (uint v0) (uint uu0 div uint v1) (uint uu0 mod uint v1)"
  proof (cases "?H * r + uint u < q * uint v0")
    case False
    then have "spDivide_estimate uu0 u v1 v0 = qw"
      unfolding spDivide_estimate_def Let_def w[symmetric] using t1 by simp
    then show ?thesis using False qw by (simp add: estimate_def qr[symmetric])
  next
    case True
    have "0 < q"
    proof (rule ccontr)
      assume "\<not> 0 < q" then have "q = 0" using q0 by simp
      then show False using True r u uint_ge_0[of u] by simp
    qed
    then have q1: "uint (qw - 1) = q - 1" using qw by (subst uint_word_minus) auto
    have r1: "uint (rw + v1) = r + uint v1"
      using rw r v(2) by (subst uint_word_plus) (auto simp: base_def)
    have p1: "uint ((qw - 1) * v0) = (q - 1) * uint v0"
      using prod[of "qw - 1"] q1 ql[folded qr] by simp
    have t2: "rw + v1 < B \<and> (qw - 1) * v0 > TOHIGH (rw + v1) OR u
      \<longleftrightarrow> r + uint v1 < ?H \<and> ?H * (r + uint v1) + uint u < (q - 1) * uint v0"
      using p1 r1 u by (auto simp: word_less_alt uint_B uint_TOHIGH_or uint_LOHALF_small)
    have e: "spDivide_estimate uu0 u v1 v0
      = (if rw + v1 < B \<and> (qw - 1) * v0 > TOHIGH (rw + v1) OR u then qw - 1 - 1 else qw - 1)"
      unfolding spDivide_estimate_def Let_def w[symmetric] using t1 True by simp
    show ?thesis
    proof (cases "r + uint v1 < ?H \<and> ?H * (r + uint v1) + uint u < (q - 1) * uint v0")
      case False
      then show ?thesis using True t2 e q1 by (auto simp: estimate_def qr[symmetric])
    next
      case t: True
      have "0 \<le> ?H * (r + uint v1) + uint u" using r by simp
      then have "0 < (q - 1) * uint v0" using t by linarith
      then have "1 \<le> q - 1" using \<open>0 < q\<close> by (simp add: zero_less_mult_iff)
      then have "uint (qw - 1 - 1) = q - 2" using q1 by (subst uint_word_minus) auto
      then show ?thesis using True t t2 e by (auto simp: estimate_def qr[symmetric])
    qed
  qed
qed

text \<open>
  The subtraction drops the carry of its inner sum. It matters only for the high digit, and only
  its upper half is looked at: with a quotient digit that is not too large it is zero.
\<close>

lemma spMultSub_spec:
  fixes uu0 uu1 qhat v1 v0 :: digit
  assumes v: "uint v1 < 2 ^ 32" "uint v0 < 2 ^ 32" and q: "uint qhat < 2 ^ 32"
    and fit: "uint qhat * (uint v1 * 2 ^ 32 + uint v0) \<le> uint uu1 * base + uint uu0"
      "uint uu1 * base + uint uu0 < uint qhat * (uint v1 * 2 ^ 32 + uint v0) + base"
    and r: "spMultSub (uu0, uu1) qhat v1 v0 = (r0, r1)"
  shows "uint r0 = uint uu1 * base + uint uu0 - uint qhat * (uint v1 * 2 ^ 32 + uint v0)"
    "HIHALF r1 = 0"
proof -
  let ?H = "2 ^ 32 :: int"
  have b: "base = ?H * ?H" by (simp add: base_def)
  have prod: "uint (qhat * k) = uint qhat * uint k" if "uint k < ?H" for k
  proof -
    have "uint qhat * uint k \<le> (?H - 1) * (?H - 1)" using that q by (intro mult_mono) auto
    then show ?thesis by (intro uint_times) (simp add: base_def)
  qed
  define p0 p1 t where p: "p0 = qhat * v0" "p1 = qhat * v1" "t = p0 + TOHIGH (LOHALF p1)"
  define c d :: int where cd: "c = (if t < TOHIGH (LOHALF p1) then 1 else 0)"
    "d = (if uu0 - t > MAX_DIGIT - t then 1 else 0)"
  have S: "uint qhat * (uint v1 * ?H + uint v0) = ?H * uint p1 + uint p0"
    using prod[OF v(1)] prod[OF v(2)] by (simp add: p algebra_simps)
  have hi: "uint (TOHIGH (LOHALF p1)) = ?H * uint (LOHALF p1)"
    by (simp add: uint_TOHIGH uint_LOHALF)
  have t: "uint t = uint p0 + ?H * uint (LOHALF p1) - base * c"
    using uint_carry[of p0 "TOHIGH (LOHALF p1)"] hi by (simp add: p(3) cd)
  have r0: "r0 = uu0 - t" "r1 = (if uu0 - t > MAX_DIGIT - t then uu1 - 1 else uu1) - HIHALF p1"
    using r[symmetric] unfolding spMultSub_def Let_def prod.case p[symmetric] prod.inject by blast+
  have u0: "uint r0 = uint uu0 - uint t + base * d"
    using uint_borrow[of uu0 t] by (simp add: r0 cd MAX_DIGIT_def)
  have S': "uint qhat * (uint v1 * ?H + uint v0) = base * (uint (HIHALF p1) + c) + uint t"
    unfolding S t b using halves[of p1] by (simp add: algebra_simps)
  define z where "z = uint uu1 - d - uint (HIHALF p1) - c"
  have diff: "uint uu1 * base + uint uu0 - uint qhat * (uint v1 * ?H + uint v0) = base * z + uint r0"
    unfolding S' u0 z_def by (simp add: algebra_simps)
  have "z = 0"
  proof (rule ccontr)
    assume "z \<noteq> 0"
    then consider "1 \<le> z" | "z \<le> - 1" by linarith
    then show False
    proof cases
      case 1
      then have "base * 1 \<le> base * z" by (intro mult_left_mono) auto
      then show False using diff fit(2) uint_ge_0[of r0] by linarith
    next
      case 2
      then have "base * z \<le> base * (- 1)" by (intro mult_left_mono) auto
      then show False using diff fit(1) uint_base[of r0] by linarith
    qed
  qed
  then show "uint r0 = uint uu1 * base + uint uu0 - uint qhat * (uint v1 * ?H + uint v0)"
    using diff by simp
  have e: "uint uu1 = d + uint (HIHALF p1) + c" using \<open>z = 0\<close> by (simp add: z_def)
  have c01: "c = 0 \<or> c = 1" by (simp add: cd)
  have "uint r1 = c"
  proof (cases "uu0 - t > MAX_DIGIT - t")
    case True
    then have "d = 1" by (simp add: cd)
    then have "uint (uu1 - 1) = uint (HIHALF p1) + c"
      using e c01 half_bounds(3)[of p1] by (subst uint_word_minus) auto
    then show ?thesis using True c01 unfolding r0 by (subst uint_word_minus) auto
  next
    case False
    then have "d = 0" by (simp add: cd)
    then show ?thesis using False e c01 unfolding r0 by (subst uint_word_minus) auto
  qed
  then have "uint (HIHALF r1) = 0" using c01 unfolding uint_HIHALF by auto
  then show "HIHALF r1 = 0" by (simp add: uint_0_iff)
qed

lemma spDivide_round_spec:
  fixes uu0 u v :: digit
  assumes v: "2 ^ 63 \<le> uint v" and u: "uint u < 2 ^ 32" and x: "uint uu0 < uint v"
    and r: "spDivide_round uu0 u v = (q, r0)"
  shows "uint q * uint v + uint r0 = uint uu0 * 2 ^ 32 + uint u" "uint r0 < uint v"
    "uint q < 2 ^ 32"
proof -
  let ?H = "2 ^ 32 :: int"
  define v0 v1 where h: "v0 = LOHALF v" "v1 = HIHALF v"
  have vv: "uint v = uint v1 * ?H + uint v0" using halves[of v] by (simp add: h)
  have hb: "uint v1 < ?H" "uint v0 < ?H" "0 \<le> uint v0" using half_bounds[of v] by (simp_all add: h)
  have "2 ^ 31 \<le> uint v1"
  proof (rule ccontr)
    assume "\<not> 2 ^ 31 \<le> uint v1"
    then have "(uint v1 + 1) * ?H \<le> 2 ^ 31 * ?H" by (intro mult_right_mono) auto
    then show False using v vv hb by (simp add: algebra_simps)
  qed
  note v1 = this
  then have v1pos: "0 < uint v1" by simp
  define qw where "qw = spDivide_estimate uu0 u v1 v0"
  let ?T = "uint uu0 * ?H + uint u"
  note est = spDivide_estimate_eq[OF v1 hb(1,2) u, of uu0, folded qw_def]
  have x': "uint uu0 < uint v1 * ?H + uint v0" using x vv by simp
  have low: "?T < (uint uu0 div uint v1 + 1) * (uint v1 * ?H + uint v0)"
  proof -
    have "uint uu0 < (uint uu0 div uint v1 + 1) * uint v1"
      using v1pos minus_mod_eq_div_mult[of "uint uu0" "uint v1"] pos_mod_bound[of "uint v1" "uint uu0"]
      unfolding distrib_right by linarith
    then have "(uint uu0 + 1) * ?H \<le> (uint uu0 div uint v1 + 1) * uint v1 * ?H"
      by (intro mult_right_mono) auto
    moreover have "0 \<le> (uint uu0 div uint v1 + 1) * uint v0"
      using v1 hb by (intro mult_nonneg_nonneg) (simp_all add: pos_imp_zdiv_nonneg_iff)
    ultimately show ?thesis using u by (simp add: algebra_simps)
  qed
  have qb: "uint qw * uint v \<le> ?T" "?T < (uint qw + 1) * uint v"
    using estimate_spec[of "uint uu0" "uint uu0 div uint v1" "uint v1" "uint uu0 mod uint v1"
        "uint u" ?H "uint v0" ?T "uint v1 * ?H + uint v0"] est x' v1 hb low
    unfolding vv by (simp_all add: pos_imp_zdiv_nonneg_iff)
  have qw: "uint qw < ?H"
  proof (rule ccontr)
    assume "\<not> uint qw < ?H"
    then have "?H * uint v \<le> uint qw * uint v" by (intro mult_right_mono) auto
    moreover have "(uint uu0 + 1) * ?H \<le> uint v * ?H" using x by (intro mult_right_mono) auto
    ultimately show False using qb(1) u by (simp add: algebra_simps)
  qed
  obtain s0 s1 where s: "spMultSub (TOHIGH (LOHALF uu0) OR u, HIHALF uu0) qw v1 v0 = (s0, s1)"
    by fastforce
  have lo: "uint (TOHIGH (LOHALF uu0) OR u) = ?H * uint (LOHALF uu0) + uint u"
    using u half_bounds(2)[of uu0] by (simp add: uint_TOHIGH_or uint_LOHALF)
  have T: "uint (HIHALF uu0) * base + uint (TOHIGH (LOHALF uu0) OR u) = ?T"
    unfolding lo using halves[of uu0] by (simp add: base_def algebra_simps)
  note ms = spMultSub_spec[OF hb(1,2) qw _ _ s, unfolded T, folded vv]
  have "?T < uint qw * uint v + base" using qb(2) uint_base[of v] by (simp add: distrib_right del: uint_base)
  then have ms': "uint s0 = ?T - uint qw * uint v" "HIHALF s1 = 0" using ms qb(1) by simp_all
  have "q = qw" "r0 = s0"
    using r s ms'(2) unfolding spDivide_round_def Let_def h[symmetric] qw_def[symmetric] by simp_all
  then show "uint q * uint v + uint r0 = uint uu0 * 2 ^ 32 + uint u" "uint r0 < uint v" "uint q < 2 ^ 32"
    using ms'(1) qb qw by (simp_all add: algebra_simps)
qed

lemma and_power_bit:
  fixes v :: digit
  assumes "k < 64" "uint v < 2 ^ Suc k"
  shows "v AND push_bit k 1 = 0 \<longleftrightarrow> uint v < 2 ^ k"
proof -
  have "v AND push_bit k 1 = 0 \<longleftrightarrow> \<not> bit v k"
    by (simp add: push_bit_eq_mult and_exp_eq_0_iff_not_bit)
  also have "bit v k \<longleftrightarrow> odd (uint v div 2 ^ k)"
    using assms(1) bit_uint_iff[of v k] by (simp add: bit_iff_odd)
  also have "uint v div 2 ^ k = (if uint v < 2 ^ k then 0 else 1)"
  proof (cases "uint v < 2 ^ k")
    case False
    then have "uint v div 2 ^ k = 1"
      using assms(2) by (intro int_div_pos_eq[of _ _ _ "uint v - 2 ^ k"]) auto
    then show ?thesis using False by simp
  qed (simp add: div_pos_pos_trivial)
  finally show ?thesis by simp
qed

lemma spDivide_spec:
  assumes v: "2 ^ 63 \<le> uint v" and r: "spDivide (ulo, uhi) v = (q2, q, r)"
  shows "(uint q2 * base + uint q) * uint v + uint r = uint uhi * base + uint ulo"
    "uint r < uint v" "q2 = (if uint uhi < uint v then 0 else 1)"
proof -
  let ?H = "2 ^ 32 :: int"
  define v0 v1 u2 u3 where h: "v0 = LOHALF v" "v1 = HIHALF v" "u2 = LOHALF uhi" "u3 = HIHALF uhi"
  have hv: "uint v = uint v0 + ?H * uint v1" and hu: "uint uhi = uint u2 + ?H * uint u3"
    using halves[of v] halves[of uhi] by (simp_all add: h)
  note hb = half_bounds[of v, folded h] half_bounds[of uhi, folded h]
  have nz: "v AND HIBITMASK \<noteq> 0"
    using and_power_bit[of 63 v] v uint_base[of v] by (simp add: HIBITMASK_def base_def del: uint_base)
  define q2a :: digit where "q2a = (if u3 < v1 then 0 else 1)"
  define q2b where "q2b = (if q2a > 0 then if v0 > TOHIGH (u3 - v1) OR u2 then q2a - 1 else q2a else q2a)"
  have q2b: "q2b = (if uint uhi < uint v then 0 else 1)"
  proof (cases "u3 < v1")
    case True
    then have "uint u3 + 1 \<le> uint v1" by (simp add: word_less_alt)
    then have "?H * (uint u3 + 1) \<le> ?H * uint v1" by (intro mult_left_mono) auto
    then have "uint uhi < uint v" using hv hu hb unfolding distrib_left by linarith
    then show ?thesis using True by (simp add: q2b_def q2a_def)
  next
    case False
    then have le: "uint v1 \<le> uint u3" by (simp add: word_less_alt)
    then have d: "uint (u3 - v1) = uint u3 - uint v1" by (rule uint_word_minus)
    have small: "uint u3 - uint v1 < ?H" using hb uint_ge_0[of v1] by linarith
    have t: "uint (TOHIGH (u3 - v1) OR u2) = ?H * (uint u3 - uint v1) + uint u2"
      using hb d small by (subst uint_TOHIGH_or, simp, subst uint_LOHALF_small) simp_all
    have "v0 > TOHIGH (u3 - v1) OR u2 \<longleftrightarrow> uint uhi < uint v"
      unfolding word_less_alt t hv hu by (simp add: algebra_simps)
    then show ?thesis using False by (simp add: q2b_def q2a_def)
  qed
  define uu where "uu = (if q2b > 0 then uhi - v else uhi)"
  have uu: "uint uu = uint uhi - uint q2b * uint v" "uint uu < uint v"
    using v uint_base[of uhi] unfolding uu_def q2b
    by (auto simp: uint_word_minus base_def simp del: uint_base)
  have sub: "spMultSub (uhi, 0) q2b v1 v0 = (uu, 0)" if "q2b > 0"
  proof -
    obtain s0 s1 where s: "spMultSub (uhi, 0) q2b v1 v0 = (s0, s1)" by fastforce
    have q1: "q2b = 1" "uint v \<le> uint uhi" using that q2b by (auto split: if_splits)
    have tv: "v0 + TOHIGH (LOHALF v1) = v"
    proof -
      have "uint (v0 + TOHIGH (LOHALF v1)) = uint v"
        using hb hv by (subst uint_word_plus) (auto simp: uint_TOHIGH uint_LOHALF_small base_def)
      then show ?thesis by (simp only: word_uint_eq_iff)
    qed
    have "\<not> MAX_DIGIT - v < uhi - v"
      using uint_borrow[of uhi v] uint_word_minus[OF q1(2)] by (auto simp: MAX_DIGIT_def split: if_splits)
    moreover have "HIHALF v1 = 0"
      using hb by (simp add: uint_0_iff[symmetric] uint_HIHALF)
    ultimately have "s0 = uhi - v" "s1 = 0"
      using s unfolding spMultSub_def Let_def prod.case q1 mult_1_left tv by simp_all
    then show ?thesis using s that by (simp add: uu_def)
  qed
  obtain q1 uu1 where r1: "spDivide_round uu (HIHALF ulo) v = (q1, uu1)" by fastforce
  obtain q0 uu0 where r0: "spDivide_round uu1 (LOHALF ulo) v = (q0, uu0)" by fastforce
  note s1 = spDivide_round_spec[OF v half_bounds(4) uu(2) r1]
  note s0 = spDivide_round_spec[OF v half_bounds(2) s1(2) r0]
  have "(if q2b > 0 then let (r0, r1) = spMultSub (uhi, 0) q2b v1 v0
           in if HIHALF r1 \<noteq> 0 then (q2b - 1, r0 + v) else (q2b, r0)
         else (q2b, uhi)) = (q2b, uu)"
    using sub by (auto simp: uu_def HIHALF_def)
  then have res: "q2 = q2b" "q = TOHIGH q1 OR LOHALF q0" "r = uu0"
    using r nz r1 r0 unfolding spDivide_def Let_def prod.case h[symmetric] q2a_def[symmetric]
      q2b_def[symmetric] by simp_all
  show "q2 = (if uint uhi < uint v then 0 else 1)" using res q2b by simp
  show "uint r < uint v" using res s0(2) by simp
  have "uint q = ?H * uint q1 + uint q0"
    unfolding res using s0(3) s1(3) half_bounds(2)[of q0] by (subst uint_TOHIGH_or) (simp_all add: uint_LOHALF_small)
  then have "(uint q2 * base + uint q) * uint v + uint r
      = uint q2 * base * uint v + ?H * (uint q1 * uint v) + (uint q0 * uint v + uint uu0)"
    by (simp add: res(3) algebra_simps)
  also have "\<dots> = uint q2b * base * uint v + ?H * (uint q1 * uint v + uint uu1) + uint (LOHALF ulo)"
    using s0(1) res(1) by (simp add: algebra_simps)
  also have "\<dots> = base * (uint q2b * uint v + uint uu) + (?H * uint (HIHALF ulo) + uint (LOHALF ulo))"
    using s1(1) by (simp add: base_def algebra_simps)
  also have "\<dots> = uint uhi * base + uint ulo"
    using uu(1) halves[of ulo] by (simp add: algebra_simps)
  finally show "(uint q2 * base + uint q) * uint v + uint r = uint uhi * base + uint ulo" .
qed

section \<open>Normalisation, division by a digit\<close>

text \<open>The search for the leading one of the divisor.\<close>

function norm_loop :: "digit \<Rightarrow> digit \<Rightarrow> nat \<Rightarrow> nat" where
  "norm_loop v bitmask shift =
     (if shift < 64 then
        if v AND bitmask \<noteq> 0 then shift else norm_loop v (drop_bit 1 bitmask) (Suc shift)
      else shift)"
  by pat_completeness auto
termination
  by (relation "measure (\<lambda>(v, bitmask, shift). 64 - shift)") auto

declare norm_loop.simps [simp del]

fun mpShortDiv_loop :: "digit list \<Rightarrow> digit \<Rightarrow> digit \<Rightarrow> digit list \<times> digit" where
  "mpShortDiv_loop [] v r = ([], r)"
| "mpShortDiv_loop (u # us) v r =
     (let (qs, r) = mpShortDiv_loop us v r;
          (overflow, q, r) = spDivide (u, r) v
      in (q # qs, r))"

text \<open>\<open>q\<close> is what the array of the quotient holds before, which the early returns leave there.\<close>

definition mpShortDiv :: "digit list \<Rightarrow> digit list \<Rightarrow> digit \<Rightarrow> digit list \<times> digit" where
  "mpShortDiv q u v =
     (if u = [] then (q, 0)
      else if v = 0 then (q, 0)
      else
        let shift = norm_loop v HIBITMASK 0;
            v = push_bit shift v;
            (uu, overflow) = mpShiftLeft_bits u shift;
            (q, r) = mpShortDiv_loop uu v overflow
        in (q, drop_bit shift r))"

lemma norm_loop_spec:
  assumes "shift \<le> 64" "v \<noteq> 0" "uint v < 2 ^ (64 - shift)"
    and "shift < 64 \<longrightarrow> bitmask = push_bit (63 - shift) 1"
  shows "norm_loop v bitmask shift < 64
    \<and> 2 ^ 63 \<le> uint v * 2 ^ norm_loop v bitmask shift \<and> uint v * 2 ^ norm_loop v bitmask shift < 2 ^ 64"
  using assms
proof (induction v bitmask shift rule: norm_loop.induct)
  case (1 v bitmask shift)
  show ?case
  proof (cases "shift < 64")
    case False
    then have "uint v < 1" using 1(2,4) by simp
    then have "uint v = 0" using uint_ge_0[of v] by linarith
    then show ?thesis using 1(3) by (simp add: uint_0_iff)
  next
    case True
    define k where "k = 63 - shift"
    have k: "k < 64" "shift = 63 - k" "64 - shift = Suc k" "bitmask = push_bit k 1"
      using True 1(5) by (auto simp: k_def)
    note ab = and_power_bit[OF k(1), of v] 
    show ?thesis
    proof (cases "v AND bitmask = 0")
      case False
      then have n: "norm_loop v bitmask shift = shift" using True by (simp add: norm_loop.simps[of v])
      have "2 ^ k \<le> uint v" "uint v < 2 ^ Suc k" using False ab 1(4) k by auto
      then have "2 ^ k * 2 ^ shift \<le> uint v * 2 ^ shift" "uint v * 2 ^ shift < 2 ^ Suc k * 2 ^ shift"
        by (intro mult_right_mono mult_strict_right_mono; simp)+
      moreover have "(2 :: int) ^ k * 2 ^ shift = 2 ^ 63" "(2 :: int) ^ Suc k * 2 ^ shift = 2 ^ 64"
        using k(1,2) by (simp_all only: power_add[symmetric]) simp_all
      ultimately show ?thesis using True n by (simp only: simp_thms)
    next
      case z: True
      then have lt: "uint v < 2 ^ k" using ab 1(4) k by auto
      have "0 < k"
      proof (rule ccontr)
        assume "\<not> 0 < k" then have "uint v < 1" using lt by simp
        then have "uint v = 0" using uint_ge_0[of v] by linarith
        then show False using 1(3) by (simp add: uint_0_iff)
      qed
      then obtain j where j: "k = Suc j" by (cases k) auto
      have "drop_bit 1 (push_bit k 1 :: digit) = push_bit j 1"
        by (rule bit_word_eqI) (use j k(1) in \<open>auto simp: bit_simps bit_1_iff\<close>)
      then have "norm_loop v (drop_bit 1 bitmask) (Suc shift) < 64
        \<and> 2 ^ 63 \<le> uint v * 2 ^ norm_loop v (drop_bit 1 bitmask) (Suc shift)
        \<and> uint v * 2 ^ norm_loop v (drop_bit 1 bitmask) (Suc shift) < 2 ^ 64"
        using True z lt j k 1(3) by (intro 1(1)) auto
      then show ?thesis using True z by (simp add: norm_loop.simps[of v bitmask])
    qed
  qed
qed

lemma norm_shift:
  assumes "v \<noteq> 0" "s = norm_loop v HIBITMASK 0"
  shows "s < 64" "uint (push_bit s v) = uint v * 2 ^ s" "2 ^ 63 \<le> uint (push_bit s v)"
  using norm_loop_spec[of 0 v HIBITMASK] assms uint_base[of v]
  by (simp_all add: HIBITMASK_def uint_push_bit base_def)

lemma div_mod_unique:
  fixes u v q r :: int
  assumes "q * v + r = u" "0 \<le> r" "r < v"
  shows "u div v = q" "u mod v = r"
  using assms int_div_pos_eq[of u v q r] int_mod_pos_eq[of u v q r] by (simp_all add: mult.commute)

lemma mpShortDiv_loop_spec:
  assumes "2 ^ 63 \<le> uint v" "uint r < uint v" "mpShortDiv_loop u v r = (q, r')"
  shows "digits_val q * uint v + uint r' = digits_val u + base ^ length u * uint r
    \<and> uint r' < uint v \<and> length q = length u"
  using assms
proof (induction u v r arbitrary: q r' rule: mpShortDiv_loop.induct)
  case (2 u us v r)
  obtain qs s where l: "mpShortDiv_loop us v r = (qs, s)" by fastforce
  obtain ov d t where d: "spDivide (u, s) v = (ov, d, t)" using prod_cases3 by blast
  have res: "q = d # qs" "r' = t" using 2(4) l d by (simp_all add: Let_def)
  have IH: "digits_val qs * uint v + uint s = digits_val us + base ^ length us * uint r"
    "uint s < uint v" "length qs = length us" using 2(1)[OF 2(2,3) l] by auto
  note sp = spDivide_spec[OF 2(2) d]
  have "uint d * uint v + uint t = uint s * base + uint u" using sp(1,3) IH(2) by simp
  then have "digits_val q * uint v + uint r' = uint u + base * (digits_val qs * uint v + uint s)"
    by (simp add: res algebra_simps)
  then have "digits_val q * uint v + uint r' = uint u + base * (digits_val us + base ^ length us * uint r)"
    unfolding IH(1) .
  then show ?case using IH(3) sp(2) res by (simp add: algebra_simps)
qed simp

lemma mpShortDiv_spec:
  assumes "v \<noteq> 0" "length q = length u" "mpShortDiv q u v = (q', r)"
  shows "digits_val q' = digits_val u div uint v" "uint r = digits_val u mod uint v"
    "length q' = length u"
proof -
  have "digits_val q' = digits_val u div uint v \<and> uint r = digits_val u mod uint v
    \<and> length q' = length u"
  proof (cases "u = []")
    case True
    then show ?thesis using assms by (simp add: mpShortDiv_def)
  next
    case False
    define s where "s = norm_loop v HIBITMASK 0"
    note n = norm_shift[OF assms(1) s_def]
    obtain uu c where sl: "mpShiftLeft_bits u s = (uu, c)" by fastforce
    obtain t where l: "mpShortDiv_loop uu (push_bit s v) c = (q', t)" "r = drop_bit s t"
      using assms False sl by (auto simp: mpShortDiv_def Let_def s_def[symmetric] split: prod.splits)
    note sh = mpShiftLeft_bits_spec[OF n(1) sl]
    have "(2 :: int) ^ s \<le> 2 ^ 63" using n(1) by (intro power_increasing) auto
    then have "uint c < uint (push_bit s v)" using sh(3) n(3) by linarith
    then have m: "digits_val q' * (uint v * 2 ^ s) + uint t = 2 ^ s * digits_val u"
      "uint t < uint v * 2 ^ s" "length q' = length uu"
      using mpShortDiv_loop_spec[OF n(3) _ l(1)] sh(1,2) n(2) by auto
    have "uint t = 2 ^ s * (digits_val u - digits_val q' * uint v)"
      using m(1) by (simp add: algebra_simps)
    then have r: "uint r = digits_val u - digits_val q' * uint v"
      by (simp add: l(2) uint_drop_bit)
    have "uint t = 2 ^ s * uint r" unfolding r by fact
    then have "2 ^ s * uint r < 2 ^ s * uint v" using m(2) by (simp only: mult.commute)
    then have "uint r < uint v" by simp
    then have "digits_val u div uint v = digits_val q'" "digits_val u mod uint v = uint r"
      using div_mod_unique[OF _ uint_ge_0 \<open>uint r < uint v\<close>, of "digits_val q'" "digits_val u"] r by simp_all
    then show ?thesis using m(3) sh(2) by simp
  qed
  then show "digits_val q' = digits_val u div uint v" "uint r = digits_val u mod uint v"
    "length q' = length u" by auto
qed

section \<open>Division by a number\<close>

fun mpMultSub_loop :: "digit list \<Rightarrow> digit list \<Rightarrow> digit \<Rightarrow> digit \<Rightarrow> digit list \<times> digit" where
  "mpMultSub_loop (w # ws) (v # vs) q k =
     (let (t0, t1) = spMultiply q v;
          w1 = w - k;
          k1 = (if w1 > MAX_DIGIT - k then 1 else 0);
          w2 = w1 - t0;
          k2 = (if w2 > MAX_DIGIT - t0 then k1 + 1 else k1);
          (rs, k') = mpMultSub_loop ws vs q (k2 + t1)
      in (w2 # rs, k'))"
| "mpMultSub_loop _ _ q k = ([], k)"

definition mpMultSub :: "digit \<Rightarrow> digit list \<Rightarrow> digit list \<Rightarrow> digit \<Rightarrow> digit \<times> digit list" where
  "mpMultSub wn w v q =
     (if q = 0 then (wn, w) else let (w', k) = mpMultSub_loop w v q 0 in (wn - k, w'))"

definition QhatTooBig :: "digit \<Rightarrow> digit \<Rightarrow> digit \<Rightarrow> digit \<Rightarrow> bool" where
  "QhatTooBig qhat rhat vn2 ujn2 =
     (let (t0, t1) = spMultiply qhat vn2
      in if t1 < rhat then False else if t1 > rhat then True else if t0 > ujn2 then True else False)"

text \<open>
  One round of the loop of \<^verbatim>\<open>mpDivide\<close>. \<open>ww\<close> is the window of \<^verbatim>\<open>n\<close> digits of the dividend that
  starts at \<^verbatim>\<open>uu[j]\<close>, \<open>tn\<close> the digit above it. Steps D3, then D4 to D6.
\<close>

definition mpDivide_qhat :: "digit list \<Rightarrow> digit list \<Rightarrow> digit \<Rightarrow> digit" where
  "mpDivide_qhat v ww tn =
     (let n = length v;
          v1 = v ! (n - 1); v2 = v ! (n - 2);
          (overflow, qhat, rhat) = spDivide (ww ! (n - 1), tn) v1;
          (qhat, rhat, qhatOK) =
            (if overflow \<noteq> 0 then
               let rhat = ww ! (n - 1) + v1 in (MAX_DIGIT, rhat, rhat < v1)
             else (qhat, rhat, False))
      in if qhat \<noteq> 0 \<and> \<not> qhatOK \<and> QhatTooBig qhat rhat v2 (ww ! (n - 2)) then
           let qhat = qhat - 1; rhat = rhat + v1
           in if \<not> rhat < v1 then
                if QhatTooBig qhat rhat v2 (ww ! (n - 2)) then qhat - 1 else qhat
              else qhat
         else qhat)"

definition mpDivide_step :: "digit list \<Rightarrow> digit list \<Rightarrow> digit \<Rightarrow> digit \<times> digit list" where
  "mpDivide_step v ww tn =
     (let qhat = mpDivide_qhat v ww tn;
          (overflow, ww) = mpMultSub tn ww v qhat
      in if overflow \<noteq> 0 then (qhat - 1, fst (mpAdd ww v)) else (qhat, ww))"

primrec mpDivide_loop ::
  "nat \<Rightarrow> digit list \<Rightarrow> digit list \<Rightarrow> digit \<Rightarrow> digit list \<Rightarrow> digit list \<times> digit list"
where
  "mpDivide_loop 0 v uu t0 q = (q, uu)"
| "mpDivide_loop (Suc j) v uu t0 q =
     (let n = length v;
          (qj, ww) = mpDivide_step v (take n (drop j uu)) t0;
          uu = take j uu @ ww @ drop (j + n) uu
      in mpDivide_loop j v uu (uu ! (j + n - 1)) (q[j := qj]))"

text \<open>Steps D1 to D8, on a dividend of \<open>m + n\<close> digits and a divisor of \<open>n\<close>, at least two.\<close>

definition mpDivide_knuth ::
  "digit list \<Rightarrow> digit list \<Rightarrow> nat \<Rightarrow> nat \<Rightarrow> digit list \<times> digit list \<times> digit list"
where
  "mpDivide_knuth u v n m =
     (let udigits = length u;
          shift = norm_loop (v ! (n - 1)) HIBITMASK 0;
          (vn, overflow) = mpShiftLeft_bits (take n v) shift;
          (uu, overflow) = mpShiftLeft_bits (take (n + m) u) shift;
          (q, uu) = mpDivide_loop (m + 1) vn uu overflow (replicate udigits 0);
          r = fst (mpShiftRight_bits (take n uu) shift) @ replicate (udigits - n) 0;
          v = fst (mpShiftRight_bits vn shift) @ drop n v
      in (q, r, v))"

text \<open>The result is the return value, the quotient, the remainder, and the divisor, which the code
  normalises in place and restores. The code counts the digits in C ints; the model is that of numbers of less than 2 to the power of
  31 digits.\<close>

definition mpDivide :: "digit list \<Rightarrow> digit list \<Rightarrow> int \<times> digit list \<times> digit list \<times> digit list" where
  "mpDivide u v =
     (let udigits = length u;
          q = replicate udigits 0;
          r = replicate udigits 0;
          n = mpSizeof v (length v);
          lu = mpSizeof u udigits
      in if n = 0 then (- 1, q, r, v)
         else if n = 1 then
           let (q, rem) = mpShortDiv q u (v ! 0) in (0, q, r[0 := rem], v)
         else if lu < n then (0, q, u, v)
         else if lu = n \<and> mpCompare u v n < 0 then (0, q, u, v)
         else if lu = n \<and> mpCompare u v n = 0 then (0, q[0 := 1], r, v)
         else (0, mpDivide_knuth u v n (lu - n)))"

lemma digit_sum:
  fixes p s k w x c :: int
  assumes "p \<le> s" "k \<le> c" "x \<le> c" "0 \<le> w"
  shows "x - w + p + k \<le> s + 2 * c"
  using assms by linarith

lemma multsub_step:
  fixes w v q k t0 t1 w1 k1 w2 k2 :: digit
  assumes "spMultiply q v = (t0, t1)" "w1 = w - k" "k1 = (if w1 > MAX_DIGIT - k then 1 else 0)"
    "w2 = w1 - t0" "k2 = (if w2 > MAX_DIGIT - t0 then k1 + 1 else k1)"
  shows "uint w2 - base * uint (k2 + t1) = uint w - uint q * uint v - uint k"
proof -
  define a c :: int where ac: "a = (if w1 > MAX_DIGIT - k then 1 else 0)"
    "c = (if w2 > MAX_DIGIT - t0 then 1 else 0)"
  have w: "uint w1 = uint w - uint k + base * a" "uint w2 = uint w1 - uint t0 + base * c"
    using uint_borrow[of w k] uint_borrow[of w1 t0] assms by (auto simp: ac MAX_DIGIT_def)
  have k2: "uint k2 = a + c" by (simp add: assms ac)
  have t: "uint t0 + base * uint t1 = uint q * uint v" using spMultiply_spec[OF assms(1)] .
  have e: "uint w2 - base * (a + c + uint t1) = uint w - uint q * uint v - uint k"
    using w t by (simp add: algebra_simps)
  have sq: "(base - 1) * (base - 1) + 2 * (base - 1) < base * base" by (simp add: algebra_simps)
  have le: "uint q * uint v \<le> (base - 1) * (base - 1)"
    using uint_base[of q] uint_base[of v] by (intro mult_mono) auto
  have kw: "uint k \<le> base - 1" "uint w2 \<le> base - 1"
    using uint_base[of k] uint_base[of w2] by linarith+
  have "base * (a + c + uint t1) = uint w2 - uint w + uint q * uint v + uint k" using e by linarith
  also have "\<dots> \<le> (base - 1) * (base - 1) + 2 * (base - 1)"
    using le kw uint_ge_0[of w] by (rule digit_sum)
  also note sq
  finally have "base * (a + c + uint t1) < base * base" .
  then have "uint k2 + uint t1 < base" by (simp add: k2)
  then have "uint (k2 + t1) = a + c + uint t1" by (simp add: uint_word_plus k2)
  then show ?thesis using e by simp
qed

lemma mpMultSub_loop_spec:
  assumes "length w = length v" "mpMultSub_loop w v q k = (r, k')"
  shows "digits_val r - base ^ length w * uint k' = digits_val w - uint q * digits_val v - uint k
    \<and> length r = length w"
  using assms
proof (induction w v q k arbitrary: r k' rule: mpMultSub_loop.induct)
  case (1 w ws v vs q k)
  obtain t0 t1 where m: "spMultiply q v = (t0, t1)" by fastforce
  define w1 where "w1 = w - k"
  define k1 :: digit where "k1 = (if w1 > MAX_DIGIT - k then 1 else 0)"
  define w2 where "w2 = w1 - t0"
  define k2 where "k2 = (if w2 > MAX_DIGIT - t0 then k1 + 1 else k1)"
  note d = w1_def k1_def w2_def k2_def
  obtain rs c where rr: "mpMultSub_loop ws vs q (k2 + t1) = (rs, c)" by fastforce
  have rest: "mpMultSub_loop ws vs q (k2 + t1) = (rs, k')" "r = w2 # rs"
    using 1(3) rr unfolding mpMultSub_loop.simps Let_def m prod.case d[symmetric] by simp_all
  note st = multsub_step[OF m d]
  have "digits_val rs - base ^ length ws * uint k' = digits_val ws - uint q * digits_val vs - uint (k2 + t1)
    \<and> length rs = length ws"
    using 1(2) by (intro 1(1)[OF m[symmetric] refl d _ rest(1)]) simp
  then show ?case
    using digit_recursion[of "uint w2" "- uint (k2 + t1)" "uint w - uint q * uint v - uint k"
        "digits_val rs" "length ws" "- uint k'" "digits_val ws - uint q * digits_val vs"] st
    by (simp add: rest(2) algebra_simps)
qed auto

lemma mpMultSub_spec:
  assumes "length w = length v" "mpMultSub wn w v q = (wn', w')"
  shows "\<exists>K. digits_val w' - base ^ length w * K = digits_val w - uint q * digits_val v
    \<and> wn' = wn - word_of_int K \<and> 0 \<le> K \<and> K < base \<and> length w' = length w"
proof (cases "q = 0")
  case True
  then show ?thesis using assms by (intro exI[of _ 0]) (simp add: mpMultSub_def)
next
  case False
  obtain k where r: "mpMultSub_loop w v q 0 = (w', k)" "wn' = wn - k"
    using assms(2) False by (auto simp: mpMultSub_def split: prod.splits)
  then show ?thesis using mpMultSub_loop_spec[OF assms(1) r(1)] by (intro exI[of _ "uint k"]) simp
qed

lemma QhatTooBig_spec:
  "QhatTooBig qhat rhat v2 y \<longleftrightarrow> base * uint rhat + uint y < uint qhat * uint v2"
proof -
  obtain t0 t1 where m: "spMultiply qhat v2 = (t0, t1)" by fastforce
  have t: "uint qhat * uint v2 = uint t0 + base * uint t1" using spMultiply_spec[OF m] by simp
  have gap: "base * a + b < base * c + d" if "a < c" "b < base" "0 \<le> d" for a b c d :: int
  proof -
    have "base * (a + 1) \<le> base * c" using that(1) by (intro mult_left_mono) auto
    then show ?thesis using that by (simp add: distrib_left)
  qed
  have y: "uint y < base" "0 \<le> uint y" "uint t0 < base" "0 \<le> uint t0" by simp_all
  consider "uint t1 < uint rhat" | "uint rhat < uint t1" | "uint t1 = uint rhat" by linarith
  then show ?thesis
  proof cases
    case 1
    then have "\<not> base * uint rhat + uint y < base * uint t1 + uint t0"
      using gap[OF 1 y(3,2)] by linarith
    then show ?thesis using 1 by (simp add: QhatTooBig_def m t word_less_alt add.commute)
  next
    case 2
    then have "base * uint rhat + uint y < base * uint t1 + uint t0"
      using gap[OF 2 y(1,4)] by linarith
    then show ?thesis using 2 by (simp add: QhatTooBig_def m t word_less_alt add.commute)
  next
    case 3
    then show ?thesis by (simp add: QhatTooBig_def m t word_less_alt add.commute)
  qed
qed

lemma mpDivide_qhat_eq:
  assumes v: "2 ^ 63 \<le> uint v1" and n: "n = length v" "v1 = v ! (n - 1)" "v2 = v ! (n - 2)"
    and tn: "uint tn \<le> uint v1"
  shows "\<exists>q r. uint (mpDivide_qhat v ww tn) = estimate base (uint (ww ! (n - 2))) (uint v1) (uint v2) q r
    \<and> uint tn * base + uint (ww ! (n - 1)) = q * uint v1 + r \<and> 0 \<le> r \<and> 0 \<le> q \<and> q < base
    \<and> (q = base - 1 \<or> r < uint v1)"
proof -
  define y w1 where yw: "y = ww ! (n - 2)" "w1 = ww ! (n - 1)"
  obtain ov qh rh where d: "spDivide (w1, tn) v1 = (ov, qh, rh)" using prod_cases3 by blast
  note sp = spDivide_spec[OF v d]
  define q r :: int and ok where qr: "q = (if ov \<noteq> 0 then base - 1 else uint qh)"
    "r = (if ov \<noteq> 0 then uint w1 + uint v1 else uint rh)"
    and ok: "ok = (ov \<noteq> 0 \<and> w1 + v1 < v1)"
  define qw rw where w: "qw = (if ov \<noteq> 0 then MAX_DIGIT else qh)" "rw = (if ov \<noteq> 0 then w1 + v1 else rh)"
  have qw: "uint qw = q" by (simp add: w qr MAX_DIGIT_def uint_max)
  have rw: "ok \<longleftrightarrow> base \<le> r" "\<not> ok \<Longrightarrow> uint rw = r"
    using uint_carry[of w1 v1] uint_base[of rh] uint_base[of "w1 + v1"] uint_ge_0[of "w1 + v1"]
    by (auto simp: w qr ok simp del: uint_base uint_ge_0 split: if_splits)
  have x: "uint tn * base + uint w1 = q * uint v1 + r" "q = base - 1 \<or> r < uint v1"
  proof -
    show "q = base - 1 \<or> r < uint v1" using sp(2) by (simp add: qr)
    show "uint tn * base + uint w1 = q * uint v1 + r"
    proof (cases "ov = 0")
      case True
      then show ?thesis using sp(1) by (simp add: qr)
    next
      case False
      then have "uint tn = uint v1" using sp(3) tn by (auto split: if_splits)
      then show ?thesis using False by (simp add: qr algebra_simps)
    qed
  qed
  have r0: "0 \<le> r" "0 \<le> q" "q < base" by (auto simp: qr)
  have code: "mpDivide_qhat v ww tn =
     (if qw \<noteq> 0 \<and> \<not> ok \<and> QhatTooBig qw rw v2 y then
        if \<not> rw + v1 < v1 then if QhatTooBig (qw - 1) (rw + v1) v2 y then qw - 1 - 1 else qw - 1
        else qw - 1
      else qw)"
    unfolding mpDivide_qhat_def Let_def n(1)[symmetric] n(2,3)[symmetric] yw[symmetric] d prod.case
    by (simp add: w ok)
  have test1: "qw \<noteq> 0 \<and> \<not> ok \<and> QhatTooBig qw rw v2 y \<longleftrightarrow> base * r + uint y < q * uint v2"
  proof (cases "ok")
    case True
    have "q * uint v2 \<le> base * base" using r0 uint_base[of v2] by (intro mult_mono) (auto simp del: uint_base)
    also have "\<dots> \<le> base * r" using True rw(1) by (intro mult_left_mono) auto
    finally have "\<not> base * r + uint y < q * uint v2" using uint_ge_0[of y] by linarith
    then show ?thesis using True by simp
  next
    case False
    have "\<not> base * r + uint y < q * uint v2" if "qw = 0"
      using that qw r0 by (simp add: not_less)
    then show ?thesis using False QhatTooBig_spec[of qw rw v2 y] rw(2) qw by auto
  qed
  have "uint (mpDivide_qhat v ww tn) = estimate base (uint y) (uint v1) (uint v2) q r"
  proof (cases "base * r + uint y < q * uint v2")
    case False
    then show ?thesis unfolding code using test1 qw by (auto simp: estimate_def)
  next
    case True
    then have ok: "\<not> ok" "qw \<noteq> 0" using test1 by auto
    then have q1: "uint (qw - 1) = q - 1"
      using qw uint_ge_0[of qw] by (subst uint_word_minus) (auto simp: uint_0_iff[symmetric] simp del: uint_ge_0)
    have c: "rw + v1 < v1 \<longleftrightarrow> base \<le> r + uint v1"
      using uint_carry[of rw v1] rw(2) ok uint_base[of "rw + v1"] uint_ge_0[of "rw + v1"]
      by (auto simp del: uint_base uint_ge_0 split: if_splits)
    have r1: "uint (rw + v1) = r + uint v1" if "\<not> rw + v1 < v1"
      using uint_carry[of rw v1] rw(2) ok that by simp
    show ?thesis
    proof (cases "r + uint v1 < base \<and> base * (r + uint v1) + uint y < (q - 1) * uint v2")
      case False
      then have "\<not> (\<not> rw + v1 < v1 \<and> QhatTooBig (qw - 1) (rw + v1) v2 y)"
        using c r1 q1 QhatTooBig_spec[of "qw - 1" "rw + v1" v2 y] by auto
      then show ?thesis unfolding code using test1 True False q1 by (auto simp: estimate_def)
    next
      case t: True
      then have "\<not> rw + v1 < v1" "QhatTooBig (qw - 1) (rw + v1) v2 y"
        using c r1 q1 QhatTooBig_spec[of "qw - 1" "rw + v1" v2 y] by auto
      moreover have "uint (qw - 1 - 1) = q - 2"
      proof -
        have "0 \<le> base * (r + uint v1) + uint y" using r0 by simp
        then have "0 < (q - 1) * uint v2" using t by linarith
        moreover have "0 \<le> q - 1" using q1 uint_ge_0[of "qw - 1"] by simp
        ultimately have "1 \<le> q - 1" by (auto simp: zero_less_mult_iff)
        then show ?thesis using q1 by (subst uint_word_minus) auto
      qed
      ultimately show ?thesis unfolding code using test1 True t by (auto simp: estimate_def)
    qed
  qed
  then show ?thesis using x r0 unfolding yw by blast
qed

lemma digits_val_top:
  assumes "length v = n + 2"
  shows "digits_val v = digits_val (take n v) + base ^ n * (uint (v ! n) + base * uint (v ! Suc n))"
proof -
  have "drop n v = [v ! n, v ! Suc n]"
    by (simp add: Cons_nth_drop_Suc[symmetric] assms)
  then show ?thesis using digits_val_take_drop[of v n] assms by simp
qed

text \<open>The quotient digit is right or one too large.\<close>

lemma mpDivide_qhat_spec:
  assumes n: "length v = Suc (Suc n)" "length ww = Suc (Suc n)" and v: "2 ^ 63 \<le> uint (v ! Suc n)"
    and u: "u = digits_val ww + base ^ Suc (Suc n) * uint tn" "u < base * digits_val v"
    and q: "Q = uint (mpDivide_qhat v ww tn)"
  shows "u < (Q + 1) * digits_val v" "Q * digits_val v < u + digits_val v"
proof -
  let ?V = "digits_val v" and ?P = "base ^ n"
  define v1 v2 w1 y where d: "v1 = v ! Suc n" "v2 = v ! n" "w1 = ww ! Suc n" "y = ww ! n"
  define vl wl where l: "vl = digits_val (take n v)" "wl = digits_val (take n ww)"
  have P: "0 < ?P" by simp
  have lo: "0 \<le> vl" "vl < ?P" "0 \<le> wl" "wl < ?P"
    using digits_val_less[of "take n v"] digits_val_less[of "take n ww"] n by (simp_all add: l)
  let ?V' = "uint v1 * base + uint v2"
  let ?x = "uint tn * base + uint w1"
  let ?T = "?x * base + uint y"
  have V: "?V = vl + ?P * ?V'" using digits_val_top[of v n] n(1) by (simp add: l d algebra_simps)
  have U: "u = wl + ?P * ?T"
    using digits_val_top[of ww n] n(2) unfolding u(1) by (simp add: l d algebra_simps)
  have up: "u < k * ?V" if "?T < k * ?V'" for k
  proof -
    have "0 \<le> ?T" by simp
    then have "0 < k * ?V'" using that by linarith
    moreover have "0 \<le> ?V'" by simp
    ultimately have k: "0 < k" by (simp add: zero_less_mult_iff)
    have "?P * (?T + 1) \<le> ?P * (k * ?V')" using that by (intro mult_left_mono) auto
    then have "u < ?P * (k * ?V')" using lo U by (simp add: distrib_left)
    also have "\<dots> \<le> k * ?V" unfolding V using k lo by (simp add: distrib_left)
    finally show ?thesis .
  qed
  have tn: "uint tn \<le> uint v1"
  proof (rule ccontr)
    assume "\<not> uint tn \<le> uint v1"
    then have "base ^ Suc (Suc n) * (uint v1 + 1) \<le> base ^ Suc (Suc n) * uint tn"
      by (intro mult_left_mono) auto
    moreover have "base * ?V < base ^ Suc (Suc n) * (uint v1 + 1)"
    proof -
      have "?V < ?P * (?V' + 1)" using V lo by (simp add: distrib_left)
      also have "?P * (?V' + 1) \<le> ?P * (base * (uint v1 + 1))"
        using uint_base[of v2] by (intro mult_left_mono) (auto simp: algebra_simps simp del: uint_base)
      finally have "base * ?V < base * (?P * (base * (uint v1 + 1)))" by simp
      then show ?thesis by (simp add: algebra_simps)
    qed
    ultimately show False using u digits_val_nonneg[of ww] by linarith
  qed
  obtain q r where e: "Q = estimate base (uint y) (uint v1) (uint v2) q r"
    and x: "?x = q * uint v1 + r" and qr: "0 \<le> r" "0 \<le> q" "q < base" "q = base - 1 \<or> r < uint v1"
    using mpDivide_qhat_eq[of v1 "Suc (Suc n)" v v2 tn ww] v tn n q by (auto simp: d)
  have v1: "base \<le> 2 * uint v1" using v by (simp add: d base_def)
  have low: "u < (q + 1) * ?V"
  proof (cases "q = base - 1")
    case True
    then show ?thesis using u(2) by simp
  next
    case False
    then have "?x + 1 \<le> (q + 1) * uint v1" using x qr(4) by (simp add: distrib_right)
    then have "(?x + 1) * base \<le> (q + 1) * uint v1 * base" by (intro mult_right_mono) auto
    moreover have "0 \<le> (q + 1) * uint v2" using qr by simp
    moreover have "uint y < base" by simp
    moreover have "(?x + 1) * base = ?x * base + base" "(q + 1) * ?V' = (q + 1) * uint v1 * base + (q + 1) * uint v2"
      by (simp_all add: distrib_left distrib_right)
    ultimately have "?T < (q + 1) * ?V'" by linarith
    then show ?thesis by (rule up)
  qed
  have est: "Q * ?V' \<le> ?T" "u < (Q + 1) * ?V" "0 \<le> Q"
    unfolding e
    by (rule estimate_spec[OF x qr(1) _ v1 _ _ qr(2) _ _ low up]; use qr in simp)+
  show "u < (Q + 1) * ?V" by (rule est)
  have "Q < base" using uint_base[of "mpDivide_qhat v ww tn"] q by simp
  have "Q * vl < base * ?P"
    using \<open>Q < base\<close> est(3) lo by (intro mult_strict_mono) auto
  also have "\<dots> \<le> 2 * uint v1 * ?P" using v1 by (intro mult_right_mono) auto
  also have "\<dots> \<le> base * uint v1 * ?P" by (intro mult_right_mono) (auto simp: base_def)
  also have "\<dots> \<le> ?V" unfolding V using lo by (simp add: algebra_simps)
  finally have "Q * vl < ?V" .
  moreover have "?P * (Q * ?V') \<le> ?P * ?T" using est(1) by (intro mult_left_mono) auto
  moreover have "Q * ?V = ?P * (Q * ?V') + Q * vl" unfolding V by (simp add: algebra_simps)
  ultimately show "Q * ?V < u + ?V" using U lo by linarith
qed

lemma wrapped_difference:
  fixes D W P V z :: int
  assumes "D = W + P * z" "0 \<le> W" "W < P" "V < P" "D < V" "- V < D"
  shows "z = (if 0 \<le> D then 0 else - 1)"
proof -
  have P: "0 < P" using assms(2,3) by linarith
  have "P * z < P * 1" using assms P by linarith
  then have "z < 1" using P by (simp only: mult_less_cancel_left_pos)
  have "P * (- 2) < P * z" using assms by linarith
  then have "- 2 < z" using P by (simp only: mult_less_cancel_left_pos)
  have "z = 0" if "0 \<le> D"
  proof (rule ccontr)
    assume "z \<noteq> 0"
    then have "z = - 1" using \<open>z < 1\<close> \<open>- 2 < z\<close> by linarith
    then show False using assms that by simp
  qed
  moreover have "z = - 1" if "\<not> 0 \<le> D"
  proof (rule ccontr)
    assume "z \<noteq> - 1"
    then have "z = 0" using \<open>z < 1\<close> \<open>- 2 < z\<close> by linarith
    then show False using assms that by simp
  qed
  ultimately show ?thesis by simp
qed

lemma mpDivide_step_spec:
  assumes n: "2 \<le> length v" "length ww = length v" and v: "2 ^ 63 \<le> uint (last v)"
    and u: "u = digits_val ww + base ^ length v * uint tn" "u < base * digits_val v"
    and st: "mpDivide_step v ww tn = (qj, ww')"
  shows "uint qj = u div digits_val v \<and> digits_val ww' = u mod digits_val v \<and> length ww' = length v"
proof -
  let ?V = "digits_val v" and ?n = "length v"
  obtain k where k: "?n = Suc (Suc k)" using n(1) by (intro that[of "?n - 2"]) simp
  have "last v = v ! (?n - 1)" using n(1) by (intro last_conv_nth) auto
  then have lastv: "last v = v ! Suc k" using k by simp
  define qh where "qh = mpDivide_qhat v ww tn"
  obtain ov w1 where ms: "mpMultSub tn ww v qh = (ov, w1)" by fastforce
  obtain K where K: "digits_val w1 - base ^ ?n * K = digits_val ww - uint qh * ?V"
    "ov = tn - word_of_int K" "0 \<le> K" "K < base" "length w1 = ?n"
    using mpMultSub_spec[OF n(2) ms] n(2) by auto
  have qh: "u < (uint qh + 1) * ?V" "uint qh * ?V < u + ?V"
    using mpDivide_qhat_spec[of v k ww u tn "uint qh"] n k v u by (simp_all add: qh_def lastv)
  define D where "D = u - uint qh * ?V"
  have D: "D < ?V" "- ?V < D" using qh by (simp_all add: D_def distrib_right)
  have eq: "D = digits_val w1 + base ^ ?n * (uint tn - K)"
    using K(1) u(1) by (simp add: D_def algebra_simps)
  have z: "uint tn - K = (if 0 \<le> D then 0 else - 1)"
    using digits_val_less[of w1] digits_val_less[of v] K(5) D
    by (intro wrapped_difference[OF eq]) simp_all
  have Kw: "uint (word_of_int K :: digit) = K"
    using K(3,4) by (simp add: unsigned_of_int take_bit_int_eq_self base_def)
  show ?thesis
  proof (cases "0 \<le> D")
    case True
    then have "K = uint tn" using z by simp
    then have "ov = 0" using K(2) by simp
    then have "qj = qh" "ww' = w1" using st ms by (simp_all add: mpDivide_step_def qh_def)
    moreover have "digits_val w1 = D" using eq \<open>K = uint tn\<close> by simp
    moreover have "u div ?V = uint qh" "u mod ?V = D"
      by (rule div_mod_unique[of "uint qh" ?V D u]; use D(1) True in \<open>simp add: D_def\<close>)+
    ultimately show ?thesis using K(5) by simp
  next
    case False
    then have t: "K = uint tn + 1" using z by simp
    have "ov \<noteq> 0"
    proof
      assume "ov = 0"
      then have "tn = word_of_int K" using K(2) by simp
      then have "uint tn = K" using Kw by simp
      then show False using t by simp
    qed
    obtain a c where a: "mpAdd w1 v = (a, c)" by fastforce
    have res: "qj = qh - 1" "ww' = a"
      using st ms a \<open>ov \<noteq> 0\<close> by (simp_all add: mpDivide_step_def qh_def)
    note ad = mpAdd_spec[OF K(5) a]
    have w1: "digits_val w1 = D + base ^ ?n" using eq t by (simp add: algebra_simps)
    have av: "digits_val a + base ^ ?n * uint c = base ^ ?n + (D + ?V)"
      using ad(1) w1 K(5) by simp
    have "uint c \<noteq> 0"
    proof
      assume "uint c = 0"
      then have "digits_val a = base ^ ?n + (D + ?V)" using av by simp
      then show False using digits_val_less[of a] ad(2) K(5) D(2) by simp
    qed
    then have c: "uint c = 1" using ad(3) uint_ge_0[of c] by linarith
    have "uint qh \<noteq> 0"
    proof
      assume "uint qh = 0"
      then have "D = u" by (simp add: D_def)
      moreover have "0 \<le> u" by (simp add: u(1))
      ultimately show False using False by simp
    qed
    then have "1 \<le> uint qh" using uint_ge_0[of qh] by linarith
    then have "uint (qh - 1) = uint qh - 1" by (subst uint_word_minus) auto
    moreover have "digits_val a = D + ?V" using av c by simp
    moreover have "u div ?V = uint qh - 1" "u mod ?V = D + ?V"
      by (rule div_mod_unique[of "uint qh - 1" ?V "D + ?V" u];
          use D False in \<open>simp add: D_def algebra_simps\<close>)+
    ultimately show ?thesis using ad(2) K(5) res by simp
  qed
qed

text \<open>The loop: below the window nothing changes, the digits of the quotient appear from the top.\<close>

lemma mpDivide_loop_spec:
  assumes n: "2 \<le> length v" and v: "2 ^ 63 \<le> uint (last v)"
    and l: "j + length v \<le> Suc (length uu)" "j \<le> length q"
      "j = 0 \<longrightarrow> length v \<le> length uu \<and> t0 = uu ! (length v - 1)"
    and D: "D = digits_val (take (j + length v - 1) uu) + base ^ (j + length v - 1) * uint t0"
      "D < base ^ j * digits_val v"
    and r: "mpDivide_loop j v uu t0 q = (q', uu')"
  shows "digits_val (take j q') = D div digits_val v \<and> digits_val (take (length v) uu') = D mod digits_val v
    \<and> drop j q' = drop j q \<and> length uu' = length uu \<and> length q' = length q"
  using l D r
proof (induction j arbitrary: uu t0 q D q' uu')
  case 0
  let ?n = "length v"
  have e: "Suc (?n - 1) = ?n" using n by simp
  have "take (Suc (?n - 1)) uu = take (?n - 1) uu @ [uu ! (?n - 1)]"
    using 0(3) n by (intro take_Suc_conv_app_nth) linarith
  then have "take ?n uu = take (?n - 1) uu @ [uu ! (?n - 1)]" unfolding e .
  moreover have "?n - 1 \<le> length uu" using 0(3) by linarith
  ultimately have "digits_val (take ?n uu) = D" using 0(3,4) by (simp add: digits_val_append min_absorb2)
  moreover from this have "0 \<le> D" using digits_val_nonneg[of "take ?n uu"] by simp
  ultimately show ?case using 0(5,6) by (simp add: div_pos_pos_trivial mod_pos_pos_trivial)
next
  case (Suc j)
  let ?V = "digits_val v" and ?n = "length v"
  define ww where "ww = take ?n (drop j uu)"
  obtain qj w' where st: "mpDivide_step v ww t0 = (qj, w')" by fastforce
  define uu1 where "uu1 = take j uu @ w' @ drop (j + ?n) uu"
  have lj: "j + ?n \<le> length uu" "j < length q" using Suc.prems(1,2) by simp_all
  have lw: "length ww = ?n" using lj by (simp add: ww_def)
  define low u where lu: "low = digits_val (take j uu)" "u = digits_val ww + base ^ ?n * uint t0"
  have low: "0 \<le> low" "low < base ^ j" using digits_val_less[of "take j uu"] lj by (simp_all add: lu)
  have D: "D = low + base ^ j * u"
    using Suc.prems(4) lj by (simp add: lu ww_def take_add digits_val_append power_add algebra_simps)
  moreover have "base ^ Suc j * ?V = base ^ j * (base * ?V)" by (simp only: power_Suc ac_simps)
  ultimately have "base ^ j * u < base ^ j * (base * ?V)" using Suc.prems(5) low by linarith
  then have u: "u < base * ?V" by simp
  note ds = mpDivide_step_spec[OF n lw v lu(2) u st]
  have V: "0 < ?V"
  proof (rule ccontr)
    assume "\<not> 0 < ?V"
    then have "?V = 0" using digits_val_nonneg[of v] by linarith
    moreover have "0 \<le> u" by (simp add: lu)
    ultimately show False using u by simp
  qed
  define D' where "D' = low + base ^ j * (u mod ?V)"
  have "u mod ?V + 1 \<le> ?V" using pos_mod_bound[OF V, of u] by linarith
  then have "base ^ j * (u mod ?V + 1) \<le> base ^ j * ?V" by (intro mult_left_mono) auto
  then have D'V: "D' < base ^ j * ?V" using low by (simp add: D'_def distrib_left)
  have l1: "length uu1 = length uu" using lj ds by (simp add: uu1_def)
  have tk: "take (j + ?n) uu1 = take j uu @ w'" using lj ds by (simp add: uu1_def)
  have "j + ?n = Suc (j + ?n - 1)" "j + ?n - 1 < length uu1" using n lj l1 by simp_all
  then have tk': "take (j + ?n) uu1 = take (j + ?n - 1) uu1 @ [uu1 ! (j + ?n - 1)]"
    by (metis take_Suc_conv_app_nth)
  have "digits_val (take (j + ?n) uu1) = D'"
    unfolding tk using lj ds by (simp add: digits_val_append D'_def lu)
  then have D'eq: "D' = digits_val (take (j + ?n - 1) uu1) + base ^ (j + ?n - 1) * uint (uu1 ! (j + ?n - 1))"
    unfolding tk' using lj l1 n by (simp add: digits_val_append)
  have loop: "mpDivide_loop j v uu1 (uu1 ! (j + ?n - 1)) (q[j := qj]) = (q', uu')"
    using Suc.prems(6) st by (simp add: ww_def[symmetric] uu1_def Let_def)
  have IH: "digits_val (take j q') = D' div ?V" "digits_val (take ?n uu') = D' mod ?V"
    "drop j q' = drop j (q[j := qj])" "length uu' = length uu1" "length q' = length q"
    using Suc.IH[OF _ _ _ D'eq D'V loop] lj l1 n by auto
  have "drop j q' = qj # drop (Suc j) q"
    using IH(3) lj by (simp add: drop_update_swap Cons_nth_drop_Suc[symmetric])
  then have qs: "q' ! j = qj" "drop (Suc j) q' = drop (Suc j) q"
    by (auto simp: nth_via_drop drop_Suc tl_drop[symmetric])
  have "digits_val (take (Suc j) q') = D' div ?V + base ^ j * uint qj"
    using lj IH(1,5) qs(1) by (simp add: digits_val_take_Suc)
  moreover have "D = D' + (base ^ j * uint qj) * ?V"
  proof -
    have "u = u mod ?V + uint qj * ?V" using ds by simp
    then have "base ^ j * u = base ^ j * (u mod ?V) + base ^ j * uint qj * ?V"
      by (metis distrib_left mult.assoc)
    then show ?thesis by (simp add: D D'_def)
  qed
  then have "D div ?V = D' div ?V + base ^ j * uint qj" "D mod ?V = D' mod ?V"
    using V by simp_all
  ultimately show ?case using IH qs(2) l1 by simp
qed

lemma digits_val_inject:
  assumes "length a = length b" "digits_val a = digits_val b"
  shows "a = b"
  using assms
proof (induction a b rule: list_induct2)
  case (Cons a as b bs)
  have d: "uint a + base * digits_val as = uint b + base * digits_val bs" using Cons.prems by simp
  have "uint a = uint b"
    using arg_cong[OF d, of "\<lambda>x. x mod base"] by simp
  moreover from this have "digits_val as = digits_val bs" using d by simp
  ultimately show ?case using Cons.IH by (simp add: word_uint_eq_iff)
qed simp

text \<open>The divisor after normalisation: its leading digit has its top bit set, nothing is lost, and
  the shift back restores it.\<close>

lemma normalised_divisor:
  assumes n: "length v = Suc k" "v ! k \<noteq> 0" and s: "s = norm_loop (v ! k) HIBITMASK 0"
    and r: "mpShiftLeft_bits v s = (vn, c)"
  shows "digits_val vn = 2 ^ s * digits_val v" "2 ^ 63 \<le> uint (last vn)" "length vn = Suc k" "s < 64"
    "fst (mpShiftRight_bits vn s) = v"
proof -
  define t where "t = uint (v ! k)"
  note ns = norm_shift[OF n(2) s]
  have st: "s < 64" "2 ^ 63 \<le> t * 2 ^ s" "t * 2 ^ s < base"
    using ns uint_base[of "push_bit s (v ! k)"] by (simp_all add: t_def)
  note sh = mpShiftLeft_bits_spec[OF st(1) r]
  have ln: "length vn = Suc k" using sh(2) n by simp
  have B: "base = 2 ^ (64 - s) * 2 ^ s" using st(1) by (simp add: base_def flip: power_add)
  have V: "digits_val v = digits_val (take k v) + base ^ k * t"
    using digits_val_take_Suc[of k v] n by (simp add: t_def)
  have lo: "0 \<le> digits_val (take k v)" "digits_val (take k v) < base ^ k"
    using digits_val_less[of "take k v"] n by simp_all
  have "t < 2 ^ (64 - s)" using st(3) unfolding B by simp
  then have "(t + 1) * 2 ^ s \<le> base" unfolding B by (intro mult_right_mono) auto
  then have "base ^ k * ((t + 1) * 2 ^ s) \<le> base ^ k * base" by (intro mult_left_mono) auto
  moreover have "2 ^ s * digits_val v < 2 ^ s * (base ^ k * (t + 1))"
    using V lo by (simp add: distrib_left)
  moreover have "2 ^ s * (base ^ k * (t + 1)) = base ^ k * ((t + 1) * 2 ^ s)" by (simp only: ac_simps)
  ultimately have "2 ^ s * digits_val v < base ^ k * base" by linarith
  then have "2 ^ s * digits_val v < base ^ Suc k" by (simp only: power_Suc2)
  then have "base ^ Suc k * uint c < base ^ Suc k * 1"
    using sh(1) n(1) digits_val_nonneg[of vn] by (simp only: mult_1_right)
  then have "uint c < 1" by (simp only: mult_less_cancel_left_pos zero_less_power base_pos)
  then have "uint c = 0" using uint_ge_0[of c] by linarith
  then show val: "digits_val vn = 2 ^ s * digits_val v" using sh(1) by simp
  have last: "last vn = vn ! k" using ln by (subst last_conv_nth) auto
  have "digits_val vn = digits_val (take k vn) + base ^ k * uint (vn ! k)"
    using digits_val_take_Suc[of k vn] ln by simp
  moreover have "digits_val (take k vn) < base ^ k" using digits_val_less[of "take k vn"] ln by simp
  moreover have "base ^ k * 2 ^ 63 \<le> base ^ k * (t * 2 ^ s)" using st(2) by (intro mult_left_mono) auto
  moreover have "base ^ k * (t * 2 ^ s) \<le> 2 ^ s * digits_val v"
    using V lo by (simp add: distrib_left ac_simps)
  ultimately have "base ^ k * 2 ^ 63 < base ^ k * (uint (vn ! k) + 1)"
    using val unfolding distrib_left mult_1_right by linarith
  then have "2 ^ 63 < uint (vn ! k) + 1" by (simp only: mult_less_cancel_left_pos zero_less_power base_pos)
  then show "2 ^ 63 \<le> uint (last vn)" unfolding last by simp
  show "length vn = Suc k" "s < 64" using ln st(1) by auto
  obtain a d where a: "mpShiftRight_bits vn s = (a, d)" by fastforce
  then show "fst (mpShiftRight_bits vn s) = v"
    using mpShiftRight_bits_spec[OF st(1) a] val ln n(1) by (intro digits_val_inject) simp_all
qed

lemma mpSizeof_bounds:
  assumes "mpSizeof v (length v) = Suc k"
  shows "base ^ k \<le> digits_val v" "digits_val v < base ^ Suc k"
    "digits_val (take (Suc k) v) = digits_val v" "v ! k \<noteq> 0" "Suc k \<le> length v"
proof -
  show l: "Suc k \<le> length v" using mpSizeof_le[of v "length v"] assms by simp
  show v: "digits_val (take (Suc k) v) = digits_val v"
    using mpSizeof_val[of "length v" v] assms by simp
  show top: "v ! k \<noteq> 0" using mpSizeof_top[of v "length v"] assms by simp
  then have "uint (v ! k) \<noteq> 0" by (simp add: uint_0_iff)
  then have "1 \<le> uint (v ! k)" using uint_ge_0[of "v ! k"] by linarith
  then have "base ^ k * 1 \<le> base ^ k * uint (v ! k)" by (intro mult_left_mono) auto
  then show "base ^ k \<le> digits_val v"
    using digits_val_take_Suc[of k v] l v digits_val_nonneg[of "take k v"] by linarith
  show "digits_val v < base ^ Suc k" using digits_val_less[of "take (Suc k) v"] l v by simp
qed

lemma mpDivide_knuth_spec:
  assumes n: "mpSizeof v (length v) = n" "n = Suc k" "2 \<le> n"
    and u: "digits_val (take (n + m) u) = digits_val u" "n + m \<le> length u"
    and r: "mpDivide_knuth u v n m = (q, r, v')"
  shows "digits_val q = digits_val u div digits_val v" "digits_val r = digits_val u mod digits_val v"
    "v' = v" "length q = length u" "length r = length u"
proof -
  let ?U = "digits_val u" and ?V = "digits_val v"
  note sz = mpSizeof_bounds[of v k, unfolded n(1), OF n(2)]
  have Ub: "?U < base ^ (n + m)" using digits_val_less[of "take (n + m) u"] u by simp
  define s where "s = norm_loop (v ! (n - 1)) HIBITMASK 0"
  obtain vn c where vn: "mpShiftLeft_bits (take n v) s = (vn, c)" by fastforce
  obtain uu ov where uu: "mpShiftLeft_bits (take (n + m) u) s = (uu, ov)" by fastforce
  obtain q1 uu1 where lp: "mpDivide_loop (m + 1) vn uu ov (replicate (length u) 0) = (q1, uu1)" by fastforce
  obtain a d where a: "mpShiftRight_bits (take n uu1) s = (a, d)" by fastforce
  have res: "q = q1" "r = a @ replicate (length u - n) 0" "v' = fst (mpShiftRight_bits vn s) @ drop n v"
    using r unfolding mpDivide_knuth_def Let_def s_def[symmetric] vn prod.case uu lp a fst_conv by simp_all
  have lv: "length (take n v) = Suc k" "take n v ! k \<noteq> 0" using sz(4,5) n(2) by simp_all
  have s': "s = norm_loop (take n v ! k) HIBITMASK 0" using n(2) by (simp add: s_def)
  note nd = normalised_divisor[OF lv s' vn]
  have tv: "digits_val (take n v) = ?V" using sz(3) n(2) by simp
  note su = mpShiftLeft_bits_spec[OF nd(4) uu]
  have luu: "length uu = n + m" using su(2) u(2) by simp
  have lvn: "length vn = n" using nd(3) n(2) by simp
  have tl: "m + 1 + length vn - 1 = n + m" using lvn by simp
  have D: "2 ^ s * ?U = digits_val (take (m + 1 + length vn - 1) uu) + base ^ (m + 1 + length vn - 1) * uint ov"
    unfolding tl using su(1) u luu by simp
  have lt: "2 ^ s * ?U < base ^ (m + 1) * digits_val vn"
  proof -
    have "2 ^ s * ?U < 2 ^ s * base ^ (n + m)" using Ub by simp
    also have "\<dots> = 2 ^ s * (base ^ (m + 1) * base ^ k)" using n(2) by (simp add: power_add)
    also have "\<dots> \<le> 2 ^ s * (base ^ (m + 1) * ?V)" using sz(1) by (intro mult_left_mono) auto
    also have "\<dots> = base ^ (m + 1) * (2 ^ s * ?V)" by (simp only: ac_simps)
    finally show ?thesis unfolding nd(1) tv .
  qed
  have L: "digits_val (take (m + 1) q1) = 2 ^ s * ?U div digits_val vn"
      "digits_val (take (length vn) uu1) = 2 ^ s * ?U mod digits_val vn"
      "drop (m + 1) q1 = drop (m + 1) (replicate (length u) 0)" "length uu1 = length uu"
      "length q1 = length (replicate (length u) (0 :: digit))"
    using mpDivide_loop_spec[OF _ nd(2) _ _ _ D lt lp] lvn n(3) luu u(2) by simp_all
  have "digits_val q1 = digits_val (take (m + 1) q1)"
    using digits_val_take_drop[of q1 "m + 1"] L(3) by simp
  then show "digits_val q = ?U div ?V" unfolding res(1) using L(1) nd(1) tv by simp
  have "digits_val (take n uu1) = 2 ^ s * (?U mod ?V)"
    unfolding mult_mod_right using L(2) unfolding nd(1) lvn tv .
  then have "digits_val a = ?U mod ?V" using mpShiftRight_bits_spec(1)[OF nd(4) a] by simp
  then show "digits_val r = ?U mod ?V" unfolding res(2) by (simp add: digits_val_append)
  have la: "length a = n" using mpShiftRight_bits_spec(2)[OF nd(4) a] L(4) luu by simp
  then show "length r = length u" unfolding res(2) using u(2) by simp
  show "length q = length u" unfolding res(1) using L(5) by simp
  show "v' = v" unfolding res(3) nd(5) by simp
qed

lemma mpDivide_spec:
  assumes nz: "digits_val v \<noteq> 0" and r: "mpDivide u v = (ret, q, r, v')"
  shows "ret = 0 \<and> digits_val q = digits_val u div digits_val v \<and> digits_val r = digits_val u mod digits_val v
    \<and> v' = v \<and> length q = length u \<and> length r = length u"
proof -
  let ?U = "digits_val u" and ?V = "digits_val v"
  define n lu where n: "n = mpSizeof v (length v)" "lu = mpSizeof u (length u)"
  have "n \<noteq> 0"
  proof
    assume "n = 0"
    then show False using nz mpSizeof_val[of "length v" v] unfolding n(1)[symmetric] by simp
  qed
  then obtain k where k: "n = Suc k" by (cases n) auto
  note sz = mpSizeof_bounds[of v k, unfolded n(1)[symmetric], OF k]
  have Vpos: "0 < ?V" using nz digits_val_nonneg[of v] by linarith
  have ule: "lu \<le> length u" by (simp add: n mpSizeof_le)
  have Ul: "?U = digits_val (take lu u)" using mpSizeof_val[of "length u" u] by (simp add: n)
  then have Ub: "?U < base ^ lu" using digits_val_less[of "take lu u"] ule by simp
  have less: "q = replicate (length u) 0 \<and> r = u \<and> ret = 0 \<and> v' = v \<Longrightarrow> ?U < ?V \<Longrightarrow> ?thesis"
    by (simp add: div_pos_pos_trivial mod_pos_pos_trivial)
  have cmp: "mpCompare u v n = sgn (?U - ?V)" if "lu = n"
  proof -
    have "n \<le> length u" "n \<le> length v" using that ule sz(5) k by simp_all
    moreover have "digits_val (take n u) = ?U" "digits_val (take n v) = ?V"
      using Ul that sz(3) k by simp_all
    ultimately show ?thesis using mpCompare_spec[of n u v] by simp
  qed
  consider "n = 1" | "n \<noteq> 1" "lu < n" | "n \<noteq> 1" "lu = n" "mpCompare u v n < 0"
    | "n \<noteq> 1" "lu = n" "mpCompare u v n = 0"
    | "n \<noteq> 1" "\<not> lu < n" "lu = n \<longrightarrow> 0 < mpCompare u v n" by linarith
  then show ?thesis
  proof cases
    case 1
    obtain a rem where d: "mpShortDiv (replicate (length u) 0) u (v ! 0) = (a, rem)" by fastforce
    have res: "ret = 0" "q = a" "r = (replicate (length u) 0)[0 := rem]" "v' = v"
      using r 1 d by (simp_all add: mpDivide_def Let_def n[symmetric])
    have v0: "?V = uint (v ! 0)" "v ! 0 \<noteq> 0"
      using sz(3,4,5) 1 k digits_val_take_Suc[of 0 v] by (cases v; simp)+
    note sd = mpShortDiv_spec[OF v0(2) _ d]
    have "digits_val r = uint rem"
    proof (cases "length u")
      case 0
      then show ?thesis using sd(2) res by simp
    next
      case (Suc i)
      then show ?thesis using res by simp
    qed
    then show ?thesis using sd res v0 by simp
  next
    case 2
    then have "base ^ lu \<le> base ^ k" using k by (intro power_increasing) auto
    then have "?U < ?V" using Ub sz(1) by linarith
    moreover have "q = replicate (length u) 0 \<and> r = u \<and> ret = 0 \<and> v' = v"
      using r 2 k by (auto simp: mpDivide_def Let_def n[symmetric])
    ultimately show ?thesis by (intro less)
  next
    case 3
    then have "?U < ?V"
      using cmp[OF 3(2)] 3(3) by (cases "?U - ?V" "0 :: int" rule: linorder_cases) simp_all
    moreover have "q = replicate (length u) 0 \<and> r = u \<and> ret = 0 \<and> v' = v"
      using r 3 k by (auto simp: mpDivide_def Let_def n[symmetric])
    ultimately show ?thesis by (intro less)
  next
    case 4
    then have "?U = ?V"
      using cmp[OF 4(2)] 4(3) by (simp add: sgn_eq_0_iff)
    moreover have "ret = 0 \<and> q = (replicate (length u) 0)[0 := 1] \<and> r = replicate (length u) 0 \<and> v' = v"
      using r 4 k by (auto simp: mpDivide_def Let_def n[symmetric])
    moreover have "digits_val ((replicate (length u) 0)[0 := 1]) = 1"
      using 4 k ule by (cases "length u") simp_all
    ultimately show ?thesis using Vpos by simp
  next
    case 5
    have ln: "n + (lu - n) = lu" "2 \<le> n" using 5 k by auto
    have "\<not> (lu = n \<and> mpCompare u v n < 0)" "\<not> (lu = n \<and> mpCompare u v n = 0)" using 5(3) by auto
    then have "ret = 0" "mpDivide_knuth u v n (lu - n) = (q, r, v')"
      using r 5(1,2) \<open>n \<noteq> 0\<close> unfolding mpDivide_def Let_def n[symmetric]
      by (simp_all split: if_splits)
    then show ?thesis
      using mpDivide_knuth_spec[of v n k "lu - n" u q r v'] n(1) k ln Ul ule by simp
  qed
qed

end
