(* ===== verification/BigConvert.thy ===== *)
theory BigConvert
  imports BigDivide YogFixnum
begin

text \<open>
  Conversions of \<^verbatim>\<open>BigDigits/bigdigits.c\<close> between arrays of digits, octets and decimal strings.
  An \<^verbatim>\<open>unsigned char\<close> is a natural number below 256. The sizes of the temporary arrays are computed
  in C with doubles; here with exact fractions.
\<close>

section \<open>The code\<close>

definition mpBitLength :: "digit list \<Rightarrow> nat" where
  "mpBitLength d =
     (let n = mpSizeof d (length d)
      in if n = 0 then 0 else n * 64 - norm_loop (d ! (n - 1)) HIBITMASK 0)"

definition digit_octets :: "digit \<Rightarrow> nat list" where
  "digit_octets t = map (\<lambda>k. unat (take_bit 8 (drop_bit (8 * k) t))) [0..<8]"

text \<open>The octets come out most significant first; the number of significant ones is the result of
  the function.\<close>

definition mpConvToOctets :: "digit list \<Rightarrow> nat \<Rightarrow> nat list \<times> nat" where
  "mpConvToOctets a nbytes =
     (rev (take nbytes (concat (map digit_octets a) @ replicate nbytes 0)), (mpBitLength a + 7) div 8)"

primrec octets_digit :: "nat list \<Rightarrow> nat \<Rightarrow> digit" where
  "octets_digit [] k = 0"
| "octets_digit (c # cs) k = push_bit k (of_nat c) OR octets_digit cs (k + 8)"

fun octets_digits :: "nat \<Rightarrow> nat list \<Rightarrow> digit list" where
  "octets_digits 0 cs = []"
| "octets_digits (Suc n) cs =
     (if cs = [] then [] else octets_digit (take 8 cs) 0 # octets_digits n (drop 8 cs))"

text \<open>The digits that are set, of at most \<open>ndigits\<close>.\<close>

definition mpConvFromOctets :: "nat \<Rightarrow> nat list \<Rightarrow> digit list" where
  "mpConvFromOctets ndigits c = octets_digits ndigits (rev c)"

text \<open>
  Both decimal conversions fold a loop over the temporary array, from its end (its least
  significant element): multiply by \<open>m\<close> in base \<open>b\<close> and add \<open>t\<close>.
\<close>

fun conv_step :: "nat \<Rightarrow> nat \<Rightarrow> nat list \<Rightarrow> nat \<Rightarrow> nat list" where
  "conv_step b m [] t = []"
| "conv_step b m (d # ds) t = (t + d * m) mod b # conv_step b m ds ((t + d * m) div b)"

definition decimal_chars :: "nat \<Rightarrow> nat" where
  "decimal_chars n = (n * 240824 + 99999) div 100000"

definition decimal_bytes :: "nat \<Rightarrow> nat" where
  "decimal_bytes n = (n * 41524 + 99999) div 100000"

text \<open>\<^verbatim>\<open>conv_to_base\<close> in base 10: the decimal digits, most significant first. \<^verbatim>\<open>bdConvToDecimal\<close>
  with no buffer gives their number, with a buffer of \<open>smax\<close> bytes the string in it.\<close>

definition conv_to_base :: "digit list \<Rightarrow> nat list" where
  "conv_to_base a =
     (if mpIsZero a then [0]
      else
        let nbytes = length a * 64 div 8;
            (bytes, n) = mpConvToOctets a nbytes;
            newdigits = fold (\<lambda>t ds. conv_step 10 256 ds t) bytes (replicate (decimal_chars n) 0)
        in dropWhile (\<lambda>d. d = 0) (rev newdigits))"

definition mpConvToDecimal_size :: "digit list \<Rightarrow> nat" where
  "mpConvToDecimal_size a = length (conv_to_base a)"

definition mpConvToDecimal :: "digit list \<Rightarrow> nat \<Rightarrow> string" where
  "mpConvToDecimal a smax = take (smax - 1) (map (\<lambda>d. ''0123456789'' ! d) (conv_to_base a))"

definition decimal_digit :: "char \<Rightarrow> nat option" where
  "decimal_digit c =
     (let t = usub (of_char c) 48 in if t > 9 then None else Some t)"

definition mpConvFromDecimal :: "nat \<Rightarrow> string \<Rightarrow> digit list" where
  "mpConvFromDecimal ndigits s =
     (let n = length s
      in if n = 0 then []
         else
           let newdigits = fold (\<lambda>c ds. case decimal_digit c of None \<Rightarrow> ds
                                        | Some t \<Rightarrow> conv_step 256 10 ds t)
                 s (replicate (decimal_bytes n) 0)
           in mpConvFromOctets ndigits (rev newdigits))"

section \<open>Positional values\<close>

primrec pos_val :: "nat \<Rightarrow> nat list \<Rightarrow> nat" where
  "pos_val b [] = 0"
| "pos_val b (d # ds) = d + b * pos_val b ds"

lemma pos_val_append: "pos_val b (xs @ ys) = pos_val b xs + b ^ length xs * pos_val b ys"
  by (induction xs) (simp_all add: algebra_simps)

lemma pos_val_zeros [simp]: "pos_val b (replicate n 0) = 0"
  by (induction n) auto

lemma pos_val_less: "\<forall>d\<in>set ds. d < b \<Longrightarrow> pos_val b ds < b ^ length ds"
proof (induction ds)
  case (Cons d ds)
  then have "b * (pos_val b ds + 1) \<le> b * b ^ length ds" by (intro mult_left_mono) auto
  then show ?case using Cons.prems by (simp add: algebra_simps)
qed simp

lemma length_conv_step [simp]: "length (conv_step b m ds t) = length ds"
  by (induction b m ds t rule: conv_step.induct) simp_all

lemma conv_step_bound: "0 < b \<Longrightarrow> \<forall>d\<in>set (conv_step b m ds t). d < b"
  by (induction b m ds t rule: conv_step.induct) auto

lemma conv_step_val:
  assumes "0 < b" "\<forall>d\<in>set ds. d < b" "pos_val b ds * m + t < b ^ length ds"
  shows "pos_val b (conv_step b m ds t) = pos_val b ds * m + t"
  using assms
proof (induction b m ds t rule: conv_step.induct)
  case (2 b m d ds t)
  let ?c = "t + d * m"
  have split: "?c = ?c mod b + b * (?c div b)" by simp
  have "b * (pos_val b ds * m + ?c div b) \<le> pos_val b (d # ds) * m + t"
    using split by (simp add: algebra_simps)
  also have "\<dots> < b * b ^ length ds" using 2(4) by simp
  finally have "pos_val b ds * m + ?c div b < b ^ length ds" by simp
  then have "pos_val b (conv_step b m ds (?c div b)) = pos_val b ds * m + ?c div b"
    using 2(2,3) by (intro 2(1)) auto
  then show ?case using split by (simp add: algebra_simps)
qed simp

lemma foldl_horner: "foldl (\<lambda>n t. n * m + t) k ts = pos_val m (rev ts) + m ^ length ts * (k :: nat)"
  by (induction ts arbitrary: k) (simp_all add: pos_val_append algebra_simps)

lemma fold_conv_step:
  assumes "0 < b" "0 < m" "\<forall>d\<in>set ds. d < b"
    and "foldl (\<lambda>n t. n * m + t) (pos_val b ds) ts < b ^ length ds"
  shows "pos_val b (fold (\<lambda>t ds. conv_step b m ds t) ts ds) = foldl (\<lambda>n t. n * m + t) (pos_val b ds) ts
    \<and> (\<forall>d\<in>set (fold (\<lambda>t ds. conv_step b m ds t) ts ds). d < b)
    \<and> length (fold (\<lambda>t ds. conv_step b m ds t) ts ds) = length ds"
  using assms
proof (induction ts arbitrary: ds)
  case (Cons t ts)
  have "pos_val b ds * m + t \<le> m ^ length ts * (pos_val b ds * m + t)" using Cons.prems(2) by simp
  also have "\<dots> \<le> foldl (\<lambda>n t. n * m + t) (pos_val b ds * m + t) ts"
    by (subst foldl_horner) simp
  also have "\<dots> = foldl (\<lambda>n t. n * m + t) (pos_val b ds) (t # ts)" by simp
  also have "\<dots> < b ^ length ds" by (rule Cons.prems(4))
  finally have v: "pos_val b (conv_step b m ds t) = pos_val b ds * m + t"
    using Cons.prems by (intro conv_step_val) auto
  show ?case
    using Cons.IH[of "conv_step b m ds t"] Cons.prems conv_step_bound[OF Cons.prems(1), of m ds t] v by simp
qed simp

lemma sum_octets:
  fixes t :: digit
  assumes "n \<le> 8"
  shows "pos_val 256 (map (\<lambda>k. unat (take_bit 8 (drop_bit (8 * k) t))) [0..<n]) = unat t mod 2 ^ (8 * n)"
  using assms
proof (induction n)
  case (Suc n)
  have o: "unat (take_bit 8 (drop_bit (8 * n) t)) = unat t div 2 ^ (8 * n) mod 256"
  proof -
    have "unat (take_bit 8 (drop_bit (8 * n) t)) = take_bit 8 (drop_bit (8 * n) (unat t))"
      by (simp add: unsigned_take_bit_eq unat_drop_bit_eq)
    then show ?thesis by (simp add: take_bit_eq_mod[of 8 "_ :: nat"] drop_bit_eq_div[of _ "_ :: nat"])
  qed
  have "unat t mod 2 ^ (8 * Suc n) = unat t mod (2 ^ (8 * n) * 256)" by (simp add: power_add mult.commute)
  also have "\<dots> = 2 ^ (8 * n) * (unat t div 2 ^ (8 * n) mod 256) + unat t mod 2 ^ (8 * n)"
    by (rule mod_mult2_eq)
  finally have m: "unat t mod 2 ^ (8 * Suc n)
    = 2 ^ (8 * n) * (unat t div 2 ^ (8 * n) mod 256) + unat t mod 2 ^ (8 * n)" .
  have "(256 :: nat) ^ n = 2 ^ (8 * n)" by (simp add: power_mult)
  then show ?case using Suc m by (simp add: pos_val_append o)
qed simp

lemma pos_val_digit_octets: "pos_val 256 (digit_octets t) = unat t" "length (digit_octets t) = 8"
proof -
  have "unat t mod 2 ^ 64 = unat t"
    using unsigned_less[where ?'a = nat, of t] by simp
  then show "pos_val 256 (digit_octets t) = unat t" "length (digit_octets t) = 8"
    using sum_octets[of 8 t] by (simp_all add: digit_octets_def)
qed

lemma concat_octets:
  "pos_val 256 (concat (map digit_octets a)) = nat (digits_val a)
   \<and> length (concat (map digit_octets a)) = 8 * length a"
proof (induction a)
  case (Cons d a)
  have "nat (digits_val (d # a)) = unat d + 2 ^ 64 * nat (digits_val a)"
    by (simp add: nat_add_distrib nat_mult_distrib base_def)
  then show ?case using Cons pos_val_digit_octets[of d] by (simp add: pos_val_append)
qed simp

lemma mpConvToOctets_spec:
  assumes "fst (mpConvToOctets a (8 * length a)) = c"
  shows "pos_val 256 (rev c) = nat (digits_val a)" "length c = 8 * length a" 
  using assms concat_octets[of a] by (auto simp: mpConvToOctets_def)

text \<open>The number of significant octets.\<close>

lemma octets_enough:
  assumes "n = (mpBitLength a + 7) div 8"
  shows "nat (digits_val a) < 256 ^ n"
proof -
  have "digits_val a < 2 ^ mpBitLength a"
  proof (cases "mpSizeof a (length a)")
    case 0
    then show ?thesis using mpSizeof_val[of "length a" a] by (simp add: mpBitLength_def)
  next
    case (Suc k)
    note sz = mpSizeof_bounds[OF Suc]
    define s where "s = norm_loop (a ! k) HIBITMASK 0"
    note ns = norm_shift[OF sz(4) s_def]
    have bl: "mpBitLength a = Suc k * 64 - s" using Suc by (simp add: mpBitLength_def s_def)
    have "uint (a ! k) * 2 ^ s < 2 ^ (64 - s) * 2 ^ s"
      using ns uint_base[of "push_bit s (a ! k)"] by (simp add: base_def flip: power_add)
    then have "uint (a ! k) + 1 \<le> 2 ^ (64 - s)" by simp
    then have "base ^ k * (uint (a ! k) + 1) \<le> base ^ k * 2 ^ (64 - s)" by (intro mult_left_mono) auto
    also have "\<dots> = 2 ^ (64 * k + (64 - s))" by (simp add: base_power_bits power_add)
    also have "64 * k + (64 - s) = mpBitLength a" using ns(1) bl by simp
    finally have "base ^ k * (uint (a ! k) + 1) \<le> 2 ^ mpBitLength a" .
    moreover have "digits_val a < base ^ k * (uint (a ! k) + 1)"
      using digits_val_take_Suc[of k a] sz(3,5) digits_val_less[of "take k a"]
      by (simp add: distrib_left)
    ultimately show ?thesis by linarith
  qed
  also have "(2 :: int) ^ mpBitLength a \<le> 2 ^ (8 * n)"
    using assms by (intro power_increasing) auto
  finally have "digits_val a < 2 ^ (8 * n)" .
  then have "nat (digits_val a) < nat (2 ^ (8 * n))" by (intro nat_mono_iff[THEN iffD2]) auto
  also have "nat (2 ^ (8 * n)) = 256 ^ n" by (simp add: power_mult nat_power_eq)
  finally show ?thesis .
qed

section \<open>To decimal\<close>

text \<open>
  The temporary array is long enough: \<open>256 ^ 12500 \<le> 10 ^ 30103\<close>, and the factor in the code is
  30103 / 12500. The power of 5 is bounded from below by squaring with truncated mantissas.
\<close>

function trunc_mantissa :: "nat \<Rightarrow> nat \<Rightarrow> nat \<times> nat" where
  "trunc_mantissa m s = (if m < 2 ^ 100 then (m, s) else trunc_mantissa (m div 2 ^ 40) (s + 40))"
  by pat_completeness auto
termination
  by (relation "measure fst") auto

declare trunc_mantissa.simps [simp del]

primrec power5_bound :: "bool list \<Rightarrow> nat \<times> nat" where
  "power5_bound [] = (1, 0)"
| "power5_bound (b # bs) =
     (let (m, s) = power5_bound bs
      in trunc_mantissa (if b then m * m * 5 else m * m) (2 * s))"

primrec bits_value :: "bool list \<Rightarrow> nat" where
  "bits_value [] = 0"
| "bits_value (b # bs) = of_bool b + 2 * bits_value bs"

lemma trunc_mantissa_le: "trunc_mantissa m s = (m', s') \<Longrightarrow> m' * 2 ^ s' \<le> m * 2 ^ s"
proof (induction m s rule: trunc_mantissa.induct)
  case (1 m s)
  show ?case
  proof (cases "m < 2 ^ 100")
    case False
    then have "m' * 2 ^ s' \<le> m div 2 ^ 40 * 2 ^ (s + 40)"
      using 1 by (simp add: trunc_mantissa.simps[of m s])
    also have "\<dots> = m div 2 ^ 40 * 2 ^ 40 * 2 ^ s" by (simp add: power_add)
    also have "\<dots> \<le> m * 2 ^ s" by (intro mult_right_mono) auto
    finally show ?thesis .
  qed (use 1 in \<open>simp add: trunc_mantissa.simps[of m s]\<close>)
qed

lemma power5_bound: "power5_bound bs = (m, s) \<Longrightarrow> m * 2 ^ s \<le> 5 ^ bits_value bs"
proof (induction bs arbitrary: m s)
  case (Cons b bs)
  obtain n t where p: "power5_bound bs = (n, t)" by fastforce
  have le: "n * 2 ^ t \<le> 5 ^ bits_value bs" by (rule Cons.IH[OF p])
  have "m * 2 ^ s \<le> (if b then n * n * 5 else n * n) * 2 ^ (2 * t)"
    using Cons.prems p by (intro trunc_mantissa_le) simp
  also have "\<dots> = (if b then 5 else 1) * ((n * 2 ^ t) * (n * 2 ^ t))"
    by (simp add: mult_2 power_add)
  also have "\<dots> \<le> (if b then 5 else 1) * (5 ^ bits_value bs * 5 ^ bits_value bs)"
    using le by (intro mult_left_mono mult_mono) auto
  also have "\<dots> = 5 ^ bits_value (b # bs)" by (simp add: mult_2 power_add)
  finally show ?case .
qed simp

definition bits_30103 :: "bool list" where
  "bits_30103 = [True, True, True, False, True, False, False, True, True, False, True, False, True,
     True, True]"

lemma bits_30103: "bits_value bits_30103 = 30103"
  by (simp add: bits_30103_def)

lemma power5_30103: "2 ^ 69897 \<le> (5 :: nat) ^ 30103"
proof -
  have "power5_bound bits_30103 = (158614607653526789649065816846, 69800)"
    by (simp add: bits_30103_def trunc_mantissa.simps)
  from power5_bound[OF this] have "158614607653526789649065816846 * 2 ^ 69800 \<le> (5 :: nat) ^ 30103" by (simp only: bits_30103)
  moreover have "(2 :: nat) ^ 69897 \<le> 158614607653526789649065816846 * 2 ^ 69800"
  proof -
    have "(2 :: nat) ^ 69897 = 2 ^ 97 * 2 ^ 69800" unfolding power_add[symmetric] by (simp only: arith_simps)
    also have "\<dots> \<le> 158614607653526789649065816846 * 2 ^ 69800" by (intro mult_right_mono) (simp_all only: zero_le, simp)
    finally show ?thesis .
  qed
  ultimately show ?thesis by (rule le_trans[rotated])
qed

lemma power_ratio:
  fixes a c :: nat
  assumes "a ^ p \<le> c ^ q" "q * n \<le> p * k" "0 < p" "1 \<le> c"
  shows "a ^ n \<le> c ^ k"
proof -
  have "(a ^ n) ^ p = (a ^ p) ^ n" by (simp only: power_mult[symmetric] mult.commute)
  also have "\<dots> \<le> (c ^ q) ^ n" using assms(1) by (intro power_mono) auto
  also have "\<dots> = c ^ (q * n)" by (simp only: power_mult)
  also have "\<dots> \<le> c ^ (p * k)" using assms(2,4) by (intro power_increasing)
  also have "\<dots> = (c ^ k) ^ p" by (simp only: power_mult[symmetric] mult.commute)
  finally show ?thesis using assms(3) by (simp add: power_mono_iff)
qed

lemma power_split_times: "(2 :: nat) ^ b \<le> 5 ^ c \<Longrightarrow> 8 * a = b + c \<Longrightarrow> (256 :: nat) ^ a \<le> 10 ^ c"
proof -
  assume h: "(2 :: nat) ^ b \<le> 5 ^ c" "8 * a = b + c"
  have "(256 :: nat) ^ a = 2 ^ (8 * a)" by (simp add: power_mult)
  also have "\<dots> = 2 ^ b * 2 ^ c" unfolding h(2) by (rule power_add)
  also have "\<dots> \<le> 5 ^ c * 2 ^ c" using h(1) by (intro mult_right_mono) auto
  also have "\<dots> = 10 ^ c" by (simp flip: power_mult_distrib)
  finally show ?thesis .
qed

lemma decimal_chars_enough: "(256 :: nat) ^ n \<le> 10 ^ decimal_chars n"
proof (rule power_ratio[of 256 12500 10 30103])
  show "(256 :: nat) ^ 12500 \<le> 10 ^ 30103" by (rule power_split_times[OF power5_30103]) simp
  have "n * 240824 \<le> 100000 * decimal_chars n" unfolding decimal_chars_def by linarith
  then show "30103 * n \<le> 12500 * decimal_chars n" by linarith
qed simp_all

text \<open>The digits without leading zeros are the canonical decimal string.\<close>

lemma decimal_char: "d < 10 \<Longrightarrow> ''0123456789'' ! d = digit_char (int d)"
proof -
  assume "d < 10"
  then have "d \<in> {0, 1, 2, 3, 4, 5, 6, 7, 8, 9}" by auto
  then show ?thesis by (elim insertE emptyE; simp only:; code_simp)
qed

lemma digits_of_pos_val:
  assumes "ds \<noteq> []" "\<forall>d\<in>set ds. d < 10" "last ds \<noteq> 0 \<or> length ds = 1"
  shows "digits 10 (int (pos_val 10 ds)) = map (\<lambda>d. digit_char (int d)) (rev ds)"
  using assms
proof (induction ds)
  case (Cons d ds)
  show ?case
  proof (cases "ds = []")
    case True
    then show ?thesis using Cons.prems(2) by (simp add: digits.simps)
  next
    case False
    have l: "last ds \<noteq> 0" using Cons.prems(3) False by simp
    then have "pos_val 10 ds \<noteq> 0"
      using False by (induction ds) (auto split: if_splits)
    then have v: "\<not> int (pos_val 10 (d # ds)) < 10" by simp
    have "int (pos_val 10 (d # ds)) = 10 * int (pos_val 10 ds) + int d" by simp
    moreover have "int d < 10" using Cons.prems(2) by simp
    ultimately have "int (pos_val 10 (d # ds)) div 10 = int (pos_val 10 ds)"
      "int (pos_val 10 (d # ds)) mod 10 = int d" by simp_all
    then show ?thesis using v Cons.IH False Cons.prems(2) l
      by (subst digits.simps) simp
  qed
qed simp

lemma strip_zeros:
  assumes "pos_val b ds \<noteq> 0" "e = rev (dropWhile (\<lambda>d. d = 0) (rev ds))"
  shows "e \<noteq> []" "pos_val b e = pos_val b ds" "last e \<noteq> 0" "set e \<subseteq> set ds"
proof -
  have d: "ds = e @ rev (takeWhile (\<lambda>d. d = 0) (rev ds))"
    by (metis assms(2) rev_append rev_rev_ident takeWhile_dropWhile_id)
  have "rev (takeWhile (\<lambda>d. d = 0) (rev ds)) = replicate (length (takeWhile (\<lambda>d. d = 0) (rev ds))) 0"
    by (rule replicate_eqI) (auto dest: set_takeWhileD)
  then have "pos_val b (rev (takeWhile (\<lambda>d. d = 0) (rev ds))) = 0"
    using pos_val_zeros by metis
  then show v: "pos_val b e = pos_val b ds"
    using arg_cong[OF d, of "pos_val b"] by (simp add: pos_val_append)
  then show ne: "e \<noteq> []" using assms(1) by auto
  then have "dropWhile (\<lambda>d. d = 0) (rev ds) \<noteq> []" by (simp add: assms(2))
  then show "last e \<noteq> 0" using hd_dropWhile[of "\<lambda>d. d = 0" "rev ds"] by (simp add: assms(2) last_rev)
  show "set e \<subseteq> set ds" using set_dropWhileD[of _ "\<lambda>d. d = 0" "rev ds"] by (auto simp: assms(2))
qed

lemma conv_to_base_spec:
  "map (\<lambda>d. ''0123456789'' ! d) (conv_to_base a) = digits 10 (digits_val a)"
proof (cases "digits_val a = 0")
  case True
  then have "conv_to_base a = [0]" by (simp add: conv_to_base_def mpIsZero_spec)
  then show ?thesis using True decimal_char[of 0] by (simp add: digits.simps)
next
  case False
  define N where "N = nat (digits_val a)"
  have N: "int N = digits_val a" "N \<noteq> 0" using False digits_val_nonneg[of a] by (simp add: N_def, unfold N_def, linarith)
  obtain c n where o: "mpConvToOctets a (length a * 64 div 8) = (c, n)" by fastforce
  have len: "length a * 64 div 8 = 8 * length a" by simp
  have n: "n = (mpBitLength a + 7) div 8" using o by (simp add: mpConvToOctets_def)
  have c: "pos_val 256 (rev c) = N"
    using mpConvToOctets_spec(1)[of a c] o unfolding len N_def by simp
  define nd where "nd = fold (\<lambda>t ds. conv_step 10 256 ds t) c (replicate (decimal_chars n) 0)"
  have "N < 256 ^ n" using octets_enough[OF n] by (simp add: N_def)
  then have "N < 10 ^ decimal_chars n" using decimal_chars_enough[of n] by linarith
  then have nd: "pos_val 10 nd = N" "\<forall>d\<in>set nd. d < 10"
    using fold_conv_step[of 10 256 "replicate (decimal_chars n) 0" c] c
    by (simp_all add: nd_def foldl_horner)
  define e where "e = rev (dropWhile (\<lambda>d. d = 0) (rev nd))"
  have cb: "conv_to_base a = rev e"
    using False o by (simp add: conv_to_base_def mpIsZero_spec Let_def nd_def e_def)
  note st = strip_zeros[OF _ e_def, of 10, unfolded nd, OF N(2)]
  have b: "\<forall>d\<in>set e. d < 10" using st(4) nd(2) by auto
  then have "map (\<lambda>d. ''0123456789'' ! d) (rev e) = map (\<lambda>d. digit_char (int d)) (rev e)"
    by (intro map_cong refl) (simp add: decimal_char)
  also have "\<dots> = digits 10 (int (pos_val 10 e))"
    using digits_of_pos_val[OF st(1) b] st(3) by simp
  finally show ?thesis unfolding cb st(2) N(1) .
qed

lemma mpConvToDecimal_spec:
  "mpConvToDecimal_size a = length (digits 10 (digits_val a))"
  "mpConvToDecimal a smax = take (smax - 1) (digits 10 (digits_val a))"
  using conv_to_base_spec[of a]
  by (metis mpConvToDecimal_size_def length_map) (simp add: mpConvToDecimal_def conv_to_base_spec)

section \<open>From decimal\<close>

lemma octets_digit_val:
  assumes "\<forall>c\<in>set cs. c < 256" "k + 8 * length cs \<le> 64"
  shows "uint (octets_digit cs k) = 2 ^ k * int (pos_val 256 cs)"
  using assms
proof (induction cs arbitrary: k)
  case (Cons c cs)
  define v where "v = pos_val 256 cs"
  have IH: "uint (octets_digit cs (k + 8)) = 2 ^ (k + 8) * int v"
    using Cons by (simp add: v_def)
  have c: "uint (of_nat c :: digit) = int c"
    using Cons.prems(1) by (simp add: unsigned_of_nat take_bit_nat_eq_self)
  have bnd: "2 ^ k * (int c + 256 * int v) < base"
  proof -
    have "pos_val 256 (c # cs) < 256 ^ length (c # cs)" using Cons.prems(1) by (intro pos_val_less) simp
    then have "int (c + 256 * v) < int (256 ^ length (c # cs))" unfolding v_def by (simp only: pos_val.simps of_nat_less_iff)
    then have "2 ^ k * (int c + 256 * int v) < 2 ^ k * 256 ^ length (c # cs)" by simp
    also have "\<dots> = 2 ^ (k + 8 * length (c # cs))" by (simp add: power_add power_mult)
    also have "\<dots> \<le> 2 ^ 64" using Cons.prems(2) by (intro power_increasing) auto
    finally show ?thesis by (simp add: base_def)
  qed
  have "0 \<le> (2 :: int) ^ k * (256 * int v)" by simp
  then have "2 ^ k * int c < base" using bnd unfolding distrib_left by linarith
  then have pc: "uint (push_bit k (of_nat c :: digit)) = 2 ^ k * int c"
    using c by (simp add: uint_push_bit mult.commute)
  have "push_bit k (of_nat c) AND octets_digit cs (k + 8) = (0 :: digit)"
  proof (rule bit_word_eqI)
    fix n
    have "bit (octets_digit cs (k + 8)) n \<Longrightarrow> k + 8 \<le> n"
    proof -
      assume "bit (octets_digit cs (k + 8)) n"
      then have "bit (uint (octets_digit cs (k + 8))) n" by (auto simp: bit_uint_iff dest: bit_imp_le_length)
      then have "bit (push_bit (k + 8) (int v)) n"
        unfolding IH by (simp only: push_bit_eq_mult mult.commute)
      then show "k + 8 \<le> n" by (simp add: bit_simps)
    qed
    moreover have "bit (push_bit k (of_nat c) :: digit) n \<Longrightarrow> n < k + 8"
    proof -
      assume "bit (push_bit k (of_nat c) :: digit) n"
      then have "bit c (n - k)" "k \<le> n" by (auto simp: bit_simps)
      moreover have "take_bit 8 c = c" using Cons.prems(1) by (simp add: take_bit_nat_eq_self)
      ultimately show "n < k + 8" by (metis bit_take_bit_iff less_diff_conv2 add.commute)
    qed
    ultimately show "bit (push_bit k (of_nat c) AND octets_digit cs (k + 8)) n = bit (0 :: digit) n"
      by (auto simp: bit_simps)
  qed
  then have "octets_digit (c # cs) k = push_bit k (of_nat c) + octets_digit cs (k + 8)"
    by (simp add: word_or_plus)
  then show ?case
    using bnd IH pc by (simp add: uint_word_plus v_def[symmetric] power_add algebra_simps)
qed simp

lemma octets_digits_val:
  assumes "\<forall>c\<in>set cs. c < 256" "length cs \<le> 8 * n"
  shows "digits_val (octets_digits n cs) = int (pos_val 256 cs)"
  using assms
proof (induction n cs rule: octets_digits.induct)
  case (2 n cs)
  show ?case
  proof (cases "cs = []")
    case False
    have t: "uint (octets_digit (take 8 cs) 0) = int (pos_val 256 (take 8 cs))"
      using 2(2) by (subst octets_digit_val) (auto dest: in_set_takeD)
    have d: "digits_val (octets_digits n (drop 8 cs)) = int (pos_val 256 (drop 8 cs))"
      using 2 False by (intro 2(1)) (auto dest: in_set_dropD)
    have "pos_val 256 cs = pos_val 256 (take 8 cs) + 256 ^ length (take 8 cs) * pos_val 256 (drop 8 cs)"
      by (metis append_take_drop_id pos_val_append)
    moreover have "256 ^ length (take 8 cs) * pos_val 256 (drop 8 cs) = 2 ^ 64 * pos_val 256 (drop 8 cs)"
      by (cases "length cs < 8") (simp_all add: min_def)
    ultimately have "pos_val 256 cs = pos_val 256 (take 8 cs) + 2 ^ 64 * pos_val 256 (drop 8 cs)"
      by linarith
    then have "int (pos_val 256 cs) = int (pos_val 256 (take 8 cs)) + 2 ^ 64 * int (pos_val 256 (drop 8 cs))"
      by simp
    then show ?thesis using False t d by (simp only: octets_digits.simps if_False digits_val.simps base_def)
  qed simp
qed simp

definition is_decimal :: "string \<Rightarrow> bool" where
  "is_decimal s \<longleftrightarrow> s \<noteq> [] \<and> (\<forall>c\<in>set s. 48 \<le> (of_char c :: nat) \<and> (of_char c :: nat) \<le> 57)"

lemma decimal_digit_Some:
  assumes "48 \<le> (of_char c :: nat)" "(of_char c :: nat) \<le> 57"
  shows "decimal_digit c = Some (of_char c - 48)" "int (of_char c - 48) = digit_value c"
proof -
  have "usub (of_char c) 48 = of_char c - 48" using assms by (intro usub_le) auto
  then show "decimal_digit c = Some (of_char c - 48)" using assms by (simp add: decimal_digit_def Let_def)
  show "int (of_char c - 48) = digit_value c" using assms by (simp add: digit_value_def of_nat_diff)
qed

lemma fold_decimal:
  assumes "\<forall>c\<in>set s. 48 \<le> (of_char c :: nat) \<and> (of_char c :: nat) \<le> 57"
  shows "fold (\<lambda>c ds. case decimal_digit c of None \<Rightarrow> ds | Some t \<Rightarrow> conv_step 256 10 ds t) s ds
    = fold (\<lambda>t ds. conv_step 256 10 ds t) (map (\<lambda>c. of_char c - 48) s) ds"
  using assms by (induction s arbitrary: ds) (simp_all add: decimal_digit_Some)

lemma parse_decimal:
  assumes "\<forall>c\<in>set s. 48 \<le> (of_char c :: nat) \<and> (of_char c :: nat) \<le> 57"
  shows "int (foldl (\<lambda>n t. n * 10 + t) k (map (\<lambda>c. of_char c - 48) s))
    = foldl (\<lambda>n c. n * 10 + digit_value c) (int k) s"
  using assms
proof (induction s arbitrary: k)
  case (Cons a s)
  have "int (k * 10 + (of_char a - 48)) = int k * 10 + digit_value a"
    using decimal_digit_Some(2)[of a] Cons.prems by simp
  then show ?case using Cons.IH[of "k * 10 + (of_char a - 48)"] Cons.prems
    by (simp only: foldl_Cons list.map) simp
qed simp

lemma conv_bytes:
  "length (fold (\<lambda>t ds. conv_step 256 10 ds t) ts ds) = length ds
   \<and> ((\<forall>d\<in>set ds. d < 256) \<longrightarrow> (\<forall>d\<in>set (fold (\<lambda>t ds. conv_step 256 10 ds t) ts ds). d < 256))"
proof (induction ts arbitrary: ds)
  case (Cons t ts)
  then show ?case using conv_step_bound[of 256 10 ds t] by simp
qed simp

lemma decimal_bytes_le: "decimal_bytes n \<le> 8 * ((n div 2 + 8) div 8)"
proof -
  have "decimal_bytes n \<le> n div 2 + 1" unfolding decimal_bytes_def by linarith
  then show ?thesis by linarith
qed

text \<open>What the code reads of any string: its decimal digits, the other characters are skipped.\<close>

definition is_digit_char :: "char \<Rightarrow> bool" where
  "is_digit_char c \<longleftrightarrow> 48 \<le> (of_char c :: nat) \<and> (of_char c :: nat) \<le> 57"

lemma decimal_digit_None:
  assumes "\<not> is_digit_char c"
  shows "decimal_digit c = None"
proof -
  have "(of_char c :: nat) < 256" by simp
  then have c: "(of_char c :: nat) < 2 ^ 64" by (rule less_trans) simp
  have "9 < usub (of_char c) 48"
  proof (cases "48 \<le> (of_char c :: nat)")
    case True
    then have "usub (of_char c) 48 = of_char c - 48" using c by (rule usub_le)
    then show ?thesis using True assms by (simp add: is_digit_char_def)
  next
    case False
    then have "usub (of_char c) 48 = of_char c + 2 ^ 64 - 48" by (intro usub_gt) auto
    then show ?thesis by simp
  qed
  then show ?thesis by (simp add: decimal_digit_def Let_def)
qed

lemma fold_filter_decimal:
  "fold (\<lambda>c ds. case decimal_digit c of None \<Rightarrow> ds | Some t \<Rightarrow> conv_step 256 10 ds t) s ds
    = fold (\<lambda>c ds. case decimal_digit c of None \<Rightarrow> ds | Some t \<Rightarrow> conv_step 256 10 ds t)
        (filter is_digit_char s) ds"
  by (induction s arbitrary: ds) (simp_all add: decimal_digit_None)

lemma mpConvFromDecimal_filter:
  assumes "s \<noteq> []" "10 ^ length (filter is_digit_char s) \<le> (256 :: nat) ^ decimal_bytes (length s)"
  shows "digits_val (mpConvFromDecimal ((length s div 2 + 8) div 8) s)
    = parse_digits 10 (filter is_digit_char s)"
proof -
  let ?z = "replicate (decimal_bytes (length s)) 0" and ?s = "filter is_digit_char s"
  define ts where "ts = map (\<lambda>c. of_char c - 48 :: nat) ?s"
  have dec: "\<forall>c\<in>set ?s. 48 \<le> (of_char c :: nat) \<and> (of_char c :: nat) \<le> 57"
    by (auto simp: is_digit_char_def)
  define nd where "nd = fold (\<lambda>t ds. conv_step 256 10 ds t) ts ?z"
  have "\<forall>d\<in>set (rev ts). d < 10" using dec by (auto simp: ts_def)
  then have "pos_val 10 (rev ts) < 10 ^ length ?s" using pos_val_less[of "rev ts" 10] by (simp add: ts_def)
  then have "pos_val 10 (rev ts) < 256 ^ decimal_bytes (length s)" using assms(2) by linarith
  then have nd: "pos_val 256 nd = foldl (\<lambda>n t. n * 10 + t) 0 ts" "\<forall>d\<in>set nd. d < 256"
    "length nd = decimal_bytes (length s)"
    using fold_conv_step[of 256 10 ?z ts] by (simp_all add: nd_def foldl_horner)
  have "digits_val (octets_digits ((length s div 2 + 8) div 8) nd) = int (pos_val 256 nd)"
    using nd(2,3) decimal_bytes_le[of "length s"] by (intro octets_digits_val) auto
  also have "\<dots> = parse_digits 10 ?s"
    using parse_decimal[OF dec, of 0] by (simp add: nd(1) ts_def parse_digits_def)
  finally show ?thesis
    using assms(1) by (simp add: mpConvFromDecimal_def Let_def fold_filter_decimal[of s]
        fold_decimal[OF dec] nd_def ts_def mpConvFromOctets_def)
qed

lemma filter_decimal: "is_decimal s \<Longrightarrow> filter is_digit_char s = s"
  by (simp add: is_decimal_def is_digit_char_def)

lemma mpConvFromDecimal_spec:
  assumes "is_decimal s" "10 ^ length s \<le> (256 :: nat) ^ decimal_bytes (length s)"
  shows "digits_val (mpConvFromDecimal ((length s div 2 + 8) div 8) s) = parse_digits 10 s"
  using mpConvFromDecimal_filter[of s] assms filter_decimal[OF assms(1)] by (simp add: is_decimal_def)

text \<open>The array of octets is too short by a fraction of its length, which first shows at 1811
  decimal digits.\<close>

lemma decimal_bytes_enough: "n \<le> 64 \<Longrightarrow> (10 :: nat) ^ n \<le> 256 ^ decimal_bytes n"
proof -
  assume "n \<le> 64"
  then have "n \<in> set [0..<65]" by simp
  moreover have "\<forall>n\<in>set [0..<65]. (10 :: nat) ^ n \<le> 256 ^ decimal_bytes n"
    by (simp add: decimal_bytes_def upt_conv_Cons)
  ultimately show ?thesis by blast
qed

lemma mpConvFromDecimal_small:
  assumes "is_decimal s"
  shows "digits_val (mpConvFromDecimal ((length s div 2 + 8) div 8) s) < 256 ^ decimal_bytes (length s)"
proof -
  let ?z = "replicate (decimal_bytes (length s)) (0 :: nat)"
  have dec: "\<forall>c\<in>set s. 48 \<le> (of_char c :: nat) \<and> (of_char c :: nat) \<le> 57" "s \<noteq> []"
    using assms by (auto simp: is_decimal_def)
  define nd where "nd = fold (\<lambda>t ds. conv_step 256 10 ds t) (map (\<lambda>c. of_char c - 48) s) ?z"
  have nd: "length nd = decimal_bytes (length s)" "\<forall>d\<in>set nd. d < 256"
    using conv_bytes[of "map (\<lambda>c. of_char c - 48) s" ?z] by (simp_all add: nd_def)
  have "digits_val (octets_digits ((length s div 2 + 8) div 8) nd) = int (pos_val 256 nd)"
    using nd decimal_bytes_le[of "length s"] by (intro octets_digits_val) auto
  moreover have "pos_val 256 nd < 256 ^ decimal_bytes (length s)" using pos_val_less[OF nd(2)] nd(1) by simp
  then have "int (pos_val 256 nd) < int (256 ^ decimal_bytes (length s))" by (simp only: of_nat_less_iff)
  ultimately show ?thesis
    using dec(2) by (simp add: mpConvFromDecimal_def Let_def fold_decimal[OF dec(1)] nd_def
        mpConvFromOctets_def)
qed

lemma parse_nines: "parse_digits 10 (replicate n (CHR ''9'')) = 10 ^ n - 1"
proof (induction n)
  case (Suc n)
  have "digit_value (CHR ''9'') = 9" by code_simp
  moreover have "replicate (Suc n) (CHR ''9'') = replicate n (CHR ''9'') @ [CHR ''9'']"
    by (simp add: replicate_append_same)
  ultimately show ?case using Suc by (simp only: parse_digits_snoc) simp
qed (simp add: parse_digits_def)

lemma power5_1811: "2 ^ 4205 < (5 :: nat) ^ 1811"
proof -
  define bs where "bs = [True, True, False, False, True, False, False, False, True, True, True]"
  have v: "bits_value bs = 1811" by (simp add: bs_def)
  have "power5_bound bs = (39002793794643092185106826, 4120)"
    by (simp add: bs_def trunc_mantissa.simps)
  from power5_bound[OF this] have "39002793794643092185106826 * 2 ^ 4120 \<le> (5 :: nat) ^ 1811"
    by (simp only: v)
  moreover have "(2 :: nat) ^ 4205 < 39002793794643092185106826 * 2 ^ 4120"
  proof -
    have "(2 :: nat) ^ 4205 = 2 ^ 85 * 2 ^ 4120" unfolding power_add[symmetric] by (simp only: arith_simps)
    also have "\<dots> < 39002793794643092185106826 * 2 ^ 4120" by (rule mult_strict_right_mono) simp_all
    finally show ?thesis .
  qed
  ultimately show ?thesis by (rule less_le_trans[rotated])
qed

lemma bytes_1811: "(256 :: int) ^ decimal_bytes 1811 < 10 ^ 1811"
proof -
  have gen: "(256 :: int) ^ k < 10 ^ n" if "2 ^ m < (5 :: nat) ^ n" "8 * k = m + n" for k m n
  proof -
    have "(256 :: nat) ^ k = 2 ^ (8 * k)" by (simp add: power_mult)
    also have "\<dots> = 2 ^ m * 2 ^ n" unfolding that(2) by (rule power_add)
    also have "\<dots> < 5 ^ n * 2 ^ n" using that(1) by simp
    also have "\<dots> = 10 ^ n" by (simp flip: power_mult_distrib)
    finally have "int (256 ^ k) < int (10 ^ n)" by (simp only: of_nat_less_iff)
    then show ?thesis by simp
  qed
  have "decimal_bytes 1811 = 752" by (simp add: decimal_bytes_def)
  then show ?thesis by (simp only:) (rule gen[OF power5_1811], simp)
qed

end
