(* ===== verification/Bigd.thy ===== *)
theory Bigd
  imports BigConvert
begin

text \<open>
  \<^verbatim>\<open>BigDigits/bigd.c\<close>: numbers that grow. A \<^verbatim>\<open>BIGD\<close> is the list of its \<^verbatim>\<open>ndigits\<close> digits, with
  or without leading zeros; the room above them, which \<^verbatim>\<open>bd_resize\<close> adds and clears, is the
  padding of an operand. An operation returns the new value of the number it writes, paired with
  the carry or borrow where the code returns one; the result 0 of the others is left out. The
  interface \<open>magnitude\<close> is what the signed integers of the interpreter ask of these numbers.
\<close>

section \<open>The operations\<close>

type_synonym bigd = "digit list"

definition bdNew :: bigd where "bdNew = []"

definition bd_resize :: "bigd \<Rightarrow> nat \<Rightarrow> digit list" where
  "bd_resize b newsize =
     (if newsize < length b then take newsize b else b @ replicate (newsize - length b) 0)"

text \<open>\<^verbatim>\<open>b->ndigits = mpSizeof(b->digits, n)\<close>, at the end of most functions.\<close>

definition bd_trim :: "digit list \<Rightarrow> bigd" where
  "bd_trim w = take (mpSizeof w (length w)) w"

definition bdConvFromDecimal :: "string \<Rightarrow> bigd" where
  "bdConvFromDecimal s = mpConvFromDecimal ((length s div 2 + 8) div 8) s"

definition bdConvToDecimal_size :: "bigd \<Rightarrow> nat" where
  "bdConvToDecimal_size b = mpConvToDecimal_size b"

definition bdConvToDecimal :: "bigd \<Rightarrow> nat \<Rightarrow> string" where
  "bdConvToDecimal b smax = mpConvToDecimal b smax"

definition bdSetShort :: "digit \<Rightarrow> bigd" where
  "bdSetShort value = (if value \<noteq> 0 then [value] else [])"

definition bdSizeof :: "bigd \<Rightarrow> nat" where
  "bdSizeof b = mpSizeof b (length b)"

definition bdIsZero :: "bigd \<Rightarrow> bool" where
  "bdIsZero a = mpIsZero a"

definition bdIsEqual :: "bigd \<Rightarrow> bigd \<Rightarrow> bool" where
  "bdIsEqual a b =
     (let na = mpSizeof a (length a); nb = mpSizeof b (length b)
      in if na \<noteq> nb then False
         else if na = 0 \<and> nb = 0 then True
         else \<forall>n<na. a ! n = b ! n)"

definition bdCompare :: "bigd \<Rightarrow> bigd \<Rightarrow> int" where
  "bdCompare a b =
     (if length a \<noteq> length b then
        let na = mpSizeof a (length a); nb = mpSizeof b (length b)
        in if na > nb then 1 else if na < nb then - 1 else mpCompare a b na
      else mpCompare a b (length a))"

definition bdSetEqual :: "bigd \<Rightarrow> bigd \<Rightarrow> bigd" where
  "bdSetEqual a b = bd_resize b (length b)"

definition bdShortAdd :: "bigd \<Rightarrow> digit \<Rightarrow> bigd \<times> digit" where
  "bdShortAdd u d =
     (let dig_size = max (length u) 1;
          (w, carry) = mpShortAdd (bd_resize u dig_size) d
      in if carry \<noteq> 0 then (w @ [carry], carry) else (w, carry))"

definition bdAdd :: "bigd \<Rightarrow> bigd \<Rightarrow> bigd \<times> digit" where
  "bdAdd u v =
     (if length v = 1 then bdShortAdd u (v ! 0)
      else let dig_size = max (length u) (length v);
               (w, carry) = mpAdd (bd_resize u dig_size) (bd_resize v dig_size)
           in if carry \<noteq> 0 then (w @ [carry], carry) else (bd_trim w, carry))"

definition bdShortSub :: "bigd \<Rightarrow> digit \<Rightarrow> bigd \<times> digit" where
  "bdShortSub u d =
     (let dig_size = max (length u) 1 in mpShortSub (bd_resize u dig_size) d)"

definition bdSubtract :: "bigd \<Rightarrow> bigd \<Rightarrow> bigd \<times> digit" where
  "bdSubtract u v =
     (if length v = 1 then bdShortSub u (v ! 0)
      else let dig_size = max (length u) (length v);
               (w, borrow) = mpSubtract (bd_resize u dig_size) (bd_resize v dig_size)
           in (bd_trim w, borrow))"

definition bdIncrement :: "bigd \<Rightarrow> bigd \<times> digit" where
  "bdIncrement a = bdShortAdd a 1"

definition bdDecrement :: "bigd \<Rightarrow> bigd \<times> digit" where
  "bdDecrement a = bdShortSub a 1"

definition bdShortMult :: "bigd \<Rightarrow> digit \<Rightarrow> bigd" where
  "bdShortMult u d =
     (let (w, overflow) = mpShortMult u d
      in if overflow \<noteq> 0 then w @ [overflow] else bd_trim w)"

definition bdMultiply :: "bigd \<Rightarrow> bigd \<Rightarrow> bigd" where
  "bdMultiply u v =
     (if length v = 1 then bdShortMult u (v ! 0)
      else let dig_size = max (length u) (length v)
           in bd_trim (mpMultiply (bd_resize u dig_size) (bd_resize v dig_size)))"

definition bdMultiply_s :: "bigd \<Rightarrow> bigd \<Rightarrow> bigd" where
  "bdMultiply_s u v = (let ww = bdMultiply u v in bdSetEqual bdNew ww)"

definition bdShortDiv :: "bigd \<Rightarrow> digit \<Rightarrow> bigd \<times> bigd" where
  "bdShortDiv u d =
     (let dig_size = length u;
          (q, rem) = mpShortDiv (replicate dig_size 0) u d
      in (bd_trim q, bdSetShort rem))"

definition bdDivide :: "bigd \<Rightarrow> bigd \<Rightarrow> bigd \<times> bigd" where
  "bdDivide u v =
     (let (ret, q, r, v') = mpDivide u v in (bd_trim q, bd_trim r))"

definition bdShiftLeft :: "bigd \<Rightarrow> nat \<Rightarrow> bigd res" where
  "bdShiftLeft b s =
     (let dig_size = (if s \<ge> 64 then length b + s div 64 else length b) + 1
      in res_bind (mpShiftLeft (bd_resize b dig_size) s) (\<lambda>(a, carry). Inr (bd_trim a)))"

definition bdShiftRight :: "bigd \<Rightarrow> nat \<Rightarrow> bigd res" where
  "bdShiftRight b n = res_bind (mpShiftRight b n) (\<lambda>(a, carry). Inr (bd_trim a))"

definition bdXorBits :: "bigd \<Rightarrow> bigd \<Rightarrow> bigd" where
  "bdXorBits b c =
     (let n = max (length b) (length c) in bd_trim (mpXorBits (bd_resize b n) (bd_resize c n)))"

definition bdOrBits :: "bigd \<Rightarrow> bigd \<Rightarrow> bigd" where
  "bdOrBits b c =
     (let n = max (length b) (length c) in bd_trim (mpOrBits (bd_resize b n) (bd_resize c n)))"

definition bdAndBits :: "bigd \<Rightarrow> bigd \<Rightarrow> bigd" where
  "bdAndBits b c =
     (let n = max (length b) (length c) in bd_trim (mpAndBits (bd_resize b n) (bd_resize c n)))"

section \<open>Values of the results\<close>

lemma bd_resize_val [simp]: "length b \<le> n \<Longrightarrow> digits_val (bd_resize b n) = digits_val b"
  by (simp add: bd_resize_def digits_val_append)

lemma length_bd_resize [simp]: "length (bd_resize b n) = n"
  by (simp add: bd_resize_def)

lemma bd_resize_self [simp]: "bd_resize b (length b) = b"
  by (simp add: bd_resize_def)

lemma bd_trim_val [simp]: "digits_val (bd_trim w) = digits_val w"
  using mpSizeof_val[of "length w" w] by (simp add: bd_trim_def)

lemma bd_trim_top: "bd_trim w \<noteq> [] \<Longrightarrow> last (bd_trim w) \<noteq> 0"
proof -
  let ?n = "mpSizeof w (length w)"
  assume ne: "bd_trim w \<noteq> []"
  then have n: "0 < ?n" by (cases ?n) (auto simp: bd_trim_def)
  have "last (take ?n w) = w ! (?n - 1)"
    using n mpSizeof_le[of w "length w"] ne by (simp add: last_conv_nth bd_trim_def min_absorb2)
  then show ?thesis using mpSizeof_top[OF n] by (simp add: bd_trim_def)
qed

lemma length_bd_trim: "length (bd_trim w) \<le> length w"
  by (simp add: bd_trim_def)

lemma single_val: "length v = 1 \<Longrightarrow> digits_val v = uint (v ! 0)"
  by (cases v) auto

lemma bdSetShort_val [simp]: "digits_val (bdSetShort d) = uint d"
  by (simp add: bdSetShort_def)

lemma bdNew_val [simp]: "digits_val bdNew = 0"
  by (simp add: bdNew_def)

lemma bdSetEqual_eq [simp]: "bdSetEqual a b = b"
  by (simp add: bdSetEqual_def)

lemma bdIsZero_val: "bdIsZero a \<longleftrightarrow> digits_val a = 0"
  by (simp add: bdIsZero_def mpIsZero_spec)

lemma bdShortAdd_val: "digits_val (fst (bdShortAdd u d)) = digits_val u + uint d"
proof -
  define u' where u': "u' = bd_resize u (max (length u) 1)"
  obtain w c where r: "mpShortAdd u' d = (w, c)" by fastforce
  have "digits_val u' = digits_val u" by (simp add: u')
  then show ?thesis using mpShortAdd_spec[OF r]
    by (auto simp: bdShortAdd_def u'[symmetric] r Let_def digits_val_append simp del: One_nat_def)
qed

lemma bdAdd_val: "digits_val (fst (bdAdd u v)) = digits_val u + digits_val v"
proof (cases "length v = 1")
  case True
  then show ?thesis by (simp add: bdAdd_def bdShortAdd_val single_val)
next
  case False
  let ?n = "max (length u) (length v)"
  obtain w c where r: "mpAdd (bd_resize u ?n) (bd_resize v ?n) = (w, c)" by fastforce
  show ?thesis using False mpAdd_spec[OF _ r]
    by (auto simp: bdAdd_def r Let_def digits_val_append)
qed

lemma bdIncrement_val [simp]: "digits_val (fst (bdIncrement a)) = digits_val a + 1"
  by (simp add: bdIncrement_def bdShortAdd_val)

text \<open>A subtraction borrows exactly when its result would be negative.\<close>

lemma borrow_zero:
  assumes "x - base ^ n * b = y" "0 \<le> y" "0 \<le> b" "x < base ^ n"
  shows "b = (0 :: int)"
proof (rule ccontr)
  assume "b \<noteq> 0"
  then have "base ^ n * 1 \<le> base ^ n * b" using assms(3) by (intro mult_left_mono) auto
  then show False using assms by linarith
qed

lemma bdShortSub_val:
  assumes "uint d \<le> digits_val u"
  shows "digits_val (fst (bdShortSub u d)) = digits_val u - uint d \<and> snd (bdShortSub u d) = 0"
proof -
  define u' where u': "u' = bd_resize u (max (length u) 1)"
  obtain w c where r: "mpShortSub u' d = (w, c)" by fastforce
  note s = mpShortSub_spec[OF r]
  have v: "digits_val u' = digits_val u" by (simp add: u')
  have "digits_val w < base ^ length u'" using digits_val_less[of w] s by simp
  then have "uint c = 0"
    using s assms v by (intro borrow_zero[of "digits_val w" "length u'" _ "digits_val u - uint d"]) auto
  then show ?thesis using s v
    by (simp add: bdShortSub_def u'[symmetric] r Let_def uint_0_iff del: One_nat_def)
qed

lemma bdSubtract_val:
  assumes "digits_val v \<le> digits_val u"
  shows "digits_val (fst (bdSubtract u v)) = digits_val u - digits_val v \<and> snd (bdSubtract u v) = 0"
proof (cases "length v = 1")
  case True
  then show ?thesis using assms by (simp add: bdSubtract_def bdShortSub_val single_val)
next
  case False
  let ?n = "max (length u) (length v)"
  obtain w c where r: "mpSubtract (bd_resize u ?n) (bd_resize v ?n) = (w, c)" by fastforce
  note s = mpSubtract_spec[OF _ r, simplified]
  have "digits_val w < base ^ ?n" using digits_val_less[of w] s(2) by simp
  then have "uint c = 0"
    using s assms by (intro borrow_zero[of "digits_val w" ?n _ "digits_val u - digits_val v"]) auto
  then show ?thesis using False s(1) by (simp add: bdSubtract_def r Let_def uint_0_iff)
qed

lemma bdShortMult_val: "digits_val (bdShortMult u d) = digits_val u * uint d"
proof -
  obtain w c where r: "mpShortMult u d = (w, c)" by fastforce
  show ?thesis using mpShortMult_spec[OF r]
    by (auto simp: bdShortMult_def r Let_def digits_val_append)
qed

lemma bdMultiply_val: "digits_val (bdMultiply u v) = digits_val u * digits_val v"
  by (cases "length v = 1") (simp_all add: bdMultiply_def bdShortMult_val single_val Let_def mpMultiply_spec)

lemma bdMultiply_s_val [simp]: "digits_val (bdMultiply_s u v) = digits_val u * digits_val v"
  by (simp add: bdMultiply_s_def Let_def bdMultiply_val)

lemma bdDivide_val:
  assumes "digits_val v \<noteq> 0"
  shows "digits_val (fst (bdDivide u v)) = digits_val u div digits_val v"
    "digits_val (snd (bdDivide u v)) = digits_val u mod digits_val v"
proof -
  obtain ret q r v' where d: "mpDivide u v = (ret, q, r, v')" by (metis prod_cases4)
  show "digits_val (fst (bdDivide u v)) = digits_val u div digits_val v"
    "digits_val (snd (bdDivide u v)) = digits_val u mod digits_val v"
    using mpDivide_spec[OF assms d] by (simp_all add: bdDivide_def d)
qed

lemma bdShortDiv_val:
  assumes "d \<noteq> 0"
  shows "digits_val (fst (bdShortDiv u d)) = digits_val u div uint d"
    "digits_val (snd (bdShortDiv u d)) = digits_val u mod uint d"
proof -
  obtain q r where s: "mpShortDiv (replicate (length u) 0) u d = (q, r)" by fastforce
  show "digits_val (fst (bdShortDiv u d)) = digits_val u div uint d"
    "digits_val (snd (bdShortDiv u d)) = digits_val u mod uint d"
    using mpShortDiv_spec[OF assms _ s] by (simp_all add: bdShortDiv_def s)
qed

lemma bdBits_val:
  "digits_val (bdXorBits b c) = digits_val b XOR digits_val c"
  "digits_val (bdOrBits b c) = (digits_val b OR digits_val c)"
  "digits_val (bdAndBits b c) = digits_val b AND digits_val c"
  by (simp_all add: bdXorBits_def bdOrBits_def bdAndBits_def Let_def mpBits_spec)

lemma bdShiftLeft_val:
  assumes "length b + s div 64 + 1 < 2 ^ 64"
  shows "\<exists>a. bdShiftLeft b s = Inr a \<and> digits_val a = 2 ^ s * digits_val b"
proof -
  define n where n: "n = (if s \<ge> 64 then length b + s div 64 else length b) + 1"
  have r: "bd_resize b n = b @ replicate (s div 64 + 1) 0" by (auto simp: n bd_resize_def)
  obtain a c where "mpShiftLeft (bd_resize b n) s = Inr (a, c)" "digits_val a = 2 ^ s * digits_val b"
    using mpShiftLeft_spec[OF r, of s] assms by (auto simp: r)
  then show ?thesis unfolding bdShiftLeft_def n[symmetric] Let_def by simp
qed

lemma bdShiftRight_val:
  assumes "n < 64 \<or> n div 64 \<le> length b"
  shows "\<exists>a. bdShiftRight b n = Inr a \<and> digits_val a = digits_val b div 2 ^ n"
  using mpShiftRight_spec[OF assms] by (auto simp: bdShiftRight_def)

text \<open>Shifting a number out completely, by a digit or more beyond its length, makes the code read
  a digit above the number for a carry that nobody uses.\<close>

lemma bdShiftRight_overruns: "length b < n div 64 \<Longrightarrow> bdShiftRight b n = Inl MemFault"
  by (simp add: bdShiftRight_def mpShiftRight_overruns)

lemma digits_val_trimmed:
  assumes "length a < length b" "last b \<noteq> 0"
  shows "digits_val a < digits_val b"
proof -
  obtain k where k: "length b = Suc k" using assms(1) by (cases "length b") auto
  then have b: "b = butlast b @ [last b]" by (cases b) auto
  have "uint (last b) \<noteq> 0" using assms(2) by (simp add: uint_0_iff)
  then have "1 \<le> uint (last b)" using uint_ge_0[of "last b"] by linarith
  then have "base ^ k * 1 \<le> base ^ k * uint (last b)" by (intro mult_left_mono) auto
  moreover have "digits_val b = digits_val (butlast b) + base ^ k * uint (last b)"
    using k by (subst b) (simp add: digits_val_append del: append_butlast_last_id)
  moreover have "digits_val a < base ^ k"
    using digits_val_less[of a] power_increasing[of "length a" k base] assms(1) k
    by (metis base_pos(5) less_Suc_eq_le order_less_le_trans)
  ultimately show ?thesis using digits_val_nonneg[of "butlast b"] by linarith
qed

lemma mpSizeof_trim: "length (bd_trim w) = mpSizeof w (length w)"
  using mpSizeof_le[of w "length w"] by (simp add: bd_trim_def)

lemma bdCompare_val: "bdCompare a b = sgn (digits_val a - digits_val b)"
proof (cases "length a = length b")
  case True
  then show ?thesis using mpCompare_spec[of "length a" a b] by (simp add: bdCompare_def)
next
  case False
  let ?a = "bd_trim a" and ?b = "bd_trim b"
  have less: "digits_val x < digits_val y" if "length (bd_trim x) < length (bd_trim y)" for x y
    using digits_val_trimmed[OF that] bd_trim_top[of y] that by (cases "bd_trim y = []") simp_all
  have n: "bdCompare a b = (if length ?a > length ?b then 1 else if length ?a < length ?b then - 1
      else mpCompare a b (length ?a))"
    using False by (simp add: bdCompare_def Let_def mpSizeof_trim)
  consider "length ?a < length ?b" | "length ?b < length ?a" | "length ?a = length ?b" by linarith
  then show ?thesis
  proof cases
    case 3
    have "take (length ?a) a = ?a" "take (length ?a) b = ?b"
      using 3 unfolding mpSizeof_trim by (simp_all add: bd_trim_def)
    then show ?thesis using n 3 mpCompare_spec[of "length ?a" a b] length_bd_trim[of a] length_bd_trim[of b]
      by simp
  qed (use n less[of a b] less[of b a] in auto)
qed

section \<open>The interface: magnitudes and signs\<close>

text \<open>What sign and magnitude arithmetic needs: exact sums, exact differences without borrow when
  they are not negative, and a comparison.\<close>

locale magnitude =
  fixes mval :: "'m \<Rightarrow> int"
    and madd :: "'m \<Rightarrow> 'm \<Rightarrow> 'm \<times> digit"
    and msub :: "'m \<Rightarrow> 'm \<Rightarrow> 'm \<times> digit"
    and mcmp :: "'m \<Rightarrow> 'm \<Rightarrow> int"
  assumes mval_nonneg: "0 \<le> mval a"
    and madd_val: "mval (fst (madd a b)) = mval a + mval b"
    and msub_val: "mval b \<le> mval a \<Longrightarrow> mval (fst (msub a b)) = mval a - mval b"
    and msub_borrow: "mval b \<le> mval a \<Longrightarrow> snd (msub a b) = 0"
    and mcmp_val: "mcmp a b = sgn (mval a - mval b)"
begin

lemma mcmp_less: "mcmp a b < 0 \<longleftrightarrow> mval a < mval b"
  by (simp add: mcmp_val)

lemma mcmp_eq: "mcmp a b = 0 \<longleftrightarrow> mval a = mval b"
  by (simp add: mcmp_val sgn_0_0)

text \<open>The sum of two signed numbers: the sum of the magnitudes under a common sign, otherwise the
  smaller from the larger under the sign of the larger.\<close>

lemma same_sign_sum: "s * mval (fst (madd a b)) = s * mval a + s * mval b"
  by (simp add: madd_val distrib_left)

lemma opposite_sum_less:
  assumes "mcmp a b < 0"
  shows "- mval (fst (msub b a)) = mval a - mval b \<and> snd (msub b a) = 0"
  using assms msub_val[of a b] msub_borrow[of a b] by (simp add: mcmp_less)

lemma opposite_sum_ge:
  assumes "\<not> mcmp a b < 0"
  shows "mval (fst (msub a b)) = mval a - mval b \<and> snd (msub a b) = 0"
  using assms msub_val[of b a] msub_borrow[of b a] by (simp add: mcmp_less)

text \<open>The order of two signed numbers, of which a negative one is not zero: that of the signs, then
  that of the magnitudes, turned around under a negative sign.\<close>

lemma signed_order:
  assumes "s = 1 \<or> s = - 1" "t = 1 \<or> t = - 1" "s = - 1 \<Longrightarrow> mval a \<noteq> 0" "t = - 1 \<Longrightarrow> mval b \<noteq> 0"
  shows "sgn (s * mval a - t * mval b) = (if s < t then - 1 else if t < s then 1 else s * mcmp a b)"
  using assms mval_nonneg[of a] mval_nonneg[of b] by (auto simp: mcmp_val sgn_if)

end

interpretation bd: magnitude digits_val bdAdd bdSubtract bdCompare
  by unfold_locales (simp_all add: bdAdd_val bdSubtract_val bdCompare_val)

section \<open>Properties\<close>

text \<open>C8: the multiple precision division (Knuth's algorithm D with its estimated quotient digits and
  corrections) returns, for every dividend and every divisor that is not zero, the floor of the
  quotient and the remainder.\<close>

theorem bigd_division_exact:
  assumes "digits_val v \<noteq> 0"
  shows "digits_val (fst (bdDivide u v)) = digits_val u div digits_val v
    \<and> digits_val (snd (bdDivide u v)) = digits_val u mod digits_val v"
  using bdDivide_val[OF assms] by blast

theorem bigd_division_exact_witness:
  "digits_val (fst (bdDivide [0, 0, 1] [- 1, 1])) = digits_val [0, 0, 1] div digits_val [- 1, 1]
    \<and> digits_val (snd (bdDivide [0, 0, 1] [- 1, 1])) = digits_val [0, 0, 1] mod digits_val [- 1, 1]"
  by (rule bigd_division_exact) (simp add: base_def uint_max)

text \<open>C34: the sum, the product and the difference of two numbers of any lengths are exact, the
  difference when it is not negative, and then it leaves no borrow.\<close>

theorem bigd_ring_exact:
  assumes "digits_val v \<le> digits_val u"
  shows "digits_val (fst (bdAdd u v)) = digits_val u + digits_val v
    \<and> digits_val (bdMultiply u v) = digits_val u * digits_val v
    \<and> bdSubtract u v = (fst (bdSubtract u v), 0)
    \<and> digits_val (fst (bdSubtract u v)) = digits_val u - digits_val v"
  using bdAdd_val[of u v] bdMultiply_val[of u v] bdSubtract_val[OF assms] by (simp add: prod_eq_iff)

theorem bigd_ring_exact_witness:
  "digits_val (fst (bdAdd [0, 0, 1] [- 1, 7])) = digits_val [0, 0, 1] + digits_val [- 1, 7]
    \<and> digits_val (bdMultiply [0, 0, 1] [- 1, 7]) = digits_val [0, 0, 1] * digits_val [- 1, 7]
    \<and> bdSubtract [0, 0, 1] [- 1, 7] = (fst (bdSubtract [0, 0, 1] [- 1, 7]), 0)
    \<and> digits_val (fst (bdSubtract [0, 0, 1] [- 1, 7])) = digits_val [0, 0, 1] - digits_val [- 1, 7]"
  by (rule bigd_ring_exact) (simp add: base_def uint_max)

text \<open>The decimal string of a number of any length is the exact one, and it fits the buffer of the
  size that the code computes for it.\<close>

lemma bigd_to_decimal_exact:
  "bdConvToDecimal b (bdConvToDecimal_size b + 1) = digits 10 (digits_val b)"
  by (simp add: bdConvToDecimal_def bdConvToDecimal_size_def mpConvToDecimal_spec)

text \<open>A decimal string of at most 64 digits is read exactly, but the buffer of octets is computed with
  a rounded logarithm and is too short for long ones: 1811 nines lose their leading bits.\<close>

lemma bigd_from_decimal_truncates:
  assumes "is_decimal s" "length s \<le> 64"
  shows "digits_val (bdConvFromDecimal s) = parse_digits 10 s
    \<and> digits_val (bdConvFromDecimal (replicate 1811 (CHR ''9''))) \<noteq> parse_digits 10 (replicate 1811 (CHR ''9''))"
proof
  show "digits_val (bdConvFromDecimal s) = parse_digits 10 s"
    unfolding bdConvFromDecimal_def by (intro mpConvFromDecimal_spec decimal_bytes_enough assms)
  let ?s = "replicate 1811 (CHR ''9'')"
  have "is_decimal ?s" by (simp add: is_decimal_def)
  from mpConvFromDecimal_small[OF this]
  have "digits_val (bdConvFromDecimal ?s) < 256 ^ decimal_bytes 1811"
    by (simp only: bdConvFromDecimal_def length_replicate)
  also have "\<dots> < 10 ^ 1811" by (rule bytes_1811)
  finally have "digits_val (bdConvFromDecimal ?s) < 10 ^ 1811" .
  moreover have "digits_val (bdConvFromDecimal ?s) + 1 \<noteq> 10 ^ 1811"
    using \<open>digits_val (bdConvFromDecimal ?s) < 256 ^ decimal_bytes 1811\<close> bytes_1811 by linarith
  ultimately show "digits_val (bdConvFromDecimal ?s) \<noteq> parse_digits 10 ?s"
    unfolding parse_nines by linarith
qed

lemma bigd_from_decimal_truncates_instance:
  "digits_val (bdConvFromDecimal ''18446744073709551616'') = parse_digits 10 ''18446744073709551616''
    \<and> digits_val (bdConvFromDecimal (replicate 1811 (CHR ''9''))) \<noteq> parse_digits 10 (replicate 1811 (CHR ''9''))"
  by (rule bigd_from_decimal_truncates) (simp_all add: is_decimal_def)

end
