(* ===== verification/YogBignum.thy ===== *)
theory YogBignum
  imports Bigd YogComparable YogString
begin

text \<open>
  \<^verbatim>\<open>src/bignum.c\<close>: integers outside the Fixnum range, a sign over a magnitude of \<^verbatim>\<open>bigd.c\<close>. One
  definition per C function, branches in its order. An operand and a result is a value whose
  objects are a double, a Bignum or something else (\<open>operand\<close> of \<open>YogFixnum\<close> with \<open>yog_bignum\<close> as
  the Bignum). \<^verbatim>\<open>libc\<close>'s conversions between integers and decimal strings are \<open>snprintf_dec\<close>,
  \<open>c_strtol\<close> and \<open>c_strtoul\<close>.
\<close>

section \<open>The object\<close>

record yog_bignum =
  BIGNUM_SIGN :: int
  BIGNUM_NUM :: bigd

type_synonym ('f, 's) yog_number = "('f, yog_bignum, 's) operand"

definition bignum_val :: "yog_bignum \<Rightarrow> int" where
  "bignum_val b = BIGNUM_SIGN b * digits_val (BIGNUM_NUM b)"

definition YogBignum_new :: yog_bignum where
  "YogBignum_new = \<lparr>BIGNUM_SIGN = 1, BIGNUM_NUM = bdNew\<rparr>"

definition zod :: "'a \<times> digit \<Rightarrow> 'a res" where
  "zod r = (if snd r \<noteq> 0 then Inl (YogBug ''%s failed.'') else Inr (fst r))"

section \<open>Decimal strings\<close>

definition compute_needed_size :: "yog_bignum \<Rightarrow> nat" where
  "compute_needed_size n =
     (let size_for_sign = (if 0 < BIGNUM_SIGN n then 0 else 1)
      in size_for_sign + bdConvToDecimal_size (BIGNUM_NUM n) + 1)"

definition conv_to_decimal :: "yog_bignum \<Rightarrow> nat \<Rightarrow> string" where
  "conv_to_decimal n bytes =
     (if BIGNUM_SIGN n < 0 then CHR ''-'' # bdConvToDecimal (BIGNUM_NUM n) (bytes - 1)
      else bdConvToDecimal (BIGNUM_NUM n) bytes)"

definition CONV_TO_DECIMAL :: "yog_bignum \<Rightarrow> string" where
  "CONV_TO_DECIMAL src = conv_to_decimal src (compute_needed_size src)"

definition YogBignum_to_s :: "yog_bignum \<Rightarrow> ystring res" where
  "YogBignum_to_s self = YogString_from_string (ascii_bytes (CONV_TO_DECIMAL self))"

text \<open>\<^verbatim>\<open>strtol\<close> and \<^verbatim>\<open>strtoul\<close> on a decimal string: out of range they saturate, and \<^verbatim>\<open>strtoul\<close>
  negates what follows a minus sign as an unsigned number.\<close>

definition c_strtol :: "string \<Rightarrow> int" where
  "c_strtol s = max SIGNED_MIN (min SIGNED_MAX (parse_int 10 s))"

definition c_strtoul :: "string \<Rightarrow> int" where
  "c_strtoul s =
     (let n = parse_int 10 s
      in if \<bar>n\<bar> > int UNSIGNED_MAX then int UNSIGNED_MAX else n mod 2 ^ 64)"

text \<open>\<^verbatim>\<open>snprintf\<close> of an integer in decimal into a buffer of 21 bytes.\<close>

definition snprintf_dec :: "int \<Rightarrow> string" where
  "snprintf_dec n = take 20 ((if n < 0 then ''-'' else '''') @ digits 10 \<bar>n\<bar>)"

section \<open>From C integers and strings\<close>

definition YogBignum_from_int :: "int \<Rightarrow> yog_bignum" where
  "YogBignum_from_int n =
     (let bignum = YogBignum_new
      in if n < 0 then
           bignum\<lparr>BIGNUM_NUM := bdSetShort (word_of_int (iwrap (- n))), BIGNUM_SIGN := - 1\<rparr>
         else bignum\<lparr>BIGNUM_NUM := bdSetShort (word_of_int n)\<rparr>)"

definition YogBignum_from_unsigned_int :: "nat \<Rightarrow> yog_bignum" where
  "YogBignum_from_unsigned_int n = YogBignum_new\<lparr>BIGNUM_NUM := bdSetShort (of_nat n)\<rparr>"

definition YogBignum_from_long_long :: "int \<Rightarrow> yog_bignum" where
  "YogBignum_from_long_long n =
     (let buf = snprintf_dec n; bignum = YogBignum_new
      in if hd buf = CHR ''-'' then
           bignum\<lparr>BIGNUM_NUM := bdConvFromDecimal (tl buf), BIGNUM_SIGN := - 1\<rparr>
         else bignum\<lparr>BIGNUM_NUM := bdConvFromDecimal buf\<rparr>)"

definition YogBignum_from_unsigned_long_long :: "nat \<Rightarrow> yog_bignum" where
  "YogBignum_from_unsigned_long_long n =
     YogBignum_new\<lparr>BIGNUM_NUM := bdConvFromDecimal (snprintf_dec (int n))\<rparr>"

text \<open>The ASCII form of a string as the C string that the digits are read from.\<close>

definition BINARY_CSTR :: "byte list \<Rightarrow> string" where
  "BINARY_CSTR bin = map (\<lambda>b. char_of (unat b)) (takeWhile (\<lambda>b. b \<noteq> 0) bin)"

definition YogBignum_from_str :: "ystring \<Rightarrow> int \<Rightarrow> yog_bignum res" where
  "YogBignum_from_str s radix =
     (if radix \<noteq> 10 then Inl (ValueError ''Cannot accept any base but 10'')
      else res_bind (conv_from_yog create_ascii (take (s_size s) (STRING_CHARS s))) (\<lambda>(ascii, _).
        Inr (YogBignum_new\<lparr>BIGNUM_NUM := bdConvFromDecimal (BINARY_CSTR ascii)\<rparr>)))"

section \<open>Results\<close>

abbreviation big :: "yog_bignum \<Rightarrow> ('f, 's) yog_number" where
  "big b \<equiv> YPtr (OBignum b)"

definition normalize :: "yog_bignum \<Rightarrow> ('f, 's) yog_number" where
  "normalize self =
     (let buf = CONV_TO_DECIMAL self;
          n = c_strtol buf
      in if FIXABLE n then YFixnum n else big self)"

definition check_self_bignum ::
  "('f, 's) yog_number \<Rightarrow> (yog_bignum \<Rightarrow> 'a res) \<Rightarrow> 'a res" where
  "check_self_bignum self f =
     (case self of
        YPtr (OBignum b) \<Rightarrow> f b
      | _ \<Rightarrow> Inl (TypeError ''self must be Bignum''))"

section \<open>Unary operators\<close>

definition bignum_negative :: "('f, 's) yog_number \<Rightarrow> ('f, 's) yog_number res" where
  "bignum_negative self = check_self_bignum self (\<lambda>self.
     let bignum = YogBignum_new\<lparr>BIGNUM_NUM := bdSetEqual (BIGNUM_NUM YogBignum_new) (BIGNUM_NUM self)\<rparr>
     in Inr (big (bignum\<lparr>BIGNUM_SIGN := - BIGNUM_SIGN self\<rparr>)))"

definition bignum_positive :: "('f, 's) yog_number \<Rightarrow> ('f, 's) yog_number res" where
  "bignum_positive self = check_self_bignum self (\<lambda>b. Inr self)"

definition bignum_not :: "('f, 's) yog_number \<Rightarrow> ('f, 's) yog_number res" where
  "bignum_not self = check_self_bignum self (\<lambda>self.
     let retval = YogBignum_new\<lparr>BIGNUM_NUM := bdSetEqual (BIGNUM_NUM YogBignum_new) (BIGNUM_NUM self)\<rparr>;
         retval = retval\<lparr>BIGNUM_NUM := fst (bdIncrement (BIGNUM_NUM retval))\<rparr>
     in Inr (big (retval\<lparr>BIGNUM_SIGN := - BIGNUM_SIGN self\<rparr>)))"

definition bignum_to_s :: "('f, 's) yog_number \<Rightarrow> ystring res" where
  "bignum_to_s self = check_self_bignum self YogBignum_to_s"

definition bignum_hash :: "('f, 's) yog_number \<Rightarrow> ('f, 's) yog_number res" where
  "bignum_hash self = check_self_bignum self (\<lambda>self.
     res_bind (YogBignum_to_s self) (\<lambda>s.
     res_bind (YogString_hash s) (\<lambda>h. Inr (int2val h))))"

section \<open>Addition and subtraction\<close>

text \<open>\<^verbatim>\<open>add_two_bignum\<close> after the exchange of the operands that its first lines make.\<close>

definition add_ordered :: "yog_bignum \<Rightarrow> yog_bignum \<Rightarrow> ('f, 's) yog_number res" where
  "add_ordered left right =
     (let bignum = YogBignum_new
      in if BIGNUM_SIGN left = BIGNUM_SIGN right then
           Inr (big (bignum\<lparr>BIGNUM_NUM := fst (bdAdd (BIGNUM_NUM left) (BIGNUM_NUM right)),
                            BIGNUM_SIGN := BIGNUM_SIGN left\<rparr>))
         else if bdCompare (BIGNUM_NUM left) (BIGNUM_NUM right) < 0 then
           res_bind (zod (bdSubtract (BIGNUM_NUM right) (BIGNUM_NUM left))) (\<lambda>dest.
             Inr (normalize (bignum\<lparr>BIGNUM_NUM := dest, BIGNUM_SIGN := - 1\<rparr>)))
         else
           res_bind (zod (bdSubtract (BIGNUM_NUM left) (BIGNUM_NUM right))) (\<lambda>num.
             Inr (normalize (bignum\<lparr>BIGNUM_NUM := num\<rparr>))))"

definition add_two_bignum :: "yog_bignum \<Rightarrow> yog_bignum \<Rightarrow> ('f, 's) yog_number res" where
  "add_two_bignum self n =
     (if BIGNUM_SIGN self < 0 \<and> 0 < BIGNUM_SIGN n then add_ordered n self else add_ordered self n)"

definition YogBignum_binop_add ::
  "('f, yog_bignum) float_ops \<Rightarrow> yog_bignum \<Rightarrow> ('f, 's) yog_number \<Rightarrow> ('f, 's) yog_number res" where
  "YogBignum_binop_add F self right =
     (case right of
        YFixnum n \<Rightarrow> add_two_bignum self (YogBignum_from_int n)
      | YPtr (OFloat f) \<Rightarrow> Inr (YPtr (OFloat (f_add F (f_of_bignum F self) f)))
      | YPtr (OBignum b) \<Rightarrow> add_two_bignum self b
      | YUndef \<Rightarrow> Inl MemFault
      | _ \<Rightarrow> binop_type_error ''+'')"

definition bignum_copy :: "yog_bignum \<Rightarrow> yog_bignum" where
  "bignum_copy n =
     (let bignum = YogBignum_new
      in bignum\<lparr>BIGNUM_NUM := bdSetEqual (BIGNUM_NUM bignum) (BIGNUM_NUM n),
                BIGNUM_SIGN := BIGNUM_SIGN n\<rparr>)"

definition subtract_two_bignum :: "yog_bignum \<Rightarrow> yog_bignum \<Rightarrow> ('f, 's) yog_number res" where
  "subtract_two_bignum self n =
     (let m = (bignum_copy n)\<lparr>BIGNUM_SIGN := - BIGNUM_SIGN n\<rparr> in add_two_bignum self m)"

definition YogBignum_binop_subtract ::
  "('f, yog_bignum) float_ops \<Rightarrow> yog_bignum \<Rightarrow> ('f, 's) yog_number \<Rightarrow> ('f, 's) yog_number res" where
  "YogBignum_binop_subtract F self right =
     (case right of
        YFixnum n \<Rightarrow> subtract_two_bignum self (YogBignum_from_int n)
      | YPtr (OFloat f) \<Rightarrow> Inr (YPtr (OFloat (f_sub F (f_of_bignum F self) f)))
      | YPtr (OBignum b) \<Rightarrow> subtract_two_bignum self b
      | YUndef \<Rightarrow> Inl MemFault
      | _ \<Rightarrow> binop_type_error ''-'')"

section \<open>Multiplication\<close>

text \<open>The branch of two Bignums. A Fixnum on the right is sent to \<^verbatim>\<open>YogFixnum_binop_multiply\<close>,
  which makes a Bignum of it and comes back here with the operands exchanged.\<close>

definition multiply_two_bignum :: "yog_bignum \<Rightarrow> yog_bignum \<Rightarrow> yog_bignum" where
  "multiply_two_bignum self n =
     YogBignum_new\<lparr>BIGNUM_NUM := bdMultiply (BIGNUM_NUM self) (BIGNUM_NUM n)\<rparr>"

definition YogBignum_binop_multiply ::
  "('f, yog_bignum) float_ops \<Rightarrow> yog_bignum \<Rightarrow> ('f, 's) yog_number \<Rightarrow> ('f, 's) yog_number res" where
  "YogBignum_binop_multiply F self right =
     (case right of
        YFixnum n \<Rightarrow> Inr (big (multiply_two_bignum (YogBignum_from_int n) self))
      | YPtr (OFloat f) \<Rightarrow> Inr (YPtr (OFloat (f_mul F (f_of_bignum F self) f)))
      | YPtr (OBignum b) \<Rightarrow> Inr (big (multiply_two_bignum self b))
      | YUndef \<Rightarrow> Inl MemFault
      | _ \<Rightarrow> binop_type_error ''*'')"

section \<open>Division\<close>

definition bignum_divide_int ::
  "('f, yog_bignum) float_ops \<Rightarrow> yog_bignum \<Rightarrow> int \<Rightarrow> ('f, 's) yog_number res" where
  "bignum_divide_int F self right =
     (if right = 0 then Inl (ZeroDivisionError ''Bignum division by zero'')
      else Inr (YPtr (OFloat (f_div F (f_of_bignum F self) (f_of_int F right)))))"

definition bignum_divide_float ::
  "('f, yog_bignum) float_ops \<Rightarrow> yog_bignum \<Rightarrow> 'f \<Rightarrow> ('f, 's) yog_number res" where
  "bignum_divide_float F self right =
     (if f_is_zero F right then Inl (ZeroDivisionError ''Float division'')
      else Inr (YPtr (OFloat (f_div F (f_of_bignum F self) right))))"

definition divide_bignum ::
  "('f, yog_bignum) float_ops \<Rightarrow> yog_bignum \<Rightarrow> yog_bignum \<Rightarrow> ('f, 's) yog_number" where
  "divide_bignum F self bignum = YPtr (OFloat (f_div F (f_of_bignum F self) (f_of_bignum F bignum)))"

definition YogBignum_binop_divide ::
  "('f, yog_bignum) float_ops \<Rightarrow> yog_bignum \<Rightarrow> ('f, 's) yog_number \<Rightarrow> ('f, 's) yog_number res" where
  "YogBignum_binop_divide F self right =
     (case right of
        YFixnum n \<Rightarrow> bignum_divide_int F self n
      | YPtr (OFloat f) \<Rightarrow> bignum_divide_float F self f
      | YPtr (OBignum b) \<Rightarrow> Inr (divide_bignum F self b)
      | YUndef \<Rightarrow> Inl MemFault
      | _ \<Rightarrow> binop_type_error ''/'')"

definition divide_BIGD :: "bigd \<Rightarrow> bigd \<Rightarrow> bigd" where
  "divide_BIGD u v = fst (bdDivide u v)"

definition floor_divide_bignum_without_normalizing :: "yog_bignum \<Rightarrow> yog_bignum \<Rightarrow> yog_bignum res" where
  "floor_divide_bignum_without_normalizing self right =
     (if bdIsZero (BIGNUM_NUM right) then Inl (ZeroDivisionError ''Bignum division by zero'')
      else if BIGNUM_SIGN self = BIGNUM_SIGN right then
        Inr (YogBignum_new\<lparr>BIGNUM_NUM := divide_BIGD (BIGNUM_NUM self) (BIGNUM_NUM right)\<rparr>)
      else
        let n = divide_BIGD (BIGNUM_NUM self) (BIGNUM_NUM right)
        in Inr (YogBignum_new\<lparr>BIGNUM_NUM := fst (bdIncrement n), BIGNUM_SIGN := - 1\<rparr>))"

definition floor_divide_bignum :: "yog_bignum \<Rightarrow> yog_bignum \<Rightarrow> ('f, 's) yog_number res" where
  "floor_divide_bignum self right =
     res_bind (floor_divide_bignum_without_normalizing self right) (\<lambda>val. Inr (normalize val))"

definition YogBignum_binop_floor_divide ::
  "('f, yog_bignum) float_ops \<Rightarrow> yog_bignum \<Rightarrow> ('f, 's) yog_number \<Rightarrow> ('f, 's) yog_number res" where
  "YogBignum_binop_floor_divide F self right =
     (case right of
        YFixnum n \<Rightarrow> floor_divide_bignum self (YogBignum_from_int n)
      | YPtr (OFloat f) \<Rightarrow> bignum_divide_float F self f
      | YPtr (OBignum b) \<Rightarrow> floor_divide_bignum self b
      | YUndef \<Rightarrow> Inl MemFault
      | _ \<Rightarrow> binop_type_error ''//'')"

definition denormalize_to_bignum :: "('f, 's) yog_number \<Rightarrow> yog_bignum res" where
  "denormalize_to_bignum val =
     (case val of
        YFixnum n \<Rightarrow> Inr (YogBignum_from_int n)
      | YPtr (OBignum b) \<Rightarrow> Inr b
      | _ \<Rightarrow> Inl (YogBug ''YogBignum_modulo got an unexpected type argument''))"

definition YogBignum_modulo ::
  "('f, yog_bignum) float_ops \<Rightarrow> yog_bignum \<Rightarrow> ('f, 's) yog_number \<Rightarrow> ('f, 's) yog_number res" where
  "YogBignum_modulo F self n =
     res_bind (denormalize_to_bignum n) (\<lambda>n2.
     res_bind (floor_divide_bignum_without_normalizing self n2) (\<lambda>d.
     res_bind (YogBignum_binop_multiply F d n) (\<lambda>mul.
       YogBignum_binop_subtract F self mul)))"

definition YogBignum_binop_modulo ::
  "('f, yog_bignum) float_ops \<Rightarrow> yog_bignum \<Rightarrow> ('f, 's) yog_number \<Rightarrow> ('f, 's) yog_number res" where
  "YogBignum_binop_modulo F self right =
     (case right of
        YFixnum n \<Rightarrow> YogBignum_modulo F self right
      | YPtr (OBignum b) \<Rightarrow> YogBignum_modulo F self right
      | _ \<Rightarrow> binop_type_error ''%'')"

section \<open>Shifts\<close>

text \<open>The width is an \<^verbatim>\<open>int_t\<close> that \<^verbatim>\<open>bdShiftLeft\<close> takes as a \<^verbatim>\<open>size_t\<close>.\<close>

definition YogBignum_lshift :: "yog_bignum \<Rightarrow> int \<Rightarrow> yog_bignum res" where
  "YogBignum_lshift self width =
     res_bind (bdShiftLeft (BIGNUM_NUM self) (to_uint width)) (\<lambda>num.
       Inr (YogBignum_new\<lparr>BIGNUM_NUM := num, BIGNUM_SIGN := BIGNUM_SIGN self\<rparr>))"

definition YogBignum_rshift :: "yog_bignum \<Rightarrow> int \<Rightarrow> yog_bignum res" where
  "YogBignum_rshift self width =
     res_bind (bdShiftRight (BIGNUM_NUM self) (to_uint width)) (\<lambda>num.
       let retval = YogBignum_new\<lparr>BIGNUM_NUM := num, BIGNUM_SIGN := BIGNUM_SIGN self\<rparr>
       in if BIGNUM_SIGN retval < 0
          then Inr (retval\<lparr>BIGNUM_NUM := fst (bdIncrement (BIGNUM_NUM retval))\<rparr>)
          else Inr retval)"

definition YogBignum_binop_rshift ::
  "yog_bignum \<Rightarrow> ('f, 's) yog_number \<Rightarrow> ('f, 's) yog_number res" where
  "YogBignum_binop_rshift self right =
     (case right of
        YFixnum m \<Rightarrow>
          if 0 < m then res_bind (YogBignum_rshift self m) (\<lambda>b. Inr (big b))
          else res_bind (YogBignum_lshift self (- m)) (\<lambda>b. Inr (big b))
      | _ \<Rightarrow> binop_type_error ''>>'')"

definition YogBignum_binop_lshift ::
  "yog_bignum \<Rightarrow> ('f, 's) yog_number \<Rightarrow> ('f, 's) yog_number res" where
  "YogBignum_binop_lshift self right =
     (case right of
        YFixnum width \<Rightarrow>
          if 0 < width then res_bind (YogBignum_lshift self width) (\<lambda>b. Inr (big b))
          else res_bind (YogBignum_rshift self (- width)) (\<lambda>b. Inr (big b))
      | _ \<Rightarrow> binop_type_error ''<<'')"

section \<open>Bits\<close>

definition or_bignum :: "yog_bignum \<Rightarrow> yog_bignum \<Rightarrow> yog_bignum" where
  "or_bignum self n = YogBignum_new\<lparr>BIGNUM_NUM := bdOrBits (BIGNUM_NUM self) (BIGNUM_NUM n)\<rparr>"

definition YogBignum_or :: "yog_bignum \<Rightarrow> int \<Rightarrow> yog_bignum" where
  "YogBignum_or self n = or_bignum self (YogBignum_from_int n)"

definition YogBignum_binop_or ::
  "yog_bignum \<Rightarrow> ('f, 's) yog_number \<Rightarrow> ('f, 's) yog_number res" where
  "YogBignum_binop_or self right =
     (case right of
        YFixnum n \<Rightarrow> Inr (big (YogBignum_or self n))
      | YPtr (OBignum b) \<Rightarrow> Inr (big (or_bignum self b))
      | _ \<Rightarrow> binop_type_error ''|'')"

definition xor_bignum :: "yog_bignum \<Rightarrow> yog_bignum \<Rightarrow> ('f, 's) yog_number" where
  "xor_bignum self n =
     normalize (YogBignum_new\<lparr>BIGNUM_NUM := bdXorBits (BIGNUM_NUM self) (BIGNUM_NUM n)\<rparr>)"

definition YogBignum_xor :: "yog_bignum \<Rightarrow> int \<Rightarrow> ('f, 's) yog_number" where
  "YogBignum_xor self n = xor_bignum self (YogBignum_from_int n)"

definition YogBignum_binop_xor ::
  "yog_bignum \<Rightarrow> ('f, 's) yog_number \<Rightarrow> ('f, 's) yog_number res" where
  "YogBignum_binop_xor self right =
     (case right of
        YFixnum n \<Rightarrow> Inr (YogBignum_xor self n)
      | YPtr (OBignum b) \<Rightarrow> Inr (xor_bignum self b)
      | _ \<Rightarrow> binop_type_error ''^'')"

definition and_bignum :: "yog_bignum \<Rightarrow> yog_bignum \<Rightarrow> ('f, 's) yog_number" where
  "and_bignum self n =
     normalize (YogBignum_new\<lparr>BIGNUM_NUM := bdAndBits (BIGNUM_NUM self) (BIGNUM_NUM n)\<rparr>)"

definition YogBignum_and :: "yog_bignum \<Rightarrow> int \<Rightarrow> ('f, 's) yog_number" where
  "YogBignum_and self n = and_bignum self (YogBignum_from_int n)"

definition YogBignum_binop_and ::
  "yog_bignum \<Rightarrow> ('f, 's) yog_number \<Rightarrow> ('f, 's) yog_number res" where
  "YogBignum_binop_and self right =
     (case right of
        YFixnum n \<Rightarrow> Inr (YogBignum_and self n)
      | YPtr (OBignum b) \<Rightarrow> Inr (and_bignum self b)
      | _ \<Rightarrow> binop_type_error ''&'')"

section \<open>Comparison\<close>

definition ufo_two_bignum :: "yog_bignum \<Rightarrow> yog_bignum \<Rightarrow> ('f, 's) yog_number" where
  "ufo_two_bignum self n =
     (if BIGNUM_SIGN self < BIGNUM_SIGN n then YFixnum (- 1)
      else if BIGNUM_SIGN n < BIGNUM_SIGN self then YFixnum 1
      else let m = bdCompare (BIGNUM_NUM self) (BIGNUM_NUM n)
           in if m < 0 then int2val (- BIGNUM_SIGN self)
              else if m = 0 then int2val 0
              else int2val (BIGNUM_SIGN self))"

definition YogBignum_binop_ufo ::
  "yog_bignum \<Rightarrow> ('f, 's) yog_number \<Rightarrow> ('f, 's) yog_number res" where
  "YogBignum_binop_ufo self n =
     (case n of
        YFixnum k \<Rightarrow> Inr (ufo_two_bignum self (YogBignum_from_int k))
      | YPtr (OBignum b) \<Rightarrow> Inr (ufo_two_bignum self b)
      | _ \<Rightarrow> Inr YNil)"

section \<open>Power\<close>

definition YogBignum_clone :: "yog_bignum \<Rightarrow> yog_bignum" where
  "YogBignum_clone self =
     YogBignum_new\<lparr>BIGNUM_NUM := bdSetEqual (BIGNUM_NUM YogBignum_new) (BIGNUM_NUM self)\<rparr>"

text \<open>The loop runs for \<open>i = exp, \<dots>, 2\<close>: \<open>exp - 1\<close> multiplications.\<close>

primrec bignum_power_loop :: "nat \<Rightarrow> bigd \<Rightarrow> bigd \<Rightarrow> bigd" where
  "bignum_power_loop 0 num m = num"
| "bignum_power_loop (Suc i) num m = bignum_power_loop i (bdMultiply_s num m) m"

definition YogBignum_power ::
  "('f, yog_bignum) float_ops \<Rightarrow> yog_bignum \<Rightarrow> int \<Rightarrow> ('f, 's) yog_number" where
  "YogBignum_power F self exp =
     (if exp < 0 then
        YPtr (OFloat (f_power F (f_div F (f_of_int F 1) (f_of_bignum F self)) (- exp)))
      else if exp = 0 then YFixnum 1
      else let bignum = YogBignum_clone self; m = BIGNUM_NUM self
           in big (bignum\<lparr>BIGNUM_NUM := bignum_power_loop (nat (exp - 1)) (BIGNUM_NUM bignum) m\<rparr>))"

definition YogBignum_binop_power ::
  "('f, yog_bignum) float_ops \<Rightarrow> yog_bignum \<Rightarrow> ('f, 's) yog_number \<Rightarrow> ('f, 's) yog_number res" where
  "YogBignum_binop_power F self right =
     (case right of
        YFixnum n \<Rightarrow> Inr (YogBignum_power F self n)
      | YPtr (OFloat f) \<Rightarrow> Inr (YPtr (OFloat (f_pow F (f_of_bignum F self) f)))
      | YUndef \<Rightarrow> Inl MemFault
      | _ \<Rightarrow> binop_type_error ''**'')"

section \<open>Comparison with C integers\<close>

definition YogBignum_compare_with_unsigned_long :: "yog_bignum \<Rightarrow> nat \<Rightarrow> int" where
  "YogBignum_compare_with_unsigned_long self n =
     (if BIGNUM_SIGN self < 0 then - 1
      else bdCompare (BIGNUM_NUM self) (bdConvFromDecimal (snprintf_dec (int n))))"

definition YogBignum_compare_with_unsigned_int :: "yog_bignum \<Rightarrow> nat \<Rightarrow> int" where
  "YogBignum_compare_with_unsigned_int self n =
     (if BIGNUM_SIGN self < 0 then - 1
      else bdCompare (BIGNUM_NUM self) (bdConvFromDecimal (snprintf_dec (int n))))"

text \<open>\<open>- LONG_MIN\<close> wraps to itself; \<^verbatim>\<open>"%lu"\<close> prints it as an unsigned number and \<^verbatim>\<open>"%zd"\<close> with its
  sign.\<close>

definition YogBignum_compare_with_long :: "yog_bignum \<Rightarrow> int \<Rightarrow> int" where
  "YogBignum_compare_with_long self n =
     (let sign_of_self = BIGNUM_SIGN self;
          sign_of_n = (if 0 < n then 1 else - 1)
      in if sign_of_self * sign_of_n < 0 then sign_of_self
         else let abs_of_n = iwrap (sign_of_n * n);
                  n2 = bdConvFromDecimal (snprintf_dec (int (to_uint abs_of_n)));
                  retval = bdCompare (BIGNUM_NUM self) n2
              in if 0 < BIGNUM_SIGN self then retval else - retval)"

definition YogBignum_compare_with_int :: "yog_bignum \<Rightarrow> int \<Rightarrow> int" where
  "YogBignum_compare_with_int self n =
     (let sign_of_self = BIGNUM_SIGN self;
          sign_of_n = (if 0 < n then 1 else - 1)
      in if sign_of_self * sign_of_n < 0 then sign_of_self
         else let abs_of_n = iwrap (sign_of_n * n);
                  n2 = bdConvFromDecimal (snprintf_dec abs_of_n);
                  retval = bdCompare (BIGNUM_NUM self) n2
              in if 0 < sign_of_self then retval else - retval)"

definition YogBignum_compare_with_long_long :: "yog_bignum \<Rightarrow> int \<Rightarrow> int" where
  "YogBignum_compare_with_long_long self n =
     (let sign_of_self = BIGNUM_SIGN self;
          sign_of_n = (if 0 < n then 1 else - 1)
      in if sign_of_self * sign_of_n < 0 then sign_of_self
         else let n2 = YogBignum_from_long_long n;
                  retval = bdCompare (BIGNUM_NUM self) (BIGNUM_NUM n2)
              in if 0 < BIGNUM_SIGN self then retval else - retval)"

definition YogBignum_compare_with_unsigned_long_long :: "yog_bignum \<Rightarrow> nat \<Rightarrow> int" where
  "YogBignum_compare_with_unsigned_long_long self n =
     (if BIGNUM_SIGN self < 0 then - 1
      else bdCompare (BIGNUM_NUM self) (BIGNUM_NUM (YogBignum_from_unsigned_long_long n)))"

section \<open>To C integers\<close>

definition check_range_unsigned :: "yog_bignum \<Rightarrow> nat \<Rightarrow> unit res" where
  "check_range_unsigned self hi =
     (if YogBignum_compare_with_unsigned_long self 0 < 0
      then Inl (ValueError ''%s must be greater or equal than 0, not %S'')
      else if 0 < YogBignum_compare_with_unsigned_long self hi
      then Inl (ValueError ''%s must be less or equal %lu, not %S'')
      else Inr ())"

definition check_range :: "yog_bignum \<Rightarrow> int \<Rightarrow> int \<Rightarrow> unit res" where
  "check_range self lo hi =
     (if YogBignum_compare_with_int self lo < 0
      then Inl (ValueError ''%s must be greater or equal %d, not %S'')
      else if 0 < YogBignum_compare_with_int self hi
      then Inl (ValueError ''%s must be less or equal %d, not %S'')
      else Inr ())"

definition YogBignum_to_unsigned_long :: "('f, 's) yog_number \<Rightarrow> int res" where
  "YogBignum_to_unsigned_long self = check_self_bignum self (\<lambda>self.
     res_bind (check_range_unsigned self UNSIGNED_MAX) (\<lambda>_. Inr (c_strtoul (CONV_TO_DECIMAL self))))"

definition YogBignum_to_unsigned_type :: "('f, 's) yog_number \<Rightarrow> int res" where
  "YogBignum_to_unsigned_type self = check_self_bignum self (\<lambda>self.
     res_bind (check_range_unsigned self UNSIGNED_MAX) (\<lambda>_. Inr (c_strtoul (CONV_TO_DECIMAL self))))"

definition YogBignum_to_long :: "('f, 's) yog_number \<Rightarrow> int res" where
  "YogBignum_to_long self = check_self_bignum self (\<lambda>self.
     res_bind (check_range self SIGNED_MIN SIGNED_MAX) (\<lambda>_. Inr (c_strtol (CONV_TO_DECIMAL self))))"

definition YogBignum_to_signed_type :: "('f, 's) yog_number \<Rightarrow> int res" where
  "YogBignum_to_signed_type self = check_self_bignum self (\<lambda>self.
     res_bind (check_range self SIGNED_MIN SIGNED_MAX) (\<lambda>_. Inr (c_strtol (CONV_TO_DECIMAL self))))"

definition YogBignum_to_long_long :: "yog_bignum \<Rightarrow> int res" where
  "YogBignum_to_long_long self =
     (if YogBignum_compare_with_long_long self SIGNED_MIN < 0
         \<or> 0 < YogBignum_compare_with_long_long self SIGNED_MAX
      then Inl (ValueError ''%s must be between %lld and %lld'')
      else Inr (c_strtol (CONV_TO_DECIMAL self)))"

definition YogBignum_to_unsigned_long_long :: "yog_bignum \<Rightarrow> int res" where
  "YogBignum_to_unsigned_long_long self =
     (if YogBignum_compare_with_unsigned_int self 0 < 0
         \<or> 0 < YogBignum_compare_with_unsigned_long_long self UNSIGNED_MAX
      then Inl (ValueError ''%s must be between 0 and %llu'')
      else Inr (c_strtoul (CONV_TO_DECIMAL self)))"

section \<open>The methods\<close>

definition bignum_add where
  "bignum_add F self n = check_self_bignum self (\<lambda>self. YogBignum_binop_add F self n)"

definition bignum_subtract where
  "bignum_subtract F self n = check_self_bignum self (\<lambda>self. YogBignum_binop_subtract F self n)"

definition bignum_multiply where
  "bignum_multiply F self n = check_self_bignum self (\<lambda>self. YogBignum_binop_multiply F self n)"

definition bignum_divide where
  "bignum_divide F self n = check_self_bignum self (\<lambda>self. YogBignum_binop_divide F self n)"

definition bignum_modulo where
  "bignum_modulo F self n = check_self_bignum self (\<lambda>self. YogBignum_binop_modulo F self n)"

definition bignum_floor_divide where
  "bignum_floor_divide F self n = check_self_bignum self (\<lambda>self. YogBignum_binop_floor_divide F self n)"

definition bignum_rshift where
  "bignum_rshift self n = check_self_bignum self (\<lambda>self. YogBignum_binop_rshift self n)"

definition bignum_lshift where
  "bignum_lshift self n = check_self_bignum self (\<lambda>self. YogBignum_binop_lshift self n)"

definition bignum_or where
  "bignum_or self n = check_self_bignum self (\<lambda>self. YogBignum_binop_or self n)"

definition bignum_and where
  "bignum_and self n = check_self_bignum self (\<lambda>self. YogBignum_binop_and self n)"

definition bignum_xor where
  "bignum_xor self n = check_self_bignum self (\<lambda>self. YogBignum_binop_xor self n)"

definition bignum_ufo where
  "bignum_ufo self n = check_self_bignum self (\<lambda>self. YogBignum_binop_ufo self n)"

definition bignum_power where
  "bignum_power F self n = check_self_bignum self (\<lambda>self. YogBignum_binop_power F self n)"

end
