(* ===== verification/YogBignumLaws.thy ===== *)
theory YogBignumLaws
  imports YogBignum
begin

text \<open>
  What \<^verbatim>\<open>src/bignum.c\<close> computes, as integers: the values of its constructors, conversions and
  operators, and where they differ from the mathematical ones.
\<close>

section \<open>Well-formed objects\<close>

text \<open>The sign is 1 or -1, and a negative Bignum is not zero.\<close>

definition bignum_ok :: "yog_bignum \<Rightarrow> bool" where
  "bignum_ok b \<longleftrightarrow> (BIGNUM_SIGN b = 1 \<or> BIGNUM_SIGN b = - 1)
     \<and> (BIGNUM_SIGN b = - 1 \<longrightarrow> digits_val (BIGNUM_NUM b) \<noteq> 0)"

named_theorems bignum_objs

lemma bignum_new_simps [simp]:
  "BIGNUM_SIGN YogBignum_new = 1" "BIGNUM_NUM YogBignum_new = bdNew"
  by (simp_all add: YogBignum_new_def)

lemma bignum_okD:
  assumes "bignum_ok b"
  shows "BIGNUM_SIGN b = 1 \<or> BIGNUM_SIGN b = - 1"
    "BIGNUM_SIGN b = - 1 \<Longrightarrow> digits_val (BIGNUM_NUM b) \<noteq> 0"
    "BIGNUM_SIGN b = - 1 \<Longrightarrow> 0 < digits_val (BIGNUM_NUM b)"
  using assms digits_val_nonneg[of "BIGNUM_NUM b"] unfolding bignum_ok_def
  by (blast, blast, metis order_le_imp_less_or_eq)

lemma bignum_ok_positive: "BIGNUM_SIGN b = 1 \<Longrightarrow> bignum_ok b"
  by (simp add: bignum_ok_def)

lemma bignum_val_sign:
  assumes "bignum_ok b"
  shows "BIGNUM_SIGN b = 1 \<longleftrightarrow> 0 \<le> bignum_val b" "BIGNUM_SIGN b = - 1 \<longleftrightarrow> bignum_val b < 0"
    "BIGNUM_SIGN b < 0 \<longleftrightarrow> bignum_val b < 0" "0 < BIGNUM_SIGN b \<longleftrightarrow> 0 \<le> bignum_val b"
    "digits_val (BIGNUM_NUM b) = \<bar>bignum_val b\<bar>"
  using bignum_okD[OF assms] digits_val_nonneg[of "BIGNUM_NUM b"]
  by (auto simp: bignum_val_def simp del: digits_val_nonneg)

section \<open>Decimal strings\<close>

lemma of_decimal_char:
  assumes "0 \<le> d" "d < 10"
  shows "48 \<le> (of_char (digit_char d) :: nat)" "(of_char (digit_char d) :: nat) \<le> 57"
proof -
  have "nat d < 10" using assms by simp
  moreover have "(of_char (digit_char d) :: nat) = 48 + nat d"
    using of_char_digit_char[of d] assms by simp
  ultimately show "48 \<le> (of_char (digit_char d) :: nat)" "(of_char (digit_char d) :: nat) \<le> 57"
    by linarith+
qed

lemma is_decimal_digits: "0 \<le> n \<Longrightarrow> is_decimal (digits 10 n)"
proof (induction "10 :: int" n rule: digits.induct)
  case (1 n)
  show ?case
  proof (cases "n < 10")
    case True
    then show ?thesis using of_decimal_char[of n] 1(2) by (simp add: digits.simps[of 10 n] is_decimal_def)
  next
    case False
    then have "is_decimal (digits 10 (n div 10))" by (intro 1(1)) auto
    then show ?thesis using False of_decimal_char[of "n mod 10"] 
      by (auto simp: digits.simps[of 10 n] is_decimal_def)
  qed
qed

lemma digits_no_minus: "0 \<le> n \<Longrightarrow> hd (digits 10 n) \<noteq> CHR ''-''"
proof -
  assume "0 \<le> n"
  then have "digits 10 n \<noteq> []" "CHR ''-'' \<notin> set (digits 10 n)" using digits_spec[of n 10] by auto
  then show ?thesis by (metis hd_in_set)
qed

lemma parse_signed:
  assumes "0 \<le> n"
  shows "parse_int 10 (digits 10 n) = n" "parse_int 10 (CHR ''-'' # digits 10 n) = - n"
  using digits_spec[of n 10] digits_no_minus[OF assms] assms by (simp_all add: parse_int_def)

lemma CONV_TO_DECIMAL_digits:
  "CONV_TO_DECIMAL b = (if BIGNUM_SIGN b < 0 then ''-'' else '''') @ digits 10 (digits_val (BIGNUM_NUM b))"
  by (simp add: CONV_TO_DECIMAL_def conv_to_decimal_def compute_needed_size_def Let_def
      bdConvToDecimal_def bdConvToDecimal_size_def mpConvToDecimal_spec)

lemma CONV_TO_DECIMAL_val: "bignum_ok b \<Longrightarrow> parse_int 10 (CONV_TO_DECIMAL b) = bignum_val b"
  using bignum_okD(1)[of b] by (auto simp: CONV_TO_DECIMAL_digits parse_signed bignum_val_def)

lemma bdConvFromDecimal_digits:
  assumes "0 \<le> n" "n < 10 ^ 64"
  shows "digits_val (bdConvFromDecimal (digits 10 n)) = n"
proof -
  have l: "length (digits 10 n) \<le> 64" using assms by (intro length_digits) auto
  have "digits_val (bdConvFromDecimal (digits 10 n)) = parse_digits 10 (digits 10 n)"
    unfolding bdConvFromDecimal_def
    by (intro mpConvFromDecimal_spec is_decimal_digits decimal_bytes_enough assms(1) l)
  then show ?thesis using digits_spec[of n 10] assms(1) by simp
qed

lemma ten_20: "(2 :: int) ^ 63 < 10 ^ 19" "(2 :: int) ^ 64 < 10 ^ 20" "(10 :: int) ^ 20 < 10 ^ 64"
  "(2 :: int) ^ 63 < 2 ^ 64"
  by simp_all

lemma snprintf_dec_digits:
  assumes "- (2 ^ 63) \<le> n" "n < 2 ^ 64"
  shows "snprintf_dec n = (if n < 0 then ''-'' else '''') @ digits 10 \<bar>n\<bar>"
proof (cases "n < 0")
  case True
  then have "\<bar>n\<bar> < 10 ^ 19" using assms(1) ten_20(1) by linarith
  then have "length (digits 10 \<bar>n\<bar>) \<le> 19" by (intro length_digits) auto
  then show ?thesis using True by (simp add: snprintf_dec_def)
next
  case False
  then have "\<bar>n\<bar> < 10 ^ 20" using assms(2) ten_20(2) by linarith
  then have "length (digits 10 \<bar>n\<bar>) \<le> 20" by (intro length_digits) auto
  then show ?thesis using False by (simp add: snprintf_dec_def)
qed

lemma bdConv_snprintf:
  assumes "0 \<le> n" "n < 2 ^ 64"
  shows "digits_val (bdConvFromDecimal (snprintf_dec n)) = n"
proof -
  have "n < 10 ^ 64" using assms(2) ten_20(2,3) by linarith
  then show ?thesis using bdConvFromDecimal_digits[of n] snprintf_dec_digits[of n] assms by simp
qed

section \<open>Constructors and normal forms\<close>

lemma uint_of_iwrap: "uint (word_of_int (iwrap k) :: digit) = k mod 2 ^ 64"
proof -
  have "(k + 2 ^ 63) mod 2 ^ 64 - 2 ^ 63 = iwrap k" by (simp only: iwrap_def)
  then have "iwrap k mod 2 ^ 64 = k mod 2 ^ 64" by (metis add_diff_cancel_right' mod_diff_left_eq)
  then show ?thesis by (simp add: uint_word_of_int)
qed

lemma from_int_ok:
  assumes "- (2 ^ 63) \<le> n" "n < 2 ^ 63"
  shows "bignum_ok (YogBignum_from_int n) \<and> bignum_val (YogBignum_from_int n) = n"
proof (cases "n < 0")
  case True
  then have "- n mod 2 ^ 64 = - n" using assms by (intro mod_pos_pos_trivial) (use ten_20(4) in linarith)+
  then show ?thesis using True
    by (simp add: YogBignum_from_int_def Let_def bignum_ok_def bignum_val_def uint_of_iwrap)
next
  case False
  then have "n mod 2 ^ 64 = n" using assms by (intro mod_pos_pos_trivial) (use ten_20(4) in linarith)+
  then have "uint (word_of_int n :: digit) = n" by (simp add: uint_word_of_int)
  then show ?thesis using False
    by (simp add: YogBignum_from_int_def Let_def bignum_ok_def bignum_val_def)
qed

lemma FIXABLE_int_t: "FIXABLE n \<Longrightarrow> - (2 ^ 63) \<le> n \<and> n < 2 ^ 63"
  by (simp add: FIXABLE_iff)

lemma from_fixnum_ok:
  "FIXABLE n \<Longrightarrow> bignum_ok (YogBignum_from_int n)"
  "FIXABLE n \<Longrightarrow> bignum_val (YogBignum_from_int n) = n"
  using from_int_ok FIXABLE_int_t by blast+

lemma from_unsigned_int_ok:
  assumes "n < 2 ^ 64"
  shows "bignum_ok (YogBignum_from_unsigned_int n) \<and> bignum_val (YogBignum_from_unsigned_int n) = int n"
proof -
  have "uint (of_nat n :: digit) = int n" using assms
    by (simp add: uint_nat unat_of_nat)
  then show ?thesis by (simp add: YogBignum_from_unsigned_int_def bignum_ok_def bignum_val_def)
qed

lemma from_long_long_ok:
  assumes "- (2 ^ 63) \<le> n" "n < 2 ^ 63"
  shows "bignum_ok (YogBignum_from_long_long n) \<and> bignum_val (YogBignum_from_long_long n) = n"
proof -
  have s: "snprintf_dec n = (if n < 0 then ''-'' else '''') @ digits 10 \<bar>n\<bar>"
    using assms by (intro snprintf_dec_digits) auto
  have "\<bar>n\<bar> < 10 ^ 64" using assms ten_20(2-4) by linarith
  then have "digits_val (bdConvFromDecimal (digits 10 \<bar>n\<bar>)) = \<bar>n\<bar>" by (simp add: bdConvFromDecimal_digits)
  then show ?thesis using digits_no_minus[of n]
    by (auto simp: YogBignum_from_long_long_def s Let_def bignum_ok_def bignum_val_def)
qed

lemma from_unsigned_long_long_ok:
  assumes "n < 2 ^ 64"
  shows "bignum_ok (YogBignum_from_unsigned_long_long n)
    \<and> bignum_val (YogBignum_from_unsigned_long_long n) = int n"
proof -
  have "int n < 2 ^ 64" using assms by (metis of_nat_less_iff of_nat_numeral of_nat_power)
  then show ?thesis using bdConv_snprintf[of "int n"]
    by (simp add: YogBignum_from_unsigned_long_long_def bignum_ok_def bignum_val_def)
qed

lemma FIXABLE_strtol: "FIXABLE (max SIGNED_MIN (min SIGNED_MAX n)) \<longleftrightarrow> FIXABLE n"
  "FIXABLE n \<Longrightarrow> max SIGNED_MIN (min SIGNED_MAX n) = n"
  by (auto simp: FIXABLE_iff SIGNED_MIN_def SIGNED_MAX_def)

lemma normalize_eq:
  assumes "bignum_ok b"
  shows "normalize b = (if FIXABLE (bignum_val b) then YFixnum (bignum_val b) else big b)"
  using CONV_TO_DECIMAL_val[OF assms] FIXABLE_strtol[of "bignum_val b"]
  by (simp add: normalize_def Let_def c_strtol_def)

section \<open>Addition, subtraction, multiplication\<close>

lemma zod_simps [simp]: "snd r = 0 \<Longrightarrow> zod r = Inr (fst r)"
  by (simp add: zod_def)

text \<open>What the operators make of two integers, whatever their representation: \<open>number_val\<close> reads a
  value, \<open>canonical\<close> says that it is in the representation that belongs to its range.\<close>

fun number_val :: "('f, 's) yog_number \<Rightarrow> int option" where
  "number_val (YFixnum n) = Some n"
| "number_val (YPtr (OBignum b)) = Some (bignum_val b)"
| "number_val _ = None"

fun number_ok :: "('f, 's) yog_number \<Rightarrow> bool" where
  "number_ok (YFixnum n) = FIXABLE n"
| "number_ok (YPtr (OBignum b)) = bignum_ok b"
| "number_ok _ = False"

definition canonical :: "('f, 's) yog_number \<Rightarrow> int \<Rightarrow> bool" where
  "canonical v z \<longleftrightarrow> number_ok v \<and> number_val v = Some z \<and> (FIXABLE z \<longrightarrow> v = YFixnum z)"

lemma canonical_cases:
  assumes "canonical v z"
  obtains "v = YFixnum z" "FIXABLE z"
    | b where "v = big b" "bignum_ok b" "bignum_val b = z" "\<not> FIXABLE z"
  using assms by (cases v rule: number_val.cases) (auto simp: canonical_def)

lemma canonical_normalize: "bignum_ok b \<Longrightarrow> canonical (normalize b) (bignum_val b)"
  by (simp add: normalize_eq canonical_def)

lemma canonical_big: "bignum_ok b \<Longrightarrow> bignum_val b = z \<Longrightarrow> \<not> FIXABLE z \<Longrightarrow> canonical (big b) z"
  by (simp add: canonical_def)

lemma canonical_fix: "FIXABLE z \<Longrightarrow> canonical (YFixnum z) z"
  by (simp add: canonical_def)

text \<open>A subtraction negates a copy of its operand, which may leave a zero with a minus sign: one of the
  two operands of the sum is only known to have a sign.\<close>

definition sign_ok :: "yog_bignum \<Rightarrow> bool" where
  "sign_ok b \<longleftrightarrow> BIGNUM_SIGN b = 1 \<or> BIGNUM_SIGN b = - 1"

lemma bignum_ok_sign: "bignum_ok b \<Longrightarrow> sign_ok b"
  by (simp add: bignum_ok_def sign_ok_def)

definition exact_sum :: "('f, 's) yog_number res \<Rightarrow> yog_bignum \<Rightarrow> yog_bignum \<Rightarrow> bool" where
  "exact_sum s a b \<longleftrightarrow> (\<exists>r. s = Inr r \<and> number_ok r \<and> number_val r = Some (bignum_val a + bignum_val b)
    \<and> (BIGNUM_SIGN a \<noteq> BIGNUM_SIGN b \<longrightarrow> canonical r (bignum_val a + bignum_val b)))"

lemma exact_sum_normalize:
  "bignum_ok d \<Longrightarrow> bignum_val d = bignum_val a + bignum_val b \<Longrightarrow> exact_sum (Inr (normalize d)) a b"
  using canonical_normalize[of d] by (auto simp: exact_sum_def canonical_def)

lemma exact_sum_commute: "exact_sum s a b \<longleftrightarrow> exact_sum s b a"
  by (auto simp: exact_sum_def add.commute)

lemma add_ordered_exact:
  assumes "sign_ok a" "sign_ok b" "bignum_ok a \<or> bignum_ok b"
    "BIGNUM_SIGN a = BIGNUM_SIGN b \<or> 0 < BIGNUM_SIGN a"
  shows "exact_sum (add_ordered a b) a b"
proof (cases "BIGNUM_SIGN a = BIGNUM_SIGN b")
  case True
  let ?d = "YogBignum_new\<lparr>BIGNUM_NUM := fst (bdAdd (BIGNUM_NUM a) (BIGNUM_NUM b)),
    BIGNUM_SIGN := BIGNUM_SIGN a\<rparr>"
  have "bignum_val ?d = bignum_val a + bignum_val b"
    using True by (simp add: bignum_val_def bd.madd_val distrib_left)
  moreover have "bignum_ok ?d"
    using assms True digits_val_nonneg[of "BIGNUM_NUM a"] digits_val_nonneg[of "BIGNUM_NUM b"]
    unfolding bignum_ok_def sign_ok_def by (auto simp: bd.madd_val simp del: digits_val_nonneg)
  ultimately show ?thesis using True by (simp add: add_ordered_def Let_def exact_sum_def)
next
  case False
  then have s: "BIGNUM_SIGN a = 1" "BIGNUM_SIGN b = - 1" using assms by (auto simp: sign_ok_def)
  let ?x = "BIGNUM_NUM a" and ?y = "BIGNUM_NUM b"
  show ?thesis
  proof (cases "bdCompare ?x ?y < 0")
    case True
    define d where "d = YogBignum_new\<lparr>BIGNUM_NUM := fst (bdSubtract ?y ?x), BIGNUM_SIGN := - 1\<rparr>"
    note l = bd.opposite_sum_less[OF True]
    have "digits_val ?x < digits_val ?y" using True by (simp add: bd.mcmp_less)
    then have d: "bignum_ok d" "bignum_val d = bignum_val a + bignum_val b"
      using l s by (simp_all add: d_def bignum_ok_def bignum_val_def)
    have r: "add_ordered a b = Inr (normalize d)"
      using False True l by (simp add: add_ordered_def Let_def d_def)
    show ?thesis unfolding r by (rule exact_sum_normalize[OF d])
  next
    case False
    define d where "d = YogBignum_new\<lparr>BIGNUM_NUM := fst (bdSubtract ?x ?y)\<rparr>"
    note l = bd.opposite_sum_ge[OF False]
    have d: "bignum_ok d" "bignum_val d = bignum_val a + bignum_val b"
      using l s by (simp_all add: d_def bignum_ok_def bignum_val_def)
    have r: "add_ordered a b = Inr (normalize d)"
      using s False l by (simp add: add_ordered_def Let_def d_def)
    show ?thesis unfolding r by (rule exact_sum_normalize[OF d])
  qed
qed

lemma add_two_exact:
  assumes "sign_ok a" "sign_ok b" "bignum_ok a \<or> bignum_ok b"
  shows "exact_sum (add_two_bignum a b) a b"
proof (cases "BIGNUM_SIGN a < 0 \<and> 0 < BIGNUM_SIGN b")
  case True
  then show ?thesis using add_ordered_exact[OF assms(2,1)] assms(3)
    by (auto simp: add_two_bignum_def exact_sum_commute[of _ a b])
next
  case False
  then have "BIGNUM_SIGN a = BIGNUM_SIGN b \<or> 0 < BIGNUM_SIGN a"
    using assms(1,2) by (auto simp: sign_ok_def)
  then show ?thesis using False add_ordered_exact[OF assms] by (auto simp: add_two_bignum_def)
qed

text \<open>A sum under a common sign is not normalised, but it is at least as far from the Fixnum range as
  the larger operand.\<close>

definition exact_canonical :: "('f, 's) yog_number res \<Rightarrow> int \<Rightarrow> bool" where
  "exact_canonical s z \<longleftrightarrow> (\<exists>r. s = Inr r \<and> canonical r z)"

lemma add_two_canonicalI:
  assumes "sign_ok a" "sign_ok b" "bignum_ok a \<or> bignum_ok b"
    "BIGNUM_SIGN a = BIGNUM_SIGN b \<Longrightarrow> \<not> FIXABLE (bignum_val a + bignum_val b)"
  shows "exact_canonical (add_two_bignum a b) (bignum_val a + bignum_val b)"
  using add_two_exact[OF assms(1-3)] assms(4)
  by (cases "BIGNUM_SIGN a = BIGNUM_SIGN b") (auto simp: exact_sum_def exact_canonical_def canonical_def)

lemma add_two_canonical:
  assumes "bignum_ok a" "bignum_ok b" "\<not> FIXABLE (bignum_val a) \<or> \<not> FIXABLE (bignum_val b)"
  shows "exact_canonical (add_two_bignum a b) (bignum_val a + bignum_val b)"
proof (rule add_two_canonicalI)
  assume "BIGNUM_SIGN a = BIGNUM_SIGN b"
  then have "0 \<le> bignum_val a \<longleftrightarrow> 0 \<le> bignum_val b"
    using bignum_val_sign(1)[OF assms(1)] bignum_val_sign(1)[OF assms(2)] by simp
  then show "\<not> FIXABLE (bignum_val a + bignum_val b)" using assms(3) by (auto simp: FIXABLE_iff)
qed (use assms bignum_ok_sign in auto)

lemma subtract_two_canonical:
  assumes "bignum_ok a" "bignum_ok b" "\<not> FIXABLE (bignum_val a) \<or> \<not> FIXABLE (bignum_val b)"
  shows "exact_canonical (subtract_two_bignum a b) (bignum_val a - bignum_val b)"
proof -
  let ?m = "(bignum_copy b)\<lparr>BIGNUM_SIGN := - BIGNUM_SIGN b\<rparr>"
  have m: "bignum_val ?m = - bignum_val b" "sign_ok ?m"
    using bignum_ok_sign[OF assms(2)] by (auto simp: bignum_copy_def Let_def bignum_val_def sign_ok_def)
  have "exact_canonical (add_two_bignum a ?m) (bignum_val a + bignum_val ?m)"
  proof (rule add_two_canonicalI)
    assume "BIGNUM_SIGN a = BIGNUM_SIGN ?m"
    then have "BIGNUM_SIGN a = - BIGNUM_SIGN b" by simp
    then have "0 \<le> bignum_val a \<longleftrightarrow> bignum_val b < 0"
      using bignum_val_sign(1)[OF assms(1)] bignum_val_sign(2)[OF assms(2)] by auto
    then show "\<not> FIXABLE (bignum_val a + bignum_val ?m)" using assms(3) m(1) by (auto simp: FIXABLE_iff)
  qed (use assms bignum_ok_sign m in auto)
  then show ?thesis by (simp add: subtract_two_bignum_def Let_def m)
qed

end
