(* ===== verification/YogIntegers.thy ===== *)
theory YogIntegers
  imports YogBignumLaws YogStringLaws
begin

text \<open>
  The integers of a Yog program: \<^verbatim>\<open>fixnum.c\<close> and \<^verbatim>\<open>bignum.c\<close> together. An operator is sent to the
  class of its receiver; what Fixnum hands over to Bignum (a term of \<open>bigexp\<close>) is executed by the
  functions of \<open>YogBignum\<close>. The theorems say for every operator which integer the result denotes,
  in which representation, and where it is not the mathematical one.
\<close>

section \<open>The calls from Fixnum into Bignum\<close>

definition with_big ::
  "('f, 's) yog_number res \<Rightarrow> (yog_bignum \<Rightarrow> ('f, 's) yog_number res) \<Rightarrow> ('f, 's) yog_number res" where
  "with_big m f = res_bind m (\<lambda>v. check_self_bignum v f)"

primrec bigexp_run ::
  "('f, yog_bignum) float_ops \<Rightarrow> yog_bignum bigexp \<Rightarrow> ('f, 's) yog_number res" where
  "bigexp_run F (BFix n) = Inr (YFixnum n)"
| "bigexp_run F (BObj b) = Inr (big b)"
| "bigexp_run F (BFromInt n) = Inr (big (YogBignum_from_int n))"
| "bigexp_run F (BFromUnsigned n) = Inr (big (YogBignum_from_unsigned_int n))"
| "bigexp_run F (BAdd x y) =
     with_big (bigexp_run F x) (\<lambda>a. res_bind (bigexp_run F y) (YogBignum_binop_add F a))"
| "bigexp_run F (BSubtract x y) =
     with_big (bigexp_run F x) (\<lambda>a. res_bind (bigexp_run F y) (YogBignum_binop_subtract F a))"
| "bigexp_run F (BMultiply x y) =
     with_big (bigexp_run F x) (\<lambda>a. res_bind (bigexp_run F y) (YogBignum_binop_multiply F a))"
| "bigexp_run F (BModulo x y) =
     with_big (bigexp_run F x) (\<lambda>a. res_bind (bigexp_run F y) (YogBignum_modulo F a))"
| "bigexp_run F (BFloorDivide x y) =
     with_big (bigexp_run F x) (\<lambda>a. res_bind (bigexp_run F y) (YogBignum_binop_floor_divide F a))"
| "bigexp_run F (BLshift x n) =
     with_big (bigexp_run F x) (\<lambda>a. res_bind (YogBignum_lshift a n) (\<lambda>b. Inr (big b)))"
| "bigexp_run F (BXor x n) = with_big (bigexp_run F x) (\<lambda>a. Inr (YogBignum_xor a n))"
| "bigexp_run F (BAnd x n) = with_big (bigexp_run F x) (\<lambda>a. Inr (YogBignum_and a n))"
| "bigexp_run F (BOr x n) = with_big (bigexp_run F x) (\<lambda>a. Inr (big (YogBignum_or a n)))"
| "bigexp_run F (BPower x n) = with_big (bigexp_run F x) (\<lambda>a. Inr (YogBignum_power F a n))"

text \<open>\<open>M\<close> is \<^verbatim>\<open>YogString_binop_multiply\<close>, which a Fixnum calls for a String on its right.\<close>

fun num_run ::
  "('f, yog_bignum) float_ops \<Rightarrow> ('s \<Rightarrow> int \<Rightarrow> 's res) \<Rightarrow> ('f, yog_bignum, 's) num \<Rightarrow> ('f, 's) yog_number res"
where
  "num_run F M (NFix n) = Inr (YFixnum n)"
| "num_run F M (NBig e) = bigexp_run F e"
| "num_run F M (NFloat f) = Inr (YPtr (OFloat f))"
| "num_run F M (NStringMultiply s n) = res_bind (M s n) (\<lambda>t. Inr (YPtr (OString t)))"
| "num_run F M NNil = Inr YNil"

text \<open>A Fixnum receiver has the method of Fixnum, any other one is sent the method of Bignum, which
  checks that it is one.\<close>

definition send_integer ::
  "('f, yog_bignum) float_ops \<Rightarrow> ('s \<Rightarrow> int \<Rightarrow> 's res) \<Rightarrow> ('f, 's) yog_number
   \<Rightarrow> ('f, yog_bignum, 's) num res \<Rightarrow> ('f, 's) yog_number res \<Rightarrow> ('f, 's) yog_number res" where
  "send_integer F M x fix_result big_result =
     (case x of YFixnum _ \<Rightarrow> res_bind fix_result (num_run F M) | _ \<Rightarrow> big_result)"

definition integer_add where
  "integer_add F M x y = send_integer F M x (fixnum_add F x y) (bignum_add F x y)"

definition integer_subtract where
  "integer_subtract F M x y = send_integer F M x (fixnum_subtract F x y) (bignum_subtract F x y)"

definition integer_multiply where
  "integer_multiply F M x y = send_integer F M x (fixnum_multiply F x y) (bignum_multiply F x y)"

definition integer_floor_divide where
  "integer_floor_divide F M x y =
     send_integer F M x (fixnum_floor_divide F x y) (bignum_floor_divide F x y)"

definition integer_modulo where
  "integer_modulo F M x y = send_integer F M x (fixnum_modulo x y) (bignum_modulo F x y)"

definition integer_lshift where
  "integer_lshift F M x y = send_integer F M x (fixnum_lshift x y) (bignum_lshift x y)"

definition integer_rshift where
  "integer_rshift F M x y = send_integer F M x (fixnum_rshift x y) (bignum_rshift x y)"

definition integer_power where
  "integer_power F M x y = send_integer F M x (fixnum_power F x y) (bignum_power F x y)"

definition integer_and where
  "integer_and F M x y = send_integer F M x (fixnum_and x y) (bignum_and x y)"

definition integer_or where
  "integer_or F M x y = send_integer F M x (fixnum_or x y) (bignum_or x y)"

definition integer_xor where
  "integer_xor F M x y = send_integer F M x (fixnum_xor x y) (bignum_xor x y)"

lemmas integer_defs = integer_add_def integer_subtract_def integer_multiply_def
  integer_floor_divide_def integer_modulo_def integer_lshift_def integer_rshift_def
  integer_power_def integer_and_def integer_or_def integer_xor_def

lemmas bignum_method_defs = bignum_add_def bignum_subtract_def bignum_multiply_def
  bignum_floor_divide_def bignum_modulo_def bignum_lshift_def bignum_rshift_def bignum_power_def
  bignum_and_def bignum_or_def bignum_xor_def bignum_ufo_def

lemmas bignum_binop_defs = YogBignum_binop_add_def YogBignum_binop_subtract_def
  YogBignum_binop_multiply_def YogBignum_binop_floor_divide_def YogBignum_binop_modulo_def
  YogBignum_binop_lshift_def YogBignum_binop_rshift_def YogBignum_binop_power_def
  YogBignum_binop_and_def YogBignum_binop_or_def YogBignum_binop_xor_def YogBignum_binop_ufo_def

lemma check_self_big [simp]:
  "check_self_bignum (big b) f = f b"
  by (simp add: check_self_bignum_def)

lemma send_simps [simp]:
  "send_integer F M (YFixnum n) r s = res_bind r (num_run F M)"
  "send_integer F M (big b) r s = s"
  by (simp_all add: send_integer_def)

lemma with_big_simps [simp]: "with_big (Inr (big b)) f = f b"
  by (simp add: with_big_def)

section \<open>Sums and differences\<close>

lemma exact_canonical_from_int:
  assumes "- (2 ^ 63) \<le> z" "z < 2 ^ 63"
  shows "exact_canonical (num_run F M (YogVal_from_int z)) z"
  using from_int_ok[OF assms] by (auto simp: YogVal_from_int_def exact_canonical_def canonical_def)

lemma FIXABLE_sum_range:
  assumes "FIXABLE a" "FIXABLE b"
  shows "- (2 ^ 63) \<le> a + b" "a + b < 2 ^ 63" "- (2 ^ 63) \<le> a - b" "a - b < 2 ^ 63"
  using assms by (simp_all add: FIXABLE_iff)

lemma integer_add_canonical:
  assumes "canonical x a" "canonical y b"
  shows "exact_canonical (integer_add F M x y) (a + b)"
  using assms(1)
proof (cases rule: canonical_cases)
  case x: 1
  show ?thesis using assms(2)
  proof (cases rule: canonical_cases)
    case 1
    then show ?thesis using x exact_canonical_from_int[OF FIXABLE_sum_range(1,2)[OF x(2) 1(2)]]
      by (simp add: integer_defs fixnum_method_defs fixnum_binop_defs iwrap_add_fixables)
  next
    case (2 d)
    then show ?thesis using x add_two_canonical[of d "YogBignum_from_int a"] from_fixnum_ok[of a]
      by (simp add: integer_defs fixnum_method_defs fixnum_binop_defs bignum_binop_defs add.commute)
  qed
next
  case x: (2 c)
  show ?thesis using assms(2)
  proof (cases rule: canonical_cases)
    case 1
    then show ?thesis using x add_two_canonical[of c "YogBignum_from_int b"] from_fixnum_ok[of b]
      by (simp add: integer_defs bignum_method_defs bignum_binop_defs)
  next
    case (2 d)
    then show ?thesis using x add_two_canonical[of c d]
      by (simp add: integer_defs bignum_method_defs bignum_binop_defs)
  qed
qed

lemma integer_subtract_canonical:
  assumes "canonical x a" "canonical y b"
  shows "exact_canonical (integer_subtract F M x y) (a - b)"
  using assms(1)
proof (cases rule: canonical_cases)
  case x: 1
  show ?thesis using assms(2)
  proof (cases rule: canonical_cases)
    case 1
    then show ?thesis using x exact_canonical_from_int[OF FIXABLE_sum_range(3,4)[OF x(2) 1(2)]]
      by (simp add: integer_defs fixnum_method_defs fixnum_binop_defs iwrap_diff_fixables)
  next
    case (2 d)
    then show ?thesis using x subtract_two_canonical[of "YogBignum_from_int a" d] from_fixnum_ok[of a]
      by (simp add: integer_defs fixnum_method_defs fixnum_binop_defs bignum_binop_defs)
  qed
next
  case x: (2 c)
  show ?thesis using assms(2)
  proof (cases rule: canonical_cases)
    case 1
    then show ?thesis using x subtract_two_canonical[of c "YogBignum_from_int b"] from_fixnum_ok[of b]
      by (simp add: integer_defs bignum_method_defs bignum_binop_defs)
  next
    case (2 d)
    then show ?thesis using x subtract_two_canonical[of c d]
      by (simp add: integer_defs bignum_method_defs bignum_binop_defs)
  qed
qed

section \<open>Products\<close>

text \<open>A Bignum product is made in a new object, whose sign stays 1: it is the absolute value of the
  product, in a Bignum even when it is 0.\<close>

lemma multiply_two_val:
  assumes "bignum_ok a" "bignum_ok b"
  shows "bignum_ok (multiply_two_bignum a b)"
    "bignum_val (multiply_two_bignum a b) = \<bar>bignum_val a * bignum_val b\<bar>"
  using bignum_val_sign(5)[OF assms(1)] bignum_val_sign(5)[OF assms(2)]
  by (simp_all add: multiply_two_bignum_def bignum_ok_def bignum_val_def[of "_\<lparr>BIGNUM_NUM := _\<rparr>"]
      bdMultiply_val abs_mult)

definition exact_value :: "('f, 's) yog_number res \<Rightarrow> int \<Rightarrow> bool" where
  "exact_value s z \<longleftrightarrow> (\<exists>r. s = Inr r \<and> number_ok r \<and> number_val r = Some z)"

lemma exact_value_simps [simp]:
  "exact_value (Inr (YFixnum n)) z \<longleftrightarrow> FIXABLE n \<and> n = z"
  "exact_value (Inr (big b)) z \<longleftrightarrow> bignum_ok b \<and> bignum_val b = z"
  "\<not> exact_value (Inl e) z"
  by (auto simp: exact_value_def)

lemma exact_canonical_value: "exact_canonical s z \<Longrightarrow> exact_value s z"
  by (auto simp: exact_canonical_def exact_value_def canonical_def)

lemma big_product:
  assumes "bignum_ok a" "bignum_ok b" "bignum_val a * bignum_val b = z"
  shows "exact_value (Inr (big (multiply_two_bignum a b))) \<bar>z\<bar>"
  using assms multiply_two_val[OF assms(1,2)] by simp

lemma multiply_int_run:
  assumes "FIXABLE n" "FIXABLE m"
  shows "exact_value (num_run F M (multiply_int n m)) (if FIXABLE (n * m) then n * m else \<bar>n * m\<bar>)"
proof (cases "n = 0 \<or> FIXABLE (n * m)")
  case True
  then show ?thesis by (auto simp: multiply_int_def Let_def sdiv_cancel FIXABLE_iff[of 0])
next
  case False
  then have "\<not> (iwrap (n * m) sdiv n = m \<and> FIXABLE (iwrap (n * m)))"
    using multiply_check[OF _ assms(1), of m] by auto
  then have "num_run F M (multiply_int n m)
      = Inr (big (multiply_two_bignum (YogBignum_from_int m) (YogBignum_from_int n)))"
    using False by (simp add: multiply_int_def Let_def YogBignum_binop_multiply_def)
  then show ?thesis
    using False big_product[of "YogBignum_from_int m" "YogBignum_from_int n" "n * m"]
      from_fixnum_ok[OF assms(1)] from_fixnum_ok[OF assms(2)] by (simp add: mult.commute)
qed

lemma integer_multiply_value:
  assumes "canonical x a" "canonical y b"
  shows "exact_value (integer_multiply F M x y)
    (if FIXABLE a \<and> FIXABLE b \<and> FIXABLE (a * b) then a * b else \<bar>a * b\<bar>)"
  using assms(1)
proof (cases rule: canonical_cases)
  case x: 1
  show ?thesis using assms(2)
  proof (cases rule: canonical_cases)
    case 1
    then show ?thesis using x multiply_int_run[of a b F M]
      by (simp add: integer_defs fixnum_method_defs fixnum_binop_defs)
  next
    case (2 d)
    then show ?thesis using x big_product[of "YogBignum_from_int a" d] from_fixnum_ok[of a]
      by (simp add: integer_defs fixnum_method_defs fixnum_binop_defs bignum_binop_defs)
  qed
next
  case x: (2 c)
  show ?thesis using assms(2)
  proof (cases rule: canonical_cases)
    case 1
    then show ?thesis using x big_product[of "YogBignum_from_int b" c] from_fixnum_ok[of b]
      by (simp add: integer_defs bignum_method_defs bignum_binop_defs mult.commute)
  next
    case (2 d)
    then show ?thesis using x big_product[of c d]
      by (simp add: integer_defs bignum_method_defs bignum_binop_defs)
  qed
qed

section \<open>Floor division and remainder\<close>

text \<open>The quotient of the magnitudes, and under different signs minus its successor: one too small
  when the division has no remainder.\<close>

definition floor_quotient :: "int \<Rightarrow> int \<Rightarrow> int" where
  "floor_quotient a b =
     (if (0 \<le> a) = (0 \<le> b) then \<bar>a\<bar> div \<bar>b\<bar> else - (\<bar>a\<bar> div \<bar>b\<bar>) - 1)"

lemma floor_quotient_div:
  assumes "b \<noteq> 0"
  shows "floor_quotient a b = (if (0 \<le> a) \<noteq> (0 \<le> b) \<and> b dvd a then a div b - 1 else a div b)"
proof -
  have neg: "- \<bar>a\<bar> div \<bar>b\<bar> = (if b dvd a then - (\<bar>a\<bar> div \<bar>b\<bar>) else - (\<bar>a\<bar> div \<bar>b\<bar>) - 1)"
    using zdiv_zminus1_eq_if[of "\<bar>b\<bar>" "\<bar>a\<bar>"] assms by (auto simp: dvd_eq_mod_eq_0[symmetric])
  have "a div b = (if (0 \<le> a) = (0 \<le> b) then \<bar>a\<bar> div \<bar>b\<bar> else - \<bar>a\<bar> div \<bar>b\<bar>)"
    by (cases "0 \<le> a"; cases "0 \<le> b") (simp_all add: div_minus_right)
  then show ?thesis using neg by (auto simp: floor_quotient_def)
qed

lemma floor_divide_val:
  assumes "bignum_ok a" "bignum_ok b" "bignum_val b \<noteq> 0"
  shows "\<exists>q. floor_divide_bignum_without_normalizing a b = Inr q \<and> bignum_ok q
    \<and> bignum_val q = floor_quotient (bignum_val a) (bignum_val b)"
proof -
  let ?x = "BIGNUM_NUM a" and ?y = "BIGNUM_NUM b"
  have d: "digits_val ?x = \<bar>bignum_val a\<bar>" "digits_val ?y = \<bar>bignum_val b\<bar>"
    using bignum_val_sign(5) assms(1,2) by blast+
  then have nz: "digits_val ?y \<noteq> 0" using assms(3) by simp
  have s: "BIGNUM_SIGN a = BIGNUM_SIGN b \<longleftrightarrow> (0 \<le> bignum_val a) = (0 \<le> bignum_val b)"
    using bignum_val_sign(1)[OF assms(1)] bignum_val_sign(1)[OF assms(2)]
      bignum_okD(1)[OF assms(1)] bignum_okD(1)[OF assms(2)] by auto
  have p: "0 \<le> \<bar>bignum_val a\<bar> div \<bar>bignum_val b\<bar>" using assms(3) by (simp add: pos_imp_zdiv_nonneg_iff)
  show ?thesis
  proof (cases "BIGNUM_SIGN a = BIGNUM_SIGN b")
    case True
    then show ?thesis using s nz d
      by (simp add: floor_divide_bignum_without_normalizing_def bdIsZero_val divide_BIGD_def
          bdDivide_val[OF nz] bignum_ok_def bignum_val_def[of "_\<lparr>BIGNUM_NUM := _\<rparr>"] floor_quotient_def)
  next
    case False
    then show ?thesis using s nz d p
      by (simp add: floor_divide_bignum_without_normalizing_def bdIsZero_val divide_BIGD_def Let_def
          bdDivide_val[OF nz] bignum_ok_def bignum_val_def[of "_\<lparr>BIGNUM_SIGN := _\<rparr>"] floor_quotient_def)
  qed
qed

lemma floor_divide_canonical:
  assumes "bignum_ok a" "bignum_ok b" "bignum_val b \<noteq> 0"
  shows "exact_canonical (floor_divide_bignum a b) (floor_quotient (bignum_val a) (bignum_val b))"
  using floor_divide_val[OF assms] canonical_normalize
  by (force simp: floor_divide_bignum_def exact_canonical_def)

lemma modulo_canonical:
  assumes "bignum_ok a" "bignum_ok b" "bignum_val b \<noteq> 0" "0 \<le> bignum_val a"
    "floor_divide_bignum_without_normalizing a b = Inr q" "bignum_ok p"
    "bignum_val p = \<bar>bignum_val q * bignum_val b\<bar>"
  shows "exact_canonical (subtract_two_bignum a p)
    (bignum_val a - \<bar>floor_quotient (bignum_val a) (bignum_val b) * bignum_val b\<bar>)"
proof -
  let ?m = "(bignum_copy p)\<lparr>BIGNUM_SIGN := - BIGNUM_SIGN p\<rparr>"
  have m: "bignum_val ?m = - bignum_val p" "BIGNUM_SIGN ?m = - 1"
    using bignum_val_sign(1)[OF assms(6)] assms(7)
    by (auto simp: bignum_copy_def Let_def bignum_val_def)
  have "exact_canonical (add_two_bignum a ?m) (bignum_val a + bignum_val ?m)"
  proof (rule add_two_canonicalI)
    assume "BIGNUM_SIGN a = BIGNUM_SIGN ?m"
    then show "\<not> FIXABLE (bignum_val a + bignum_val ?m)"
      using bignum_val_sign(1)[OF assms(1)] assms(4) m(2) by simp
  qed (use assms(1) bignum_ok_sign m(2) in \<open>auto simp: sign_ok_def\<close>)
  moreover have "bignum_val q = floor_quotient (bignum_val a) (bignum_val b)"
    using floor_divide_val[OF assms(1-3)] assms(5) by auto
  ultimately show ?thesis using assms(7) by (simp add: subtract_two_bignum_def Let_def m)
qed

text \<open>Division with a Bignum on at least one side.\<close>

lemma integer_floor_divide_value:
  assumes "canonical x a" "canonical y b" "b \<noteq> 0" "\<not> (FIXABLE a \<and> FIXABLE b)"
  shows "exact_canonical (integer_floor_divide F M x y) (floor_quotient a b)"
  using assms(1)
proof (cases rule: canonical_cases)
  case x: 1
  show ?thesis using assms(2)
  proof (cases rule: canonical_cases)
    case (2 d)
    then show ?thesis
      using x floor_divide_canonical[of "YogBignum_from_int a" d] from_fixnum_ok[of a] assms(3)
      by (simp add: integer_defs fixnum_method_defs fixnum_binop_defs bignum_binop_defs)
  qed (use x assms(4) in blast)
next
  case x: (2 c)
  show ?thesis using assms(2)
  proof (cases rule: canonical_cases)
    case 1
    then show ?thesis
      using x floor_divide_canonical[of c "YogBignum_from_int b"] from_fixnum_ok[of b] assms(3)
      by (simp add: integer_defs bignum_method_defs bignum_binop_defs)
  next
    case (2 d)
    then show ?thesis using x floor_divide_canonical[of c d] assms(3)
      by (simp add: integer_defs bignum_method_defs bignum_binop_defs)
  qed
qed

lemma integer_floor_divide_zero:
  assumes "bignum_ok c"
  shows "integer_floor_divide F M (big c) (YFixnum 0) = Inl (ZeroDivisionError ''Bignum division by zero'')"
  by (simp add: integer_defs bignum_method_defs bignum_binop_defs floor_divide_bignum_def
      floor_divide_bignum_without_normalizing_def YogBignum_from_int_def bdIsZero_val Let_def)

lemma bignum_modulo_run:
  assumes "bignum_ok c" "bignum_ok d" "bignum_val d \<noteq> 0" "0 \<le> bignum_val c"
    "y = big d \<or> y = YFixnum (bignum_val d) \<and> FIXABLE (bignum_val d) \<and> d = YogBignum_from_int (bignum_val d)"
  shows "exact_canonical (YogBignum_modulo F c y)
    (bignum_val c - \<bar>floor_quotient (bignum_val c) (bignum_val d) * bignum_val d\<bar>)"
proof -
  obtain q where q: "floor_divide_bignum_without_normalizing c d = Inr q" "bignum_ok q"
    using floor_divide_val[OF assms(1-3)] by blast
  define p where "p = (if y = big d then multiply_two_bignum q d else multiply_two_bignum d q)"
  have p: "bignum_ok p" "bignum_val p = \<bar>bignum_val q * bignum_val d\<bar>"
    using multiply_two_val[OF q(2) assms(2)] multiply_two_val[OF assms(2) q(2)]
    by (simp_all add: p_def mult.commute)
  have "YogBignum_modulo F c y = subtract_two_bignum c p"
    using assms(5)
  proof
    assume "y = big d"
    then show ?thesis
      by (simp add: YogBignum_modulo_def denormalize_to_bignum_def q bignum_binop_defs p_def)
  next
    assume y: "y = YFixnum (bignum_val d) \<and> FIXABLE (bignum_val d) \<and> d = YogBignum_from_int (bignum_val d)"
    then have "denormalize_to_bignum y = Inr d" "YogBignum_binop_multiply F q y = Inr (big p)"
      by (auto simp: denormalize_to_bignum_def YogBignum_binop_multiply_def p_def)
    then show ?thesis by (simp add: YogBignum_modulo_def q YogBignum_binop_subtract_def)
  qed
  then show ?thesis using modulo_canonical[OF assms(1-4) q(1) p] by simp
qed

lemma floor_quotient_mod:
  assumes "0 \<le> a" "b \<noteq> 0" "0 < b \<or> \<not> b dvd a"
  shows "a - \<bar>floor_quotient a b * b\<bar> = a mod b"
proof -
  have q: "floor_quotient a b = a div b" using assms by (auto simp: floor_quotient_div)
  have "0 \<le> a div b * b"
    using assms(1,2) by (cases "0 < b") (auto simp: pos_imp_zdiv_nonneg_iff neg_imp_zdiv_nonneg_iff
        mult_nonpos_nonpos div_nonneg_neg_le0 linorder_not_less)
  then show ?thesis using q by (simp add: minus_div_mult_eq_mod)
qed

lemma integer_modulo_exact:
  assumes "canonical x a" "canonical y b" "b \<noteq> 0" "\<not> (FIXABLE a \<and> FIXABLE b)" "0 \<le> a"
    "0 < b \<or> \<not> b dvd a"
  shows "exact_canonical (integer_modulo F M x y) (a mod b)"
proof -
  have e: "a - \<bar>floor_quotient a b * b\<bar> = a mod b" by (rule floor_quotient_mod[OF assms(5,3,6)])
  show ?thesis using assms(1)
  proof (cases rule: canonical_cases)
    case x: 1
    show ?thesis using assms(2)
    proof (cases rule: canonical_cases)
      case (2 d)
      then show ?thesis
        using x bignum_modulo_run[of "YogBignum_from_int a" d y F] from_fixnum_ok[of a] assms(3,5) e
        by (simp add: integer_defs fixnum_method_defs fixnum_binop_defs bignum_binop_defs)
    qed (use x assms(4) in blast)
  next
    case x: (2 c)
    show ?thesis using assms(2)
    proof (cases rule: canonical_cases)
      case 1
      then show ?thesis
        using x bignum_modulo_run[of c "YogBignum_from_int b" y F] from_fixnum_ok[of b] assms(3,5) e
        by (simp add: integer_defs bignum_method_defs bignum_binop_defs)
    next
      case (2 d)
      then show ?thesis using x bignum_modulo_run[of c d y F] assms(3,5) e
        by (simp add: integer_defs bignum_method_defs bignum_binop_defs)
    qed
  qed
qed

section \<open>Shifts\<close>

text \<open>The room of a shift: what an address space can hold of digits.\<close>

definition shiftable :: "yog_bignum \<Rightarrow> bool" where
  "shiftable b \<longleftrightarrow> length (BIGNUM_NUM b) < 2 ^ 60"

lemma to_uint_width:
  assumes "0 \<le> w" "FIXABLE w"
  shows "to_uint w = nat w" "nat w div 64 < 2 ^ 56"
proof -
  have "w < 2 ^ 62" using assms(2) by (simp add: FIXABLE_iff)
  then have "nat w < 2 ^ 62" using assms(1) by (simp add: nat_less_iff)
  then show "nat w div 64 < 2 ^ 56" by (intro less_mult_imp_div_less) simp
  show "to_uint w = nat w" using assms by (simp add: FIXABLE_iff)
qed

lemma lshift_val:
  assumes "bignum_ok b" "shiftable b" "0 \<le> w" "FIXABLE w"
  shows "\<exists>r. YogBignum_lshift b w = Inr r \<and> bignum_ok r \<and> bignum_val r = bignum_val b * 2 ^ nat w"
proof -
  have "length (BIGNUM_NUM b) + nat w div 64 + 1 < 2 ^ 60 + 2 ^ 56 + 1"
    using assms(2) to_uint_width[OF assms(3,4)] unfolding shiftable_def by linarith
  then have "length (BIGNUM_NUM b) + nat w div 64 + 1 < 2 ^ 64"
    by (rule less_le_trans) simp
  then obtain a where "bdShiftLeft (BIGNUM_NUM b) (nat w) = Inr a"
      "digits_val a = 2 ^ nat w * digits_val (BIGNUM_NUM b)"
    using bdShiftLeft_val[of "BIGNUM_NUM b" "nat w"] by blast
  then show ?thesis using assms(1) to_uint_width[OF assms(3,4)]
    by (simp add: YogBignum_lshift_def bignum_ok_def bignum_val_def)
qed

lemma rshift_val:
  assumes "bignum_ok b" "0 \<le> w" "FIXABLE w" "w < 64 \<or> nat w div 64 \<le> length (BIGNUM_NUM b)"
  shows "\<exists>r. YogBignum_rshift b w = Inr r \<and> bignum_ok r
    \<and> bignum_val r = (if 0 \<le> bignum_val b then bignum_val b div 2 ^ nat w
                      else - (\<bar>bignum_val b\<bar> div 2 ^ nat w) - 1)"
proof -
  have "nat w < 64 \<or> nat w div 64 \<le> length (BIGNUM_NUM b)" using assms(4) by auto
  then obtain a where a: "bdShiftRight (BIGNUM_NUM b) (nat w) = Inr a"
      "digits_val a = digits_val (BIGNUM_NUM b) div 2 ^ nat w"
    using bdShiftRight_val by blast
  have d: "digits_val (BIGNUM_NUM b) = \<bar>bignum_val b\<bar>" by (rule bignum_val_sign(5)[OF assms(1)])
  have "0 \<le> digits_val a" by simp
  then show ?thesis using a d bignum_val_sign(1,2)[OF assms(1)] to_uint_width[OF assms(2,3)]
      bignum_okD(1)[OF assms(1)]
    by (auto simp: YogBignum_rshift_def Let_def bignum_ok_def bignum_val_def[of "_\<lparr>BIGNUM_SIGN := _\<rparr>"]
        bignum_val_def[of "_\<lparr>BIGNUM_NUM := _\<rparr>"] simp del: digits_val_nonneg)
qed

lemma do_lshift_run:
  assumes "FIXABLE a" "0 < w" "FIXABLE w"
  shows "exact_value (res_bind (do_lshift a w) (num_run F M)) (a * 2 ^ nat w)"
proof (cases "w < 64 \<and> drop_bit (nat w) (iwrap (push_bit (nat w) a)) = a
               \<and> FIXABLE (iwrap (push_bit (nat w) a))")
  case True
  then have "iwrap (push_bit (nat w) a) = push_bit (nat w) a" by (intro shift_check) auto
  with True assms show ?thesis by (auto simp: do_lshift_def push_bit_eq_mult)
next
  case False
  have "shiftable (YogBignum_from_int a)"
    by (simp add: shiftable_def YogBignum_from_int_def Let_def bdSetShort_def)
  then show ?thesis using False assms lshift_val[of "YogBignum_from_int a" w] from_fixnum_ok[of a]
    by (auto simp: do_lshift_def Let_def)
qed

lemma integer_lshift_value:
  assumes "canonical x a" "0 < w" "FIXABLE w" "\<And>c. x = big c \<Longrightarrow> shiftable c"
  shows "exact_value (integer_lshift F M x (YFixnum w)) (a * 2 ^ nat w)"
  using assms(1)
proof (cases rule: canonical_cases)
  case 1
  then show ?thesis using do_lshift_run[of a w F M] assms
    by (simp add: integer_defs fixnum_method_defs fixnum_binop_defs)
next
  case (2 c)
  then show ?thesis using lshift_val[of c w] assms
    by (auto simp: integer_defs bignum_method_defs bignum_binop_defs)
qed

lemma integer_rshift_value:
  assumes "bignum_ok c" "0 < w" "FIXABLE w" "w < 64 \<or> nat w div 64 \<le> length (BIGNUM_NUM c)"
  shows "exact_value (integer_rshift F M (big c) (YFixnum w))
    (if 0 \<le> bignum_val c then bignum_val c div 2 ^ nat w else - (\<bar>bignum_val c\<bar> div 2 ^ nat w) - 1)"
  using rshift_val[of c w] assms by (auto simp: integer_defs bignum_method_defs bignum_binop_defs)

lemma integer_rshift_overruns:
  assumes "0 < w" "FIXABLE w" "length (BIGNUM_NUM c) < nat w div 64"
  shows "integer_rshift F M (big c) (YFixnum w) = Inl MemFault"
  using assms to_uint_width[of w]
  by (simp add: integer_defs bignum_method_defs bignum_binop_defs YogBignum_rshift_def bdShiftRight_overruns)

section \<open>Powers\<close>

text \<open>The power of a Bignum is that of its absolute value: \<^verbatim>\<open>YogBignum_clone\<close> does not copy the sign.\<close>

lemma bignum_power_loop_val:
  "digits_val (bignum_power_loop n num m) = digits_val num * digits_val m ^ n"
  by (induction n arbitrary: num) (simp_all add: mult.assoc)

lemma power_val:
  assumes "bignum_ok b" "0 < e"
  shows "exact_value (Inr (YogBignum_power F b e)) \<bar>bignum_val b ^ nat e\<bar>"
proof -
  have "nat e = Suc (nat (e - 1))" using assms(2) by simp
  then have "\<bar>bignum_val b\<bar> ^ nat e = \<bar>bignum_val b\<bar> * \<bar>bignum_val b\<bar> ^ nat (e - 1)" by simp
  then show ?thesis using assms(2) bignum_val_sign(5)[OF assms(1)]
    by (simp add: YogBignum_power_def Let_def bignum_ok_def bignum_val_def[of "_\<lparr>BIGNUM_NUM := _\<rparr>"]
        YogBignum_clone_def bignum_power_loop_val power_abs)
qed

lemma integer_power_value:
  assumes "canonical x a" "FIXABLE e" "0 \<le> e"
  shows "exact_value (integer_power F M x (YFixnum e)) (a ^ nat e)
    \<or> exact_value (integer_power F M x (YFixnum e)) \<bar>a ^ nat e\<bar>"
  using assms(1)
proof (cases rule: canonical_cases)
  case x: 1
  show ?thesis
  proof (cases "e = 0")
    case True
    then show ?thesis using x
      by (simp add: integer_defs fixnum_method_defs fixnum_binop_defs power_int_def FIXABLE_iff[of 1])
  next
    case False
    then have e: "nat e = Suc (nat (e - 1))" "0 < e" using assms(3) by simp_all
    show ?thesis
    proof (cases "power_loop a a e")
      case None
      then have r: "integer_power F M x (YFixnum e) = Inr (YogBignum_power F (YogBignum_from_int a) e)"
        using x e by (simp add: integer_defs fixnum_method_defs fixnum_binop_defs power_int_def)
      have "bignum_ok (YogBignum_from_int a)" "bignum_val (YogBignum_from_int a) = a"
        using from_fixnum_ok x by blast+
      note p = power_val[OF this(1) e(2), unfolded this(2)]
      show ?thesis unfolding r by (rule disjI2, rule p)
    next
      case (Some r)
      then have "r = a * a ^ nat (e - 1) \<and> FIXABLE r" using x by (intro power_loop_exact) auto
      then show ?thesis using x e Some
        by (auto simp: integer_defs fixnum_method_defs fixnum_binop_defs power_int_def)
    qed
  qed
next
  case (2 c)
  then show ?thesis using power_val[of c e F] assms(2,3)
    by (cases "e = 0") (auto simp: integer_defs bignum_method_defs bignum_binop_defs YogBignum_power_def
        FIXABLE_iff[of 1])
qed

section \<open>Bits, signs, order\<close>

lemma integer_bits_value:
  assumes "bignum_ok c" "bignum_ok d" "0 \<le> bignum_val c" "0 \<le> bignum_val d"
  shows "exact_canonical (Inr (xor_bignum c d)) (bignum_val c XOR bignum_val d)"
    "exact_canonical (Inr (and_bignum c d)) (bignum_val c AND bignum_val d)"
    "exact_value (Inr (big (or_bignum c d))) (bignum_val c OR bignum_val d)"
proof -
  have v: "digits_val (BIGNUM_NUM c) = bignum_val c" "digits_val (BIGNUM_NUM d) = bignum_val d"
    using bignum_val_sign(5)[OF assms(1)] bignum_val_sign(5)[OF assms(2)] assms(3,4) by simp_all
  have n: "exact_canonical (Inr (normalize (YogBignum_new\<lparr>BIGNUM_NUM := x\<rparr>))) (digits_val x)" for x
    using canonical_normalize[of "YogBignum_new\<lparr>BIGNUM_NUM := x\<rparr>"]
    by (simp add: exact_canonical_def bignum_ok_def bignum_val_def)
  show "exact_canonical (Inr (xor_bignum c d)) (bignum_val c XOR bignum_val d)"
    "exact_canonical (Inr (and_bignum c d)) (bignum_val c AND bignum_val d)"
    using n[of "bdXorBits (BIGNUM_NUM c) (BIGNUM_NUM d)"] n[of "bdAndBits (BIGNUM_NUM c) (BIGNUM_NUM d)"]
    by (simp_all add: xor_bignum_def and_bignum_def bdBits_val v)
  show "exact_value (Inr (big (or_bignum c d))) (bignum_val c OR bignum_val d)"
    by (simp add: or_bignum_def bignum_ok_def bignum_val_def[of "_\<lparr>BIGNUM_NUM := _\<rparr>"] bdBits_val v)
qed

lemma ufo_two_sgn:
  assumes "bignum_ok a" "bignum_ok b"
  shows "ufo_two_bignum a b = YFixnum (sgn (bignum_val a - bignum_val b))"
proof -
  have "sgn (bignum_val a - bignum_val b) =
    (if BIGNUM_SIGN a < BIGNUM_SIGN b then - 1 else if BIGNUM_SIGN b < BIGNUM_SIGN a then 1
     else BIGNUM_SIGN a * bdCompare (BIGNUM_NUM a) (BIGNUM_NUM b))"
    using bignum_okD(1,2)[OF assms(1)] bignum_okD(1,2)[OF assms(2)]
    unfolding bignum_val_def by (intro bd.signed_order) auto
  then show ?thesis using bignum_okD(1)[OF assms(1)]
    by (auto simp: ufo_two_bignum_def Let_def bdCompare_val sgn_if FIXABLE_iff)
qed

definition is_bignum_val :: "('f, 's) yog_number \<Rightarrow> bool" where
  "is_bignum_val v = (case v of YPtr (OBignum b) \<Rightarrow> bignum_ok b | _ \<Rightarrow> False)"

definition integer_of :: "('f, 's) yog_number \<Rightarrow> int" where
  "integer_of v = (case number_val v of Some z \<Rightarrow> z | None \<Rightarrow> 0)"

lemma is_bignum_valE:
  assumes "is_bignum_val v"
  obtains b where "v = big b" "bignum_ok b"
  using assms by (auto simp: is_bignum_val_def split: yval.splits operand_obj.splits)

lemma integer_of_simps [simp]: "integer_of (big b) = bignum_val b" "integer_of (YFixnum n) = n"
  by (simp_all add: integer_of_def)

lemma bignum_ufo_sgn:
  assumes "bignum_ok b"
  shows "bignum_ok c \<Longrightarrow> bignum_ufo (big b) (big c) = Inr (YFixnum (sgn (bignum_val b - bignum_val c)))"
    "FIXABLE n \<Longrightarrow> bignum_ufo (big b) (YFixnum n) = Inr (YFixnum (sgn (bignum_val b - n)))"
  using assms by (simp_all add: bignum_method_defs bignum_binop_defs ufo_two_sgn from_fixnum_ok)

interpretation bigcmp: ufo_order bignum_ufo is_bignum_val integer_of
  by unfold_locales
     (auto simp: bignum_ufo_sgn sgn_if elim!: is_bignum_valE split: if_splits)

section \<open>Properties\<close>

text \<open>Parameters for the instances: doubles as integers, and a String class whose strings are units.\<close>

definition big_floats :: "(int, yog_bignum) float_ops" where
  "big_floats = \<lparr>f_of_int = (\<lambda>n. n), f_of_bignum = bignum_val, f_add = (+), f_sub = (-), f_mul = (*),
     f_div = (div), f_pow = (\<lambda>x y. x ^ nat y), f_power = (\<lambda>x n. x ^ nat n), f_is_zero = (\<lambda>x. x = 0)\<rparr>"

definition unit_mul :: "unit \<Rightarrow> int \<Rightarrow> unit res" where
  "unit_mul s n = Inr s"

definition big_of :: "int \<Rightarrow> (int, unit) yog_number" where
  "big_of n = big (YogBignum_from_int n)"

lemma canonical_big_of:
  assumes "- (2 ^ 63) \<le> n" "n < 2 ^ 63" "\<not> FIXABLE n"
  shows "canonical (big_of n) n"
  using canonical_big from_int_ok[OF assms(1,2)] assms(3) by (auto simp: big_of_def)

text \<open>C9: addition and subtraction of two integers, Fixnum or Bignum in any combination, return the
  exact integer and never lose the representation invariant: the result is a Fixnum exactly when it
  fits one, and otherwise a Bignum with a sign and the magnitude.\<close>

theorem integer_sums_exact:
  assumes "canonical x a" "canonical y b"
  shows "exact_canonical (integer_add F M x y) (a + b) \<and> exact_canonical (integer_subtract F M x y) (a - b)"
  using integer_add_canonical[OF assms] integer_subtract_canonical[OF assms] by blast

theorem integer_sums_exact_witness:
  "exact_canonical (integer_add big_floats unit_mul (big_of (2 ^ 62)) (YFixnum (- 1))) (2 ^ 62 + - 1)
   \<and> exact_canonical (integer_subtract big_floats unit_mul (big_of (2 ^ 62)) (YFixnum (- 1))) (2 ^ 62 - - 1)"
  by (rule integer_sums_exact) (auto intro!: canonical_big_of canonical_fix simp: FIXABLE_iff)

text \<open>The product of two integers is exact when it stays in the Fixnums; as soon as Bignum computes
  it, its value is the absolute value of the product, because the sign of the result is never set.\<close>

lemma integer_product_magnitude:
  assumes "canonical x a" "canonical y b"
  shows "exact_value (integer_multiply F M x y)
    (if FIXABLE a \<and> FIXABLE b \<and> FIXABLE (a * b) then a * b else \<bar>a * b\<bar>)"
  by (rule integer_multiply_value[OF assms])

lemma integer_product_magnitude_instance:
  "exact_value (integer_multiply big_floats unit_mul (big_of (2 ^ 62)) (YFixnum (- 3)))
    (if FIXABLE (2 ^ 62) \<and> FIXABLE (- 3) \<and> FIXABLE (2 ^ 62 * - 3) then 2 ^ 62 * - 3 else \<bar>2 ^ 62 * - 3\<bar>)"
  by (rule integer_product_magnitude) (auto intro!: canonical_big_of canonical_fix simp: FIXABLE_iff)

text \<open>C11: floor division with a Bignum on at least one side returns the canonical integer that is the
  floor of the quotient, except that an exact quotient of operands of different signs is one too
  small.\<close>

theorem integer_floor_division:
  assumes "canonical x a" "canonical y b" "b \<noteq> 0" "\<not> (FIXABLE a \<and> FIXABLE b)"
  shows "exact_canonical (integer_floor_divide F M x y)
    (if (0 \<le> a) \<noteq> (0 \<le> b) \<and> b dvd a then a div b - 1 else a div b)"
  using integer_floor_divide_value[OF assms] by (simp add: floor_quotient_div[OF assms(3)])

theorem integer_floor_division_witness:
  "exact_canonical (integer_floor_divide big_floats unit_mul (big_of (2 ^ 62)) (YFixnum (- 3)))
    (if (0 \<le> (2 ^ 62 :: int)) \<noteq> (0 \<le> (- 3 :: int)) \<and> (- 3 :: int) dvd 2 ^ 62 then 2 ^ 62 div - 3 - 1 else 2 ^ 62 div - 3)"
  by (rule integer_floor_division) (auto intro!: canonical_big_of canonical_fix simp: FIXABLE_iff)

text \<open>C35: the remainder with a Bignum on at least one side is the mathematical one, in canonical form,
  when the dividend is not negative and the division is not an exact one by a negative divisor.\<close>

theorem integer_remainder_exact:
  assumes "canonical x a" "canonical y b" "b \<noteq> 0" "\<not> (FIXABLE a \<and> FIXABLE b)" "0 \<le> a"
    "b < 0 \<Longrightarrow> \<not> b dvd a"
  shows "exact_canonical (integer_modulo F M x y) (a mod b)"
  using assms(3,6) by (intro integer_modulo_exact[OF assms(1-5)]) linarith

theorem integer_remainder_exact_witness:
  "exact_canonical (integer_modulo big_floats unit_mul (big_of (2 ^ 62 + 5)) (YFixnum (- 1000))) ((2 ^ 62 + 5) mod - 1000)"
  by (rule integer_remainder_exact) (auto intro!: canonical_big_of canonical_fix simp: FIXABLE_iff)

text \<open>C36: the left shift by a positive width multiplies any integer by the power of two, exactly; the
  right shift of a Bignum that is not negative, by less than its length, is the floor of the division
  by it.\<close>

theorem integer_shifts_exact:
  assumes "canonical x a" "0 < w" "FIXABLE w" "\<And>c. x = big c \<Longrightarrow> shiftable c"
    "bignum_ok c" "0 \<le> bignum_val c" "w < 64 \<or> nat w div 64 \<le> length (BIGNUM_NUM c)"
  shows "exact_value (integer_lshift F M x (YFixnum w)) (a * 2 ^ nat w)
    \<and> exact_value (integer_rshift F M (big c) (YFixnum w)) (bignum_val c div 2 ^ nat w)"
  using integer_lshift_value[OF assms(1-4)] integer_rshift_value[OF assms(5,2,3,7)] assms(6) by simp

theorem integer_shifts_exact_witness:
  "exact_value (integer_lshift big_floats unit_mul (big_of (- (2 ^ 63))) (YFixnum 70)) (- (2 ^ 63) * 2 ^ nat 70)
    \<and> exact_value (integer_rshift big_floats unit_mul (big (YogBignum_from_int (2 ^ 62))) (YFixnum 70))
        (bignum_val (YogBignum_from_int (2 ^ 62)) div 2 ^ nat 70)"
proof (rule integer_shifts_exact)
  show "canonical (big_of (- (2 ^ 63))) (- (2 ^ 63))"
    by (rule canonical_big_of) (simp_all add: FIXABLE_iff)
  show "shiftable c" if "big_of (- (2 ^ 63)) = big c" for c
    using that by (auto simp: big_of_def shiftable_def YogBignum_from_int_def Let_def bdSetShort_def)
qed (use from_int_ok[of "2 ^ 62"] in \<open>simp_all add: FIXABLE_iff\<close>,
  simp add: YogBignum_from_int_def Let_def bdSetShort_def)

text \<open>Shifting a Bignum to the right by a whole digit or more beyond its length reads the digit
  array outside of its bounds.\<close>

lemma integer_rshift_overreads:
  assumes "0 < w" "FIXABLE w" "length (BIGNUM_NUM c) < nat w div 64"
  shows "integer_rshift F M (big c) (YFixnum w) = Inl MemFault"
  by (rule integer_rshift_overruns[OF assms])

lemma integer_rshift_overreads_instance:
  "integer_rshift big_floats unit_mul (big (YogBignum_from_int (2 ^ 62))) (YFixnum 128) = Inl MemFault"
  by (rule integer_rshift_overreads)
     (simp_all add: FIXABLE_iff YogBignum_from_int_def Let_def bdSetShort_def)

text \<open>C37: a power with an exponent that is not negative is computed for every integer, and its value is
  the exact power up to the sign, hence exact for a base that is not negative and for an even
  exponent.\<close>

theorem integer_power_magnitude:
  assumes "canonical x a" "FIXABLE e" "0 \<le> e"
  shows "\<exists>z. exact_value (integer_power F M x (YFixnum e)) z \<and> \<bar>z\<bar> = \<bar>a ^ nat e\<bar>
    \<and> (0 \<le> a \<or> even e \<longrightarrow> z = a ^ nat e)"
proof -
  have "0 \<le> a ^ nat e" if "0 \<le> a \<or> even e"
    using that assms(3) by (auto simp: even_nat_iff zero_le_even_power)
  then show ?thesis using integer_power_value[OF assms, of F M] by auto
qed

theorem integer_power_magnitude_witness:
  "\<exists>z. exact_value (integer_power big_floats unit_mul (YFixnum (- 3)) (YFixnum 41)) z \<and> \<bar>z\<bar> = \<bar>(- 3) ^ nat 41\<bar>"
  using integer_power_magnitude[of "YFixnum (- 3)" "- 3" 41 big_floats unit_mul]
  by (auto simp: canonical_fix FIXABLE_iff)

text \<open>The six comparison methods that Bignum gets from the Comparable mixin are the order of the
  integers on any two Bignums that are no negative zero.\<close>

lemma bignum_comparison_order:
  assumes "bignum_ok a" "bignum_ok b"
  shows "less_than bignum_ufo (big a) (big b) = Inr (bignum_val a < bignum_val b)
    \<and> less_equal bignum_ufo (big a) (big b) = Inr (bignum_val a \<le> bignum_val b)
    \<and> greater_than bignum_ufo (big a) (big b) = Inr (bignum_val b < bignum_val a)
    \<and> greater_equal bignum_ufo (big a) (big b) = Inr (bignum_val b \<le> bignum_val a)
    \<and> equal_to bignum_ufo (big a) (big b) = Inr (bignum_val a = bignum_val b)
    \<and> not_equal bignum_ufo (big a) (big b) = Inr (bignum_val a \<noteq> bignum_val b)"
  using bigcmp.derived_order[of "big a" "big b"] assms by (simp add: is_bignum_val_def)

lemma bignum_comparison_order_instance:
  "less_than bignum_ufo (big_of (- (2 ^ 63))) (big_of (2 ^ 62)) = Inr (bignum_val (YogBignum_from_int (- (2 ^ 63))) < bignum_val (YogBignum_from_int (2 ^ 62)))"
  using bignum_comparison_order[of "YogBignum_from_int (- (2 ^ 63))" "YogBignum_from_int (2 ^ 62)"]
    from_int_ok[of "- (2 ^ 63)"] from_int_ok[of "2 ^ 62"] unfolding big_of_def by auto

text \<open>The mixed comparison is not symmetric: a Bignum compares itself with a Fixnum, a Fixnum answers nil
  to a Bignum, on which the order methods raise.\<close>

lemma mixed_comparison:
  assumes "FIXABLE n" "bignum_ok b"
  shows "bignum_ufo (big b) (YFixnum n) = Inr (YFixnum (sgn (bignum_val b - n)))
    \<and> (fixnum_ufo (YFixnum n) (big b) :: ('f, yog_bignum, 's) num res) = Inr NNil"
  using bignum_ufo_sgn(2)[OF assms(2,1)] by (simp add: fixnum_method_defs fixnum_binop_defs)

text \<open>The unary minus keeps the magnitude, so that the Bignum of - (2 ^ 62) is not a Fixnum, and the
  complement of a negative Bignum is two too large.\<close>

lemma bignum_unary:
  assumes "bignum_ok b" "bignum_val b \<noteq> 0"
  shows "exact_value (bignum_negative (big b)) (- bignum_val b)"
    "exact_value (bignum_not (big b)) (if 0 \<le> bignum_val b then - bignum_val b - 1 else - bignum_val b + 1)"
  using bignum_okD(1)[OF assms(1)] bignum_val_sign[OF assms(1)] assms(2)
  by (auto simp: bignum_negative_def bignum_not_def Let_def bignum_ok_def
      bignum_val_def[of "_\<lparr>BIGNUM_SIGN := _\<rparr>"])

lemma negative_not_canonical:
  "\<not> exact_canonical (bignum_negative (big_of (2 ^ 62))) (- (2 ^ 62))"
  by (simp add: big_of_def bignum_negative_def Let_def exact_canonical_def canonical_def FIXABLE_iff)

text \<open>The bitwise operators on two Bignums that are not negative are those of the integers.\<close>

lemma bignum_bits_exact:
  assumes "bignum_ok c" "bignum_ok d" "0 \<le> bignum_val c" "0 \<le> bignum_val d"
  shows "exact_canonical (bignum_xor (big c) (big d)) (bignum_val c XOR bignum_val d)
    \<and> exact_canonical (bignum_and (big c) (big d)) (bignum_val c AND bignum_val d)
    \<and> exact_value (bignum_or (big c) (big d)) (bignum_val c OR bignum_val d)"
  using integer_bits_value[OF assms] by (simp add: bignum_method_defs bignum_binop_defs)

lemma bignum_bits_exact_instance:
  "exact_canonical (bignum_xor (big_of (2 ^ 62)) (big_of (2 ^ 62 + 5)))
     (bignum_val (YogBignum_from_int (2 ^ 62)) XOR bignum_val (YogBignum_from_int (2 ^ 62 + 5)))"
  using bignum_bits_exact[of "YogBignum_from_int (2 ^ 62)" "YogBignum_from_int (2 ^ 62 + 5)"]
    from_int_ok[of "2 ^ 62"] from_int_ok[of "2 ^ 62 + 5"] unfolding big_of_def by auto

end
