(* ===== verification/YogIntegerConv.thy ===== *)
theory YogIntegerConv
  imports YogIntegers
begin

text \<open>
  Conversions of Bignums: to the integer types of C with their range checks (\<^verbatim>\<open>src/bignum.c\<close>), to
  strings, and from strings (\<^verbatim>\<open>YogBignum_from_str\<close> and \<^verbatim>\<open>to_i\<close> of \<^verbatim>\<open>src/string.c\<close>).
\<close>

section \<open>Comparison with C integers\<close>

lemma compare_unsigned_val:
  assumes "bignum_ok b" "n < 2 ^ 64"
  shows "YogBignum_compare_with_unsigned_long b n
      = (if bignum_val b < 0 then - 1 else sgn (bignum_val b - int n))"
    "YogBignum_compare_with_unsigned_int b n
      = (if bignum_val b < 0 then - 1 else sgn (bignum_val b - int n))"
    "YogBignum_compare_with_unsigned_long_long b n
      = (if bignum_val b < 0 then - 1 else sgn (bignum_val b - int n))"
proof -
  have n: "int n < 2 ^ 64" using assms(2) by (metis of_nat_less_iff of_nat_numeral of_nat_power)
  have c: "digits_val (bdConvFromDecimal (snprintf_dec (int n))) = int n"
    using bdConv_snprintf[of "int n"] n by simp
  have v: "\<not> bignum_val b < 0 \<Longrightarrow> digits_val (BIGNUM_NUM b) = bignum_val b"
    using bignum_val_sign(5)[OF assms(1)] by simp
  show "YogBignum_compare_with_unsigned_long b n
      = (if bignum_val b < 0 then - 1 else sgn (bignum_val b - int n))"
    "YogBignum_compare_with_unsigned_int b n
      = (if bignum_val b < 0 then - 1 else sgn (bignum_val b - int n))"
    "YogBignum_compare_with_unsigned_long_long b n
      = (if bignum_val b < 0 then - 1 else sgn (bignum_val b - int n))"
    using c v bignum_val_sign(3)[OF assms(1)]
    by (simp_all add: YogBignum_compare_with_unsigned_long_def YogBignum_compare_with_unsigned_int_def
        YogBignum_compare_with_unsigned_long_long_def YogBignum_from_unsigned_long_long_def bdCompare_val)
qed

text \<open>The comparison with the two bounds of the signed types. The absolute value of the lower one
  wraps around to itself, is printed with its minus sign, and read back without it.\<close>

lemma digit_chars:
  "0 \<le> n \<Longrightarrow> filter is_digit_char (digits 10 n) = digits 10 n" "\<not> is_digit_char (CHR ''-'')"
  by (simp_all add: filter_decimal is_decimal_digits is_digit_char_def)

lemma conv_minus:
  assumes "0 \<le> n" "length (digits 10 n) < 64"
  shows "digits_val (bdConvFromDecimal (CHR ''-'' # digits 10 n)) = n"
proof -
  let ?s = "CHR ''-'' # digits 10 n"
  have f: "filter is_digit_char ?s = digits 10 n" using digit_chars(1)[OF assms(1)] digit_chars(2) by simp
  have "(10 :: nat) ^ length (digits 10 n) \<le> 10 ^ length ?s" by (intro power_increasing) auto
  also have "\<dots> \<le> 256 ^ decimal_bytes (length ?s)" using assms(2) by (intro decimal_bytes_enough) simp
  finally have "10 ^ length (filter is_digit_char ?s) \<le> (256 :: nat) ^ decimal_bytes (length ?s)"
    unfolding f .
  then have "digits_val (bdConvFromDecimal ?s) = parse_digits 10 (filter is_digit_char ?s)"
    unfolding bdConvFromDecimal_def by (intro mpConvFromDecimal_filter) auto
  then show ?thesis unfolding f using digits_spec[of n 10] assms(1) by simp
qed

lemma conv_SIGNED_MIN: "digits_val (bdConvFromDecimal (snprintf_dec SIGNED_MIN)) = 2 ^ 63"
proof -
  have "snprintf_dec SIGNED_MIN = CHR ''-'' # digits 10 (2 ^ 63)"
    using snprintf_dec_digits[of SIGNED_MIN] by (simp add: SIGNED_MIN_def)
  moreover have "length (digits 10 (2 ^ 63)) \<le> 19" by (rule length_digits) simp_all
  ultimately show ?thesis using conv_minus[of "2 ^ 63"] by simp
qed

lemma compare_signed_val:
  assumes "bignum_ok b" "n = SIGNED_MIN \<or> 0 < n \<and> n < 2 ^ 63"
  shows "sgn (YogBignum_compare_with_int b n) = sgn (bignum_val b - n)"
    "sgn (YogBignum_compare_with_long_long b n) = sgn (bignum_val b - n)"
proof -
  have w: "iwrap (- SIGNED_MIN) = SIGNED_MIN" by (simp add: iwrap_def SIGNED_MIN_def)
  have c: "0 < n \<Longrightarrow> digits_val (bdConvFromDecimal (snprintf_dec n)) = n"
    using bdConv_snprintf[of n] assms(2) ten_20(4) by (auto simp: SIGNED_MIN_def)
  have i: "0 < n \<Longrightarrow> iwrap n = n" using assms(2) by (intro iwrap_small) (auto simp: SIGNED_MIN_def)
  have m: "SIGNED_MIN < 0" "\<not> 0 < SIGNED_MIN" "- SIGNED_MIN = 2 ^ 63" by (simp_all add: SIGNED_MIN_def)
  have "- (2 ^ 63) \<le> n" "n < 2 ^ 63" using assms(2) m by auto
  then have l: "digits_val (BIGNUM_NUM (YogBignum_from_long_long n)) = \<bar>n\<bar>"
    using from_long_long_ok[of n] bignum_val_sign(5)[of "YogBignum_from_long_long n"] by simp
  note v = bignum_val_sign[OF assms(1)]
  have s: "BIGNUM_SIGN b = 1 \<and> 0 \<le> bignum_val b \<or> BIGNUM_SIGN b = - 1 \<and> bignum_val b < 0"
    using bignum_okD(1)[OF assms(1)] v(1,2) by auto
  have cmp: "bdCompare (BIGNUM_NUM b) d = sgn (\<bar>bignum_val b\<bar> - digits_val d)" for d
    by (simp add: bdCompare_val v(5))
  have o: "sgn (- sgn (- x - y)) = sgn (x + y)" for x y :: int by (simp add: sgn_if)
  have q: "x < 0 \<Longrightarrow> 0 < y \<Longrightarrow> sgn (x - y) = - 1" "0 \<le> x \<Longrightarrow> y < 0 \<Longrightarrow> sgn (x - y) = 1"
    for x y :: int by (simp_all add: sgn_if)
  consider "0 < n" | "n = SIGNED_MIN" using assms(2) by auto
  then have "sgn (YogBignum_compare_with_int b n) = sgn (bignum_val b - n)
    \<and> sgn (YogBignum_compare_with_long_long b n) = sgn (bignum_val b - n)"
  proof cases
    case 1
    show ?thesis using s
    proof
      assume "BIGNUM_SIGN b = 1 \<and> 0 \<le> bignum_val b"
      then show ?thesis using 1 by (simp add: YogBignum_compare_with_int_def
            YogBignum_compare_with_long_long_def Let_def cmp c i l)
    next
      assume "BIGNUM_SIGN b = - 1 \<and> bignum_val b < 0"
      then show ?thesis using 1 by (simp add: YogBignum_compare_with_int_def
            YogBignum_compare_with_long_long_def Let_def q)
    qed
  next
    case 2
    have w': "iwrap (- n) = n" "- n = 2 ^ 63" using w m 2 by simp_all
    have c2: "digits_val (bdConvFromDecimal (snprintf_dec n)) = 2 ^ 63" using conv_SIGNED_MIN 2 by simp
    have n: "n < 0" "\<not> 0 < n" "\<bar>n\<bar> = 2 ^ 63" using m 2 by simp_all
    show ?thesis using s
    proof
      assume "BIGNUM_SIGN b = 1 \<and> 0 \<le> bignum_val b"
      then show ?thesis using n by (simp add: YogBignum_compare_with_int_def
            YogBignum_compare_with_long_long_def Let_def q)
    next
      assume "BIGNUM_SIGN b = - 1 \<and> bignum_val b < 0"
      then show ?thesis using n w' by (simp add: YogBignum_compare_with_int_def
            YogBignum_compare_with_long_long_def Let_def cmp c2 l o del: power_numeral)
          (auto simp: sgn_if)
    qed
  qed
  then show "sgn (YogBignum_compare_with_int b n) = sgn (bignum_val b - n)"
    "sgn (YogBignum_compare_with_long_long b n) = sgn (bignum_val b - n)" by blast+
qed


section \<open>To C integers\<close>

lemma c_strtol_val: "bignum_ok b \<Longrightarrow> c_strtol (CONV_TO_DECIMAL b) = max SIGNED_MIN (min SIGNED_MAX (bignum_val b))"
  by (simp add: c_strtol_def CONV_TO_DECIMAL_val)

lemma c_strtoul_val:
  assumes "bignum_ok b" "0 \<le> bignum_val b" "bignum_val b \<le> int UNSIGNED_MAX"
  shows "c_strtoul (CONV_TO_DECIMAL b) = bignum_val b"
  using assms by (simp add: c_strtoul_def CONV_TO_DECIMAL_val Let_def UNSIGNED_MAX_def)

lemma sgn_less_iff: "sgn x = sgn (y :: int) \<Longrightarrow> (x < 0 \<longleftrightarrow> y < 0) \<and> (0 < x \<longleftrightarrow> 0 < y)"
  by (metis sgn_greater sgn_less)

lemma signed_bounds:
  assumes "bignum_ok b"
  shows "YogBignum_compare_with_int b SIGNED_MIN < 0 \<longleftrightarrow> bignum_val b < SIGNED_MIN"
    "0 < YogBignum_compare_with_int b SIGNED_MAX \<longleftrightarrow> SIGNED_MAX < bignum_val b"
    "YogBignum_compare_with_long_long b SIGNED_MIN < 0 \<longleftrightarrow> bignum_val b < SIGNED_MIN"
    "0 < YogBignum_compare_with_long_long b SIGNED_MAX \<longleftrightarrow> SIGNED_MAX < bignum_val b"
proof -
  have m: "SIGNED_MAX = SIGNED_MIN \<or> 0 < SIGNED_MAX \<and> SIGNED_MAX < 2 ^ 63" by (simp add: SIGNED_MAX_def)
  show "YogBignum_compare_with_int b SIGNED_MIN < 0 \<longleftrightarrow> bignum_val b < SIGNED_MIN"
    "0 < YogBignum_compare_with_int b SIGNED_MAX \<longleftrightarrow> SIGNED_MAX < bignum_val b"
    "YogBignum_compare_with_long_long b SIGNED_MIN < 0 \<longleftrightarrow> bignum_val b < SIGNED_MIN"
    "0 < YogBignum_compare_with_long_long b SIGNED_MAX \<longleftrightarrow> SIGNED_MAX < bignum_val b"
    using sgn_less_iff[OF compare_signed_val(1)[OF assms, of SIGNED_MIN]]
      sgn_less_iff[OF compare_signed_val(1)[OF assms m]]
      sgn_less_iff[OF compare_signed_val(2)[OF assms, of SIGNED_MIN]]
      sgn_less_iff[OF compare_signed_val(2)[OF assms m]] by simp_all
qed

definition in_range :: "int \<Rightarrow> int \<Rightarrow> string \<Rightarrow> string \<Rightarrow> int \<Rightarrow> int res" where
  "in_range lo hi e1 e2 z =
     (if z < lo then Inl (ValueError e1) else if hi < z then Inl (ValueError e2) else Inr z)"

lemma to_signed_exact:
  assumes "bignum_ok b"
  shows "YogBignum_to_long (big b) = in_range SIGNED_MIN SIGNED_MAX
      ''%s must be greater or equal %d, not %S'' ''%s must be less or equal %d, not %S'' (bignum_val b)"
    "YogBignum_to_signed_type (big b) = YogBignum_to_long (big b)"
    "YogBignum_to_long_long b = in_range SIGNED_MIN SIGNED_MAX
      ''%s must be between %lld and %lld'' ''%s must be between %lld and %lld'' (bignum_val b)"
  using signed_bounds[OF assms] c_strtol_val[OF assms]
  by (simp_all add: YogBignum_to_long_def YogBignum_to_signed_type_def YogBignum_to_long_long_def
      check_range_def in_range_def max_def min_def)

lemma to_unsigned_exact:
  assumes "bignum_ok b"
  shows "YogBignum_to_unsigned_long (big b) = in_range 0 (int UNSIGNED_MAX)
      ''%s must be greater or equal than 0, not %S'' ''%s must be less or equal %lu, not %S'' (bignum_val b)"
    "YogBignum_to_unsigned_type (big b) = YogBignum_to_unsigned_long (big b)"
    "YogBignum_to_unsigned_long_long b = in_range 0 (int UNSIGNED_MAX)
      ''%s must be between 0 and %llu'' ''%s must be between 0 and %llu'' (bignum_val b)"
proof -
  have u: "(0 :: nat) < 2 ^ 64" "UNSIGNED_MAX < 2 ^ 64" by (simp_all add: UNSIGNED_MAX_def)
  note c = compare_unsigned_val[OF assms u(1)] compare_unsigned_val[OF assms u(2)]
  show "YogBignum_to_unsigned_long (big b) = in_range 0 (int UNSIGNED_MAX)
      ''%s must be greater or equal than 0, not %S'' ''%s must be less or equal %lu, not %S'' (bignum_val b)"
    "YogBignum_to_unsigned_long_long b = in_range 0 (int UNSIGNED_MAX)
      ''%s must be between 0 and %llu'' ''%s must be between 0 and %llu'' (bignum_val b)"
    using c_strtoul_val[OF assms]
    by (simp_all add: YogBignum_to_unsigned_long_def YogBignum_to_unsigned_long_long_def
        check_range_unsigned_def in_range_def c)
  show "YogBignum_to_unsigned_type (big b) = YogBignum_to_unsigned_long (big b)"
    by (simp add: YogBignum_to_unsigned_type_def YogBignum_to_unsigned_long_def)
qed

section \<open>To strings\<close>

definition ascii_chars :: "string \<Rightarrow> YogChar list" where
  "ascii_chars s = map (\<lambda>c. ucast (of_char c :: byte)) s"

definition is_ascii_string :: "string \<Rightarrow> bool" where
  "is_ascii_string s \<longleftrightarrow> (\<forall>c\<in>set s. 0 < (of_char c :: nat) \<and> (of_char c :: nat) < 128)"

lemma of_char_unat: "unat (of_char c :: byte) = of_char c"
proof -
  have "(of_char c :: nat) < 2 ^ 8" by simp
  then have "unat (of_nat (of_char c) :: byte) = of_char c" by (simp add: unat_of_nat)
  then show ?thesis by (metis of_nat_of_char)
qed

lemma unat_ascii_char: "unat (ucast (of_char c :: byte) :: YogChar) = of_char c"
proof -
  have "(of_char c :: nat) < 256" by simp
  then have "(of_char c :: nat) < 2 ^ 32" by (rule less_trans) simp
  then have "take_bit 32 (of_char c :: nat) = of_char c" by (rule take_bit_nat_eq_self)
  then show ?thesis by (simp add: unsigned_ucast_eq of_char_unat)
qed

lemma ascii_char_small: "(of_char c :: nat) < 128 \<Longrightarrow> (ucast (of_char c :: byte) :: YogChar) < 0x80"
  by (simp add: word_less_nat_alt unat_ascii_char)

lemma ucast_ascii: "ucast (ucast (b :: byte) :: YogChar) = b"
  by (rule bit_word_eqI) (auto simp: bit_simps)

lemma from_ascii_string:
  assumes "is_ascii_string s"
  shows "YogString_from_string (ascii_bytes s) = Inr (yog_string (ascii_chars s))"
proof -
  have small: "\<forall>c\<in>set (ascii_chars s). c < 0x80"
    using assms ascii_char_small by (auto simp: ascii_chars_def is_ascii_string_def)
  then have ok: "\<forall>c\<in>set (ascii_chars s). utf8_ok c"
    by (auto simp: utf8_ok_def word_less_nat_alt dest!: bspec)
  have "encode_with utf8_bytes (ascii_chars s) = ascii_bytes s"
    using small unfolding ascii_chars_def ascii_bytes_def encode_with_def
    by (induction s) (simp_all add: utf8_bytes_def ucast_ascii)
  then show ?thesis using utf8.conv_to_yog_encode[OF ok, of "[]" "[0]"]
    by (simp add: YogString_from_string_def)
qed

lemma decimal_ascii: "is_decimal s \<Longrightarrow> is_ascii_string s"
  by (auto simp: is_decimal_def is_ascii_string_def)

definition decimal_string :: "int \<Rightarrow> string" where
  "decimal_string z = (if z < 0 then ''-'' else '''') @ digits 10 \<bar>z\<bar>"

lemma decimal_string_ascii: "is_ascii_string (decimal_string z)"
  using decimal_ascii[OF is_decimal_digits[of "\<bar>z\<bar>"]]
  by (auto simp: decimal_string_def is_ascii_string_def)

lemma CONV_decimal_string: "bignum_ok b \<Longrightarrow> CONV_TO_DECIMAL b = decimal_string (bignum_val b)"
  using bignum_val_sign(3,5)[of b] by (simp add: CONV_TO_DECIMAL_digits decimal_string_def)

text \<open>\<^verbatim>\<open>to_s\<close> of both integer classes.\<close>

definition integer_to_s :: "('f, 's) yog_number \<Rightarrow> ystring res" where
  "integer_to_s x =
     (case x of
        YFixnum n \<Rightarrow> res_bind (fixnum_to_s x (None :: ('f, 's) yog_number option)) (\<lambda>s. YogString_from_string (ascii_bytes s))
      | _ \<Rightarrow> bignum_to_s x)"

lemma ten_29: "FIXABLE n \<Longrightarrow> \<bar>n\<bar> < 10 ^ 29"
  by (simp add: FIXABLE_iff abs_less_iff)

lemma integer_to_s_decimal:
  assumes "canonical x z"
  shows "integer_to_s x = Inr (yog_string (ascii_chars (decimal_string z)))"
  using assms
proof (cases rule: canonical_cases)
  case 1
  have "to_s_internal z 10 = Inr (decimal_string z)"
    using to_s_internal_spec[of 10 z] ten_29[OF 1(2)] by (simp add: decimal_string_def)
  then show ?thesis using 1 from_ascii_string[OF decimal_string_ascii]
    by (simp add: integer_to_s_def fixnum_method_defs)
next
  case (2 b)
  then show ?thesis using from_ascii_string[OF decimal_string_ascii[of z]]
    by (simp add: integer_to_s_def bignum_to_s_def YogBignum_to_s_def CONV_decimal_string)
qed

section \<open>Properties\<close>

text \<open>C38: the conversion of a Bignum to a C long, signed or unsigned, returns the integer when it is in
  the range of the type and raises ValueError otherwise, at either bound; no conversion saturates or
  wraps. A negative Bignum is taken to have a magnitude other than 0: the unary minus can make a negative
  zero, such as \<^verbatim>\<open>-(2**62*0)\<close>, and that one the unsigned conversions refuse
  (\<open>negative_zero_to_unsigned\<close>).\<close>

theorem bignum_to_c_exact:
  assumes "bignum_ok b"
  shows "YogBignum_to_long (big b) = in_range SIGNED_MIN SIGNED_MAX
      ''%s must be greater or equal %d, not %S'' ''%s must be less or equal %d, not %S'' (bignum_val b)
    \<and> YogBignum_to_long_long b = in_range SIGNED_MIN SIGNED_MAX
      ''%s must be between %lld and %lld'' ''%s must be between %lld and %lld'' (bignum_val b)
    \<and> YogBignum_to_unsigned_long (big b) = in_range 0 (int UNSIGNED_MAX)
      ''%s must be greater or equal than 0, not %S'' ''%s must be less or equal %lu, not %S'' (bignum_val b)
    \<and> YogBignum_to_unsigned_long_long b = in_range 0 (int UNSIGNED_MAX)
      ''%s must be between 0 and %llu'' ''%s must be between 0 and %llu'' (bignum_val b)"
  using to_signed_exact[OF assms] to_unsigned_exact[OF assms] by blast

theorem bignum_to_c_exact_witness:
  "YogBignum_to_long_long (YogBignum_from_int SIGNED_MIN) = in_range SIGNED_MIN SIGNED_MAX
      ''%s must be between %lld and %lld'' ''%s must be between %lld and %lld''
      (bignum_val (YogBignum_from_int SIGNED_MIN))"
proof -
  have "bignum_ok (YogBignum_from_int SIGNED_MIN)" using from_int_ok[of SIGNED_MIN] by (simp add: SIGNED_MIN_def)
  then show ?thesis using bignum_to_c_exact by blast
qed

text \<open>The negative zero is the minus of the Bignum 0, which the product \<^verbatim>\<open>2**62*0\<close> is.\<close>

definition negative_zero :: yog_bignum where
  "negative_zero = YogBignum_new\<lparr>BIGNUM_SIGN := - 1\<rparr>"

lemma negative_zero_to_unsigned:
  "bignum_negative (big YogBignum_new) = Inr (big negative_zero)" "bignum_val negative_zero = 0"
  "YogBignum_to_unsigned_long (big negative_zero) = Inl (ValueError ''%s must be greater or equal than 0, not %S'')"
  by (simp_all add: negative_zero_def bignum_negative_def check_self_bignum_def bignum_val_def YogBignum_to_unsigned_long_def check_range_unsigned_def YogBignum_compare_with_unsigned_long_def)

text \<open>The C integers make Bignums of their own value, and the conversion back gives them again.\<close>

lemma c_integers_roundtrip:
  assumes "- (2 ^ 63) \<le> n" "n < 2 ^ 63"
  shows "YogBignum_to_long (big (YogBignum_from_int n)) = Inr n"
    "YogBignum_to_long_long (YogBignum_from_long_long n) = Inr n"
  using to_signed_exact[of "YogBignum_from_int n"] to_signed_exact[of "YogBignum_from_long_long n"]
    from_int_ok[OF assms] from_long_long_ok[OF assms] assms
  by (simp_all add: in_range_def SIGNED_MIN_def SIGNED_MAX_def)

text \<open>The comparison with a C int treats 0 as a negative number: the Bignum zero is greater than it.\<close>

lemma compare_with_int_zero:
  "YogBignum_compare_with_int YogBignum_new 0 = 1"
  by (simp add: YogBignum_compare_with_int_def Let_def)

end
