(* ===== verification/YogStringNumber.thy ===== *)
theory YogStringNumber
  imports YogIntegerConv
begin

text \<open>
  \<^verbatim>\<open>to_i\<close> of \<^verbatim>\<open>src/string.c\<close>: the normalisation of a literal (sign, radix prefix, underscores), the
  conversion by \<^verbatim>\<open>strtol\<close> of the C library, and the way into Bignum when that overflows.
\<close>

section \<open>Normalisation\<close>

text \<open>\<^verbatim>\<open>isalpha\<close> and \<^verbatim>\<open>isdigit\<close> look their argument up in a table of the values of a \<^verbatim>\<open>char\<close>; a larger
  argument is outside of it.\<close>

definition c_isalpha :: "YogChar \<Rightarrow> bool res" where
  "c_isalpha c =
     (if 0xff < c then Inl MemFault
      else Inr (0x41 \<le> c \<and> c \<le> 0x5a \<or> 0x61 \<le> c \<and> c \<le> 0x7a))"

definition c_isdigit :: "YogChar \<Rightarrow> bool" where
  "c_isdigit c \<longleftrightarrow> 0x30 \<le> c \<and> c \<le> 0x39"

function number_loop :: "YogChar list \<Rightarrow> nat \<Rightarrow> nat \<Rightarrow> ystring \<Rightarrow> ystring res" where
  "number_loop body sz i s =
     (if i < sz then
        res_bind (mem_load body i) (\<lambda>c.
        res_bind (c_isalpha c) (\<lambda>alpha.
          if alpha then res_bind (YogString_push s (c_tolower c)) (\<lambda>s'. number_loop body sz (i + 1) s')
          else if c = 0x5f then
            if sz \<le> i + 1 then Inl (ValueError ''String ends with \"_\": %S'')
            else res_bind (mem_load body (i + 1)) (\<lambda>d.
                 res_bind (c_isalpha d) (\<lambda>alpha.
                   if \<not> alpha \<and> \<not> c_isdigit d
                   then Inl (ValueError ''No alphabet or digit follows \"_\": %S'')
                   else number_loop body sz (i + 1) s))
          else res_bind (YogString_push s c) (\<lambda>s'. number_loop body sz (i + 1) s')))
      else Inr s)"
  by pat_completeness auto
termination by (relation "measure (\<lambda>(body, sz, i, s). sz - i)") auto

declare number_loop.simps [simp del]

text \<open>The radix after a leading \<open>0\<close>, the characters it takes, and whether the \<open>0\<close> is kept.\<close>

definition radix_prefix :: "YogChar \<Rightarrow> (int \<times> nat) option" where
  "radix_prefix c2 =
     (if c2 = 0x62 \<or> c2 = 0x42 then Some (2, 2)
      else if c2 = 0x6f \<or> c2 = 0x4f then Some (8, 2)
      else if c2 = 0x64 \<or> c2 = 0x44 then Some (10, 2)
      else if c2 = 0x78 \<or> c2 = 0x58 then Some (16, 2)
      else None)"

definition normalize_as_number :: "ystring \<Rightarrow> int \<Rightarrow> (ystring \<times> int) res" where
  "normalize_as_number self radix =
     (let sz = s_size self; body = STRING_CHARS self
      in if sz = 0 then Inl (ValueError ''Empty string to convert into integer'')
         else res_bind YogString_new (\<lambda>norm.
              res_bind (mem_load body 0) (\<lambda>c.
              res_bind (if c = 0x2b then Inr (norm, 1)
                        else if c = 0x2d then res_bind (YogString_push norm c) (\<lambda>norm. Inr (norm, 1))
                        else Inr (norm, 0)) (\<lambda>(norm, i :: nat).
              if sz \<le> i then Inl (ValueError ''String contains only sign: %S'')
              else res_bind (mem_load body i) (\<lambda>c1.
                   res_bind
                     (if c1 = 0x30 \<and> i < sz - 1 then
                        res_bind (mem_load body (i + 1)) (\<lambda>c2.
                        res_bind (case radix_prefix c2 of
                                    Some (r, k) \<Rightarrow> Inr (norm, r, i + k)
                                  | None \<Rightarrow> res_bind (YogString_push norm c1) (\<lambda>norm. Inr (norm, 10, i + 1)))
                          (\<lambda>(norm, r, i). if sz \<le> i then Inl (ValueError ''String ends with radix: %S'')
                                          else Inr (norm, r, i)))
                      else res_bind (YogString_push norm c1) (\<lambda>norm. Inr (norm, radix, i + 1)))
                     (\<lambda>(norm, r, i). res_bind (number_loop body sz i norm) (\<lambda>norm. Inr (norm, r))))))))"

section \<open>strtol\<close>

text \<open>The value and the rest of the string (\<^verbatim>\<open>endptr\<close>) that \<^verbatim>\<open>strtol(s, &endptr, radix)\<close> finds: white
  space, a sign, \<open>0x\<close> before a hexadecimal digit in radix 16, and digits; no digit at all leaves the
  whole string.\<close>

definition c_isspace :: "char \<Rightarrow> bool" where
  "c_isspace c \<longleftrightarrow> (let k = of_char c :: nat in k = 32 \<or> 9 \<le> k \<and> k \<le> 13)"

definition strtol_digit :: "char \<Rightarrow> int" where
  "strtol_digit c =
     (let k = int (of_char c) in
      if 48 \<le> k \<and> k \<le> 57 then k - 48
      else if 97 \<le> k \<and> k \<le> 122 then k - 87
      else if 65 \<le> k \<and> k \<le> 90 then k - 55
      else 36)"

definition strtol_scan :: "int \<Rightarrow> string \<Rightarrow> int \<times> string" where
  "strtol_scan radix s =
     (let s1 = dropWhile c_isspace s;
          neg = (s1 \<noteq> [] \<and> hd s1 = CHR ''-'');
          s2 = (if s1 \<noteq> [] \<and> (hd s1 = CHR ''-'' \<or> hd s1 = CHR ''+'') then tl s1 else s1);
          hex = (radix = 16 \<and> (take 2 s2 = ''0x'' \<or> take 2 s2 = ''0X'') \<and> drop 2 s2 \<noteq> []
                 \<and> strtol_digit (s2 ! 2) < 16);
          s3 = (if hex then drop 2 s2 else s2);
          ds = takeWhile (\<lambda>c. strtol_digit c < radix) s3;
          v = foldl (\<lambda>n c. n * radix + strtol_digit c) 0 ds
      in if ds = [] then (0, s) else (if neg then - v else v, drop (length ds) s3))"

section \<open>to_i\<close>

text \<open>\<^verbatim>\<open>YogVal_from_int\<close>, with the Bignum that it makes.\<close>

definition number_from_int :: "int \<Rightarrow> ('f, 's) yog_number" where
  "number_from_int n = (if FIXABLE n then int2val n else big (YogBignum_from_int n))"

definition to_i_of_radix :: "ystring \<Rightarrow> int \<Rightarrow> ('f, 's) yog_number res" where
  "to_i_of_radix self radix =
     res_bind (normalize_as_number self radix) (\<lambda>(normalized, radix).
     res_bind (conv_from_yog create_ascii (take (s_size normalized) (STRING_CHARS normalized))) (\<lambda>(bin, _).
       let (v, rest) = strtol_scan radix (BINARY_CSTR bin)
       in if rest \<noteq> [] then Inl (ValueError ''Invalid literal: %S'')
          else if SIGNED_MIN \<le> v \<and> v \<le> SIGNED_MAX then Inr (number_from_int v)
          else res_bind (YogBignum_from_str normalized radix) (\<lambda>b. Inr (big b))))"

definition YogString_to_i :: "ystring \<Rightarrow> ('f, 's) yog_number res" where
  "YogString_to_i self = to_i_of_radix self 10"

definition string_to_i :: "str_obj yval \<Rightarrow> 'o yval option \<Rightarrow> ('f, 's) yog_number res" where
  "string_to_i self radix =
     check_self_string self (\<lambda>self.
       case radix of
         None \<Rightarrow> to_i_of_radix self 10
       | Some (YFixnum r) \<Rightarrow>
           if r < 2 \<or> 36 < r
           then Inl (ValueError ''radix must be in range from 2 to 36, not %d'')
           else to_i_of_radix self r
       | Some _ \<Rightarrow> Inl (TypeError ''%s must be %s, not %C''))"

section \<open>Decimal literals\<close>

text \<open>The literals that \<^verbatim>\<open>to_s\<close> writes pass the normalisation unchanged and are read back.\<close>

definition decimal_char :: "YogChar \<Rightarrow> bool" where
  "decimal_char c \<longleftrightarrow> 0x30 \<le> c \<and> c \<le> 0x39"

lemma decimal_char_plain:
  assumes "decimal_char c"
  shows "c_isalpha c = Inr False" "c \<noteq> 0x5f" "c \<noteq> 0x2b" "c \<noteq> 0x2d"
  using assms by (auto simp: decimal_char_def c_isalpha_def word_le_nat_alt word_less_nat_alt)

lemma ascii_decimal: "is_decimal s \<Longrightarrow> \<forall>c\<in>set (ascii_chars s). decimal_char c"
  by (auto simp: is_decimal_def ascii_chars_def decimal_char_def word_le_nat_alt unat_ascii_char)

lemma number_loop_decimal:
  assumes "\<forall>k. k < sz \<longrightarrow> i \<le> k \<longrightarrow> decimal_char (body ! k)" "sz \<le> length body" "string_ok s"
    "s_size s + (sz - i) \<le> 2 ^ 60"
  shows "\<exists>t. number_loop body sz i s = Inr t \<and> string_ok t \<and> chars_of t = chars_of s @ drop i (take sz body)"
  using assms
proof (induction body sz i s rule: number_loop.induct)
  case (1 body sz i s)
  show ?case
  proof (cases "i < sz")
    case False
    then show ?thesis using 1 by (simp add: number_loop.simps[of body sz i s])
  next
    case True
    have d: "decimal_char (body ! i)" using 1(4) True by blast
    have l: "mem_load body i = Inr (body ! i)" using True 1(5) by simp
    have "s_size s < 2 ^ 60" using 1(7) True by linarith
    then obtain s' where s': "YogString_push s (body ! i) = Inr s'" "string_ok s'"
        "chars_of s' = chars_of s @ [body ! i]"
      using push_char_ok[OF 1(6), of "body ! i"] by blast
    have "s_size s' = s_size s + 1"
      using s'(3) length_chars_of[OF s'(2)] length_chars_of[OF 1(6)] by simp
    then have "s_size s' + (sz - (i + 1)) \<le> 2 ^ 60" using 1(7) True by linarith
    moreover have "\<forall>k. k < sz \<longrightarrow> i + 1 \<le> k \<longrightarrow> decimal_char (body ! k)" using 1(4) by auto
    ultimately obtain t where "number_loop body sz (i + 1) s' = Inr t" "string_ok t"
        "chars_of t = chars_of s' @ drop (i + 1) (take sz body)"
      using 1(3)[OF True l decimal_char_plain(1)[OF d] _ decimal_char_plain(2)[OF d] s'(1)] 1(5) s'(2)
      by blast
    moreover have "drop i (take sz body) = body ! i # drop (i + 1) (take sz body)"
      using True 1(5) by (subst Cons_nth_drop_Suc[symmetric]) simp_all
    ultimately show ?thesis using True l s' decimal_char_plain(1,2)[OF d]
      by (simp add: number_loop.simps[of body sz i s])
  qed
qed

lemma of_char_zero_char: "(of_char (CHR ''0'') :: nat) = 48"
  by simp

lemma hd_digits_zero: "0 \<le> n \<Longrightarrow> hd (digits 10 n) = CHR ''0'' \<Longrightarrow> length (digits 10 n) = 1"
proof (induction "10 :: int" n rule: digits.induct)
  case (1 n)
  show ?case
  proof (cases "n < 10")
    case True
    then show ?thesis by (simp add: digits.simps[of 10 n])
  next
    case False
    then have nz: "0 < n div 10" by (simp add: pos_imp_zdiv_pos_iff)
    have d: "digits 10 n = digits 10 (n div 10) @ [digit_char (n mod 10)]"
      using False by (simp add: digits.simps[of 10 n])
    have ne: "digits 10 (n div 10) \<noteq> []" using digits_spec[of "n div 10" 10] nz by simp
    then have "hd (digits 10 (n div 10)) = CHR ''0''" using 1(3) d by simp
    then have "length (digits 10 (n div 10)) = 1" using 1(1) False nz by simp
    then obtain c where c: "digits 10 (n div 10) = [c]" by (cases "digits 10 (n div 10)") auto
    then have "c = CHR ''0''" using \<open>hd (digits 10 (n div 10)) = CHR ''0''\<close> by simp
    then have "parse_digits 10 (digits 10 (n div 10)) = 0" using c by (simp add: parse_digits_def digit_value_def)
    then show ?thesis using digits_spec[of "n div 10" 10] nz by simp
  qed
qed

lemma ascii_chars_simps [simp]:
  "length (ascii_chars s) = length s" "ascii_chars [] = []"
  "ascii_chars (c # s) = ucast (of_char c :: byte) # ascii_chars s"
  "ascii_chars (s @ t) = ascii_chars s @ ascii_chars t"
  by (simp_all add: ascii_chars_def)

lemma yog_string_simps:
  "s_size (yog_string cs) = length cs" "cs \<noteq> [] \<Longrightarrow> STRING_CHARS (yog_string cs) = cs"
  by (simp_all add: yog_string_def STRING_CHARS_def)

lemma normalize_decimal:
  assumes "length (decimal_string z) < 2 ^ 60"
  shows "\<exists>t. normalize_as_number (yog_string (ascii_chars (decimal_string z))) 10 = Inr (t, 10)
    \<and> string_ok t \<and> chars_of t = ascii_chars (decimal_string z)"
proof -
  define ds where "ds = digits 10 \<bar>z\<bar>"
  define cs where "cs = ascii_chars (decimal_string z)"
  define i where "i = (if z < 0 then 1 else 0 :: nat)"
  have ds: "is_decimal ds" unfolding ds_def by (rule is_decimal_digits) simp
  have cs: "cs = (if z < 0 then [0x2d] else []) @ ascii_chars ds"
    by (simp add: cs_def decimal_string_def ds_def)
  have dec: "\<forall>c\<in>set (ascii_chars ds). decimal_char c" by (rule ascii_decimal[OF ds])
  have ne: "ds \<noteq> []" using ds by (simp add: is_decimal_def)
  then have "ascii_chars ds \<noteq> []" by (simp add: ascii_chars_def)
  with ne have len: "i < length cs" "cs \<noteq> []" "length cs = i + length ds" by (simp_all add: cs i_def)
  have nth: "cs ! k = ascii_chars ds ! (k - i)" if "i \<le> k" for k
    using that by (cases "z < 0") (simp_all add: cs i_def nth_append)
  have dk: "decimal_char (cs ! k)" if "i \<le> k" "k < length cs" for k
    using dec nth[OF that(1)] that len(3) by (simp add: nth_mem)
  have "cs ! i = 0x30 \<Longrightarrow> length ds = 1"
  proof -
    assume "cs ! i = 0x30"
    then have "(ucast (of_char (hd ds) :: byte) :: YogChar) = 0x30"
      using nth[of i] ne by (simp add: ascii_chars_def hd_conv_nth)
    then have "(of_char (hd ds) :: nat) = 48" using unat_ascii_char[of "hd ds"] by simp
    then have "(of_char (hd ds) :: nat) = of_char (CHR ''0'')" by (simp only: of_char_zero_char)
    then have "hd ds = CHR ''0''" by (simp only: of_char_eq_iff)
    then show "length ds = 1" using hd_digits_zero[of "\<bar>z\<bar>"] by (simp add: ds_def)
  qed
  then have nz: "\<not> (cs ! i = 0x30 \<and> i < length cs - 1)" using len(3) by auto
  have sz: "s_size (yog_string cs) = length cs" "STRING_CHARS (yog_string cs) = cs" "length cs \<noteq> 0"
    using len by (simp_all add: yog_string_simps)
  have small: "length cs < 2 ^ 60" using assms by (simp add: cs_def)
  obtain n0 where n0: "YogString_new = Inr n0" "string_ok n0" "chars_of n0 = []" "s_size n0 = 0"
    using YogString_new_ok by blast
  obtain n1 where n1: "(if cs ! 0 = 0x2b then Inr (n0, 1)
      else if cs ! 0 = 0x2d then res_bind (YogString_push n0 (cs ! 0)) (\<lambda>norm. Inr (norm, 1))
      else Inr (n0, 0)) = Inr (n1, i)" "string_ok n1" "chars_of n1 = take i cs"
  proof (cases "z < 0")
    case True
    obtain t where "YogString_push n0 0x2d = Inr t" "string_ok t" "chars_of t = [0x2d]"
      using push_char_ok[OF n0(2), of "0x2d"] n0(3,4) by auto
    moreover have "cs ! 0 = 0x2d" "take i cs = [0x2d]" "i = 1" using True by (simp_all add: cs i_def)
    ultimately show thesis using that[of t] by simp
  next
    case False
    then have i0: "i = 0" by (simp add: i_def)
    have "decimal_char (cs ! 0)" using dk[of 0] i0 len(1) by simp
    then show thesis using that[of n0] n0 i0 decimal_char_plain(3,4) by simp
  qed
  have sn1: "s_size n1 = i" using length_chars_of[OF n1(2)] n1(3) len by simp
  obtain n2 where n2: "YogString_push n1 (cs ! i) = Inr n2" "string_ok n2" "chars_of n2 = take i cs @ [cs ! i]"
    using push_char_ok[OF n1(2), of "cs ! i"] sn1 small len n1(3) by auto
  have sn2: "s_size n2 = i + 1" using length_chars_of[OF n2(2)] n2(3) len by simp
  have "\<forall>k. k < length cs \<longrightarrow> i + 1 \<le> k \<longrightarrow> decimal_char (cs ! k)" using dk by auto
  moreover have "s_size n2 + (length cs - (i + 1)) \<le> 2 ^ 60" using sn2 small len(1) by linarith
  ultimately obtain t where t: "number_loop cs (length cs) (i + 1) n2 = Inr t" "string_ok t"
      "chars_of t = chars_of n2 @ drop (i + 1) cs"
    using number_loop_decimal[of "length cs" "i + 1" cs n2] n2(2) by auto
  have "chars_of t = cs"
    using t(3) n2(3) id_take_nth_drop[OF len(1)] by simp
  moreover have "normalize_as_number (yog_string cs) 10 = Inr (t, 10)"
  proof -
    have l: "mem_load cs 0 = Inr (cs ! 0)" "mem_load cs i = Inr (cs ! i)" "\<not> length cs \<le> i"
      using len by auto
    show ?thesis
      by (simp only: normalize_as_number_def sz Let_def if_False n0(1) res_bind_simps l n1(1)
          prod.case nz n2(1) t(1))
  qed
  ultimately show ?thesis using t(2) by (simp add: cs_def)
qed

lemma BINARY_CSTR_ascii:
  assumes "is_ascii_string s"
  shows "BINARY_CSTR (ascii_bytes s @ [0]) = s"
proof -
  have nz: "(of_char c :: byte) \<noteq> 0" if "c \<in> set s" for c
  proof
    assume "(of_char c :: byte) = 0"
    then have "unat (of_char c :: byte) = 0" by simp
    then show False using of_char_unat[of c] assms that by (auto simp: is_ascii_string_def)
  qed
  have "takeWhile (\<lambda>b. b \<noteq> 0) (ascii_bytes s @ [0]) = ascii_bytes s"
    using nz by (subst takeWhile_append2) (auto simp: ascii_bytes_def)
  then show ?thesis by (simp add: BINARY_CSTR_def ascii_bytes_def of_char_unat map_idI)
qed

lemma conv_ascii_chars:
  assumes "is_ascii_string s" "length s < 2 ^ 64"
  shows "conv_from_yog create_ascii (ascii_chars s) = Inr (ascii_bytes s @ [0], length s + 1)"
proof -
  have "map (ucast \<circ> ascii_lossy) (ascii_chars s) = ascii_bytes s"
    using assms(1) ascii_char_small
    by (auto simp: ascii_chars_def ascii_bytes_def is_ascii_string_def ascii_lossy_def isascii_def ucast_ascii)
  then show ?thesis using ascii_string_lossy[of "ascii_chars s"] assms(2) by simp
qed

lemma strtol_digit_decimal:
  assumes "48 \<le> (of_char c :: nat)" "(of_char c :: nat) \<le> 57"
  shows "strtol_digit c = digit_value c" "0 \<le> digit_value c" "digit_value c < 10" "\<not> c_isspace c"
  using assms by (auto simp: strtol_digit_def digit_value_def Let_def c_isspace_def)

lemma strtol_scan_digits:
  assumes "is_decimal ds"
  shows "strtol_scan 10 ds = (parse_digits 10 ds, [])"
    "strtol_scan 10 (CHR ''-'' # ds) = (- parse_digits 10 ds, [])"
proof -
  have dec: "\<forall>c\<in>set ds. 48 \<le> (of_char c :: nat) \<and> (of_char c :: nat) \<le> 57" and ne: "ds \<noteq> []"
    using assms by (auto simp: is_decimal_def)
  have tw: "takeWhile (\<lambda>c. strtol_digit c < 10) ds = ds"
    using dec strtol_digit_decimal by (simp add: takeWhile_eq_all_conv)
  have fold: "foldl (\<lambda>n c. n * 10 + strtol_digit c) k ds = foldl (\<lambda>n c. n * 10 + digit_value c) k ds" for k
    using dec by (induction ds arbitrary: k) (simp_all add: strtol_digit_decimal)
  obtain c cs where c: "ds = c # cs" using ne by (cases ds) auto
  have cd: "48 \<le> (of_char c :: nat)" "(of_char c :: nat) \<le> 57" using dec c by simp_all
  have sign: "c \<noteq> CHR ''-''" "c \<noteq> CHR ''+''" using cd by auto
  have sp: "\<not> c_isspace (CHR ''-'')" "dropWhile c_isspace ds = ds"
    using strtol_digit_decimal(4)[OF cd] c by (simp_all add: c_isspace_def)
  have "hd ds \<noteq> CHR ''-''" "hd ds \<noteq> CHR ''+''" using sign c by simp_all
  then show "strtol_scan 10 ds = (parse_digits 10 ds, [])"
    using ne unfolding strtol_scan_def Let_def sp(2) by (simp add: tw fold parse_digits_def)
  show "strtol_scan 10 (CHR ''-'' # ds) = (- parse_digits 10 ds, [])"
    using sp ne by (simp add: strtol_scan_def Let_def tw fold parse_digits_def)
qed

lemma strtol_decimal: "strtol_scan 10 (decimal_string z) = (z, [])"
  using strtol_scan_digits[OF is_decimal_digits[of "\<bar>z\<bar>"]] digits_spec[of "\<bar>z\<bar>" 10]
  by (cases "z < 0") (simp_all add: decimal_string_def)

lemma number_from_int_canonical:
  "- (2 ^ 63) \<le> z \<Longrightarrow> z < 2 ^ 63 \<Longrightarrow> canonical (number_from_int z) z"
  using from_int_ok[of z] by (simp add: number_from_int_def canonical_def)

lemma length_decimal_string:
  assumes "\<bar>z\<bar> < 10 ^ 63"
  shows "length (decimal_string z) \<le> 64"
proof -
  have "length (digits 10 \<bar>z\<bar>) \<le> 63" using assms by (intro length_digits) auto
  then show ?thesis by (cases "z < 0") (simp_all add: decimal_string_def)
qed

lemma conv_decimal_string:
  assumes "\<bar>z\<bar> < 10 ^ 63"
  shows "digits_val (bdConvFromDecimal (decimal_string z)) = \<bar>z\<bar>"
proof -
  have l: "length (digits 10 \<bar>z\<bar>) \<le> 63" using assms by (intro length_digits) auto
  have "(10 :: int) ^ 63 \<le> 10 ^ 64" by (intro power_increasing) auto
  then have "\<bar>z\<bar> < 10 ^ 64" using assms by linarith
  then show ?thesis using conv_minus[of "\<bar>z\<bar>"] bdConvFromDecimal_digits[of "\<bar>z\<bar>"] l
    by (cases "z < 0") (simp_all add: decimal_string_def)
qed

lemma to_i_decimal:
  assumes "\<bar>z\<bar> < 10 ^ 63"
  shows "\<exists>r. YogString_to_i (yog_string (ascii_chars (decimal_string z))) = Inr r
    \<and> canonical r (if z < SIGNED_MIN then - z else z)"
proof -
  let ?s = "decimal_string z"
  have l: "length ?s \<le> 64" by (rule length_decimal_string[OF assms])
  obtain t where t: "normalize_as_number (yog_string (ascii_chars ?s)) 10 = Inr (t, 10)"
      "chars_of t = ascii_chars ?s"
    using normalize_decimal[of z] l by (auto elim: le_less_trans)
  have "length ?s < 2 ^ 64" using l by (rule le_less_trans) simp
  then have conv: "conv_from_yog create_ascii (take (s_size t) (STRING_CHARS t)) = Inr (ascii_bytes ?s @ [0], length ?s + 1)"
    using conv_ascii_chars[OF decimal_string_ascii] t(2) unfolding chars_of_def by simp
  have cstr: "BINARY_CSTR (ascii_bytes ?s @ [0]) = ?s" by (rule BINARY_CSTR_ascii[OF decimal_string_ascii])
  note defs = YogString_to_i_def to_i_of_radix_def t(1) conv cstr strtol_decimal
  show ?thesis
  proof (cases "SIGNED_MIN \<le> z \<and> z \<le> SIGNED_MAX")
    case True
    then have "- (2 ^ 63) \<le> z" "z < 2 ^ 63" by (simp_all add: SIGNED_MIN_def SIGNED_MAX_def)
    then show ?thesis using True number_from_int_canonical[of z] by (simp add: defs)
  next
    case False
    define b where "b = YogBignum_new\<lparr>BIGNUM_NUM := bdConvFromDecimal ?s\<rparr>"
    have "bignum_ok b" "bignum_val b = \<bar>z\<bar>"
      using conv_decimal_string[OF assms] by (simp_all add: b_def bignum_ok_def bignum_val_def)
    moreover have "\<not> FIXABLE \<bar>z\<bar>" "\<bar>z\<bar> = (if z < SIGNED_MIN then - z else z)"
      using False by (auto simp: FIXABLE_iff SIGNED_MIN_def SIGNED_MAX_def)
    ultimately have "canonical (big b) (if z < SIGNED_MIN then - z else z)" by (intro canonical_big) auto
    moreover have "YogString_to_i (yog_string (ascii_chars ?s)) = Inr (big b)"
      using False by (auto simp: defs YogBignum_from_str_def b_def)
    ultimately show ?thesis by blast
  qed
qed

lemma parse_digits_bound:
  assumes "is_decimal ds"
  shows "0 \<le> parse_digits 10 ds \<and> parse_digits 10 ds < 10 ^ length ds"
proof -
  have "0 \<le> foldl (\<lambda>n c. n * 10 + digit_value c) k ds
      \<and> foldl (\<lambda>n c. n * 10 + digit_value c) k ds < (k + 1) * 10 ^ length ds" if "0 \<le> k" for k
    using assms[unfolded is_decimal_def, THEN conjunct2] that
  proof (induction ds arbitrary: k)
    case (Cons c ds)
    then have d: "0 \<le> digit_value c" "digit_value c < 10" using strtol_digit_decimal[of c] by simp_all
    let ?k = "k * 10 + digit_value c"
    have "0 \<le> ?k" using Cons.prems d by simp
    then have ih: "0 \<le> foldl (\<lambda>n c. n * 10 + digit_value c) ?k ds
      \<and> foldl (\<lambda>n c. n * 10 + digit_value c) ?k ds < (?k + 1) * 10 ^ length ds"
      using Cons.IH[of ?k] Cons.prems by simp
    have "(?k + 1) * 10 ^ length ds \<le> ((k + 1) * 10) * 10 ^ length ds"
      using d by (intro mult_right_mono) auto
    also have "\<dots> = (k + 1) * 10 ^ length (c # ds)" by simp
    finally show ?case using ih unfolding foldl_Cons by linarith
  qed simp
  from this[of 0] show ?thesis by (simp add: parse_digits_def)
qed

section \<open>Properties\<close>

text \<open>C10: every integer of up to 63 decimal digits, Fixnum or Bignum, is written by to_s and read back by
  to_i as the same integer in canonical form, except that below the range of a C long the sign is
  lost on the way through Bignum.\<close>

theorem integer_string_roundtrip:
  assumes "canonical x z" "\<bar>z\<bar> < 10 ^ 63"
  shows "\<exists>s r. integer_to_s x = Inr s \<and> YogString_to_i s = Inr r
    \<and> canonical r (if z < SIGNED_MIN then - z else z)"
  using integer_to_s_decimal[OF assms(1)] to_i_decimal[OF assms(2)] by blast

theorem integer_string_roundtrip_witness:
  "\<exists>s r. integer_to_s (big_of (- (2 ^ 63))) = Inr s \<and> YogString_to_i s = Inr r
    \<and> canonical r (if - (2 ^ 63) < SIGNED_MIN then - (- (2 ^ 63)) else - (2 ^ 63))"
  by (rule integer_string_roundtrip) (auto intro!: canonical_big_of simp: FIXABLE_iff)

text \<open>After a leading zero the code forgets the radix it was called with.\<close>

lemma normalize_leading_zero:
  assumes "is_decimal ds" "length ds < 2 ^ 59"
  shows "\<exists>t. normalize_as_number (yog_string (ascii_chars (CHR ''0'' # ds))) radix = Inr (t, 10)
    \<and> chars_of t = ascii_chars (CHR ''0'' # ds)"
proof -
  define cs where "cs = ascii_chars (CHR ''0'' # ds)"
  have "is_decimal (CHR ''0'' # ds)" using assms(1) by (simp add: is_decimal_def)
  then have "\<forall>c\<in>set cs. decimal_char c" unfolding cs_def by (rule ascii_decimal)
  then have dk: "decimal_char (cs ! k)" if "k < length cs" for k using that by simp
  have "ds \<noteq> []" using assms(1) by (simp add: is_decimal_def)
  then have len: "1 < length cs" "length cs = length ds + 1" by (cases ds; simp add: cs_def)+
  have c0: "cs ! 0 = 0x30" by (simp add: cs_def)
  have sz: "s_size (yog_string cs) = length cs" "STRING_CHARS (yog_string cs) = cs" "length cs \<noteq> 0"
    using len by (auto simp: yog_string_simps cs_def)
  obtain n0 where n0: "YogString_new = Inr n0" "string_ok n0" "chars_of n0 = []" "s_size n0 = 0"
    using YogString_new_ok by blast
  obtain n1 where n1: "YogString_push n0 0x30 = Inr n1" "string_ok n1" "chars_of n1 = [0x30]"
    using push_char_ok[OF n0(2), of "0x30"] n0(3,4) by auto
  have sn1: "s_size n1 = 1" using length_chars_of[OF n1(2)] n1(3) by simp
  have "s_size n1 + (length cs - 1) \<le> 2 ^ 60" using sn1 assms(2) len(2) by simp
  then obtain t where t: "number_loop cs (length cs) 1 n1 = Inr t" "string_ok t" "chars_of t = [0x30] @ drop 1 cs"
    using number_loop_decimal[of "length cs" 1 cs n1] n1(2,3) dk by auto
  have "cs = 0x30 # drop 1 cs" using c0 len(1) by (cases cs) auto
  then have "chars_of t = cs" using t(3) by simp
  moreover have "normalize_as_number (yog_string cs) radix = Inr (t, 10)"
  proof -
    have l: "mem_load cs 0 = Inr 0x30" "mem_load cs (0 + 1) = Inr (cs ! 1)" "\<not> length cs \<le> 0"
      "\<not> length cs \<le> 0 + 1" "0 < length cs - 1"
      using len c0 by auto
    have r: "radix_prefix (cs ! 1) = None"
      using dk[of 1] len(1) by (auto simp: radix_prefix_def decimal_char_def word_le_nat_alt)
    have c: "((0x30 :: YogChar) = 0x2b) = False" "((0x30 :: YogChar) = 0x2d) = False" by simp_all
    show ?thesis
      by (simp only: normalize_as_number_def sz Let_def if_False if_True n0(1) res_bind_simps l c
          prod.case r option.case n1(1) simp_thms) (simp add: t(1)[simplified])
  qed
  ultimately show ?thesis by (auto simp: cs_def)
qed

text \<open>A decimal literal with a leading zero is read in radix 10 whatever radix the caller of to_i has
  chosen: the binary literal 011 is eleven.\<close>

lemma to_i_leading_zero:
  assumes "is_decimal ds" "length ds \<le> 18" "2 \<le> radix" "radix \<le> 36"
  shows "string_to_i (YPtr (OStr (yog_string (ascii_chars (CHR ''0'' # ds))))) (Some (YFixnum radix))
    = Inr (number_from_int (parse_digits 10 ds))"
proof -
  let ?s = "CHR ''0'' # ds"
  have dec: "is_decimal ?s" using assms(1) by (simp add: is_decimal_def)
  have "length ds < 2 ^ 59" using assms(2) by (rule le_less_trans) simp
  then obtain t where t: "normalize_as_number (yog_string (ascii_chars ?s)) radix = Inr (t, 10)"
      "chars_of t = ascii_chars ?s"
    using normalize_leading_zero[OF assms(1), of radix] by blast
  have l: "length ?s < 2 ^ 64" using assms(2) by (simp add: le_less_trans[of _ 18])
  have conv: "conv_from_yog create_ascii (take (s_size t) (STRING_CHARS t)) = Inr (ascii_bytes ?s @ [0], length ?s + 1)"
    unfolding t(2)[unfolded chars_of_def] by (rule conv_ascii_chars[OF decimal_ascii[OF dec] l])
  have p: "parse_digits 10 ?s = parse_digits 10 ds" by (simp add: parse_digits_def digit_value_def)
  have b: "0 \<le> parse_digits 10 ds" "parse_digits 10 ds < 10 ^ length ds"
    using parse_digits_bound[OF assms(1)] by simp_all
  have "(10 :: int) ^ length ds \<le> 10 ^ 18" using assms(2) by (intro power_increasing) auto
  then have "parse_digits 10 ds < 10 ^ 18" using b(2) by linarith
  then have r: "SIGNED_MIN \<le> parse_digits 10 ds" "parse_digits 10 ds \<le> SIGNED_MAX"
    using b(1) by (simp_all add: SIGNED_MIN_def SIGNED_MAX_def)
  have "to_i_of_radix (yog_string (ascii_chars ?s)) radix = Inr (number_from_int (parse_digits 10 ds))"
    unfolding to_i_of_radix_def t(1) res_bind_simps prod.case conv
      BINARY_CSTR_ascii[OF decimal_ascii[OF dec]] strtol_scan_digits(1)[OF dec] Let_def p
    using r by simp
  then show ?thesis using assms(3,4) by (simp add: string_to_i_def check_self_string_def del: ascii_chars_simps)
qed

lemma to_i_leading_zero_instance:
  "string_to_i (YPtr (OStr (yog_string (ascii_chars (CHR ''0'' # ''11''))))) (Some (YFixnum 2 :: unit yval))
   = (Inr (number_from_int (parse_digits 10 ''11'')) :: (int, unit) yog_number res)"
  by (rule to_i_leading_zero) (simp_all add: is_decimal_def)

end
