(* ===== verification/YogHeap.thy ===== *)
theory YogHeap
  imports YogValue
begin

text \<open>
  What the garbage collectors of \<^verbatim>\<open>src/gc\<close> see of the heap. The payload of an object is read
  through its \<^verbatim>\<open>ChildrenKeeper\<close>, a C function that calls \<^verbatim>\<open>YogGC_KEEP\<close> on each member that holds a
  value: \<open>o_slots\<close> are those members in the order of the calls, \<open>o_data\<close> the bytes besides them.
  An address is a natural number, 0 being NULL; a header is named by the address of its payload
  (\<^verbatim>\<open>header + 1\<close>). The theory also defines the graph of an object heap and the live objects, the
  specification of both collectors.
\<close>

type_synonym addr = nat

record gc_object =
  o_keeper :: bool
  o_finalizer :: bool
  o_slots :: "addr yval list"
  o_data :: "8 word list"

text \<open>The memory, and the objects whose finalizer was called, in the order of the calls.\<close>

record 'o gc_memory =
  mem :: "addr \<Rightarrow> 'o option"
  finalized :: "addr list"

type_synonym ('o, 'x) keeper = "('o, 'x) gc_memory_scheme \<Rightarrow> addr \<Rightarrow> (('o, 'x) gc_memory_scheme \<times> addr) res"

definition load_object :: "('o, 'x) gc_memory_scheme \<Rightarrow> addr \<Rightarrow> 'o res" where
  "load_object h p = (case mem h p of None \<Rightarrow> Inl MemFault | Some ob \<Rightarrow> Inr ob)"

definition put_object :: "addr \<Rightarrow> 'o \<Rightarrow> ('o, 'x) gc_memory_scheme \<Rightarrow> ('o, 'x) gc_memory_scheme" where
  "put_object p ob h = h\<lparr>mem := (mem h)(p \<mapsto> ob)\<rparr>"

section \<open>Keeping values\<close>

definition YogGC_keep :: "('o, 'x) keeper \<Rightarrow> ('o, 'x) gc_memory_scheme \<Rightarrow> addr yval
    \<Rightarrow> (('o, 'x) gc_memory_scheme \<times> addr yval) res" where
  "YogGC_keep keeper h v =
     (case v of
        YPtr p \<Rightarrow> res_bind (keeper h p) (\<lambda>(h', dest).
          if dest = 0 then Inl (YogBug ''Out of memory'') else Inr (h', YPtr dest))
      | _ \<Rightarrow> Inr (h, v))"

text \<open>\<^verbatim>\<open>YogGC_KEEP(env, obj, member, keeper, heap)\<close>: the member is read, kept and written back.\<close>

definition keep_member :: "('a gc_object_scheme, 'x) keeper \<Rightarrow> addr \<Rightarrow> nat
    \<Rightarrow> ('a gc_object_scheme, 'x) gc_memory_scheme \<Rightarrow> ('a gc_object_scheme, 'x) gc_memory_scheme res" where
  "keep_member keeper p i h =
     res_bind (load_object h p) (\<lambda>ob.
     res_bind (mem_load (o_slots ob) i) (\<lambda>v.
     res_bind (YogGC_keep keeper h v) (\<lambda>(h', val).
     res_bind (load_object h' p) (\<lambda>ob'.
       Inr (put_object p (ob'\<lparr>o_slots := (o_slots ob')[i := val]\<rparr>) h')))))"

definition keep_children :: "('a gc_object_scheme, 'x) keeper \<Rightarrow> addr
    \<Rightarrow> ('a gc_object_scheme, 'x) gc_memory_scheme \<Rightarrow> ('a gc_object_scheme, 'x) gc_memory_scheme res" where
  "keep_children keeper p h =
     res_bind (load_object h p) (\<lambda>ob. foldM (keep_member keeper p) [0..<length (o_slots ob)] h)"

text \<open>The roots: what \<^verbatim>\<open>YogVM_keep_children\<close> keeps (locals, handles, members of the VM), in its order.\<close>

fun keep_values :: "('o, 'x) keeper \<Rightarrow> addr yval list \<Rightarrow> ('o, 'x) gc_memory_scheme
    \<Rightarrow> (('o, 'x) gc_memory_scheme \<times> addr yval list) res" where
  "keep_values keeper [] h = Inr (h, [])"
| "keep_values keeper (v # vs) h =
     res_bind (YogGC_keep keeper h v) (\<lambda>(h1, v').
     res_bind (keep_values keeper vs h1) (\<lambda>(h2, vs'). Inr (h2, v' # vs')))"

section \<open>Live objects\<close>

definition ptrs_of :: "addr yval list \<Rightarrow> addr set" where
  "ptrs_of vs = {p. YPtr p \<in> set vs}"

definition succs :: "(addr \<Rightarrow> 'a gc_object_scheme option) \<Rightarrow> addr \<Rightarrow> addr set" where
  "succs m a = (case m a of Some ob \<Rightarrow> if o_keeper ob then ptrs_of (o_slots ob) else {} | None \<Rightarrow> {})"

inductive_set live :: "(addr \<Rightarrow> 'a gc_object_scheme option) \<Rightarrow> addr set \<Rightarrow> addr set"
  for m :: "addr \<Rightarrow> 'a gc_object_scheme option" and S :: "addr set" where
  live_root: "p \<in> S \<Longrightarrow> p \<in> live m S"
| live_succ: "p \<in> live m S \<Longrightarrow> q \<in> succs m p \<Longrightarrow> q \<in> live m S"

text \<open>No live pointer dangles.\<close>

definition no_dangling :: "(addr \<Rightarrow> 'a gc_object_scheme option) \<Rightarrow> addr set \<Rightarrow> bool" where
  "no_dangling m S \<longleftrightarrow> live m S \<subseteq> dom m - {0}"

lemma ptrs_of_simps [simp]:
  "ptrs_of [] = {}"
  "ptrs_of (v # vs) = (case v of YPtr p \<Rightarrow> insert p (ptrs_of vs) | _ \<Rightarrow> ptrs_of vs)"
  by (auto simp: ptrs_of_def split: yval.splits)

lemma ptrs_of_append [simp]: "ptrs_of (xs @ ys) = ptrs_of xs \<union> ptrs_of ys"
  by (auto simp: ptrs_of_def)

lemma finite_ptrs_of [simp]: "finite (ptrs_of vs)"
  by (induction vs) (auto split: yval.splits)

lemma live_least: "S \<subseteq> M \<Longrightarrow> (\<And>x. x \<in> M \<Longrightarrow> succs m x \<subseteq> M) \<Longrightarrow> live m S \<subseteq> M"
proof
  fix q assume a: "S \<subseteq> M" "\<And>x. x \<in> M \<Longrightarrow> succs m x \<subseteq> M" and "q \<in> live m S"
  from this(3) show "q \<in> M" by induction (use a in blast)+
qed

lemma live_mono: "S \<subseteq> T \<Longrightarrow> live m S \<subseteq> live m T"
  by (rule live_least) (auto intro: live.intros)

lemma live_step: "p \<in> S \<Longrightarrow> live m (succs m p) \<subseteq> live m S"
  by (rule live_least) (auto intro: live.intros)

lemma live_cong: "(\<And>p. succs m p = succs m' p) \<Longrightarrow> live m S = live m' S"
  by (intro equalityI live_least) (auto intro: live.intros)

lemma load_put_object [simp]:
  "load_object (put_object p ob h) q = (if q = p then Inr ob else load_object h q)"
  by (simp add: load_object_def put_object_def)

lemma mem_put_object [simp]: "mem (put_object p ob h) = (mem h)(p \<mapsto> ob)"
  by (simp add: put_object_def)

lemma finalized_put_object [simp]: "finalized (put_object p ob h) = finalized h"
  by (simp add: put_object_def)

lemma load_object_Some: "mem h p = Some ob \<Longrightarrow> load_object h p = Inr ob"
  by (simp add: load_object_def)

end
