(* ===== verification/YogMarkSweep.thy ===== *)
theory YogMarkSweep
  imports YogHeap
begin

text \<open>
  \<^verbatim>\<open>src/gc/mark-sweep.c\<close>: each thread has a heap, a doubly linked list of headers; marking follows
  pointers recursively whatever heap an object is in, sweeping unlinks the unmarked headers. The
  recursion of \<^verbatim>\<open>keep_object\<close> has the depth of the C stack as fuel: \<open>NoReturn\<close> is a stack that
  overflows. The loops over the list of headers have fuel for a list that ends.
\<close>

record ms_object = gc_object +
  h_prev :: addr
  h_next :: addr
  h_size :: nat
  h_marked :: bool

type_synonym ms_memory = "ms_object gc_memory"

text \<open>\<open>ms_addr\<close> is the address of the structure, by which a thread knows its heap.\<close>

record marksweep =
  ms_addr :: addr
  header :: addr
  threshold :: nat
  allocated_size :: nat
  refered :: bool

section \<open>Operations\<close>

primrec ms_keep_object :: "nat \<Rightarrow> ms_memory \<Rightarrow> addr \<Rightarrow> (ms_memory \<times> addr) res" where
  "ms_keep_object 0 h p = Inl NoReturn"
| "ms_keep_object (Suc stack) h p =
     (if p = 0 then Inr (h, 0)
      else res_bind (load_object h p) (\<lambda>ob.
        if h_marked ob then Inr (h, p)
        else let h1 = put_object p (ob\<lparr>h_marked := True\<rparr>) h
             in if \<not> o_keeper ob then Inr (h1, p)
                else res_bind (keep_children (ms_keep_object stack) p h1) (\<lambda>h2. Inr (h2, p))))"

text \<open>That a finalizer is called is recorded; what it does beside is not part of the model (that of Thread marks the heap
  of the thread as not referred to).\<close>

definition ms_finalize :: "addr \<Rightarrow> ms_object \<Rightarrow> ms_memory \<Rightarrow> ms_memory" where
  "ms_finalize p ob h = (if o_finalizer ob then h\<lparr>finalized := finalized h @ [p]\<rparr> else h)"

definition ms_delete :: "marksweep \<Rightarrow> addr \<Rightarrow> ms_memory \<Rightarrow> (ms_memory \<times> marksweep) res" where
  "ms_delete ms p h =
     res_bind (load_object h p) (\<lambda>ob.
       Inr (h\<lparr>mem := (mem h)(p := None)\<rparr>,
            ms\<lparr>allocated_size := usub (allocated_size ms) (h_size ob)\<rparr>))"

fun prepare_loop :: "nat \<Rightarrow> addr \<Rightarrow> ms_memory \<Rightarrow> ms_memory res" where
  "prepare_loop 0 _ _ = Inl NoReturn"
| "prepare_loop (Suc fuel) p h =
     (if p = 0 then Inr h
      else res_bind (load_object h p) (\<lambda>ob.
        prepare_loop fuel (h_next ob) (put_object p (ob\<lparr>h_marked := False\<rparr>) h)))"

definition YogMarkSweep_prepare :: "nat \<Rightarrow> marksweep \<Rightarrow> ms_memory \<Rightarrow> ms_memory res" where
  "YogMarkSweep_prepare fuel ms h = prepare_loop fuel (header ms) h"

definition set_next :: "addr \<Rightarrow> addr \<Rightarrow> ms_memory \<Rightarrow> ms_memory res" where
  "set_next p n h = res_bind (load_object h p) (\<lambda>ob. Inr (put_object p (ob\<lparr>h_next := n\<rparr>) h))"

definition set_prev :: "addr \<Rightarrow> addr \<Rightarrow> ms_memory \<Rightarrow> ms_memory res" where
  "set_prev p n h = res_bind (load_object h p) (\<lambda>ob. Inr (put_object p (ob\<lparr>h_prev := n\<rparr>) h))"

fun sweep_loop :: "nat \<Rightarrow> addr \<Rightarrow> marksweep \<Rightarrow> ms_memory \<Rightarrow> (ms_memory \<times> marksweep) res" where
  "sweep_loop 0 _ _ _ = Inl NoReturn"
| "sweep_loop (Suc fuel) p ms h =
     (if p = 0 then Inr (h, ms)
      else res_bind (load_object h p) (\<lambda>ob.
        let next = h_next ob
        in if h_marked ob then sweep_loop fuel next ms h
           else res_bind (if h_prev ob \<noteq> 0
                          then res_bind (set_next (h_prev ob) next (ms_finalize p ob h)) (\<lambda>h. Inr (h, ms))
                          else Inr (ms_finalize p ob h, ms\<lparr>header := next\<rparr>)) (\<lambda>(h, ms).
                res_bind (if next \<noteq> 0 then set_prev next (h_prev ob) h else Inr h) (\<lambda>h.
                res_bind (ms_delete ms p h) (\<lambda>(h, ms). sweep_loop fuel next ms h)))))"

definition YogMarkSweep_delete_garbage :: "nat \<Rightarrow> marksweep \<Rightarrow> ms_memory \<Rightarrow> (ms_memory \<times> marksweep) res" where
  "YogMarkSweep_delete_garbage fuel ms h = sweep_loop fuel (header ms) ms h"

definition YogMarkSweep_keep_root :: "nat \<Rightarrow> addr yval list \<Rightarrow> ms_memory \<Rightarrow> (ms_memory \<times> addr yval list) res" where
  "YogMarkSweep_keep_root stack roots h = keep_values (ms_keep_object stack) roots h"

definition YogMarkSweep_is_empty :: "marksweep \<Rightarrow> bool" where
  "YogMarkSweep_is_empty ms \<longleftrightarrow> header ms = 0"

definition YogMarkSweep_new :: "addr \<Rightarrow> nat \<Rightarrow> marksweep" where
  "YogMarkSweep_new p limit = \<lparr>ms_addr = p, header = 0, threshold = limit, allocated_size = 0, refered = True\<rparr>"

fun ms_delete_loop :: "nat \<Rightarrow> addr \<Rightarrow> marksweep \<Rightarrow> ms_memory \<Rightarrow> (ms_memory \<times> marksweep) res" where
  "ms_delete_loop 0 _ _ _ = Inl NoReturn"
| "ms_delete_loop (Suc fuel) p ms h =
     (if p = 0 then Inr (h, ms)
      else res_bind (load_object h p) (\<lambda>ob.
           res_bind (ms_delete ms p (ms_finalize p ob h)) (\<lambda>(h, ms). ms_delete_loop fuel (h_next ob) ms h)))"

definition YogMarkSweep_delete :: "nat \<Rightarrow> marksweep \<Rightarrow> ms_memory \<Rightarrow> (ms_memory \<times> marksweep) res" where
  "YogMarkSweep_delete fuel ms h = ms_delete_loop fuel (header ms) ms h"


text \<open>The collection of a VM: \<^verbatim>\<open>gc\<close> of \<^verbatim>\<open>gc.c\<close> with \<^verbatim>\<open>GC_MARK_SWEEP\<close>, over the list of its heaps.\<close>

record ms_vm =
  heaps :: "marksweep list"
  memory :: ms_memory
  roots :: "addr yval list"

fun sweep_heaps :: "nat \<Rightarrow> marksweep list \<Rightarrow> ms_memory \<Rightarrow> (ms_memory \<times> marksweep list) res" where
  "sweep_heaps fuel [] h = Inr (h, [])"
| "sweep_heaps fuel (ms # mss) h =
     res_bind (YogMarkSweep_delete_garbage fuel ms h) (\<lambda>(h, ms').
     res_bind (sweep_heaps fuel mss h) (\<lambda>(h, mss'). Inr (h, ms' # mss')))"

definition delete_heaps :: "marksweep list \<Rightarrow> marksweep list" where
  "delete_heaps mss = filter (\<lambda>ms. refered ms \<or> \<not> YogMarkSweep_is_empty ms) mss"

definition ms_gc :: "nat \<Rightarrow> ms_vm \<Rightarrow> ms_vm res" where
  "ms_gc fuel vm =
     res_bind (foldM (YogMarkSweep_prepare fuel) (heaps vm) (memory vm)) (\<lambda>h.
     res_bind (YogMarkSweep_keep_root fuel (roots vm) h) (\<lambda>(h, rs).
     res_bind (sweep_heaps fuel (heaps vm) h) (\<lambda>(h, mss).
       Inr \<lparr>heaps = delete_heaps mss, memory = h, roots = rs\<rparr>)))"

definition sizeof_Header :: nat where "sizeof_Header = 48"

text \<open>What \<^verbatim>\<open>YogGC_malloc\<close> fills a member with, as a value.\<close>

definition uninitialised :: "addr yval" where
  "uninitialised = YFixnum (VAL2INT 0xcbcbcbcbcbcbcbcb)"

text \<open>The allocation in the heap at \<open>a\<close> of an object of \<open>sz\<close> bytes with \<open>n\<close> members. \<open>malloc\<close> gives, in the memory in which it is
  called, the address behind the header of a block of so many bytes; when it fails, \<^verbatim>\<open>YogGC_malloc\<close> ends the process.\<close>

definition find_heap :: "addr \<Rightarrow> ms_vm \<Rightarrow> marksweep res" where
  "find_heap a vm = (case find (\<lambda>ms. ms_addr ms = a) (heaps vm) of None \<Rightarrow> Inl MemFault | Some ms \<Rightarrow> Inr ms)"

definition put_heap :: "marksweep \<Rightarrow> ms_vm \<Rightarrow> ms_vm" where
  "put_heap ms vm = vm\<lparr>heaps := map (\<lambda>x. if ms_addr x = ms_addr ms then ms else x) (heaps vm)\<rparr>"

definition link_header :: "addr \<Rightarrow> bool \<Rightarrow> bool \<Rightarrow> nat \<Rightarrow> nat \<Rightarrow> addr \<Rightarrow> ms_vm \<Rightarrow> (ms_vm \<times> addr) res" where
  "link_header a keeper finalizer sz n p vm =
     res_bind (find_heap a vm) (\<lambda>ms.
       let total_size = uwrap (sz + sizeof_Header);
           ob = \<lparr>o_keeper = keeper, o_finalizer = finalizer, o_slots = replicate n uninitialised,
                 o_data = replicate (sz - 8 * n) 0xcb, h_prev = 0, h_next = header ms,
                 h_size = total_size, h_marked = False\<rparr>
       in res_bind (if header ms \<noteq> 0 then set_prev (header ms) p (memory vm) else Inr (memory vm)) (\<lambda>h.
            Inr (put_heap (ms\<lparr>header := p, allocated_size := uwrap (allocated_size ms + total_size)\<rparr>)
                   (vm\<lparr>memory := put_object p ob h\<rparr>), p)))"

definition YogMarkSweep_alloc :: "nat \<Rightarrow> bool \<Rightarrow> addr \<Rightarrow> bool \<Rightarrow> bool \<Rightarrow> nat \<Rightarrow> nat \<Rightarrow> (ms_memory \<Rightarrow> nat \<Rightarrow> addr) \<Rightarrow> ms_vm
    \<Rightarrow> (ms_vm \<times> addr) res" where
  "YogMarkSweep_alloc fuel gc_stress a keeper finalizer sz n malloc vm =
     res_bind (find_heap a vm) (\<lambda>ms.
     res_bind (if gc_stress \<or> threshold ms \<le> allocated_size ms then ms_gc fuel vm else Inr vm) (\<lambda>vm.
       link_header a keeper finalizer sz n (malloc (memory vm) (uwrap (sz + sizeof_Header))) vm))"

text \<open>What \<^verbatim>\<open>malloc\<close> promises: a block that is not NULL and not in use. It may be one that was freed.\<close>

definition malloc_fresh :: "(ms_memory \<Rightarrow> nat \<Rightarrow> addr) \<Rightarrow> bool" where
  "malloc_fresh malloc \<longleftrightarrow> (\<forall>h n. finite (dom (mem h)) \<longrightarrow> malloc h n \<noteq> 0 \<and> mem h (malloc h n) = None)"

section \<open>Marking\<close>

definition marked :: "ms_memory \<Rightarrow> addr set" where
  "marked h = {p. \<exists>ob. mem h p = Some ob \<and> h_marked ob}"

text \<open>What marking leaves alone: everything but the marks.\<close>

definition unmark :: "ms_memory \<Rightarrow> addr \<Rightarrow> ms_object option" where
  "unmark h p = map_option (\<lambda>ob. ob\<lparr>h_marked := False\<rparr>) (mem h p)"

definition marks :: "addr set \<Rightarrow> ms_memory \<Rightarrow> ms_memory \<Rightarrow> bool" where
  "marks S h h' \<longleftrightarrow> unmark h' = unmark h \<and> finalized h' = finalized h
     \<and> marked h \<union> S \<subseteq> marked h' \<and> marked h' \<subseteq> marked h \<union> live (unmark h) S
     \<and> (\<forall>x\<in>marked h' - marked h. succs (unmark h) x \<subseteq> marked h')"

definition unmarked :: "ms_memory \<Rightarrow> nat" where
  "unmarked h = card (dom (mem h) - marked h)"

lemma unmark_SomeE:
  assumes "unmark h p = Some ob"
  obtains ob' where "mem h p = Some ob'" "o_slots ob' = o_slots ob"
  using assms by (cases "mem h p") (auto simp: unmark_def)

lemma unmark_dom: "dom (unmark h) = dom (mem h)"
  by (auto simp: unmark_def dom_def)

lemma succs_unmark: "mem h p = Some ob \<Longrightarrow> succs (unmark h) p = (if o_keeper ob then ptrs_of (o_slots ob) else {})"
  by (simp add: succs_def unmark_def)

lemma succs_unmark_mem: "succs (unmark h) = succs (mem h)"
  by (auto simp: succs_def unmark_def fun_eq_iff split: option.splits)

lemma live_unmark: "live (unmark h) S = live (mem h) S"
  by (rule live_cong) (simp add: succs_unmark_mem)

lemma marked_dom: "marked h \<subseteq> dom (mem h)"
  by (auto simp: marked_def)

lemma marks_refl: "S \<subseteq> marked h \<Longrightarrow> marks S h h"
  by (auto simp: marks_def)

lemma marks_trans:
  assumes "marks S h h1" "marks T h1 h2"
  shows "marks (S \<union> T) h h2"
proof -
  note a = assms[unfolded marks_def]
  have "live (unmark h) S \<union> live (unmark h) T \<subseteq> live (unmark h) (S \<union> T)"
    by (intro Un_least live_mono) auto
  moreover have "marked h2 \<subseteq> marked h1 \<union> live (unmark h) T" "marked h1 \<subseteq> marked h \<union> live (unmark h) S"
    using a by auto
  ultimately have "marked h2 \<subseteq> marked h \<union> live (unmark h) (S \<union> T)" by blast
  moreover have "\<forall>x\<in>marked h2 - marked h. succs (unmark h) x \<subseteq> marked h2"
  proof
    fix x assume x: "x \<in> marked h2 - marked h"
    show "succs (unmark h) x \<subseteq> marked h2"
    proof (cases "x \<in> marked h1")
      case True
      then have "succs (unmark h) x \<subseteq> marked h1" using a x by blast
      then show ?thesis using a by blast
    next
      case False
      then show ?thesis using a x by (metis DiffD1 DiffI)
    qed
  qed
  ultimately show ?thesis using a unfolding marks_def by auto
qed

lemma marks_weaken: "marks S h h' \<Longrightarrow> live (unmark h) S \<subseteq> live (unmark h) T \<Longrightarrow> T \<subseteq> marked h' \<Longrightarrow> marks T h h'"
  unfolding marks_def by blast

text \<open>One object: its mark is set.\<close>

lemma mark_object:
  assumes "mem h p = Some ob"
  defines "h1 \<equiv> put_object p (ob\<lparr>h_marked := True\<rparr>) h"
  shows "unmark h1 = unmark h" "finalized h1 = finalized h" "marked h1 = insert p (marked h)"
    "finite (dom (mem h)) \<Longrightarrow> \<not> h_marked ob \<Longrightarrow> unmarked h1 < unmarked h"
proof -
  show "unmark h1 = unmark h" using assms by (auto simp: unmark_def fun_eq_iff)
  show "finalized h1 = finalized h" by (simp add: h1_def)
  show m: "marked h1 = insert p (marked h)" using assms by (auto simp: marked_def)
  assume fin: "finite (dom (mem h))" and un: "\<not> h_marked ob"
  have "dom (mem h1) = dom (mem h)" using assms by auto
  moreover have "p \<in> dom (mem h) - marked h" using assms un by (auto simp: marked_def)
  ultimately show "unmarked h1 < unmarked h" unfolding unmarked_def m
    by (intro psubset_card_mono) (use fin in auto)
qed

lemma marks_unmarked:
  assumes "marks S h h'" "finite (dom (mem h))" shows "unmarked h' \<le> unmarked h" "dom (mem h') = dom (mem h)"
proof -
  show d: "dom (mem h') = dom (mem h)" using assms(1) unmark_dom[of h] unmark_dom[of h'] by (simp add: marks_def)
  show "unmarked h' \<le> unmarked h" unfolding unmarked_def d
    by (rule card_mono) (use assms in \<open>auto simp: marks_def\<close>)
qed

text \<open>A keeper that marks: it returns its argument and marks what is live from it.\<close>

definition marking :: "(ms_object, unit) keeper \<Rightarrow> (addr \<Rightarrow> ms_object option) \<Rightarrow> nat \<Rightarrow> bool" where
  "marking K g n \<longleftrightarrow> (\<forall>h q. unmark h = g \<longrightarrow> unmarked h < n \<longrightarrow> no_dangling g {q} \<longrightarrow>
     (\<exists>h'. K h q = Inr (h', q) \<and> marks {q} h h'))"

lemma put_object_self: "mem h p = Some ob \<Longrightarrow> put_object p ob h = h"
  by (simp add: put_object_def fun_upd_idem)

lemma YogGC_keep_marking:
  assumes "marking K (unmark h) n" "unmarked h < n" "no_dangling (unmark h) (ptrs_of [v])"
  shows "\<exists>h'. YogGC_keep K h v = Inr (h', v) \<and> marks (ptrs_of [v]) h h'"
proof (cases v)
  case (YPtr q)
  then have "no_dangling (unmark h) {q}" using assms(3) by simp
  then obtain h' where "K h q = Inr (h', q)" "marks {q} h h'" "q \<noteq> 0"
    using assms(1,2) live_root[of q "{q}" "unmark h"] unfolding marking_def no_dangling_def by blast
  then show ?thesis using YPtr by (simp add: YogGC_keep_def)
qed (simp_all add: YogGC_keep_def marks_refl)

lemma no_dangling_mono: "no_dangling g T \<Longrightarrow> S \<subseteq> T \<Longrightarrow> no_dangling g S"
  unfolding no_dangling_def using live_mono by blast

lemma keep_member_marks:
  assumes K: "marking K (unmark h) n" "unmarked h < n"
    and ob: "unmark h p = Some ob" "i < length (o_slots ob)"
    and live: "no_dangling (unmark h) (ptrs_of [o_slots ob ! i])"
  shows "\<exists>h'. keep_member K p i h = Inr h' \<and> marks (ptrs_of [o_slots ob ! i]) h h'"
proof -
  obtain h' where k: "YogGC_keep K h (o_slots ob ! i) = Inr (h', o_slots ob ! i)"
    and m: "marks (ptrs_of [o_slots ob ! i]) h h'" using YogGC_keep_marking[OF K live] by blast
  obtain o1 where o1: "mem h p = Some o1" "o_slots o1 = o_slots ob"
    using unmark_SomeE[OF ob(1)] by blast
  have "unmark h' = unmark h" using m by (simp add: marks_def)
  then obtain o2 where o2: "mem h' p = Some o2" "o_slots o2 = o_slots ob"
    using ob(1) unmark_SomeE by metis
  have "o2\<lparr>o_slots := (o_slots o2)[i := o_slots ob ! i]\<rparr> = o2"
    using o2(2) by (simp flip: o2(2))
  then have "keep_member K p i h = Inr h'"
    using o1 o2 ob(2) k by (simp add: keep_member_def load_object_Some put_object_self)
  then show ?thesis using m by blast
qed

lemma keep_members_marks:
  assumes "marking K (unmark h) n" "unmarked h < n" "finite (dom (mem h))"
    and ob: "unmark h p = Some ob" "set is \<subseteq> {0..<length (o_slots ob)}"
    and live: "no_dangling (unmark h) (ptrs_of (o_slots ob))"
  shows "\<exists>h'. foldM (keep_member K p) is h = Inr h' \<and> marks (\<Union>i\<in>set is. ptrs_of [o_slots ob ! i]) h h'"
  using assms
proof (induction "is" arbitrary: h)
  case (Cons i js)
  let ?S = "ptrs_of [o_slots ob ! i]"
  have sub: "?S \<subseteq> ptrs_of (o_slots ob)" using Cons.prems(5) by (auto simp: ptrs_of_def)
  obtain h1 where h1: "keep_member K p i h = Inr h1" "marks ?S h h1"
    using keep_member_marks[OF Cons.prems(1,2,4)] no_dangling_mono[OF Cons.prems(6) sub] Cons.prems(5)
    by auto
  have u: "unmark h1 = unmark h" using h1(2) by (simp add: marks_def)
  have "unmarked h1 < n" "finite (dom (mem h1))"
    using marks_unmarked[OF h1(2) Cons.prems(3)] Cons.prems(2,3) by auto
  then obtain h2 where "foldM (keep_member K p) js h1 = Inr h2"
    "marks (\<Union>i\<in>set js. ptrs_of [o_slots ob ! i]) h1 h2"
    using Cons.IH[of h1] Cons.prems unfolding u by auto
  then show ?case using h1 marks_trans[OF h1(2)] by auto
qed (simp add: marks_refl)

lemma ptrs_of_nth: "(\<Union>i\<in>set [0..<length vs]. ptrs_of [vs ! i]) = ptrs_of vs"
  by (auto simp: ptrs_of_def in_set_conv_nth)

lemma no_dangling_succs: "no_dangling g {p} \<Longrightarrow> no_dangling g (succs g p)"
  unfolding no_dangling_def using live_step[of p "{p}" g] by blast

lemma keep_object_marking:
  assumes "finite (dom g)"
  shows "marking (ms_keep_object k) g k"
proof (induction k)
  case (Suc k)
  show ?case unfolding marking_def
  proof (intro allI impI)
    fix h q assume a: "unmark h = g" "unmarked h < Suc k" "no_dangling g {q}"
    have fin: "finite (dom (mem h))" using assms a(1) unmark_dom by metis
    have "q \<in> live g {q}" by (simp add: live_root)
    then have "q \<in> dom (mem h)" "q \<noteq> 0" using a(1,3) unmark_dom[of h] by (auto simp: no_dangling_def)
    then obtain ob where ob: "mem h q = Some ob" by auto
    define h1 where "h1 = put_object q (ob\<lparr>h_marked := True\<rparr>) h"
    note h1 = mark_object[OF ob, folded h1_def]
    have g1: "unmark h1 q = Some (ob\<lparr>h_marked := False\<rparr>)" unfolding h1(1) using ob by (simp add: unmark_def)
    have sq: "succs g q = (if o_keeper ob then ptrs_of (o_slots ob) else {})"
      using succs_unmark[OF ob] a(1) by simp
    show "\<exists>h'. ms_keep_object (Suc k) h q = Inr (h', q) \<and> marks {q} h h'"
    proof (cases "h_marked ob")
      case True
      then have "marks {q} h h" using ob by (intro marks_refl) (auto simp: marked_def)
      then show ?thesis using True ob \<open>q \<noteq> 0\<close> by (auto simp: load_object_Some)
    next
      case False
      have q1: "marks (succs g q) h1 h2 \<Longrightarrow> marks {q} h h2" for h2
        unfolding marks_def h1(1-3) a(1)
        using live_step[of q "{q}" g] live_root[of q "{q}" g] by auto
      show ?thesis
      proof (cases "o_keeper ob")
        case True
        have "no_dangling (unmark h1) (ptrs_of (o_slots (ob\<lparr>h_marked := False\<rparr>)))"
          using no_dangling_succs[OF a(3)] True by (simp add: h1(1) a(1) sq)
        moreover have "marking (ms_keep_object k) (unmark h1) k" using Suc.IH a(1) h1(1) by simp
        moreover have "unmarked h1 < k" using h1(4)[OF fin False] a(2) by simp
        moreover have "finite (dom (mem h1))" using fin by (simp add: h1_def)
        ultimately obtain h2 where "foldM (keep_member (ms_keep_object k) q) [0..<length (o_slots ob)] h1 = Inr h2"
          "marks (succs g q) h1 h2"
          using keep_members_marks[of "ms_keep_object k" h1 k q "ob\<lparr>h_marked := False\<rparr>" "[0..<length (o_slots ob)]"] g1
            ptrs_of_nth[of "o_slots ob"] True by (auto simp: sq)
        then show ?thesis using True False ob \<open>q \<noteq> 0\<close> q1
          by (auto simp: load_object_Some keep_children_def h1_def)
      next
        case no: False
        then have "marks (succs g q) h1 h1" by (simp add: sq marks_refl)
        then show ?thesis using no False ob \<open>q \<noteq> 0\<close> q1 by (auto simp: load_object_Some h1_def)
      qed
    qed
  qed
qed (simp add: marking_def)

lemma keep_values_marks:
  assumes "marking K (unmark h) n" "unmarked h < n" "finite (dom (mem h))"
    and "no_dangling (unmark h) (ptrs_of vs)"
  shows "\<exists>h'. keep_values K vs h = Inr (h', vs) \<and> marks (ptrs_of vs) h h'"
  using assms
proof (induction vs arbitrary: h)
  case (Cons v vs)
  have sub: "ptrs_of [v] \<subseteq> ptrs_of (v # vs)" "ptrs_of vs \<subseteq> ptrs_of (v # vs)" by (auto simp: ptrs_of_def)
  obtain h1 where h1: "YogGC_keep K h v = Inr (h1, v)" "marks (ptrs_of [v]) h h1"
    using YogGC_keep_marking[OF Cons.prems(1,2)] no_dangling_mono[OF Cons.prems(4) sub(1)] by blast
  have u: "unmark h1 = unmark h" using h1(2) by (simp add: marks_def)
  have "unmarked h1 < n" "finite (dom (mem h1))"
    using marks_unmarked[OF h1(2) Cons.prems(3)] Cons.prems(2,3) by auto
  then obtain h2 where "keep_values K vs h1 = Inr (h2, vs)" "marks (ptrs_of vs) h1 h2"
    using Cons.IH[of h1] Cons.prems no_dangling_mono[OF Cons.prems(4) sub(2)] unfolding u by auto
  moreover have "ptrs_of [v] \<union> ptrs_of vs = ptrs_of (v # vs)" by (auto simp: ptrs_of_def)
  ultimately show ?case using h1(1) marks_trans[OF h1(2)] by (metis (no_types, lifting) keep_values.simps(2) case_prod_conv res_bind_simps(2))
qed (simp add: marks_refl)

section \<open>The list of headers\<close>

definition links :: "ms_memory \<Rightarrow> addr \<Rightarrow> (addr \<times> addr) option" where
  "links h p = map_option (\<lambda>ob. (h_prev ob, h_next ob)) (mem h p)"

text \<open>A segment of the list: it starts at \<open>first\<close>, whose previous header is \<open>prev\<close>, and ends
  before \<open>stop\<close>.\<close>

fun dseg :: "(addr \<Rightarrow> (addr \<times> addr) option) \<Rightarrow> addr \<Rightarrow> addr \<Rightarrow> addr list \<Rightarrow> addr \<Rightarrow> bool" where
  "dseg l prev first [] stop \<longleftrightarrow> first = stop"
| "dseg l prev first (x # xs) stop \<longleftrightarrow> first = x \<and> (\<exists>n. l x = Some (prev, n) \<and> dseg l x n xs stop)"

lemma dseg_append:
  "dseg l prev first (xs @ ys) stop \<longleftrightarrow> (\<exists>m. dseg l prev first xs m \<and> dseg l (last (prev # xs)) m ys stop)"
  by (induction xs arbitrary: prev first) auto

lemma dseg_cong: "(\<And>x. x \<in> set xs \<Longrightarrow> l x = l' x) \<Longrightarrow> dseg l prev first xs stop = dseg l' prev first xs stop"
  by (induction xs arbitrary: prev first) auto

lemma dseg_dom: "dseg l prev first xs stop \<Longrightarrow> set xs \<subseteq> dom l"
  by (induction xs arbitrary: prev first) auto

text \<open>Unlinking a header.\<close>

definition unlink :: "addr \<Rightarrow> (addr \<Rightarrow> (addr \<times> addr) option) \<Rightarrow> addr \<Rightarrow> (addr \<times> addr) option" where
  "unlink x l = (case l x of None \<Rightarrow> l | Some (pr, n) \<Rightarrow>
     (\<lambda>y. if y = x then None
          else map_option (\<lambda>(a, b). (if y = n then pr else a, if y = pr then n else b)) (l y)))"

lemma unlink_other:
  "l x = Some (pr, n) \<Longrightarrow> y \<notin> {x, pr, n} \<Longrightarrow> unlink x l y = l y"
  by (cases "l y") (auto simp: unlink_def)

lemma dseg_unlink_tail:
  assumes "dseg l x n xs 0" "l x = Some (pr, n)" "x \<notin> set xs" "pr \<notin> set xs" "distinct xs"
  shows "dseg (unlink x l) pr n xs 0"
proof (cases xs)
  case (Cons y ys)
  then obtain k where k: "n = y" "l y = Some (x, k)" "dseg l y k ys 0" using assms(1) by auto
  have "unlink x l z = l z" if "z \<in> set ys" for z
    using assms Cons k that by (intro unlink_other) auto
  then have "dseg (unlink x l) y k ys 0" using k(3) dseg_cong by metis
  then show ?thesis using Cons assms k by (auto simp: unlink_def)
qed (use assms in auto)

lemma dseg_unlink_front:
  assumes "dseg l 0 first ys x" "l x = Some (last (0 # ys), n)" "n \<notin> set ys" "x \<notin> set ys" "0 \<notin> set ys" "distinct ys"
  shows "dseg (unlink x l) 0 (if ys = [] then n else first) ys n"
proof (cases ys rule: rev_cases)
  case (snoc zs y)
  then have k: "dseg l 0 first zs y" "l y = Some (last (0 # zs), x)" using assms(1) by (auto simp: dseg_append)
  have "unlink x l z = l z" if "z \<in> set zs" for z
    using assms snoc that by (intro unlink_other) auto
  then have "dseg (unlink x l) 0 first zs y" using k(1) dseg_cong by metis
  then show ?thesis using snoc assms k by (auto simp: unlink_def dseg_append)
qed simp

lemma dseg_unlink:
  assumes "dseg l 0 first (ys @ x # xs) 0" "distinct (ys @ x # xs)" "0 \<notin> set (ys @ x # xs)"
  obtains n where "l x = Some (last (0 # ys), n)" "dseg l x n xs 0" "n = hd (xs @ [0])"
    "dseg (unlink x l) 0 (if last (0 # ys) = 0 then n else first) (ys @ xs) 0"
proof -
  obtain n where n: "dseg l 0 first ys x" "l x = Some (last (0 # ys), n)" "dseg l x n xs 0"
    using assms(1) by (auto simp: dseg_append)
  have hd: "n = hd (xs @ [0])" using n(3) by (cases xs) auto
  have ne: "last (0 # ys) = 0 \<longleftrightarrow> ys = []" using assms(3) by (cases ys rule: rev_cases) auto
  have "last (0 # ys) \<notin> set xs" using assms(2,3) by (cases ys rule: rev_cases) auto
  then have "dseg (unlink x l) (last (0 # ys)) n xs 0"
    using dseg_unlink_tail[OF n(3,2)] assms(2) by auto
  moreover have "n \<notin> set ys" using hd assms(2,3) by (cases xs) auto
  then have "dseg (unlink x l) 0 (if ys = [] then n else first) ys n"
    using dseg_unlink_front[OF n(1,2)] assms(2,3) by auto
  ultimately show ?thesis using that n hd unfolding ne dseg_append by blast
qed

section \<open>Sweeping\<close>

text \<open>An object without its place in the list.\<close>

definition content :: "ms_memory \<Rightarrow> addr \<Rightarrow> ms_object option" where
  "content h p = map_option (\<lambda>ob. ob\<lparr>h_prev := 0, h_next := 0\<rparr>) (mem h p)"

lemma content_dom: "dom (content h) = dom (mem h)" "dom (links h) = dom (mem h)"
  by (auto simp: content_def links_def dom_def)

lemma mem_ms_finalize [simp]: "mem (ms_finalize p ob h) = mem h"
  "finalized (ms_finalize p ob h) = finalized h @ (if o_finalizer ob then [p] else [])"
  "load_object (ms_finalize p ob h) = load_object h"
  by (auto simp: ms_finalize_def load_object_def)

lemma sweep_unmarked:
  assumes x: "mem h x = Some ob" "\<not> h_marked ob" "x \<noteq> 0" "links h x = Some (pr, n)"
    and pr: "pr \<noteq> 0 \<Longrightarrow> pr \<in> dom (mem h)" and n: "n \<noteq> 0 \<Longrightarrow> n \<in> dom (mem h)"
    and ne: "pr \<noteq> x" "n \<noteq> x" "n = 0 \<or> pr \<noteq> n" "mem h 0 = None"
  shows "\<exists>h'. sweep_loop (Suc fuel) x ms h =
      sweep_loop fuel n (ms\<lparr>header := if pr = 0 then n else header ms,
                            allocated_size := usub (allocated_size ms) (h_size ob)\<rparr>) h'
    \<and> links h' = unlink x (links h) \<and> content h' = (content h)(x := None)
    \<and> finalized h' = finalized h @ (if o_finalizer ob then [x] else [])"
proof -
  define h0 where "h0 = ms_finalize x ob h"
  define h1 where "h1 = (if pr \<noteq> 0 then put_object pr (the (mem h pr)\<lparr>h_next := n\<rparr>) h0 else h0)"
  define h2 where "h2 = (if n \<noteq> 0 then put_object n (the (mem h1 n)\<lparr>h_prev := pr\<rparr>) h1 else h1)"
  define h3 where "h3 = h2\<lparr>mem := (mem h2)(x := None)\<rparr>"
  have ob: "h_prev ob = pr" "h_next ob = n" using x by (auto simp: links_def)
  have l1: "pr \<noteq> 0 \<Longrightarrow> set_next pr n h0 = Inr h1"
    using pr by (auto simp: set_next_def h1_def h0_def load_object_def)
  have d: "mem h1 x = mem h x" "n \<noteq> 0 \<Longrightarrow> mem h1 n = mem h n" using ne by (auto simp: h1_def h0_def)
  have l2: "n \<noteq> 0 \<Longrightarrow> set_prev n pr h1 = Inr h2"
    using n d(2) by (auto simp: set_prev_def h2_def load_object_def)
  have "mem h2 x = mem h x" using d ne by (auto simp: h2_def)
  then have l3: "ms_delete ms' x h2 = Inr (h3, ms'\<lparr>allocated_size := usub (allocated_size ms') (h_size ob)\<rparr>)" for ms'
    using x by (simp add: ms_delete_def h3_def load_object_Some)
  have run: "sweep_loop (Suc fuel) x ms h =
      sweep_loop fuel n (ms\<lparr>header := if pr = 0 then n else header ms,
                            allocated_size := usub (allocated_size ms) (h_size ob)\<rparr>) h3"
    using x ob l1 l2 l3 by (auto simp: load_object_Some Let_def h0_def h1_def h2_def)
  have m3: "mem h3 = (\<lambda>y. if y = x then None
      else if y = pr \<and> pr \<noteq> 0 then map_option (h_next_update (\<lambda>_. n)) (mem h y)
      else if y = n \<and> n \<noteq> 0 then map_option (h_prev_update (\<lambda>_. pr)) (mem h y) else mem h y)"
    using ne pr n d by (auto simp: h3_def h2_def h1_def h0_def fun_eq_iff)
  have "links h3 = unlink x (links h)"
    using ne x(4) by (auto simp: fun_eq_iff links_def unlink_def m3 option.map_comp comp_def
        split: option.splits intro!: option.map_cong0)
  moreover have "content h3 = (content h)(x := None)"
    using ne by (auto simp: fun_eq_iff content_def m3 option.map_comp comp_def intro!: option.map_cong0)
  moreover have "finalized h3 = finalized h @ (if o_finalizer ob then [x] else [])"
    by (simp add: h3_def h2_def h1_def h0_def)
  ultimately show ?thesis using run by blast
qed

abbreviation sizes :: "ms_memory \<Rightarrow> addr list \<Rightarrow> nat" where
  "sizes h xs \<equiv> sum_list (map (\<lambda>q. h_size (the (content h q))) xs)"

definition heap_list :: "ms_memory \<Rightarrow> marksweep \<Rightarrow> addr list \<Rightarrow> bool" where
  "heap_list h ms xs \<longleftrightarrow> dseg (links h) 0 (header ms) xs 0 \<and> distinct xs
     \<and> allocated_size ms = uwrap (sizes h xs)"

lemma marked_content: "q \<in> marked h \<longleftrightarrow> (\<exists>ob. content h q = Some ob \<and> h_marked ob)"
  by (auto simp: marked_def content_def)

lemma usub_uwrap: "usub (uwrap (a + b)) b = uwrap a" if "b < 2 ^ 64"
proof -
  let ?N = "2 ^ 64 :: int"
  have "(int a + int b) mod ?N + ?N - int b = int a + (1 - (int a + int b) div ?N) * ?N"
    by (simp add: algebra_simps minus_mult_div_eq_mod [symmetric])
  then have "((int a + int b) mod ?N + ?N - int b) mod ?N = int a mod ?N" by (simp only: mod_mult_self1)
  moreover have "b \<le> (a + b) mod 2 ^ 64 + 2 ^ 64" using that by simp
  ultimately have "int (((a + b) mod 2 ^ 64 + 2 ^ 64 - b) mod 2 ^ 64) = int (a mod 2 ^ 64)"
    by (simp add: of_nat_diff zmod_int)
  then show ?thesis by (simp only: usub_def uwrap_def of_nat_eq_iff)
qed

definition sizes_fit :: "ms_memory \<Rightarrow> bool" where
  "sizes_fit h \<longleftrightarrow> (\<forall>p ob. content h p = Some ob \<longrightarrow> h_size ob < 2 ^ 64)"

lemma sizes_cong: "(\<And>q. q \<in> set xs \<Longrightarrow> content h q = content h' q) \<Longrightarrow> sizes h xs = sizes h' xs"
  by (induction xs) auto

declare sweep_loop.simps(2) [simp del]

lemma sweep_loop_end [simp]: "sweep_loop (Suc fuel) 0 ms h = Inr (h, ms)"
  by (simp add: sweep_loop.simps(2))

lemma sweep_loop_spec:
  assumes "heap_list h ms (ys @ xs)" "mem h 0 = None" "sizes_fit h" "length xs < fuel"
  shows "\<exists>h' ms'. sweep_loop fuel (hd (xs @ [0])) ms h = Inr (h', ms')
    \<and> heap_list h' ms' (ys @ filter (\<lambda>q. q \<in> marked h) xs)
    \<and> content h' = (\<lambda>q. if q \<in> set xs \<and> q \<notin> marked h then None else content h q)
    \<and> (\<forall>q. q \<notin> set (ys @ xs) \<longrightarrow> links h' q = links h q)
    \<and> finalized h' = finalized h @ filter (\<lambda>q. q \<notin> marked h \<and> o_finalizer (the (content h q))) xs
    \<and> threshold ms' = threshold ms \<and> refered ms' = refered ms \<and> ms_addr ms' = ms_addr ms"
  using assms
proof (induction xs arbitrary: ys h ms fuel)
  case Nil
  then show ?case by (cases fuel) auto
next
  case (Cons x xs)
  from Cons.prems obtain k where k: "fuel = Suc k" by (cases fuel) auto
  note hl = Cons.prems(1)[unfolded heap_list_def]
  have dm: "set (ys @ x # xs) \<subseteq> dom (mem h)" using dseg_dom hl content_dom(2) by metis
  have z: "0 \<notin> set (ys @ x # xs)" using dm Cons.prems(2) by (metis domIff subsetD)
  obtain ob where ob: "mem h x = Some ob" using dm by auto
  show ?case
  proof (cases "h_marked ob")
    case True
    obtain n where n: "links h x = Some (last (0 # ys), n)" "n = hd (xs @ [0])"
      using dseg_unlink[of "links h"] hl z by metis
    then have nx: "h_next ob = hd (xs @ [0])" using ob by (simp add: links_def)
    have mk: "x \<in> marked h" using True ob by (auto simp: marked_def)
    have "sweep_loop fuel x ms h = sweep_loop k (hd (xs @ [0])) ms h"
      using True ob z k nx by (simp add: load_object_Some sweep_loop.simps(2))
    moreover have "(\<lambda>q. if q \<in> set (x # xs) \<and> q \<notin> marked h then None else content h q)
      = (\<lambda>q. if q \<in> set xs \<and> q \<notin> marked h then None else content h q)" using mk by auto
    moreover have "length xs < k" using Cons.prems(4) k by simp
    ultimately show ?thesis using Cons.IH[of h ms "ys @ [x]" k] Cons.prems(1-3)
      using mk by simp
  next
    case False
    obtain n where n: "links h x = Some (last (0 # ys), n)" "n = hd (xs @ [0])"
      "dseg (unlink x (links h)) 0 (if last (0 # ys) = 0 then n else header ms) (ys @ xs) 0"
      using dseg_unlink[of "links h"] hl z by metis
    have ns: "n \<noteq> 0 \<Longrightarrow> n \<in> set xs" using n(2) by (cases xs) auto
    have ls: "last (0 # ys) \<noteq> 0 \<Longrightarrow> last (0 # ys) \<in> set ys" by (cases ys rule: rev_cases) auto
    have dx: "x \<notin> set (ys @ xs)" "distinct (ys @ xs)" using hl by simp_all
    have nz: "x \<noteq> 0" using z by auto
    have pd: "last (0 # ys) \<in> dom (mem h)" if "last (0 # ys) \<noteq> 0" using ls[OF that] dm by auto
    have nd: "n \<in> dom (mem h)" if "n \<noteq> 0" using ns[OF that] dm by auto
    have "n = 0 \<or> last (0 # ys) \<noteq> n"
    proof (rule disjCI)
      assume "\<not> last (0 # ys) \<noteq> n"
      then show "n = 0" using ls ns dx(2) by (metis disjoint_iff distinct_append)
    qed
    moreover have "last (0 # ys) \<noteq> x" "n \<noteq> x" using ls ns dx nz by auto
    ultimately have ne: "last (0 # ys) \<noteq> x" "n \<noteq> x" "n = 0 \<or> last (0 # ys) \<noteq> n" by blast+
    obtain h1 where h1: "sweep_loop (Suc k) x ms h = sweep_loop k n (ms\<lparr>header := if last (0 # ys) = 0 then n else header ms,
                            allocated_size := usub (allocated_size ms) (h_size ob)\<rparr>) h1"
      "links h1 = unlink x (links h)" "content h1 = (content h)(x := None)"
      "finalized h1 = finalized h @ (if o_finalizer ob then [x] else [])"
      using sweep_unmarked[OF ob False nz n(1) pd nd ne Cons.prems(2), of k ms] by blast
    have um: "x \<notin> marked h" using False ob by (auto simp: marked_def)
    have m1: "marked h1 = marked h" using um h1(3) by (auto simp: marked_content split: if_splits)
    have xob: "content h x = Some (ob\<lparr>h_prev := 0, h_next := 0\<rparr>)" using ob by (simp add: content_def)
    have c1: "content h1 q = content h q" if "q \<in> set (ys @ xs)" for q using that dx(1) h1(3) by auto
    have s1: "sizes h1 (ys @ xs) = sizes h (ys @ xs)" using c1 by (rule sizes_cong)
    have "h_size (ob\<lparr>h_prev := 0, h_next := 0\<rparr>) < 2 ^ 64"
      using Cons.prems(3) xob unfolding sizes_fit_def by blast
    then have "h_size ob < 2 ^ 64" by simp
    moreover have "sizes h (ys @ x # xs) = sizes h (ys @ xs) + h_size ob" using xob by simp
    ultimately have al: "usub (allocated_size ms) (h_size ob) = uwrap (sizes h (ys @ xs))"
      using hl usub_uwrap[of "h_size ob" "sizes h (ys @ xs)"] by metis
    let ?ms = "ms\<lparr>header := if last (0 # ys) = 0 then n else header ms,
                 allocated_size := usub (allocated_size ms) (h_size ob)\<rparr>"
    have "heap_list h1 ?ms (ys @ xs)" using n(3) dx(2) s1 al h1(2) by (simp add: heap_list_def)
    moreover have "mem h1 0 = None" using h1(3) content_dom(1)[of h1] content_dom(1)[of h] Cons.prems(2) by (metis domIff fun_upd_apply)
    moreover have "sizes_fit h1" using Cons.prems(3) h1(3) by (auto simp: sizes_fit_def)
    ultimately obtain h' ms' where r: "sweep_loop k (hd (xs @ [0])) ?ms h1 = Inr (h', ms')"
      "heap_list h' ms' (ys @ filter (\<lambda>q. q \<in> marked h1) xs)"
      "content h' = (\<lambda>q. if q \<in> set xs \<and> q \<notin> marked h1 then None else content h1 q)"
      "\<forall>q. q \<notin> set (ys @ xs) \<longrightarrow> links h' q = links h1 q"
      "finalized h' = finalized h1 @ filter (\<lambda>q. q \<notin> marked h1 \<and> o_finalizer (the (content h1 q))) xs"
      "threshold ms' = threshold ms" "refered ms' = refered ms" "ms_addr ms' = ms_addr ms"
      using Cons.IH[of h1 ?ms ys k] Cons.prems(4) unfolding k by fastforce
    have f: "filter (\<lambda>q. q \<notin> marked h1 \<and> o_finalizer (the (content h1 q))) xs
      = filter (\<lambda>q. q \<notin> marked h \<and> o_finalizer (the (content h q))) xs"
      by (rule filter_cong) (use m1 c1 in auto)
    have "content h' = (\<lambda>q. if q \<in> set (x # xs) \<and> q \<notin> marked h then None else content h q)"
      unfolding r(3) m1 h1(3) using um by auto
    moreover have "\<forall>q. q \<notin> set (ys @ x # xs) \<longrightarrow> links h' q = links h q"
    proof (intro allI impI)
      fix q assume q: "q \<notin> set (ys @ x # xs)"
      then have "links h' q = unlink x (links h) q" using r(4) h1(2) by simp
      also have "\<dots> = links h q"
      proof (cases "q = 0")
        case True
        then show ?thesis using Cons.prems(2) n(1) z by (auto simp: unlink_def links_def)
      next
        case False
        then have "q \<notin> {x, last (0 # ys), n}" using q ns ls False by auto
        then show ?thesis using unlink_other[of "links h", OF n(1)] by blast
      qed
      finally show "links h' q = links h q" .
    qed
    moreover have "finalized h' = finalized h @ filter (\<lambda>q. q \<notin> marked h \<and> o_finalizer (the (content h q))) (x # xs)"
      using r(5) h1(4) um xob unfolding f by simp
    moreover have "heap_list h' ms' (ys @ filter (\<lambda>q. q \<in> marked h) (x # xs))" using r(2) um unfolding m1 by simp
    moreover have "sweep_loop fuel (hd ((x # xs) @ [0])) ms h = Inr (h', ms')" using h1(1) r(1) n(2) k by simp
    ultimately show ?thesis using r(6-8) by blast
  qed
qed

lemma dseg_hd: "dseg l prev first xs stop \<Longrightarrow> first = hd (xs @ [stop])"
  by (cases xs) auto

lemma delete_garbage_spec:
  assumes "heap_list h ms xs" "mem h 0 = None" "sizes_fit h" "length xs < fuel"
  shows "\<exists>h' ms'. YogMarkSweep_delete_garbage fuel ms h = Inr (h', ms')
    \<and> heap_list h' ms' (filter (\<lambda>q. q \<in> marked h) xs)
    \<and> content h' = (\<lambda>q. if q \<in> set xs \<and> q \<notin> marked h then None else content h q)
    \<and> (\<forall>q. q \<notin> set xs \<longrightarrow> links h' q = links h q)
    \<and> finalized h' = finalized h @ filter (\<lambda>q. q \<notin> marked h \<and> o_finalizer (the (content h q))) xs
    \<and> refered ms' = refered ms \<and> ms_addr ms' = ms_addr ms"
proof -
  have "header ms = hd (xs @ [0])" using assms(1) dseg_hd by (auto simp: heap_list_def)
  then show ?thesis using sweep_loop_spec[of h ms "[]" xs fuel] assms
    by (simp add: YogMarkSweep_delete_garbage_def) blast
qed

lemma heap_list_cong:
  assumes "\<And>q. q \<in> set xs \<Longrightarrow> links h q = links h' q \<and> content h q = content h' q"
  shows "heap_list h ms xs = heap_list h' ms xs"
proof -
  have "sizes h xs = sizes h' xs" using assms by (intro sizes_cong) blast
  moreover have "dseg (links h) 0 (header ms) xs 0 = dseg (links h') 0 (header ms) xs 0"
    using assms by (intro dseg_cong) blast
  ultimately show ?thesis by (simp add: heap_list_def)
qed

lemma mem_None_content: "mem h q = None \<longleftrightarrow> content h q = None"
  by (simp add: content_def)

lemma sweep_heaps_spec:
  assumes "list_all2 (heap_list h) mss Ls" "distinct (concat Ls)" "mem h 0 = None" "sizes_fit h"
    "length (concat Ls) < fuel"
  shows "\<exists>h' mss'. sweep_heaps fuel mss h = Inr (h', mss')
    \<and> list_all2 (heap_list h') mss' (map (filter (\<lambda>q. q \<in> marked h)) Ls)
    \<and> content h' = (\<lambda>q. if q \<in> set (concat Ls) \<and> q \<notin> marked h then None else content h q)
    \<and> (\<forall>q. q \<notin> set (concat Ls) \<longrightarrow> links h' q = links h q)
    \<and> finalized h' = finalized h @ filter (\<lambda>q. q \<notin> marked h \<and> o_finalizer (the (content h q))) (concat Ls)
    \<and> map (\<lambda>ms. (refered ms, ms_addr ms)) mss' = map (\<lambda>ms. (refered ms, ms_addr ms)) mss"
  using assms
proof (induction mss arbitrary: Ls h)
  case (Cons ms mss)
  then obtain L Ms where L: "Ls = L # Ms" "heap_list h ms L" "list_all2 (heap_list h) mss Ms"
    by (auto simp: list_all2_Cons1)
  have dis: "set L \<inter> set (concat Ms) = {}" "distinct (concat Ms)" using Cons.prems(2) L(1) by auto
  obtain h1 ms' where h1: "YogMarkSweep_delete_garbage fuel ms h = Inr (h1, ms')"
    "heap_list h1 ms' (filter (\<lambda>q. q \<in> marked h) L)"
    "content h1 = (\<lambda>q. if q \<in> set L \<and> q \<notin> marked h then None else content h q)"
    "\<forall>q. q \<notin> set L \<longrightarrow> links h1 q = links h q"
    "finalized h1 = finalized h @ filter (\<lambda>q. q \<notin> marked h \<and> o_finalizer (the (content h q))) L"
    "refered ms' = refered ms" "ms_addr ms' = ms_addr ms"
    using delete_garbage_spec[OF L(2) Cons.prems(3,4), of fuel] Cons.prems(5) L(1) by auto
  have m1: "marked h1 = marked h" using h1(3) by (auto simp: marked_content split: if_splits)
  have same: "links h q = links h1 q \<and> content h q = content h1 q" if "q \<in> set (concat Ms)" for q
  proof -
    have "q \<notin> set L" using that dis(1) by (meson disjoint_iff)
    then show ?thesis using h1(3,4) by simp
  qed
  have "heap_list h m M = heap_list h1 m M" if "M \<in> set Ms" for m M
    using same that by (intro heap_list_cong) auto
  then have "list_all2 (heap_list h1) mss Ms" using L(3) by (auto simp: list_all2_conv_all_nth)
  moreover have "mem h1 0 = None" using h1(3) Cons.prems(3) by (simp add: mem_None_content)
  moreover have "sizes_fit h1" using Cons.prems(4) h1(3) by (auto simp: sizes_fit_def)
  ultimately obtain h2 mss' where h2: "sweep_heaps fuel mss h1 = Inr (h2, mss')"
    "list_all2 (heap_list h2) mss' (map (filter (\<lambda>q. q \<in> marked h1)) Ms)"
    "content h2 = (\<lambda>q. if q \<in> set (concat Ms) \<and> q \<notin> marked h1 then None else content h1 q)"
    "\<forall>q. q \<notin> set (concat Ms) \<longrightarrow> links h2 q = links h1 q"
    "finalized h2 = finalized h1 @ filter (\<lambda>q. q \<notin> marked h1 \<and> o_finalizer (the (content h1 q))) (concat Ms)"
    "map (\<lambda>ms. (refered ms, ms_addr ms)) mss' = map (\<lambda>ms. (refered ms, ms_addr ms)) mss"
    using Cons.IH[OF _ dis(2), of h1] Cons.prems(5) L(1) by auto
  have "links h2 q = links h1 q \<and> content h2 q = content h1 q" if "q \<in> set (filter (\<lambda>q. q \<in> marked h) L)" for q
  proof -
    have "q \<notin> set (concat Ms)" using that dis(1) by (metis disjoint_iff filter_is_subset subsetD)
    then show ?thesis using h2(3,4) by simp
  qed
  then have "heap_list h2 ms' (filter (\<lambda>q. q \<in> marked h) L)"
    using h1(2) heap_list_cong[of "filter (\<lambda>q. q \<in> marked h) L" h2 h1] by blast
  moreover have "filter (\<lambda>q. q \<notin> marked h1 \<and> o_finalizer (the (content h1 q))) (concat Ms)
    = filter (\<lambda>q. q \<notin> marked h \<and> o_finalizer (the (content h q))) (concat Ms)"
    using same m1 by (intro filter_cong) auto
  moreover have "content h2 = (\<lambda>q. if q \<in> set (concat Ls) \<and> q \<notin> marked h then None else content h q)"
    unfolding h2(3) m1 h1(3) L(1) by auto
  moreover have "\<forall>q. q \<notin> set (concat Ls) \<longrightarrow> links h2 q = links h q" using h2(4) h1(4) L(1) by simp
  ultimately show ?case using h1 h2 L(1) unfolding m1 by auto
qed simp

section \<open>A collection\<close>

lemma prepare_loop_spec:
  assumes "dseg (links h) prev first xs 0" "distinct xs" "0 \<notin> set xs" "length xs < fuel"
  shows "\<exists>h'. prepare_loop fuel first h = Inr h' \<and> finalized h' = finalized h
    \<and> mem h' = (\<lambda>q. if q \<in> set xs then unmark h q else mem h q)"
  using assms
proof (induction xs arbitrary: prev first h fuel)
  case Nil
  then show ?case by (cases fuel) auto
next
  case (Cons x xs)
  then obtain n k where n: "first = x" "links h x = Some (prev, n)" "dseg (links h) x n xs 0" "fuel = Suc k"
    by (cases fuel) auto
  then obtain ob where ob: "mem h x = Some ob" "h_next ob = n" by (auto simp: links_def)
  define h1 where "h1 = put_object x (ob\<lparr>h_marked := False\<rparr>) h"
  have "links h1 = links h" using ob by (auto simp: h1_def links_def)
  then obtain h' where h': "prepare_loop k n h1 = Inr h'" "finalized h' = finalized h1"
    "mem h' = (\<lambda>q. if q \<in> set xs then unmark h1 q else mem h1 q)"
    using Cons.IH[of h1 x n k] n Cons.prems by auto
  moreover have "prepare_loop fuel first h = prepare_loop k n h1"
    using n(1,4) ob Cons.prems(3) by (simp add: load_object_Some h1_def)
  moreover have "mem h' = (\<lambda>q. if q \<in> set (x # xs) then unmark h q else mem h q)"
    using h'(3) ob Cons.prems(2) by (auto simp: h1_def unmark_def fun_eq_iff)
  ultimately show ?case by (simp add: h1_def)
qed

lemma links_unmark: "(\<And>q. unmark h' q = unmark h q) \<Longrightarrow> links h' = links h"
proof -
  assume e: "\<And>q. unmark h' q = unmark h q"
  have "links h q = map_option (\<lambda>ob. (h_prev ob, h_next ob)) (unmark h q)" for h q
    by (simp add: links_def unmark_def option.map_comp comp_def)
  then show ?thesis using e by auto
qed

lemma heap_list_unmark:
  assumes "\<And>q. unmark h' q = unmark h q" shows "heap_list h' ms xs = heap_list h ms xs"
proof -
  have "h_size (the (content h q)) = h_size (the (unmark h q))" if "q \<in> dom (mem h)" for h q
    using that by (auto simp: content_def unmark_def)
  moreover have "dom (mem h') = dom (mem h)" using assms unmark_dom[of h] unmark_dom[of h'] by (metis domIff subsetI subset_antisym)
  ultimately have sz: "h_size (the (content h' q)) = h_size (the (content h q))" if "q \<in> dom (mem h)" for q
    using that assms by simp
  have "sizes h' xs = sizes h xs" if "dseg (links h) 0 (header ms) xs 0"
  proof -
    have "set xs \<subseteq> dom (mem h)" using dseg_dom[OF that] content_dom(2) by metis
    then have "map (\<lambda>q. h_size (the (content h' q))) xs = map (\<lambda>q. h_size (the (content h q))) xs"
      using sz by (intro map_cong) auto
    then show ?thesis by (simp only:)
  qed
  moreover have "links h' = links h" using assms by (rule links_unmark)
  ultimately show ?thesis by (auto simp: heap_list_def)
qed

lemma foldM_prepare:
  assumes "list_all2 (heap_list h) mss Ls" "distinct (concat Ls)" "mem h 0 = None" "length (concat Ls) < fuel"
  shows "\<exists>h'. foldM (YogMarkSweep_prepare fuel) mss h = Inr h' \<and> finalized h' = finalized h
    \<and> mem h' = (\<lambda>q. if q \<in> set (concat Ls) then unmark h q else mem h q)"
  using assms
proof (induction mss arbitrary: Ls h)
  case (Cons ms mss)
  then obtain L Ms where L: "Ls = L # Ms" "heap_list h ms L" "list_all2 (heap_list h) mss Ms"
    by (auto simp: list_all2_Cons1)
  have d: "dseg (links h) 0 (header ms) L 0" using L(2) by (simp add: heap_list_def)
  have "0 \<notin> set L" using dseg_dom[OF d] content_dom(2)[of h] Cons.prems(3) by (metis domIff subsetD)
  then obtain h1 where h1: "YogMarkSweep_prepare fuel ms h = Inr h1" "finalized h1 = finalized h"
    "mem h1 = (\<lambda>q. if q \<in> set L then unmark h q else mem h q)"
    using prepare_loop_spec[OF d, of fuel] Cons.prems(2,4) L(1) by (auto simp: YogMarkSweep_prepare_def)
  have u: "unmark h1 q = unmark h q" for q
    using h1(3) by (simp add: unmark_def option.map_comp comp_def)
  have "heap_list h1 = heap_list h" using heap_list_unmark[of h1 h] u by blast
  then have "list_all2 (heap_list h1) mss Ms" using L(3) by simp
  moreover have "mem h1 0 = None" using h1(3) Cons.prems(3) by (simp add: unmark_def)
  ultimately obtain h2 where h2: "foldM (YogMarkSweep_prepare fuel) mss h1 = Inr h2" "finalized h2 = finalized h1"
    "mem h2 = (\<lambda>q. if q \<in> set (concat Ms) then unmark h1 q else mem h1 q)"
    using Cons.IH[of h1 Ms] Cons.prems(2,4) L(1) by auto
  moreover have "mem h2 = (\<lambda>q. if q \<in> set (concat Ls) then unmark h q else mem h q)"
    unfolding h2(3) h1(3) L(1) using u by auto
  ultimately show ?case using h1 by simp
qed simp

definition vm_lists :: "ms_vm \<Rightarrow> addr list list \<Rightarrow> bool" where
  "vm_lists vm Ls \<longleftrightarrow> list_all2 (heap_list (memory vm)) (heaps vm) Ls \<and> distinct (concat Ls)
     \<and> dom (mem (memory vm)) = set (concat Ls) \<and> mem (memory vm) 0 = None \<and> sizes_fit (memory vm)
     \<and> distinct (map ms_addr (heaps vm))"

definition vm_ok :: "ms_vm \<Rightarrow> bool" where
  "vm_ok vm \<longleftrightarrow> (\<exists>Ls. vm_lists vm Ls)"

text \<open>What the program stored in an object.\<close>

definition payload :: "ms_memory \<Rightarrow> addr \<Rightarrow> gc_object option" where
  "payload h p = map_option gc_object.truncate (mem h p)"

lemma payload_unmark: "unmark h' p = unmark h p \<Longrightarrow> payload h' p = payload h p"
proof -
  have "payload h p = map_option gc_object.truncate (unmark h p)" for h
    by (cases "mem h p") (simp_all add: payload_def unmark_def gc_object.truncate_def)
  then show "unmark h' p = unmark h p \<Longrightarrow> payload h' p = payload h p" by simp
qed

lemma payload_content: "content h' p = content h p \<Longrightarrow> payload h' p = payload h p"
proof -
  have "payload h p = map_option gc_object.truncate (content h p)" for h
    by (cases "mem h p") (simp_all add: payload_def content_def gc_object.truncate_def)
  then show "content h' p = content h p \<Longrightarrow> payload h' p = payload h p" by simp
qed

lemma finalizer_payload: "o_finalizer (the (content h p)) = o_finalizer (the (payload h p))" if "p \<in> dom (mem h)"
  using that by (auto simp: payload_def content_def gc_object.truncate_def)

lemma heap_list_empty: "heap_list h ms L \<Longrightarrow> mem h 0 = None \<Longrightarrow> YogMarkSweep_is_empty ms \<Longrightarrow> L = []"
proof (cases L)
  case (Cons x xs)
  assume "heap_list h ms L" "mem h 0 = None" "YogMarkSweep_is_empty ms"
  then have "links h 0 \<noteq> None" using Cons by (auto simp: heap_list_def YogMarkSweep_is_empty_def)
  then show ?thesis using \<open>mem h 0 = None\<close> by (simp add: links_def)
qed simp

lemma list_all2_filter:
  assumes "list_all2 P xs Ls" "\<And>x L. P x L \<Longrightarrow> \<not> Q x \<Longrightarrow> L = []"
  shows "\<exists>Ls'. list_all2 P (filter Q xs) Ls' \<and> concat Ls' = concat Ls"
  using assms(1)
proof (induction rule: list_all2_induct)
  case (Cons x xs L Ls)
  then obtain Ls' where "list_all2 P (filter Q xs) Ls'" "concat Ls' = concat Ls" by blast
  then show ?case using Cons.hyps assms(2)[of x L] by (cases "Q x") (auto intro: exI[of _ "L # Ls'"])
qed simp

lemma marks_all: "marks S h h' \<Longrightarrow> marked h = {} \<Longrightarrow> marked h' = live (unmark h) S"
proof
  assume a: "marks S h h'" "marked h = {}"
  show "marked h' \<subseteq> live (unmark h) S" using a by (simp add: marks_def)
  show "live (unmark h) S \<subseteq> marked h'" using a by (intro live_least) (auto simp: marks_def)
qed

lemma sizes_fit_iff: "sizes_fit h \<longleftrightarrow> (\<forall>ob\<in>ran (unmark h). h_size ob < 2 ^ 64)"
proof -
  have "content h = (\<lambda>p. map_option (\<lambda>ob. ob\<lparr>h_prev := 0, h_next := 0\<rparr>) (mem h p))"
    "unmark h = (\<lambda>p. map_option (\<lambda>ob. ob\<lparr>h_marked := False\<rparr>) (mem h p))"
    by (simp_all add: fun_eq_iff content_def unmark_def)
  then have "ran (content h) = (\<lambda>ob. ob\<lparr>h_prev := 0, h_next := 0\<rparr>) ` ran (mem h)"
    "ran (unmark h) = (\<lambda>ob. ob\<lparr>h_marked := False\<rparr>) ` ran (mem h)"
    by (simp_all add: ran_map_option)
  moreover have "sizes_fit h \<longleftrightarrow> (\<forall>ob\<in>ran (content h). h_size ob < 2 ^ 64)"
    by (auto simp: sizes_fit_def ran_def)
  ultimately show ?thesis by simp
qed

lemma sizes_fit_unmark: "unmark h' = unmark h \<Longrightarrow> sizes_fit h \<Longrightarrow> sizes_fit h'"
  by (simp add: sizes_fit_iff)

lemma dom_restrict: "dom (\<lambda>q. if q \<in> A \<and> q \<notin> M then None else f q) = dom f - (A - M)"
  by (auto split: if_splits)

lemma filter_marked_concat: "concat (map (filter P) Ls) = filter P (concat Ls)"
  by (simp add: filter_concat)

lemma ms_gc_exact:
  assumes vm: "vm_lists vm Ls" and live: "no_dangling (mem (memory vm)) (ptrs_of (roots vm))"
    and fuel: "length (concat Ls) < fuel"
  defines "alive \<equiv> live (mem (memory vm)) (ptrs_of (roots vm))"
  shows "\<exists>vm' Ls'. ms_gc fuel vm = Inr vm' \<and> vm_lists vm' Ls' \<and> concat Ls' = filter (\<lambda>p. p \<in> alive) (concat Ls)
    \<and> roots vm' = roots vm \<and> (\<forall>p\<in>alive. payload (memory vm') p = payload (memory vm) p)
    \<and> finalized (memory vm') = finalized (memory vm)
        @ filter (\<lambda>p. p \<notin> alive \<and> o_finalizer (the (payload (memory vm) p))) (concat Ls)
    \<and> (\<forall>ms\<in>set (heaps vm). refered ms \<longrightarrow> (\<exists>ms'\<in>set (heaps vm'). ms_addr ms' = ms_addr ms \<and> refered ms'))"
proof -
  let ?h = "memory vm"
  note v = vm[unfolded vm_lists_def]
  obtain h1 where h1: "foldM (YogMarkSweep_prepare fuel) (heaps vm) ?h = Inr h1" "finalized h1 = finalized ?h"
    "mem h1 = (\<lambda>q. if q \<in> set (concat Ls) then unmark ?h q else mem ?h q)"
    using foldM_prepare[of ?h "heaps vm" Ls fuel] v fuel by blast
  have "mem ?h q = None" if "q \<notin> set (concat Ls)" for q using v that by (metis domIff)
  then have "mem h1 q = unmark ?h q" for q unfolding h1(3) by (simp add: unmark_def)
  then have u1: "unmark h1 = unmark ?h" and m1: "marked h1 = {}"
    by (auto simp: fun_eq_iff unmark_def marked_def option.map_comp comp_def)
  have d1: "dom (mem h1) = set (concat Ls)" using v u1 unmark_dom by metis
  have "unmarked h1 \<le> length (concat Ls)" unfolding unmarked_def m1 d1 Diff_empty
    by (rule card_length)
  then have "unmarked h1 < fuel" using fuel by simp
  moreover have "marking (ms_keep_object fuel) (unmark h1) fuel"
    by (rule keep_object_marking) (simp add: unmark_dom d1)
  moreover have "no_dangling (unmark h1) (ptrs_of (roots vm))"
    using live unfolding u1 by (simp add: no_dangling_def live_unmark unmark_dom)
  ultimately obtain h2 where h2: "YogMarkSweep_keep_root fuel (roots vm) h1 = Inr (h2, roots vm)"
    "marks (ptrs_of (roots vm)) h1 h2"
    using keep_values_marks[of "ms_keep_object fuel" h1 fuel "roots vm"] d1
    by (auto simp: YogMarkSweep_keep_root_def)
  have u2: "unmark h2 = unmark ?h" "finalized h2 = finalized ?h" using h2(2) u1 h1(2) by (simp_all add: marks_def)
  have m2: "marked h2 = alive"
    using marks_all[OF h2(2) m1] unfolding u1 alive_def by (simp add: live_unmark)
  have pl: "payload h2 p = payload ?h p" for p using u2(1) payload_unmark by metis
  have "heap_list h2 = heap_list ?h" by (intro ext heap_list_unmark) (simp add: u2(1))
  then have "list_all2 (heap_list h2) (heaps vm) Ls" using v by simp
  moreover have "mem h2 0 = None" using v u2(1) unmark_dom by (metis domIff)
  moreover have "sizes_fit h2" using v sizes_fit_unmark[OF u2(1)] by blast
  ultimately obtain h3 mss where h3: "sweep_heaps fuel (heaps vm) h2 = Inr (h3, mss)"
    "list_all2 (heap_list h3) mss (map (filter (\<lambda>q. q \<in> alive)) Ls)"
    "content h3 = (\<lambda>q. if q \<in> set (concat Ls) \<and> q \<notin> alive then None else content h2 q)"
    "finalized h3 = finalized h2 @ filter (\<lambda>q. q \<notin> alive \<and> o_finalizer (the (content h2 q))) (concat Ls)"
    "map (\<lambda>ms. (refered ms, ms_addr ms)) mss = map (\<lambda>ms. (refered ms, ms_addr ms)) (heaps vm)"
    using sweep_heaps_spec[of h2 "heaps vm" Ls fuel] v fuel unfolding m2 by blast
  have z3: "mem h3 0 = None" using h3(3) \<open>mem h2 0 = None\<close> by (simp add: mem_None_content)
  obtain Ls' where Ls': "list_all2 (heap_list h3) (delete_heaps mss) Ls'"
    "concat Ls' = filter (\<lambda>p. p \<in> alive) (concat Ls)"
    using list_all2_filter[OF h3(2), of "\<lambda>ms. refered ms \<or> \<not> YogMarkSweep_is_empty ms"]
      heap_list_empty z3 unfolding delete_heaps_def filter_marked_concat by blast
  define vm' where "vm' = \<lparr>heaps = delete_heaps mss, memory = h3, roots = roots vm\<rparr>"
  have run: "ms_gc fuel vm = Inr vm'" using h1(1) h2(1) h3(1) by (simp add: ms_gc_def vm'_def)
  have d2: "dom (content h2) = set (concat Ls)" using u2(1) v content_dom(1) unmark_dom by metis
  have "alive \<subseteq> set (concat Ls)" using live v unfolding no_dangling_def alive_def by auto
  moreover have "dom (mem h3) = set (concat Ls) \<inter> alive"
    using d2 unfolding content_dom(1)[of h3, symmetric] h3(3) dom_restrict by blast
  ultimately have d3: "dom (mem h3) = set (concat Ls')" unfolding Ls'(2) by auto
  have "sizes_fit h3" using \<open>sizes_fit h2\<close> h3(3) by (auto simp: sizes_fit_def split: if_splits)
  moreover have "map ms_addr mss = map ms_addr (heaps vm)"
    using arg_cong[OF h3(5), of "map snd"] by (simp add: comp_def)
  then have "distinct (map ms_addr (delete_heaps mss))"
    using v by (simp add: delete_heaps_def distinct_map_filter)
  ultimately have ok: "vm_lists vm' Ls'" using Ls' d3 z3 v by (simp add: vm_lists_def vm'_def)
  have p3: "payload h3 p = payload ?h p" if "p \<in> alive" for p
    using payload_content[of h3 p h2] pl that h3(3) by simp
  have "o_finalizer (the (content h2 q)) = o_finalizer (the (payload ?h q))" if "q \<in> set (concat Ls)" for q
    using finalizer_payload[of q h2] pl d2 content_dom(1)[of h2] that by simp
  then have f3: "finalized h3 = finalized ?h @ filter (\<lambda>p. p \<notin> alive \<and> o_finalizer (the (payload ?h p))) (concat Ls)"
    unfolding h3(4) u2(2) append_same_eq same_append_eq by (intro filter_cong) (auto simp del: set_concat)
  have "\<exists>ms'\<in>set (delete_heaps mss). ms_addr ms' = ms_addr ms \<and> refered ms'" if "ms \<in> set (heaps vm)" "refered ms" for ms
  proof -
    have "(True, ms_addr ms) \<in> set (map (\<lambda>ms. (refered ms, ms_addr ms)) mss)" using that unfolding h3(5) by force
    then show ?thesis by (auto simp: delete_heaps_def)
  qed
  then show ?thesis using run ok Ls'(2) p3 f3 by (auto simp: vm'_def intro!: exI[of _ vm'] exI[of _ Ls'])
qed

section \<open>Allocation\<close>

lemma push_header:
  assumes hl: "heap_list h ms L" and z: "mem h 0 = None" and p: "mem h p = None" "p \<noteq> 0"
    and ob: "h_prev ob = 0" "h_next ob = header ms"
  shows "\<exists>h1. (if header ms \<noteq> 0 then set_prev (header ms) p h else Inr h) = Inr h1
    \<and> finalized h1 = finalized h
    \<and> content (put_object p ob h1) = (content h)(p \<mapsto> ob\<lparr>h_prev := 0, h_next := 0\<rparr>)
    \<and> (\<forall>q. q \<notin> set (p # L) \<longrightarrow> links (put_object p ob h1) q = links h q)
    \<and> heap_list (put_object p ob h1)
        (ms\<lparr>header := p, allocated_size := uwrap (allocated_size ms + h_size ob)\<rparr>) (p # L)"
proof -
  note v = hl[unfolded heap_list_def]
  have dm: "set L \<subseteq> dom (mem h)" using v dseg_dom content_dom(2) by metis
  have hd: "header ms = hd (L @ [0])" using v dseg_hd by blast
  have pL: "p \<notin> set L" "0 \<notin> set L" using dm p z by (auto simp: domIff dest!: subsetD)
  define h1 where "h1 = (if header ms \<noteq> 0 then put_object (header ms) (the (mem h (header ms))\<lparr>h_prev := p\<rparr>) h else h)"
  have hm: "header ms \<in> set L" if "header ms \<noteq> 0" using hd that by (cases L) auto
  have run: "(if header ms \<noteq> 0 then set_prev (header ms) p h else Inr h) = Inr h1"
    using hm dm by (auto simp: h1_def set_prev_def load_object_def split: option.splits)
  have m1: "mem h1 = (\<lambda>q. if q = header ms \<and> q \<noteq> 0 then map_option (h_prev_update (\<lambda>_. p)) (mem h q) else mem h q)"
    using hm dm by (auto simp: h1_def fun_eq_iff)
  have ne: "header ms \<noteq> p" using hd pL p by (cases L) auto
  let ?h = "put_object p ob h1"
  have c: "content ?h = (content h)(p \<mapsto> ob\<lparr>h_prev := 0, h_next := 0\<rparr>)"
    by (auto simp: content_def m1 fun_eq_iff option.map_comp comp_def intro!: option.map_cong0)
  have l: "links ?h q = links h q" if "q \<notin> set (p # L)" for q
    using that hm by (auto simp: links_def m1)
  have "sizes ?h L = sizes h L" using pL c by (intro sizes_cong) auto
  then have sz: "sizes ?h (p # L) = sizes h L + h_size ob" using c by simp
  have "dseg (links ?h) p (header ms) L 0"
  proof (cases L)
    case (Cons y ys)
    then obtain k where k: "links h y = Some (0, k)" "dseg (links h) y k ys 0" "header ms = y" using v by auto
    have "links ?h q = links h q" if "q \<in> set ys" for q
      using that v Cons pL k(3) by (auto simp: links_def m1)
    then have "dseg (links ?h) y k ys 0" using k(2) dseg_cong by metis
    moreover have "links ?h y = Some (p, k)" using k pL Cons by (auto simp: links_def m1)
    ultimately show ?thesis using Cons k by simp
  qed (use hd in simp)
  moreover have "links ?h p = Some (0, header ms)" using ob by (simp add: links_def)
  ultimately have "heap_list ?h (ms\<lparr>header := p, allocated_size := uwrap (allocated_size ms + h_size ob)\<rparr>) (p # L)"
    using v pL sz by (simp add: heap_list_def uwrap_def mod_simps)
  then show ?thesis using run c l by (auto simp: h1_def)
qed

lemma list_all2_split:
  assumes "list_all2 P xs Ls" "x \<in> set xs"
  obtains us vs Ms L Ns where "xs = us @ x # vs" "Ls = Ms @ L # Ns" "list_all2 P us Ms" "P x L" "list_all2 P vs Ns"
proof -
  obtain us vs where u: "xs = us @ x # vs" using assms(2) split_list by metis
  then obtain Ms L Ns where "Ls = Ms @ L # Ns" "list_all2 P us Ms" "P x L" "list_all2 P vs Ns"
    using assms(1) by (auto simp: list_all2_append1 list_all2_Cons1)
  then show ?thesis using that u by blast
qed

lemma map_replace:
  "distinct (map f (us @ x # vs)) \<Longrightarrow> map (\<lambda>y. if f y = f x then x' else y) (us @ x # vs) = us @ x' # vs"
  by (auto intro!: map_idI) (metis image_eqI)+

lemma list_all2_impl:
  "list_all2 P us Ms \<Longrightarrow> (\<And>y M. M \<in> set Ms \<Longrightarrow> P y M \<Longrightarrow> P' y M) \<Longrightarrow> list_all2 P' us Ms"
  by (auto simp: list_all2_conv_all_nth)

lemma find_unique: "x \<in> set xs \<Longrightarrow> distinct (map f xs) \<Longrightarrow> find (\<lambda>y. f y = f x) xs = Some x"
proof (induction xs)
  case (Cons y ys)
  then have "x \<in> set ys \<Longrightarrow> f y \<noteq> f x" by (metis distinct.simps(2) image_eqI list.map(2) set_map)
  then show ?case using Cons by auto
qed simp

lemma find_heap_ok:
  "ms \<in> set (heaps vm) \<Longrightarrow> distinct (map ms_addr (heaps vm)) \<Longrightarrow> find_heap (ms_addr ms) vm = Inr ms"
  by (simp add: find_heap_def find_unique)

definition live_objects :: "ms_vm \<Rightarrow> addr set" where
  "live_objects vm = live (mem (memory vm)) (ptrs_of (roots vm))"

definition vm_live :: "ms_vm \<Rightarrow> bool" where
  "vm_live vm \<longleftrightarrow> no_dangling (mem (memory vm)) (ptrs_of (roots vm))"

lemma succs_payload: "payload h p = payload h' p \<Longrightarrow> succs (mem h) p = succs (mem h') p"
  by (cases "mem h p"; cases "mem h' p") (auto simp: payload_def succs_def gc_object.truncate_def)

lemma live_same:
  assumes "\<And>p. p \<in> live (mem h) S \<Longrightarrow> payload h' p = payload h p"
  shows "live (mem h') S = live (mem h) S"
proof (intro equalityI live_least)
  have e: "succs (mem h') p = succs (mem h) p" if "p \<in> live (mem h) S" for p
    using assms[OF that] succs_payload by metis
  show "S \<subseteq> live (mem h) S" "S \<subseteq> live (mem h') S" by (auto intro: live.intros)
  show "succs (mem h') x \<subseteq> live (mem h) S" if "x \<in> live (mem h) S" for x
    using e that by (auto intro: live.intros)
  have "x \<in> live (mem h') S" if "x \<in> live (mem h) S" for x
    using that by induction (use e in \<open>auto intro: live.intros\<close>)
  moreover have "x \<in> live (mem h) S" if "x \<in> live (mem h') S" for x
    using that by induction (use e in \<open>auto intro: live.intros\<close>)
  ultimately show "succs (mem h) x \<subseteq> live (mem h') S" if "x \<in> live (mem h') S" for x
    using that by (auto intro: live.intros)
qed

lemma link_header_ok:
  assumes vm: "vm_lists vm Ls" and ms: "ms \<in> set (heaps vm)" and p: "mem (memory vm) p = None" "p \<noteq> 0"
    and sz: "sz + sizeof_Header < 2 ^ 64"
  shows "\<exists>vm' Ls' ob. link_header (ms_addr ms) keeper finalizer sz n p vm = Inr (vm', p)
    \<and> vm_lists vm' Ls' \<and> roots vm' = roots vm \<and> finalized (memory vm') = finalized (memory vm)
    \<and> payload (memory vm') = (payload (memory vm))(p \<mapsto> ob) \<and> ptrs_of (o_slots ob) = {}"
proof -
  let ?h = "memory vm"
  note v = vm[unfolded vm_lists_def]
  define ob where "ob = \<lparr>o_keeper = keeper, o_finalizer = finalizer, o_slots = replicate n uninitialised,
                 o_data = replicate (sz - 8 * n) 0xcb, h_prev = 0, h_next = header ms,
                 h_size = uwrap (sz + sizeof_Header), h_marked = False\<rparr>"
  obtain us vs Ms L Ns where L: "heaps vm = us @ ms # vs" "Ls = Ms @ L # Ns" "list_all2 (heap_list ?h) us Ms"
    "heap_list ?h ms L" "list_all2 (heap_list ?h) vs Ns"
    using list_all2_split[of "heap_list ?h" "heaps vm" Ls ms] v ms by metis
  obtain h1 where h1: "(if header ms \<noteq> 0 then set_prev (header ms) p ?h else Inr ?h) = Inr h1"
    "finalized h1 = finalized ?h"
    "content (put_object p ob h1) = (content ?h)(p \<mapsto> ob\<lparr>h_prev := 0, h_next := 0\<rparr>)"
    "\<forall>q. q \<notin> set (p # L) \<longrightarrow> links (put_object p ob h1) q = links ?h q"
    "heap_list (put_object p ob h1) (ms\<lparr>header := p, allocated_size := uwrap (allocated_size ms + h_size ob)\<rparr>) (p # L)"
    using push_header[OF L(4), of p ob] v p by (auto simp: ob_def)
  let ?h' = "put_object p ob h1"
  let ?ms = "ms\<lparr>header := p, allocated_size := uwrap (allocated_size ms + h_size ob)\<rparr>"
  define vm' where "vm' = put_heap ?ms (vm\<lparr>memory := ?h'\<rparr>)"
  have run: "link_header (ms_addr ms) keeper finalizer sz n p vm = Inr (vm', p)"
    using find_heap_ok[OF ms] v h1(1) by (simp add: link_header_def Let_def vm'_def ob_def)
  have ph: "p \<notin> set (concat Ls)" using p v by auto
  have dis: "distinct (concat Ls)" using v by simp
  have hl: "heap_list ?h' y M" if "M \<in> set Ms \<union> set Ns" "heap_list ?h y M" for y M
  proof -
    have "links ?h' q = links ?h q \<and> content ?h' q = content ?h q" if "q \<in> set M" for q
    proof -
      have "q \<noteq> p" "q \<notin> set L" using ph dis that \<open>M \<in> set Ms \<union> set Ns\<close> unfolding L(2) by auto
      then show ?thesis using h1(3,4) by simp
    qed
    then show ?thesis using that(2) heap_list_cong[of M ?h' ?h] by blast
  qed
  have hp: "heaps vm' = us @ ?ms # vs" "roots vm' = roots vm" "memory vm' = ?h'"
    using map_replace[of ms_addr us ms vs ?ms] v L(1) by (simp_all add: vm'_def put_heap_def)
  have "list_all2 (heap_list ?h') us Ms" "list_all2 (heap_list ?h') vs Ns"
    using list_all2_impl[OF L(3), of "heap_list ?h'"] list_all2_impl[OF L(5), of "heap_list ?h'"] hl by auto
  then have "list_all2 (heap_list ?h') (heaps vm') (Ms @ (p # L) # Ns)"
    using h1(5) hp(1) by (simp add: list_all2_appendI)
  moreover have "distinct (concat (Ms @ (p # L) # Ns))" using dis ph unfolding L(2) by auto
  moreover have "dom (mem ?h') = set (concat (Ms @ (p # L) # Ns))"
    using h1(3) content_dom(1)[of ?h'] content_dom(1)[of ?h] v L(2) by simp
  moreover have "mem ?h' 0 = None" using h1(3) p v unfolding mem_None_content by simp
  moreover have "sizes_fit ?h'" using v h1(3) sz by (auto simp: sizes_fit_def ob_def)
  moreover have "distinct (map ms_addr (heaps vm'))" using v unfolding hp(1) L(1) by simp
  ultimately have ok: "vm_lists vm' (Ms @ (p # L) # Ns)" unfolding vm_lists_def hp(3) by blast
  have pl: "payload ?h' = (payload ?h)(p \<mapsto> gc_object.truncate ob)"
  proof
    fix q show "payload ?h' q = ((payload ?h)(p \<mapsto> gc_object.truncate ob)) q"
      using payload_content[of ?h' q ?h] h1(3) by (auto simp: payload_def)
  qed
  have "ptrs_of (o_slots (gc_object.truncate ob)) = {}"
    by (auto simp: ptrs_of_def gc_object.truncate_def ob_def uninitialised_def)
  then show ?thesis using h1(2) run ok pl hp(2,3) by (metis finalized_put_object)
qed

lemma vm_lists_length: "vm_lists vm Ls \<Longrightarrow> length (concat Ls) = card (dom (mem (memory vm)))"
  unfolding vm_lists_def by (metis distinct_card)

lemma payload_restrict:
  assumes "dom (mem h') = A" "\<And>p. p \<in> A \<Longrightarrow> payload h' p = payload h p"
  shows "payload h' = payload h |` A"
proof
  fix p show "payload h' p = (payload h |` A) p"
  proof (cases "p \<in> A")
    case False
    then have "mem h' p = None" using assms(1) by (metis domIff)
    then show ?thesis using False by (simp add: payload_def)
  qed (use assms in simp)
qed

lemma link_keeps_live:
  assumes pl: "payload h' = (payload h)(p \<mapsto> ob)" and ob: "ptrs_of (o_slots ob) = {}"
    and p: "mem h p = None" "p \<noteq> 0" and live: "no_dangling (mem h) S"
  shows "no_dangling (mem h') (insert p S)" "p \<notin> live (mem h) S"
    "payload h' |` live (mem h) S = payload h |` live (mem h) S"
proof -
  show pn: "p \<notin> live (mem h) S" using live p by (auto simp: no_dangling_def)
  then show "payload h' |` live (mem h) S = payload h |` live (mem h) S"
    using pl by (auto simp: restrict_map_def fun_eq_iff)
  have dm: "dom (payload h) = dom (mem h)" for h :: ms_memory by (auto simp: payload_def)
  have "live (mem h') (insert p S) \<subseteq> insert p (live (mem h) S)"
  proof (rule live_least)
    show "insert p S \<subseteq> insert p (live (mem h) S)" by (auto intro: live.intros)
    show "succs (mem h') x \<subseteq> insert p (live (mem h) S)" if "x \<in> insert p (live (mem h) S)" for x
    proof (cases "x = p")
      case True
      have "payload h' p = Some ob" using pl by simp
      then obtain o1 where "mem h' p = Some o1" "o_slots o1 = o_slots ob"
        by (cases "mem h' p") (auto simp: payload_def gc_object.truncate_def)
      then show ?thesis using True ob by (simp add: succs_def)
    next
      case False
      then have "succs (mem h') x = succs (mem h) x" using pl by (intro succs_payload) simp
      then show ?thesis using that False by (auto intro: live.intros)
    qed
  qed
  moreover have "live (mem h) S \<subseteq> dom (mem h) - {0}" using live by (simp add: no_dangling_def)
  moreover have "dom (mem h') = insert p (dom (mem h))" using pl dm[of h'] dm[of h] by simp
  ultimately show "no_dangling (mem h') (insert p S)" using p(2) unfolding no_dangling_def by auto
qed

text \<open>C2: A collection of the mark-sweep collector frees exactly the unreachable objects: for every VM
  whose heaps are well-formed lists and whose live objects do not point to freed memory, \<^verbatim>\<open>gc\<close> returns (its recursion
  is no deeper than the number of objects), the objects left are exactly those reachable from the
  roots, with their payloads unchanged, the finalizers have run once on each unreachable object that
  has one and on no other, and the heaps are well-formed again, their sizes included.\<close>

theorem mark_sweep_frees_garbage:
  assumes "vm_ok vm" "vm_live vm" "card (dom (mem (memory vm))) < fuel"
  shows "\<exists>vm' gs. ms_gc fuel vm = Inr vm' \<and> vm_ok vm' \<and> roots vm' = roots vm
    \<and> payload (memory vm') = payload (memory vm) |` live_objects vm
    \<and> finalized (memory vm') = finalized (memory vm) @ gs \<and> distinct gs
    \<and> set gs = {p \<in> dom (mem (memory vm)) - live_objects vm. o_finalizer (the (payload (memory vm) p))}"
proof -
  obtain Ls where Ls: "vm_lists vm Ls" using assms(1) by (auto simp: vm_ok_def)
  obtain vm' Ls' where r: "ms_gc fuel vm = Inr vm'" "vm_lists vm' Ls'"
    "concat Ls' = filter (\<lambda>p. p \<in> live_objects vm) (concat Ls)" "roots vm' = roots vm"
    "\<forall>p\<in>live_objects vm. payload (memory vm') p = payload (memory vm) p"
    "finalized (memory vm') = finalized (memory vm)
        @ filter (\<lambda>p. p \<notin> live_objects vm \<and> o_finalizer (the (payload (memory vm) p))) (concat Ls)"
    using ms_gc_exact[OF Ls, of fuel] assms(2,3) vm_lists_length[OF Ls]
    unfolding vm_live_def live_objects_def by auto
  have d: "dom (mem (memory vm)) = set (concat Ls)" "dom (mem (memory vm')) = set (concat Ls')" "distinct (concat Ls)"
    using Ls r(2) by (simp_all add: vm_lists_def)
  have "live_objects vm \<subseteq> dom (mem (memory vm))"
    using assms(2) by (auto simp: vm_live_def no_dangling_def live_objects_def)
  then have "dom (mem (memory vm')) = live_objects vm" unfolding d r(3) by auto
  then have "payload (memory vm') = payload (memory vm) |` live_objects vm"
    using r(5) by (intro payload_restrict) auto
  then show ?thesis using r d(1,3) by (auto simp: vm_ok_def simp del: set_concat intro!: exI[of _ vm']
    exI[of _ "filter (\<lambda>p. p \<notin> live_objects vm \<and> o_finalizer (the (payload (memory vm) p))) (concat Ls)"])
qed

text \<open>A heap with a cycle of two live objects and a third one, unreachable, that has a finalizer.\<close>

definition sample_object :: "addr yval list \<Rightarrow> bool \<Rightarrow> addr \<Rightarrow> addr \<Rightarrow> ms_object" where
  "sample_object vs fin pr n = \<lparr>o_keeper = True, o_finalizer = fin, o_slots = vs, o_data = [],
     h_prev = pr, h_next = n, h_size = 56, h_marked = False\<rparr>"

definition sample_vm :: ms_vm where
  "sample_vm = \<lparr>heaps = [\<lparr>ms_addr = 8, header = 300, threshold = 0, allocated_size = 168, refered = True\<rparr>],
     memory = \<lparr>mem = [100 \<mapsto> sample_object [YPtr 200] False 200 0, 200 \<mapsto> sample_object [YPtr 100, YFixnum 5] True 300 100,
                     300 \<mapsto> sample_object [YPtr 200] True 0 200], finalized = []\<rparr>,
     roots = [YNil, YPtr 100]\<rparr>"

lemma sample_vm_ok: "vm_ok sample_vm"
  unfolding vm_ok_def
  by (rule exI[of _ "[[300, 200, 100]]"])
    (auto simp: vm_lists_def sample_vm_def sample_object_def heap_list_def links_def content_def sizes_fit_def uwrap_def
      split: if_splits)

lemma sample_vm_live: "vm_live sample_vm" "live_objects sample_vm = {100, 200}"
proof -
  have sub: "live_objects sample_vm \<subseteq> {100, 200}" unfolding live_objects_def
    by (rule live_least) (auto simp: sample_vm_def sample_object_def succs_def)
  have "100 \<in> live_objects sample_vm" unfolding live_objects_def
    by (rule live_root) (simp add: sample_vm_def)
  moreover from this have "200 \<in> live_objects sample_vm" unfolding live_objects_def
    by (rule live_succ) (simp add: sample_vm_def sample_object_def succs_def)
  ultimately show "live_objects sample_vm = {100, 200}" using sub by auto
  show "vm_live sample_vm" unfolding vm_live_def no_dangling_def
    using sub unfolding live_objects_def by (auto simp: sample_vm_def)
qed

lemma sample_vm_card: "card (dom (mem (memory sample_vm))) = 3"
  by (simp add: sample_vm_def)

theorem mark_sweep_frees_garbage_witness:
  "\<exists>vm' gs. ms_gc 4 sample_vm = Inr vm' \<and> vm_ok vm' \<and> roots vm' = roots sample_vm
    \<and> payload (memory vm') = payload (memory sample_vm) |` live_objects sample_vm
    \<and> finalized (memory vm') = finalized (memory sample_vm) @ gs \<and> distinct gs
    \<and> set gs = {p \<in> dom (mem (memory sample_vm)) - live_objects sample_vm. o_finalizer (the (payload (memory sample_vm) p))}"
  by (rule mark_sweep_frees_garbage) (simp_all add: sample_vm_ok sample_vm_live sample_vm_card)

text \<open>C12: An allocation in the mark-sweep heap of a running thread, of an object whose size with its header does not wrap and for
  which malloc finds memory, never loses a live object: whether or not it runs a collection first, and also when malloc, called after the collection, gives the block of an object that was just
  freed, it returns an address at which no live object is, all the objects that were live keep their
  payloads, the new object holds no pointer, no pointer dangles once it is a root, and the heaps stay well-formed.\<close>

theorem mark_sweep_alloc_keeps_live:
  assumes "vm_ok vm" "vm_live vm" "card (dom (mem (memory vm))) < fuel"
    and "ms \<in> set (heaps vm)" "refered ms" "malloc_fresh malloc" "sz + sizeof_Header < 2 ^ 64"
  shows "\<exists>vm' p ob. YogMarkSweep_alloc fuel gc_stress (ms_addr ms) keeper finalizer sz n malloc vm = Inr (vm', p)
    \<and> vm_ok vm' \<and> roots vm' = roots vm \<and> p \<noteq> 0 \<and> p \<notin> live_objects vm
    \<and> payload (memory vm') |` live_objects vm = payload (memory vm) |` live_objects vm
    \<and> payload (memory vm') p = Some ob \<and> ptrs_of (o_slots ob) = {}
    \<and> no_dangling (mem (memory vm')) (insert p (ptrs_of (roots vm')))"
proof -
  obtain Ls where Ls: "vm_lists vm Ls" using assms(1) by (auto simp: vm_ok_def)
  have f: "find_heap (ms_addr ms) vm = Inr ms" using find_heap_ok assms(4) Ls by (simp add: vm_lists_def)
  let ?p = "\<lambda>vm. malloc (memory vm) (uwrap (sz + sizeof_Header))"
  have *: "\<exists>vm' p ob. link_header (ms_addr ms) keeper finalizer sz n (?p vm1) vm1 = Inr (vm', p)
    \<and> vm_ok vm' \<and> roots vm' = roots vm \<and> p \<noteq> 0 \<and> p \<notin> live_objects vm
    \<and> payload (memory vm') |` live_objects vm = payload (memory vm) |` live_objects vm
    \<and> payload (memory vm') p = Some ob \<and> ptrs_of (o_slots ob) = {}
    \<and> no_dangling (mem (memory vm')) (insert p (ptrs_of (roots vm')))"
    if vm1: "vm_lists vm1 Ls1" "m1 \<in> set (heaps vm1)" "ms_addr m1 = ms_addr ms"
      "roots vm1 = roots vm" "\<forall>q\<in>live_objects vm. payload (memory vm1) q = payload (memory vm) q" for vm1 Ls1 m1
  proof -
    have "finite (dom (mem (memory vm1)))" using vm1(1) by (simp add: vm_lists_def)
    then have p: "?p vm1 \<noteq> 0" "mem (memory vm1) (?p vm1) = None" using assms(6) by (simp_all add: malloc_fresh_def)
    have lv: "live (mem (memory vm1)) (ptrs_of (roots vm)) = live_objects vm"
      using live_same[of "memory vm" "ptrs_of (roots vm)" "memory vm1"] vm1(5) by (simp add: live_objects_def)
    have "q \<in> dom (mem (memory vm1)) - {0}" if "q \<in> live_objects vm" for q
    proof -
      have "q \<in> dom (mem (memory vm)) - {0}" using that assms(2) by (auto simp: vm_live_def no_dangling_def live_objects_def)
      moreover have "payload (memory vm1) q = payload (memory vm) q" using vm1(5) that by blast
      ultimately show ?thesis by (auto simp: payload_def)
    qed
    then have nd: "no_dangling (mem (memory vm1)) (ptrs_of (roots vm))" unfolding no_dangling_def lv by blast
    obtain vm' Ls' ob where r: "link_header (ms_addr ms) keeper finalizer sz n (?p vm1) vm1 = Inr (vm', ?p vm1)"
      "vm_lists vm' Ls'" "roots vm' = roots vm1"
      "payload (memory vm') = (payload (memory vm1))(?p vm1 \<mapsto> ob)" "ptrs_of (o_slots ob) = {}"
      using link_header_ok[OF vm1(1,2) p(2,1) assms(7)] vm1(3) by metis
    note k = link_keeps_live[OF r(4,5) p(2,1) nd, unfolded lv]
    have "payload (memory vm1) |` live_objects vm = payload (memory vm) |` live_objects vm"
      using vm1(5) by (auto simp: restrict_map_def fun_eq_iff)
    then show ?thesis using r k p(1) vm1(4) by (intro exI[of _ vm'] exI[of _ "?p vm1"] exI[of _ ob]) (auto simp: vm_ok_def)
  qed
  show ?thesis
  proof (cases "gc_stress \<or> threshold ms \<le> allocated_size ms")
    case True
    obtain vm1 Ls1 m1 where g: "ms_gc fuel vm = Inr vm1" "vm_lists vm1 Ls1" "roots vm1 = roots vm"
      "\<forall>q\<in>live_objects vm. payload (memory vm1) q = payload (memory vm) q" "m1 \<in> set (heaps vm1)" "ms_addr m1 = ms_addr ms"
      using ms_gc_exact[OF Ls, of fuel] assms(2-5) vm_lists_length[OF Ls]
      unfolding vm_live_def live_objects_def by auto
    show ?thesis using *[OF g(2,5,6,3,4)] g(1) f True by (simp add: YogMarkSweep_alloc_def)
  next
    case False
    then show ?thesis using *[OF Ls assms(4) refl refl] f by (simp add: YogMarkSweep_alloc_def)
  qed
qed

text \<open>A malloc that gives the block at 300 whenever it is free: the object there is garbage, and its block is used again.\<close>

definition reusing_malloc :: "ms_memory \<Rightarrow> nat \<Rightarrow> addr" where
  "reusing_malloc h n = (if mem h 300 = None then 300 else Suc (Max (dom (mem h))))"

lemma reusing_malloc_fresh: "malloc_fresh reusing_malloc"
proof -
  have "Suc (Max A) \<notin> A" if "finite A" for A :: "addr set"
    using Max_ge[OF that, of "Suc (Max A)"] by auto
  then show ?thesis by (auto simp: malloc_fresh_def reusing_malloc_def)
qed

theorem mark_sweep_alloc_keeps_live_witness:
  "\<exists>vm' p ob. YogMarkSweep_alloc 4 True 8 True False 16 1 reusing_malloc sample_vm = Inr (vm', p)
    \<and> vm_ok vm' \<and> roots vm' = roots sample_vm \<and> p \<noteq> 0 \<and> p \<notin> live_objects sample_vm
    \<and> payload (memory vm') |` live_objects sample_vm = payload (memory sample_vm) |` live_objects sample_vm
    \<and> payload (memory vm') p = Some ob \<and> ptrs_of (o_slots ob) = {}
    \<and> no_dangling (mem (memory vm')) (insert p (ptrs_of (roots vm')))"
  using mark_sweep_alloc_keeps_live[OF sample_vm_ok sample_vm_live(1), of 4 "hd (heaps sample_vm)" reusing_malloc 16 True True False 1]
    reusing_malloc_fresh
  by (simp add: sample_vm_card) (simp add: sample_vm_def sizeof_Header_def)

section \<open>The end of a VM\<close>

lemma ms_delete_loop_spec:
  assumes "dseg (links h) prev first xs 0" "distinct xs" "mem h 0 = None" "length xs < fuel"
  shows "\<exists>h' ms'. ms_delete_loop fuel first ms h = Inr (h', ms')
    \<and> mem h' = (\<lambda>q. if q \<in> set xs then None else mem h q)
    \<and> finalized h' = finalized h @ filter (\<lambda>q. o_finalizer (the (mem h q))) xs"
  using assms
proof (induction xs arbitrary: prev first h fuel ms)
  case Nil
  then show ?case by (cases fuel) auto
next
  case (Cons x xs)
  then obtain n k where n: "first = x" "links h x = Some (prev, n)" "dseg (links h) x n xs 0" "fuel = Suc k"
    by (cases fuel) auto
  then obtain ob where ob: "mem h x = Some ob" "h_next ob = n" by (auto simp: links_def)
  have x0: "x \<noteq> 0" using ob(1) Cons.prems(3) by (metis option.distinct(1))
  define h1 where "h1 = (ms_finalize x ob h)\<lparr>mem := (mem h)(x := None)\<rparr>"
  have d: "ms_delete ms x (ms_finalize x ob h) = Inr (h1, ms\<lparr>allocated_size := usub (allocated_size ms) (h_size ob)\<rparr>)"
    using ob by (simp add: ms_delete_def load_object_Some h1_def)
  have "links h1 q = links h q" if "q \<in> set xs" for q using that Cons.prems(2) by (auto simp: h1_def links_def)
  then have "dseg (links h1) x n xs 0" using n(3) dseg_cong by metis
  moreover have z1: "mem h1 0 = None" using Cons.prems(3) by (simp add: h1_def)
  ultimately obtain h' ms' where r: "ms_delete_loop k n (ms\<lparr>allocated_size := usub (allocated_size ms) (h_size ob)\<rparr>) h1 = Inr (h', ms')"
    "mem h' = (\<lambda>q. if q \<in> set xs then None else mem h1 q)"
    "finalized h' = finalized h1 @ filter (\<lambda>q. o_finalizer (the (mem h1 q))) xs"
    using Cons.IH[of h1 x n k "ms\<lparr>allocated_size := usub (allocated_size ms) (h_size ob)\<rparr>"] Cons.prems(2,4) n(4) z1
    by auto
  moreover have "filter (\<lambda>q. o_finalizer (the (mem h1 q))) xs = filter (\<lambda>q. o_finalizer (the (mem h q))) xs"
    using Cons.prems(2) by (intro filter_cong) (auto simp: h1_def)
  ultimately show ?case using n(1,4) x0 ob d Cons.prems(2)
    by (auto simp: load_object_Some h1_def fun_eq_iff)
qed

lemma mark_sweep_delete_all:
  assumes "heap_list h ms xs" "mem h 0 = None" "length xs < fuel"
  shows "\<exists>h' ms'. YogMarkSweep_delete fuel ms h = Inr (h', ms')
    \<and> mem h' = (\<lambda>q. if q \<in> set xs then None else mem h q)
    \<and> finalized h' = finalized h @ filter (\<lambda>q. o_finalizer (the (mem h q))) xs"
  using ms_delete_loop_spec[of h 0 "header ms" xs fuel ms] assms
  by (simp add: YogMarkSweep_delete_def heap_list_def)

end
