(* ===== verification/YogCopying.thy ===== *)
theory YogCopying
  imports YogHeap
begin

text \<open>
  \<^verbatim>\<open>src/gc/copying.c\<close>: two spaces of equal size; a collection copies the live objects to the inactive
  space, breadth first, leaving forwarding addresses behind, and swaps the spaces. An object
  is named by the address of its payload, its header lies \<^verbatim>\<open>sizeof(Header)\<close> bytes before. A write
  behind the end of a space is \<open>MemFault\<close>; the code does not check for it. The theory follows the
  VM with one thread, which has one heap.
\<close>

record cp_object = gc_object +
  forwarding_addr :: addr
  cp_size :: nat

record space =
  items :: addr
  free :: addr

record copying =
  space_size :: nat
  from_space :: space
  to_space :: space
  scanned :: addr
  unscanned :: addr

record cp_memory = "cp_object gc_memory" +
  cp :: copying

definition sizeof_copy_header :: nat where "sizeof_copy_header = 32"

section \<open>Operations\<close>

text \<open>Sizes are \<^verbatim>\<open>size_t\<close>: sums wrap at 2 to the power of 64.\<close>

definition size_wrap :: "nat \<Rightarrow> nat" where
  "size_wrap n = n mod 2 ^ 64"

definition round_size :: "nat \<Rightarrow> nat" where
  "round_size n = size_wrap (n + 7) div 8 * 8"

definition set_unscanned :: "addr \<Rightarrow> cp_memory \<Rightarrow> cp_memory" where
  "set_unscanned a h = h\<lparr>cp := (cp h)\<lparr>unscanned := a\<rparr>\<rparr>"

definition set_scanned :: "addr \<Rightarrow> cp_memory \<Rightarrow> cp_memory" where
  "set_scanned a h = h\<lparr>cp := (cp h)\<lparr>scanned := a\<rparr>\<rparr>"

definition YogCopying_copy :: "cp_memory \<Rightarrow> addr \<Rightarrow> (cp_memory \<times> addr) res" where
  "YogCopying_copy h ptr =
     (if ptr = 0 then Inr (h, 0)
      else res_bind (load_object h ptr) (\<lambda>ob.
        if forwarding_addr ob \<noteq> 0 then Inr (h, forwarding_addr ob)
        else let c = cp h; dest = unscanned c; sz = cp_size ob; p = dest + sizeof_copy_header
             in if sz < sizeof_copy_header then Inl (YogBug ''header=%p, size=%d, &header->size=%p'')
                else if dest < items (to_space c) \<or> items (to_space c) + space_size c < dest + sz then Inl MemFault
                else Inr (set_unscanned (dest + sz)
                            (put_object ptr (ob\<lparr>forwarding_addr := p\<rparr>) (put_object p ob h)), p)))"

fun iterate_objects :: "nat \<Rightarrow> (addr \<Rightarrow> cp_object \<Rightarrow> cp_memory \<Rightarrow> cp_memory) \<Rightarrow> addr \<Rightarrow> addr \<Rightarrow> cp_memory \<Rightarrow> cp_memory res" where
  "iterate_objects 0 _ _ _ _ = Inl NoReturn"
| "iterate_objects (Suc fuel) callback a to h =
     (if a < to
      then res_bind (load_object h (a + sizeof_copy_header)) (\<lambda>ob.
             if cp_size ob = 0 then Inl (YogBug ''invalid size (%x)'')
             else iterate_objects fuel callback (a + cp_size ob) to (callback (a + sizeof_copy_header) ob h))
      else Inr h)"

definition delete_garbage_each :: "addr \<Rightarrow> cp_object \<Rightarrow> cp_memory \<Rightarrow> cp_memory" where
  "delete_garbage_each p ob h =
     (if forwarding_addr ob = 0 \<and> o_finalizer ob then h\<lparr>finalized := finalized h @ [p]\<rparr> else h)"

definition YogCopying_delete_garbage :: "nat \<Rightarrow> cp_memory \<Rightarrow> cp_memory res" where
  "YogCopying_delete_garbage fuel h =
     (let space = from_space (cp h)
      in iterate_objects fuel delete_garbage_each (items space) (free space) h)"

definition YogCopying_prepare :: "cp_memory \<Rightarrow> cp_memory" where
  "YogCopying_prepare h =
     (let start = items (to_space (cp h)) in set_scanned start (set_unscanned start h))"

text \<open>An object is gone when its header is overwritten.\<close>

definition destroy_memory :: "addr \<Rightarrow> nat \<Rightarrow> cp_memory \<Rightarrow> cp_memory" where
  "destroy_memory a n h = h\<lparr>mem := (\<lambda>p. if a + sizeof_copy_header \<le> p \<and> p < a + n + sizeof_copy_header then None else mem h p)\<rparr>"

definition YogCopying_post_gc :: "cp_memory \<Rightarrow> cp_memory" where
  "YogCopying_post_gc h =
     (let c = cp h; from = from_space c
      in (destroy_memory (items from) (free from - items from) h)
           \<lparr>cp := c\<lparr>from_space := (to_space c)\<lparr>free := unscanned c\<rparr>, to_space := from\<rparr>\<rparr>)"

definition YogCopying_is_finished :: "cp_memory \<Rightarrow> bool" where
  "YogCopying_is_finished h \<longleftrightarrow> scanned (cp h) = unscanned (cp h)"

fun YogCopying_scan :: "nat \<Rightarrow> cp_memory \<Rightarrow> cp_memory res" where
  "YogCopying_scan 0 _ = Inl NoReturn"
| "YogCopying_scan (Suc fuel) h =
     (if YogCopying_is_finished h then Inr h
      else let p = scanned (cp h) + sizeof_copy_header
           in res_bind (load_object h p) (\<lambda>ob.
              res_bind (if o_keeper ob then keep_children YogCopying_copy p h else Inr h) (\<lambda>h1.
              res_bind (load_object h1 p) (\<lambda>ob1.
                YogCopying_scan fuel (set_scanned (scanned (cp h1) + cp_size ob1) h1)))))"

definition YogCopying_keep_root :: "addr yval list \<Rightarrow> cp_memory \<Rightarrow> (cp_memory \<times> addr yval list) res" where
  "YogCopying_keep_root roots h = keep_values YogCopying_copy roots h"

text \<open>\<^verbatim>\<open>gc\<close> of \<^verbatim>\<open>gc.c\<close> with \<^verbatim>\<open>GC_COPYING\<close>, on a memory and the roots.\<close>

definition cp_gc :: "nat \<Rightarrow> cp_memory \<times> addr yval list \<Rightarrow> (cp_memory \<times> addr yval list) res" where
  "cp_gc fuel = (\<lambda>(h, roots).
     res_bind (YogCopying_keep_root roots (YogCopying_prepare h)) (\<lambda>(h1, roots').
     res_bind (YogCopying_scan fuel h1) (\<lambda>h2.
     res_bind (YogCopying_delete_garbage fuel h2) (\<lambda>h3.
       Inr (YogCopying_post_gc h3, roots')))))"

definition rest_size :: "copying \<Rightarrow> nat" where
  "rest_size c = space_size c - (free (from_space c) - items (from_space c))"

text \<open>A word of a new object holds what the space was filled with when it was made
  (\<^verbatim>\<open>YogGC_init_memory\<close>) or when its last objects were destroyed: \<open>destroyed i\<close> tells which of the two
  for the \<open>i\<close>th word, members first.\<close>

definition fill_value :: "bool \<Rightarrow> addr yval" where
  "fill_value destroyed = YFixnum (VAL2INT (if destroyed then 0xfdfdfdfdfdfdfdfd else 0xcbcbcbcbcbcbcbcb))"

definition fill_byte :: "bool \<Rightarrow> 8 word" where
  "fill_byte destroyed = (if destroyed then 0xfd else 0xcb)"

definition place_object :: "bool \<Rightarrow> bool \<Rightarrow> nat \<Rightarrow> nat \<Rightarrow> (nat \<Rightarrow> bool) \<Rightarrow> cp_memory \<Rightarrow> cp_memory \<times> addr" where
  "place_object keeper finalizer rounded_size n destroyed h =
     (let c = cp h; space = from_space c; p = free space + sizeof_copy_header;
          ob = \<lparr>o_keeper = keeper, o_finalizer = finalizer, o_slots = map (\<lambda>i. fill_value (destroyed i)) [0..<n],
                o_data = map (\<lambda>k. fill_byte (destroyed (k div 8))) [8 * n..<rounded_size - sizeof_copy_header],
                forwarding_addr = 0, cp_size = rounded_size\<rparr>
      in ((put_object p ob h)\<lparr>cp := c\<lparr>from_space := space\<lparr>free := free space + rounded_size\<rparr>\<rparr>\<rparr>, p))"

text \<open>A size so near to 2 to the power of 64 that the sum with the header wraps gives a block which is
  smaller than a header; what is then written over the block's end is \<open>MemFault\<close>.\<close>

definition YogCopying_alloc :: "nat \<Rightarrow> bool \<Rightarrow> bool \<Rightarrow> bool \<Rightarrow> nat \<Rightarrow> nat \<Rightarrow> (nat \<Rightarrow> bool)
    \<Rightarrow> cp_memory \<times> addr yval list \<Rightarrow> ((cp_memory \<times> addr yval list) \<times> addr) res" where
  "YogCopying_alloc fuel gc_stress keeper finalizer sz n destroyed = (\<lambda>(h, roots).
     let needed_size = size_wrap (sz + sizeof_copy_header);
         rounded_size = round_size needed_size;
         place = (\<lambda>(h, roots).
           if needed_size < sizeof_copy_header then Inl MemFault
           else let (h, p) = place_object keeper finalizer rounded_size n destroyed h in Inr ((h, roots), p))
     in if needed_size = 0 \<or> rounded_size = 0 then Inl (YogBug ''invalid size'')
        else if rest_size (cp h) < rounded_size \<or> gc_stress
        then if \<not> gc_stress \<and> space_size (cp h) < rounded_size then Inr ((h, roots), 0)
             else res_bind (cp_gc fuel (h, roots)) (\<lambda>(h, roots).
               if rest_size (cp h) < rounded_size then Inr ((h, roots), 0) else place (h, roots))
        else place (h, roots))"

definition YogCopying_is_empty :: "cp_memory \<Rightarrow> bool" where
  "YogCopying_is_empty h \<longleftrightarrow> items (from_space (cp h)) = free (from_space (cp h))"

definition Space_new :: "addr \<Rightarrow> space" where
  "Space_new a = \<lparr>items = a, free = a\<rparr>"

text \<open>The spaces lie where \<^verbatim>\<open>malloc\<close> puts them, at \<open>a\<close> and \<open>b\<close>.\<close>

definition YogCopying_new :: "nat \<Rightarrow> addr \<Rightarrow> addr \<Rightarrow> copying" where
  "YogCopying_new heap_size a b =
     \<lparr>space_size = heap_size div 2, from_space = Space_new a, to_space = Space_new b, scanned = 0, unscanned = 0\<rparr>"

section \<open>Where the copies go\<close>

fun layout :: "(addr \<Rightarrow> cp_object option) \<Rightarrow> addr \<Rightarrow> addr list \<Rightarrow> addr \<Rightarrow> bool" where
  "layout m a [] b \<longleftrightarrow> a = b"
| "layout m a (x # xs) b \<longleftrightarrow> x = a + sizeof_copy_header
     \<and> (\<exists>ob. m x = Some ob \<and> sizeof_copy_header \<le> cp_size ob \<and> layout m (a + cp_size ob) xs b)"

text \<open>The address of the copy of \<open>x\<close> when the objects \<open>cs\<close> have been copied to the space at \<open>a\<close>, in this
  order; \<open>s\<close> gives their sizes.\<close>

fun dest :: "(addr \<Rightarrow> nat) \<Rightarrow> addr \<Rightarrow> addr list \<Rightarrow> addr \<Rightarrow> addr" where
  "dest s a [] x = 0"
| "dest s a (c # cs) x = (if x = c then a + sizeof_copy_header else dest s (a + s c) cs x)"

abbreviation total :: "(addr \<Rightarrow> nat) \<Rightarrow> addr list \<Rightarrow> nat" where
  "total s cs \<equiv> sum_list (map s cs)"

lemma dest_notin: "x \<notin> set cs \<Longrightarrow> dest s a cs x = 0"
  by (induction cs arbitrary: a) auto

lemma dest_append: "x \<in> set cs \<Longrightarrow> dest s a (cs @ ds) x = dest s a cs x"
  by (induction cs arbitrary: a) auto

lemma dest_at: "x \<notin> set ys \<Longrightarrow> dest s a (ys @ x # zs) x = a + total s ys + sizeof_copy_header"
  by (induction ys arbitrary: a) auto

lemma dest_range:
  "x \<in> set cs \<Longrightarrow> a + sizeof_copy_header \<le> dest s a cs x \<and> dest s a cs x + s x \<le> a + total s cs + sizeof_copy_header"
proof (induction cs arbitrary: a)
  case (Cons c cs)
  show ?case
  proof (cases "x = c")
    case False
    then have "x \<in> set cs" using Cons.prems by simp
    from Cons.IH[OF this, of "a + s c"] show ?thesis using False by simp
  qed simp
qed simp

lemma dest_inj_on:
  assumes "\<And>c. c \<in> set cs \<Longrightarrow> 0 < s c" shows "inj_on (dest s a cs) (set cs)"
  using assms
proof (induction cs arbitrary: a)
  case (Cons c cs)
  have IH: "inj_on (dest s (a + s c) cs) (set cs)" using Cons by simp
  have "a + sizeof_copy_header < dest s (a + s c) cs x" if "x \<in> set cs" for x
    using dest_range[OF that, of "a + s c" s] Cons.prems[of c] by simp
  then show ?case using IH by (fastforce simp: inj_on_def)
qed simp

lemma layout_ConsE:
  assumes "layout m a (x # xs) b"
  obtains ob where "x = a + sizeof_copy_header" "m x = Some ob" "sizeof_copy_header \<le> cp_size ob"
    "layout m (a + cp_size ob) xs b"
  using assms by (simp only: layout.simps) blast

lemma layout_total: "layout m a xs b \<Longrightarrow> a + total (\<lambda>p. cp_size (the (m p))) xs = b"
proof (induction xs arbitrary: a)
  case (Cons y ys)
  from Cons.prems obtain ob where ob: "m y = Some ob" "layout m (a + cp_size ob) ys b" by (rule layout_ConsE)
  from Cons.IH[OF this(2)] show ?case using ob(1) by simp
qed simp

lemma layout_range: "layout m a xs b \<Longrightarrow> x \<in> set xs \<Longrightarrow> a + sizeof_copy_header \<le> x \<and> x \<le> b"
proof (induction xs arbitrary: a)
  case (Cons y ys)
  from Cons.prems(1) obtain ob where ob: "y = a + sizeof_copy_header" "sizeof_copy_header \<le> cp_size ob"
    "layout m (a + cp_size ob) ys b" "m y = Some ob" by (rule layout_ConsE)
  have "a + cp_size ob \<le> b" using layout_total[OF ob(3)] by linarith
  then show ?case using Cons.IH[OF ob(3)] Cons.prems(2) ob(1,2) by (cases "x = y") auto
qed simp

lemma layout_distinct: "layout m a xs b \<Longrightarrow> distinct xs"
proof (induction xs arbitrary: a)
  case (Cons y ys)
  from Cons.prems(1) obtain ob where ob: "y = a + sizeof_copy_header" "sizeof_copy_header \<le> cp_size ob"
    "layout m (a + cp_size ob) ys b" "m y = Some ob" by (rule layout_ConsE)
  have "0 < sizeof_copy_header" by (simp add: sizeof_copy_header_def)
  then have "y \<notin> set ys" using layout_range[OF ob(3), of y] ob(1,2) by auto
  then show ?case using Cons.IH[OF ob(3)] by simp
qed simp

lemma layout_size: "layout m a xs b \<Longrightarrow> x \<in> set xs \<Longrightarrow> sizeof_copy_header \<le> cp_size (the (m x))"
proof (induction xs arbitrary: a)
  case (Cons y ys)
  from Cons.prems(1) obtain ob where ob: "m y = Some ob" "sizeof_copy_header \<le> cp_size ob"
    "layout m (a + cp_size ob) ys b" by (rule layout_ConsE)
  then show ?case using Cons by auto
qed simp

section \<open>A memory during a collection\<close>

text \<open>The heap before the collection: the objects \<open>xs\<close> of the active space.\<close>

definition spaces_ok :: "copying \<Rightarrow> bool" where
  "spaces_ok c \<longleftrightarrow> items (from_space c) + space_size c \<le> items (to_space c)
     \<or> items (to_space c) + space_size c \<le> items (from_space c)"

definition heap_ok :: "(addr \<Rightarrow> cp_object option) \<Rightarrow> copying \<Rightarrow> addr list \<Rightarrow> bool" where
  "heap_ok m c xs \<longleftrightarrow> layout m (items (from_space c)) xs (free (from_space c))
     \<and> free (from_space c) \<le> items (from_space c) + space_size c
     \<and> dom m = set xs \<and> (\<forall>ob\<in>ran m. forwarding_addr ob = 0) \<and> spaces_ok c"

abbreviation sizes_of :: "(addr \<Rightarrow> cp_object option) \<Rightarrow> addr \<Rightarrow> nat" where
  "sizes_of m p \<equiv> cp_size (the (m p))"

abbreviation place :: "(addr \<Rightarrow> cp_object option) \<Rightarrow> copying \<Rightarrow> addr list \<Rightarrow> addr \<Rightarrow> addr" where
  "place m c cs \<equiv> dest (sizes_of m) (items (to_space c)) cs"

text \<open>The memory when the objects \<open>cs\<close> have been copied, the copy of \<open>x\<close> holding \<open>t x\<close>, and the objects
  up to \<open>s\<close> have been scanned.\<close>

definition during :: "(addr \<Rightarrow> cp_object option) \<Rightarrow> copying \<Rightarrow> addr list \<Rightarrow> addr list \<Rightarrow> (addr \<Rightarrow> cp_object) \<Rightarrow> addr
    \<Rightarrow> cp_memory" where
  "during m c fs cs t s =
     \<lparr>mem = (\<lambda>p. case m p of
         Some ob \<Rightarrow> Some (ob\<lparr>forwarding_addr := place m c cs p\<rparr>)
       | None \<Rightarrow> map_of (map (\<lambda>x. (place m c cs x, t x)) cs) p),
      finalized = fs,
      cp = c\<lparr>scanned := s, unscanned := items (to_space c) + total (sizes_of m) cs\<rparr>\<rparr>"

lemma total_subset:
  assumes "distinct cs" "distinct xs" "set cs \<subseteq> set xs" shows "total s cs \<le> total s xs"
  using assms by (simp add: sum_list_distinct_conv_sum_set sum_mono2)

lemma heap_okD:
  assumes "heap_ok m c xs"
  shows "x \<in> dom m \<Longrightarrow> sizeof_copy_header \<le> sizes_of m x" "x \<in> dom m \<Longrightarrow> x \<noteq> 0"
    "distinct xs" "dom m = set xs" "m x = Some ob \<Longrightarrow> forwarding_addr ob = 0"
proof -
  note h = assms[unfolded heap_ok_def]
  show d: "dom m = set xs" using h by simp
  show "sizeof_copy_header \<le> sizes_of m x" if "x \<in> dom m" using layout_size h d that by blast
  show "x \<noteq> 0" if "x \<in> dom m"
    using layout_range h d that by (fastforce simp: sizeof_copy_header_def)
  show "distinct xs" using layout_distinct h by blast
  show "m x = Some ob \<Longrightarrow> forwarding_addr ob = 0" using h by (auto simp: ran_def)
qed

lemma total_bound:
  assumes "heap_ok m c xs" "distinct cs" "set cs \<subseteq> dom m" shows "total (sizes_of m) cs \<le> space_size c"
proof -
  have "total (sizes_of m) cs \<le> total (sizes_of m) xs"
    using assms heap_okD[OF assms(1)] by (intro total_subset) auto
  moreover have "total (sizes_of m) xs \<le> space_size c"
    using layout_total[of m "items (from_space c)" xs "free (from_space c)"] assms(1) by (auto simp: heap_ok_def)
  ultimately show ?thesis by linarith
qed

lemma place_range:
  assumes "heap_ok m c xs" "distinct cs" "set cs \<subseteq> dom m" "x \<in> set cs"
  shows "items (to_space c) + sizeof_copy_header \<le> place m c cs x"
    "place m c cs x \<le> items (to_space c) + space_size c"
proof -
  have "sizeof_copy_header \<le> sizes_of m x" using assms heap_okD(1)[OF assms(1)] by blast
  then show "items (to_space c) + sizeof_copy_header \<le> place m c cs x"
    "place m c cs x \<le> items (to_space c) + space_size c"
    using dest_range[OF assms(4), of "items (to_space c)" "sizes_of m"] total_bound[OF assms(1-3)] by auto
qed

lemma place_fresh:
  assumes "heap_ok m c xs" "distinct cs" "set cs \<subseteq> dom m" "x \<in> set cs"
  shows "place m c cs x \<notin> dom m" "place m c cs x \<noteq> 0"
proof -
  note p = place_range[OF assms]
  from p show "place m c cs x \<noteq> 0" by (simp add: sizeof_copy_header_def)
  show "place m c cs x \<notin> dom m"
  proof
    assume "place m c cs x \<in> dom m"
    then have "items (from_space c) + sizeof_copy_header \<le> place m c cs x"
      "place m c cs x \<le> items (from_space c) + space_size c"
      using layout_range[of m] assms(1) heap_okD(4)[OF assms(1)] unfolding heap_ok_def by fastforce+
    then show False using p assms(1) by (auto simp: heap_ok_def spaces_ok_def sizeof_copy_header_def)
  qed
qed

lemma place_inj:
  assumes "heap_ok m c xs" "set cs \<subseteq> dom m" shows "inj_on (place m c cs) (set cs)"
proof (rule dest_inj_on)
  fix x assume "x \<in> set cs"
  then show "0 < sizes_of m x"
    using heap_okD(1)[OF assms(1), of x] assms(2) by (force simp: sizeof_copy_header_def)
qed

text \<open>One more object.\<close>

definition visit :: "addr \<Rightarrow> addr list \<Rightarrow> addr list" where
  "visit x cs = (if x \<in> set cs then cs else cs @ [x])"

lemma set_visit [simp]: "set (visit x cs) = insert x (set cs)"
  by (auto simp: visit_def)

lemma map_of_place:
  assumes "inj_on (place m c cs) (set cs)" "x \<in> set cs"
  shows "map_of (map (\<lambda>x. (place m c cs x, t x)) cs) (place m c cs x) = Some (t x)"
proof -
  have "map_of (map (\<lambda>x. (f x, t x)) ds) (f x) = Some (t x)" if "inj_on f (set ds)" "x \<in> set ds" for f and ds :: "addr list"
    using that by (induction ds) (auto simp: inj_on_def)
  then show ?thesis using assms by blast
qed

lemma place_snoc:
  assumes "x \<notin> set cs"
  shows "place m c (cs @ [x]) y = (if y = x then items (to_space c) + total (sizes_of m) cs + sizeof_copy_header
    else place m c cs y)"
proof (cases "y = x")
  case False
  then show ?thesis by (cases "y \<in> set cs") (simp_all add: dest_append dest_notin)
next
  case True
  then show ?thesis using dest_at[OF assms, of _ _ "[]"] by simp
qed

lemma load_during:
  assumes "m x = Some ob"
  shows "load_object (during m c fs cs t s) x = Inr (ob\<lparr>forwarding_addr := place m c cs x\<rparr>)"
  using assms by (simp add: load_object_def during_def)

lemma copy_during:
  assumes ok: "heap_ok m c xs" and cs: "distinct cs" "set cs \<subseteq> dom m" and x: "x \<in> dom m"
    and t: "x \<notin> set cs \<Longrightarrow> t x = the (m x)"
  shows "YogCopying_copy (during m c fs cs t s) x = Inr (during m c fs (visit x cs) t s, place m c (visit x cs) x)"
proof -
  obtain ob where ob: "m x = Some ob" using x by blast
  have x0: "x \<noteq> 0" and fw: "forwarding_addr ob = 0" using heap_okD(2,5)[OF ok] ob x by auto
  note l = load_during[of m x ob c fs cs t s, OF ob]
  show ?thesis
  proof (cases "x \<in> set cs")
    case True
    then show ?thesis using place_fresh(2)[OF ok cs True] l x0 by (simp add: YogCopying_copy_def visit_def)
  next
    case False
    let ?b = "items (to_space c) + total (sizes_of m) cs" and ?p = "place m c (cs @ [x]) x"
    have d: "distinct (cs @ [x])" "set (cs @ [x]) \<subseteq> dom m" using cs False x by auto
    have "total (sizes_of m) (cs @ [x]) \<le> space_size c" by (rule total_bound[OF ok d])
    then have fits: "?b + cp_size ob \<le> items (to_space c) + space_size c" using ob by simp
    have pn: "?p \<notin> dom m" using place_fresh[OF ok d] by simp
    have p: "?p = ?b + sizeof_copy_header" by (simp add: place_snoc[OF False])
    have ob0: "ob\<lparr>forwarding_addr := 0\<rparr> = ob" using fw by simp
    have "YogCopying_copy (during m c fs cs t s) x = Inr (set_unscanned (?b + cp_size ob)
        (put_object x (ob\<lparr>forwarding_addr := ?p\<rparr>) (put_object ?p ob (during m c fs cs t s))), ?p)"
      using l x0 fits heap_okD(1)[OF ok x] ob p dest_notin[OF False]
      by (simp add: YogCopying_copy_def Let_def during_def ob0 fw)
    moreover have "set_unscanned (?b + cp_size ob)
        (put_object x (ob\<lparr>forwarding_addr := ?p\<rparr>) (put_object ?p ob (during m c fs cs t s)))
      = during m c fs (cs @ [x]) t s"
    proof -
      have "map_of (map (\<lambda>y. (place m c (cs @ [x]) y, t y)) (cs @ [x])) q
          = (if q = ?p then Some ob else map_of (map (\<lambda>y. (place m c cs y, t y)) cs) q)" for q
      proof -
        have e: "map (\<lambda>y. (place m c (cs @ [x]) y, t y)) cs = map (\<lambda>y. (place m c cs y, t y)) cs"
          using False by (auto simp: place_snoc)
        have "map_of (map (\<lambda>y. (place m c cs y, t y)) cs) ?p = None"
          using place_inj[OF ok d(2)] False by (auto simp: map_of_eq_None_iff inj_on_def place_snoc)
        then show ?thesis unfolding map_append map_of_append e using t[OF False] ob
          by (auto simp: map_add_def split: option.splits)
      qed
      then show ?thesis
        using ob pn False
        by (auto simp: during_def set_unscanned_def put_object_def fun_eq_iff place_snoc add.assoc split: option.splits)
    qed
    ultimately show ?thesis using False by (simp add: visit_def)
  qed
qed

section \<open>Keeping the members\<close>

definition visits :: "addr yval list \<Rightarrow> addr list \<Rightarrow> addr list" where
  "visits vs cs = fold (\<lambda>v cs. case v of YPtr p \<Rightarrow> visit p cs | _ \<Rightarrow> cs) vs cs"

lemma visits_simps [simp]:
  "visits [] cs = cs"
  "visits (v # vs) cs = visits vs (case v of YPtr p \<Rightarrow> visit p cs | _ \<Rightarrow> cs)"
  by (simp_all add: visits_def)

lemma visits_append: "visits (vs @ ws) cs = visits ws (visits vs cs)"
  by (simp add: visits_def)

lemma visit_extends: "\<exists>ds. visit x cs = cs @ ds"
  by (simp add: visit_def)

lemma visits_extends: "\<exists>ds. visits vs cs = cs @ ds"
proof (induction vs arbitrary: cs)
  case (Cons v vs)
  then show ?case using visit_extends by (cases v) (simp_all, metis append.assoc)
qed simp

lemma set_visits [simp]: "set (visits vs cs) = set cs \<union> ptrs_of vs"
  by (induction vs arbitrary: cs) (auto split: yval.splits)

lemma distinct_visits: "distinct cs \<Longrightarrow> distinct (visits vs cs)"
  by (induction vs arbitrary: cs) (auto simp: visit_def split: yval.splits)

lemma place_stable: "x \<in> set cs \<Longrightarrow> place m c (visits vs cs) x = place m c cs x"
  using visits_extends[of vs cs] dest_append by metis

abbreviation relocate :: "(addr \<Rightarrow> cp_object option) \<Rightarrow> copying \<Rightarrow> addr list \<Rightarrow> addr yval \<Rightarrow> addr yval" where
  "relocate m c cs \<equiv> map_yval (place m c cs)"

lemma relocate_stable:
  assumes "ptrs_of vs \<subseteq> set cs" shows "map (relocate m c (visits ws cs)) vs = map (relocate m c cs) vs"
proof (rule map_cong[OF refl])
  fix v assume v: "v \<in> set vs"
  show "relocate m c (visits ws cs) v = relocate m c cs v"
  proof (cases v)
    case (YPtr p)
    then have "p \<in> set cs" using v assms by (auto simp: ptrs_of_def)
    then show ?thesis using YPtr by (simp add: place_stable)
  qed simp_all
qed

lemma keep_during:
  assumes ok: "heap_ok m c xs" and cs: "distinct cs" "set cs \<subseteq> dom m" and v: "ptrs_of [v] \<subseteq> dom m"
    and t: "\<And>x. x \<notin> set cs \<Longrightarrow> t x = the (m x)"
  shows "YogGC_keep YogCopying_copy (during m c fs cs t s) v
    = Inr (during m c fs (visits [v] cs) t s, relocate m c (visits [v] cs) v)"
proof (cases v)
  case (YPtr p)
  have p: "p \<in> dom m" using v YPtr by simp
  then have "place m c (visit p cs) p \<noteq> 0"
    using place_fresh(2)[OF ok, of "visit p cs" p] cs by (auto simp: visit_def)
  then show ?thesis using copy_during[of m c xs cs p t fs s, OF ok cs p t] YPtr by (simp add: YogGC_keep_def)
qed (simp_all add: YogGC_keep_def)

lemma keep_values_during:
  assumes ok: "heap_ok m c xs" and cs: "distinct cs" "set cs \<subseteq> dom m" and v: "ptrs_of vs \<subseteq> dom m"
    and t: "\<And>x. x \<notin> set cs \<Longrightarrow> t x = the (m x)"
  shows "keep_values YogCopying_copy vs (during m c fs cs t s)
    = Inr (during m c fs (visits vs cs) t s, map (relocate m c (visits vs cs)) vs)"
  using cs v t
proof (induction vs arbitrary: cs)
  case (Cons v vs)
  let ?cs = "visits [v] cs"
  have vv: "ptrs_of [v] \<subseteq> dom m" "ptrs_of vs \<subseteq> dom m" using Cons.prems(3) by (cases v; simp)+
  have d: "distinct ?cs" "set ?cs \<subseteq> dom m" "ptrs_of [v] \<subseteq> set ?cs"
    using Cons.prems vv(1) by (simp_all only: distinct_visits set_visits) auto
  have k: "YogGC_keep YogCopying_copy (during m c fs cs t s) v = Inr (during m c fs ?cs t s, relocate m c ?cs v)"
    by (rule keep_during[OF ok Cons.prems(1,2) vv(1) Cons.prems(4)])
  have "keep_values YogCopying_copy vs (during m c fs ?cs t s)
      = Inr (during m c fs (visits vs ?cs) t s, map (relocate m c (visits vs ?cs)) vs)"
    by (rule Cons.IH[OF d(1,2) vv(2)]) (rule Cons.prems(4), simp only: set_visits Un_iff, blast)
  moreover have "relocate m c (visits vs ?cs) v = relocate m c ?cs v"
    using relocate_stable[OF d(3), of m c vs] by simp
  moreover have "visits vs ?cs = visits (v # vs) cs" by simp
  ultimately show ?case using k by (simp only: keep_values.simps res_bind_simps prod.case list.map)
qed simp

text \<open>A member of a copy is kept: the copy of \<open>y\<close> changes.\<close>

lemma load_copy:
  assumes ok: "heap_ok m c xs" and cs: "distinct cs" "set cs \<subseteq> dom m" and y: "y \<in> set cs"
  shows "load_object (during m c fs cs t s) (place m c cs y) = Inr (t y)"
proof -
  have "m (place m c cs y) = None" using place_fresh(1)[OF ok cs y] by blast
  then show ?thesis using map_of_place[OF place_inj[OF ok cs(2)] y, of t]
    by (simp add: load_object_def during_def)
qed

lemma put_copy:
  assumes ok: "heap_ok m c xs" and cs: "distinct cs" "set cs \<subseteq> dom m" and y: "y \<in> set cs"
  shows "put_object (place m c cs y) ob (during m c fs cs t s) = during m c fs cs (t(y := ob)) s"
proof -
  have p: "m (place m c cs y) = None" using place_fresh(1)[OF ok cs y] by blast
  have inj: "inj_on (place m c cs) (set cs)" by (rule place_inj[OF ok cs(2)])
  have "map_of (map (\<lambda>x. (f x, (t(y := ob)) x)) ds) q = (if q = f y then Some ob else map_of (map (\<lambda>x. (f x, t x)) ds) q)"
    if "inj_on f (set ds)" "y \<in> set ds" for f :: "addr \<Rightarrow> addr" and ds q
    using that
  proof (induction ds)
    case (Cons d ds)
    show ?case
    proof (cases "y \<in> set ds")
      case True
      then show ?thesis using Cons by (auto simp: inj_on_def)
    next
      case False
      then have "map (\<lambda>x. (f x, (t(y := ob)) x)) ds = map (\<lambda>x. (f x, t x)) ds" by auto
      then show ?thesis using False Cons.prems by (simp only: list.map map_of.simps) auto
    qed
  qed simp
  from this[OF inj y] p show ?thesis
    by (auto simp: during_def put_object_def fun_eq_iff split: option.splits)
qed

lemma keep_member_during:
  assumes ok: "heap_ok m c xs" and cs: "distinct cs" "set cs \<subseteq> dom m" and y: "y \<in> set cs"
    and i: "i < length (o_slots (t y))" and v: "ptrs_of [o_slots (t y) ! i] \<subseteq> dom m"
    and t: "\<And>x. x \<notin> set cs \<Longrightarrow> t x = the (m x)"
  defines "cs' \<equiv> visits [o_slots (t y) ! i] cs"
  shows "keep_member YogCopying_copy (place m c cs y) i (during m c fs cs t s)
    = Inr (during m c fs cs' (t(y := (t y)\<lparr>o_slots := (o_slots (t y))[i := relocate m c cs' (o_slots (t y) ! i)]\<rparr>)) s)"
proof -
  have d: "distinct cs'" "set cs' \<subseteq> dom m" "y \<in> set cs'"
    using cs y v unfolding cs'_def by (simp_all only: distinct_visits set_visits) auto
  have p: "place m c cs y = place m c cs' y" unfolding cs'_def using y by (simp only: place_stable)
  have k: "YogGC_keep YogCopying_copy (during m c fs cs t s) (o_slots (t y) ! i)
      = Inr (during m c fs cs' t s, relocate m c cs' (o_slots (t y) ! i))"
    unfolding cs'_def by (rule keep_during[OF ok cs v t])
  have "load_object (during m c fs cs t s) (place m c cs y) = Inr (t y)"
    "load_object (during m c fs cs' t s) (place m c cs y) = Inr (t y)"
    using load_copy[OF ok cs y] load_copy[OF ok d] p by simp_all
  then show ?thesis using i k put_copy[OF ok d] p by (simp add: keep_member_def)
qed

lemma foldM_keep_during:
  assumes ok: "heap_ok m c xs" and cs: "distinct cs" "set cs \<subseteq> dom m" and y: "y \<in> set cs"
    and ob: "t y = ob\<lparr>o_slots := map (relocate m c cs) us @ ws\<rparr>" "ptrs_of us \<subseteq> set cs" "ptrs_of ws \<subseteq> dom m"
    and t: "\<And>x. x \<notin> set cs \<Longrightarrow> t x = the (m x)"
  shows "foldM (keep_member YogCopying_copy (place m c cs y)) [length us..<length us + length ws] (during m c fs cs t s)
    = Inr (during m c fs (visits ws cs) (t(y := ob\<lparr>o_slots := map (relocate m c (visits ws cs)) (us @ ws)\<rparr>)) s)"
  using cs y ob t
proof (induction ws arbitrary: us cs t)
  case Nil
  then show ?case by (simp add: fun_upd_idem)
next
  case (Cons w ws)
  let ?cs = "visits [w] cs"
  let ?t = "t(y := ob\<lparr>o_slots := map (relocate m c ?cs) (us @ [w]) @ ws\<rparr>)"
  have w: "ptrs_of [w] \<subseteq> dom m" "ptrs_of ws \<subseteq> dom m" using Cons.prems(6) by (cases w; simp)+
  have d: "distinct ?cs" "set ?cs \<subseteq> dom m" "y \<in> set ?cs" "ptrs_of (us @ [w]) \<subseteq> set ?cs"
    using Cons.prems(1-3,5) w by (simp_all only: distinct_visits set_visits ptrs_of_append) auto
  have p: "place m c cs y = place m c ?cs y" using Cons.prems(3) by (simp only: place_stable)
  have us: "map (relocate m c ?cs) us = map (relocate m c cs) us" by (rule relocate_stable[OF Cons.prems(5)])
  have at: "o_slots (t y) ! length us = w" "length us < length (o_slots (t y))"
    using Cons.prems(4) by (simp_all add: nth_append)
  have "keep_member YogCopying_copy (place m c cs y) (length us) (during m c fs cs t s)
      = Inr (during m c fs ?cs (t(y := (t y)\<lparr>o_slots := (o_slots (t y))[length us := relocate m c ?cs w]\<rparr>)) s)"
    using keep_member_during[of m c xs cs y "length us" t fs s, OF ok Cons.prems(1-3) at(2) _ Cons.prems(7)] w(1)
    unfolding at(1) by blast
  also have "t(y := (t y)\<lparr>o_slots := (o_slots (t y))[length us := relocate m c ?cs w]\<rparr>) = ?t"
    unfolding Cons.prems(4) map_append us by (simp add: list_update_append)
  finally have k: "keep_member YogCopying_copy (place m c cs y) (length us) (during m c fs cs t s)
      = Inr (during m c fs ?cs ?t s)" .
  have "foldM (keep_member YogCopying_copy (place m c ?cs y)) [length (us @ [w])..<length (us @ [w]) + length ws]
      (during m c fs ?cs ?t s)
    = Inr (during m c fs (visits ws ?cs)
        (?t(y := ob\<lparr>o_slots := map (relocate m c (visits ws ?cs)) ((us @ [w]) @ ws)\<rparr>)) s)"
    by (rule Cons.IH[OF d(1-3) _ d(4) w(2)])
      (simp, use Cons.prems(3,7) in \<open>auto simp del: visits_simps\<close>)
  moreover have "visits ws ?cs = visits (w # ws) cs" by simp
  ultimately have f: "foldM (keep_member YogCopying_copy (place m c ?cs y))
      [length (us @ [w])..<length (us @ [w]) + length ws] (during m c fs ?cs ?t s)
    = Inr (during m c fs (visits (w # ws) cs)
        (t(y := ob\<lparr>o_slots := map (relocate m c (visits (w # ws) cs)) (us @ w # ws)\<rparr>)) s)"
    by (simp only: fun_upd_upd append_assoc append.simps)
  have "[length us..<length us + length (w # ws)]
      = length us # [length (us @ [w])..<length (us @ [w]) + length ws]" by (simp add: upt_rec)
  then show ?case by (simp only: foldM.simps k[unfolded p] res_bind_simps p f)
qed

lemma keep_children_during:
  assumes ok: "heap_ok m c xs" and cs: "distinct cs" "set cs \<subseteq> dom m" and y: "y \<in> set cs"
    and ob: "t y = ob" "ptrs_of (o_slots ob) \<subseteq> dom m"
    and t: "\<And>x. x \<notin> set cs \<Longrightarrow> t x = the (m x)"
  defines "cs' \<equiv> visits (o_slots ob) cs"
  shows "keep_children YogCopying_copy (place m c cs y) (during m c fs cs t s)
    = Inr (during m c fs cs' (t(y := ob\<lparr>o_slots := map (relocate m c cs') (o_slots ob)\<rparr>)) s)"
  using foldM_keep_during[of m c xs cs y t "[]" "o_slots ob" ob fs s, OF ok cs y _ _ ob(2) t] ob(1)
    load_copy[OF ok cs y, of fs t s]
  by (simp add: keep_children_def cs'_def)

section \<open>Scanning\<close>

definition scanned_object :: "(addr \<Rightarrow> cp_object option) \<Rightarrow> copying \<Rightarrow> addr list \<Rightarrow> addr \<Rightarrow> cp_object" where
  "scanned_object m c cs x =
     (let ob = the (m x) in if o_keeper ob then ob\<lparr>o_slots := map (relocate m c cs) (o_slots ob)\<rparr> else ob)"

text \<open>The copies of \<open>bs\<close> have been scanned, those of \<open>gs\<close> have not.\<close>

definition scanning :: "(addr \<Rightarrow> cp_object option) \<Rightarrow> copying \<Rightarrow> addr list \<Rightarrow> addr list \<Rightarrow> addr list \<Rightarrow> cp_memory" where
  "scanning m c fs bs gs = during m c fs (bs @ gs)
     (\<lambda>x. if x \<in> set bs then scanned_object m c (bs @ gs) x else the (m x))
     (items (to_space c) + total (sizes_of m) bs)"

lemma during_cong: "(\<And>x. x \<in> set cs \<Longrightarrow> t x = t' x) \<Longrightarrow> during m c fs cs t s = during m c fs cs t' s"
proof -
  assume "\<And>x. x \<in> set cs \<Longrightarrow> t x = t' x"
  then have "map (\<lambda>x. (place m c cs x, t x)) cs = map (\<lambda>x. (place m c cs x, t' x)) cs" by simp
  then show ?thesis by (simp only: during_def)
qed

lemma set_scanned_during [simp]: "set_scanned s' (during m c fs cs t s) = during m c fs cs t s'"
  by (simp add: during_def set_scanned_def)

lemma succs_keeper: "m x = Some ob \<Longrightarrow> o_keeper ob \<Longrightarrow> succs m x = ptrs_of (o_slots ob)"
  by (simp add: succs_def)

lemma scanned_object_stable:
  assumes "succs m x \<subseteq> set cs" "x \<in> dom m"
  shows "scanned_object m c (visits vs cs) x = scanned_object m c cs x"
proof (cases "o_keeper (the (m x))")
  case True
  obtain ob where ob: "m x = Some ob" using assms(2) by blast
  then have "ptrs_of (o_slots ob) \<subseteq> set cs" using assms(1) True succs_keeper[of m x ob] ob by simp
  from relocate_stable[OF this, of m c vs] show ?thesis using ob True
    by (simp only: scanned_object_def Let_def if_True option.sel)
qed (simp add: scanned_object_def)

lemma cp_size_scanned_object [simp]: "cp_size (scanned_object m c cs x) = sizes_of m x"
  by (simp add: scanned_object_def Let_def)

lemma scan_finished:
  assumes "heap_ok m c xs" "set gs \<subseteq> dom m"
  shows "YogCopying_is_finished (scanning m c fs bs gs) \<longleftrightarrow> gs = []"
proof (cases gs)
  case (Cons g gs')
  then have "0 < sizes_of m g"
    using heap_okD(1)[OF assms(1), of g] assms(2) by (auto simp: sizeof_copy_header_def)
  then show ?thesis using Cons by (simp add: YogCopying_is_finished_def scanning_def during_def)
qed (simp add: YogCopying_is_finished_def scanning_def during_def)

lemma scan_iteration:
  assumes "\<not> YogCopying_is_finished h" "scanned (cp h) + sizeof_copy_header = p" "load_object h p = Inr ob"
    "(if o_keeper ob then keep_children YogCopying_copy p h else Inr h) = Inr h1" "load_object h1 p = Inr ob1"
  shows "YogCopying_scan (Suc n) h = YogCopying_scan n (set_scanned (scanned (cp h1) + cp_size ob1) h1)"
  using assms by (simp add: Let_def)

lemma scan_step:
  assumes ok: "heap_ok m c xs" and cs: "distinct (bs @ y # gs)" "set (bs @ y # gs) \<subseteq> dom m"
    and ptrs: "succs m y \<subseteq> dom m" "\<And>x. x \<in> set bs \<Longrightarrow> succs m x \<subseteq> set (bs @ y # gs)"
  shows "\<exists>ds. YogCopying_scan (Suc n) (scanning m c fs bs (y # gs)) = YogCopying_scan n (scanning m c fs (bs @ [y]) (gs @ ds))
    \<and> distinct (bs @ y # gs @ ds) \<and> set (bs @ y # gs @ ds) = set (bs @ y # gs) \<union> succs m y"
proof -
  let ?cs = "bs @ y # gs" and ?t = "\<lambda>x. if x \<in> set bs then scanned_object m c (bs @ y # gs) x else the (m x)"
    and ?s = "items (to_space c) + total (sizes_of m) bs"
  let ?p = "place m c ?cs y" and ?h = "scanning m c fs bs (y # gs)"
  obtain ob where ob: "m y = Some ob" using cs by auto
  have ynb: "y \<notin> set bs" and yc: "y \<in> set ?cs" using cs by auto
  have ty: "?t y = ob" using ynb ob by simp
  have h: "?h = during m c fs ?cs ?t ?s" by (simp add: scanning_def)
  have p: "scanned (cp ?h) + sizeof_copy_header = ?p"
    using dest_at[OF ynb, of "sizes_of m" "items (to_space c)" gs] by (simp add: h during_def)
  have fin: "\<not> YogCopying_is_finished ?h" using scan_finished[OF ok, of "y # gs"] cs by simp
  have l: "load_object ?h ?p = Inr ob" using load_copy[OF ok cs yc] ty unfolding h by blast
  have s': "items (to_space c) + total (sizes_of m) (bs @ [y]) = ?s + cp_size ob" using ob by simp
  show ?thesis
  proof (cases "o_keeper ob")
    case False
    have sy: "succs m y = {}" using ob False by (simp add: succs_def)
    have "scanning m c fs (bs @ [y]) gs = during m c fs ?cs ?t (?s + cp_size ob)"
    proof -
      have e: "(bs @ [y]) @ gs = ?cs" by simp
      have "scanned_object m c ?cs y = the (m y)" using ob False by (simp add: scanned_object_def)
      then show ?thesis unfolding scanning_def s' e by (intro during_cong) auto
    qed
    moreover have "YogCopying_scan (Suc n) ?h = YogCopying_scan n (set_scanned (scanned (cp ?h) + cp_size ob) ?h)"
      by (rule scan_iteration[OF fin p l _ l]) (simp add: False)
    moreover have "set_scanned (scanned (cp ?h) + cp_size ob) ?h = during m c fs ?cs ?t (?s + cp_size ob)"
      by (simp add: h) (simp add: during_def)
    ultimately have "YogCopying_scan (Suc n) ?h = YogCopying_scan n (scanning m c fs (bs @ [y]) gs)" by (simp only:)
    then show ?thesis using cs(1) sy by (intro exI[of _ "[]"]) (simp only: append_Nil2 Un_empty_right simp_thms)
  next
    case True
    let ?ws = "o_slots ob"
    let ?cs' = "visits ?ws ?cs" and ?ob' = "ob\<lparr>o_slots := map (relocate m c (visits ?ws ?cs)) ?ws\<rparr>"
    have sy: "succs m y = ptrs_of ?ws" by (rule succs_keeper[of m y ob, OF ob True])
    obtain ds where ds: "?cs' = ?cs @ ds" using visits_extends by blast
    have d: "distinct ?cs'" "set ?cs' = set ?cs \<union> succs m y" "set ?cs' \<subseteq> dom m"
      using cs ptrs(1) unfolding sy by (simp_all only: distinct_visits set_visits) auto
    have "\<And>x. x \<notin> set ?cs \<Longrightarrow> ?t x = the (m x)" by auto
    from keep_children_during[of m c xs ?cs y ?t ob fs ?s, OF ok cs yc ty ptrs(1)[unfolded sy] this]
    have k: "keep_children YogCopying_copy ?p ?h = Inr (during m c fs ?cs' (?t(y := ?ob')) ?s)"
      unfolding h .
    have "place m c ?cs y = place m c ?cs' y" using yc by (simp only: place_stable)
    then have l': "load_object (during m c fs ?cs' (?t(y := ?ob')) ?s) ?p = Inr ?ob'"
      using load_copy[OF ok d(1,3), of y fs "?t(y := ?ob')" ?s] yc d(2) by auto
    have "scanning m c fs (bs @ [y]) (gs @ ds) = during m c fs ?cs' (?t(y := ?ob')) (?s + cp_size ob)"
    proof -
      have e: "(bs @ [y]) @ (gs @ ds) = ?cs'" using ds by simp
      show ?thesis unfolding scanning_def s' e
      proof (rule during_cong)
        fix x
        show "(if x \<in> set (bs @ [y]) then scanned_object m c ?cs' x else the (m x)) = (?t(y := ?ob')) x"
        proof (cases "x = y")
          case True
          then show ?thesis using ob \<open>o_keeper ob\<close> by (simp only: scanned_object_def) (simp add: Let_def)
        next
          case False
          then show ?thesis
            using scanned_object_stable[of m x ?cs c ?ws] ptrs(2)[of x] cs(2) by (auto simp del: visits_simps)
        qed
      qed
    qed
    moreover have "scanned (cp (during m c fs ?cs' (?t(y := ?ob')) ?s)) = ?s" by (simp add: during_def)
    moreover have "YogCopying_scan (Suc n) ?h = YogCopying_scan n (set_scanned
        (scanned (cp (during m c fs ?cs' (?t(y := ?ob')) ?s)) + cp_size ?ob') (during m c fs ?cs' (?t(y := ?ob')) ?s))"
      by (rule scan_iteration[OF fin p l _ l']) (simp only: True if_True k)
    moreover have "cp_size ?ob' = cp_size ob" by simp
    ultimately have "YogCopying_scan (Suc n) ?h = YogCopying_scan n (scanning m c fs (bs @ [y]) (gs @ ds))"
      by (simp only: set_scanned_during)
    moreover have "bs @ y # (gs @ ds) = ?cs'" using ds by simp
    ultimately show ?thesis using d by (metis (no_types))
  qed
qed

lemma scan_all:
  assumes ok: "heap_ok m c xs" and live: "no_dangling m S"
    and cs: "distinct (bs @ gs)" "set (bs @ gs) \<subseteq> live m S"
    and done_ptrs: "\<And>x. x \<in> set bs \<Longrightarrow> succs m x \<subseteq> set (bs @ gs)"
    and fuel: "card (dom m) < n + length bs"
  shows "\<exists>cs ds. YogCopying_scan n (scanning m c fs bs gs) = Inr (scanning m c fs cs []) \<and> cs = bs @ gs @ ds
    \<and> distinct cs \<and> set cs \<subseteq> live m S \<and> (\<forall>x\<in>set cs. succs m x \<subseteq> set cs)"
  using cs done_ptrs fuel
proof (induction n arbitrary: bs gs)
  case 0
  have "finite (dom m)" using heap_okD(4)[OF ok] by simp
  then have "card (set bs) \<le> card (dom m)"
    using 0 live by (intro card_mono) (auto simp: no_dangling_def)
  then show ?case using 0 distinct_card[of bs] by simp
next
  case (Suc n)
  have dom: "live m S \<subseteq> dom m" using live by (auto simp: no_dangling_def)
  show ?case
  proof (cases gs)
    case Nil
    have "YogCopying_is_finished (scanning m c fs bs [])" using scan_finished[OF ok, of "[]"] by simp
    then have "YogCopying_scan (Suc n) (scanning m c fs bs gs) = Inr (scanning m c fs bs [])"
      using Nil by simp
    then show ?thesis using Suc.prems Nil by auto
  next
    case (Cons y gs0)
    have y: "succs m y \<subseteq> live m S" using Suc.prems(2) Cons by (auto intro: live_succ)
    have "succs m y \<subseteq> dom m" "set (bs @ y # gs0) \<subseteq> dom m" using Suc.prems(2) Cons y dom by auto
    then obtain es where st: "YogCopying_scan (Suc n) (scanning m c fs bs (y # gs0))
          = YogCopying_scan n (scanning m c fs (bs @ [y]) (gs0 @ es))"
      and d: "distinct (bs @ y # gs0 @ es)" "set (bs @ y # gs0 @ es) = set (bs @ y # gs0) \<union> succs m y"
      using scan_step[OF ok, of bs y gs0 n fs] Suc.prems(1,3) Cons by blast
    have e: "(bs @ [y]) @ (gs0 @ es) = bs @ y # gs0 @ es" by simp
    obtain cs ds where r: "YogCopying_scan n (scanning m c fs (bs @ [y]) (gs0 @ es)) = Inr (scanning m c fs cs [])"
      and cs: "cs = (bs @ [y]) @ (gs0 @ es) @ ds" "distinct cs" "set cs \<subseteq> live m S" "\<forall>x\<in>set cs. succs m x \<subseteq> set cs"
    proof (rule exE[OF Suc.IH[of "bs @ [y]" "gs0 @ es", unfolded e]])
      show "distinct (bs @ y # gs0 @ es)" by (rule d(1))
      show "set (bs @ y # gs0 @ es) \<subseteq> live m S" using d(2) y Suc.prems(2) Cons by auto
      show "succs m x \<subseteq> set (bs @ y # gs0 @ es)" if "x \<in> set (bs @ [y])" for x
        using that Suc.prems(3)[of x] d(2) Cons by auto
      show "card (dom m) < n + length (bs @ [y])" using Suc.prems(4) by simp
    qed blast
    have "cs = bs @ gs @ es @ ds" using cs(1) Cons by simp
    then show ?thesis unfolding Cons st using r cs(2-4) by blast
  qed
qed

lemma scan_reaches_live:
  assumes ok: "heap_ok m c xs" and live: "no_dangling m S" and cs: "distinct gs" "S = set gs"
    and fuel: "card (dom m) < n"
  shows "\<exists>cs ds. YogCopying_scan n (scanning m c fs [] gs) = Inr (scanning m c fs cs [])
    \<and> cs = gs @ ds \<and> distinct cs \<and> set cs = live m S"
proof -
  have gs: "set ([] @ gs) \<subseteq> live m S" using cs(2) by (auto intro: live_root)
  obtain cs ds where r: "YogCopying_scan n (scanning m c fs [] gs) = Inr (scanning m c fs cs [])"
    and c: "cs = gs @ ds" "distinct cs" "set cs \<subseteq> live m S" "\<forall>x\<in>set cs. succs m x \<subseteq> set cs"
    using scan_all[OF ok live _ gs, of n fs] cs fuel by auto
  have "live m S \<subseteq> set cs" using c cs(2) by (intro live_least) auto
  then show ?thesis using r c by blast
qed

section \<open>Finishing the collection\<close>

lemma finalized_during [simp]: "finalized (during m c fs cs t s) = fs"
  by (simp add: during_def)

lemma delete_garbage_walk:
  assumes ok: "heap_ok m c xs0" and l: "layout m a xs b" and n: "length xs < n"
    and cs: "distinct cs" "set cs \<subseteq> dom m"
  shows "iterate_objects n delete_garbage_each a b (during m c fs cs t s)
    = Inr (during m c (fs @ filter (\<lambda>x. x \<notin> set cs \<and> o_finalizer (the (m x))) xs) cs t s)"
  using l n
proof (induction xs arbitrary: a n fs)
  case Nil
  then show ?case by (cases n) simp_all
next
  case (Cons x xs)
  from Cons.prems(1) obtain ob where ob: "x = a + sizeof_copy_header" "m x = Some ob"
    "sizeof_copy_header \<le> cp_size ob" "layout m (a + cp_size ob) xs b" by (rule layout_ConsE)
  have pos: "0 < cp_size ob" "a < b" using ob(3) layout_total[OF Cons.prems(1)] ob(2)
    by (auto simp: sizeof_copy_header_def)
  obtain k where k: "n = Suc k" "length xs < k" using Cons.prems(2) by (cases n) auto
  have ld: "load_object (during m c fs cs t s) (a + sizeof_copy_header) = Inr (ob\<lparr>forwarding_addr := place m c cs x\<rparr>)"
    using load_during[of m x ob c fs cs t s, OF ob(2)] ob(1) by simp
  have cb: "delete_garbage_each (a + sizeof_copy_header) (ob\<lparr>forwarding_addr := place m c cs x\<rparr>) (during m c fs cs t s)
      = during m c (fs @ (if x \<notin> set cs \<and> o_finalizer (the (m x)) then [x] else [])) cs t s"
  proof -
    have "place m c cs x = 0 \<longleftrightarrow> x \<notin> set cs" using place_fresh(2)[OF ok cs] dest_notin by blast
    then show ?thesis using ob(1,2) by (simp add: delete_garbage_each_def during_def)
  qed
  have "iterate_objects n delete_garbage_each a b (during m c fs cs t s)
      = iterate_objects k delete_garbage_each (a + cp_size ob) b
          (during m c (fs @ (if x \<notin> set cs \<and> o_finalizer (the (m x)) then [x] else [])) cs t s)"
    using pos k(1) ld cb by simp
  then show ?case using Cons.IH[OF ob(4) k(2)] by simp
qed

text \<open>The memory after the collection.\<close>

lemma scanning_done:
  "scanning m c fs cs [] = during m c fs cs (scanned_object m c cs) (items (to_space c) + total (sizes_of m) cs)"
  unfolding scanning_def append_Nil2 by (rule during_cong) simp

lemma post_gc_scanning:
  fixes fs :: "addr list"
  assumes ok: "heap_ok m c xs" and cs: "distinct cs" "set cs \<subseteq> dom m"
  defines "h \<equiv> YogCopying_post_gc (scanning m c fs cs [])"
  shows "mem h = map_of (map (\<lambda>x. (place m c cs x, scanned_object m c cs x)) cs)"
    "finalized h = fs"
    "space_size (cp h) = space_size c" "to_space (cp h) = from_space c"
    "from_space (cp h) = \<lparr>items = items (to_space c), free = items (to_space c) + total (sizes_of m) cs\<rparr>"
proof -
  note o = ok[unfolded heap_ok_def]
  have f: "items (from_space c) \<le> free (from_space c)" using layout_total[of m] o by fastforce
  have "mem h p = map_of (map (\<lambda>x. (place m c cs x, scanned_object m c cs x)) cs) p" for p
  proof (cases "p \<in> dom m")
    case True
    have x: "p \<in> set xs" using True heap_okD(4)[OF ok] by simp
    have "items (from_space c) + sizeof_copy_header \<le> p" using layout_range[of m _ xs _ p] o x by blast
    moreover have "p < free (from_space c) + sizeof_copy_header"
      using layout_range[of m _ xs _ p] o x by (fastforce simp: sizeof_copy_header_def)
    moreover have "p \<notin> place m c cs ` set cs" using place_fresh(1)[OF ok cs] True by blast
    ultimately show ?thesis using f
      by (auto simp: h_def YogCopying_post_gc_def scanning_done during_def Let_def destroy_memory_def
          map_of_eq_None_iff image_image intro!: map_of_eq_None_iff[THEN iffD2, symmetric])
  next
    case False
    have "\<not> (items (from_space c) + sizeof_copy_header \<le> p \<and> p < free (from_space c) + sizeof_copy_header)"
      if at: "p \<in> place m c cs ` set cs"
    proof -
      obtain x where x: "x \<in> set cs" "p = place m c cs x" using at by blast
      have "items (to_space c) + sizeof_copy_header \<le> p" "p \<le> items (to_space c) + space_size c"
        using place_range[OF ok cs x(1)] x(2) by simp_all
      then show ?thesis using o by (auto simp: spaces_ok_def sizeof_copy_header_def)
    qed
    moreover have "map_of (map (\<lambda>x. (place m c cs x, scanned_object m c cs x)) cs) p = None"
      if "p \<notin> place m c cs ` set cs" using that by (simp add: map_of_eq_None_iff image_image)
    ultimately show ?thesis using False f
      by (cases "p \<in> place m c cs ` set cs")
        (auto simp: h_def YogCopying_post_gc_def scanning_done during_def Let_def destroy_memory_def split: option.splits)
  qed
  then show "mem h = map_of (map (\<lambda>x. (place m c cs x, scanned_object m c cs x)) cs)" ..
  show "finalized h = fs" "space_size (cp h) = space_size c" "to_space (cp h) = from_space c"
    "from_space (cp h) = \<lparr>items = items (to_space c), free = items (to_space c) + total (sizes_of m) cs\<rparr>"
    by (simp_all add: h_def YogCopying_post_gc_def scanning_done during_def Let_def destroy_memory_def)
qed

lemma prepare_during:
  assumes "heap_ok (mem h) (cp h) xs"
  shows "YogCopying_prepare h = during (mem h) (cp h) (finalized h) [] (the \<circ> mem h) (items (to_space (cp h)))"
proof -
  have "ob\<lparr>forwarding_addr := 0\<rparr> = ob" if "mem h p = Some ob" for p ob
    using heap_okD(5)[OF assms that] by simp
  then show ?thesis
    by (cases h) (auto simp: YogCopying_prepare_def set_scanned_def set_unscanned_def during_def Let_def fun_eq_iff
        split: option.splits)
qed

text \<open>The collection copies the live objects, in the order in which they are reached.\<close>

lemma cp_gc_exact:
  fixes h :: cp_memory
  defines "m \<equiv> mem h" and "c \<equiv> cp h"
  assumes ok: "heap_ok m c xs" and live: "no_dangling m (ptrs_of roots)" and fuel: "length xs < fuel"
  shows "\<exists>cs. distinct cs \<and> set cs = live m (ptrs_of roots)
    \<and> cp_gc fuel (h, roots) = Inr (YogCopying_post_gc (scanning m c
          (finalized h @ filter (\<lambda>x. x \<notin> live m (ptrs_of roots) \<and> o_finalizer (the (m x))) xs) cs []),
        map (relocate m c cs) roots)"
proof -
  let ?gs = "visits roots []" and ?fs = "finalized h"
  let ?fs' = "?fs @ filter (\<lambda>x. x \<notin> live m (ptrs_of roots) \<and> o_finalizer (the (m x))) xs"
  note h = ok[unfolded heap_ok_def]
  have dom: "live m (ptrs_of roots) \<subseteq> dom m" using live by (auto simp: no_dangling_def)
  have "ptrs_of roots \<subseteq> live m (ptrs_of roots)" by (auto intro: live_root)
  then have r: "ptrs_of roots \<subseteq> dom m" using dom by blast
  have card: "card (dom m) < fuel" using heap_okD(3,4)[OF ok] fuel distinct_card[of xs] by simp
  have gs: "distinct ?gs" "ptrs_of roots = set ?gs" by (simp_all add: distinct_visits)
  have "YogCopying_prepare h = during m c ?fs [] (the \<circ> m) (items (to_space c))"
    unfolding m_def c_def by (rule prepare_during) (use ok in \<open>simp add: m_def c_def\<close>)
  then have "YogCopying_keep_root roots (YogCopying_prepare h)
      = Inr (during m c ?fs ?gs (the \<circ> m) (items (to_space c)), map (relocate m c ?gs) roots)"
    using keep_values_during[of m c xs "[]" roots "the \<circ> m" ?fs, OF ok _ _ r]
    by (simp add: YogCopying_keep_root_def)
  moreover have "during m c ?fs ?gs (the \<circ> m) (items (to_space c)) = scanning m c ?fs [] ?gs"
    by (simp add: scanning_def) (rule during_cong, simp)
  ultimately have k: "YogCopying_keep_root roots (YogCopying_prepare h)
      = Inr (scanning m c ?fs [] ?gs, map (relocate m c ?gs) roots)" by simp
  obtain cs ds where s: "YogCopying_scan fuel (scanning m c ?fs [] ?gs) = Inr (scanning m c ?fs cs [])"
    and cs: "cs = ?gs @ ds" "distinct cs" "set cs = live m (ptrs_of roots)"
    using scan_reaches_live[OF ok live gs card] by blast
  have "relocate m c ?gs v = relocate m c cs v" if "v \<in> set roots" for v
  proof (cases v)
    case (YPtr p)
    then have "p \<in> set ?gs" using that gs(2) by (auto simp: ptrs_of_def)
    then show ?thesis using YPtr cs(1) by (simp add: dest_append)
  qed simp_all
  then have roots: "map (relocate m c ?gs) roots = map (relocate m c cs) roots" by simp
  have sp: "from_space (cp (scanning m c ?fs cs [])) = from_space c" by (simp add: scanning_def during_def)
  have "YogCopying_delete_garbage fuel (scanning m c ?fs cs []) = Inr (scanning m c ?fs' cs [])"
    using delete_garbage_walk[of m c xs _ xs _ fuel cs ?fs, OF ok conjunct1[OF h] fuel cs(2)] dom cs(3)
    unfolding YogCopying_delete_garbage_def Let_def sp by (simp add: scanning_done)
  then have "cp_gc fuel (h, roots) = Inr (YogCopying_post_gc (scanning m c ?fs' cs []), map (relocate m c cs) roots)"
    using k s roots by (simp add: cp_gc_def)
  then show ?thesis using cs(2,3) by blast
qed

lemma layout_copies:
  assumes "\<And>x. x \<in> set cs \<Longrightarrow> sizeof_copy_header \<le> s x"
    "\<And>x. x \<in> set cs \<Longrightarrow> \<exists>ob. m' (dest s a cs x) = Some ob \<and> cp_size ob = s x" "distinct cs"
  shows "layout m' a (map (dest s a cs) cs) (a + total s cs)"
  using assms
proof (induction cs arbitrary: a)
  case (Cons c cs)
  have e: "map (dest s a (c # cs)) cs = map (dest s (a + s c) cs) cs" using Cons.prems(3) by auto
  have "layout m' (a + s c) (map (dest s (a + s c) cs) cs) (a + s c + total s cs)"
  proof (rule Cons.IH)
    show "\<exists>ob. m' (dest s (a + s c) cs x) = Some ob \<and> cp_size ob = s x" if "x \<in> set cs" for x
      using Cons.prems(2)[of x] Cons.prems(3) that by (auto split: if_splits)
  qed (use Cons.prems in auto)
  then show ?case unfolding list.map e using Cons.prems(1,2)[of c] by (auto simp: add.assoc)
qed simp

text \<open>The heap after the collection is well formed again.\<close>

lemma map_of_dom_map: "dom (map_of (map (\<lambda>x. (f x, t x)) cs)) = f ` set cs"
  by (simp add: dom_map_of_conv_image_fst image_image)

lemma cp_gc_heap_ok:
  fixes fs :: "addr list"
  assumes ok: "heap_ok m c xs" and cs: "distinct cs" "set cs \<subseteq> dom m"
  defines "h \<equiv> YogCopying_post_gc (scanning m c fs cs [])"
  shows "heap_ok (mem h) (cp h) (map (place m c cs) cs)"
proof -
  note p = post_gc_scanning[OF ok cs, of fs, folded h_def]
  have at: "mem h (place m c cs x) = Some (scanned_object m c cs x)" if "x \<in> set cs" for x
    unfolding p(1) by (rule map_of_place[OF place_inj[OF ok cs(2)] that])
  have d: "dom (mem h) = place m c cs ` set cs" unfolding p(1) by (rule map_of_dom_map)
  have "layout (mem h) (items (to_space c)) (map (place m c cs) cs) (items (to_space c) + total (sizes_of m) cs)"
  proof (rule layout_copies)
    show "sizeof_copy_header \<le> sizes_of m x" if "x \<in> set cs" for x using heap_okD(1)[OF ok] cs that by blast
    show "\<exists>ob. mem h (place m c cs x) = Some ob \<and> cp_size ob = sizes_of m x" if "x \<in> set cs" for x
      using at[OF that] by simp
  qed (rule cs(1))
  moreover have "forwarding_addr ob = 0" if ob: "ob \<in> ran (mem h)" for ob
  proof -
    obtain q where q: "mem h q = Some ob" using ob by (auto simp: ran_def)
    then have "q \<in> place m c cs ` set cs" using d by blast
    then have that0: "\<exists>x. x \<in> set cs \<and> ob = scanned_object m c cs x" using at q by fastforce
    obtain x where x: "x \<in> set cs" "ob = scanned_object m c cs x"
      using that0 by blast
    obtain o1 where "m x = Some o1" using x(1) cs(2) by blast
    then show ?thesis using heap_okD(5)[OF ok, of x o1] x(2) by (simp add: scanned_object_def Let_def)
  qed
  ultimately show ?thesis using d ok total_bound[OF ok cs]
    by (simp add: heap_ok_def p(3-5)) (auto simp: spaces_ok_def p(3-5))
qed

text \<open>The content of an object, with its pointers renamed; the keeper of an object decides which words
  of it are members.\<close>

definition renamed :: "(addr \<Rightarrow> addr) \<Rightarrow> cp_object \<Rightarrow> cp_object" where
  "renamed f ob = (if o_keeper ob then ob\<lparr>o_slots := map (map_yval f) (o_slots ob)\<rparr> else ob)"

definition is_live :: "cp_memory \<Rightarrow> addr yval list \<Rightarrow> addr set" where
  "is_live h roots = live (mem h) (ptrs_of roots)"

lemma cp_gc_moves_live:
  assumes "heap_ok (mem h) (cp h) xs" "no_dangling (mem h) (ptrs_of roots)" "length xs < fuel"
  shows "\<exists>h' f ys. cp_gc fuel (h, roots) = Inr (h', map (map_yval f) roots)
    \<and> inj_on f (is_live h roots) \<and> dom (mem h') = f ` is_live h roots
    \<and> {x. mem h' (f x) \<noteq> map_option (renamed f) (mem h x)} \<inter> is_live h roots = {}
    \<and> finalized h' = finalized h @ filter (\<lambda>x. x \<notin> is_live h roots \<and> o_finalizer (the (mem h x))) xs
    \<and> heap_ok (mem h') (cp h') ys \<and> set ys = f ` is_live h roots"
proof -
  let ?m = "mem h" and ?c = "cp h" and ?L = "live (mem h) (ptrs_of roots)"
  let ?fs = "finalized h @ filter (\<lambda>x. x \<notin> ?L \<and> o_finalizer (the (?m x))) xs"
  obtain cs where cs: "distinct cs" "set cs = ?L"
    and gc: "cp_gc fuel (h, roots) = Inr (YogCopying_post_gc (scanning ?m ?c ?fs cs []), map (relocate ?m ?c cs) roots)"
    using cp_gc_exact[OF assms] by blast
  have dom: "set cs \<subseteq> dom ?m" using cs(2) assms(2) by (auto simp: no_dangling_def)
  let ?f = "place ?m ?c cs" and ?h = "YogCopying_post_gc (scanning ?m ?c ?fs cs [])"
  note p = post_gc_scanning[OF assms(1) cs(1) dom, of ?fs]
  have inj: "inj_on ?f (set cs)" by (rule place_inj[OF assms(1) dom])
  have moved: "mem ?h (?f x) = map_option (renamed ?f) (?m x)" if x: "x \<in> set cs" for x
  proof -
    obtain ob where "?m x = Some ob" using x dom by blast
    then show ?thesis unfolding p(1) map_of_place[OF inj x]
      by (simp add: scanned_object_def renamed_def Let_def)
  qed
  have L: "is_live h roots = set cs" using cs(2) by (simp add: is_live_def)
  show ?thesis
  proof (intro exI conjI)
    show "cp_gc fuel (h, roots) = Inr (?h, map (relocate ?m ?c cs) roots)" by (rule gc)
    show "inj_on ?f (is_live h roots)" "dom (mem ?h) = ?f ` is_live h roots" "set (map ?f cs) = ?f ` is_live h roots"
      using inj unfolding L p(1) map_of_dom_map by simp_all
    show "{x. mem ?h (?f x) \<noteq> map_option (renamed ?f) (?m x)} \<inter> is_live h roots = {}"
      using moved unfolding L by blast
    show "finalized ?h = finalized h @ filter (\<lambda>x. x \<notin> is_live h roots \<and> o_finalizer (the (?m x))) xs"
      using p(2) by (simp add: is_live_def)
    show "heap_ok (mem ?h) (cp ?h) (map ?f cs)" by (rule cp_gc_heap_ok[OF assms(1) cs(1) dom])
  qed
qed

text \<open>C1: In a VM with one thread, and so with one heap, a collection of the copying collector ends, never
  leaves its spaces, and moves exactly the live objects: there is a renaming of their addresses, one to one, such that the heap afterwards holds
  each live object at its new address with its pointers renamed, and nothing else; the roots are
  renamed alike. The finalizers of the other objects are called, each once, in the order of their
  addresses. The heap is again a row of objects in the active space, ready for the next collection. (The heaps of several threads are all copied to the space of the main
  thread, which they may overrun: see \<open>copying_overruns_space\<close>.)
\<close>

theorem copying_moves_live:
  assumes "heap_ok (mem h) (cp h) xs" "no_dangling (mem h) (ptrs_of roots)" "length xs < fuel"
  shows "\<exists>h' f ys. cp_gc fuel (h, roots) = Inr (h', map (map_yval f) roots)
    \<and> inj_on f (is_live h roots) \<and> dom (mem h') = f ` is_live h roots
    \<and> {x. mem h' (f x) \<noteq> map_option (renamed f) (mem h x)} \<inter> is_live h roots = {}
    \<and> finalized h' = finalized h @ filter (\<lambda>x. x \<notin> is_live h roots \<and> o_finalizer (the (mem h x))) xs
    \<and> heap_ok (mem h') (cp h') ys \<and> set ys = f ` is_live h roots"
  by (rule cp_gc_moves_live[OF assms])

definition sample_cell :: "addr yval list \<Rightarrow> cp_object" where
  "sample_cell vs = \<lparr>o_keeper = True, o_finalizer = True, o_slots = vs, o_data = [], forwarding_addr = 0,
     cp_size = sizeof_copy_header + 8 * length vs\<rparr>"

text \<open>Three objects, of which the second and the third refer to each other and the first is garbage.\<close>

definition sample_space :: cp_memory where
  "sample_space = \<lparr>mem = [132 \<mapsto> sample_cell [YNil], 172 \<mapsto> sample_cell [YPtr 212], 212 \<mapsto> sample_cell [YPtr 172]],
     finalized = [], cp = \<lparr>space_size = 200, from_space = \<lparr>items = 100, free = 220\<rparr>,
       to_space = \<lparr>items = 1000, free = 1000\<rparr>, scanned = 0, unscanned = 0\<rparr>\<rparr>"

lemma sample_space_ok: "heap_ok (mem sample_space) (cp sample_space) [132, 172, 212]"
  by (auto simp: heap_ok_def sample_space_def sample_cell_def sizeof_copy_header_def spaces_ok_def ran_def)

lemma sample_space_live: "live (mem sample_space) {172} = {172, 212}"
proof
  show "live (mem sample_space) {172} \<subseteq> {172, 212}"
    by (rule live_least) (auto simp: succs_def sample_space_def sample_cell_def)
  have "212 \<in> live (mem sample_space) {172}"
    by (rule live_succ[OF live_root]) (auto simp: succs_def sample_space_def sample_cell_def)
  then show "{172, 212} \<subseteq> live (mem sample_space) {172}" by (auto intro: live_root)
qed

theorem copying_moves_live_witness:
  "\<exists>h' f ys. cp_gc 4 (sample_space, [YPtr 172]) = Inr (h', map (map_yval f) [YPtr 172])
    \<and> inj_on f (is_live sample_space [YPtr 172]) \<and> dom (mem h') = f ` is_live sample_space [YPtr 172]
    \<and> {x. mem h' (f x) \<noteq> map_option (renamed f) (mem sample_space x)} \<inter> is_live sample_space [YPtr 172] = {}
    \<and> finalized h' = finalized sample_space
        @ filter (\<lambda>x. x \<notin> is_live sample_space [YPtr 172] \<and> o_finalizer (the (mem sample_space x))) [132, 172, 212]
    \<and> heap_ok (mem h') (cp h') ys \<and> set ys = f ` is_live sample_space [YPtr 172]"
  by (rule copying_moves_live[OF sample_space_ok])
    (simp add: no_dangling_def sample_space_live, simp add: sample_space_def, simp)

section \<open>Allocation\<close>

definition live_bytes :: "cp_memory \<Rightarrow> addr yval list \<Rightarrow> nat" where
  "live_bytes h roots = sum (\<lambda>x. cp_size (the (mem h x))) (is_live h roots)"

lemma map_yval_YPtr: "YPtr p = map_yval f v \<longleftrightarrow> (\<exists>q. v = YPtr q \<and> p = f q)"
  by (cases v) auto

lemma ptrs_of_map: "ptrs_of (map (map_yval f) vs) = f ` ptrs_of vs"
  by (auto simp: ptrs_of_def map_yval_YPtr image_iff)

lemma no_dangling_renamed:
  assumes live: "no_dangling m S" and inj: "dom m' = f ` live m S"
    and moved: "\<And>x. x \<in> live m S \<Longrightarrow> m' (f x) = map_option (renamed f) (m x)" and nz: "0 \<notin> dom m'"
  shows "no_dangling m' (f ` S)"
proof -
  have "live m' (f ` S) \<subseteq> f ` live m S"
  proof (rule live_least)
    show "f ` S \<subseteq> f ` live m S" by (auto intro: live_root)
    fix y assume "y \<in> f ` live m S"
    then obtain x where x: "x \<in> live m S" "y = f x" by blast
    then obtain ob where ob: "m x = Some ob" using live by (auto simp: no_dangling_def)
    then have "m' y = Some (renamed f ob)" using moved[OF x(1)] x(2) by simp
    then have "succs m' y \<subseteq> f ` succs m x" using ob
      by (auto simp: succs_def renamed_def ptrs_of_map)
    then show "succs m' y \<subseteq> f ` live m S" using live_succ[OF x(1)] by blast
  qed
  then show ?thesis using inj nz by (auto simp: no_dangling_def)
qed

lemma total_live: "distinct cs \<Longrightarrow> set cs = is_live h roots \<Longrightarrow> total (sizes_of (mem h)) cs = live_bytes h roots"
  by (simp add: live_bytes_def sum_list_distinct_conv_sum_set)

text \<open>What allocation needs of a collection.\<close>

lemma cp_gc_room:
  assumes ok: "heap_ok (mem h) (cp h) xs" and live: "no_dangling (mem h) (ptrs_of roots)" and fuel: "length xs < fuel"
  shows "\<exists>h' roots' ys. cp_gc fuel (h, roots) = Inr (h', roots') \<and> heap_ok (mem h') (cp h') ys
    \<and> no_dangling (mem h') (ptrs_of roots') \<and> live_bytes h roots \<le> space_size (cp h)
    \<and> rest_size (cp h') = space_size (cp h) - live_bytes h roots"
proof -
  obtain h' f ys where gc: "cp_gc fuel (h, roots) = Inr (h', map (map_yval f) roots)"
    and d: "dom (mem h') = f ` is_live h roots"
    and moved: "{x. mem h' (f x) \<noteq> map_option (renamed f) (mem h x)} \<inter> is_live h roots = {}"
    and ok': "heap_ok (mem h') (cp h') ys"
    using cp_gc_moves_live[OF assms] by (elim exE conjE) (rule that)
  have "no_dangling (mem h') (f ` ptrs_of roots)"
  proof (rule no_dangling_renamed[OF live])
    show "dom (mem h') = f ` live (mem h) (ptrs_of roots)" using d by (simp add: is_live_def)
    show "mem h' (f x) = map_option (renamed f) (mem h x)" if "x \<in> live (mem h) (ptrs_of roots)" for x
      using moved that by (auto simp: is_live_def)
    show "0 \<notin> dom (mem h')" using heap_okD(2)[OF ok'] by blast
  qed
  moreover have "live_bytes h roots \<le> space_size (cp h) \<and> rest_size (cp h') = space_size (cp h) - live_bytes h roots"
  proof -
    obtain cs where cs: "distinct cs" "set cs = live (mem h) (ptrs_of roots)"
      and g: "cp_gc fuel (h, roots) = Inr (YogCopying_post_gc (scanning (mem h) (cp h)
          (finalized h @ filter (\<lambda>x. x \<notin> live (mem h) (ptrs_of roots) \<and> o_finalizer (the (mem h x))) xs) cs []),
        map (relocate (mem h) (cp h) cs) roots)" using cp_gc_exact[OF assms] by blast
    have dom: "set cs \<subseteq> dom (mem h)" using cs(2) live by (auto simp: no_dangling_def)
    have t: "total (sizes_of (mem h)) cs = live_bytes h roots" using total_live cs by (simp add: is_live_def)
    obtain fs where h': "h' = YogCopying_post_gc (scanning (mem h) (cp h) fs cs [])"
      using trans[OF g[symmetric] gc] by (simp only: sum.inject prod.inject) blast
    show ?thesis using total_bound[OF ok cs(1) dom] post_gc_scanning(3,5)[OF ok cs(1) dom, of fs] t
      unfolding h' rest_size_def by simp
  qed
  ultimately show ?thesis using gc ok' by (auto simp: ptrs_of_map)
qed

lemma layout_snoc:
  assumes "layout m a xs b" "p = b + sizeof_copy_header" "sizeof_copy_header \<le> cp_size ob"
  shows "layout (m(p \<mapsto> ob)) a (xs @ [p]) (b + cp_size ob)"
  using assms(1)
proof (induction xs arbitrary: a)
  case (Cons x xs)
  from Cons.prems obtain o1 where o1: "x = a + sizeof_copy_header" "m x = Some o1"
    "sizeof_copy_header \<le> cp_size o1" "layout m (a + cp_size o1) xs b" by (rule layout_ConsE)
  have "x \<noteq> p" using layout_range[OF Cons.prems, of x] assms(2) by (simp add: sizeof_copy_header_def)
  then show ?case using Cons.IH[OF o1(4)] o1 by auto
qed (use assms in simp)

lemma place_object_ok:
  assumes ok: "heap_ok (mem h) (cp h) xs" and room: "r \<le> rest_size (cp h)" "sizeof_copy_header \<le> r"
    and live: "no_dangling (mem h) S" and po: "place_object keeper finalizer r n destroyed h = (h', p)"
  shows "heap_ok (mem h') (cp h') (xs @ [p])" "no_dangling (mem h') (insert p S)" "p \<notin> dom (mem h)" "p \<noteq> 0"
proof -
  note o = ok[unfolded heap_ok_def]
  let ?b = "free (from_space (cp h))"
  have p: "p = ?b + sizeof_copy_header" using po by (auto simp: place_object_def Let_def)
  then show p0: "p \<noteq> 0" by (simp add: sizeof_copy_header_def)
  define ob where "ob = \<lparr>o_keeper = keeper, o_finalizer = finalizer, o_slots = map (\<lambda>i. fill_value (destroyed i)) [0..<n],
    o_data = map (\<lambda>k. fill_byte (destroyed (k div 8))) [8 * n..<r - sizeof_copy_header], forwarding_addr = 0, cp_size = r\<rparr>"
  have h': "h' = (put_object p ob h)\<lparr>cp := (cp h)\<lparr>from_space := (from_space (cp h))\<lparr>free := ?b + r\<rparr>\<rparr>\<rparr>"
    using po p by (simp add: place_object_def Let_def ob_def)
  have ob: "mem h' = (mem h)(p \<mapsto> ob)" "cp_size ob = r" "forwarding_addr ob = 0" "ptrs_of (o_slots ob) = {}"
    and c: "cp h' = (cp h)\<lparr>from_space := (from_space (cp h))\<lparr>free := ?b + r\<rparr>\<rparr>"
    by (simp_all add: h' put_object_def) (auto simp: ob_def ptrs_of_def fill_value_def)
  show pn: "p \<notin> dom (mem h)"
    using layout_range[of "mem h" _ xs ?b p] o p by (auto simp: sizeof_copy_header_def)
  have f: "items (from_space (cp h)) \<le> ?b" using layout_total[of "mem h"] o by fastforce
  have "layout (mem h') (items (from_space (cp h))) (xs @ [p]) (?b + r)"
    using layout_snoc[of "mem h" _ xs ?b p ob] o p ob room(2) by simp
  moreover have "\<forall>ob\<in>ran (mem h'). forwarding_addr ob = 0" using o ob pn by (auto simp: ran_def)
  ultimately show "heap_ok (mem h') (cp h') (xs @ [p])" using o ob(1) c room f
    by (auto simp: heap_ok_def spaces_ok_def rest_size_def)
  have L: "live (mem h') (insert p S) \<subseteq> insert p (live (mem h) S)"
  proof (rule live_least)
    show "insert p S \<subseteq> insert p (live (mem h) S)" by (auto intro: live_root)
    fix x assume x: "x \<in> insert p (live (mem h) S)"
    show "succs (mem h') x \<subseteq> insert p (live (mem h) S)"
    proof (cases "x = p")
      case True
      then show ?thesis using ob by (simp add: succs_def)
    next
      case False
      then have "succs (mem h') x = succs (mem h) x" using ob(1) by (simp add: succs_def)
      then show ?thesis using x False live_succ by fastforce
    qed
  qed
  have "insert p (live (mem h) S) \<subseteq> dom (mem h') - {0}"
    using live ob(1) p0 by (auto simp: no_dangling_def)
  with L show "no_dangling (mem h') (insert p S)" unfolding no_dangling_def by (rule order_trans)
qed

lemma round_size_le: "n + 7 < 2 ^ 64 \<Longrightarrow> n \<le> round_size n"
  by (simp add: round_size_def size_wrap_def)

text \<open>C13: An allocation of an object of less than 2 to the power of 64, less 39, bytes (beyond, the size
  with the header wraps) returns NULL exactly when the room left in the active space does not suffice
  (or \<^verbatim>\<open>gc_stress\<close> forces a collection) and the live objects leave no room for the object either.
  Whatever it returns, the heap is well formed and neither the roots nor the new object dangle. This is
  said of a VM with one thread, whose heap is the only one (with more, see the last section).
\<close>

theorem copying_alloc_exact:
  assumes "heap_ok (mem h) (cp h) xs" "no_dangling (mem h) (ptrs_of roots)" "length xs < fuel"
    and size: "sz + sizeof_copy_header + 7 < 2 ^ 64"
  shows "\<exists>h' roots' p ys. YogCopying_alloc fuel gc_stress keeper finalizer sz n destroyed (h, roots) = Inr ((h', roots'), p)
    \<and> (p = 0) = ((gc_stress \<or> rest_size (cp h) < round_size (sz + sizeof_copy_header))
        \<and> space_size (cp h) < live_bytes h roots + round_size (sz + sizeof_copy_header))
    \<and> heap_ok (mem h') (cp h') ys \<and> no_dangling (mem h') (ptrs_of roots' \<union> ({p} - {0}))"
proof -
  let ?r = "round_size (sz + sizeof_copy_header)"
  have r: "sizeof_copy_header \<le> ?r" using round_size_le[OF size] by simp
  have w: "size_wrap (sz + sizeof_copy_header) = sz + sizeof_copy_header" "\<not> sz + sizeof_copy_header < sizeof_copy_header"
    "0 < sizeof_copy_header" "?r \<noteq> 0"
    using size r by (simp_all add: size_wrap_def sizeof_copy_header_def)
  note alloc = YogCopying_alloc_def w Let_def
  have placed: "\<exists>h1 p ys. place_object keeper finalizer ?r n destroyed h0 = (h1, p) \<and> p \<noteq> 0 \<and> heap_ok (mem h1) (cp h1) ys
      \<and> no_dangling (mem h1) (insert p (ptrs_of rs))"
    if h0: "heap_ok (mem h0) (cp h0) zs" "no_dangling (mem h0) (ptrs_of rs)" "?r \<le> rest_size (cp h0)" for h0 rs zs
    using place_object_ok[OF h0(1,3) r h0(2)] by (metis surj_pair)
  show ?thesis
  proof (cases "gc_stress \<or> rest_size (cp h) < ?r")
    case False
    then obtain h1 p ys where "place_object keeper finalizer ?r n destroyed h = (h1, p)" "p \<noteq> 0"
      "heap_ok (mem h1) (cp h1) ys" "no_dangling (mem h1) (insert p (ptrs_of roots))"
      using placed[OF assms(1,2)] by auto
    then show ?thesis using False
      by (intro exI[of _ h1] exI[of _ roots] exI[of _ p] exI[of _ ys]) (simp add: alloc)
  next
    case True
    note force = True
    obtain h1 roots1 ys where gc: "cp_gc fuel (h, roots) = Inr (h1, roots1)" and ok1: "heap_ok (mem h1) (cp h1) ys"
      and live1: "no_dangling (mem h1) (ptrs_of roots1)" and le: "live_bytes h roots \<le> space_size (cp h)"
      and rest: "rest_size (cp h1) = space_size (cp h) - live_bytes h roots"
      using cp_gc_room[OF assms(1-3)] by (elim exE conjE) (rule that)
    show ?thesis
    proof (cases "\<not> gc_stress \<and> space_size (cp h) < ?r")
      case True
      then show ?thesis using force assms(1,2)
        by (intro exI[of _ h] exI[of _ roots] exI[of _ 0] exI[of _ xs]) (auto simp: alloc)
    next
      case attempt: False
      show ?thesis
      proof (cases "rest_size (cp h1) < ?r")
        case True
        then have "YogCopying_alloc fuel gc_stress keeper finalizer sz n destroyed (h, roots) = Inr ((h1, roots1), 0)"
          using force attempt gc by (auto simp: alloc)
        moreover have "space_size (cp h) < live_bytes h roots + ?r" using True rest le by linarith
        ultimately show ?thesis using force ok1 live1 by auto
      next
        case False
        then obtain h2 p zs where pl: "place_object keeper finalizer ?r n destroyed h1 = (h2, p)" "p \<noteq> 0"
          "heap_ok (mem h2) (cp h2) zs" "no_dangling (mem h2) (insert p (ptrs_of roots1))"
          using placed[OF ok1 live1] by auto
        have "YogCopying_alloc fuel gc_stress keeper finalizer sz n destroyed (h, roots) = Inr ((h2, roots1), p)"
          using force attempt gc False pl(1) by (auto simp: alloc)
        moreover have "\<not> space_size (cp h) < live_bytes h roots + ?r" using False rest le by linarith
        ultimately show ?thesis using pl by auto
      qed
    qed
  qed
qed

text \<open>In the sample, 80 of 200 bytes are free and 80 are live: an object of 56 bytes fits only after a
  collection.\<close>

theorem copying_alloc_exact_witness:
  "\<exists>h' roots' p ys. YogCopying_alloc 4 False True False 56 7 (\<lambda>i. False) (sample_space, [YPtr 172]) = Inr ((h', roots'), p)
    \<and> (p = 0) = ((False \<or> rest_size (cp sample_space) < round_size (56 + sizeof_copy_header))
        \<and> space_size (cp sample_space) < live_bytes sample_space [YPtr 172] + round_size (56 + sizeof_copy_header))
    \<and> heap_ok (mem h') (cp h') ys \<and> no_dangling (mem h') (ptrs_of roots' \<union> ({p} - {0}))"
  by (rule copying_alloc_exact[OF sample_space_ok])
    (simp add: no_dangling_def sample_space_live, simp add: sample_space_def, simp, simp add: sizeof_copy_header_def)

text \<open>A size for which the sum wraps: 16 bytes less than 2 to the power of 64 need 16 bytes in the
  arithmetic of the code, which are found at once in the sample, and the header alone overruns them.\<close>

lemma copying_alloc_wraps:
  "YogCopying_alloc fuel False True False (2 ^ 64 - 16) n destroyed (sample_space, roots) = Inl MemFault"
  by (simp add: YogCopying_alloc_def Let_def size_wrap_def round_size_def sizeof_copy_header_def sample_space_def
      rest_size_def)

section \<open>Heaps of other threads\<close>

text \<open>With several threads, the roots are copied to the space of the main thread whatever heap they
  come from, and nothing checks that they fit: here an object of 80 bytes of the heap of the main
  thread and one of another heap go to a space of 100 bytes, and the second is written over its end.\<close>

definition crowded_space :: cp_memory where
  "crowded_space = \<lparr>mem = [132 \<mapsto> sample_cell (replicate 6 YNil), 2032 \<mapsto> sample_cell (replicate 6 YNil)],
     finalized = [], cp = \<lparr>space_size = 100, from_space = \<lparr>items = 100, free = 180\<rparr>,
       to_space = \<lparr>items = 1000, free = 1000\<rparr>, scanned = 0, unscanned = 0\<rparr>\<rparr>"

lemma copying_overruns_space:
  "YogCopying_keep_root [YPtr 132, YPtr 2032] (YogCopying_prepare crowded_space) = Inl MemFault"
  by (simp add: YogCopying_keep_root_def YogGC_keep_def YogCopying_copy_def YogCopying_prepare_def Let_def
      crowded_space_def sample_cell_def sizeof_copy_header_def set_scanned_def set_unscanned_def
      load_object_def put_object_def)

end
