(* ===== verification/YogSuspend.thy ===== *)
theory YogSuspend
  imports YogPrelude
begin

text \<open>
  How the threads of a VM stop for a collection: \<^verbatim>\<open>perform\<close>, \<^verbatim>\<open>YogGC_suspend\<close>,
  \<^verbatim>\<open>YogGC_free_from_gc\<close> and \<^verbatim>\<open>YogGC_bind_to_gc\<close> of \<^verbatim>\<open>gc.c\<close>, and the registration of threads of
  \<^verbatim>\<open>vm.c\<close>. All of them take the global interpreter lock; a section that holds it is one step, up to
  the point where it sleeps on a condition variable. Only the collection itself, which holds the
  lock for its whole length, is a state of its own (\<open>Collecting\<close>). The unlocked test of \<^verbatim>\<open>YogGC_alloc\<close> is
  a step of its own, too. Condition variables wake up those that sleep, and may do so for no reason.
\<close>

section \<open>State\<close>

type_synonym tid = nat

text \<open>The calls that take the lock.\<close>

datatype gc_call = Alloc | Perform | FreeFromGc | BindToGc | AddThread tid | RemoveThread | VmWaitFinish

text \<open>Where a thread is. \<open>Created\<close>: its object is being run by another thread, \<open>Blocked\<close>: in a system
  call after \<^verbatim>\<open>YogGC_free_from_gc\<close>, \<open>Detached\<close>: removed from the VM. \<open>InWaitFinish c id asleep\<close>: in the loop of
  \<^verbatim>\<open>wait_gc_finish\<close> with its local \<^verbatim>\<open>id\<close>, called for \<open>c\<close>.\<close>

datatype thread_pc =
    NotStarted
  | Created
  | Mutating
  | Entering gc_call
  | InWaitFinish gc_call nat bool
  | WaitSuspend bool
  | Collecting
  | Blocked
  | Detached
  | WaitVmFinish bool
  | Finished

record gc_vm =
  running_gc :: bool
  waiting_suspend :: bool
  suspend_counter :: nat
  gc_id :: nat
  running_threads :: "tid list"
  gc_bound :: "tid \<Rightarrow> bool"
  pc :: "tid \<Rightarrow> thread_pc"

definition set_pc :: "tid \<Rightarrow> thread_pc \<Rightarrow> gc_vm \<Rightarrow> gc_vm" where
  "set_pc t k s = s\<lparr>pc := (pc s)(t := k)\<rparr>"

section \<open>Critical sections\<close>

fun wake_collector :: "thread_pc \<Rightarrow> thread_pc" where
  "wake_collector (WaitSuspend asleep) = WaitSuspend False"
| "wake_collector k = k"

fun wake_suspended :: "thread_pc \<Rightarrow> thread_pc" where
  "wake_suspended (InWaitFinish c i asleep) = InWaitFinish c i False"
| "wake_suspended k = k"

fun wake_vm :: "thread_pc \<Rightarrow> thread_pc" where
  "wake_vm (WaitVmFinish asleep) = WaitVmFinish False"
| "wake_vm k = k"

definition decrement_suspend_counter :: "gc_vm \<Rightarrow> gc_vm" where
  "decrement_suspend_counter s =
     (let n = (if suspend_counter s = 0 then UNSIGNED_MAX else suspend_counter s - 1);
          s' = s\<lparr>suspend_counter := n\<rparr>
      in if n = 0 then s'\<lparr>pc := wake_collector \<circ> pc s'\<rparr> else s')"

definition count_running_threads :: "gc_vm \<Rightarrow> nat" where
  "count_running_threads s = length (filter (gc_bound s) (running_threads s))"

text \<open>What a call does once no collection is waited for. \<^verbatim>\<open>vm_finish_cond\<close> is signalled when the
  last thread goes.\<close>

fun finish_call :: "gc_call \<Rightarrow> tid \<Rightarrow> gc_vm \<Rightarrow> gc_vm" where
  "finish_call Alloc t s = set_pc t Mutating s"
| "finish_call Perform t s = set_pc t Mutating s"
| "finish_call FreeFromGc t s = set_pc t Blocked (s\<lparr>gc_bound := (gc_bound s)(t := False)\<rparr>)"
| "finish_call BindToGc t s = set_pc t Mutating (s\<lparr>gc_bound := (gc_bound s)(t := True)\<rparr>)"
| "finish_call (AddThread u) t s = set_pc t Mutating (s\<lparr>running_threads := u # running_threads s\<rparr>)"
| "finish_call RemoveThread t s =
     (let s' = set_pc t Detached (s\<lparr>running_threads := remove1 t (running_threads s)\<rparr>)
      in if running_threads s' = [] then s'\<lparr>pc := wake_vm \<circ> pc s'\<rparr> else s')"
| "finish_call VmWaitFinish t s = set_pc t (if running_threads s = [] then Finished else WaitVmFinish True) s"

text \<open>The calls that test \<^verbatim>\<open>waiting_suspend\<close> again after they were suspended (\<^verbatim>\<open>while\<close>).\<close>

definition loops :: "gc_call \<Rightarrow> bool" where
  "loops c \<longleftrightarrow> c \<noteq> Alloc \<and> c \<noteq> Perform"

text \<open>\<^verbatim>\<open>YogGC_suspend\<close>, or \<^verbatim>\<open>wait_gc_finish\<close> alone for \<^verbatim>\<open>YogGC_bind_to_gc\<close>. If no collection runs
  a loop spins for ever with the lock held.\<close>

definition begin_wait :: "gc_call \<Rightarrow> tid \<Rightarrow> gc_vm \<Rightarrow> gc_vm res" where
  "begin_wait c t s =
     (let s' = (if c = BindToGc then s else decrement_suspend_counter s)
      in if running_gc s' then Inr (set_pc t (InWaitFinish c (gc_id s') True) s')
         else if loops c then Inl NoReturn
         else Inr (finish_call c t s'))"

definition after_wait :: "gc_call \<Rightarrow> tid \<Rightarrow> gc_vm \<Rightarrow> gc_vm res" where
  "after_wait c t s = (if loops c \<and> waiting_suspend s then begin_wait c t s else Inr (finish_call c t s))"

definition wait_gc_finish :: "gc_call \<Rightarrow> nat \<Rightarrow> tid \<Rightarrow> gc_vm \<Rightarrow> gc_vm res" where
  "wait_gc_finish c i t s =
     (if running_gc s \<and> gc_id s = i then Inr (set_pc t (InWaitFinish c i True) s) else after_wait c t s)"

definition end_perform :: "tid \<Rightarrow> gc_vm \<Rightarrow> gc_vm" where
  "end_perform t s =
     set_pc t Mutating (s\<lparr>running_gc := False, pc := wake_suspended \<circ> pc s, gc_id := uwrap (gc_id s + 1)\<rparr>)"

definition wait_suspend :: "tid \<Rightarrow> gc_vm \<Rightarrow> gc_vm" where
  "wait_suspend t s = set_pc t (if suspend_counter s \<noteq> 0 then WaitSuspend True else Collecting) s"

definition run_gc :: "tid \<Rightarrow> gc_vm \<Rightarrow> gc_vm" where
  "run_gc t s =
     (let threads_num = count_running_threads s
      in if 0 < threads_num
         then wait_suspend t (s\<lparr>suspend_counter := threads_num - 1, waiting_suspend := True\<rparr>)
         else end_perform t s)"

definition enter :: "gc_call \<Rightarrow> tid \<Rightarrow> gc_vm \<Rightarrow> gc_vm res" where
  "enter c t s =
     (case c of
        Alloc \<Rightarrow> begin_wait Alloc t s
      | Perform \<Rightarrow> if waiting_suspend s then begin_wait Perform t s
                   else Inr (run_gc t (s\<lparr>running_gc := True\<rparr>))
      | _ \<Rightarrow> after_wait c t s)"

definition end_gc :: "tid \<Rightarrow> gc_vm \<Rightarrow> gc_vm" where
  "end_gc t s = end_perform t (s\<lparr>waiting_suspend := False\<rparr>)"

section \<open>Steps\<close>

definition lock_free :: "gc_vm \<Rightarrow> bool" where
  "lock_free s \<longleftrightarrow> (\<forall>t. pc s t \<noteq> Collecting)"

text \<open>The steps of a VM whose threads make the calls in \<open>A\<close>. A thread object is run once (\<^verbatim>\<open>Thread#run\<close> does not check it).\<close>

inductive gc_step :: "gc_call set \<Rightarrow> gc_vm \<Rightarrow> gc_vm \<Rightarrow> bool" for A :: "gc_call set" where
  alloc_test: "pc s t = Mutating \<Longrightarrow> waiting_suspend s \<Longrightarrow> gc_step A s (set_pc t (Entering Alloc) s)"
| call: "pc s t = Mutating \<Longrightarrow> c \<in> A \<inter> {Perform, FreeFromGc, RemoveThread} \<Longrightarrow>
    gc_step A s (set_pc t (Entering c) s)"
| call_add: "pc s t = Mutating \<Longrightarrow> AddThread u \<in> A \<Longrightarrow> pc s u = NotStarted \<Longrightarrow>
    gc_step A s (set_pc u Created (set_pc t (Entering (AddThread u)) s))"
| call_bind: "pc s t = Blocked \<Longrightarrow> gc_step A s (set_pc t (Entering BindToGc) s)"
| call_wait: "pc s t = Detached \<Longrightarrow> VmWaitFinish \<in> A \<Longrightarrow> gc_step A s (set_pc t (Entering VmWaitFinish) s)"
| start: "pc s t = Created \<Longrightarrow> t \<in> set (running_threads s) \<Longrightarrow> gc_step A s (set_pc t Mutating s)"
| enter: "pc s t = Entering c \<Longrightarrow> lock_free s \<Longrightarrow> enter c t s = Inr s' \<Longrightarrow> gc_step A s s'"
| awake: "pc s t = InWaitFinish c i False \<Longrightarrow> lock_free s \<Longrightarrow> wait_gc_finish c i t s = Inr s' \<Longrightarrow> gc_step A s s'"
| awake_collector: "pc s t = WaitSuspend False \<Longrightarrow> lock_free s \<Longrightarrow> gc_step A s (wait_suspend t s)"
| collected: "pc s t = Collecting \<Longrightarrow> gc_step A s (end_gc t s)"
| awake_vm: "pc s t = WaitVmFinish False \<Longrightarrow> lock_free s \<Longrightarrow> gc_step A s (finish_call VmWaitFinish t s)"
| spurious: "pc s t = InWaitFinish c i True \<Longrightarrow> gc_step A s (set_pc t (InWaitFinish c i False) s)"
| spurious_collector: "pc s t = WaitSuspend True \<Longrightarrow> gc_step A s (set_pc t (WaitSuspend False) s)"

definition initial_vm :: "tid \<Rightarrow> gc_vm" where
  "initial_vm main = \<lparr>running_gc = False, waiting_suspend = False, suspend_counter = 0, gc_id = 0,
     running_threads = [main], gc_bound = (\<lambda>_. True), pc = (\<lambda>_. NotStarted)(main := Mutating)\<rparr>"

inductive gc_reach :: "gc_call set \<Rightarrow> gc_vm \<Rightarrow> bool" for A :: "gc_call set" where
  reach_init: "gc_reach A (initial_vm main)"
| reach_step: "gc_reach A s \<Longrightarrow> gc_step A s s' \<Longrightarrow> gc_reach A s'"

section \<open>Invariant\<close>

definition is_collector :: "thread_pc \<Rightarrow> bool" where
  "is_collector k \<longleftrightarrow> k = Collecting \<or> (\<exists>b. k = WaitSuspend b)"

definition is_suspended :: "nat \<Rightarrow> thread_pc \<Rightarrow> bool" where
  "is_suspended g k \<longleftrightarrow> (\<exists>c b. k = InWaitFinish c g b \<and> c \<noteq> BindToGc)"

definition is_adding :: "thread_pc \<Rightarrow> tid \<Rightarrow> bool" where
  "is_adding k u \<longleftrightarrow> k = Entering (AddThread u) \<or> (\<exists>i b. k = InWaitFinish (AddThread u) i b)"

text \<open>The threads that a collection waits for.\<close>

definition pending :: "gc_vm \<Rightarrow> tid set" where
  "pending s = {t \<in> set (running_threads s). gc_bound s t \<and> \<not> is_collector (pc s t) \<and> \<not> is_suspended (gc_id s) (pc s t)}"

definition in_call :: "gc_vm \<Rightarrow> tid \<Rightarrow> gc_call \<Rightarrow> bool" where
  "in_call s t c \<longleftrightarrow> t \<in> set (running_threads s) \<and> (gc_bound s t \<longleftrightarrow> c \<noteq> BindToGc) \<and> c \<noteq> VmWaitFinish"

fun pc_ok :: "gc_vm \<Rightarrow> tid \<Rightarrow> thread_pc \<Rightarrow> bool" where
  "pc_ok s t NotStarted \<longleftrightarrow> t \<notin> set (running_threads s) \<and> gc_bound s t"
| "pc_ok s t Created \<longleftrightarrow> gc_bound s t"
| "pc_ok s t Mutating \<longleftrightarrow> t \<in> set (running_threads s) \<and> gc_bound s t"
| "pc_ok s t (Entering c) \<longleftrightarrow> in_call s t c \<and> (c = Alloc \<longrightarrow> waiting_suspend s)"
| "pc_ok s t (InWaitFinish c i b) \<longleftrightarrow> in_call s t c \<and> i < 2 ^ 64 \<and> (b \<longrightarrow> waiting_suspend s \<and> i = gc_id s)
     \<and> (c \<noteq> BindToGc \<longrightarrow> (i = gc_id s \<and> waiting_suspend s) \<or> uwrap (i + 1) = gc_id s)"
| "pc_ok s t (WaitSuspend b) \<longleftrightarrow> in_call s t Perform \<and> waiting_suspend s \<and> (b \<longrightarrow> suspend_counter s \<noteq> 0)"
| "pc_ok s t Collecting \<longleftrightarrow> in_call s t Perform \<and> waiting_suspend s \<and> suspend_counter s = 0"
| "pc_ok s t Blocked \<longleftrightarrow> t \<in> set (running_threads s) \<and> \<not> gc_bound s t"
| "pc_ok s t Detached \<longleftrightarrow> t \<notin> set (running_threads s)"
| "pc_ok s t (WaitVmFinish b) \<longleftrightarrow> False"
| "pc_ok s t Finished \<longleftrightarrow> False"

definition inv :: "gc_vm \<Rightarrow> bool" where
  "inv s \<longleftrightarrow> distinct (running_threads s) \<and> gc_id s < 2 ^ 64 \<and> waiting_suspend s = running_gc s
     \<and> (\<forall>t. pc_ok s t (pc s t))
     \<and> (\<forall>t t'. is_collector (pc s t) \<longrightarrow> is_collector (pc s t') \<longrightarrow> t = t')
     \<and> (waiting_suspend s \<longrightarrow> (\<exists>t. is_collector (pc s t)) \<and> suspend_counter s = card (pending s))
     \<and> (\<forall>t t' u. is_adding (pc s t) u \<longrightarrow> is_adding (pc s t') u \<longrightarrow> t = t')
     \<and> (\<forall>t u. is_adding (pc s t) u \<longrightarrow> pc s u = Created \<and> u \<notin> set (running_threads s))"

lemma invI:
  assumes "distinct (running_threads s)" "gc_id s < 2 ^ 64" "waiting_suspend s = running_gc s"
    and "\<And>t. pc_ok s t (pc s t)"
    and "\<And>t t'. is_collector (pc s t) \<Longrightarrow> is_collector (pc s t') \<Longrightarrow> t = t'"
    and "waiting_suspend s \<Longrightarrow> \<exists>t. is_collector (pc s t)"
    and "waiting_suspend s \<Longrightarrow> suspend_counter s = card (pending s)"
    and "\<And>t t' u. is_adding (pc s t) u \<Longrightarrow> is_adding (pc s t') u \<Longrightarrow> t = t'"
    and "\<And>t u. is_adding (pc s t) u \<Longrightarrow> pc s u = Created \<and> u \<notin> set (running_threads s)"
  shows "inv s"
  unfolding inv_def by (intro conjI allI impI) (fact assms | rule assms; assumption | metis assms(9))+

lemma uwrap_Suc_neq: "i < 2 ^ 64 \<Longrightarrow> uwrap (i + 1) \<noteq> i"
  unfolding uwrap_def by (cases "i + 1 = 2 ^ 64") auto

text \<open>A change of the program counter of one thread that neither suspends nor collects.\<close>

definition neutral :: "gc_vm \<Rightarrow> thread_pc \<Rightarrow> bool" where
  "neutral s k \<longleftrightarrow> \<not> is_collector k \<and> \<not> is_suspended (gc_id s) k"

lemma set_pc_simps [simp]:
  "running_gc (set_pc t k s) = running_gc s" "waiting_suspend (set_pc t k s) = waiting_suspend s"
  "suspend_counter (set_pc t k s) = suspend_counter s" "gc_id (set_pc t k s) = gc_id s"
  "running_threads (set_pc t k s) = running_threads s" "gc_bound (set_pc t k s) = gc_bound s"
  "pc (set_pc t k s) = (pc s)(t := k)"
  by (simp_all add: set_pc_def)

lemma in_call_set_pc [simp]: "in_call (set_pc t k s) u c = in_call s u c"
  by (simp add: in_call_def)

lemma pc_ok_set_pc [simp]: "pc_ok (set_pc t k s) u x = pc_ok s u x"
  by (cases x) simp_all

lemma inv_move:
  assumes "inv s" "neutral s (pc s t)" "neutral s k" "pc_ok s t k" "pc s t = Created \<longrightarrow> t \<in> set (running_threads s)"
    and "\<And>u. is_adding k u \<Longrightarrow> is_adding (pc s t) u"
  shows "inv (set_pc t k s)"
proof -
  note i = assms(1)[unfolded inv_def]
  have p: "pending (set_pc t k s) = pending s"
    using assms(2,3) by (auto simp: pending_def neutral_def)
  have c: "is_collector (pc (set_pc t k s) u) = is_collector (pc s u)" for u
    using assms(2,3) by (auto simp: neutral_def)
  have a: "is_adding (pc s x) u" if "is_adding (pc (set_pc t k s) x) u" for x u
    using that assms(6) by (auto split: if_splits)
  have cr: "pc (set_pc t k s) u = Created \<and> u \<notin> set (running_threads (set_pc t k s))" if "is_adding (pc (set_pc t k s) x) u" for x u
    using i a[OF that] assms(5) by auto
  have "\<forall>t'. pc_ok (set_pc t k s) t' (pc (set_pc t k s) t')" using i assms(4) by simp
  moreover have "waiting_suspend s \<longrightarrow> (\<exists>t'. is_collector (pc (set_pc t k s) t'))
      \<and> suspend_counter (set_pc t k s) = card (pending (set_pc t k s))"
    using i unfolding p c by simp
  ultimately show ?thesis unfolding inv_def using i a cr c by (metis set_pc_simps(1-5))
qed

lemma finite_pending [simp]: "finite (pending s)"
  by (rule finite_subset[of _ "set (running_threads s)"]) (auto simp: pending_def)

lemma wake_collector_simps [simp]:
  "is_collector (wake_collector k) = is_collector k" "is_suspended g (wake_collector k) = is_suspended g k"
  "is_adding (wake_collector k) u = is_adding k u" "wake_collector k = Created \<longleftrightarrow> k = Created"
proof -
  show "is_collector (wake_collector k) = is_collector k" by (cases k) (auto simp: is_collector_def)
  show "is_suspended g (wake_collector k) = is_suspended g k" by (cases k) (auto simp: is_suspended_def)
  show "is_adding (wake_collector k) u = is_adding k u" by (cases k) (auto simp: is_adding_def)
  show "wake_collector k = Created \<longleftrightarrow> k = Created" by (cases k) auto
qed

lemma wake_suspended_simps [simp]:
  "is_collector (wake_suspended k) = is_collector k"
  "is_adding (wake_suspended k) u = is_adding k u" "wake_suspended k = Created \<longleftrightarrow> k = Created"
proof -
  show "is_collector (wake_suspended k) = is_collector k" by (cases k) (auto simp: is_collector_def)
  show "is_adding (wake_suspended k) u = is_adding k u" by (cases k) (auto simp: is_adding_def)
  show "wake_suspended k = Created \<longleftrightarrow> k = Created" by (cases k) auto
qed

lemma invD:
  assumes "inv s"
  shows "distinct (running_threads s)" "gc_id s < 2 ^ 64" "waiting_suspend s = running_gc s" "pc_ok s t (pc s t)"
    "is_collector (pc s t) \<Longrightarrow> is_collector (pc s t') \<Longrightarrow> t = t'"
    "waiting_suspend s \<Longrightarrow> \<exists>t. is_collector (pc s t)" "waiting_suspend s \<Longrightarrow> suspend_counter s = card (pending s)"
    "is_adding (pc s t) u \<Longrightarrow> is_adding (pc s t') u \<Longrightarrow> t = t'"
    "is_adding (pc s t) u \<Longrightarrow> pc s u = Created \<and> u \<notin> set (running_threads s)"
proof -
  note i = assms[unfolded inv_def]
  note i1 = i[THEN conjunct2] note i2 = i1[THEN conjunct2] note i3 = i2[THEN conjunct2]
  note i4 = i3[THEN conjunct2] note i5 = i4[THEN conjunct2] note i6 = i5[THEN conjunct2]
  note i7 = i6[THEN conjunct2]
  show "distinct (running_threads s)" by (rule i[THEN conjunct1])
  show "gc_id s < 2 ^ 64" by (rule i1[THEN conjunct1])
  show "waiting_suspend s = running_gc s" by (rule i2[THEN conjunct1])
  show "pc_ok s t (pc s t)" by (rule i3[THEN conjunct1, THEN spec])
  show "is_collector (pc s t) \<Longrightarrow> is_collector (pc s t') \<Longrightarrow> t = t'"
    by (rule i4[THEN conjunct1, THEN spec, THEN spec, THEN mp, THEN mp])
  show "waiting_suspend s \<Longrightarrow> \<exists>t. is_collector (pc s t)" by (rule i5[THEN conjunct1, THEN mp, THEN conjunct1])
  show "waiting_suspend s \<Longrightarrow> suspend_counter s = card (pending s)"
    by (rule i5[THEN conjunct1, THEN mp, THEN conjunct2])
  show "is_adding (pc s t) u \<Longrightarrow> is_adding (pc s t') u \<Longrightarrow> t = t'"
    by (rule i6[THEN conjunct1, THEN spec, THEN spec, THEN spec, THEN mp, THEN mp])
  show "is_adding (pc s t) u \<Longrightarrow> pc s u = Created \<and> u \<notin> set (running_threads s)"
    by (rule i7[THEN spec, THEN spec, THEN mp])
qed

text \<open>What a thread that is about to wait or to go on looks like.\<close>

definition ready :: "gc_vm \<Rightarrow> tid \<Rightarrow> gc_call \<Rightarrow> bool" where
  "ready s t c \<longleftrightarrow> (pc s t = Entering c \<or> (\<exists>i. pc s t = InWaitFinish c i False)) \<and> neutral s (pc s t)"

lemma ready_in_call: "inv s \<Longrightarrow> ready s t c \<Longrightarrow> in_call s t c"
  using invD(4)[of s t] by (auto simp: ready_def)

lemma awake_neutral:
  assumes "inv s" "pc s t = InWaitFinish c i False" "\<not> (running_gc s \<and> gc_id s = i)"
  shows "ready s t c"
proof -
  have "c \<noteq> BindToGc \<longrightarrow> i \<noteq> gc_id s"
    using invD(4)[OF assms(1), of t] assms(2,3) invD(3)[OF assms(1)] uwrap_Suc_neq[of i] by auto
  then show ?thesis using assms(2) by (auto simp: ready_def neutral_def is_collector_def is_suspended_def)
qed

lemma ready_adding: "ready s t c \<Longrightarrow> is_adding (InWaitFinish c i b) u = is_adding (pc s t) u"
  by (auto simp: ready_def is_adding_def)

lemma ready_not_created: "ready s t c \<Longrightarrow> pc s t \<noteq> Created"
  by (auto simp: ready_def)

lemma begin_wait_inv:
  assumes inv: "inv s" and r: "ready s t c" and w: "waiting_suspend s"
  shows "\<exists>s'. begin_wait c t s = Inr s' \<and> inv s'"
proof (cases "c = BindToGc")
  case True
  have "inv (set_pc t (InWaitFinish c (gc_id s) True) s)"
  proof (rule inv_move[OF inv])
    show "pc_ok s t (InWaitFinish c (gc_id s) True)"
      using True ready_in_call[OF inv r] w invD(2)[OF inv] by simp
  qed (use r ready_not_created[OF r] True in \<open>auto simp: ready_def neutral_def is_collector_def is_suspended_def is_adding_def\<close>)
  then show ?thesis using True invD(3)[OF inv] w by (simp add: begin_wait_def)
next
  case False
  let ?n = "card (pending s) - 1"
  have tp: "t \<in> pending s" using ready_in_call[OF inv r] False r by (auto simp: pending_def in_call_def ready_def neutral_def)
  then have pos: "0 < card (pending s)" "pending s \<noteq> {}" by (auto simp: card_gt_0_iff)
  have cnt: "suspend_counter s = card (pending s)" using invD(7)[OF inv w] .
  define f where "f = (if ?n = 0 then wake_collector else id)"
  have f: "is_collector (f k) = is_collector k" "is_suspended g (f k) = is_suspended g k"
    "is_adding (f k) u = is_adding k u" "f k = Created \<longleftrightarrow> k = Created" for k g u by (simp_all add: f_def)
  define s' where "s' = s\<lparr>suspend_counter := ?n, pc := (f \<circ> pc s)(t := InWaitFinish c (gc_id s) True)\<rparr>"
  have run: "begin_wait c t s = Inr s'"
    using False pos invD(3)[OF inv] w by (simp add: begin_wait_def decrement_suspend_counter_def cnt Let_def s'_def f_def set_pc_def)
  have ne: "\<not> is_collector (pc s t)" using tp by (simp add: pending_def)
  have co: "is_collector (pc s' u) = is_collector (pc s u)" for u
    using f ne by (auto simp: s'_def is_collector_def)
  have ad: "is_adding (pc s' x) u = is_adding (pc s x) u" for x u
    using f ready_adding[OF r] by (auto simp: s'_def)
  have "is_suspended (gc_id s) (InWaitFinish c (gc_id s) True)" using False by (auto simp: is_suspended_def)
  then have "pending s' = pending s - {t}"
    using f by (auto simp: pending_def s'_def split: if_splits)
  then have card: "card (pending s') = ?n" using tp by simp
  have cr: "pc s' u = Created" if "pc s u = Created" for u using that f ready_not_created[OF r] by (auto simp: s'_def)
  have ok: "pc_ok s' u (pc s' u)" for u
  proof (cases "u = t")
    case True
    then show ?thesis using ready_in_call[OF inv r] w invD(2)[OF inv] by (simp add: s'_def in_call_def)
  next
    case ne: False
    have "pc_ok s u (pc s u)" using invD(4)[OF inv] .
    then show ?thesis using ne pos cnt by (cases "pc s u") (auto simp: s'_def f_def in_call_def)
  qed
  have "inv s'" unfolding inv_def
  proof (intro conjI)
    show "waiting_suspend s' \<longrightarrow> (\<exists>t. is_collector (pc s' t)) \<and> suspend_counter s' = card (pending s')"
      using invD(6)[OF inv w] card by (simp add: co) (simp add: s'_def)
    show "\<forall>t u. is_adding (pc s' t) u \<longrightarrow> pc s' u = Created \<and> u \<notin> set (running_threads s')"
      using invD(9)[OF inv] cr unfolding ad by (auto simp: s'_def)
    show "\<forall>t t' u. is_adding (pc s' t) u \<longrightarrow> is_adding (pc s' t') u \<longrightarrow> t = t'" unfolding ad using invD(8)[OF inv] by blast
    show "\<forall>t t'. is_collector (pc s' t) \<longrightarrow> is_collector (pc s' t') \<longrightarrow> t = t'" unfolding co using invD(5)[OF inv] by blast
    show "\<forall>t. pc_ok s' t (pc s' t)" using ok by blast
  qed (use invD(1-3)[OF inv] in \<open>simp_all add: s'_def\<close>)
  then show ?thesis using run by blast
qed

lemma collector_waits: "pc_ok s t k \<Longrightarrow> is_collector k \<Longrightarrow> waiting_suspend s"
  by (auto simp: is_collector_def)

lemma inv_idleI:
  assumes "distinct (running_threads s)" "gc_id s < 2 ^ 64" "\<not> waiting_suspend s" "\<not> running_gc s"
    and ok: "\<And>t. pc_ok s t (pc s t)"
    and a: "\<And>t t' u. is_adding (pc s t) u \<Longrightarrow> is_adding (pc s t') u \<Longrightarrow> t = t'"
    and b: "\<And>t u. is_adding (pc s t) u \<Longrightarrow> pc s u = Created \<and> u \<notin> set (running_threads s)"
  shows "inv s"
  unfolding inv_def
proof (intro conjI allI impI)
  show "is_collector (pc s t) \<Longrightarrow> is_collector (pc s t') \<Longrightarrow> t = t'" for t t'
    using collector_waits[OF ok] assms(3) by blast
  show "pc_ok s t (pc s t)" for t by (rule ok)
  show "is_adding (pc s t) u \<Longrightarrow> is_adding (pc s t') u \<Longrightarrow> t = t'" for t t' u by (rule a)
  show "is_adding (pc s t) u \<Longrightarrow> pc s u = Created" "is_adding (pc s t) u \<Longrightarrow> u \<notin> set (running_threads s)" for t u
    using b by blast+
qed (use assms(1-4) in simp_all)

lemma is_adding_simps [simp]:
  "\<not> is_adding Mutating u" "\<not> is_adding Blocked u" "\<not> is_adding Detached u" "\<not> is_adding Created u"
  "is_adding (Entering c) u \<longleftrightarrow> c = AddThread u" "is_adding (InWaitFinish c i b) u \<longleftrightarrow> c = AddThread u"
  "\<not> is_adding (WaitSuspend b) u" "\<not> is_adding Collecting u" "\<not> is_adding NotStarted u"
  by (auto simp: is_adding_def)

lemma neutral_simps [simp]:
  "neutral s Mutating" "neutral s Blocked" "neutral s (Entering c)" "neutral s Created" "neutral s Detached"
  by (simp_all add: neutral_def is_collector_def is_suspended_def)

lemma wake_vm_same:
  assumes "inv s" shows "wake_vm (pc s u) = pc s u"
  using invD(4)[OF assms, of u] by (cases "pc s u") auto

lemma finish_call_inv:
  assumes inv: "inv s" and r: "ready s t c" and w: "\<not> (loops c \<and> waiting_suspend s)"
  shows "inv (finish_call c t s)"
proof -
  note ic = ready_in_call[OF inv r, unfolded in_call_def]
  note i = invD[OF inv]
  show ?thesis
  proof (cases "loops c")
    case False
    then have "finish_call c t s = set_pc t Mutating s" "c \<noteq> BindToGc" by (auto simp: loops_def)
    then show ?thesis using inv_move[OF inv, of t Mutating] r ic ready_not_created[OF r]
      by (auto simp: ready_def)
  next
    case True
    then have nw: "\<not> waiting_suspend s" "\<not> running_gc s" using w i(3) by simp_all
    have pt: "\<not> is_adding (pc s t) u" if "\<forall>u. c \<noteq> AddThread u" for u
      using r that by (auto simp: ready_def)
    show ?thesis
    proof (cases c)
      case FreeFromGc
      show ?thesis
      proof (rule inv_idleI)
        show "pc_ok (finish_call c t s) x (pc (finish_call c t s) x)" for x
          using i(4)[of x] ic FreeFromGc by (cases "x = t"; cases "pc s x") (auto simp: in_call_def)
      qed (use FreeFromGc i nw ready_not_created[OF r] in \<open>auto split: if_splits\<close>)
    next
      case BindToGc
      show ?thesis
      proof (rule inv_idleI)
        show "pc_ok (finish_call c t s) x (pc (finish_call c t s) x)" for x
          using i(4)[of x] ic BindToGc by (cases "x = t"; cases "pc s x") (auto simp: in_call_def)
      qed (use BindToGc i nw ready_not_created[OF r] in \<open>auto split: if_splits\<close>)
    next
      case (AddThread v)
      have at: "is_adding (pc s t) v" using r AddThread by (auto simp: ready_def)
      have v: "pc s v = Created" "v \<notin> set (running_threads s)" using i(9)[OF at] by simp_all
      have "v \<noteq> t" using v(1) ready_not_created[OF r] by auto
      have uniq: "is_adding (pc s x) v \<Longrightarrow> x = t" for x using i(8)[OF _ at] by blast
      show ?thesis
      proof (rule inv_idleI)
        show "pc_ok (finish_call c t s) x (pc (finish_call c t s) x)" for x
          using i(4)[of x] ic v AddThread by (cases "x = t"; cases "pc s x") (auto simp: in_call_def)
        show "pc (finish_call c t s) u = Created \<and> u \<notin> set (running_threads (finish_call c t s))"
          if "is_adding (pc (finish_call c t s) x) u" for x u
          using that i(9)[of x u] uniq[of x] AddThread ready_not_created[OF r] by (auto split: if_splits)
      qed (use AddThread i nw v in \<open>auto split: if_splits\<close>)
    next
      case RemoveThread
      define s' where "s' = set_pc t Detached (s\<lparr>running_threads := remove1 t (running_threads s)\<rparr>)"
      have "wake_vm (pc s' u) = pc s' u" for u using wake_vm_same[OF inv] by (simp add: s'_def)
      then have e: "finish_call c t s = s'" using RemoveThread by (simp add: s'_def[symmetric] comp_def Let_def)
      have rs: "set (running_threads s') = set (running_threads s) - {t}" using i(1) by (simp add: s'_def)
      show ?thesis unfolding e
      proof (rule inv_idleI)
        show "pc_ok s' x (pc s' x)" for x
          using i(4)[of x] nw rs by (cases "x = t"; cases "pc s x") (auto simp: in_call_def s'_def)
        show "pc s' u = Created \<and> u \<notin> set (running_threads s')" if "is_adding (pc s' x) u" for x u
          using that i(9)[of x u] rs ready_not_created[OF r] by (auto simp: s'_def split: if_splits)
      qed (use i nw in \<open>auto simp: s'_def split: if_splits\<close>)
    next
      case VmWaitFinish
      then show ?thesis using ic by simp
    qed (use True in \<open>simp_all add: loops_def\<close>)
  qed
qed

lemma after_wait_inv:
  assumes "inv s" "ready s t c" shows "\<exists>s'. after_wait c t s = Inr s' \<and> inv s'"
  using begin_wait_inv[OF assms] finish_call_inv[OF assms] by (auto simp: after_wait_def)

lemma wait_gc_finish_inv:
  assumes inv: "inv s" and p: "pc s t = InWaitFinish c i False"
  shows "\<exists>s'. wait_gc_finish c i t s = Inr s' \<and> inv s'"
proof (cases "running_gc s \<and> gc_id s = i")
  case False
  then show ?thesis using after_wait_inv[OF inv awake_neutral[OF inv p False]]
    by (auto simp: wait_gc_finish_def)
next
  case True
  let ?s = "set_pc t (InWaitFinish c i True) s"
  note iv = invD[OF inv]
  have k: "is_collector (pc ?s u) = is_collector (pc s u)" "is_adding (pc ?s u) v = is_adding (pc s u) v"
    "is_suspended g (pc ?s u) = is_suspended g (pc s u)" "pc ?s u = Created \<longleftrightarrow> pc s u = Created" for u v g
    using p by (auto simp: is_collector_def is_suspended_def)
  have "pending ?s = pending s" unfolding pending_def k using k(3) by simp
  moreover have "pc_ok ?s u (pc ?s u)" for u using iv(4)[of u] iv(3) p True by auto
  ultimately have "inv ?s" unfolding inv_def k using inv[unfolded inv_def] by simp
  then show ?thesis using True by (simp add: wait_gc_finish_def)
qed

lemma idle_no_suspended:
  assumes "inv s" "\<not> waiting_suspend s"
  shows "\<not> is_suspended (gc_id s) (pc s u)" "\<not> is_collector (pc s u)"
proof -
  show "\<not> is_collector (pc s u)" using collector_waits[OF invD(4)[OF assms(1)]] assms(2) by blast
  show "\<not> is_suspended (gc_id s) (pc s u)"
    using invD(4)[OF assms(1), of u] assms(2) uwrap_Suc_neq[OF invD(2)[OF assms(1)]] by (auto simp: is_suspended_def)
qed

lemma run_gc_inv:
  assumes inv: "inv s" and p: "pc s t = Entering Perform" and w: "\<not> waiting_suspend s"
  shows "inv (run_gc t (s\<lparr>running_gc := True\<rparr>))"
proof -
  note iv = invD[OF inv]
  note nc = idle_no_suspended[OF inv w]
  have tr: "t \<in> set (running_threads s)" "gc_bound s t" using iv(4)[of t] p by (simp_all add: in_call_def)
  let ?B = "{u \<in> set (running_threads s). gc_bound s u}"
  have cnt: "count_running_threads (s\<lparr>running_gc := True\<rparr>) = card ?B"
    using iv(1) by (simp add: count_running_threads_def distinct_card [symmetric])
  have fin: "finite ?B" by simp
  have pos: "0 < card ?B" using tr fin by (auto simp: card_gt_0_iff)
  define k where "k = (if card ?B - 1 \<noteq> 0 then WaitSuspend True else Collecting)"
  define s' where "s' = s\<lparr>running_gc := True, suspend_counter := card ?B - 1, waiting_suspend := True, pc := (pc s)(t := k)\<rparr>"
  have run: "run_gc t (s\<lparr>running_gc := True\<rparr>) = s'"
    using pos by (simp add: run_gc_def cnt Let_def wait_suspend_def s'_def k_def set_pc_def)
  have kc: "is_collector k" "\<not> is_adding k u" "k \<noteq> Created" for u by (auto simp: k_def is_collector_def)
  have co: "is_collector (pc s' u) \<longleftrightarrow> u = t" for u using nc kc by (simp add: s'_def)
  have ad: "is_adding (pc s' x) u = is_adding (pc s x) u" for x u using kc p by (simp add: s'_def)
  have "pending s' = ?B - {t}" using nc kc by (auto simp: pending_def s'_def)
  then have "card (pending s') = card ?B - 1" using tr fin by simp
  moreover have "pc_ok s' u (pc s' u)" for u
    using iv(4)[of u] w tr by (cases "pc s u"; cases "u = t") (auto simp: s'_def k_def in_call_def)
  moreover have "pc s' u = Created" if "pc s u = Created" for u using that p by (auto simp: s'_def)
  ultimately have "inv s'" unfolding inv_def co ad
    using iv(1,2,8,9) by (auto simp: s'_def)
  then show ?thesis unfolding run .
qed

lemma enter_inv:
  assumes inv: "inv s" and p: "pc s t = Entering c"
  shows "\<exists>s'. enter c t s = Inr s' \<and> inv s'"
proof -
  have r: "ready s t c" using p by (simp add: ready_def)
  have w: "c = Alloc \<Longrightarrow> waiting_suspend s" using invD(4)[OF inv, of t] p by simp
  show ?thesis
    using begin_wait_inv[OF inv r] after_wait_inv[OF inv r] run_gc_inv[OF inv, of t] w p
    by (cases c) (auto simp: enter_def)
qed

lemma end_gc_inv:
  assumes inv: "inv s" and p: "pc s t = Collecting"
  shows "inv (end_gc t s)"
proof -
  note iv = invD[OF inv]
  have t: "in_call s t Perform" "waiting_suspend s" "suspend_counter s = 0" using iv(4)[of t] p by simp_all
  then have none: "pending s = {}" using iv(7) by simp
  have only: "is_collector (pc s u) \<longleftrightarrow> u = t" for u using iv(5)[of u t] p by (auto simp: is_collector_def)
  let ?s = "end_gc t s"
  have e: "pc ?s u = (if u = t then Mutating else wake_suspended (pc s u))" "gc_id ?s = uwrap (gc_id s + 1)"
    "\<not> waiting_suspend ?s" "\<not> running_gc ?s" "running_threads ?s = running_threads s" "gc_bound ?s = gc_bound s" for u
    by (simp_all add: end_gc_def end_perform_def)
  have sus: "is_suspended (gc_id s) (pc s u)" if "u \<in> set (running_threads s)" "gc_bound s u" "u \<noteq> t" for u
    using none that only[of u] by (auto simp: pending_def)
  show ?thesis
  proof (rule inv_idleI)
    show "pc_ok ?s u (pc ?s u)" for u
    proof (cases "u = t")
      case True
      then show ?thesis using t e by (simp add: in_call_def)
    next
      case False
      show ?thesis
      proof (cases "pc s u")
        case (InWaitFinish c i b)
        have "c \<noteq> BindToGc \<Longrightarrow> i = gc_id s"
          using iv(4)[of u] InWaitFinish sus[of u] False by (auto simp: in_call_def is_suspended_def)
        then show ?thesis using False InWaitFinish iv(4)[of u] by (auto simp: e in_call_def)
      qed (use iv(4)[of u] False sus[of u] only[of u] in \<open>auto simp: e in_call_def is_suspended_def is_collector_def\<close>)
    qed
    show "pc ?s u = Created \<and> u \<notin> set (running_threads ?s)" if "is_adding (pc ?s x) u" for x u
      using that iv(9)[of x u] p by (auto simp: e split: if_splits)
    show "x = y" if "is_adding (pc ?s x) u" "is_adding (pc ?s y) u" for x y u
      using that iv(8)[of x u y] by (auto simp: e split: if_splits)
    show "gc_id ?s < 2 ^ 64" unfolding e by (rule uwrap_less)
  qed (use iv(1) in \<open>auto simp: e\<close>)
qed

lemma add_call_inv:
  assumes inv: "inv s" and p: "pc s t = Mutating" and u: "pc s u = NotStarted"
  shows "inv (set_pc u Created (set_pc t (Entering (AddThread u)) s))"
proof -
  note iv = invD[OF inv]
  have ut: "u \<noteq> t" using p u by auto
  let ?s = "set_pc u Created (set_pc t (Entering (AddThread u)) s)"
  have ok: "pc_ok ?s x (pc ?s x)" for x using iv(4)[of x] iv(4)[of t] iv(4)[of u] p u ut by (auto simp: in_call_def)
  have fresh: "\<not> is_adding (pc s x) u" for x using iv(9)[of x u] u by auto
  have co: "is_collector (pc ?s x) = is_collector (pc s x)" for x using p u by (auto simp: is_collector_def)
  have su: "is_suspended g (pc ?s x) = is_suspended g (pc s x)" for g x using p u by (auto simp: is_suspended_def)
  have ad: "is_adding (pc ?s x) v \<longleftrightarrow> (if x = t then v = u else is_adding (pc s x) v)" for x v
    using p u ut by auto
  have pend: "pending ?s = pending s" unfolding pending_def co using su by simp
  have au: "x = y" if "is_adding (pc ?s x) v" "is_adding (pc ?s y) v" for x y v
    using that fresh iv(8)[of x v y] unfolding ad by (auto split: if_splits)
  have ac: "pc ?s v = Created \<and> v \<notin> set (running_threads ?s)" if "is_adding (pc ?s x) v" for x v
  proof (cases "x = t")
    case True
    then show ?thesis using that iv(4)[of u] u unfolding ad by auto
  next
    case False
    then have "is_adding (pc s x) v" using that unfolding ad by simp
    then show ?thesis using iv(9)[of x v] p by auto
  qed
  show ?thesis
  proof (rule invI)
    show "is_collector (pc ?s x) \<Longrightarrow> is_collector (pc ?s y) \<Longrightarrow> x = y" for x y unfolding co by (rule iv(5))
    show "waiting_suspend ?s \<Longrightarrow> \<exists>x. is_collector (pc ?s x)" unfolding co using iv(6) by simp
    show "waiting_suspend ?s \<Longrightarrow> suspend_counter ?s = card (pending ?s)" unfolding pend using iv(7) by simp
  qed (fact ok au ac | use iv(1-3) in simp)+
qed

lemma collector_move:
  assumes inv: "inv s" and p: "is_collector (pc s t)" and k: "is_collector k" "pc_ok s t k"
  shows "inv (set_pc t k s)"
proof -
  note iv = invD[OF inv]
  let ?s = "set_pc t k s"
  have co: "is_collector (pc ?s x) = is_collector (pc s x)" for x using p k by auto
  have na: "\<not> is_adding x u" if "is_collector x" for x u using that by (auto simp: is_collector_def)
  have ad: "is_adding (pc ?s x) u = is_adding (pc s x) u" for x u using na[OF p] na[OF k(1)] by auto
  have "pending ?s = pending s" using p k(1) by (auto simp: pending_def)
  moreover have "pc ?s v = Created" if "pc s v = Created" for v using that p by (auto simp: is_collector_def)
  moreover have "\<forall>x. pc_ok ?s x (pc ?s x)" using iv(4) k(2) by simp
  ultimately show ?thesis unfolding inv_def co ad using iv(1-3,5-9) by (metis set_pc_simps(1-5))
qed

lemma gc_step_inv:
  assumes "gc_step A s s'" "inv s" "VmWaitFinish \<notin> A"
  shows "inv s'"
  using assms
proof cases
  case (alloc_test t)
  then show ?thesis using inv_move[OF assms(2), of t "Entering Alloc"] invD(4)[OF assms(2), of t] by (simp add: in_call_def)
next
  case (call t c)
  then show ?thesis using inv_move[OF assms(2), of t "Entering c"] invD(4)[OF assms(2), of t] by (auto simp: in_call_def)
next
  case (call_add t u)
  then show ?thesis using add_call_inv[OF assms(2)] by simp
next
  case (call_bind t)
  then show ?thesis using inv_move[OF assms(2), of t "Entering BindToGc"] invD(4)[OF assms(2), of t] by (simp add: in_call_def)
next
  case (start t)
  then show ?thesis using inv_move[OF assms(2), of t Mutating] invD(4)[OF assms(2), of t] by (simp add: in_call_def)
next
  case (enter t c)
  then show ?thesis using enter_inv[OF assms(2) enter(1)] by auto
next
  case (awake t c i)
  then show ?thesis using wait_gc_finish_inv[OF assms(2) awake(1)] by auto
next
  case (awake_collector t)
  then show ?thesis using invD(4)[OF assms(2), of t] unfolding awake_collector(1) wait_suspend_def
    by (intro collector_move[OF assms(2)]) (auto simp: is_collector_def)
next
  case (collected t)
  then show ?thesis using end_gc_inv[OF assms(2)] by simp
next
  case (awake_vm t)
  then show ?thesis using invD(4)[OF assms(2), of t] by simp
next
  case (spurious t c i)
  let ?s = "set_pc t (InWaitFinish c i False) s"
  note iv = invD[OF assms(2)]
  have k: "is_collector (pc ?s u) = is_collector (pc s u)" "is_adding (pc ?s u) v = is_adding (pc s u) v"
    "is_suspended g (pc ?s u) = is_suspended g (pc s u)" "pc ?s u = Created \<longleftrightarrow> pc s u = Created" for u v g
    using spurious by (auto simp: is_collector_def is_suspended_def)
  have "pending ?s = pending s" unfolding pending_def k using k(3) by simp
  moreover have "pc_ok ?s u (pc ?s u)" for u using iv(4)[of u] spurious by auto
  ultimately have "inv ?s" unfolding inv_def k using assms(2)[unfolded inv_def] by simp
  then show ?thesis using spurious by simp
next
  case (spurious_collector t)
  then show ?thesis using collector_move[OF assms(2), of t "WaitSuspend False"] invD(4)[OF assms(2), of t]
    by (auto simp: is_collector_def)
qed (use assms(3) in auto)

lemma initial_inv: "inv (initial_vm main)"
  by (rule inv_idleI) (auto simp: initial_vm_def split: if_splits)

lemma gc_reach_inv: "gc_reach A s \<Longrightarrow> VmWaitFinish \<notin> A \<Longrightarrow> inv s"
  by (induction rule: gc_reach.induct) (auto intro: initial_inv gc_step_inv)

section \<open>Stopping the world\<close>

text \<open>C3: While a collection runs the world is stopped: in every state that the threads of a VM can
  reach, in any interleaving of allocations, collections, system calls, thread creations and exits,
  if a thread is collecting then it is the only collector, no thread runs code of the
  program, and the threads of the VM that are bound to the collector are it and those that sleep for
  this very collection. The last thread waiting for the end of the VM is excepted (\<^verbatim>\<open>YogVM_wait_finish\<close>).\<close>

theorem collector_stops_the_world:
  assumes "gc_reach A s" "VmWaitFinish \<notin> A" "pc s t = Collecting"
  shows "{u. is_collector (pc s u)} = {t} \<and> {u. pc s u = Mutating} = {}
    \<and> {u \<in> set (running_threads s). gc_bound s u}
        = insert t {u \<in> set (running_threads s). is_suspended (gc_id s) (pc s u)}"
proof (intro conjI)
  have inv: "inv s" using gc_reach_inv assms(1,2) by blast
  note iv = invD[OF inv]
  have t: "in_call s t Perform" "waiting_suspend s" "suspend_counter s = 0" using iv(4)[of t] assms(3) by simp_all
  have none: "pending s = {}" using iv(7) t by simp
  have only: "is_collector (pc s u) \<longleftrightarrow> u = t" for u
    using iv(5)[of u t] assms(3) by (auto simp: is_collector_def)
  then show "{u. is_collector (pc s u)} = {t}" by auto
  have "pc s u \<noteq> Mutating" for u
    using iv(4)[of u] none only[of u] by (auto simp: pending_def is_collector_def is_suspended_def)
  then show "{u. pc s u = Mutating} = {}" by auto
  have "gc_bound s u \<longleftrightarrow> u = t \<or> is_suspended (gc_id s) (pc s u)" if "u \<in> set (running_threads s)" for u
  proof -
    have "is_suspended (gc_id s) (pc s u) \<Longrightarrow> gc_bound s u"
      using iv(4)[of u] by (auto simp: is_suspended_def in_call_def)
    then show ?thesis using that none only[of u] t(1) by (auto simp: pending_def in_call_def)
  qed
  then show "{u \<in> set (running_threads s). gc_bound s u}
        = insert t {u \<in> set (running_threads s). is_suspended (gc_id s) (pc s u)}"
    using t(1) by (auto simp: in_call_def)
qed

text \<open>Runs of a few threads during the first collection.\<close>

definition run_state :: "bool \<Rightarrow> nat \<Rightarrow> tid list \<Rightarrow> (tid \<Rightarrow> thread_pc) \<Rightarrow> gc_vm" where
  "run_state waiting n ts p = \<lparr>running_gc = waiting, waiting_suspend = waiting, suspend_counter = n, gc_id = 0,
     running_threads = ts, gc_bound = (\<lambda>_. True), pc = p\<rparr>"

lemma run_state_simps [simp]:
  "pc (run_state w n ts p) = p" "waiting_suspend (run_state w n ts p) = w" "running_gc (run_state w n ts p) = w"
  "suspend_counter (run_state w n ts p) = n" "running_threads (run_state w n ts p) = ts" "gc_id (run_state w n ts p) = 0"
  "set_pc t k (run_state w n ts p) = run_state w n ts (p(t := k))"
  "lock_free (run_state w n ts p) = (\<forall>t. p t \<noteq> Collecting)"
  "gc_bound (run_state w n ts p) t"
  by (simp_all add: run_state_def set_pc_def lock_free_def)

definition pcs :: "thread_pc list \<Rightarrow> tid \<Rightarrow> thread_pc" where
  "pcs ks t = (if t < length ks then ks ! t else NotStarted)"

lemma pcs_update: "t < length ks \<Longrightarrow> (pcs ks)(t := k) = pcs (ks[t := k])"
  by (auto simp: pcs_def fun_eq_iff)

lemma pcs_grow: "(pcs ks)(length ks := k) = pcs (ks @ [k])"
  by (auto simp: pcs_def fun_eq_iff nth_append)

lemma pcs_lock_free: "(\<forall>t. pcs ks t \<noteq> Collecting) \<longleftrightarrow> Collecting \<notin> set ks"
  by (auto simp: pcs_def in_set_conv_nth)

lemma spawn:
  assumes r: "gc_reach A (run_state False n ts (pcs (Mutating # ks)))" and a: "AddThread (Suc (length ks)) \<in> A"
    and l: "Collecting \<notin> set ks"
  shows "gc_reach A (run_state False n (Suc (length ks) # ts) (pcs (Mutating # ks @ [Mutating])))"
proof -
  let ?u = "Suc (length ks)" and ?s = "run_state False n ts (pcs (Mutating # ks))"
  let ?s1 = "set_pc ?u Created (set_pc 0 (Entering (AddThread ?u)) ?s)"
  have 1: "gc_reach A ?s1" using a by (intro reach_step[OF r] call_add) (simp_all add: pcs_def)
  let ?s3 = "run_state False n ts (pcs (Entering (AddThread ?u) # ks @ [Created]))"
  have e1: "?s1 = ?s3"
    using pcs_grow[of "Entering (AddThread ?u) # ks" Created] by (simp add: pcs_update)
  let ?s2 = "run_state False n (?u # ts) (pcs (Mutating # ks @ [Created]))"
  have "finish_call (AddThread ?u) 0 ?s3 = ?s2"
    by (simp add: run_state_def set_pc_def pcs_update)
  then have "enter (AddThread ?u) 0 ?s3 = Inr ?s2" by (simp add: enter_def after_wait_def)
  then have 2: "gc_reach A ?s2" using l
    by (intro reach_step[OF 1[unfolded e1]] gc_step.enter[of _ 0 "AddThread ?u"]) (auto simp: pcs_lock_free pcs_def[of _ 0])
  have "gc_reach A (set_pc ?u Mutating ?s2)"
    by (intro reach_step[OF 2] gc_step.start) (auto simp: pcs_def nth_append)
  then show ?thesis by (simp add: pcs_update list_update_append)
qed

lemma initial_run: "gc_reach A (run_state False 0 [0] (pcs [Mutating]))"
proof -
  have "initial_vm 0 = run_state False 0 [0] (pcs [Mutating])"
    by (auto simp: initial_vm_def run_state_def pcs_def fun_eq_iff)
  then show ?thesis using reach_init[of A 0] by simp
qed

text \<open>A thread asks for a collection, and waits for \<open>n\<close> others.\<close>

lemma request:
  assumes r: "gc_reach A (run_state False m ts (pcs ks))" and t: "t < length ks" "ks ! t = Mutating" "Perform \<in> A"
    and l: "Collecting \<notin> set ks" "length ts = Suc (Suc n)"
  shows "gc_reach A (run_state True (Suc n) ts (pcs (ks[t := WaitSuspend True])))"
proof -
  let ?s1 = "run_state False m ts (pcs (ks[t := Entering Perform]))"
  have 1: "gc_reach A ?s1" using reach_step[OF r gc_step.call[of _ t Perform]] t
    by (simp add: pcs_update pcs_def[of ks t])
  have "enter Perform t ?s1 = Inr (run_state True (Suc n) ts (pcs (ks[t := WaitSuspend True])))"
    using t l by (simp add: enter_def run_gc_def count_running_threads_def run_state_def wait_suspend_def set_pc_def
        pcs_update Let_def)
  moreover have "lock_free ?s1" using l by (auto simp: pcs_lock_free dest!: subsetD[OF set_update_subset_insert])
  ultimately show ?thesis using t
    by (intro reach_step[OF 1] gc_step.enter[of _ t Perform]) (simp_all add: pcs_def)
qed

text \<open>The last thread that the collection waits for is suspended, and the collector goes on.\<close>

lemma suspend_last:
  assumes r: "gc_reach A (run_state True 1 ts (pcs ks))" and t: "t < length ks" "ks ! t = Entering c"
    and c: "c = Alloc \<or> c = VmWaitFinish" and l: "Collecting \<notin> set ks"
  shows "gc_reach A (run_state True 0 ts (pcs ((map wake_collector ks)[t := InWaitFinish c 0 True])))"
proof -
  have w: "wake_collector \<circ> pcs ks = pcs (map wake_collector ks)"
    by (auto simp: pcs_def fun_eq_iff)
  then have "decrement_suspend_counter (run_state True 1 ts (pcs ks)) = run_state True 0 ts (pcs (map wake_collector ks))"
    by (simp add: decrement_suspend_counter_def Let_def run_state_def)
  then have "enter c t (run_state True 1 ts (pcs ks))
      = Inr (run_state True 0 ts (pcs ((map wake_collector ks)[t := InWaitFinish c 0 True])))"
    using c t by (auto simp: enter_def after_wait_def begin_wait_def loops_def Let_def pcs_update)
  then show ?thesis using t l
    by (intro reach_step[OF r] gc_step.enter[of _ t c]) (simp_all add: pcs_lock_free pcs_def[of ks t])
qed

lemma collect:
  assumes r: "gc_reach A (run_state True 0 ts (pcs ks))" and t: "t < length ks" "ks ! t = WaitSuspend False"
    and l: "Collecting \<notin> set ks"
  shows "gc_reach A (run_state True 0 ts (pcs (ks[t := Collecting])))"
proof -
  have "gc_step A (run_state True 0 ts (pcs ks)) (wait_suspend t (run_state True 0 ts (pcs ks)))"
    using t l by (intro gc_step.awake_collector) (simp_all add: pcs_lock_free pcs_def[of ks t])
  then show ?thesis using reach_step[OF r] t(1) by (simp add: wait_suspend_def pcs_update)
qed

definition usual_calls :: "gc_call set" where
  "usual_calls = {Perform, FreeFromGc, RemoveThread, AddThread 1, AddThread 2}"

definition stopped_world :: gc_vm where
  "stopped_world = run_state True 0 [1, 0] (pcs [InWaitFinish Alloc 0 True, Collecting])"

lemma stopped_world_reached: "gc_reach usual_calls stopped_world"
proof -
  have 1: "gc_reach usual_calls (run_state False 0 [1, 0] (pcs [Mutating, Mutating]))"
    using spawn[OF initial_run, of usual_calls] by (simp add: usual_calls_def)
  have 2: "gc_reach usual_calls (run_state True 1 [1, 0] (pcs [Mutating, WaitSuspend True]))"
    using request[OF 1, of 1 0] by (simp add: usual_calls_def)
  have 3: "gc_reach usual_calls (run_state True 1 [1, 0] (pcs [Entering Alloc, WaitSuspend True]))"
    using reach_step[OF 2 gc_step.alloc_test[of _ 0]] by (simp add: pcs_update) (simp add: pcs_def)
  have 4: "gc_reach usual_calls (run_state True 0 [1, 0] (pcs [InWaitFinish Alloc 0 True, WaitSuspend False]))"
    using suspend_last[OF 3, of 0 Alloc] by simp
  show ?thesis using collect[OF 4, of 1] by (simp add: stopped_world_def)
qed

theorem collector_stops_the_world_witness:
  "{u. is_collector (pc stopped_world u)} = {1} \<and> {u. pc stopped_world u = Mutating} = {}
    \<and> {u \<in> set (running_threads stopped_world). gc_bound stopped_world u}
        = insert 1 {u \<in> set (running_threads stopped_world). is_suspended (gc_id stopped_world) (pc stopped_world u)}"
  by (rule collector_stops_the_world[OF stopped_world_reached])
    (simp_all add: usual_calls_def, simp add: stopped_world_def pcs_def)

text \<open>C40: The end of the main thread breaks this: \<^verbatim>\<open>main\<close> removes its thread from the VM and
  then calls \<^verbatim>\<open>YogVM_wait_finish\<close>, which suspends it when a collection is waiting, although that collection did not
  count it. The counter reaches zero one thread too early: the state in which thread 1 collects
  while thread 2, bound to the collector, runs code of the program is reachable.\<close>

theorem main_exit_starts_collection_early:
  "\<exists>s. gc_reach (insert VmWaitFinish usual_calls) s \<and> pc s 1 = Collecting
    \<and> pc s 2 = Mutating \<and> 2 \<in> set (running_threads s) \<and> gc_bound s 2"
proof -
  let ?A = "insert VmWaitFinish usual_calls"
  have 1: "gc_reach ?A (run_state False 0 [1, 0] (pcs [Mutating, Mutating]))"
    using spawn[OF initial_run, of ?A] by (simp add: usual_calls_def)
  have 2: "gc_reach ?A (run_state False 0 [2, 1, 0] (pcs [Mutating, Mutating, Mutating]))"
    using spawn[of ?A 0 "[1, 0]" "[Mutating]"] 1 by (simp add: usual_calls_def numeral_2_eq_2)
  let ?e = "run_state False 0 [2, 1, 0] (pcs [Entering RemoveThread, Mutating, Mutating])"
  have 3: "gc_reach ?A ?e"
    using reach_step[OF 2 gc_step.call[of _ 0 RemoveThread]] by (simp add: pcs_update usual_calls_def) (simp add: pcs_def)
  let ?d = "run_state False 0 [2, 1] (pcs [Detached, Mutating, Mutating])"
  have "finish_call RemoveThread 0 ?e = ?d"
    by (simp add: Let_def run_state_def set_pc_def pcs_update)
  then have "enter RemoveThread 0 ?e = Inr ?d" by (simp add: enter_def after_wait_def)
  then have 4: "gc_reach ?A ?d"
    by (intro reach_step[OF 3] gc_step.enter[of _ 0 RemoveThread]) (auto simp: pcs_lock_free pcs_def[of _ 0])
  have 5: "gc_reach ?A (run_state True 1 [2, 1] (pcs [Detached, WaitSuspend True, Mutating]))"
    using request[OF 4, of 1 0] by (simp add: usual_calls_def)
  have 6: "gc_reach ?A (run_state True 1 [2, 1] (pcs [Entering VmWaitFinish, WaitSuspend True, Mutating]))"
    using reach_step[OF 5 gc_step.call_wait[of _ 0]] by (simp add: pcs_update) (simp add: pcs_def)
  have 7: "gc_reach ?A (run_state True 0 [2, 1] (pcs [InWaitFinish VmWaitFinish 0 True, WaitSuspend False, Mutating]))"
    using suspend_last[OF 6, of 0 VmWaitFinish] by simp
  have "gc_reach ?A (run_state True 0 [2, 1] (pcs [InWaitFinish VmWaitFinish 0 True, Collecting, Mutating]))"
    using collect[OF 7, of 1] by simp
  then show ?thesis by (intro exI conjI) (assumption, simp_all add: pcs_def)
qed

section \<open>Progress\<close>







text \<open>No section spins with the lock held: the loops of \<^verbatim>\<open>YogGC_free_from_gc\<close>,
  \<^verbatim>\<open>YogGC_bind_to_gc\<close> and \<^verbatim>\<open>vm.c\<close> always wait or end.\<close>

lemma sections_return:
  assumes "gc_reach A s" "VmWaitFinish \<notin> A"
  shows "pc s t = Entering c \<Longrightarrow> res_ok (enter c t s)"
    "pc s t = InWaitFinish c i False \<Longrightarrow> res_ok (wait_gc_finish c i t s)"
  using enter_inv[OF gc_reach_inv[OF assms]] wait_gc_finish_inv[OF gc_reach_inv[OF assms]]
  by (metis res_ok_simps(2))+

end
