(* ===== verification/YogArguments.thy ===== *)
theory YogArguments
  imports YogValue
begin

text \<open>
  The binding of the arguments of a call to the parameters of the callee: \<^verbatim>\<open>fill_args\<close> of
  \<^verbatim>\<open>callable.c\<close> for functions written in Yog. An identifier is the payload of a symbol. The locals of a frame are the list of its
  slots; \<open>NewArray\<close> and \<open>NewDict\<close> are the objects that the binding makes for the remaining
  arguments, with their contents, which nothing else refers to yet. The arrays and dicts that the
  caller passes after \<^verbatim>\<open>*\<close> and \<^verbatim>\<open>**\<close> are read through \<open>objects\<close>; a dict is the list of its entries in
  the order of its iteration.
\<close>

type_synonym id = "64 word"

record 'o objects =
  array_of :: "'o \<Rightarrow> 'o yval list option"
  dict_of :: "'o \<Rightarrow> ('o yval \<times> 'o yval) list option"

datatype 'o local =
    Undef
  | Val "'o yval"
  | NewArray "'o yval list"
  | NewDict "'o yval \<rightharpoonup> 'o yval"

section \<open>Functions written in Yog\<close>

record arg_info =
  argc :: nat
  varargc :: nat
  kwargc :: nat
  blockargc :: nat
  required_argc :: nat
  argnames :: "id list"

text \<open>\<^verbatim>\<open>setup_params\<close> of \<^verbatim>\<open>compile.c\<close> makes the record from the parameters of a definition; \<open>Param n d\<close> is
  a parameter that has a default value if \<open>d\<close>.\<close>

datatype param = Param id bool | VarParam id | KwParam id | BlockParam id

fun count_required_argc :: "param list \<Rightarrow> nat" where
  "count_required_argc (Param n False # ps) = Suc (count_required_argc ps)"
| "count_required_argc _ = 0"

fun leading_params :: "param list \<Rightarrow> id list" where
  "leading_params (Param n d # ps) = n # leading_params ps"
| "leading_params _ = []"

definition setup_params :: "param list option \<Rightarrow> arg_info option res" where
  "setup_params params =
     (case params of
        None \<Rightarrow> Inr None
      | Some ps \<Rightarrow>
          let names = leading_params ps; n = length names;
              info = \<lparr>argc = n, varargc = 0, kwargc = 0, blockargc = 0,
                      required_argc = count_required_argc ps, argnames = names\<rparr>;
              (info, rest) = (case drop n ps of VarParam _ # r \<Rightarrow> (info\<lparr>varargc := 1\<rparr>, r) | r \<Rightarrow> (info, r));
              (info, rest) = (case rest of KwParam _ # r \<Rightarrow> (info\<lparr>kwargc := 1\<rparr>, r) | r \<Rightarrow> (info, r))
          in case rest of
               [] \<Rightarrow> Inr (Some info)
             | [BlockParam _] \<Rightarrow> Inr (Some (info\<lparr>blockargc := 1\<rparr>))
             | [_] \<Rightarrow> Inl (YogBug ''Node must be NODE_BLOCK_PARAM.'')
             | _ \<Rightarrow> Inl (YogBug ''Parameters count is unmatched.''))"

text \<open>What a call passes: \<open>k_args\<close> are the pairs of names and values of \<^verbatim>\<open>kwargs\<close>.\<close>

record 'o call_args =
  pos_args :: "'o yval list"
  k_args :: "(id \<times> 'o yval) list"
  splat :: "'o yval option"
  k_splat :: "'o yval option"
  block_arg :: "'o yval option"

text \<open>The counts of a call, \<^verbatim>\<open>posargc\<close> and \<^verbatim>\<open>kwargc\<close>, are bytes, and as many arguments are popped from the stack: of the arguments
  written in a call, the callee receives the first ones, as many as the counts say.\<close>

definition received :: "'o call_args \<Rightarrow> 'o call_args" where
  "received call = call\<lparr>pos_args := take (length (pos_args call) mod 256) (pos_args call),
     k_args := take (length (k_args call) mod 256) (k_args call)\<rparr>"

definition wrong_num_args :: "'a res" where
  "wrong_num_args = Inl (ArgumentError ''%I() requires %u positional argument(s) (%u given)'')"

definition check_array :: "'o objects \<Rightarrow> 'o yval \<Rightarrow> 'o yval list res" where
  "check_array h v =
     (case v of
        YPtr p \<Rightarrow> (case array_of h p of Some xs \<Rightarrow> Inr xs
                   | None \<Rightarrow> Inl (TypeError ''Argument after * must be an Array, not %C''))
      | _ \<Rightarrow> Inl (TypeError ''Argument after * must be an Array, not %C''))"

definition check_dict :: "'o objects \<Rightarrow> 'o yval \<Rightarrow> ('o yval \<times> 'o yval) list res" where
  "check_dict h v =
     (case v of
        YPtr p \<Rightarrow> (case dict_of h p of Some xs \<Rightarrow> Inr xs
                   | None \<Rightarrow> Inl (TypeError ''Argument after ** must be a Dict, not %C''))
      | _ \<Rightarrow> Inl (TypeError ''Argument after ** must be a Dict, not %C''))"

fun find_name :: "id list \<Rightarrow> id \<Rightarrow> nat option" where
  "find_name [] name = None"
| "find_name (n # ns) name = (if n = name then Some 0 else map_option Suc (find_name ns name))"

text \<open>\<^verbatim>\<open>kw\<close> is the dict in the slot \<open>k\<close>.\<close>

definition set_in_dict :: "nat \<Rightarrow> 'o yval \<Rightarrow> 'o yval \<Rightarrow> 'o local list \<Rightarrow> 'o local list res" where
  "set_in_dict k key val ls =
     res_bind (mem_load ls k) (\<lambda>d.
       case d of NewDict m \<Rightarrow> mem_store ls k (NewDict (m(key \<mapsto> val))) | _ \<Rightarrow> Inl MemFault)"

definition assign_keyword_arg :: "arg_info \<Rightarrow> nat \<Rightarrow> nat option \<Rightarrow> id \<times> 'o yval \<Rightarrow> 'o local list \<Rightarrow> 'o local list res" where
  "assign_keyword_arg info off kw = (\<lambda>(name, val) ls.
     (case find_name (argnames info) name of
        Some i \<Rightarrow> res_bind (mem_load ls (off + i)) (\<lambda>v.
          if v \<noteq> Undef then Inl (ArgumentError ''%I() got multiple values for keyword argument \"%I\"'')
          else mem_store ls (off + i) (Val val))
      | None \<Rightarrow>
          (case kw of
             None \<Rightarrow> Inl (ArgumentError ''an unexpected keyword argument \"%I\"'')
           | Some k \<Rightarrow> set_in_dict k (YSymbol name) val ls)))"

definition store_args :: "nat \<Rightarrow> 'o yval list \<Rightarrow> 'o local list \<Rightarrow> 'o local list res" where
  "store_args from vs ls = foldM (\<lambda>(i, v) ls. mem_store ls (from + i) (Val v)) (enumerate 0 vs) ls"

definition fill_too_many :: "'o objects \<Rightarrow> arg_info \<Rightarrow> nat \<Rightarrow> 'o call_args \<Rightarrow> 'o local list \<Rightarrow> 'o local list res" where
  "fill_too_many h info off call ls =
     res_bind (store_args off (take (argc info) (pos_args call)) ls) (\<lambda>ls.
     if varargc info \<noteq> 1 then wrong_num_args
     else res_bind (case splat call of None \<Rightarrow> Inr [] | Some v \<Rightarrow> check_array h v) (\<lambda>xs.
       mem_store ls (off + argc info) (NewArray (drop (argc info) (pos_args call) @ xs))))"

definition fill_from_splat :: "'o objects \<Rightarrow> arg_info \<Rightarrow> nat \<Rightarrow> 'o call_args \<Rightarrow> 'o local list \<Rightarrow> 'o local list res" where
  "fill_from_splat h info off call ls =
     (case splat call of
        None \<Rightarrow> Inr ls
      | Some v \<Rightarrow> res_bind (check_array h v) (\<lambda>xs.
          let posargc = length (pos_args call) in
          if length xs < usub (required_argc info) posargc
          then Inl (ArgumentError ''%S() requires %u positional argument(s) (%u given)'')
          else store_args (off + posargc) (take (required_argc info - posargc) xs) ls))"

definition fill_rest :: "'o objects \<Rightarrow> arg_info \<Rightarrow> nat \<Rightarrow> 'o call_args \<Rightarrow> 'o local list \<Rightarrow> 'o local list res" where
  "fill_rest h info off call ls =
     (if 0 < varargc info
      then res_bind (case splat call of None \<Rightarrow> Inr [] | Some v \<Rightarrow> check_array h v) (\<lambda>xs.
             mem_store ls (off + argc info) (NewArray (drop (argc info - length (pos_args call)) xs)))
      else Inr ls)"

definition fill_positional :: "'o objects \<Rightarrow> arg_info \<Rightarrow> nat \<Rightarrow> 'o call_args \<Rightarrow> 'o local list \<Rightarrow> 'o local list res" where
  "fill_positional h info off call ls =
     (if argc info < length (pos_args call) then fill_too_many h info off call ls
      else res_bind (store_args off (pos_args call) ls) (\<lambda>ls.
           res_bind (fill_from_splat h info off call ls) (\<lambda>ls.
             fill_rest h info off call ls)))"

definition assign_splat_keyword :: "arg_info \<Rightarrow> nat \<Rightarrow> nat option \<Rightarrow> 'o yval \<times> 'o yval \<Rightarrow> 'o local list \<Rightarrow> 'o local list res" where
  "assign_splat_keyword info off kw = (\<lambda>(key, val) ls.
     (case key of
        YSymbol name \<Rightarrow> assign_keyword_arg info off kw (name, val) ls
      | _ \<Rightarrow> Inl (TypeError ''keywords must be symbols, not %C'')))"

definition fill_keywords :: "'o objects \<Rightarrow> arg_info \<Rightarrow> nat \<Rightarrow> nat option \<Rightarrow> 'o call_args \<Rightarrow> 'o local list \<Rightarrow> 'o local list res" where
  "fill_keywords h info off kw call ls =
     res_bind (foldM (assign_keyword_arg info off kw) (k_args call) ls) (\<lambda>ls.
       case k_splat call of
         None \<Rightarrow> Inr ls
       | Some v \<Rightarrow> res_bind (check_dict h v) (\<lambda>es. foldM (assign_splat_keyword info off kw) es ls))"

definition fill_block :: "arg_info \<Rightarrow> nat \<Rightarrow> 'o call_args \<Rightarrow> 'o local list \<Rightarrow> 'o local list res" where
  "fill_block info off call ls =
     (case block_arg call of
        None \<Rightarrow> Inr ls
      | Some b \<Rightarrow>
          if blockargc info \<noteq> 1 then Inl (ArgumentError ''can't accept a block argument'')
          else mem_store ls (off + argc info + (if 0 < varargc info then 1 else 0)
                                            + (if 0 < kwargc info then 1 else 0)) (Val b))"

definition check_args_assigned :: "arg_info \<Rightarrow> nat \<Rightarrow> 'o local list \<Rightarrow> 'o local list res" where
  "check_args_assigned info off ls =
     foldM (\<lambda>i ls. res_bind (mem_load ls (off + i)) (\<lambda>v. if v \<noteq> Undef then Inr ls else wrong_num_args))
       [0..<required_argc info] ls"

definition fill_args :: "'o objects \<Rightarrow> arg_info option \<Rightarrow> nat \<Rightarrow> 'o call_args \<Rightarrow> 'o local list \<Rightarrow> 'o local list res" where
  "fill_args h arg_info off written ls =
     (case arg_info of
        None \<Rightarrow> Inr ls
      | Some info \<Rightarrow>
          let call = received written;
              kw = (if 0 < kwargc info then Some (off + argc info + (if 0 < varargc info then 1 else 0)) else None)
          in res_bind (case kw of None \<Rightarrow> Inr ls | Some k \<Rightarrow> mem_store ls k (NewDict Map.empty)) (\<lambda>ls.
             res_bind (fill_positional h info off call ls) (\<lambda>ls.
             res_bind (fill_keywords h info off kw call ls) (\<lambda>ls.
             res_bind (fill_block info off call ls) (\<lambda>ls.
               check_args_assigned info off ls)))))"

section \<open>What a call binds\<close>

text \<open>A call whose arguments the counts can count.\<close>

definition args_fit :: "'o call_args \<Rightarrow> bool" where
  "args_fit call \<longleftrightarrow> length (pos_args call) < 256 \<and> length (k_args call) < 256"

lemma received_fit: "args_fit call \<Longrightarrow> received call = call"
  by (simp add: received_def args_fit_def)

definition info_ok :: "arg_info \<Rightarrow> bool" where
  "info_ok info \<longleftrightarrow> length (argnames info) = argc info \<and> distinct (argnames info) \<and> varargc info \<le> 1
     \<and> kwargc info \<le> 1 \<and> blockargc info \<le> 1 \<and> required_argc info \<le> argc info"

definition formals :: "arg_info \<Rightarrow> nat" where
  "formals info = argc info + varargc info + kwargc info + blockargc info"

text \<open>The specification: positional arguments \<open>P\<close>, keywords \<open>K\<close>, a block \<open>B\<close>.\<close>

definition acceptable :: "arg_info \<Rightarrow> 'o yval list \<Rightarrow> (id \<times> 'o yval) list \<Rightarrow> 'o yval option \<Rightarrow> bool" where
  "acceptable info P K B \<longleftrightarrow>
     (length P \<le> argc info \<or> varargc info = 1)
     \<and> (\<forall>n\<in>set (map fst K). case find_name (argnames info) n of Some i \<Rightarrow> length P \<le> i | None \<Rightarrow> kwargc info = 1)
     \<and> distinct (filter (\<lambda>n. n \<in> set (argnames info)) (map fst K))
     \<and> (B = None \<or> blockargc info = 1)
     \<and> (\<forall>i<required_argc info. i < length P \<or> argnames info ! i \<in> set (map fst K))"

definition bound_slot :: "arg_info \<Rightarrow> 'o yval list \<Rightarrow> (id \<times> 'o yval) list \<Rightarrow> nat \<Rightarrow> 'o local" where
  "bound_slot info P K i =
     (if i < length P then Val (P ! i)
      else case map_of K (argnames info ! i) of Some v \<Rightarrow> Val v | None \<Rightarrow> Undef)"

definition other_keywords :: "arg_info \<Rightarrow> (id \<times> 'o yval) list \<Rightarrow> 'o yval \<rightharpoonup> 'o yval" where
  "other_keywords info K =
     fold (\<lambda>(n, v) m. if n \<in> set (argnames info) then m else m(YSymbol n \<mapsto> v)) K Map.empty"

definition bound_locals :: "arg_info \<Rightarrow> 'o yval list \<Rightarrow> (id \<times> 'o yval) list \<Rightarrow> 'o yval option \<Rightarrow> 'o local list" where
  "bound_locals info P K B =
     map (bound_slot info P K) [0..<argc info]
     @ (if varargc info = 1 then [NewArray (drop (argc info) P)] else [])
     @ (if kwargc info = 1 then [NewDict (other_keywords info K)] else [])
     @ (if blockargc info = 1 then [case B of None \<Rightarrow> Undef | Some b \<Rightarrow> Val b] else [])"

text \<open>The keywords of a call whose \<^verbatim>\<open>**\<close> argument is a dict with symbols for keys.\<close>

definition all_keywords :: "'o objects \<Rightarrow> 'o call_args \<Rightarrow> (id \<times> 'o yval) list option" where
  "all_keywords h call =
     (case k_splat call of
        None \<Rightarrow> Some (k_args call)
      | Some (YPtr p) \<Rightarrow>
          (case dict_of h p of
             None \<Rightarrow> None
           | Some es \<Rightarrow> if \<exists>ns. map fst es = map YSymbol ns
                         then Some (k_args call @ map (\<lambda>(k, v). (case k of YSymbol n \<Rightarrow> n | _ \<Rightarrow> 0, v)) es)
                         else None)
      | _ \<Rightarrow> None)"

section \<open>Slots of a frame\<close>

lemma nth_mid: "length pre = n \<Longrightarrow> i < length a \<Longrightarrow> (pre @ a @ r) ! (n + i) = a ! i"
  by (auto simp: nth_append)

lemma update_mid: "length pre = n \<Longrightarrow> i < length a \<Longrightarrow> (pre @ a @ r)[n + i := x] = pre @ a[i := x] @ r"
  by (auto simp: list_update_append)

lemma mem_load_mid: "length pre = n \<Longrightarrow> i < length a \<Longrightarrow> mem_load (pre @ a @ r) (n + i) = Inr (a ! i)"
  by (simp add: mem_load_def nth_mid)

lemma mem_store_mid: "length pre = n \<Longrightarrow> i < length a \<Longrightarrow> mem_store (pre @ a @ r) (n + i) x = Inr (pre @ a[i := x] @ r)"
  by (simp add: mem_store_def update_mid)

lemma store_args_mid:
  assumes "length pre = n" "length vs \<le> length a"
  shows "store_args n vs (pre @ a @ r) = Inr (pre @ (map Val vs @ drop (length vs) a) @ r)"
proof -
  have "foldM (\<lambda>(i, v) ls. mem_store ls (n + i) (Val v)) (enumerate k vs) (pre @ (us @ as) @ r)
      = Inr (pre @ (us @ map Val vs @ drop (length vs) as) @ r)"
    if "length us = k" "length vs \<le> length as" for k vs us as
    using that
  proof (induction vs arbitrary: k us as)
    case (Cons v vs)
    obtain x xs where as: "as = x # xs" using Cons.prems(2) by (cases as) auto
    have "mem_store (pre @ (us @ as) @ r) (n + k) (Val v) = Inr (pre @ ((us @ [Val v]) @ xs) @ r)"
      using mem_store_mid[OF assms(1), of k "us @ as" r "Val v"] Cons.prems(1) as by (simp add: list_update_append)
    then show ?case using Cons.IH[of "us @ [Val v]" "Suc k" xs] Cons.prems as by simp
  qed simp
  from this[of "[]" 0 vs a] assms(2) show ?thesis by (simp add: store_args_def)
qed

lemma find_name_Some: "find_name ns n = Some i \<Longrightarrow> i < length ns \<and> ns ! i = n"
  by (induction ns arbitrary: i) (auto split: if_splits)

lemma find_name_None: "find_name ns n = None \<longleftrightarrow> n \<notin> set ns"
  by (induction ns) auto

lemma find_name_nth: "distinct ns \<Longrightarrow> i < length ns \<Longrightarrow> find_name ns (ns ! i) = Some i"
  using find_name_Some[of ns "ns ! i"] find_name_None[of ns "ns ! i"]
  by (cases "find_name ns (ns ! i)") (auto simp: nth_eq_iff_index_eq)

section \<open>Keywords\<close>

text \<open>Keywords that fill empty slots \<open>a\<close>.\<close>

definition keywords_ok :: "arg_info \<Rightarrow> 'o local list \<Rightarrow> (id \<times> 'o yval) list \<Rightarrow> bool" where
  "keywords_ok info a K \<longleftrightarrow>
     (\<forall>n\<in>set (map fst K). case find_name (argnames info) n of Some i \<Rightarrow> a ! i = Undef | None \<Rightarrow> kwargc info = 1)
     \<and> distinct (filter (\<lambda>n. n \<in> set (argnames info)) (map fst K))"

definition keyword_slots :: "arg_info \<Rightarrow> 'o local list \<Rightarrow> (id \<times> 'o yval) list \<Rightarrow> 'o local list" where
  "keyword_slots info a K =
     map (\<lambda>i. if a ! i \<noteq> Undef then a ! i
               else case map_of K (argnames info ! i) of Some v \<Rightarrow> Val v | None \<Rightarrow> Undef) [0..<argc info]"

abbreviation kw_cells :: "arg_info \<Rightarrow> ('o yval \<rightharpoonup> 'o yval) \<Rightarrow> 'o local list" where
  "kw_cells info m \<equiv> (if kwargc info = 1 then [NewDict m] else [])"

abbreviation add_other :: "arg_info \<Rightarrow> id \<times> 'o yval \<Rightarrow> ('o yval \<rightharpoonup> 'o yval) \<Rightarrow> 'o yval \<rightharpoonup> 'o yval" where
  "add_other info \<equiv> \<lambda>(n, v) m. if n \<in> set (argnames info) then m else m(YSymbol n \<mapsto> v)"

lemma assign_keywords:
  assumes info: "info_ok info" and off: "length pre = off" "length a = argc info"
    and k: "kw = (if 0 < kwargc info then Some (off + argc info + length va) else None)"
  shows "\<exists>msg. foldM (assign_keyword_arg info off kw) K (pre @ a @ va @ kw_cells info m @ r)
    = (if keywords_ok info a K
       then Inr (pre @ keyword_slots info a K @ va @ kw_cells info (fold (add_other info) K m) @ r)
       else Inl (ArgumentError msg))"
  using off
proof (induction K arbitrary: a m)
  case Nil
  have "keyword_slots info a [] = a" using Nil by (auto simp: keyword_slots_def intro!: nth_equalityI)
  then show ?case by (simp add: keywords_ok_def)
next
  case (Cons nv K)
  obtain n v where nv: "nv = (n, v)" by fastforce
  note i = info[unfolded info_ok_def]
  let ?ls = "pre @ a @ va @ kw_cells info m @ r"
  show ?case
  proof (cases "find_name (argnames info) n")
    case None
    then have nf: "n \<notin> set (argnames info)" by (simp add: find_name_None)
    show ?thesis
    proof (cases "kwargc info = 1")
      case False
      then have "kw = None" using i k by simp
      then show ?thesis using None nv False by (simp add: assign_keyword_arg_def keywords_ok_def)
    next
      case True
      let ?p = "pre @ a @ va"
      have kw: "kw = Some (length ?p + 0)" using k True Cons.prems by simp
      have "set_in_dict (length ?p + 0) (YSymbol n) v (?p @ [NewDict m] @ r) = Inr (?p @ [NewDict (m(YSymbol n \<mapsto> v))] @ r)"
        using mem_load_mid[of ?p "length ?p" 0 "[NewDict m]" r]
          mem_store_mid[of ?p "length ?p" 0 "[NewDict m]" r "NewDict (m(YSymbol n \<mapsto> v))"] by (simp add: set_in_dict_def)
      then have "assign_keyword_arg info off kw nv ?ls = Inr (pre @ a @ va @ kw_cells info (m(YSymbol n \<mapsto> v)) @ r)"
        using None nv kw True by (simp add: assign_keyword_arg_def)
      moreover have "keywords_ok info a (nv # K) = keywords_ok info a K"
        using None nv True nf by (auto simp: keywords_ok_def)
      moreover have "keyword_slots info a (nv # K) = keyword_slots info a K"
        using nf nv i by (auto simp: keyword_slots_def nth_mem)
      moreover have "fold (add_other info) (nv # K) m = fold (add_other info) K (m(YSymbol n \<mapsto> v))" using nv nf by simp
      ultimately show ?thesis using Cons.IH[OF Cons.prems, of "m(YSymbol n \<mapsto> v)"]
        by (simp only: foldM.simps res_bind_simps)
    qed
  next
    case (Some j)
    then have j: "j < argc info" "argnames info ! j = n" using find_name_Some[of "argnames info"] i by auto
    then have nf: "n \<in> set (argnames info)" using i nth_mem by metis
    have ld: "mem_load ?ls (off + j) = Inr (a ! j)" using mem_load_mid[OF Cons.prems(1), of j a] Cons.prems(2) j(1) by simp
    show ?thesis
    proof (cases "a ! j = Undef")
      case False
      then have "\<not> keywords_ok info a (nv # K)" using Some nv by (simp add: keywords_ok_def)
      then show ?thesis using Some nv ld False by (simp add: assign_keyword_arg_def)
    next
      case True
      let ?a = "a[j := Val v]"
      have st: "assign_keyword_arg info off kw nv ?ls = Inr (pre @ ?a @ va @ kw_cells info m @ r)"
        using Some nv ld True mem_store_mid[of pre off j a] Cons.prems j(1) by (simp add: assign_keyword_arg_def)
      have other: "find_name (argnames info) x = Some j \<longleftrightarrow> x = n" for x
        using find_name_Some[of "argnames info" x j] j find_name_nth[of "argnames info" j] i by auto
      have ok: "keywords_ok info a (nv # K) = keywords_ok info ?a K"
      proof -
        have "(case find_name (argnames info) x of Some i \<Rightarrow> ?a ! i = Undef | None \<Rightarrow> kwargc info = 1)
            = ((case find_name (argnames info) x of Some i \<Rightarrow> a ! i = Undef | None \<Rightarrow> kwargc info = 1) \<and> x \<noteq> n)" for x
          using other[of x] j(1) Cons.prems(2)
          by (cases "find_name (argnames info) x") (auto simp: nth_list_update)
        then show ?thesis using Some nv True nf by (auto simp: keywords_ok_def)
      qed
      have "keyword_slots info ?a K ! i = keyword_slots info a (nv # K) ! i" if "keywords_ok info ?a K" "i < argc info" for i
        using that nv j True Cons.prems(2) i by (auto simp: keyword_slots_def nth_list_update nth_eq_iff_index_eq)
      then have sl: "keyword_slots info ?a K = keyword_slots info a (nv # K)"
        if "keywords_ok info ?a K" using that
        by (intro nth_equalityI) (auto simp: keyword_slots_def)
      have "fold (add_other info) (nv # K) m = fold (add_other info) K m" using nv nf by simp
      moreover have "length ?a = argc info" using Cons.prems(2) by simp
      ultimately show ?thesis using Cons.IH[OF Cons.prems(1), of ?a m] sl
        by (cases "keywords_ok info ?a K") (simp_all only: foldM.simps res_bind_simps st ok if_True if_False simp_thms)
    qed
  qed
qed

lemma fill_keywords_spec:
  assumes info: "info_ok info" and off: "length pre = off" "length a = argc info"
    and k: "kw = (if 0 < kwargc info then Some (off + argc info + length va) else None)"
    and K: "all_keywords h call = Some K"
  shows "\<exists>msg. fill_keywords h info off kw call (pre @ a @ va @ kw_cells info m @ r)
    = (if keywords_ok info a K
       then Inr (pre @ keyword_slots info a K @ va @ kw_cells info (fold (add_other info) K m) @ r)
       else Inl (ArgumentError msg))"
proof -
  have "fill_keywords h info off kw call ls = foldM (assign_keyword_arg info off kw) K ls" for ls
  proof (cases "k_splat call")
    case None
    then have "K = k_args call" using K by (simp add: all_keywords_def)
    then show ?thesis using None by (cases "foldM (assign_keyword_arg info off kw) (k_args call) ls")
      (simp_all add: fill_keywords_def)
  next
    case (Some v)
    obtain p es ns where v: "v = YPtr p" "dict_of h p = Some es" "map fst es = map YSymbol ns"
      and K': "K = k_args call @ map (\<lambda>(k, v). (case k of YSymbol n \<Rightarrow> n | _ \<Rightarrow> 0, v)) es"
      using K Some by (auto simp: all_keywords_def split: yval.splits option.splits if_splits)
    have "foldM (assign_splat_keyword info off kw) es ls'
        = foldM (assign_keyword_arg info off kw) (map (\<lambda>(k, v). (case k of YSymbol n \<Rightarrow> n | _ \<Rightarrow> 0, v)) es) ls'" for ls'
      using v(3)
    proof (induction es arbitrary: ns ls')
      case (Cons e es)
      obtain n ns' where "ns = n # ns'" "fst e = YSymbol n" "map fst es = map YSymbol ns'"
        using Cons.prems by (cases ns) auto
      then show ?case using Cons.IH by (cases e) (simp add: assign_splat_keyword_def cong: res_bind_cong)
    qed simp
    then show ?thesis using Some v(1,2) K' by (simp add: fill_keywords_def check_dict_def foldM_append)
  qed
  then show ?thesis using assign_keywords[OF info off k] by simp
qed

text \<open>The slots that the positional arguments fill.\<close>

definition positional_slots :: "arg_info \<Rightarrow> 'o yval list \<Rightarrow> 'o local list" where
  "positional_slots info P = map Val (take (argc info) P) @ replicate (argc info - length P) Undef"

lemma length_positional_slots [simp]: "length (positional_slots info P) = argc info"
  by (simp add: positional_slots_def)

lemma nth_positional_slots: "i < argc info \<Longrightarrow> positional_slots info P ! i = (if i < length P then Val (P ! i) else Undef)"
  by (simp add: positional_slots_def nth_append)

lemma keyword_slots_positional: "keyword_slots info (positional_slots info P) K = map (bound_slot info P K) [0..<argc info]"
  by (auto simp: keyword_slots_def bound_slot_def nth_positional_slots)

lemma keywords_ok_positional:
  assumes "info_ok info"
  shows "keywords_ok info (positional_slots info P) K \<longleftrightarrow>
    (\<forall>n\<in>set (map fst K). case find_name (argnames info) n of Some i \<Rightarrow> length P \<le> i | None \<Rightarrow> kwargc info = 1)
     \<and> distinct (filter (\<lambda>n. n \<in> set (argnames info)) (map fst K))"
proof -
  have "(case find_name (argnames info) n of Some i \<Rightarrow> positional_slots info P ! i = Undef | None \<Rightarrow> kwargc info = 1)
      = (case find_name (argnames info) n of Some i \<Rightarrow> length P \<le> i | None \<Rightarrow> kwargc info = 1)" for n
    using find_name_Some[of "argnames info" n] assms
    by (auto simp: nth_positional_slots info_ok_def split: option.splits)
  then show ?thesis by (simp add: keywords_ok_def)
qed

lemma check_args_spec:
  assumes "length pre = off" "length a = argc info" "required_argc info \<le> argc info"
  shows "check_args_assigned info off (pre @ a @ r)
    = (if \<forall>i<required_argc info. a ! i \<noteq> Undef then Inr (pre @ a @ r) else wrong_num_args)"
proof -
  have "foldM (\<lambda>i ls. res_bind (mem_load ls (off + i)) (\<lambda>v. if v \<noteq> Undef then Inr ls else wrong_num_args)) is (pre @ a @ r)
      = (if \<forall>i\<in>set is. a ! i \<noteq> Undef then Inr (pre @ a @ r) else wrong_num_args)" if "\<forall>i\<in>set is. i < argc info" for "is"
    using that by (induction "is") (auto simp: mem_load_mid[OF assms(1)] nth_mid[OF assms(1)] assms(2) wrong_num_args_def)
  then show ?thesis using assms(3) by (auto simp: check_args_assigned_def)
qed

lemma bound_slot_Undef:
  "bound_slot info P K i \<noteq> Undef \<longleftrightarrow> i < length P \<or> argnames info ! i \<in> set (map fst K)"
  using map_of_eq_None_iff[of K "argnames info ! i"]
  by (cases "map_of K (argnames info ! i)") (simp_all add: bound_slot_def)

text \<open>The stages after the positional arguments.\<close>

abbreviation va_cells :: "arg_info \<Rightarrow> 'o local \<Rightarrow> 'o local list" where
  "va_cells info x \<equiv> (if varargc info = 1 then [x] else [])"

abbreviation block_cells :: "arg_info \<Rightarrow> 'o local \<Rightarrow> 'o local list" where
  "block_cells info x \<equiv> (if blockargc info = 1 then [x] else [])"

lemma fill_block_spec:
  assumes "info_ok info" "length pre = off" "length a = argc info"
  shows "\<exists>msg. fill_block info off call (pre @ a @ va_cells info x @ kw_cells info m @ block_cells info Undef @ post)
    = (if block_arg call = None \<or> blockargc info = 1
       then Inr (pre @ a @ va_cells info x @ kw_cells info m
         @ block_cells info (case block_arg call of None \<Rightarrow> Undef | Some b \<Rightarrow> Val b) @ post)
       else Inl (ArgumentError msg))"
proof (cases "block_arg call")
  case (Some b)
  show ?thesis
  proof (cases "blockargc info = 1")
    case True
    let ?p = "pre @ a @ va_cells info x @ kw_cells info m"
    have "off + argc info + (if 0 < varargc info then 1 else 0) + (if 0 < kwargc info then 1 else 0) = length ?p + 0"
      using assms by (auto simp: info_ok_def)
    then show ?thesis using Some True mem_store_mid[of ?p "length ?p" 0 "[Undef]" post "Val b"]
      by (simp add: fill_block_def)
  qed (simp add: fill_block_def Some)
qed (simp add: fill_block_def)

lemma fill_positional_plain:
  assumes info: "info_ok info" and pre: "length pre = off" and splat: "splat call = None"
  defines "P \<equiv> pos_args call"
  shows "\<exists>msg. fill_positional h info off call (pre @ replicate (argc info) Undef @ va_cells info x @ r)
    = (if length P \<le> argc info \<or> varargc info = 1
       then Inr (pre @ positional_slots info P @ va_cells info (NewArray (drop (argc info) P)) @ r)
       else Inl (ArgumentError msg))"
proof -
  note i = info[unfolded info_ok_def]
  have va: "mem_store (pre @ a @ va_cells info x @ r) (off + argc info) y = Inr (pre @ a @ va_cells info y @ r)"
    if "varargc info = 1" "length a = argc info" for a y
    using mem_store_mid[of "pre @ a" "length (pre @ a)" 0 "[x]" r y] that pre by simp
  show ?thesis
  proof (cases "argc info < length P")
    case True
    have "store_args off (take (argc info) P) (pre @ replicate (argc info) Undef @ va_cells info x @ r)
        = Inr (pre @ positional_slots info P @ va_cells info x @ r)"
      using store_args_mid[OF pre, of "take (argc info) P" "replicate (argc info) Undef"] True
      by (simp add: positional_slots_def)
    then show ?thesis using True va[OF _ length_positional_slots] splat
      by (auto simp: fill_positional_def fill_too_many_def P_def[symmetric] wrong_num_args_def)
  next
    case False
    have "store_args off P (pre @ replicate (argc info) Undef @ va_cells info x @ r)
        = Inr (pre @ positional_slots info P @ va_cells info x @ r)"
      using store_args_mid[OF pre, of P "replicate (argc info) Undef"] False by (simp add: positional_slots_def)
    then show ?thesis using False va[OF _ length_positional_slots] splat i
      by (auto simp: fill_positional_def fill_from_splat_def fill_rest_def P_def[symmetric])
  qed
qed

text \<open>The frame of a call: the slot of \<^verbatim>\<open>self\<close> if there is one, the parameters, the other variables.\<close>

abbreviation kw_index :: "arg_info \<Rightarrow> nat \<Rightarrow> nat option" where
  "kw_index info off \<equiv> (if 0 < kwargc info then Some (off + argc info + (if 0 < varargc info then 1 else 0)) else None)"

lemma kw_index_length:
  "info_ok info \<Longrightarrow> kw_index info off = (if 0 < kwargc info then Some (off + argc info + length (va_cells info y)) else None)"
  by (auto simp: info_ok_def)

lemma fill_args_stages:
  fixes pre post :: "'o local list"
  assumes info: "info_ok info" and fit: "args_fit call"
  shows "fill_args h (Some info) (length pre) call (pre @ replicate (formals info) Undef @ post)
    = res_bind (fill_positional h info (length pre) call
        (pre @ replicate (argc info) Undef @ va_cells info Undef @ kw_cells info Map.empty @ block_cells info Undef @ post)) (\<lambda>ls.
      res_bind (fill_keywords h info (length pre) (kw_index info (length pre)) call ls) (\<lambda>ls.
      res_bind (fill_block info (length pre) call ls) (\<lambda>ls. check_args_assigned info (length pre) ls)))"
proof -
  let ?off = "length pre"
  let ?tail = "kw_cells info Map.empty @ block_cells info Undef @ post"
  note i = info[unfolded info_ok_def]
  have reps: "replicate (varargc info) Undef = va_cells info Undef" "replicate (kwargc info) Undef = (if kwargc info = 1 then [Undef] else [])"
    "replicate (blockargc info) Undef = block_cells info Undef" for x :: "'o local"
    using i by (auto simp: le_Suc_eq)
  have ls: "pre @ replicate (formals info) Undef @ post = pre @ replicate (argc info) Undef @ va_cells info Undef
      @ (if kwargc info = 1 then [Undef] else []) @ block_cells info Undef @ post"
    unfolding formals_def replicate_add reps by simp
  have init: "(case kw_index info ?off of None \<Rightarrow> Inr (pre @ replicate (formals info) Undef @ post)
        | Some k \<Rightarrow> mem_store (pre @ replicate (formals info) Undef @ post) k (NewDict Map.empty))
      = Inr (pre @ replicate (argc info) Undef @ va_cells info Undef @ ?tail)"
  proof (cases "kwargc info = 1")
    case True
    let ?p = "pre @ replicate (argc info) Undef @ va_cells info Undef"
    have "mem_store (?p @ [Undef] @ (block_cells info Undef @ post)) (length ?p + 0) (NewDict Map.empty)
        = Inr (?p @ [NewDict Map.empty] @ block_cells info Undef @ post)"
      using mem_store_mid[of ?p "length ?p" 0 "[Undef]"] by simp
    then show ?thesis using True i unfolding ls by (auto split: if_splits)
  next
    case False
    then show ?thesis using i unfolding ls by simp
  qed
  show ?thesis unfolding fill_args_def received_fit[OF fit] option.case Let_def init res_bind_simps ..
qed

lemma fill_args_binds:
  assumes info: "info_ok info" and splat: "splat call = None" and fit: "args_fit call" and K: "all_keywords h call = Some K"
  shows "\<exists>msg. fill_args h (Some info) (length pre) call (pre @ replicate (formals info) Undef @ post)
    = (if acceptable info (pos_args call) K (block_arg call)
       then Inr (pre @ bound_locals info (pos_args call) K (block_arg call) @ post)
       else Inl (ArgumentError msg))"
proof -
  let ?P = "pos_args call" and ?B = "block_arg call" and ?off = "length pre"
  let ?kw = "kw_index info ?off"
  let ?tail = "kw_cells info Map.empty @ block_cells info Undef @ post"
  let ?tail' = "\<lambda>m. kw_cells info m @ block_cells info Undef @ post"
  note i = info[unfolded info_ok_def] and kwlen = kw_index_length[OF info, of ?off]
  obtain m1 where pos: "fill_positional h info ?off call (pre @ replicate (argc info) Undef @ va_cells info Undef @ ?tail)
    = (if length ?P \<le> argc info \<or> varargc info = 1
       then Inr (pre @ positional_slots info ?P @ va_cells info (NewArray (drop (argc info) ?P)) @ ?tail)
       else Inl (ArgumentError m1))"
    using fill_positional_plain[OF info refl splat, of h pre Undef ?tail] by blast
  let ?va = "va_cells info (NewArray (drop (argc info) ?P))" and ?a = "positional_slots info ?P"
  obtain m2 where kws: "fill_keywords h info ?off ?kw call (pre @ ?a @ ?va @ ?tail)
    = (if keywords_ok info ?a K
       then Inr (pre @ keyword_slots info ?a K @ ?va @ ?tail' (other_keywords info K))
       else Inl (ArgumentError m2))"
    using fill_keywords_spec[where info = info and pre = pre and off = ?off and a = ?a and kw = ?kw and va = ?va and h = h
        and call = call and K = K and m = Map.empty and r = "block_cells info Undef @ post",
        OF info refl length_positional_slots kwlen K]
    unfolding other_keywords_def by blast
  let ?s = "map (bound_slot info ?P K) [0..<argc info]"
  obtain m3 where blk: "fill_block info ?off call (pre @ ?s @ ?va @ ?tail' (other_keywords info K))
    = (if ?B = None \<or> blockargc info = 1
       then Inr (pre @ ?s @ ?va @ kw_cells info (other_keywords info K)
         @ block_cells info (case ?B of None \<Rightarrow> Undef | Some b \<Rightarrow> Val b) @ post)
       else Inl (ArgumentError m3))"
    using fill_block_spec[where info = info and pre = pre and off = ?off and a = ?s and call = call
        and x = "NewArray (drop (argc info) ?P)" and m = "other_keywords info K" and post = post, OF info refl] by auto
  have chk: "check_args_assigned info ?off (pre @ ?s @ r)
      = (if \<forall>i<required_argc info. i < length ?P \<or> argnames info ! i \<in> set (map fst K) then Inr (pre @ ?s @ r)
         else wrong_num_args)" for r
  proof -
    have "(\<forall>i<required_argc info. ?s ! i \<noteq> Undef)
        = (\<forall>i<required_argc info. i < length ?P \<or> argnames info ! i \<in> set (map fst K))"
      using i by (auto simp: bound_slot_Undef)
    then show ?thesis using check_args_spec[of pre ?off ?s info r] i by simp
  qed
  note fa = fill_args_stages[OF info fit, of h pre post]
  have acc: "acceptable info ?P K ?B \<longleftrightarrow> (length ?P \<le> argc info \<or> varargc info = 1) \<and> keywords_ok info ?a K
      \<and> (?B = None \<or> blockargc info = 1)
      \<and> (\<forall>i<required_argc info. i < length ?P \<or> argnames info ! i \<in> set (map fst K))"
    using keywords_ok_positional[OF info, of ?P K] by (simp add: acceptable_def)
  show ?thesis unfolding fa pos
  proof (cases "length ?P \<le> argc info \<or> varargc info = 1")
    case True
    show "\<exists>msg. res_bind (if length ?P \<le> argc info \<or> varargc info = 1 then Inr (pre @ ?a @ ?va @ ?tail) else Inl (ArgumentError m1))
        (\<lambda>ls. res_bind (fill_keywords h info ?off ?kw call ls) (\<lambda>ls.
          res_bind (fill_block info ?off call ls) (\<lambda>ls. check_args_assigned info ?off ls)))
      = (if acceptable info ?P K ?B then Inr (pre @ bound_locals info ?P K ?B @ post) else Inl (ArgumentError msg))"
      unfolding if_P[OF True] res_bind_simps kws keyword_slots_positional acc bound_locals_def
      using blk chk True by (cases "keywords_ok info ?a K"; cases "?B = None \<or> blockargc info = 1")
        (auto simp: wrong_num_args_def)
  qed (use acc in simp)
qed

text \<open>An argument after \<^verbatim>\<open>**\<close> that is no dict, or one with a key that is no symbol.\<close>

lemma fill_keywords_bad:
  assumes info: "info_ok info" and off: "length pre = off" "length a = argc info"
    and k: "kw = (if 0 < kwargc info then Some (off + argc info + length va) else None)"
    and K: "all_keywords h call = None"
  shows "\<exists>msg. fill_keywords h info off kw call (pre @ a @ va @ kw_cells info m @ r) \<in> {Inl (ArgumentError msg), Inl (TypeError msg)}"
proof -
  obtain v where v: "k_splat call = Some v" using K by (auto simp: all_keywords_def split: option.splits)
  obtain m1 where plain: "foldM (assign_keyword_arg info off kw) (k_args call) (pre @ a @ va @ kw_cells info m @ r)
    = (if keywords_ok info a (k_args call)
       then Inr (pre @ keyword_slots info a (k_args call) @ va @ kw_cells info (fold (add_other info) (k_args call) m) @ r)
       else Inl (ArgumentError m1))" using assign_keywords[OF info off k] by blast
  have dict: "\<exists>msg. foldM (assign_splat_keyword info off kw) es (pre @ b @ va @ kw_cells info m' @ r) \<in> {Inl (ArgumentError msg), Inl (TypeError msg)}"
    if "\<nexists>ns. map fst es = map YSymbol ns" "length b = argc info" for es b m'
    using that
  proof (induction es arbitrary: b m')
    case Nil
    then show ?case by simp
  next
    case (Cons e es)
    obtain key val where e: "e = (key, val)" by fastforce
    show ?case
    proof (cases key)
      case (YSymbol n)
      have rest: "\<nexists>ns. map fst es = map YSymbol ns"
      proof
        assume "\<exists>ns. map fst es = map YSymbol ns"
        then obtain ns where "map fst (e # es) = map YSymbol (n # ns)" using e YSymbol by auto
        then show False using Cons.prems(1) by blast
      qed
      obtain m2 where "foldM (assign_keyword_arg info off kw) [(n, val)] (pre @ b @ va @ kw_cells info m' @ r)
        = (if keywords_ok info b [(n, val)]
           then Inr (pre @ keyword_slots info b [(n, val)] @ va @ kw_cells info (fold (add_other info) [(n, val)] m') @ r)
           else Inl (ArgumentError m2))" using assign_keywords[OF info off(1) Cons.prems(2) k] by blast
      then have one: "assign_splat_keyword info off kw e (pre @ b @ va @ kw_cells info m' @ r)
        = (if keywords_ok info b [(n, val)]
           then Inr (pre @ keyword_slots info b [(n, val)] @ va @ kw_cells info (fold (add_other info) [(n, val)] m') @ r)
           else Inl (ArgumentError m2))"
        by (cases "assign_keyword_arg info off kw (n, val) (pre @ b @ va @ kw_cells info m' @ r)")
          (simp_all add: assign_splat_keyword_def e YSymbol)
      show ?thesis
      proof (cases "keywords_ok info b [(n, val)]")
        case True
        then show ?thesis using Cons.IH[OF rest, of "keyword_slots info b [(n, val)]"] one
          by (simp only: foldM.simps res_bind_simps if_True) (simp add: keyword_slots_def)
      next
        case False
        then show ?thesis using one by simp
      qed
    qed (simp_all add: e assign_splat_keyword_def)
  qed
  show ?thesis
  proof (cases "keywords_ok info a (k_args call)")
    case False
    then show ?thesis using plain by (simp add: fill_keywords_def)
  next
    case True
    let ?b = "keyword_slots info a (k_args call)" and ?m = "fold (add_other info) (k_args call) m"
    have run: "fill_keywords h info off kw call (pre @ a @ va @ kw_cells info m @ r)
        = res_bind (check_dict h v) (\<lambda>es. foldM (assign_splat_keyword info off kw) es (pre @ ?b @ va @ kw_cells info ?m @ r))"
      using plain True v by (simp only: fill_keywords_def if_True res_bind_simps option.case)
    show ?thesis
    proof (cases "check_dict h v")
      case (Inl e)
      then show ?thesis unfolding run by (auto simp: check_dict_def split: yval.splits option.splits)
    next
      case (Inr es)
      then obtain p where "v = YPtr p" "dict_of h p = Some es" by (auto simp: check_dict_def split: yval.splits option.splits)
      then have "\<nexists>ns. map fst es = map YSymbol ns" using K v by (auto simp: all_keywords_def split: if_splits)
      then show ?thesis unfolding run Inr res_bind_simps by (rule dict) (simp add: keyword_slots_def)
    qed
  qed
qed

lemma fill_args_bad_keywords:
  fixes pre post :: "'o local list"
  assumes info: "info_ok info" and splat: "splat call = None" and fit: "args_fit call" and K: "all_keywords h call = None"
  shows "\<exists>msg. fill_args h (Some info) (length pre) call (pre @ replicate (formals info) Undef @ post)
    \<in> {Inl (ArgumentError msg), Inl (TypeError msg)}"
proof -
  let ?P = "pos_args call" and ?off = "length pre"
  let ?va = "va_cells info (NewArray (drop (argc info) ?P)) :: 'o local list" and ?r = "block_cells info Undef @ post :: 'o local list"
  note fa = fill_args_stages[OF info fit, of h pre post]
  obtain m1 where pos: "fill_positional h info ?off call (pre @ replicate (argc info) Undef @ va_cells info Undef @ kw_cells info Map.empty @ ?r)
    = (if length ?P \<le> argc info \<or> varargc info = 1
       then Inr (pre @ positional_slots info ?P @ ?va @ kw_cells info Map.empty @ ?r) else Inl (ArgumentError m1))"
    using fill_positional_plain[OF info refl splat, of h pre Undef "kw_cells info Map.empty @ ?r"] by blast
  obtain m2 where kws: "fill_keywords h info ?off (kw_index info ?off) call
      (pre @ positional_slots info ?P @ ?va @ kw_cells info Map.empty @ ?r) \<in> {Inl (ArgumentError m2), Inl (TypeError m2)}"
    using fill_keywords_bad[OF info refl length_positional_slots kw_index_length[OF info] K] by blast
  show ?thesis
  proof (cases "length ?P \<le> argc info \<or> varargc info = 1")
    case True
    show ?thesis unfolding fa pos if_P[OF True] res_bind_simps using kws by auto
  next
    case False
    show ?thesis unfolding fa pos if_not_P[OF False] by simp
  qed
qed

section \<open>Arguments after a star\<close>

lemma store_args_append:
  "store_args n (us @ vs) ls = res_bind (store_args n us ls) (store_args (n + length us) vs)"
proof -
  have "foldM (\<lambda>(i, v) ls. mem_store ls (n + i) (Val v)) (enumerate (k + l) vs) ls
      = foldM (\<lambda>(i, v) ls. mem_store ls (n + k + i) (Val v)) (enumerate l vs) ls" for k l ls
    by (induction vs arbitrary: l ls) (auto simp: add.assoc simp flip: add_Suc_right intro: res_bind_cong)
  from this[of "length us" 0] show ?thesis
    by (cases "store_args n us ls") (simp_all add: store_args_def enumerate_append_eq foldM_append)
qed

text \<open>A call \<^verbatim>\<open>f(a, *xs)\<close> with the arguments spelled out.\<close>

abbreviation spelled_out :: "'o yval list \<Rightarrow> 'o call_args \<Rightarrow> 'o call_args" where
  "spelled_out xs call \<equiv> call\<lparr>pos_args := pos_args call @ xs, splat := None\<rparr>"

lemma fill_positional_splat:
  assumes info: "required_argc info = argc info" "argc info < 2 ^ 64"
    and xs: "splat call = Some (YPtr p)" "array_of h p = Some xs"
    and n: "argc info \<le> length (pos_args call) + length xs" "varargc info = 1 \<or> length (pos_args call) + length xs = argc info"
    and va: "varargc info \<le> 1"
  shows "fill_positional h info off call ls = fill_positional h info off (spelled_out xs call) ls"
proof -
  let ?P = "pos_args call" and ?n = "argc info"
  have c: "check_array h (YPtr p) = Inr xs" by (simp add: check_array_def xs(2))
  show ?thesis
  proof (cases "?n < length ?P")
    case True
    then show ?thesis using xs(1) c n(2) by (simp add: fill_positional_def fill_too_many_def)
  next
    case False
    let ?k = "?n - length ?P"
    have u: "usub (required_argc info) (length ?P) = ?k" using info False by (simp add: usub_le)
    have ge: "\<not> length xs < ?k" using n(1) by simp
    have "store_args off (?P @ take ?k xs) ls = res_bind (store_args off ?P ls) (store_args (off + length ?P) (take ?k xs))"
      by (rule store_args_append)
    then have l: "fill_positional h info off call ls
        = res_bind (store_args off (?P @ take ?k xs) ls) (fill_rest h info off call)"
      using False xs(1) c ge info(1) u by (simp add: fill_positional_def fill_from_splat_def res_bind_assoc Let_def)
    have t: "?P @ take ?k xs = take ?n (?P @ xs)" using False by simp
    show ?thesis
    proof (cases "?n < length (?P @ xs)")
      case True
      then have "varargc info = 1" using n(2) by auto
      then show ?thesis unfolding l t using True xs(1) c False
        by (simp add: fill_positional_def fill_too_many_def fill_rest_def[abs_def])
    next
      case False
      then have "length (?P @ xs) = ?n" using n(1) by simp
      moreover from this have "fill_rest h info off call ls = fill_rest h info off (spelled_out xs call) ls" for ls
        using xs(1) c by (auto simp: fill_rest_def)
      then have "fill_rest h info off call = fill_rest h info off (spelled_out xs call)" by (rule ext)
      ultimately show ?thesis unfolding l t by (simp add: fill_positional_def fill_from_splat_def)
    qed
  qed
qed

lemma fill_args_splat:
  assumes "required_argc info = argc info" "argc info < 2 ^ 64" "splat call = Some (YPtr p)" "array_of h p = Some xs"
    "argc info \<le> length (pos_args call) + length xs"
    "varargc info = 1 \<or> length (pos_args call) + length xs = argc info" "varargc info \<le> 1"
    and fit: "length (pos_args call) + length xs < 256" "length (k_args call) < 256"
  shows "fill_args h (Some info) off call ls = fill_args h (Some info) off (spelled_out xs call) ls"
proof -
  have "fill_positional h info off call = fill_positional h info off (spelled_out xs call)"
    by (rule ext) (rule fill_positional_splat[OF assms(1-7)])
  moreover have "fill_keywords h info off kw call = fill_keywords h info off kw (spelled_out xs call)" for kw
    by (simp add: fill_keywords_def fun_eq_iff)
  moreover have "fill_block info off call = fill_block info off (spelled_out xs call)"
    by (simp add: fill_block_def fun_eq_iff)
  moreover have "received call = call" "received (spelled_out xs call) = spelled_out xs call"
    using fit by (simp_all add: received_fit args_fit_def)
  ultimately show ?thesis by (simp only: fill_args_def option.case Let_def)
qed


section \<open>Parameter lists\<close>

lemma count_required_le: "count_required_argc ps \<le> length (leading_params ps)"
  by (induction ps rule: count_required_argc.induct) simp_all

text \<open>The definitions that the compiler accepts: no parameter twice.\<close>

lemma setup_params_ok:
  assumes "setup_params (Some ps) = Inr (Some info)" "distinct (leading_params ps)"
  shows "info_ok info"
  using assms count_required_le[of ps]
  by (auto simp: setup_params_def Let_def info_ok_def split: list.splits param.splits)

section \<open>What the calls do\<close>

text \<open>C14: A call of a function written in Yog, with distinct parameters, without \<^verbatim>\<open>*\<close> and with at most 255 arguments of either kind. When
  what comes after \<^verbatim>\<open>**\<close>, if anything, is a dict whose keys are symbols, the call succeeds exactly when its arguments are
  acceptable: not more positional ones than parameters unless the rest has a parameter, every
  keyword a parameter that no positional argument and no other keyword has filled (or one for the
  dict of the rest), a block only if there is a parameter for it, no required parameter left out.
  Then the frame binds every parameter as it should and leaves its other variables alone;
  otherwise ArgumentError is raised. After \<^verbatim>\<open>**\<close> anything else makes the call raise TypeError, or the ArgumentError of an
  argument before.\<close>

theorem script_call_binds:
  assumes "setup_params (Some ps) = Inr (Some info)" "distinct (leading_params ps)"
    and "splat call = None" "args_fit call"
  shows "\<exists>msg. case all_keywords h call of
      Some K \<Rightarrow> fill_args h (Some info) (length pre) call (pre @ replicate (formals info) Undef @ post)
        = (if acceptable info (pos_args call) K (block_arg call)
           then Inr (pre @ bound_locals info (pos_args call) K (block_arg call) @ post)
           else Inl (ArgumentError msg))
    | None \<Rightarrow> fill_args h (Some info) (length pre) call (pre @ replicate (formals info) Undef @ post)
        \<in> {Inl (ArgumentError msg), Inl (TypeError msg)}"
proof (cases "all_keywords h call")
  case None
  show ?thesis unfolding None option.case by (rule fill_args_bad_keywords[OF setup_params_ok[OF assms(1,2)] assms(3,4) None])
next
  case (Some K)
  show ?thesis unfolding Some option.case by (rule fill_args_binds[OF setup_params_ok[OF assms(1,2)] assms(3,4) Some])
qed

text \<open>\<^verbatim>\<open>def f(self, a, b: 0, *c, **d)\<close>, called as \<^verbatim>\<open>f(1, b: 2, x: 3)\<close>.\<close>

definition sample_info :: arg_info where
  "sample_info = \<lparr>argc = 2, varargc = 1, kwargc = 1, blockargc = 0, required_argc = 1, argnames = [10, 11]\<rparr>"

definition sample_call :: "nat call_args" where
  "sample_call = \<lparr>pos_args = [YFixnum 1], k_args = [(11, YFixnum 2), (12, YFixnum 3)], splat = None,
     k_splat = None, block_arg = None\<rparr>"

definition sample_objects :: "nat objects" where
  "sample_objects = \<lparr>array_of = [5 \<mapsto> [YFixnum 7, YFixnum 8]], dict_of = Map.empty\<rparr>"

lemma sample_info_setup:
  "setup_params (Some [Param 10 False, Param 11 True, VarParam 12, KwParam 13]) = Inr (Some sample_info)"
  by (simp add: setup_params_def sample_info_def)

theorem script_call_binds_witness:
  "\<exists>msg. case all_keywords sample_objects sample_call of
      Some K \<Rightarrow> fill_args sample_objects (Some sample_info) (length [Val (YPtr (1 :: nat))]) sample_call
          ([Val (YPtr 1)] @ replicate (formals sample_info) Undef @ [Undef])
        = (if acceptable sample_info (pos_args sample_call) K (block_arg sample_call)
           then Inr ([Val (YPtr 1)] @ bound_locals sample_info (pos_args sample_call) K (block_arg sample_call) @ [Undef])
           else Inl (ArgumentError msg))
    | None \<Rightarrow> fill_args sample_objects (Some sample_info) (length [Val (YPtr (1 :: nat))]) sample_call
          ([Val (YPtr 1)] @ replicate (formals sample_info) Undef @ [Undef])
        \<in> {Inl (ArgumentError msg), Inl (TypeError msg)}"
proof -
  have "distinct (leading_params [Param 10 False, Param 11 True, VarParam 12, KwParam 13])" "splat sample_call = None" "args_fit sample_call"
    by (simp_all add: sample_call_def args_fit_def)
  from script_call_binds[OF sample_info_setup this, of sample_objects "[Val (YPtr 1)]" "[Undef]"] show ?thesis .
qed

lemma sample_call_fit: "args_fit sample_call"
  by (simp add: sample_call_def args_fit_def)

lemma sample_call_bound:
  "fill_args sample_objects (Some sample_info) 1 sample_call (Val (YPtr 1) # replicate 4 Undef)
    = Inr [Val (YPtr 1), Val (YFixnum 1), Val (YFixnum 2), NewArray [], NewDict [YSymbol 12 \<mapsto> YFixnum 3]]"
  unfolding fill_args_def received_fit[OF sample_call_fit]
  by (simp add: sample_info_def sample_call_def fill_positional_def store_args_def fill_from_splat_def
      fill_rest_def fill_keywords_def assign_keyword_arg_def set_in_dict_def fill_block_def check_args_assigned_def
      mem_store_def mem_load_def numeral_eq_Suc)

text \<open>C18: When no parameter has a default value, passing an array with \<^verbatim>\<open>*\<close> is the same as writing its
  elements in the call, for every frame and all keywords, provided that the array has enough elements for the
  parameters, and not too many if there is no parameter for the rest, and that the call with its elements spelled out has at most 255
  positional arguments and at most 255 keywords: the counts of a call are bytes.\<close>

theorem splat_is_spelled_out:
  assumes "setup_params (Some ps) = Inr (Some info)" "distinct (leading_params ps)"
    and "required_argc info = argc info" "argc info < 2 ^ 64"
    and "splat call = Some (YPtr p)" "array_of h p = Some xs"
    and "argc info \<le> length (pos_args call) + length xs"
      "varargc info = 1 \<or> length (pos_args call) + length xs = argc info"
    and "length (pos_args call) + length xs < 256" "length (k_args call) < 256"
  shows "fill_args h (Some info) off call ls
    = fill_args h (Some info) off (call\<lparr>pos_args := pos_args call @ xs, splat := None\<rparr>) ls"
  by (rule fill_args_splat) (use assms setup_params_ok[OF assms(1,2)] in \<open>simp_all add: info_ok_def\<close>)

definition splat_info :: arg_info where
  "splat_info = \<lparr>argc = 2, varargc = 1, kwargc = 0, blockargc = 0, required_argc = 2, argnames = [10, 11]\<rparr>"

definition splat_call :: "nat call_args" where
  "splat_call = \<lparr>pos_args = [YFixnum 1], k_args = [], splat = Some (YPtr 5), k_splat = None, block_arg = None\<rparr>"

theorem splat_is_spelled_out_witness:
  "fill_args sample_objects (Some splat_info) 1 splat_call [Val (YPtr 1), Undef, Undef, Undef]
    = fill_args sample_objects (Some splat_info) 1
        (splat_call\<lparr>pos_args := pos_args splat_call @ [YFixnum 7, YFixnum 8], splat := None\<rparr>) [Val (YPtr 1), Undef, Undef, Undef]"
  by (rule splat_is_spelled_out[where ps = "[Param 10 False, Param 11 False, VarParam 12]" and p = 5])
    (simp_all add: setup_params_def splat_info_def splat_call_def sample_objects_def)



text \<open>The elements that the array has for parameters with a default value are lost.\<close>

lemma splat_loses_optional:
  "fill_args sample_objects (Some (splat_info\<lparr>required_argc := 0, varargc := 0\<rparr>)) 0
     (splat_call\<lparr>pos_args := []\<rparr>) [Undef, Undef] = Inr [Undef, Undef]"
  by (simp add: fill_args_def received_def splat_info_def splat_call_def fill_positional_def store_args_def fill_from_splat_def
      fill_rest_def fill_keywords_def fill_block_def check_args_assigned_def sample_objects_def check_array_def)

text \<open>Too many elements are ignored without an error.\<close>

lemma splat_ignores_surplus:
  "fill_args sample_objects (Some (splat_info\<lparr>required_argc := 1, argc := 1, argnames := [10], varargc := 0\<rparr>)) 0
     (splat_call\<lparr>pos_args := []\<rparr>) [Undef] = Inr [Val (YFixnum 7)]"
  by (simp add: fill_args_def received_def splat_info_def splat_call_def fill_positional_def store_args_def fill_from_splat_def
      fill_rest_def fill_keywords_def fill_block_def check_args_assigned_def sample_objects_def check_array_def
      mem_store_def mem_load_def)

text \<open>Of a call with 256 positional arguments the callee receives none.\<close>

lemma arguments_beyond_byte_lost:
  assumes "length (pos_args call) = 256"
  shows "fill_args h info off call ls = fill_args h info off (call\<lparr>pos_args := []\<rparr>) ls"
proof -
  have "received call = received (call\<lparr>pos_args := []\<rparr>)" using assms by (simp add: received_def)
  then show ?thesis by (simp only: fill_args_def)
qed

end
