(* ===== verification/YogNativeCalls.thy ===== *)
theory YogNativeCalls
  imports YogArguments
begin

text \<open>
  The arguments of functions written in C. Those of the first kind (\<^verbatim>\<open>YogNativeFunction\<close>) get an array and a dict,
  which they parse with \<^verbatim>\<open>YogGetArgs_parse_args\<close> of \<^verbatim>\<open>get_args.c\<close>; those of the second kind
  (\<^verbatim>\<open>YogNativeFunction2\<close>) declare their parameters and get one C argument for each. The dict of the keywords
  is a map, read in the order of its entries where the code iterates over it. Symbols and their
  names are translated by \<open>intern\<close> and \<open>id2name\<close>, the functions of \<^verbatim>\<open>vm.c\<close>.
\<close>

section \<open>The array and the dict of a call\<close>

definition create_positional_argument :: "'o objects \<Rightarrow> 'o call_args \<Rightarrow> 'o yval list res" where
  "create_positional_argument h written =
     (let call = received written in
      case splat call of
        None \<Rightarrow> Inr (pos_args call)
      | Some v \<Rightarrow> res_bind (check_array h v) (\<lambda>xs. Inr (pos_args call @ xs)))"

text \<open>The pairs that the loop \<^verbatim>\<open>for (i = 0; i < kwargc; i += 2)\<close> visits: \<^verbatim>\<open>kwargc\<close> is the number of pairs, \<^verbatim>\<open>kwargs[i]\<close>
  and \<^verbatim>\<open>kwargs[i + 1]\<close> are the pair \<open>i div 2\<close>.\<close>

definition visited_pairs :: "(id \<times> 'o yval) list \<Rightarrow> (id \<times> 'o yval) list" where
  "visited_pairs ks = map (\<lambda>i. ks ! (i div 2)) (filter even [0..<length ks])"

type_synonym 'o dict_entries = "('o yval \<times> 'o yval) list"

text \<open>A dict is the list of its entries; the keys that occur here are symbols.\<close>

definition dict_set :: "'o yval \<times> 'o yval \<Rightarrow> 'o dict_entries \<Rightarrow> 'o dict_entries" where
  "dict_set kv d =
     (if fst kv \<in> fst ` set d then map (\<lambda>e. if fst e = fst kv then kv else e) d else d @ [kv])"

definition create_keyword_argument :: "'o objects \<Rightarrow> 'o call_args \<Rightarrow> 'o dict_entries option res" where
  "create_keyword_argument h written =
     (let call = received written in
      if k_args call = [] \<and> k_splat call = None then Inr None
      else let kw = fold (\<lambda>(n, v). dict_set (YSymbol n, v)) (visited_pairs (k_args call)) []
           in case k_splat call of
                None \<Rightarrow> Inr (Some kw)
              | Some v \<Rightarrow> res_bind (check_dict h v) (\<lambda>es. Inr (Some (fold dict_set es kw))))"

section \<open>Parsing them\<close>

text \<open>The parameters are the names of the array of \<^verbatim>\<open>YogCArg\<close>, whose end is the NULL name. The variables that they
  point to are the list of what was assigned, \<open>Undef\<close> where nothing was.\<close>

fun finished :: "string list \<Rightarrow> bool" where
  "finished [] = True"
| "finished (n # ps) = (n = ''*'' \<or> n = ''**'')"

fun find_param :: "string list \<Rightarrow> string \<Rightarrow> bool res" where
  "find_param [] name = Inr False"
| "find_param (n # ps) name =
     (if finished (n # ps) then Inr False
      else if n = ''|''
      then (case ps of
              [] \<Rightarrow> Inl (YogBug ''invalid format'')
            | m # qs \<Rightarrow> if name = m then Inr True else find_param qs name)
      else if name = n then Inr True else find_param ps name)"

definition key_name :: "(id \<Rightarrow> string res) \<Rightarrow> (id \<Rightarrow> id) \<Rightarrow> 'o yval \<Rightarrow> string res" where
  "key_name id2name f key =
     (case key of YSymbol i \<Rightarrow> id2name (f i) | _ \<Rightarrow> Inl (YogBug ''key is not symbol (0x%08x)''))"

text \<open>\<^verbatim>\<open>copy_dict\<close> passes the tagged key itself to \<^verbatim>\<open>YogVM_id2name\<close>.\<close>

definition copy_dict :: "(id \<Rightarrow> string res) \<Rightarrow> string list \<Rightarrow> 'o dict_entries option \<Rightarrow> 'o dict_entries res" where
  "copy_dict id2name params src =
     (case src of
        None \<Rightarrow> Inr []
      | Some es \<Rightarrow>
          foldM (\<lambda>(key, val) d.
              res_bind (key_name id2name ID2VAL key) (\<lambda>name.
              res_bind (find_param params name) (\<lambda>found.
                Inr (if found then d else dict_set (key, val) d)))) es [])"

definition kw_lookup :: "'o dict_entries option \<Rightarrow> id \<Rightarrow> 'o yval option" where
  "kw_lookup kw i = (case kw of None \<Rightarrow> None | Some es \<Rightarrow> map_of es (YSymbol i))"

definition set_positional_arg :: "(string \<Rightarrow> id) \<Rightarrow> 'o dict_entries option \<Rightarrow> string \<Rightarrow> 'o yval \<Rightarrow> 'o local res" where
  "set_positional_arg intern kw name val =
     (if kw_lookup kw (intern name) \<noteq> None
      then Inl (TypeError ''Argument given by name (\"%s\") and position (%u)'') else Inr (Val val))"

definition set_keyword_arg :: "(string \<Rightarrow> id) \<Rightarrow> bool \<Rightarrow> 'o dict_entries option \<Rightarrow> string \<Rightarrow> 'o local res" where
  "set_keyword_arg intern optional kw name =
     (case kw_lookup kw (intern name) of
        Some v \<Rightarrow> Inr (Val v)
      | None \<Rightarrow> if optional then Inr Undef else Inl (TypeError ''Required argument \"%s\" not found''))"

text \<open>\<open>ACCEPT_OPT_MARK\<close>: the parameter that the mark stands before.\<close>

definition accept_opt_mark :: "string list \<Rightarrow> bool \<Rightarrow> (string list \<times> bool \<times> 'o local list)" where
  "accept_opt_mark ps optional = (if hd ps = ''|'' then (tl ps, True, [Undef]) else (ps, optional, []))"

fun set_positional_args :: "(string \<Rightarrow> id) \<Rightarrow> 'o dict_entries option \<Rightarrow> 'o yval list \<Rightarrow> string list \<Rightarrow> bool
    \<Rightarrow> ('o local list \<times> string list \<times> 'o yval list \<times> bool) res" where
  "set_positional_args intern kw [] ps optional = Inr ([], ps, [], optional)"
| "set_positional_args intern kw (v # vs) ps optional =
     (if finished ps then Inr ([], ps, v # vs, optional)
      else let (ps, optional, mark) = accept_opt_mark ps optional
           in case ps of
                [] \<Rightarrow> Inl MemFault
              | n # qs \<Rightarrow>
                  res_bind (set_positional_arg intern kw n v) (\<lambda>x.
                  res_bind (set_positional_args intern kw vs qs optional) (\<lambda>(xs, rest).
                    Inr (mark @ x # xs, rest))))"

text \<open>The third component is \<^verbatim>\<open>kw_num\<close>.\<close>

function (sequential) set_keyword_args :: "(string \<Rightarrow> id) \<Rightarrow> 'o dict_entries option \<Rightarrow> string list \<Rightarrow> bool
    \<Rightarrow> ('o local list \<times> string list \<times> nat) res" where
  "set_keyword_args intern kw ps optional =
     (if finished ps then Inr ([], ps, 0)
      else let (ps, optional, mark) = accept_opt_mark ps optional
           in case ps of
                [] \<Rightarrow> Inl MemFault
              | n # qs \<Rightarrow>
                  res_bind (set_keyword_arg intern optional kw n) (\<lambda>x.
                  res_bind (set_keyword_args intern kw qs optional) (\<lambda>(xs, rest, kw_num).
                    Inr (mark @ x # xs, rest, Suc kw_num))))"
  by pat_completeness auto
termination
proof (relation "measure (\<lambda>(_, _, ps, _). length ps)")
  fix intern :: "string \<Rightarrow> id" and kw :: "'o dict_entries option" and ps ps1 :: "string list" and optional opt1 :: bool
    and mark :: "'o local list" and x y n qs z
  assume a: "\<not> finished ps" "x = accept_opt_mark ps optional" "(ps1, y) = x" "(opt1, mark) = y" "ps1 = n # qs"
  then show "((intern, kw, qs, opt1), intern, kw, ps, optional) \<in> measure (\<lambda>(_, _, ps, _). length ps)"
    by (cases ps) (auto simp: accept_opt_mark_def split: if_splits)
qed simp

definition find_invalid_keyword :: "(id \<Rightarrow> string res) \<Rightarrow> string list \<Rightarrow> 'o dict_entries option \<Rightarrow> 'o yval option res" where
  "find_invalid_keyword id2name params kw =
     (case kw of
        None \<Rightarrow> Inr None
      | Some es \<Rightarrow>
          foldM (\<lambda>(key, _) r. case r of
              Some _ \<Rightarrow> Inr r
            | None \<Rightarrow>
                res_bind (key_name id2name (\<lambda>i. i) key) (\<lambda>name.
                res_bind (find_param params name) (\<lambda>found. Inr (if found then None else Some key)))) es None)"

definition too_many_arguments :: "'a res" where
  "too_many_arguments = Inl (TypeError ''%s() takes at most %u argument(s) (%u given)'')"

definition YogGetArgs_parse_args :: "(string \<Rightarrow> id) \<Rightarrow> (id \<Rightarrow> string res) \<Rightarrow> string list \<Rightarrow> 'o yval list
    \<Rightarrow> 'o dict_entries option \<Rightarrow> 'o local list res" where
  "YogGetArgs_parse_args intern id2name params args kw =
     res_bind (set_positional_args intern kw args params False) (\<lambda>(xs, ps, vs, optional).
     res_bind (set_keyword_args intern kw ps optional) (\<lambda>(ys, ps, kw_num).
       let args_index = length args - length vs; ds = xs @ ys;
           last = (\<lambda>ds ps.
             if ps \<noteq> [] \<and> hd ps = ''**''
             then res_bind (copy_dict id2name params kw) (\<lambda>d. Inr (ds @ [NewDict (map_of d)]))
             else let kw_size = (case kw of None \<Rightarrow> 0 | Some es \<Rightarrow> length es)
                  in if args_index + kw_num < length args + kw_size then too_many_arguments
                     else res_bind (find_invalid_keyword id2name params kw) (\<lambda>invalid.
                       case invalid of
                         Some _ \<Rightarrow> Inl (TypeError ''\"%I\" is an invalid keyword argument for this function'')
                       | None \<Rightarrow> Inr ds))
       in if ps \<noteq> [] \<and> hd ps = ''*''
          then (if tl ps = [] then Inr (ds @ [NewArray vs]) else last (ds @ [NewArray vs]) (tl ps))
          else if vs \<noteq> [] then too_many_arguments
          else last ds ps))"

section \<open>What a parse binds\<close>

definition plain :: "string \<Rightarrow> bool" where
  "plain n \<longleftrightarrow> n \<noteq> ''|'' \<and> n \<noteq> ''*'' \<and> n \<noteq> ''**''"

text \<open>Both loops of the parser.\<close>

definition parse_loops :: "(string \<Rightarrow> id) \<Rightarrow> 'o dict_entries option \<Rightarrow> 'o yval list \<Rightarrow> string list \<Rightarrow> bool
    \<Rightarrow> ('o local list \<times> string list \<times> 'o yval list \<times> nat) res" where
  "parse_loops intern kw args ps optional =
     res_bind (set_positional_args intern kw args ps optional) (\<lambda>(xs, ps, vs, optional).
     res_bind (set_keyword_args intern kw ps optional) (\<lambda>(ys, ps, k). Inr (xs @ ys, ps, vs, k)))"

lemma parse_loops_finished: "finished ps \<Longrightarrow> parse_loops intern kw args ps optional = Inr ([], ps, args, 0)"
  by (cases args) (simp_all add: parse_loops_def)

lemma parse_loops_keyword:
  assumes "plain n"
  shows "parse_loops intern kw [] (n # ps) optional =
    res_bind (set_keyword_arg intern optional kw n) (\<lambda>x.
    res_bind (parse_loops intern kw [] ps optional) (\<lambda>(xs, r, vs, k). Inr (x # xs, r, vs, Suc k)))"
  using assms by (cases "set_keyword_arg intern optional kw n"; cases "set_keyword_args intern kw ps optional")
    (auto simp: parse_loops_def plain_def accept_opt_mark_def simp del: set_keyword_args.simps
      simp: set_keyword_args.simps[of _ _ "n # ps"])

lemma parse_loops_positional:
  assumes "plain n"
  shows "parse_loops intern kw (v # vs) (n # ps) optional =
    res_bind (set_positional_arg intern kw n v) (\<lambda>x.
    res_bind (parse_loops intern kw vs ps optional) (\<lambda>(xs, r, us, k). Inr (x # xs, r, us, k)))"
  using assms by (cases "set_positional_arg intern kw n v"; cases "set_positional_args intern kw vs ps optional")
    (auto simp: parse_loops_def plain_def accept_opt_mark_def res_bind_assoc split_def simp del: set_keyword_args.simps)

lemma set_positional_mark:
  assumes "plain n"
  shows "set_positional_args intern kw (v # vs) (''|'' # n # ps) optional =
    res_bind (set_positional_args intern kw (v # vs) (n # ps) True) (\<lambda>(xs, r). Inr (Undef # xs, r))"
  using assms by (cases "set_positional_arg intern kw n v"; cases "set_positional_args intern kw vs ps True")
    (auto simp: plain_def accept_opt_mark_def)

lemma set_keyword_mark:
  assumes "plain n"
  shows "set_keyword_args intern kw (''|'' # n # ps) optional =
    res_bind (set_keyword_args intern kw (n # ps) True) (\<lambda>(xs, r). Inr (Undef # xs, r))"
  using assms unfolding set_keyword_args.simps[of _ _ "n # ps"] set_keyword_args.simps[of _ _ "''|'' # n # ps"]
  by (cases "set_keyword_arg intern True kw n"; cases "set_keyword_args intern kw ps True")
    (auto simp: plain_def accept_opt_mark_def simp del: set_keyword_args.simps)

lemma parse_loops_mark:
  assumes "plain n"
  shows "parse_loops intern kw args (''|'' # n # ps) optional =
    res_bind (parse_loops intern kw args (n # ps) True) (\<lambda>(xs, r). Inr (Undef # xs, r))"
proof (cases args)
  case Nil
  show ?thesis unfolding Nil parse_loops_def set_positional_args.simps res_bind_simps prod.case set_keyword_mark[OF assms]
    by (cases "set_keyword_args intern kw (n # ps) True") (auto simp del: set_keyword_args.simps)
next
  case (Cons v vs)
  show ?thesis unfolding Cons parse_loops_def set_positional_mark[OF assms]
    by (cases "set_positional_args intern kw (v # vs) (n # ps) True")
      (auto simp: res_bind_assoc split_def simp del: set_keyword_args.simps set_positional_args.simps)
qed

text \<open>The value of the parameter \<open>n\<close> that is the \<open>i\<close>th.\<close>

definition native_slot :: "(string \<Rightarrow> id) \<Rightarrow> 'o dict_entries option \<Rightarrow> 'o yval list \<Rightarrow> string list \<Rightarrow> nat \<Rightarrow> 'o local" where
  "native_slot intern kw args ns i =
     (if i < length args then Val (args ! i)
      else case kw_lookup kw (intern (ns ! i)) of Some v \<Rightarrow> Val v | None \<Rightarrow> Undef)"

definition native_given :: "(string \<Rightarrow> id) \<Rightarrow> 'o dict_entries option \<Rightarrow> 'o yval list \<Rightarrow> bool \<Rightarrow> string list \<Rightarrow> bool" where
  "native_given intern kw args optional ns \<longleftrightarrow>
     (\<forall>i<length ns. if i < length args then kw_lookup kw (intern (ns ! i)) = None
                    else optional \<or> kw_lookup kw (intern (ns ! i)) \<noteq> None)"

lemma native_given_Cons:
  "native_given intern kw (v # vs) optional (n # ns) \<longleftrightarrow>
     kw_lookup kw (intern n) = None \<and> native_given intern kw vs optional ns"
  "native_given intern kw [] optional (n # ns) \<longleftrightarrow>
     (optional \<or> kw_lookup kw (intern n) \<noteq> None) \<and> native_given intern kw [] optional ns"
  by (simp_all add: native_given_def All_less_Suc2)

lemma native_slots_Cons:
  "map (native_slot intern kw (v # vs) (n # ns)) [0..<Suc k] = Val v # map (native_slot intern kw vs ns) [0..<k]"
  "map (native_slot intern kw [] (n # ns)) [0..<Suc k]
    = (case kw_lookup kw (intern n) of Some x \<Rightarrow> Val x | None \<Rightarrow> Undef) # map (native_slot intern kw [] ns) [0..<k]"
  by (simp_all add: map_upt_Suc native_slot_def del: upt_Suc)

lemma parse_loops_names:
  assumes "\<forall>n\<in>set ns. plain n"
  shows "\<exists>msg. parse_loops intern kw args (ns @ ps) optional
    = (if native_given intern kw args optional ns
       then res_bind (parse_loops intern kw (drop (length ns) args) ps optional) (\<lambda>(xs, r, vs, k).
              Inr (map (native_slot intern kw args ns) [0..<length ns] @ xs, r, vs, k + (length ns - length args)))
       else Inl (TypeError msg))"
  using assms
proof (induction ns arbitrary: args)
  case Nil
  have "native_given intern kw args optional []" by (simp add: native_given_def)
  then show ?case by (cases "parse_loops intern kw args ps optional") auto
next
  case (Cons n ns)
  have n: "plain n" using Cons.prems by simp
  show ?case
  proof (cases args)
    case (Cons v vs)
    obtain msg where IH: "parse_loops intern kw vs (ns @ ps) optional
      = (if native_given intern kw vs optional ns
         then res_bind (parse_loops intern kw (drop (length ns) vs) ps optional) (\<lambda>(xs, r, us, k).
              Inr (map (native_slot intern kw vs ns) [0..<length ns] @ xs, r, us, k + (length ns - length vs)))
         else Inl (TypeError msg))" using Cons.IH[of vs] Cons.prems by auto
    show ?thesis
    proof (cases "kw_lookup kw (intern n)")
      case None
      then show ?thesis unfolding Cons append_Cons parse_loops_positional[OF n] IH
        by (cases "parse_loops intern kw (drop (length ns) vs) ps optional")
          (auto simp: set_positional_arg_def native_given_Cons native_slots_Cons simp del: upt_Suc)
    next
      case (Some x)
      then show ?thesis unfolding Cons append_Cons parse_loops_positional[OF n]
        by (auto simp: set_positional_arg_def native_given_Cons)
    qed
  next
    case Nil
    obtain msg where IH: "parse_loops intern kw [] (ns @ ps) optional
      = (if native_given intern kw [] optional ns
         then res_bind (parse_loops intern kw (drop (length ns) []) ps optional) (\<lambda>(xs, r, us, k).
              Inr (map (native_slot intern kw [] ns) [0..<length ns] @ xs, r, us, k + (length ns - length ([] :: 'a yval list))))
         else Inl (TypeError msg))" using Cons.IH[of "[]"] Cons.prems by auto
    show ?thesis
    proof (cases "optional \<or> kw_lookup kw (intern n) \<noteq> None")
      case True
      then show ?thesis unfolding Nil append_Cons parse_loops_keyword[OF n] IH
        by (cases "parse_loops intern kw [] ps optional"; cases "kw_lookup kw (intern n)")
          (auto simp: set_keyword_arg_def native_given_Cons native_slots_Cons simp del: upt_Suc)
    next
      case False
      then show ?thesis unfolding Nil append_Cons parse_loops_keyword[OF n]
        by (auto simp: set_keyword_arg_def native_given_Cons)
    qed
  qed
qed

text \<open>A C function with the parameters \<open>R\<close>, the optional ones \<open>Q\<close>, and one for the rest if \<open>star\<close>.\<close>

definition c_params :: "string list \<Rightarrow> string list \<Rightarrow> bool \<Rightarrow> string list" where
  "c_params R Q star = R @ (if Q = [] then [] else ''|'' # Q) @ (if star then [''*''] else [])"

definition entries_of :: "'o dict_entries option \<Rightarrow> 'o dict_entries" where
  "entries_of kw = (case kw of None \<Rightarrow> [] | Some es \<Rightarrow> es)"

text \<open>The keys of the keywords are symbols; \<open>intern\<close> gives a parameter the identifier of a key just if it has
  its name.\<close>

definition interned :: "(string \<Rightarrow> id) \<Rightarrow> (id \<Rightarrow> string res) \<Rightarrow> string list \<Rightarrow> 'o dict_entries option \<Rightarrow> bool" where
  "interned intern id2name ns kw \<longleftrightarrow> distinct (map fst (entries_of kw))
     \<and> (\<forall>key\<in>fst ` set (entries_of kw). \<exists>i s. key = YSymbol i \<and> id2name i = Inr s \<and> (\<forall>n\<in>set ns. intern n = i \<longleftrightarrow> n = s))"

definition native_acceptable :: "(string \<Rightarrow> id) \<Rightarrow> string list \<Rightarrow> string list \<Rightarrow> bool \<Rightarrow> 'o yval list \<Rightarrow> 'o dict_entries option \<Rightarrow> bool" where
  "native_acceptable intern R Q star args kw \<longleftrightarrow>
     (length args \<le> length (R @ Q) \<or> star)
     \<and> (\<forall>i<length (R @ Q). if i < length args then kw_lookup kw (intern ((R @ Q) ! i)) = None
          else length R \<le> i \<or> kw_lookup kw (intern ((R @ Q) ! i)) \<noteq> None)
     \<and> (star \<or> fst ` set (entries_of kw) \<subseteq> YSymbol ` intern ` set (R @ Q))"

definition native_bound :: "(string \<Rightarrow> id) \<Rightarrow> string list \<Rightarrow> string list \<Rightarrow> bool \<Rightarrow> 'o yval list \<Rightarrow> 'o dict_entries option \<Rightarrow> 'o local list" where
  "native_bound intern R Q star args kw =
     map (native_slot intern kw args (R @ Q)) [0..<length R]
     @ (if Q = [] then [] else [Undef])
     @ map (native_slot intern kw args (R @ Q)) [length R..<length R + length Q]
     @ (if star then [NewArray (drop (length R + length Q) args)] else [])"

lemma native_given_append:
  "(\<forall>i<length (R @ Q). if i < length args then kw_lookup kw (intern ((R @ Q) ! i)) = None
      else length R \<le> i \<or> kw_lookup kw (intern ((R @ Q) ! i)) \<noteq> None)
   \<longleftrightarrow> native_given intern kw args False R \<and> native_given intern kw (drop (length R) args) True Q" (is "?A \<longleftrightarrow> ?B")
proof
  assume A: ?A
  have "native_given intern kw args False R"
    unfolding native_given_def
  proof (intro allI impI)
    fix i assume i: "i < length R"
    then show "if i < length args then kw_lookup kw (intern (R ! i)) = None else False \<or> kw_lookup kw (intern (R ! i)) \<noteq> None"
      using A[rule_format, of i] by (auto simp: nth_append split: if_splits)
  qed
  moreover have "native_given intern kw (drop (length R) args) True Q"
    unfolding native_given_def
  proof (intro allI impI)
    fix i assume i: "i < length Q"
    then show "if i < length (drop (length R) args) then kw_lookup kw (intern (Q ! i)) = None
        else True \<or> kw_lookup kw (intern (Q ! i)) \<noteq> None"
      using A[rule_format, of "length R + i"] by (simp add: nth_append less_diff_conv add.commute split: if_splits)
  qed
  ultimately show ?B ..
next
  assume B: ?B
  show ?A
  proof (intro allI impI)
    fix i assume i: "i < length (R @ Q)"
    show "if i < length args then kw_lookup kw (intern ((R @ Q) ! i)) = None
      else length R \<le> i \<or> kw_lookup kw (intern ((R @ Q) ! i)) \<noteq> None"
    proof (cases "i < length R")
      case True
      then show ?thesis using B[unfolded native_given_def, THEN conjunct1, rule_format, of i] by (auto simp: nth_append split: if_splits)
    next
      case False
      then obtain j where j: "i = length R + j" by (metis le_Suc_ex not_le)
      then show ?thesis using B[unfolded native_given_def, THEN conjunct2, rule_format, of j] i
        by (simp add: nth_append less_diff_conv add.commute)
    qed
  qed
qed

lemma native_slots_append:
  "map (native_slot intern kw args R) [0..<length R] = map (native_slot intern kw args (R @ Q)) [0..<length R]"
  "map (native_slot intern kw (drop (length R) args) Q) [0..<length Q]
    = map (native_slot intern kw args (R @ Q)) [length R..<length R + length Q]"
proof -
  show "map (native_slot intern kw args R) [0..<length R] = map (native_slot intern kw args (R @ Q)) [0..<length R]"
    by (auto simp: native_slot_def nth_append)
  have "native_slot intern kw (drop (length R) args) Q i = native_slot intern kw args (R @ Q) (length R + i)" if "i < length Q" for i
    using that by (auto simp: native_slot_def nth_append less_diff_conv add.commute)
  then show "map (native_slot intern kw (drop (length R) args) Q) [0..<length Q]
    = map (native_slot intern kw args (R @ Q)) [length R..<length R + length Q]"
    by (intro nth_equalityI) auto
qed

lemma parse_loops_c_params:
  assumes "\<forall>n\<in>set (R @ Q). plain n"
  shows "\<exists>msg. parse_loops intern kw args (c_params R Q star) False
    = (if native_given intern kw args False R \<and> native_given intern kw (drop (length R) args) True Q
       then Inr (map (native_slot intern kw args (R @ Q)) [0..<length R] @ (if Q = [] then [] else [Undef])
              @ map (native_slot intern kw args (R @ Q)) [length R..<length R + length Q],
            (if star then [''*''] else []), drop (length R + length Q) args, length R + length Q - length args)
       else Inl (TypeError msg))"
proof -
  let ?fin = "if star then [''*''] else []"
  have fin: "finished ?fin" by simp
  let ?tail = "(if Q = [] then [] else ''|'' # Q) @ ?fin"
  obtain m1 where r: "parse_loops intern kw args (R @ ?tail) False
    = (if native_given intern kw args False R
       then res_bind (parse_loops intern kw (drop (length R) args) ?tail False) (\<lambda>(xs, r, vs, k).
              Inr (map (native_slot intern kw args R) [0..<length R] @ xs, r, vs, k + (length R - length args)))
       else Inl (TypeError m1))" using parse_loops_names[of R intern kw args ?tail False] assms by auto
  obtain m2 where q: "parse_loops intern kw (drop (length R) args) (Q @ ?fin) True
    = (if native_given intern kw (drop (length R) args) True Q
       then Inr (map (native_slot intern kw (drop (length R) args) Q) [0..<length Q], ?fin,
              drop (length R + length Q) args, length Q - (length args - length R))
       else Inl (TypeError m2))"
  proof -
    obtain m2 where e: "parse_loops intern kw (drop (length R) args) (Q @ ?fin) True
      = (if native_given intern kw (drop (length R) args) True Q
         then res_bind (parse_loops intern kw (drop (length Q) (drop (length R) args)) ?fin True) (\<lambda>(xs, r, vs, k).
              Inr (map (native_slot intern kw (drop (length R) args) Q) [0..<length Q] @ xs, r, vs,
                k + (length Q - length (drop (length R) args))))
         else Inl (TypeError m2))"
      using parse_loops_names[of Q intern kw "drop (length R) args" ?fin True] assms by auto
    show thesis
      by (rule that[of m2], cases "native_given intern kw (drop (length R) args) True Q")
        (simp_all add: e parse_loops_finished[OF fin] add.commute)
  qed
  have k: "length Q - (length args - length R) + (length R - length args) = length R + length Q - length args" by arith
  have t: "parse_loops intern kw (drop (length R) args) ?tail False
      = (if native_given intern kw (drop (length R) args) True Q
         then Inr ((if Q = [] then [] else [Undef]) @ map (native_slot intern kw (drop (length R) args) Q) [0..<length Q], ?fin,
              drop (length R + length Q) args, length Q - (length args - length R))
         else Inl (TypeError m2))"
  proof (cases Q)
    case Nil
    then show ?thesis using parse_loops_finished[OF fin, of intern kw "drop (length R) args" False]
      by (simp add: native_given_def add.commute)
  next
    case (Cons n ns)
    then have "plain n" using assms by simp
    then show ?thesis using parse_loops_mark[of n intern kw "drop (length R) args" "ns @ ?fin" False] q
      unfolding Cons by simp
  qed
  show ?thesis
    using r t k unfolding c_params_def native_slots_append(2)[of intern kw R args Q] native_slots_append(1)[of intern kw args R Q]
    by auto
qed

lemma find_param_names:
  "\<forall>n\<in>set ns. plain n \<Longrightarrow> find_param (ns @ ps) name = (if name \<in> set ns then Inr True else find_param ps name)"
  by (induction ns) (auto simp: plain_def)

lemma find_param_mark:
  "plain n \<Longrightarrow> find_param (''|'' # n # ps) name = find_param (n # ps) name"
  by (auto simp: plain_def)

lemma find_param_c_params:
  assumes "\<forall>n\<in>set (R @ Q). plain n"
  shows "find_param (c_params R Q star) name = Inr (name \<in> set (R @ Q))"
proof -
  let ?fin = "if star then [''*''] else []"
  have f: "find_param ?fin name = Inr False" by simp
  have "find_param ((if Q = [] then [] else ''|'' # Q) @ ?fin) name = Inr (name \<in> set Q)"
  proof (cases Q)
    case (Cons n ns)
    have "find_param (''|'' # Q @ ?fin) name = find_param (Q @ ?fin) name"
      unfolding Cons append_Cons by (rule find_param_mark) (use assms Cons in simp)
    moreover have "find_param (Q @ ?fin) name = Inr (name \<in> set Q)"
      using find_param_names[of Q ?fin name] assms f by (simp split del: if_split)  auto
    moreover have "(if Q = [] then [] else ''|'' # Q) @ ?fin = ''|'' # Q @ ?fin" using Cons by simp
    ultimately show ?thesis by (simp only:)
  qed (use f in simp)
  then show ?thesis using find_param_names[of R _ name] assms by (simp add: c_params_def)
qed

definition find_invalid_step :: "(id \<Rightarrow> string res) \<Rightarrow> string list \<Rightarrow> 'o yval \<times> 'o yval \<Rightarrow> 'o yval option \<Rightarrow> 'o yval option res" where
  "find_invalid_step id2name params = (\<lambda>(key, _) r. case r of
      Some _ \<Rightarrow> Inr r
    | None \<Rightarrow>
        res_bind (key_name id2name (\<lambda>i. i) key) (\<lambda>name.
        res_bind (find_param params name) (\<lambda>found. Inr (if found then None else Some key))))"

lemma find_invalid_step:
  assumes "id2name i = Inr s" "\<And>name. find_param params name = Inr (name \<in> N)"
  shows "find_invalid_step id2name params (YSymbol i, v) r
    = Inr (case r of Some x \<Rightarrow> Some x | None \<Rightarrow> if s \<in> N then None else Some (YSymbol i))"
  using assms by (cases r) (simp_all add: find_invalid_step_def key_name_def)

lemma find_invalid_steps:
  assumes "\<And>name. find_param params name = Inr (name \<in> N)"
    and "\<forall>key\<in>fst ` set ds. \<exists>i s. key = YSymbol i \<and> id2name i = Inr s \<and> (\<forall>n\<in>N. intern n = i \<longleftrightarrow> n = s)"
  shows "\<exists>r. foldM (find_invalid_step id2name params) ds r0 = Inr r
    \<and> (r = None \<longleftrightarrow> r0 = None \<and> fst ` set ds \<subseteq> YSymbol ` intern ` N)"
  using assms(2)
proof (induction ds arbitrary: r0)
  case (Cons d ds)
  obtain key v where d: "d = (key, v)" by fastforce
  have "key \<in> fst ` set (d # ds)" using d by simp
  then obtain i s where i: "key = YSymbol i" "id2name i = Inr s" "\<forall>n\<in>N. intern n = i \<longleftrightarrow> n = s"
    using Cons.prems by blast
  have N: "s \<in> N \<longleftrightarrow> key \<in> YSymbol ` intern ` N"
  proof
    assume "s \<in> N"
    then have "intern s = i" using bspec[OF i(3), of s] by simp
    then show "key \<in> YSymbol ` intern ` N" using i(1) \<open>s \<in> N\<close> by blast
  next
    assume "key \<in> YSymbol ` intern ` N"
    then obtain n where n: "n \<in> N" "intern n = i" using i(1) by blast
    then have "n = s" using bspec[OF i(3) n(1)] by simp
    then show "s \<in> N" using n(1) by simp
  qed
  define r1 where "r1 = (case r0 of Some x \<Rightarrow> Some x | None \<Rightarrow> if s \<in> N then None else Some (YSymbol i))"
  have f: "find_invalid_step id2name params d r0 = Inr r1"
    unfolding d i(1) r1_def by (rule find_invalid_step[of id2name i s, OF i(2)]) (rule assms(1))
  have r1: "r1 = None \<longleftrightarrow> r0 = None \<and> key \<in> YSymbol ` intern ` N" using N by (simp add: r1_def split: option.splits)
  have "\<exists>r. foldM (find_invalid_step id2name params) ds r1 = Inr r
    \<and> (r = None \<longleftrightarrow> r1 = None \<and> fst ` set ds \<subseteq> YSymbol ` intern ` N)"
  proof (rule Cons.IH, rule ballI)
    fix k assume "k \<in> fst ` set ds"
    then have "k \<in> fst ` set (d # ds)" by simp
    then show "\<exists>i s. k = YSymbol i \<and> id2name i = Inr s \<and> (\<forall>n\<in>N. intern n = i \<longleftrightarrow> n = s)"
      using Cons.prems by blast
  qed
  then show ?case unfolding foldM.simps f res_bind_simps r1 by (simp add: d)
qed simp

lemma find_invalid_spec:
  assumes "\<forall>n\<in>set (R @ Q). plain n" "interned intern id2name (R @ Q) kw"
  shows "\<exists>r. find_invalid_keyword id2name (c_params R Q star) kw = Inr r
    \<and> (r = None \<longleftrightarrow> fst ` set (entries_of kw) \<subseteq> YSymbol ` intern ` set (R @ Q))"
proof (cases kw)
  case None
  then show ?thesis by (simp add: find_invalid_keyword_def entries_of_def)
next
  case (Some es)
  have "\<forall>key\<in>fst ` set es. \<exists>i s. key = YSymbol i \<and> id2name i = Inr s \<and> (\<forall>n\<in>set (R @ Q). intern n = i \<longleftrightarrow> n = s)"
    using assms(2) Some by (simp add: interned_def entries_of_def)
  from find_invalid_steps[OF find_param_c_params[OF assms(1)] this, of star None] show ?thesis
    unfolding find_invalid_keyword_def find_invalid_step_def Some entries_of_def option.case by simp
qed

lemma keyword_count:
  fixes kw :: "'o dict_entries option"
  assumes "interned intern id2name ms kw"
    and given: "\<forall>i<length ns. i < length args \<longrightarrow> kw_lookup kw (intern (ns ! i)) = None"
    and keys: "fst ` set (entries_of kw) \<subseteq> YSymbol ` intern ` set ns"
  shows "length (entries_of kw) \<le> length ns - length args"
proof -
  let ?es = "entries_of kw"
  let ?rest = "drop (length args) ns"
  have lookup: "kw_lookup kw i \<noteq> None" if "YSymbol i \<in> fst ` set ?es" for i
    using that by (cases kw) (auto simp: kw_lookup_def entries_of_def map_of_eq_None_iff)
  have "fst ` set ?es \<subseteq> YSymbol ` intern ` set ?rest"
  proof
    fix key assume key: "key \<in> fst ` set ?es"
    then obtain n where n: "n \<in> set ns" "key = YSymbol (intern n)" using keys by blast
    then obtain i where i: "i < length ns" "n = ns ! i" by (metis in_set_conv_nth)
    have "kw_lookup kw (intern n) \<noteq> None" by (rule lookup) (use key n(2) in simp)
    then have "length args \<le> i" using given i by (meson not_le)
    then have "n = ?rest ! (i - length args)" "i - length args < length ?rest" using i by simp_all
    then have "n \<in> set ?rest" by (metis nth_mem)
    then show "key \<in> YSymbol ` intern ` set ?rest" using n(2) by blast
  qed
  then have "card (fst ` set ?es) \<le> card (YSymbol ` intern ` set ?rest :: 'o yval set)"
    by (intro card_mono) simp_all
  also have "\<dots> \<le> card (intern ` set ?rest)" by (rule card_image_le) simp
  also have "\<dots> \<le> card (set ?rest)" by (rule card_image_le) simp
  also have "\<dots> \<le> length ?rest" by (rule card_length)
  finally have "card (fst ` set ?es) \<le> length ns - length args" by simp
  moreover have "card (set (map fst ?es)) = length (map fst ?es)"
    by (rule distinct_card) (use assms(1) in \<open>simp add: interned_def\<close>)
  ultimately show ?thesis by simp
qed

text \<open>C16: The parser of the arguments of C functions accepts a call exactly when every parameter gets
  at most one value, every parameter before the mark of the optional ones gets one, and (unless
  the function takes the rest) there are neither more arguments than parameters nor keywords that
  name no parameter; then each variable gets the argument of its position or of its name, and
  the rest gets the arguments that are left. Otherwise TypeError is raised.\<close>

theorem parse_args_binds:
  assumes "\<forall>n\<in>set (R @ Q). plain n" "interned intern id2name (R @ Q) kw"
  shows "\<exists>msg. YogGetArgs_parse_args intern id2name (c_params R Q star) args kw
    = (if native_acceptable intern R Q star args kw then Inr (native_bound intern R Q star args kw)
       else Inl (TypeError msg))"
proof -
  define G where "G \<longleftrightarrow> native_given intern kw args False R \<and> native_given intern kw (drop (length R) args) True Q"
  define D where "D = map (native_slot intern kw args (R @ Q)) [0..<length R] @ (if Q = [] then [] else [Undef])
              @ map (native_slot intern kw args (R @ Q)) [length R..<length R + length Q]"
  define n where "n = length R + length Q"
  define K where "K \<longleftrightarrow> fst ` set (entries_of kw) \<subseteq> YSymbol ` intern ` set (R @ Q)"
  let ?ps = "c_params R Q star"
  let ?last = "\<lambda>args_index kw_num ds ps.
     if ps \<noteq> [] \<and> hd ps = ''**''
     then res_bind (copy_dict id2name ?ps kw) (\<lambda>d. Inr (ds @ [NewDict (map_of d)]))
     else let kw_size = (case kw of None \<Rightarrow> 0 | Some es \<Rightarrow> length es)
          in if args_index + kw_num < length args + kw_size then too_many_arguments
             else res_bind (find_invalid_keyword id2name ?ps kw) (\<lambda>invalid.
               case invalid of
                 Some _ \<Rightarrow> Inl (TypeError ''\"%I\" is an invalid keyword argument for this function'')
               | None \<Rightarrow> Inr ds)"
  obtain m1 where "parse_loops intern kw args ?ps False
    = (if G then Inr (D, (if star then [''*''] else []), drop n args, n - length args) else Inl (TypeError m1))"
    unfolding G_def D_def n_def using parse_loops_c_params[OF assms(1), of intern kw args star] by blast
  then have loops: "G \<Longrightarrow> parse_loops intern kw args ?ps False
      = Inr (D, (if star then [''*''] else []), drop n args, n - length args)"
    and fails: "\<not> G \<Longrightarrow> parse_loops intern kw args ?ps False = Inl (TypeError m1)"
    by simp_all
  have parse: "YogGetArgs_parse_args intern id2name ?ps args kw
    = res_bind (parse_loops intern kw args ?ps False) (\<lambda>(ds, ps, vs, kw_num).
       let args_index = length args - length vs
       in if ps \<noteq> [] \<and> hd ps = ''*''
          then (if tl ps = [] then Inr (ds @ [NewArray vs]) else ?last args_index kw_num (ds @ [NewArray vs]) (tl ps))
          else if vs \<noteq> [] then too_many_arguments else ?last args_index kw_num ds ps)"
    by (simp only: YogGetArgs_parse_args_def parse_loops_def res_bind_assoc Let_def split_def res_bind_simps prod.sel fst_conv snd_conv)
  obtain r where r: "find_invalid_keyword id2name ?ps kw = Inr r" "r = None \<longleftrightarrow> K"
    using find_invalid_spec[OF assms(1,2), of star, folded K_def] by (elim exE conjE) (rule that)
  have acc: "native_acceptable intern R Q star args kw \<longleftrightarrow> (length args \<le> n \<or> star) \<and> G \<and> (star \<or> K)"
    unfolding native_acceptable_def native_given_append G_def K_def n_def by (simp only: length_append)
  have bound: "native_bound intern R Q star args kw = D @ (if star then [NewArray (drop n args)] else [])"
    by (simp add: native_bound_def D_def n_def)
  have size: "(case kw of None \<Rightarrow> 0 | Some es \<Rightarrow> length es) = length (entries_of kw)"
    by (simp add: entries_of_def split: option.splits)
  have count: "length (entries_of kw) \<le> n - length args" if G K
  proof -
    have "\<forall>i<length (R @ Q). i < length args \<longrightarrow> kw_lookup kw (intern ((R @ Q) ! i)) = None"
      using \<open>G\<close>[unfolded G_def, folded native_given_append] by (auto split: if_splits)
    from keyword_count[OF assms(2) this \<open>K\<close>[unfolded K_def]] show ?thesis by (simp add: n_def)
  qed
  consider "\<not> G" | "G" "star" | "G" "\<not> star" "n < length args" | "G" "\<not> star" "length args \<le> n" by fastforce
  then show ?thesis
  proof cases
    case 1
    then show ?thesis unfolding acc parse fails[OF 1] by simp
  next
    case 2
    then show ?thesis unfolding acc parse loops[OF 2(1)] bound by simp
  next
    case 3
    then show ?thesis unfolding acc parse loops[OF 3(1)] by (simp add: too_many_arguments_def)
  next
    case 4
    then show ?thesis unfolding acc parse loops[OF 4(1)] bound size r(1) using count r(2)
      by (cases r) (auto simp: too_many_arguments_def)
  qed
qed

text \<open>\<^verbatim>\<open>{"a", "|", "b"}\<close>, called with \<^verbatim>\<open>(1, b: 2)\<close>.\<close>

definition native_intern :: "string \<Rightarrow> id" where
  "native_intern n = (if n = ''a'' then 10 else 11)"

theorem parse_args_binds_witness:
  "\<exists>msg. YogGetArgs_parse_args native_intern (\<lambda>i. Inr (if i = 10 then ''a'' else ''b'')) (c_params [''a''] [''b''] False)
      [YFixnum 1] (Some [(YSymbol 11, YFixnum 2)])
    = (if native_acceptable native_intern [''a''] [''b''] False [YFixnum 1] (Some [(YSymbol 11, YFixnum 2)] :: nat dict_entries option)
       then Inr (native_bound native_intern [''a''] [''b''] False [YFixnum 1] (Some [(YSymbol 11, YFixnum 2)] :: nat dict_entries option))
       else Inl (TypeError msg))"
  by (rule parse_args_binds) (simp_all add: plain_def interned_def entries_of_def native_intern_def)

lemma native_sample:
  "YogGetArgs_parse_args native_intern (\<lambda>i. Inr (if i = 10 then ''a'' else ''b'')) [''a'', ''|'', ''b'']
      [YFixnum 1] (Some [(YSymbol 11, YFixnum 2)] :: nat dict_entries option)
    = Inr [Val (YFixnum 1), Undef, Val (YFixnum 2)]"
  by (simp add: YogGetArgs_parse_args_def set_positional_arg_def set_keyword_arg_def accept_opt_mark_def kw_lookup_def
      find_invalid_keyword_def key_name_def native_intern_def)

text \<open>A function that takes the rest of the positional arguments accepts any keyword.\<close>

lemma parse_args_star_ignores_keywords:
  "YogGetArgs_parse_args native_intern id2name [''*''] [] (Some [(YSymbol 99, v)]) = Inr [NewArray []]"
  by (simp add: YogGetArgs_parse_args_def)

text \<open>\<^verbatim>\<open>copy_dict\<close> looks up the name of the tagged key instead of its identifier.\<close>

lemma copy_dict_tagged_name:
  "copy_dict id2name ps (Some [(YSymbol i, v)])
    = res_bind (id2name (ID2VAL i)) (\<lambda>name. res_bind (find_param ps name) (\<lambda>found. Inr (if found then [] else [(YSymbol i, v)])))"
  by (cases "id2name (ID2VAL i)"; cases "find_param ps (projr (id2name (ID2VAL i)))") (auto simp: copy_dict_def key_name_def dict_set_def)

end
