(* ===== verification/YogNativeFunction2.thy ===== *)
theory YogNativeFunction2
  imports YogNativeCalls
begin

text \<open>
  C functions of the second kind (\<^verbatim>\<open>YogNativeFunction2\<close> of \<^verbatim>\<open>callable.c\<close>), which declare the names of
  their parameters and get one C argument for each. A slot of the C array \<^verbatim>\<open>args\<close> is NULL, the handle of an
  argument, or the handle of the array or the dict that collects the rest; the contents of these
  two are kept beside the slots. \<open>bits\<close> gives the machine word of a value.
\<close>

section \<open>The declaration\<close>

record native_arg =
  arg_name :: id
  arg_optional :: bool

record native_function =
  formal_args :: "native_arg list"
  posargs_num :: nat
  vararg_pos :: "nat option"
  varkwarg_pos :: "nat option"

abbreviation args_num :: "native_function \<Rightarrow> nat" where
  "args_num f \<equiv> length (formal_args f)"

fun init_args :: "(string \<Rightarrow> id) \<Rightarrow> bool \<Rightarrow> string list \<Rightarrow> native_arg list" where
  "init_args intern optional [] = []"
| "init_args intern optional (n # ns) =
     (if n = ''|'' then init_args intern True ns
      else \<lparr>arg_name = intern n, arg_optional = optional\<rparr> # init_args intern optional ns)"

fun special_param :: "string \<Rightarrow> bool" where
  "special_param [] = False"
| "special_param (c # _) = (c = CHR ''|'' \<or> c = CHR ''*'' \<or> c = CHR ''&'')"

definition find_special_arg :: "native_arg list \<Rightarrow> id \<Rightarrow> nat option" where
  "find_special_arg args name = find_name (map arg_name args) name"

definition YogNativeFunction2_new :: "(string \<Rightarrow> id) \<Rightarrow> string list \<Rightarrow> native_function" where
  "YogNativeFunction2_new intern names =
     (let args = init_args intern False names
      in \<lparr>formal_args = args,
          posargs_num = length (filter (\<lambda>n. \<not> special_param n) names),
          vararg_pos = find_special_arg args (intern ''*''),
          varkwarg_pos = find_special_arg args (intern ''**'')\<rparr>)"

section \<open>The call\<close>

datatype 'o nslot = Null | Arg "'o yval" | RestArray | RestDict

record 'o native_frame =
  slots :: "'o nslot list"
  rest_array :: "'o yval list option"
  rest_dict :: "('o yval \<rightharpoonup> 'o yval) option"

definition store_slot :: "nat \<Rightarrow> 'o nslot \<Rightarrow> 'o native_frame \<Rightarrow> 'o native_frame res" where
  "store_slot i x fr = res_bind (mem_store (slots fr) i x) (\<lambda>ss. Inr (fr\<lparr>slots := ss\<rparr>))"

definition set_posarg :: "native_function \<Rightarrow> nat \<times> 'o yval \<Rightarrow> 'o native_frame \<Rightarrow> 'o native_frame res" where
  "set_posarg f = (\<lambda>(i, v) fr.
     if i < posargs_num f then store_slot i (Arg v) fr
     else case rest_array fr of
            Some xs \<Rightarrow> Inr (fr\<lparr>rest_array := Some (xs @ [v])\<rparr>)
          | None \<Rightarrow> Inl (ArgumentError ''%S() requires %u positional argument(s) (%u given)''))"

definition set_vararg_each :: "native_function \<Rightarrow> nat \<times> 'o yval \<Rightarrow> 'o native_frame \<Rightarrow> 'o native_frame res" where
  "set_vararg_each f = (\<lambda>(i, v) fr.
     if i < posargs_num f then store_slot i (Arg v) fr
     else case rest_array fr of
            Some xs \<Rightarrow> Inr (fr\<lparr>rest_array := Some (xs @ [v])\<rparr>)
          | None \<Rightarrow> Inl (ArgumentError ''%S() takes exactly %u argument(s) (%u given)''))"

definition set_vararg :: "'o objects \<Rightarrow> native_function \<Rightarrow> nat \<Rightarrow> 'o yval \<Rightarrow> 'o native_frame \<Rightarrow> 'o native_frame res" where
  "set_vararg h f posargc arg fr =
     res_bind (check_array h arg) (\<lambda>xs. foldM (set_vararg_each f) (enumerate posargc xs) fr)"

definition find_keyword :: "native_function \<Rightarrow> id \<Rightarrow> nat option" where
  "find_keyword f name = find_name (map arg_name (take (posargs_num f) (formal_args f))) name"

definition native2_set_keyword_arg :: "native_function \<Rightarrow> id \<times> 'o yval \<Rightarrow> 'o native_frame \<Rightarrow> 'o native_frame res" where
  "native2_set_keyword_arg f = (\<lambda>(name, v) fr.
     case find_keyword f name of
       Some i \<Rightarrow> res_bind (mem_load (slots fr) i) (\<lambda>x.
         if x \<noteq> Null then Inl (ArgumentError ''%S() got multiple values for keyword argument \"%I\"'')
         else store_slot i (Arg v) fr)
     | None \<Rightarrow>
         (case rest_dict fr of
            Some m \<Rightarrow> Inr (fr\<lparr>rest_dict := Some (m(YSymbol name \<mapsto> v))\<rparr>)
          | None \<Rightarrow> Inl (ArgumentError ''%S() got an unexpected keyword argument \"%I\"'')))"

definition set_varkwarg :: "'o objects \<Rightarrow> ('o yval \<Rightarrow> YogVal) \<Rightarrow> native_function \<Rightarrow> 'o yval \<Rightarrow> 'o native_frame \<Rightarrow> 'o native_frame res" where
  "set_varkwarg h bits f arg fr =
     res_bind (check_dict h arg) (\<lambda>es.
       foldM (\<lambda>(key, v). native2_set_keyword_arg f (VAL2ID (bits key), v)) es fr)"

definition set_blockarg :: "(string \<Rightarrow> id) \<Rightarrow> native_function \<Rightarrow> 'o yval \<Rightarrow> 'o native_frame \<Rightarrow> 'o native_frame res" where
  "set_blockarg intern f v fr =
     (let i = usub (args_num f) 1 in
      res_bind (mem_load (formal_args f) i) (\<lambda>a.
        if arg_name a \<noteq> intern ''&'' then Inl (ArgumentError ''%S got an unexpected block argument'')
        else store_slot i (Arg v) fr))"

definition raise_ArgumentError_if_not_given :: "native_function \<Rightarrow> nat \<Rightarrow> 'o native_frame \<Rightarrow> 'o native_frame res" where
  "raise_ArgumentError_if_not_given f i fr =
     res_bind (mem_load (formal_args f) i) (\<lambda>a.
       if arg_optional a then Inr fr
       else res_bind (mem_load (slots fr) i) (\<lambda>x.
         if x \<noteq> Null then Inr fr
         else Inl (ArgumentError ''%S() requires %u positional argument(s) (%u given)'')))"

text \<open>What the C function sees behind its arguments.\<close>

definition native_view :: "'o native_frame \<Rightarrow> 'o local list" where
  "native_view fr =
     map (\<lambda>s. case s of
            Null \<Rightarrow> Undef
          | Arg v \<Rightarrow> Val v
          | RestArray \<Rightarrow> (case rest_array fr of Some xs \<Rightarrow> NewArray xs | None \<Rightarrow> Undef)
          | RestDict \<Rightarrow> (case rest_dict fr of Some m \<Rightarrow> NewDict m | None \<Rightarrow> Undef)) (slots fr)"

text \<open>\<^verbatim>\<open>YogNativeFunction2_call_for_instance\<close> up to the call of the C function: the arguments it passes.\<close>

definition native2_args :: "'o objects \<Rightarrow> ('o yval \<Rightarrow> YogVal) \<Rightarrow> (string \<Rightarrow> id) \<Rightarrow> native_function \<Rightarrow> 'o call_args \<Rightarrow> 'o local list res" where
  "native2_args h bits intern f written =
     (let call = received written;
          fr = \<lparr>slots = replicate (args_num f) Null, rest_array = None, rest_dict = None\<rparr> in
      res_bind (case vararg_pos f of None \<Rightarrow> Inr fr
                | Some i \<Rightarrow> store_slot i RestArray (fr\<lparr>rest_array := Some []\<rparr>)) (\<lambda>fr.
      res_bind (foldM (set_posarg f) (enumerate 0 (pos_args call)) fr) (\<lambda>fr.
      res_bind (case splat call of None \<Rightarrow> Inr fr
                | Some v \<Rightarrow> set_vararg h f (length (pos_args call)) v fr) (\<lambda>fr.
      res_bind (case varkwarg_pos f of None \<Rightarrow> Inr fr
                | Some i \<Rightarrow> store_slot i RestDict (fr\<lparr>rest_dict := Some Map.empty\<rparr>)) (\<lambda>fr.
      res_bind (foldM (native2_set_keyword_arg f) (visited_pairs (k_args call)) fr) (\<lambda>fr.
      res_bind (case k_splat call of None \<Rightarrow> Inr fr | Some v \<Rightarrow> set_varkwarg h bits f v fr) (\<lambda>fr.
      res_bind (case block_arg call of None \<Rightarrow> Inr fr | Some v \<Rightarrow> set_blockarg intern f v fr) (\<lambda>fr.
      res_bind (foldM (raise_ArgumentError_if_not_given f) [0..<posargs_num f] fr) (\<lambda>fr.
        if 8 < args_num f then Inl (YogBug ''Can't handle more than 8 arguments'')
        else Inr (native_view fr))))))))))"

section \<open>The keywords that are read\<close>

lemma filter_even_upt: "filter even [0..<k] = map (\<lambda>i. 2 * i) [0..<(k + 1) div 2]"
proof (induction k)
  case (Suc k)
  show ?case
  proof (cases "even k")
    case True
    then have "(Suc k + 1) div 2 = Suc ((k + 1) div 2)" "2 * ((k + 1) div 2) = k" by auto
    then show ?thesis using Suc True by simp
  qed (use Suc in \<open>auto elim!: oddE\<close>)
qed simp

lemma visited_pairs_take: "visited_pairs ks = take ((length ks + 1) div 2) ks"
  by (rule nth_equalityI) (auto simp: visited_pairs_def filter_even_upt)

lemma visited_pairs_idem: "length ks \<le> 1 \<Longrightarrow> visited_pairs ks = ks"
  by (auto simp: visited_pairs_take le_Suc_eq)

lemma create_positional_argument_spec:
  assumes "splat call = None \<and> xs = [] \<or> (\<exists>p. splat call = Some (YPtr p) \<and> array_of h p = Some xs)" "args_fit call"
  shows "create_positional_argument h call = Inr (pos_args call @ xs)"
  using assms(1) by (auto simp: create_positional_argument_def received_fit[OF assms(2)] check_array_def)

section \<open>The slots during a call\<close>

text \<open>The parameters of a C function: required ones \<open>R\<close>, optional ones \<open>Q\<close>, and those for the remaining
  arguments, the remaining keywords and the block.\<close>

definition declared :: "string list \<Rightarrow> string list \<Rightarrow> bool \<Rightarrow> bool \<Rightarrow> bool \<Rightarrow> string list" where
  "declared R Q star star2 amp =
     R @ (if Q = [] then [] else ''|'' # Q) @ (if star then [''*''] else []) @ (if star2 then [''**''] else [])
       @ (if amp then [''&''] else [])"

definition declared_info :: "(string \<Rightarrow> id) \<Rightarrow> string list \<Rightarrow> string list \<Rightarrow> bool \<Rightarrow> bool \<Rightarrow> bool \<Rightarrow> arg_info" where
  "declared_info intern R Q star star2 amp =
     \<lparr>argc = length (R @ Q), varargc = of_bool star, kwargc = of_bool star2, blockargc = of_bool amp,
      required_argc = length R, argnames = map intern (R @ Q)\<rparr>"

text \<open>A frame whose locals would be \<open>a\<close>, the array \<open>va\<close>, the dict \<open>m\<close> and the block \<open>b\<close> in a function
  written in Yog.\<close>

fun of_local :: "'o local \<Rightarrow> 'o nslot" where
  "of_local (Val v) = Arg v"
| "of_local _ = Null"

definition nframe :: "arg_info \<Rightarrow> 'o local list \<Rightarrow> 'o yval list \<Rightarrow> ('o yval \<rightharpoonup> 'o yval) option \<Rightarrow> 'o local \<Rightarrow> 'o native_frame" where
  "nframe info a va m b =
     \<lparr>slots = map of_local a @ (if varargc info = 1 then [RestArray] else [])
        @ (if kwargc info = 1 then [if m = None then Null else RestDict] else [])
        @ (if blockargc info = 1 then [of_local b] else []),
      rest_array = (if varargc info = 1 then Some va else None),
      rest_dict = (if kwargc info = 1 then m else None)\<rparr>"

definition plain_locals :: "'o local list \<Rightarrow> bool" where
  "plain_locals a \<longleftrightarrow> (\<forall>x\<in>set a. x = Undef \<or> (\<exists>v. x = Val v))"

lemma of_local_Null: "x = Undef \<or> (\<exists>v. x = Val v) \<Longrightarrow> of_local x = Null \<longleftrightarrow> x = Undef"
  by auto

lemma native_view_nframe:
  assumes "plain_locals a" "b = Undef \<or> (\<exists>v. b = Val v)"
  shows "native_view (nframe info a va (Some m) b)
    = a @ va_cells info (NewArray va) @ kw_cells info m @ block_cells info b"
proof -
  have "(case of_local x of Null \<Rightarrow> Undef | Arg v \<Rightarrow> Val v | RestArray \<Rightarrow> y | RestDict \<Rightarrow> z) = x"
    if "x = Undef \<or> (\<exists>v. x = Val v)" for x :: "'a local" and y z
    using that by auto
  then show ?thesis using assms by (auto simp: native_view_def nframe_def plain_locals_def map_idI)
qed

lemma store_slot_nframe:
  assumes "i < length a"
  shows "store_slot i (Arg v) (nframe info a va m b) = Inr (nframe info (a[i := Val v]) va m b)"
  using assms by (simp add: store_slot_def mem_store_def nframe_def list_update_append map_update)

lemma load_slot_nframe: "i < length a \<Longrightarrow> mem_load (slots (nframe info a va m b)) i = Inr (of_local (a ! i))"
  by (simp add: mem_load_def nframe_def nth_append)

section \<open>The positional arguments\<close>

definition pos_frame :: "arg_info \<Rightarrow> 'o yval list \<Rightarrow> 'o native_frame" where
  "pos_frame info P = nframe info (positional_slots info P) (drop (argc info) P) None Undef"

lemma positional_slots_snoc:
  assumes "length P < argc info"
  shows "(positional_slots info P)[length P := Val v] = positional_slots info (P @ [v])"
  by (rule nth_equalityI) (use assms in \<open>auto simp: nth_list_update nth_positional_slots nth_append less_Suc_eq\<close>)

lemma positional_slots_full:
  "argc info \<le> length P \<Longrightarrow> positional_slots info (P @ [v]) = positional_slots info P"
  by (simp add: positional_slots_def)

lemma set_positional_step:
  assumes "posargs_num f = argc info"
  shows "\<exists>msg. set_posarg f (length P, v) (pos_frame info P)
      = (if length P < argc info \<or> varargc info = 1 then Inr (pos_frame info (P @ [v])) else Inl (ArgumentError msg))"
    "\<exists>msg. set_vararg_each f (length P, v) (pos_frame info P)
      = (if length P < argc info \<or> varargc info = 1 then Inr (pos_frame info (P @ [v])) else Inl (ArgumentError msg))"
proof -
  have "length P < argc info \<Longrightarrow> store_slot (length P) (Arg v) (pos_frame info P) = Inr (pos_frame info (P @ [v]))"
    unfolding pos_frame_def by (subst store_slot_nframe) (simp_all add: positional_slots_snoc)
  moreover have "argc info \<le> length P \<Longrightarrow> varargc info = 1 \<Longrightarrow>
      (pos_frame info P)\<lparr>rest_array := Some (drop (argc info) P @ [v])\<rparr> = pos_frame info (P @ [v])"
    by (simp add: pos_frame_def nframe_def positional_slots_full)
  moreover have "rest_array (pos_frame info P) = (if varargc info = 1 then Some (drop (argc info) P) else None)"
    by (simp add: pos_frame_def nframe_def)
  ultimately show "\<exists>msg. set_posarg f (length P, v) (pos_frame info P)
      = (if length P < argc info \<or> varargc info = 1 then Inr (pos_frame info (P @ [v])) else Inl (ArgumentError msg))"
    "\<exists>msg. set_vararg_each f (length P, v) (pos_frame info P)
      = (if length P < argc info \<or> varargc info = 1 then Inr (pos_frame info (P @ [v])) else Inl (ArgumentError msg))"
    using assms by (auto simp: set_posarg_def set_vararg_each_def)
qed

lemma set_positional_steps:
  assumes step: "\<And>P v. \<exists>msg. g (length P, v) (pos_frame info P)
      = (if length P < argc info \<or> varargc info = 1 then Inr (pos_frame info (P @ [v])) else Inl (ArgumentError msg))"
  shows "\<exists>msg. foldM g (enumerate (length P) vs) (pos_frame info P)
    = (if vs = [] \<or> length P + length vs \<le> argc info \<or> varargc info = 1 then Inr (pos_frame info (P @ vs))
       else Inl (ArgumentError msg))"
proof (induction vs arbitrary: P)
  case (Cons v vs)
  obtain m1 where s: "g (length P, v) (pos_frame info P)
      = (if length P < argc info \<or> varargc info = 1 then Inr (pos_frame info (P @ [v])) else Inl (ArgumentError m1))"
    using step[of P v] by blast
  obtain m2 where IH: "foldM g (enumerate (Suc (length P)) vs) (pos_frame info (P @ [v]))
    = (if vs = [] \<or> Suc (length P) + length vs \<le> argc info \<or> varargc info = 1 then Inr (pos_frame info (P @ v # vs))
       else Inl (ArgumentError m2))" using Cons.IH[of "P @ [v]", unfolded append_assoc append_Cons append_Nil] by (simp, blast)
  show ?case
  proof (cases "length P < argc info \<or> varargc info = 1")
    case True
    then show ?thesis using s IH by (cases "vs = []") auto
  next
    case False
    then show ?thesis using s by simp
  qed
qed simp

lemmas set_posargs_spec = set_positional_steps[OF set_positional_step(1)]
lemmas set_varargs_spec = set_positional_steps[OF set_positional_step(2)]

section \<open>The keyword arguments\<close>

text \<open>A keyword argument is bound as in a function written in Yog.\<close>

definition yog_locals :: "arg_info \<Rightarrow> 'o local list \<Rightarrow> 'o yval list \<Rightarrow> ('o yval \<rightharpoonup> 'o yval) \<Rightarrow> 'o local list" where
  "yog_locals info a va m = a @ va_cells info (NewArray va) @ kw_cells info m @ block_cells info Undef"

definition kw_pos :: "arg_info \<Rightarrow> nat option" where
  "kw_pos info = (if 0 < kwargc info then Some (argc info + varargc info) else None)"

definition same_binding :: "arg_info \<Rightarrow> 'o yval list \<Rightarrow> 'o native_frame res \<Rightarrow> 'o local list res \<Rightarrow> bool" where
  "same_binding info va x y \<longleftrightarrow>
     (\<exists>m1 m2. x = Inl (ArgumentError m1) \<and> y = Inl (ArgumentError m2))
     \<or> (\<exists>a m. plain_locals a \<and> length a = argc info
          \<and> x = Inr (nframe info a va (Some m) Undef) \<and> y = Inr (yog_locals info a va m))"

lemma same_bindingI:
  "plain_locals a \<Longrightarrow> length a = argc info \<Longrightarrow> x = Inr (nframe info a va (Some m) Undef)
    \<Longrightarrow> y = Inr (yog_locals info a va m) \<Longrightarrow> same_binding info va x y"
  by (auto simp: same_binding_def)

lemma set_keyword_step:
  assumes info: "info_ok info" and f: "\<And>n. find_keyword f n = find_name (argnames info) n"
    and a: "plain_locals a" "length a = argc info"
  shows "same_binding info va (native2_set_keyword_arg f nv (nframe info a va (Some m) Undef))
    (assign_keyword_arg info 0 (kw_pos info) nv (yog_locals info a va m))"
proof -
  obtain n v where nv: "nv = (n, v)" by fastforce
  note i = info[unfolded info_ok_def]
  let ?fr = "nframe info a va (Some m) Undef" and ?ls = "yog_locals info a va m"
  show ?thesis
  proof (cases "find_name (argnames info) n")
    case None
    have d: "rest_dict ?fr = (if kwargc info = 1 then Some m else None)" by (simp add: nframe_def)
    show ?thesis
    proof (cases "kwargc info = 1")
      case False
      then have "kw_pos info = None" using i by (simp add: kw_pos_def)
      then show ?thesis using None nv f d False
        by (simp add: same_binding_def native2_set_keyword_arg_def assign_keyword_arg_def)
    next
      case True
      let ?p = "a @ va_cells info (NewArray va)"
      have kw: "kw_pos info = Some (length ?p + 0)" using True a(2) i by (auto simp: kw_pos_def le_Suc_eq)
      have "set_in_dict (length ?p + 0) (YSymbol n) v (?p @ [NewDict m] @ block_cells info Undef)
          = Inr (?p @ [NewDict (m(YSymbol n \<mapsto> v))] @ block_cells info Undef)"
        using mem_load_mid[of ?p "length ?p" 0 "[NewDict m]" "block_cells info Undef"]
          mem_store_mid[of ?p "length ?p" 0 "[NewDict m]" "block_cells info Undef" "NewDict (m(YSymbol n \<mapsto> v))"]
        by (simp add: set_in_dict_def)
      then have y: "assign_keyword_arg info 0 (kw_pos info) nv ?ls = Inr (yog_locals info a va (m(YSymbol n \<mapsto> v)))"
        using None nv kw True by (simp add: assign_keyword_arg_def yog_locals_def)
      have x: "native2_set_keyword_arg f nv ?fr = Inr (nframe info a va (Some (m(YSymbol n \<mapsto> v))) Undef)"
        using None nv f d True by (simp add: native2_set_keyword_arg_def nframe_def)
      show ?thesis by (rule same_bindingI[OF a x y])
    qed
  next
    case (Some j)
    then have j: "j < length a" using find_name_Some[of "argnames info"] i a(2) by auto
    have null: "of_local (a ! j) = Null \<longleftrightarrow> a ! j = Undef"
      using a(1) j by (intro of_local_Null) (simp add: plain_locals_def)
    have ld: "mem_load ?ls (0 + j) = Inr (a ! j)"
      using mem_load_mid[of "[]" 0 j a] j by (simp add: yog_locals_def)
    show ?thesis
    proof (cases "a ! j = Undef")
      case False
      then show ?thesis using Some nv f ld null load_slot_nframe[OF j]
        by (simp add: same_binding_def native2_set_keyword_arg_def assign_keyword_arg_def)
    next
      case True
      have x: "native2_set_keyword_arg f nv ?fr = Inr (nframe info (a[j := Val v]) va (Some m) Undef)"
        using Some nv f True null load_slot_nframe[OF j] store_slot_nframe[OF j] by (simp add: native2_set_keyword_arg_def)
      have y: "assign_keyword_arg info 0 (kw_pos info) nv ?ls = Inr (yog_locals info (a[j := Val v]) va m)"
        using Some nv ld True mem_store_mid[of "[]" 0 j a] j by (simp add: assign_keyword_arg_def yog_locals_def)
      have "plain_locals (a[j := Val v])" using a(1) set_update_subset_insert[of a j "Val v"] by (auto simp: plain_locals_def)
      from same_bindingI[OF this _ x y] a(2) show ?thesis by simp
    qed
  qed
qed

lemma set_keyword_steps:
  assumes info: "info_ok info" and f: "\<And>n. find_keyword f n = find_name (argnames info) n"
    and a: "plain_locals a" "length a = argc info"
  shows "same_binding info va (foldM (native2_set_keyword_arg f) K (nframe info a va (Some m) Undef))
    (foldM (assign_keyword_arg info 0 (kw_pos info)) K (yog_locals info a va m))"
  using a
proof (induction K arbitrary: a m)
  case Nil
  then show ?case by (auto intro!: same_bindingI)
next
  case (Cons nv K)
  consider m1 m2 where "native2_set_keyword_arg f nv (nframe info a va (Some m) Undef) = Inl (ArgumentError m1)"
      "assign_keyword_arg info 0 (kw_pos info) nv (yog_locals info a va m) = Inl (ArgumentError m2)"
    | a' m' where "plain_locals a'" "length a' = argc info"
      "native2_set_keyword_arg f nv (nframe info a va (Some m) Undef) = Inr (nframe info a' va (Some m') Undef)"
      "assign_keyword_arg info 0 (kw_pos info) nv (yog_locals info a va m) = Inr (yog_locals info a' va m')"
    using set_keyword_step[OF info f Cons.prems, of va nv m] unfolding same_binding_def by blast
  then show ?case
  proof cases
    case 1
    then show ?thesis by (simp add: same_binding_def)
  next
    case 2
    then show ?thesis using Cons.IH[OF 2(1,2), of m'] by simp
  qed
qed

lemma set_keywords_spec:
  assumes info: "info_ok info" and f: "\<And>n. find_keyword f n = find_name (argnames info) n"
    and a: "plain_locals a" "length a = argc info"
  shows "\<exists>msg. foldM (native2_set_keyword_arg f) K (nframe info a va (Some m) Undef)
    = (if keywords_ok info a K
       then Inr (nframe info (keyword_slots info a K) va (Some (fold (add_other info) K m)) Undef)
       else Inl (ArgumentError msg))"
proof -
  let ?vc = "va_cells info (NewArray va)"
  let ?x = "foldM (native2_set_keyword_arg f) K (nframe info a va (Some m) Undef)"
  let ?y = "foldM (assign_keyword_arg info 0 (kw_pos info)) K (yog_locals info a va m)"
  have "kw_pos info = (if 0 < kwargc info then Some (0 + argc info + length ?vc) else None)"
    using info by (auto simp: kw_pos_def info_ok_def le_Suc_eq)
  note y' = assign_keywords[of info "[]" 0, OF info list.size(3) a(2) this, of K m "block_cells info Undef", unfolded append_Nil,
      folded yog_locals_def]
  obtain msg where y: "?y = (if keywords_ok info a K
      then Inr (yog_locals info (keyword_slots info a K) va (fold (add_other info) K m)) else Inl (ArgumentError msg))"
    using y' by blast
  have len: "length (keyword_slots info a K) = argc info" by (simp add: keyword_slots_def)
  have "same_binding info va ?x ?y" by (rule set_keyword_steps[OF info f a])
  then consider m1 m2 where "?x = Inl (ArgumentError m1)" "?y = Inl (ArgumentError m2)"
    | a' m' where "length a' = argc info" "?x = Inr (nframe info a' va (Some m') Undef)" "?y = Inr (yog_locals info a' va m')"
    by (auto simp: same_binding_def)
  then show ?thesis
  proof cases
    case 1
    then show ?thesis using y by (auto split: if_splits)
  next
    case 2
    then have ok: "keywords_ok info a K" and eq: "yog_locals info a' va m'
        = yog_locals info (keyword_slots info a K) va (fold (add_other info) K m)" using y by (auto split: if_splits)
    have "a' = keyword_slots info a K" "kwargc info = 1 \<longrightarrow> m' = fold (add_other info) K m"
      using eq 2(1) len by (auto simp: yog_locals_def)
    then have "nframe info a' va (Some m') Undef
        = nframe info (keyword_slots info a K) va (Some (fold (add_other info) K m)) Undef"
      by (simp add: nframe_def)
    then show ?thesis using 2(2) ok by simp
  qed
qed

section \<open>The declared parameters\<close>

definition rest_params :: "bool \<Rightarrow> bool \<Rightarrow> bool \<Rightarrow> string list" where
  "rest_params star star2 amp =
     (if star then [''*''] else []) @ (if star2 then [''**''] else []) @ (if amp then [''&''] else [])"

lemma init_args_append:
  "''|'' \<notin> set ns \<Longrightarrow> init_args intern b (ns @ ms) = map (\<lambda>n. \<lparr>arg_name = intern n, arg_optional = b\<rparr>) ns @ init_args intern b ms"
  by (induction ns) auto

lemma init_args_declared:
  assumes "\<forall>n\<in>set (R @ Q). \<not> special_param n"
  shows "init_args intern False (declared R Q star star2 amp)
    = map (\<lambda>n. \<lparr>arg_name = intern n, arg_optional = False\<rparr>) R @ map (\<lambda>n. \<lparr>arg_name = intern n, arg_optional = True\<rparr>) Q
      @ map (\<lambda>n. \<lparr>arg_name = intern n, arg_optional = (Q \<noteq> [])\<rparr>) (rest_params star star2 amp)"
proof -
  have "special_param ''|''" by simp
  then have R: "''|'' \<notin> set R" and Q: "''|'' \<notin> set Q" using assms by fastforce+
  have S: "init_args intern b (rest_params star star2 amp)
      = map (\<lambda>n. \<lparr>arg_name = intern n, arg_optional = b\<rparr>) (rest_params star star2 amp)" for b
    using init_args_append[of "rest_params star star2 amp" intern b "[]"] by (auto simp: rest_params_def)
  have "declared R Q star star2 amp = R @ (if Q = [] then rest_params star star2 amp else ''|'' # (Q @ rest_params star star2 amp))"
    by (simp add: declared_def rest_params_def)
  then show ?thesis using init_args_append[OF R] init_args_append[OF Q] S by (cases "Q = []") simp_all
qed

lemma find_name_append: "find_name (ns @ ms) n = (case find_name ns n of Some i \<Rightarrow> Some i
    | None \<Rightarrow> map_option ((+) (length ns)) (find_name ms n))"
proof (induction ns)
  case Nil
  have "(+) 0 = (id :: nat \<Rightarrow> nat)" by auto
  then show ?case by (simp add: option.map_id)
next
  case (Cons a ns)
  have "Suc \<circ> (+) (length ns) = (+) (length (a # ns))" by auto
  then show ?case using Cons by (auto split: option.splits simp: option.map_comp)
qed

definition rest_names :: "string set" where
  "rest_names = {''*'', ''**'', ''&''}"

lemma declared_function:
  fixes intern :: "string \<Rightarrow> id" and star star2 amp :: bool
  assumes names: "\<forall>n\<in>set (R @ Q). \<not> special_param n" "inj_on intern (set (R @ Q) \<union> rest_names)"
  defines "f \<equiv> YogNativeFunction2_new intern (declared R Q star star2 amp)"
    and "info \<equiv> declared_info intern R Q star star2 amp"
  shows "args_num f = formals info" "posargs_num f = argc info" "find_keyword f n = find_name (argnames info) n"
    "vararg_pos f = (if star then Some (argc info) else None)"
    "varkwarg_pos f = (if star2 then Some (argc info + varargc info) else None)"
    "\<forall>i<argc info. mem_load (formal_args f) i = Inr \<lparr>arg_name = argnames info ! i, arg_optional = (required_argc info \<le> i)\<rparr>"
    "0 < formals info \<Longrightarrow> formals info < 2 ^ 64 \<Longrightarrow> \<exists>a. mem_load (formal_args f) (usub (args_num f) 1) = Inr a \<and> (arg_name a = intern ''&'') = amp"
proof -
  let ?S = "rest_params star star2 amp"
  have F: "formal_args f = map (\<lambda>n. \<lparr>arg_name = intern n, arg_optional = False\<rparr>) R
      @ map (\<lambda>n. \<lparr>arg_name = intern n, arg_optional = True\<rparr>) Q @ map (\<lambda>n. \<lparr>arg_name = intern n, arg_optional = (Q \<noteq> [])\<rparr>) ?S"
    using init_args_declared[OF names(1)] by (simp add: f_def YogNativeFunction2_new_def Let_def)
  have N: "map arg_name (formal_args f) = map intern (R @ Q) @ map intern ?S" by (simp add: F comp_def)
  have S: "length ?S = of_bool star + of_bool star2 + of_bool amp" by (simp add: rest_params_def)
  show num: "args_num f = formals info" by (simp add: F S info_def declared_info_def formals_def)
  have "filter (\<lambda>n. \<not> special_param n) R = R" "filter (\<lambda>n. \<not> special_param n) Q = Q"
    using names(1) by (simp_all add: filter_id_conv)
  then show pos: "posargs_num f = argc info"
    by (simp add: f_def YogNativeFunction2_new_def Let_def info_def declared_info_def declared_def)
  have "map arg_name (take (posargs_num f) (formal_args f)) = map intern (R @ Q)"
    unfolding take_map[symmetric] N pos by (simp add: info_def declared_info_def)
  then show "find_keyword f n = find_name (argnames info) n" by (simp add: find_keyword_def info_def declared_info_def)
  have notin: "intern x \<notin> intern ` set (R @ Q)" if "x \<in> rest_names" for x
  proof
    assume "intern x \<in> intern ` set (R @ Q)"
    then obtain n where "n \<in> set (R @ Q)" "intern x = intern n" by blast
    then have "x \<in> set (R @ Q)" using names(2) that by (metis UnI1 UnI2 inj_onD)
    moreover have "special_param x" using that by (auto simp: rest_names_def)
    ultimately show False using names(1) by blast
  qed
  have diff: "intern ''*'' \<noteq> intern ''**''" "intern ''*'' \<noteq> intern ''&''" "intern ''**'' \<noteq> intern ''&''"
    using names(2) by (auto simp: inj_on_def rest_names_def)
  have find: "find_special_arg (formal_args f) (intern x) = map_option ((+) (argc info)) (find_name (map intern ?S) (intern x))"
    if "x \<in> rest_names" for x
  proof -
    have none: "find_name (map intern (R @ Q)) (intern x) = None"
      unfolding find_name_None set_map by (rule notin[OF that])
    show ?thesis unfolding find_special_arg_def N find_name_append none option.case
      by (simp add: info_def declared_info_def)
  qed
  have "vararg_pos f = find_special_arg (formal_args f) (intern ''*'')"
    "varkwarg_pos f = find_special_arg (formal_args f) (intern ''**'')"
    by (simp_all add: f_def YogNativeFunction2_new_def Let_def)
  then show "vararg_pos f = (if star then Some (argc info) else None)"
    "varkwarg_pos f = (if star2 then Some (argc info + varargc info) else None)"
    using find[of "''*''"] find[of "''**''"] diff
    by (auto simp: rest_params_def rest_names_def info_def declared_info_def)
  show "\<forall>i<argc info. mem_load (formal_args f) i = Inr \<lparr>arg_name = argnames info ! i, arg_optional = (required_argc info \<le> i)\<rparr>"
    by (auto simp: F mem_load_def nth_append info_def declared_info_def)
  assume pos: "0 < formals info" and lim: "formals info < 2 ^ 64"
  have u: "usub (args_num f) 1 = args_num f - 1" using pos lim num by (intro usub_le) auto
  have ne: "formal_args f \<noteq> []" using pos num by auto
  then have ld: "mem_load (formal_args f) (usub (args_num f) 1) = Inr (last (formal_args f))"
    unfolding u by (simp add: mem_load_def last_conv_nth)
  have last: "arg_name (last (formal_args f)) = last (map intern (R @ Q @ ?S))"
    using ne N last_map[of "formal_args f" arg_name] by simp
  have "(last (map intern (R @ Q @ ?S)) = intern ''&'') = amp"
  proof (cases amp)
    case True
    then show ?thesis by (simp add: rest_params_def)
  next
    case False
    have "R @ Q @ ?S \<noteq> []" using ne N by (metis Nil_is_map_conv append_is_Nil_conv map_append)
    then have "last (map intern (R @ Q @ ?S)) \<in> set (map intern (R @ Q @ ?S))"
      by (metis Nil_is_map_conv last_in_set)
    moreover have "intern ''&'' \<notin> set (map intern (R @ Q @ ?S))"
      using notin[of "''&''"] diff False by (auto simp: rest_params_def rest_names_def)
    ultimately show ?thesis using False by metis
  qed
  then show "\<exists>a. mem_load (formal_args f) (usub (args_num f) 1) = Inr a \<and> (arg_name a = intern ''&'') = amp"
    using ld last by auto
qed

section \<open>The whole call\<close>

lemma nframe_start:
  assumes "info_ok info"
  shows "(case (if varargc info = 1 then Some (argc info) else None) of
      None \<Rightarrow> Inr \<lparr>slots = replicate (formals info) Null, rest_array = None, rest_dict = None\<rparr>
    | Some i \<Rightarrow> store_slot i RestArray
        \<lparr>slots = replicate (formals info) Null, rest_array = Some [], rest_dict = None\<rparr>) = Inr (pos_frame info [])"
proof -
  have c: "varargc info = 0 \<or> varargc info = 1" "kwargc info = 0 \<or> kwargc info = 1" "blockargc info = 0 \<or> blockargc info = 1"
    using assms by (auto simp: info_ok_def)
  have "replicate (formals info) Null = replicate (argc info) Null @ (if varargc info = 1 then [Null] else [])
      @ (if kwargc info = 1 then [Null] else []) @ (if blockargc info = 1 then [Null] else [])"
    using c unfolding formals_def replicate_add by auto
  moreover have "varargc info = 1 \<Longrightarrow> argc info < formals info" by (simp add: formals_def)
  ultimately show ?thesis using c(1)
    by (auto simp: pos_frame_def nframe_def positional_slots_def store_slot_def mem_store_def list_update_append map_replicate_const)
qed

lemma nframe_dict:
  assumes "info_ok info" "length a = argc info"
  shows "(case (if kwargc info = 1 then Some (argc info + varargc info) else None) of
      None \<Rightarrow> Inr (nframe info a va None Undef)
    | Some i \<Rightarrow> store_slot i RestDict ((nframe info a va None Undef)\<lparr>rest_dict := Some Map.empty\<rparr>))
    = Inr (nframe info a va (Some Map.empty) Undef)"
proof (cases "kwargc info = 1")
  case True
  consider "varargc info = 0" | "varargc info = 1" using assms(1) by (auto simp: info_ok_def le_Suc_eq)
  then show ?thesis using True assms(2)
    by cases (simp_all add: nframe_def store_slot_def mem_store_def list_update_append)
qed (simp add: nframe_def)

lemma set_blockarg_spec:
  assumes info: "info_ok info" "length a = argc info" "args_num f = formals info"
    and a: "mem_load (formal_args f) (usub (args_num f) 1) = Inr x" "(arg_name x = intern ''&'') \<longleftrightarrow> blockargc info = 1"
    and n: "0 < formals info" "formals info < 2 ^ 64"
  shows "\<exists>msg. set_blockarg intern f v (nframe info a va (Some m) Undef)
    = (if blockargc info = 1 then Inr (nframe info a va (Some m) (Val v)) else Inl (ArgumentError msg))"
proof (cases "blockargc info = 1")
  case True
  have "usub (args_num f) 1 = args_num f - 1" using n info(3) by (intro usub_le) auto
  then have i: "usub (args_num f) 1 = argc info + varargc info + kwargc info"
    using info(3) True by (simp add: formals_def)
  have "varargc info = 0 \<or> varargc info = 1" "kwargc info = 0 \<or> kwargc info = 1" using info(1) by (auto simp: info_ok_def)
  then have "store_slot (argc info + varargc info + kwargc info) (Arg v) (nframe info a va (Some m) Undef)
      = Inr (nframe info a va (Some m) (Val v))"
    using True info(2) by (auto simp: nframe_def store_slot_def mem_store_def list_update_append)
  then show ?thesis using True a unfolding set_blockarg_def Let_def i by simp
next
  case False
  then show ?thesis using a by (simp add: set_blockarg_def Let_def)
qed

lemma check_given_spec:
  assumes args: "\<forall>i<argc info. mem_load (formal_args f) i = Inr \<lparr>arg_name = N i, arg_optional = (required_argc info \<le> i)\<rparr>"
    and a: "plain_locals a" "length a = argc info" and n: "posargs_num f = argc info" "required_argc info \<le> argc info"
  shows "\<exists>msg. foldM (raise_ArgumentError_if_not_given f) [0..<posargs_num f] (nframe info a va m b)
    = (if \<forall>i<required_argc info. a ! i \<noteq> Undef then Inr (nframe info a va m b) else Inl (ArgumentError msg))"
proof -
  let ?msg = "''%S() requires %u positional argument(s) (%u given)''"
  have step: "raise_ArgumentError_if_not_given f i (nframe info a va m b)
      = (if required_argc info \<le> i \<or> a ! i \<noteq> Undef then Inr (nframe info a va m b) else Inl (ArgumentError ?msg))"
    if "i < argc info" for i
  proof -
    have "of_local (a ! i) = Null \<longleftrightarrow> a ! i = Undef" using a that by (intro of_local_Null) (simp add: plain_locals_def)
    then show ?thesis using args that load_slot_nframe[of i a] a(2) by (simp add: raise_ArgumentError_if_not_given_def)
  qed
  have "foldM (raise_ArgumentError_if_not_given f) is (nframe info a va m b)
      = (if \<forall>i\<in>set is. required_argc info \<le> i \<or> a ! i \<noteq> Undef then Inr (nframe info a va m b) else Inl (ArgumentError ?msg))"
    if "\<forall>i\<in>set is. i < argc info" for "is"
    using that by (induction "is") (auto simp: step)
  from this[of "[0..<argc info]"] show ?thesis using n
    by (auto simp: not_le[symmetric])
qed

lemma plain_positional: "plain_locals (positional_slots info P)"
  by (auto simp: plain_locals_def positional_slots_def)

lemma plain_bound: "plain_locals (map (bound_slot info P K) is)"
  by (auto simp: plain_locals_def bound_slot_def split: option.splits)

text \<open>What \<^verbatim>\<open>*\<close> and \<^verbatim>\<open>**\<close> pass.\<close>

definition passes :: "'o objects \<Rightarrow> ('o yval \<Rightarrow> YogVal) \<Rightarrow> 'o call_args \<Rightarrow> 'o yval list \<Rightarrow> (id \<times> 'o yval) list \<Rightarrow> bool" where
  "passes h bits call P K \<longleftrightarrow>
     (\<exists>xs. (splat call = None \<and> xs = [] \<or> (\<exists>p. splat call = Some (YPtr p) \<and> array_of h p = Some xs)) \<and> P = pos_args call @ xs)
     \<and> (\<exists>es. (k_splat call = None \<and> es = [] \<or> (\<exists>p. k_splat call = Some (YPtr p) \<and> dict_of h p = Some es))
            \<and> K = visited_pairs (k_args call) @ map (\<lambda>(key, v). (VAL2ID (bits key), v)) es)"

lemma native2_positional:
  assumes pos: "posargs_num f = argc info"
    and xs: "splat call = None \<and> xs = [] \<or> (\<exists>p. splat call = Some (YPtr p) \<and> array_of h p = Some xs)"
  shows "\<exists>msg. res_bind (foldM (set_posarg f) (enumerate 0 (pos_args call)) (pos_frame info [])) (\<lambda>fr.
      case splat call of None \<Rightarrow> Inr fr | Some v \<Rightarrow> set_vararg h f (length (pos_args call)) v fr)
    = (if length (pos_args call @ xs) \<le> argc info \<or> varargc info = 1 then Inr (pos_frame info (pos_args call @ xs))
       else Inl (ArgumentError msg))"
proof -
  let ?P = "pos_args call"
  obtain m1 where p: "foldM (set_posarg f) (enumerate 0 ?P) (pos_frame info [])
    = (if ?P = [] \<or> length ?P \<le> argc info \<or> varargc info = 1 then Inr (pos_frame info ?P) else Inl (ArgumentError m1))"
    using set_posargs_spec[OF pos, of "[]" ?P, unfolded append_Nil] by auto
  obtain m2 where q: "foldM (set_vararg_each f) (enumerate (length ?P) xs) (pos_frame info ?P)
    = (if xs = [] \<or> length ?P + length xs \<le> argc info \<or> varargc info = 1 then Inr (pos_frame info (?P @ xs))
       else Inl (ArgumentError m2))"
    using set_varargs_spec[OF pos, of ?P xs] by blast
  show ?thesis
  proof (cases "?P = [] \<or> length ?P \<le> argc info \<or> varargc info = 1")
    case False
    then show ?thesis using p by simp
  next
    case True
    then show ?thesis using p q xs by (auto simp: set_vararg_def check_array_def)
  qed
qed

lemma native2_keywords:
  assumes "k_splat call = None \<and> es = [] \<or> (\<exists>p. k_splat call = Some (YPtr p) \<and> dict_of h p = Some es)"
  shows "res_bind (foldM (native2_set_keyword_arg f) (visited_pairs (k_args call)) fr) (\<lambda>fr.
      case k_splat call of None \<Rightarrow> Inr fr | Some v \<Rightarrow> set_varkwarg h bits f v fr)
    = foldM (native2_set_keyword_arg f) (visited_pairs (k_args call) @ map (\<lambda>(key, v). (VAL2ID (bits key), v)) es) fr"
  using assms by (cases "foldM (native2_set_keyword_arg f) (visited_pairs (k_args call)) fr")
    (auto simp: set_varkwarg_def check_dict_def foldM_append foldM_map split_def)

text \<open>Stages that may each raise ArgumentError.\<close>

lemma checked_stages:
  assumes "x1 = (if c1 then Inr a1 else Inl (ArgumentError m1))" "g a1 = Inr b1"
    "f2 b1 = (if c2 then Inr a2 else Inl (ArgumentError m2))" "f3 a2 = (if c3 then Inr a3 else Inl (ArgumentError m3))"
    "f4 a3 = (if c4 then Inr a4 else Inl (ArgumentError m4))" "f5 a4 = Inr r"
  shows "\<exists>msg. res_bind x1 (\<lambda>x. res_bind (g x) (\<lambda>x. res_bind (f2 x) (\<lambda>x. res_bind (f3 x) (\<lambda>x. res_bind (f4 x) f5))))
    = (if c1 \<and> c2 \<and> c3 \<and> c4 then Inr r else Inl (ArgumentError msg))"
  using assms by (cases c1; cases c2; cases c3; cases c4) auto

text \<open>C15: A C function of the second kind with the parameters \<open>R\<close> (required) and \<open>Q\<close> (optional), distinct ordinary names (which are interned as distinct symbols), and with or without
  \<^verbatim>\<open>*\<close>, \<^verbatim>\<open>**\<close> and \<^verbatim>\<open>&\<close>, at most 8 together, is called with at most 255 arguments of either kind, an array after \<^verbatim>\<open>*\<close>
  or no \<^verbatim>\<open>*\<close>, a dict after \<^verbatim>\<open>**\<close> or no \<^verbatim>\<open>**\<close>, and a block only if it has a parameter at all. Let \<open>P\<close> be the positional arguments and
  the elements of the array, \<open>K\<close> the keywords that the loop over them visits and the entries of the dict, whose keys are taken for
  symbols unchecked. The call succeeds exactly when they and the block are acceptable for the parameters; then each parameter gets
  its argument, the array and the dict for the rest get what is left, and an optional parameter without
  argument is NULL. Otherwise ArgumentError is raised.\<close>

theorem native2_call_binds:
  assumes names: "\<forall>n\<in>set (R @ Q). \<not> special_param n" "distinct (R @ Q)" "inj_on intern (set (R @ Q) \<union> rest_names)"
    and info: "info = declared_info intern R Q star star2 amp" "formals info \<le> 8"
    and passes: "passes h bits call P K" and fit: "args_fit call" and block: "block_arg call = None \<or> 0 < formals info"
  shows "\<exists>msg. native2_args h bits intern (YogNativeFunction2_new intern (declared R Q star star2 amp)) call
    = (if acceptable info P K (block_arg call) then Inr (bound_locals info P K (block_arg call))
       else Inl (ArgumentError msg))"
proof -
  let ?f = "YogNativeFunction2_new intern (declared R Q star star2 amp)" and ?B = "block_arg call"
  note f = declared_function[OF names(1,3), of star star2 amp, folded info(1)]
  have ok: "info_ok info"
    using names(2) distinct_map[of intern "R @ Q"] inj_on_subset[OF names(3), of "set (R @ Q)"]
    by (simp add: info(1) info_ok_def declared_info_def)
  have star: "star \<longleftrightarrow> varargc info = 1" "star2 \<longleftrightarrow> kwargc info = 1" "amp \<longleftrightarrow> blockargc info = 1"
    by (simp_all add: info(1) declared_info_def)
  obtain xs es where xs: "splat call = None \<and> xs = [] \<or> (\<exists>p. splat call = Some (YPtr p) \<and> array_of h p = Some xs)"
    and P: "P = pos_args call @ xs"
    and es: "k_splat call = None \<and> es = [] \<or> (\<exists>p. k_splat call = Some (YPtr p) \<and> dict_of h p = Some es)"
    and K: "K = visited_pairs (k_args call) @ map (\<lambda>(key, v). (VAL2ID (bits key), v)) es"
    using passes unfolding passes_def by blast
  let ?a = "positional_slots info P" and ?va = "drop (argc info) P"
  let ?s = "map (bound_slot info P K) [0..<argc info]" and ?m = "other_keywords info K"
  have "vararg_pos ?f = (if varargc info = 1 then Some (argc info) else None)" unfolding f(4) by (simp only: star(1))
  then have start: "(case vararg_pos ?f of None \<Rightarrow> Inr \<lparr>slots = replicate (args_num ?f) Null, rest_array = None, rest_dict = None\<rparr>
      | Some i \<Rightarrow> store_slot i RestArray
          (\<lparr>slots = replicate (args_num ?f) Null, rest_array = None, rest_dict = None\<rparr>\<lparr>rest_array := Some []\<rparr>))
      = Inr (pos_frame info [])"
    unfolding f(1) using nframe_start[OF ok] by (cases "varargc info = 1") simp_all
  have run: "native2_args h bits intern ?f call =
      res_bind (res_bind (foldM (set_posarg ?f) (enumerate 0 (pos_args call)) (pos_frame info [])) (\<lambda>fr.
        case splat call of None \<Rightarrow> Inr fr | Some v \<Rightarrow> set_vararg h ?f (length (pos_args call)) v fr)) (\<lambda>fr.
      res_bind (case varkwarg_pos ?f of None \<Rightarrow> Inr fr
                | Some i \<Rightarrow> store_slot i RestDict (fr\<lparr>rest_dict := Some Map.empty\<rparr>)) (\<lambda>fr.
      res_bind (foldM (native2_set_keyword_arg ?f) K fr) (\<lambda>fr.
      res_bind (case ?B of None \<Rightarrow> Inr fr | Some v \<Rightarrow> set_blockarg intern ?f v fr) (\<lambda>fr.
      res_bind (foldM (raise_ArgumentError_if_not_given ?f) [0..<posargs_num ?f] fr) (\<lambda>fr.
        if 8 < args_num ?f then Inl (YogBug ''Can't handle more than 8 arguments'') else Inr (native_view fr))))))"
    unfolding native2_args_def received_fit[OF fit] Let_def start res_bind_simps
    by (simp only: res_bind_assoc native2_keywords[OF es, of ?f _ bits, folded K, symmetric])
  obtain m1 where pos: "res_bind (foldM (set_posarg ?f) (enumerate 0 (pos_args call)) (pos_frame info [])) (\<lambda>fr.
        case splat call of None \<Rightarrow> Inr fr | Some v \<Rightarrow> set_vararg h ?f (length (pos_args call)) v fr)
      = (if length P \<le> argc info \<or> varargc info = 1 then Inr (pos_frame info P) else Inl (ArgumentError m1))"
    using native2_positional[OF f(2) xs, folded P] by blast
  have dict: "(case varkwarg_pos ?f of None \<Rightarrow> Inr (pos_frame info P)
      | Some i \<Rightarrow> store_slot i RestDict ((pos_frame info P)\<lparr>rest_dict := Some Map.empty\<rparr>))
      = Inr (nframe info ?a ?va (Some Map.empty) Undef)"
  proof -
    have vk: "varkwarg_pos ?f = (if kwargc info = 1 then Some (argc info + varargc info) else None)"
      unfolding f(5) by (simp only: star(2))
    show ?thesis unfolding vk pos_frame_def by (rule nframe_dict[OF ok length_positional_slots])
  qed
  obtain m2 where kws: "foldM (native2_set_keyword_arg ?f) K (nframe info ?a ?va (Some Map.empty) Undef)
      = (if keywords_ok info ?a K then Inr (nframe info ?s ?va (Some ?m) Undef) else Inl (ArgumentError m2))"
    using set_keywords_spec[where f = ?f and a = ?a and va = ?va and K = K and m = Map.empty,
        OF ok f(3) plain_positional length_positional_slots]
    unfolding keyword_slots_positional other_keywords_def by blast
  obtain m3 where blk: "(case ?B of None \<Rightarrow> Inr (nframe info ?s ?va (Some ?m) Undef)
      | Some v \<Rightarrow> set_blockarg intern ?f v (nframe info ?s ?va (Some ?m) Undef))
      = (if ?B = None \<or> blockargc info = 1
         then Inr (nframe info ?s ?va (Some ?m) (case ?B of None \<Rightarrow> Undef | Some b \<Rightarrow> Val b)) else Inl (ArgumentError m3))"
  proof (cases ?B)
    case (Some v)
    then have n: "0 < formals info" using block by simp
    obtain x where x: "mem_load (formal_args ?f) (usub (args_num ?f) 1) = Inr x" "(arg_name x = intern ''&'') \<longleftrightarrow> blockargc info = 1"
    proof -
      have "formals info < 2 ^ 64" using info(2) by simp
      from f(7)[OF n this] obtain y where "mem_load (formal_args ?f) (usub (args_num ?f) 1) = Inr y" "(arg_name y = intern ''&'') \<longleftrightarrow> amp"
        by blast
      then show thesis by (intro that[of y]) (simp_all only: star(3))
    qed
    have len: "length ?s = argc info" and lim: "formals info < 2 ^ 64" using info(2) by simp_all
    obtain msg where sb: "set_blockarg intern ?f v (nframe info ?s ?va (Some ?m) Undef)
        = (if blockargc info = 1 then Inr (nframe info ?s ?va (Some ?m) (Val v)) else Inl (ArgumentError msg))"
      using set_blockarg_spec[where intern = intern and info = info and a = ?s and va = ?va and m = ?m and v = v,
        OF ok len f(1) x n lim] by blast
    show ?thesis by (rule that[of msg]) (unfold Some option.case sb, simp)
  qed (use that in simp)
  let ?b = "case ?B of None \<Rightarrow> Undef | Some b \<Rightarrow> Val b"
  have len: "length ?s = argc info" and req: "required_argc info \<le> argc info" using ok by (simp_all add: info_ok_def)
  obtain m4 where chk: "foldM (raise_ArgumentError_if_not_given ?f) [0..<posargs_num ?f] (nframe info ?s ?va (Some ?m) ?b)
      = (if \<forall>i<required_argc info. ?s ! i \<noteq> Undef then Inr (nframe info ?s ?va (Some ?m) ?b) else Inl (ArgumentError m4))"
    using check_given_spec[OF f(6) plain_bound len f(2) req] by blast
  have given: "(\<forall>i<required_argc info. ?s ! i \<noteq> Undef)
      = (\<forall>i<required_argc info. i < length P \<or> argnames info ! i \<in> set (map fst K))"
    using req by (auto simp: bound_slot_Undef)
  have b: "?b = Undef \<or> (\<exists>v. ?b = Val v)" by (cases ?B) simp_all
  have view: "native_view (nframe info ?s ?va (Some ?m) ?b) = bound_locals info P K ?B"
    unfolding native_view_nframe[OF plain_bound b] bound_locals_def by simp
  have num: "\<not> 8 < args_num ?f" using info(2) f(1) by simp
  have acc: "acceptable info P K ?B \<longleftrightarrow> (length P \<le> argc info \<or> varargc info = 1) \<and> keywords_ok info ?a K
      \<and> (?B = None \<or> blockargc info = 1) \<and> (\<forall>i<required_argc info. ?s ! i \<noteq> Undef)"
    unfolding given acceptable_def keywords_ok_positional[OF ok] by blast
  show ?thesis unfolding run acc
    by (rule checked_stages, rule pos, rule dict, rule kws, rule blk, rule chk) (simp only: num view if_False)
qed

text \<open>\<^verbatim>\<open>f(a, |, b, *, **)\<close>, called as \<^verbatim>\<open>f(1, b: 2, *[], x: 3)\<close>: the second keyword is not read.\<close>

definition sample_intern :: "string \<Rightarrow> id" where
  "sample_intern n = (if n = ''a'' then 10 else if n = ''b'' then 11 else if n = ''*'' then 1 else if n = ''**'' then 2 else 3)"

lemma sample_call_passes:
  "passes sample_objects (\<lambda>_. 0) sample_call [YFixnum 1] [(11, YFixnum 2)]"
  by (simp add: passes_def sample_call_def visited_pairs_take)

theorem native2_call_binds_witness:
  "\<exists>msg. native2_args sample_objects (\<lambda>_. 0) sample_intern
        (YogNativeFunction2_new sample_intern (declared [''a''] [''b''] True True False)) sample_call
    = (if acceptable (declared_info sample_intern [''a''] [''b''] True True False) [YFixnum 1] [(11, YFixnum 2)] (block_arg sample_call)
       then Inr (bound_locals (declared_info sample_intern [''a''] [''b''] True True False) [YFixnum 1] [(11, YFixnum 2)] (block_arg sample_call))
       else Inl (ArgumentError msg))"
  by (rule native2_call_binds[OF _ _ _ refl _ sample_call_passes sample_call_fit])
    (simp_all add: rest_names_def sample_intern_def inj_on_def declared_info_def formals_def sample_call_def)

text \<open>C17: Of the keyword arguments written in a call of a C function of either kind, only the first half
  (rounded up) is read: replacing the others by any names and values, known or unknown to the
  function, changes nothing, and no error tells the caller.\<close>

theorem native_call_drops_keywords:
  assumes "length ks = length ks'" "take ((length ks + 1) div 2) ks = take ((length ks + 1) div 2) ks'"
  shows "create_keyword_argument h (call\<lparr>k_args := ks\<rparr>) = create_keyword_argument h (call\<lparr>k_args := ks'\<rparr>)
    \<and> native2_args h bits intern f (call\<lparr>k_args := ks\<rparr>) = native2_args h bits intern f (call\<lparr>k_args := ks'\<rparr>)"
proof -
  let ?n = "length ks mod 256"
  have v: "visited_pairs (take ?n ks) = visited_pairs (take (length ks' mod 256) ks')"
  proof -
    have "(?n + 1) div 2 \<le> (length ks + 1) div 2" by (rule div_le_mono) simp
    then have "take ((?n + 1) div 2) (take ((length ks + 1) div 2) xs) = take ((?n + 1) div 2) xs" for xs :: "(id \<times> 'a yval) list"
      by (simp add: min_def)
    then have "take ((?n + 1) div 2) ks = take ((?n + 1) div 2) ks'" using assms(2) by metis
    moreover have "visited_pairs (take ?n xs) = take ((?n + 1) div 2) xs" if "length xs = length ks" for xs :: "(id \<times> 'a yval) list"
    proof -
      have "?n \<le> length xs" "(?n + 1) div 2 \<le> ?n" using that by auto
      then show ?thesis by (simp add: visited_pairs_take min_def)
    qed
    ultimately show ?thesis using assms(1) by simp
  qed
  have e: "take ?n ks = [] \<longleftrightarrow> take (length ks' mod 256) ks' = []" using assms(1) by auto
  have fields: "pos_args (received (call\<lparr>k_args := x\<rparr>)) = pos_args (received call)" "splat (received (call\<lparr>k_args := x\<rparr>)) = splat call"
    "k_args (received (call\<lparr>k_args := x\<rparr>)) = take (length x mod 256) x" "k_splat (received (call\<lparr>k_args := x\<rparr>)) = k_splat call"
    "block_arg (received (call\<lparr>k_args := x\<rparr>)) = block_arg call" for x by (simp_all add: received_def)
  have "create_keyword_argument h (call\<lparr>k_args := ks\<rparr>) = create_keyword_argument h (call\<lparr>k_args := ks'\<rparr>)"
    unfolding create_keyword_argument_def Let_def fields v e ..
  moreover have "native2_args h bits intern f (call\<lparr>k_args := ks\<rparr>) = native2_args h bits intern f (call\<lparr>k_args := ks'\<rparr>)"
    unfolding native2_args_def Let_def fields v ..
  ultimately show ?thesis ..
qed

lemmas native2_evaluate = native2_args_def received_def YogNativeFunction2_new_def declared_def find_special_arg_def sample_intern_def
  set_posarg_def set_vararg_def set_vararg_each_def store_slot_def mem_store_def mem_load_def find_keyword_def visited_pairs_take
  native2_set_keyword_arg_def set_varkwarg_def check_dict_def set_blockarg_def raise_ArgumentError_if_not_given_def
  native_view_def sample_call_def sample_objects_def

definition sample_function :: native_function where
  "sample_function = YogNativeFunction2_new sample_intern (declared [''a''] [''b''] False False False)"

theorem native_call_drops_keywords_witness:
  "create_keyword_argument sample_objects (sample_call\<lparr>k_args := [(11, YFixnum 2), (12, YFixnum 3)]\<rparr>)
      = create_keyword_argument sample_objects (sample_call\<lparr>k_args := [(11, YFixnum 2), (99, YFixnum 7)]\<rparr>)
    \<and> native2_args sample_objects (\<lambda>_. 0) sample_intern sample_function (sample_call\<lparr>k_args := [(11, YFixnum 2), (12, YFixnum 3)]\<rparr>)
      = native2_args sample_objects (\<lambda>_. 0) sample_intern sample_function (sample_call\<lparr>k_args := [(11, YFixnum 2), (99, YFixnum 7)]\<rparr>)"
  by (rule native_call_drops_keywords) simp_all

lemma sample_function_call:
  "native2_args sample_objects (\<lambda>_. 0) sample_intern sample_function (sample_call\<lparr>k_args := [(11, YFixnum 2), (12, YFixnum 3)]\<rparr>)
    = Inr [Val (YFixnum 1), Val (YFixnum 2)]"
  by (simp add: native2_evaluate sample_function_def)

text \<open>The keys of a dict after \<^verbatim>\<open>**\<close> are not checked to be symbols: the integer 80, whose machine word is 161, is taken
  for the identifier 10.\<close>

lemma native2_splat_key_unchecked:
  "native2_args (sample_objects\<lparr>dict_of := [6 \<mapsto> [(YFixnum 80, YFixnum 5)]]\<rparr>) (\<lambda>_. INT2VAL 80) sample_intern sample_function
     (sample_call\<lparr>pos_args := [], k_args := [], k_splat := Some (YPtr 6)\<rparr>) = Inr [Val (YFixnum 5), Undef]"
proof -
  have "VAL2ID (INT2VAL 80) = 10" by code_simp
  then show ?thesis by (simp add: native2_evaluate sample_function_def)
qed

text \<open>A block given to a function without parameters: the parameter before the first one is read.\<close>

lemma native2_block_underflow:
  "native2_args sample_objects (\<lambda>_. 0) sample_intern (YogNativeFunction2_new sample_intern [])
     (sample_call\<lparr>pos_args := [], k_args := [], block_arg := Some (YFixnum 1)\<rparr>) = Inl MemFault"
  by (simp add: native2_evaluate sample_function_def)

end
