(* ===== verification/YogDictKeys.thy ===== *)
theory YogDictKeys
  imports YogDict YogSymbols YogComparable
begin

text \<open>
  The keys of dictionaries. A value table calls the methods \<^verbatim>\<open>==\<close> and \<^verbatim>\<open>hash\<close> of the key; here the call
  is dispatched to the methods of the builtin classes (\<^verbatim>\<open>src/nil.c\<close>, \<^verbatim>\<open>src/bool.c\<close>, \<^verbatim>\<open>src/symbol.c\<close>,
  \<^verbatim>\<open>src/fixnum.c\<close>, \<^verbatim>\<open>src/string.c\<close>, with \<^verbatim>\<open>==\<close> of \<^verbatim>\<open>src/comparable.c\<close> for the last two and of
  \<^verbatim>\<open>src/object.c\<close> for the first two), and the laws that the table needs are proved for nil, the truth
  values, Fixnums, symbols and strings.
\<close>

section \<open>The methods of the keys\<close>

definition object_equal :: "'o yval \<Rightarrow> 'o yval \<Rightarrow> 'o yval" where
  "object_equal self obj = (if self = obj then YBool True else YBool False)"

definition nil_hash :: "'o yval" where
  "nil_hash = int2val 2"

definition bool_hash :: "bool \<Rightarrow> 'o yval" where
  "bool_hash self = (let n = (if self then 1 else 0) in int2val n)"

definition symbol_hash_method :: "64 word \<Rightarrow> 'o yval" where
  "symbol_hash_method self = int2val (sint self)"

definition symbol_equal_method :: "64 word \<Rightarrow> 'o yval \<Rightarrow> 'o yval" where
  "symbol_equal_method self obj =
     (case obj of YSymbol i \<Rightarrow> if self = i then YBool True else YBool False | _ \<Rightarrow> YBool False)"

text \<open>The dispatch by the class of the receiver; objects of other classes are not keys of the model. A key as an operand of the numeric methods.\<close>

definition key_operand :: "str_obj yval \<Rightarrow> (unit, unit, ystring) operand" where
  "key_operand = map_yval (case_str_obj OString OOther)"

definition fixnum_compare :: "(unit, unit, ystring) operand \<Rightarrow> (unit, unit, ystring) operand \<Rightarrow> unit yval res" where
  "fixnum_compare = fixnum_ufo_method"

definition string_compare :: "str_obj yval \<Rightarrow> str_obj yval \<Rightarrow> unit yval res" where
  "string_compare = string_ufo"

definition call_equal :: "str_obj yval \<Rightarrow> str_obj yval \<Rightarrow> str_obj yval res" where
  "call_equal self x =
     (case self of
        YNil \<Rightarrow> Inr (object_equal self x)
      | YBool _ \<Rightarrow> Inr (object_equal self x)
      | YSymbol i \<Rightarrow> Inr (symbol_equal_method i x)
      | YFixnum _ \<Rightarrow> res_bind (equal_to fixnum_compare (key_operand self) (key_operand x)) (\<lambda>b. Inr (bool2val b))
      | YPtr (OStr _) \<Rightarrow> res_bind (equal_to string_compare self x) (\<lambda>b. Inr (bool2val b))
      | _ \<Rightarrow> Inl (YogBug ''no key of the model''))"

definition call_hash :: "str_obj yval \<Rightarrow> str_obj yval res" where
  "call_hash self =
     (case self of
        YNil \<Rightarrow> Inr nil_hash
      | YBool b \<Rightarrow> Inr (bool_hash b)
      | YSymbol i \<Rightarrow> Inr (symbol_hash_method i)
      | YFixnum _ \<Rightarrow> res_bind (fixnum_hash self) (\<lambda>r :: (unit, unit, ystring) num.
          case r of NFix n \<Rightarrow> Inr (YFixnum n) | _ \<Rightarrow> Inr YNil)
      | YPtr (OStr _) \<Rightarrow> string_hash self
      | _ \<Rightarrow> Inl (YogBug ''no key of the model''))"

section \<open>The laws\<close>

definition is_dict_key :: "str_obj yval \<Rightarrow> bool" where
  "is_dict_key v = (case v of YNil \<Rightarrow> True | YBool _ \<Rightarrow> True | YSymbol _ \<Rightarrow> True | YFixnum n \<Rightarrow> FIXABLE n
     | YPtr (OStr s) \<Rightarrow> string_ok s | _ \<Rightarrow> False)"

typedef dict_key = "{v. is_dict_key v}" morphisms key_value Key
  by (rule exI[of _ YNil]) (simp add: is_dict_key_def)

setup_lifting type_definition_dict_key

lift_definition nil_key :: dict_key is YNil
  by (simp add: is_dict_key_def)

lift_definition symbol_key :: "64 word \<Rightarrow> dict_key" is YSymbol
  by (simp add: is_dict_key_def)

text \<open>What the equality of keys compares: strings by their characters, all others by themselves.\<close>

definition key_content :: "dict_key \<Rightarrow> YogChar list yval" where
  "key_content k = map_yval (case_str_obj chars_of []) (key_value k)"

definition type_builtin :: "dict_key hash_type" where
  "type_builtin = type_val (\<lambda>_. False) (\<lambda>_. Inl MemFault)
     (\<lambda>a b. call_equal (key_value a) (key_value b)) (\<lambda>k. call_hash (key_value k))"

lemma keyE:
  obtains "key_value k = YNil" "key_content k = YNil"
  | b where "key_value k = YBool b" "key_content k = YBool b"
  | i where "key_value k = YSymbol i" "key_content k = YSymbol i"
  | n where "key_value k = YFixnum n" "key_content k = YFixnum n" "FIXABLE n"
  | s where "key_value k = YPtr (OStr s)" "key_content k = YPtr (chars_of s)" "string_ok s"
  using key_value[of k] by (auto simp: is_dict_key_def key_content_def split: yval.splits str_obj.splits)

lemma fixnum_key_equal:
  assumes "FIXABLE n" "is_dict_key x"
  shows "equal_to fixnum_compare (key_operand (YFixnum n)) (key_operand x) = Inr (x = YFixnum n)"
proof (cases x)
  case (YFixnum m)
  have "equal_to fixnum_compare (YFixnum n) (YFixnum m) = Inr (n = m)" if "FIXABLE m"
    unfolding fixnum_compare_def using fixnum_comparison_order[OF assms(1) that] by blast
  then show ?thesis using YFixnum assms(2) by (auto simp: key_operand_def is_dict_key_def)
qed (use assms in \<open>auto simp: key_operand_def is_dict_key_def equal_to_def cmp_def fixnum_compare_def fixnum_ufo_method_def
      fixnum_ufo_def check_self_fixnum_def YogFixnum_binop_ufo_def split: str_obj.splits\<close>)

lemma string_key_equal:
  assumes "string_ok s" "is_dict_key x"
  shows "equal_to string_compare (YPtr (OStr s)) x = Inr (\<exists>t. x = YPtr (OStr t) \<and> chars_of t = chars_of s)"
proof (cases "\<exists>t. x = YPtr (OStr t)")
  case True
  then obtain t where t: "x = YPtr (OStr t)" by blast
  then have "string_ok t" using assms(2) by (simp add: is_dict_key_def)
  then have "equal_to string_compare (YPtr (OStr s)) (YPtr (OStr t)) = Inr (memory_bytes s = memory_bytes t)"
    unfolding string_compare_def
    using assms(1) strcmp.derived_order(5)[of "YPtr (OStr s)" "YPtr (OStr t)"] by (simp add: is_string_val_def val_bytes_def)
  then show ?thesis by (auto simp: t memory_bytes_inj)
next
  case False
  then show ?thesis
    by (auto simp: equal_to_def cmp_def string_compare_def string_ufo_def check_self_string_def YogString_binop_ufo_def
        split: yval.splits str_obj.splits)
qed

lemma builtin_equal: "ht_compare type_builtin a b \<longleftrightarrow> key_content a = key_content b"
proof -
  have b: "is_dict_key (key_value b)" using key_value by simp
  show ?thesis
    using b by (cases a rule: keyE; cases b rule: keyE)
      (auto simp: type_builtin_def type_val_def compare_val_def call_equal_def object_equal_def yog_test_def
        symbol_equal_method_def fixnum_key_equal string_key_equal bool2val_def)
qed

lemma builtin_hash:
  "ht_hash type_builtin k = (case key_value k of YNil \<Rightarrow> Inr 2 | YBool b \<Rightarrow> Inr (if b then 1 else 0)
     | YSymbol i \<Rightarrow> Inr (signed_take_bit 62 (sint i)) | YFixnum n \<Rightarrow> Inr n
     | YPtr (OStr s) \<Rightarrow> res_bind (YogString_hash s) (\<lambda>h. Inr (signed_take_bit 62 h)) | _ \<Rightarrow> Inl MemFault)"
  by (cases "YogString_hash (case key_value k of YPtr (OStr s) \<Rightarrow> s)"; cases k rule: keyE)
    (auto simp: type_builtin_def type_val_def hash_val_def call_hash_def nil_hash_def
      bool_hash_def symbol_hash_method_def fixnum_hash_def check_self_fixnum_def string_hash_def
      check_self_string_def int2val_def YogVal_to_signed_type_def)

lemma string_hash_chars:
  "string_ok s \<Longrightarrow> string_ok t \<Longrightarrow> chars_of s = chars_of t \<Longrightarrow> YogString_hash s = YogString_hash t"
  using compare_string_iff[of s t] compare_string_hash[of s t] by (simp add: type_string_def)

lemma builtin_equal_hash:
  assumes "key_content a = key_content b"
  shows "ht_hash type_builtin a = ht_hash type_builtin b"
proof (cases a rule: keyE)
  case (5 s)
  then obtain t where "key_value b = YPtr (OStr t)" "chars_of s = chars_of t" "string_ok t"
    using assms by (cases b rule: keyE) auto
  then show ?thesis using 5 string_hash_chars[of s t] by (simp add: builtin_hash)
qed (use assms in \<open>cases b rule: keyE; simp add: builtin_hash\<close>)+

interpretation builtin: hash_laws type_builtin
proof
  show "do_hash type_builtin a = do_hash type_builtin b" if "ht_compare type_builtin a b" for a b
    using builtin_equal_hash[of a b] that by (simp add: builtin_equal do_hash_def)
qed (simp_all only: builtin_equal)

lemma builtin_hashes: "key_hashes type_builtin k"
proof (cases k rule: keyE)
  case (5 s)
  then obtain h where "YogString_hash s = Inr h" using string_hashes[of s]
    by (cases "YogString_hash s") (auto simp: key_hashes_def do_hash_def type_string_def hash_string_def)
  then show ?thesis using 5 by (simp add: key_hashes_def do_hash_def builtin_hash)
qed (simp_all add: key_hashes_def do_hash_def builtin_hash)

section \<open>Properties\<close>

text \<open>C29: with keys that are nil, truth values, Fixnums, symbols or strings (which are not changed while
  they are keys), and a dictionary of less than 6442451454 entries (where the table's sizes end):
  after d[k] = v the subscript of any key equal to k, of the same kind and the same content,
  yields v, every other key yields what it did before, KeyError for a missing key included, and
  the size grows by one exactly when the key was new. Keys with \<^verbatim>\<open>==\<close> and \<^verbatim>\<open>hash\<close> of their own, and
  Floats, whose \<^verbatim>\<open>==\<close> is not reflexive, are not covered.
\<close>

theorem dict_assign_subscript:
  assumes "dict_ok type_builtin d" "YogDict_size d < 6442451454" "v \<noteq> YUndef"
  shows "\<exists>d'. dict_subscript_assign type_builtin (YPtr (ODict d)) k v = Inr d' \<and> dict_ok type_builtin d'
    \<and> (\<forall>k'. dict_subscript type_builtin (YPtr (ODict d')) k' =
          (if key_content k = key_content k' then Inr v else dict_subscript type_builtin (YPtr (ODict d)) k'))
    \<and> YogDict_size d' = YogDict_size d + (if YogDict_include type_builtin d k = Inr True then 0 else 1)"
  using dict_assign_subscript_laws[OF builtin.hash_laws_axioms assms(1,2) builtin_hashes[of k] assms(3)]
  by (simp add: builtin_hashes builtin_equal)

text \<open>The dictionary that \<^verbatim>\<open>YogDict_new\<close> makes.\<close>

lemma builtin_dict_new:
  "\<exists>d :: (dict_key, 'o) dict. YogDict_new = Inr d \<and> dict_ok type_builtin d \<and> YogDict_size d = 0"
  using builtin.dict_new_spec by blast

theorem dict_assign_subscript_witness:
  "\<exists>d d'. YogDict_new = Inr d
    \<and> dict_subscript_assign type_builtin (YPtr (ODict d)) (symbol_key 5) (YFixnum 3) = Inr (d' :: (dict_key, nat) dict)
    \<and> dict_subscript type_builtin (YPtr (ODict d')) (symbol_key 5) = Inr (YFixnum 3)
    \<and> YogDict_size d' = YogDict_size d
        + (if YogDict_include type_builtin d (symbol_key 5) = Inr True then 0 else 1)"
proof -
  obtain d :: "(dict_key, nat) dict" where d: "YogDict_new = Inr d" "dict_ok type_builtin d" "YogDict_size d = 0"
    using builtin_dict_new by blast
  then have "YogDict_size d < 6442451454" by simp
  from dict_assign_subscript[OF d(2) this, of "YFixnum 3" "symbol_key 5"] d(1) show ?thesis by fastforce
qed

end
