(* ===== verification/YogFrames.thy ===== *)
theory YogFrames
  imports YogArguments
begin

text \<open>
  The frames of calls: \<^verbatim>\<open>frame.c\<close>, the pools of \<^verbatim>\<open>thread.c\<close> from which frames are reused, and the parts of
  \<^verbatim>\<open>eval.c\<close> and \<^verbatim>\<open>insts.def\<close> that move values between frames: return, multiple assignment, exceptions, and
  the jumps of \<^verbatim>\<open>return\<close> and \<^verbatim>\<open>break\<close> out of a block. A frame is known by its address, an undefined
  \<^verbatim>\<open>prev\<close> is nil. A pool is the list of its frames, the next to be taken at the end. The arrays that collect values are
  \<open>NewArray\<close>, as in the binding of arguments. The sizes of a frame are those of arrays in memory, so that their sums do not wrap. The handles and the jump buffers of C are left out.
\<close>

section \<open>Frames\<close>

datatype frame_type = FRAME_FINISH | FRAME_SCRIPT

text \<open>What the frames see of a \<^verbatim>\<open>YogCode\<close>: the entries of \<^verbatim>\<open>exc_tbl\<close> are (from, to, target).\<close>

record code =
  code_stack_size :: nat
  outer_size :: nat
  exc_tbl :: "(nat \<times> nat \<times> nat) list"

record 'o script_frame =
  sf_prev :: "nat option"
  sf_type :: frame_type
  stack_capacity :: nat
  locals_num :: nat
  outer_frames_num :: nat
  pc :: nat
  stack_size :: nat
  sf_code :: "code option"
  sf_globals :: "'o local"
  frame_to_long_return :: "nat option"
  frame_to_long_break :: "nat option"
  lhs_left_num :: nat
  lhs_middle_num :: nat
  lhs_right_num :: nat
  used_by_func :: bool
  sf_klass :: "'o local"
  sf_name :: id
  locals_etc :: "'o local list"

record 'o c_frame =
  cf_prev :: "nat option"
  cf_f :: "'o local"
  multi_val :: "'o local"

datatype 'o frame = CFrame "'o c_frame" | ScriptFrame "'o script_frame"

record 'o frames =
  frame_at :: "nat \<Rightarrow> 'o frame option"
  next_frame :: nat
  cur_frame :: "nat option"
  script_frames :: "nat list"
  finish_frames :: "nat list"
  c_frames :: "nat list"
  jmp_val :: "'o yval list"
  frame_to_long_jump :: "nat option"

definition load_script :: "'o frames \<Rightarrow> nat \<Rightarrow> 'o script_frame res" where
  "load_script st a = (case frame_at st a of Some (ScriptFrame f) \<Rightarrow> Inr f | _ \<Rightarrow> Inl MemFault)"

definition put_frame :: "nat \<Rightarrow> 'o frame \<Rightarrow> 'o frames \<Rightarrow> 'o frames" where
  "put_frame a f st = st\<lparr>frame_at := (frame_at st)(a \<mapsto> f)\<rparr>"

definition update_script :: "nat \<Rightarrow> ('o script_frame \<Rightarrow> 'o script_frame) \<Rightarrow> 'o frames \<Rightarrow> 'o frames res" where
  "update_script a g st = res_bind (load_script st a) (\<lambda>f. Inr (put_frame a (ScriptFrame (g f)) st))"

definition current :: "'o frames \<Rightarrow> nat res" where
  "current st = (case cur_frame st of Some a \<Rightarrow> Inr a | None \<Rightarrow> Inl MemFault)"

definition new_frame :: "'o frame \<Rightarrow> 'o frames \<Rightarrow> nat \<times> 'o frames" where
  "new_frame f st = (next_frame st, put_frame (next_frame st) f (st\<lparr>next_frame := Suc (next_frame st)\<rparr>))"

fun prev_of :: "'o frame \<Rightarrow> nat option" where
  "prev_of (CFrame f) = cf_prev f"
| "prev_of (ScriptFrame f) = sf_prev f"

fun link_prev :: "nat option \<Rightarrow> 'o frame \<Rightarrow> 'o frame" where
  "link_prev p (CFrame f) = CFrame (f\<lparr>cf_prev := p\<rparr>)"
| "link_prev p (ScriptFrame f) = ScriptFrame (f\<lparr>sf_prev := p\<rparr>)"

definition load_frame :: "'o frames \<Rightarrow> nat \<Rightarrow> 'o frame res" where
  "load_frame st a = (case frame_at st a of Some f \<Rightarrow> Inr f | None \<Rightarrow> Inl MemFault)"

definition YogEval_pop_frame :: "'o frames \<Rightarrow> 'o frames res" where
  "YogEval_pop_frame st =
     res_bind (current st) (\<lambda>a. res_bind (load_frame st a) (\<lambda>f. Inr (st\<lparr>cur_frame := prev_of f\<rparr>)))"

definition YogEval_push_frame :: "nat \<Rightarrow> 'o frames \<Rightarrow> 'o frames res" where
  "YogEval_push_frame a st =
     res_bind (load_frame st a) (\<lambda>f.
       Inr ((put_frame a (link_prev (cur_frame st) f) st)\<lparr>cur_frame := Some a\<rparr>))"

section \<open>The stack of a frame\<close>

definition YogScriptFrame_push_stack :: "nat \<Rightarrow> 'o local \<Rightarrow> 'o frames \<Rightarrow> 'o frames res" where
  "YogScriptFrame_push_stack a val st =
     res_bind (load_script st a) (\<lambda>f.
       if \<not> stack_size f < stack_capacity f then Inl (YogBug ''Full stack'')
       else res_bind (mem_store (locals_etc f) (stack_size f) val) (\<lambda>ls.
         Inr (put_frame a (ScriptFrame (f\<lparr>locals_etc := ls, stack_size := stack_size f + 1\<rparr>)) st)))"

definition pop :: "'o frames \<Rightarrow> ('o local \<times> 'o frames) res" where
  "pop st =
     res_bind (current st) (\<lambda>a.
     res_bind (load_script st a) (\<lambda>f.
       if stack_size f = 0 then Inl (YogBug ''Empty stack'')
       else res_bind (mem_load (locals_etc f) (stack_size f - 1)) (\<lambda>val.
         Inr (val, put_frame a (ScriptFrame (f\<lparr>stack_size := stack_size f - 1\<rparr>)) st))))"

text \<open>The loops that pop \<open>n\<close> values.\<close>

fun pop_values :: "nat \<Rightarrow> 'o frames \<Rightarrow> ('o local list \<times> 'o frames) res" where
  "pop_values 0 st = Inr ([], st)"
| "pop_values (Suc n) st =
     res_bind (pop st) (\<lambda>(v, st). res_bind (pop_values n st) (\<lambda>(vs, st). Inr (v # vs, st)))"

text \<open>Only values are in an array.\<close>

fun vals_of :: "'o local list \<Rightarrow> 'o yval list res" where
  "vals_of [] = Inr []"
| "vals_of (Val v # xs) = res_bind (vals_of xs) (\<lambda>vs. Inr (v # vs))"
| "vals_of (_ # xs) = Inl MemFault"

section \<open>Frames that are made and reused\<close>

definition cleanup_locals :: "'o script_frame \<Rightarrow> 'o script_frame res" where
  "cleanup_locals f =
     (let n = stack_capacity f + locals_num f + outer_frames_num f in
      res_bind (foldM (\<lambda>i ls. mem_store ls i Undef) [0..<n] (locals_etc f)) (\<lambda>ls. Inr (f\<lparr>locals_etc := ls\<rparr>)))"

definition YogScriptFrame_cleanup :: "nat \<Rightarrow> 'o frames \<Rightarrow> 'o frames res" where
  "YogScriptFrame_cleanup a st =
     res_bind (load_script st a) (\<lambda>f.
     res_bind (cleanup_locals (f\<lparr>sf_prev := None, pc := 0, sf_code := None, stack_size := 0, sf_globals := Undef,
         frame_to_long_return := None, frame_to_long_break := None, sf_klass := Undef\<rparr>)) (\<lambda>f.
       Inr (put_frame a (ScriptFrame f) st)))"

text \<open>\<open>junk\<close> is what the allocated memory holds.\<close>

definition YogScriptFrame_init :: "frame_type \<Rightarrow> code \<Rightarrow> nat \<Rightarrow> nat \<Rightarrow> 'o local list \<Rightarrow> 'o script_frame res" where
  "YogScriptFrame_init type code num left junk =
     res_bind (cleanup_locals
       \<lparr>sf_prev = None, sf_type = type, stack_capacity = code_stack_size code, locals_num = num,
        outer_frames_num = outer_size code, pc = 0, stack_size = 0, sf_code = None, sf_globals = Undef,
        frame_to_long_return = None, frame_to_long_break = None, lhs_left_num = left, lhs_middle_num = 0,
        lhs_right_num = 0, used_by_func = False, sf_klass = Undef, sf_name = 0, locals_etc = junk\<rparr>) (\<lambda>f.
       Inr (f\<lparr>sf_code := Some code\<rparr>))"

definition YogScriptFrame_new :: "frame_type \<Rightarrow> code \<Rightarrow> nat \<Rightarrow> nat \<Rightarrow> 'o frames \<Rightarrow> (nat \<times> 'o frames) res" where
  "YogScriptFrame_new type code num left st =
     (let n = code_stack_size code + num + outer_size code in
      res_bind (YogScriptFrame_init type code num left (replicate n Undef)) (\<lambda>f.
        Inr (new_frame (ScriptFrame f) st)))"

definition YogCFrame_new :: "'o frames \<Rightarrow> nat \<times> 'o frames" where
  "YogCFrame_new st = new_frame (CFrame \<lparr>cf_prev = None, cf_f = Undef, multi_val = Undef\<rparr>) st"

definition YogFinishFrame_clean :: "nat \<Rightarrow> 'o frames \<Rightarrow> 'o frames res" where
  "YogFinishFrame_clean a st = update_script a (\<lambda>f. f\<lparr>sf_prev := None, pc := 0, stack_size := 0\<rparr>) st"

text \<open>\<open>finish_code\<close> and the number of its variables are those of the VM.\<close>

definition YogFinishFrame_new :: "code \<Rightarrow> nat \<Rightarrow> 'o frames \<Rightarrow> (nat \<times> 'o frames) res" where
  "YogFinishFrame_new finish_code num st = YogScriptFrame_new FRAME_FINISH finish_code num 1 st"

definition FINISH_FRAMES_MAX :: nat where "FINISH_FRAMES_MAX = 8"
definition SCRIPT_FRAMES_MAX :: nat where "SCRIPT_FRAMES_MAX = 32"
definition C_FRAMES_MAX :: nat where "C_FRAMES_MAX = 32"

definition YogThread_get_finish_frame :: "'o frames \<Rightarrow> nat option \<times> 'o frames" where
  "YogThread_get_finish_frame st =
     (if finish_frames st = [] then (None, st)
      else (Some (last (finish_frames st)), st\<lparr>finish_frames := butlast (finish_frames st)\<rparr>))"

definition YogThread_put_finish_frame :: "nat \<Rightarrow> 'o frames \<Rightarrow> 'o frames" where
  "YogThread_put_finish_frame a st =
     (if FINISH_FRAMES_MAX \<le> length (finish_frames st) then st else st\<lparr>finish_frames := finish_frames st @ [a]\<rparr>)"

definition YogThread_get_script_frame :: "'o frames \<Rightarrow> nat option \<times> 'o frames" where
  "YogThread_get_script_frame st =
     (if script_frames st = [] then (None, st)
      else (Some (last (script_frames st)), st\<lparr>script_frames := butlast (script_frames st)\<rparr>))"

definition YogThread_put_script_frame :: "nat \<Rightarrow> 'o frames \<Rightarrow> 'o frames" where
  "YogThread_put_script_frame a st =
     (if SCRIPT_FRAMES_MAX \<le> length (script_frames st) then st else st\<lparr>script_frames := script_frames st @ [a]\<rparr>)"

definition YogThread_get_c_frame :: "'o frames \<Rightarrow> nat option \<times> 'o frames" where
  "YogThread_get_c_frame st =
     (if c_frames st = [] then (None, st) else (Some (last (c_frames st)), st\<lparr>c_frames := butlast (c_frames st)\<rparr>))"

definition YogThread_put_c_frame :: "nat \<Rightarrow> 'o frames \<Rightarrow> 'o frames" where
  "YogThread_put_c_frame a st =
     (if C_FRAMES_MAX \<le> length (c_frames st) then st else st\<lparr>c_frames := c_frames st @ [a]\<rparr>)"

definition YogFrame_get_c_frame :: "'o frames \<Rightarrow> nat \<times> 'o frames" where
  "YogFrame_get_c_frame st =
     (case YogThread_get_c_frame st of (Some a, st) \<Rightarrow> (a, st) | (None, st) \<Rightarrow> YogCFrame_new st)"

definition YogFrame_get_script_frame :: "code \<Rightarrow> nat \<Rightarrow> 'o frames \<Rightarrow> (nat \<times> 'o frames) res" where
  "YogFrame_get_script_frame code num st =
     (case YogThread_get_script_frame st of
        (Some a, st) \<Rightarrow>
          res_bind (load_script st a) (\<lambda>f.
            let actual = stack_capacity f + locals_num f + outer_frames_num f;
                needed = code_stack_size code + num + outer_size code
            in if needed \<le> actual
               then Inr (a, put_frame a (ScriptFrame (f\<lparr>stack_capacity := code_stack_size code, locals_num := num,
                      outer_frames_num := actual - code_stack_size code - num, sf_code := Some code\<rparr>)) st)
               else YogScriptFrame_new FRAME_SCRIPT code num 0 st)
      | (None, st) \<Rightarrow> YogScriptFrame_new FRAME_SCRIPT code num 0 st)"

definition YogEval_push_finish_frame :: "code \<Rightarrow> nat \<Rightarrow> 'o frames \<Rightarrow> 'o frames res" where
  "YogEval_push_finish_frame finish_code num st =
     (case YogThread_get_finish_frame st of
        (Some a, st) \<Rightarrow> YogEval_push_frame a st
      | (None, st) \<Rightarrow> res_bind (YogFinishFrame_new finish_code num st) (\<lambda>(a, st). YogEval_push_frame a st))"

section \<open>Values that a call returns\<close>

definition set_lhs_composition :: "nat \<Rightarrow> nat \<Rightarrow> nat \<Rightarrow> 'o frames \<Rightarrow> 'o frames res" where
  "set_lhs_composition left middle right st =
     res_bind (current st) (\<lambda>a.
       update_script a (\<lambda>f. f\<lparr>lhs_left_num := left, lhs_middle_num := middle, lhs_right_num := right\<rparr>) st)"

definition YogEval_push_returned_value :: "nat \<Rightarrow> 'o yval \<Rightarrow> 'o frames \<Rightarrow> 'o frames res" where
  "YogEval_push_returned_value a val st =
     res_bind (load_script st a) (\<lambda>f.
       if lhs_left_num f + lhs_middle_num f + lhs_right_num f = 0 then Inr st
       else if 0 < lhs_middle_num f
       then (if 0 < lhs_left_num f + lhs_right_num f then Inl (ValueError ''too few multiple value'')
             else YogScriptFrame_push_stack a (NewArray [val]) st)
       else if lhs_left_num f \<noteq> 1 then Inl (ValueError ''number of multiple value unmatched'')
       else YogScriptFrame_push_stack a (Val val) st)"

definition prev_frame :: "'o frames \<Rightarrow> nat res" where
  "prev_frame st =
     res_bind (current st) (\<lambda>a. res_bind (load_frame st a) (\<lambda>f.
       case prev_of f of Some p \<Rightarrow> Inr p | None \<Rightarrow> Inl MemFault))"

fun move_stack_value :: "nat \<Rightarrow> 'o frames \<Rightarrow> 'o frames res" where
  "move_stack_value 0 st = Inr st"
| "move_stack_value (Suc n) st =
     res_bind (prev_frame st) (\<lambda>p.
     res_bind (pop st) (\<lambda>(v, st).
     res_bind (YogScriptFrame_push_stack p v st) (move_stack_value n)))"

definition return_middle :: "nat \<Rightarrow> 'o frames \<Rightarrow> 'o frames res" where
  "return_middle n st =
     res_bind (pop_values n st) (\<lambda>(vs, st).
     res_bind (vals_of vs) (\<lambda>vs.
     res_bind (prev_frame st) (\<lambda>p. YogScriptFrame_push_stack p (NewArray vs) st)))"

definition move_returned_value :: "nat \<Rightarrow> 'o frames \<Rightarrow> 'o frames res" where
  "move_returned_value n st =
     res_bind (prev_frame st) (\<lambda>p.
       if n = 0 then YogEval_push_returned_value p YNil st
       else res_bind (load_script st p) (\<lambda>f.
         let left = lhs_left_num f; middle = lhs_middle_num f; right = lhs_right_num f in
         if left + middle + right = 0 then Inr st
         else if 0 < middle \<and> n < left + right then Inl (ValueError ''too few multiple value'')
         else if \<not> 0 < middle \<and> left \<noteq> n then Inl (ValueError ''number of multiple value unmatched'')
         else res_bind (move_stack_value left st) (\<lambda>st.
              res_bind (if 0 < middle then return_middle (n - left - right) st else Inr st) (\<lambda>st.
                move_stack_value right st))))"

definition push_from_array :: "'o yval list \<Rightarrow> nat \<Rightarrow> nat \<Rightarrow> 'o frames \<Rightarrow> 'o frames res" where
  "push_from_array vals from to st =
     foldM (\<lambda>i st. res_bind (mem_load vals i) (\<lambda>v. res_bind (current st) (\<lambda>a. YogScriptFrame_push_stack a (Val v) st)))
       [from..<to] st"

definition push_array_from_array :: "'o yval list \<Rightarrow> nat \<Rightarrow> nat \<Rightarrow> 'o frames \<Rightarrow> 'o frames res" where
  "push_array_from_array vals from to st =
     res_bind (foldM (\<lambda>i a. res_bind (mem_load vals i) (\<lambda>v. Inr (a @ [v]))) [from..<to] []) (\<lambda>a.
     res_bind (current st) (\<lambda>c. YogScriptFrame_push_stack c (NewArray a) st))"

definition YogEval_push_returned_multi_value :: "'o yval list \<Rightarrow> 'o frames \<Rightarrow> 'o frames res" where
  "YogEval_push_returned_multi_value vals st =
     (let n = length vals in
      if \<not> 0 < n then Inl (YogBug ''jmp_val must contain more than one values (0x%08x)'')
      else res_bind (current st) (\<lambda>a. res_bind (load_script st a) (\<lambda>f.
        let left = lhs_left_num f; middle = lhs_middle_num f; right = lhs_right_num f in
        if left + middle + right = 0 then Inr st
        else if 0 < middle \<and> n < left + right then Inl (ValueError ''too few multiple value'')
        else if \<not> 0 < middle \<and> left \<noteq> n
        then Inl (ValueError ''number of multiple value unmatched. %u value(s) requested, but apply %u value(s)'')
        else res_bind (push_from_array vals 0 left st) (\<lambda>st.
             res_bind (if 0 < middle then push_array_from_array vals left (n - right) st else Inr st) (\<lambda>st.
               push_from_array vals (n - right) n st)))))"

definition make_jmp_val :: "nat \<Rightarrow> 'o frames \<Rightarrow> ('o yval list \<times> 'o frames) res" where
  "make_jmp_val n st =
     (if n = 0 then Inr ([YNil], st)
      else res_bind (pop_values n st) (\<lambda>(vs, st). res_bind (vals_of vs) (\<lambda>vs. Inr (vs, st))))"

definition push_jmp_val :: "'o frames \<Rightarrow> 'o frames res" where
  "push_jmp_val st = YogEval_push_returned_multi_value (jmp_val st) st"

text \<open>The instructions \<^verbatim>\<open>ret\<close> and \<^verbatim>\<open>finish\<close>; \<^verbatim>\<open>PC\<close> after \<^verbatim>\<open>ret\<close> is that of the frame returned to.\<close>

definition inst_ret :: "nat \<Rightarrow> 'o frames \<Rightarrow> 'o frames res" where
  "inst_ret n st =
     res_bind (move_returned_value n st) (\<lambda>st.
     res_bind (current st) (\<lambda>a.
     res_bind (YogEval_pop_frame st) (\<lambda>st.
     res_bind (load_script st a) (\<lambda>f.
       if \<not> used_by_func f
       then res_bind (YogScriptFrame_cleanup a st) (\<lambda>st. Inr (YogThread_put_script_frame a st))
       else Inr st))))"

definition inst_finish :: "'o frames \<Rightarrow> ('o local \<times> 'o frames) res" where
  "inst_finish st =
     res_bind (pop st) (\<lambda>(val, st).
     res_bind (current st) (\<lambda>a.
     res_bind (YogEval_pop_frame st) (\<lambda>st.
     res_bind (YogFinishFrame_clean a st) (\<lambda>st.
       Inr (val, YogThread_put_finish_frame a st)))))"

section \<open>Frames that functions refer to\<close>

text \<open>\<^verbatim>\<open>setup_script_function\<close>: the current frame becomes the outer frame of the new function. A block also gets the
  frames that its \<^verbatim>\<open>return\<close> and \<^verbatim>\<open>break\<close> jump to.\<close>

record function_frames =
  outer_frame :: nat
  fn_long_return :: "nat option"
  fn_long_break :: "nat option"

definition setup_script_function :: "'o frames \<Rightarrow> (function_frames \<times> 'o frames) res" where
  "setup_script_function st =
     res_bind (current st) (\<lambda>a.
     res_bind (update_script a (\<lambda>f. f\<lparr>used_by_func := True\<rparr>) st) (\<lambda>st.
       Inr (\<lparr>outer_frame = a, fn_long_return = None, fn_long_break = None\<rparr>, st)))"

definition inst_make_block :: "'o frames \<Rightarrow> (function_frames \<times> 'o frames) res" where
  "inst_make_block st =
     res_bind (setup_script_function st) (\<lambda>(fn, st).
     res_bind (current st) (\<lambda>a.
     res_bind (load_script st a) (\<lambda>f.
       Inr (fn\<lparr>fn_long_return := frame_to_long_return f, fn_long_break := Some a\<rparr>, st))))"

definition create_frame_for_names :: "code \<Rightarrow> 'o local \<Rightarrow> 'o frames \<Rightarrow> (nat \<times> 'o frames) res" where
  "create_frame_for_names code vars st =
     res_bind (YogFrame_get_script_frame code 1 st) (\<lambda>(a, st).
     res_bind (load_script st a) (\<lambda>f.
     res_bind (mem_store (locals_etc f) (stack_capacity f) vars) (\<lambda>ls.
       Inr (a, put_frame a (ScriptFrame (f\<lparr>locals_etc := ls\<rparr>)) st))))"

section \<open>Calls of functions written in Yog\<close>

record 'o script_function =
  fn_code :: code
  fn_arg_info :: "arg_info option"
  fn_locals :: nat
  fn_globals :: "'o local"
  fn_frames :: function_frames
  fn_needs_self :: bool
  fn_name :: id

text \<open>\<open>fptr\<close> makes the pointer to a frame a value.\<close>

definition fill_outer_frames :: "(nat \<Rightarrow> 'o) \<Rightarrow> nat \<Rightarrow> nat \<Rightarrow> nat \<Rightarrow> 'o frames \<Rightarrow> 'o frames res" where
  "fill_outer_frames fptr a outer depth st =
     (if depth = 0 then Inr st
      else res_bind (load_script st a) (\<lambda>f.
        if \<not> depth \<le> outer_frames_num f then Inl (YogBug ''Shallow frame depth (%u, %u)'')
        else let offset = stack_capacity f + locals_num f in
          res_bind (mem_store (locals_etc f) offset (Val (YPtr (fptr outer)))) (\<lambda>ls.
          res_bind (foldM (\<lambda>i ls.
              res_bind (load_script st outer) (\<lambda>g.
              res_bind (mem_load (if outer = a then ls else locals_etc g) (stack_capacity g + locals_num g + i)) (\<lambda>v.
                mem_store ls (offset + 1 + i) v))) [0..<depth - 1] ls) (\<lambda>ls.
            Inr (put_frame a (ScriptFrame (f\<lparr>locals_etc := ls\<rparr>)) st)))))"

definition YogFunction_exec_for_instance :: "(nat \<Rightarrow> 'o) \<Rightarrow> 'o objects \<Rightarrow> 'o script_function \<Rightarrow> 'o yval option \<Rightarrow> 'o local option
    \<Rightarrow> 'o call_args \<Rightarrow> 'o frames \<Rightarrow> 'o frames res" where
  "YogFunction_exec_for_instance fptr h fn self defining_class call st =
     res_bind (YogFrame_get_script_frame (fn_code fn) (fn_locals fn) st) (\<lambda>(a, st).
     res_bind (load_script st a) (\<lambda>f.
     res_bind (if fn_needs_self fn
               then mem_store (locals_etc f) (stack_capacity f) (case self of None \<Rightarrow> Undef | Some v \<Rightarrow> Val v)
               else Inr (locals_etc f)) (\<lambda>ls.
     res_bind (fill_args h (fn_arg_info fn) (stack_capacity f + (if fn_needs_self fn then 1 else 0)) call ls) (\<lambda>ls.
     res_bind (fill_outer_frames fptr a (outer_frame (fn_frames fn)) (outer_size (fn_code fn))
         (put_frame a (ScriptFrame (f\<lparr>sf_globals := fn_globals fn, locals_etc := ls\<rparr>)) st)) (\<lambda>st.
     res_bind (update_script a (\<lambda>f. f\<lparr>
         frame_to_long_return := (case fn_long_return (fn_frames fn) of Some r \<Rightarrow> Some r | None \<Rightarrow> cur_frame st),
         frame_to_long_break := fn_long_break (fn_frames fn),
         sf_klass := (case defining_class of Some c \<Rightarrow> c | None \<Rightarrow> sf_klass f),
         sf_name := fn_name fn\<rparr>) st) (\<lambda>st.
       YogEval_push_frame a st))))))"

section \<open>Jumps\<close>

definition find_exception_table_entry :: "code \<Rightarrow> nat \<Rightarrow> nat option" where
  "find_exception_table_entry code p =
     map_option (\<lambda>(_, _, target). target) (find (\<lambda>(from, to, _). from < p \<and> p \<le> to) (exc_tbl code))"

text \<open>The recursion along \<^verbatim>\<open>prev\<close> has fuel.\<close>

fun rollback_frames :: "nat \<Rightarrow> nat option \<Rightarrow> 'o frames \<Rightarrow> (bool \<times> 'o frames) res" where
  "rollback_frames 0 fr st = Inl NoReturn"
| "rollback_frames (Suc n) fr st =
     (case fr of
        None \<Rightarrow> Inr (False, st)
      | Some a \<Rightarrow>
          res_bind (load_frame st a) (\<lambda>f.
            case f of
              CFrame _ \<Rightarrow> Inr (False, st)
            | ScriptFrame f \<Rightarrow>
                if sf_type f \<noteq> FRAME_SCRIPT then Inr (False, st)
                else (case sf_code f of
                        None \<Rightarrow> Inl MemFault
                      | Some code \<Rightarrow>
                          (case find_exception_table_entry code (pc f) of
                             None \<Rightarrow> rollback_frames n (sf_prev f) st
                           | Some target \<Rightarrow>
                               Inr (True, put_frame a (ScriptFrame (f\<lparr>pc := target\<rparr>)) (st\<lparr>cur_frame := Some a\<rparr>))))))"

fun skip_c_frame :: "nat \<Rightarrow> 'o frames \<Rightarrow> 'o frames res" where
  "skip_c_frame 0 st = Inl NoReturn"
| "skip_c_frame (Suc n) st =
     res_bind (current st) (\<lambda>a. res_bind (load_frame st a) (\<lambda>f.
       case f of CFrame g \<Rightarrow> skip_c_frame n (st\<lparr>cur_frame := cf_prev g\<rparr>) | ScriptFrame _ \<Rightarrow> Inr st))"

fun skip_to_c_frame :: "nat \<Rightarrow> nat option \<Rightarrow> 'o frames \<Rightarrow> 'o frames res" where
  "skip_to_c_frame 0 fr st = Inl NoReturn"
| "skip_to_c_frame (Suc n) fr st =
     (case fr of
        None \<Rightarrow> Inl (YogBug ''Can't long jump current frame'')
      | Some a \<Rightarrow>
          res_bind (load_frame st a) (\<lambda>f.
            case f of
              CFrame _ \<Rightarrow> Inr (st\<lparr>cur_frame := Some a\<rparr>)
            | ScriptFrame f \<Rightarrow>
                (case sf_type f of
                   FRAME_SCRIPT \<Rightarrow> skip_to_c_frame n (sf_prev f) st
                 | FRAME_FINISH \<Rightarrow> Inr (st\<lparr>cur_frame := sf_prev f\<rparr>))))"

text \<open>The loops of \<^verbatim>\<open>skip_to_c_frame\<close> and \<^verbatim>\<open>detect_orphan\<close> start at the frame below the current one.\<close>

fun detect_orphan :: "nat \<Rightarrow> nat option \<Rightarrow> nat option \<Rightarrow> 'o frames \<Rightarrow> unit res" where
  "detect_orphan 0 fr target st = Inl NoReturn"
| "detect_orphan (Suc n) fr target st =
     (case fr of
        None \<Rightarrow> Inl (LocalJumpError ''frame to %s is lost'')
      | Some a \<Rightarrow>
          res_bind (load_frame st a) (\<lambda>f.
            case f of
              CFrame f \<Rightarrow> detect_orphan n (cf_prev f) target st
            | ScriptFrame f \<Rightarrow> if target = Some a then Inr () else detect_orphan n (sf_prev f) target st))"

text \<open>\<^verbatim>\<open>long_jump\<close> up to the \<^verbatim>\<open>longjmp\<close>; the main loop then finds the frame.\<close>

definition long_jump :: "nat \<Rightarrow> nat \<Rightarrow> nat option \<Rightarrow> 'o frames \<Rightarrow> 'o frames res" where
  "long_jump fuel depth target st =
     res_bind (make_jmp_val depth st) (\<lambda>(objs, st).
     res_bind (current st) (\<lambda>a. res_bind (load_frame st a) (\<lambda>f.
     res_bind (detect_orphan fuel (prev_of f) target st) (\<lambda>_.
       Inr (st\<lparr>jmp_val := objs, frame_to_long_jump := target\<rparr>)))))"

section \<open>Pushing and popping\<close>

text \<open>A frame after a list of values is pushed, and after some are popped; the values popped, the top first.\<close>

definition push_onto :: "'o local list \<Rightarrow> 'o script_frame \<Rightarrow> 'o script_frame" where
  "push_onto xs f = f\<lparr>locals_etc := take (stack_size f) (locals_etc f) @ xs @ drop (stack_size f + length xs) (locals_etc f),
     stack_size := stack_size f + length xs\<rparr>"

definition drop_top :: "nat \<Rightarrow> 'o script_frame \<Rightarrow> 'o script_frame" where
  "drop_top k f = f\<lparr>stack_size := stack_size f - k\<rparr>"

definition tops :: "nat \<Rightarrow> 'o script_frame \<Rightarrow> 'o local list" where
  "tops k f = map (\<lambda>i. locals_etc f ! (stack_size f - 1 - i)) [0..<k]"

definition stack_ok :: "'o script_frame \<Rightarrow> bool" where
  "stack_ok f \<longleftrightarrow> stack_size f \<le> stack_capacity f \<and> stack_capacity f \<le> length (locals_etc f)"

abbreviation room :: "nat \<Rightarrow> 'o script_frame \<Rightarrow> bool" where
  "room n f \<equiv> stack_ok f \<and> stack_size f + n \<le> stack_capacity f"

lemma push_onto_simps [simp]:
  "stack_size (push_onto xs f) = stack_size f + length xs" "stack_capacity (push_onto xs f) = stack_capacity f"
  "sf_prev (push_onto xs f) = sf_prev f" "lhs_left_num (push_onto xs f) = lhs_left_num f"
  "lhs_middle_num (push_onto xs f) = lhs_middle_num f" "lhs_right_num (push_onto xs f) = lhs_right_num f"
  by (simp_all add: push_onto_def)

lemma push_onto_Nil [simp]: "push_onto [] f = f"
  by (simp add: push_onto_def)

lemma length_push_onto [simp]:
  "room (length xs) f \<Longrightarrow> length (locals_etc (push_onto xs f)) = length (locals_etc f)"
  by (simp add: push_onto_def stack_ok_def)

lemma stack_ok_push_onto [simp]: "room (length xs) f \<Longrightarrow> stack_ok (push_onto xs f)"
  using length_push_onto[where xs = xs and f = f] by (simp add: stack_ok_def)

lemma push_onto_append: "room (length xs + length ys) f \<Longrightarrow> push_onto ys (push_onto xs f) = push_onto (xs @ ys) f"
  by (simp add: push_onto_def stack_ok_def ac_simps)

text \<open>What the frame shows after the pushes.\<close>

definition stack_of :: "'o script_frame \<Rightarrow> 'o local list" where
  "stack_of f = take (stack_size f) (locals_etc f)"

lemma stack_of_push_onto: "stack_ok f \<Longrightarrow> stack_of (push_onto xs f) = stack_of f @ xs"
  by (simp add: stack_of_def push_onto_def stack_ok_def)

lemma push_stack_onto:
  assumes "load_script st a = Inr f" "room 1 f"
  shows "YogScriptFrame_push_stack a x st = Inr (put_frame a (ScriptFrame (push_onto [x] f)) st)"
proof -
  have "(locals_etc f)[stack_size f := x] = take (stack_size f) (locals_etc f) @ [x] @ drop (stack_size f + 1) (locals_etc f)"
    using assms(2) by (simp add: stack_ok_def upd_conv_take_nth_drop)
  then show ?thesis using assms by (simp add: YogScriptFrame_push_stack_def push_onto_def stack_ok_def)
qed

lemma load_put [simp]:
  "load_script (put_frame a (ScriptFrame f) st) a = Inr f" "b \<noteq> a \<Longrightarrow> load_script (put_frame a x st) b = load_script st b"
  "load_frame (put_frame a x st) a = Inr x" "b \<noteq> a \<Longrightarrow> load_frame (put_frame a x st) b = load_frame st b"
  by (simp_all add: load_script_def put_frame_def load_frame_def)

lemma put_put [simp]: "put_frame a x (put_frame a y st) = put_frame a x st"
  by (simp add: put_frame_def)

lemma put_frame_fields [simp]:
  "cur_frame (put_frame a x st) = cur_frame st" "next_frame (put_frame a x st) = next_frame st"
  "script_frames (put_frame a x st) = script_frames st" "finish_frames (put_frame a x st) = finish_frames st"
  "c_frames (put_frame a x st) = c_frames st" "jmp_val (put_frame a x st) = jmp_val st"
  "frame_at (put_frame a x st) = (frame_at st)(a \<mapsto> x)"
  by (simp_all add: put_frame_def)

lemma put_commute: "a \<noteq> b \<Longrightarrow> put_frame a x (put_frame b y st) = put_frame b y (put_frame a x st)"
  by (simp add: put_frame_def fun_upd_twist)

lemma current_put [simp]: "current (put_frame a x st) = current st"
  by (simp add: current_def)

lemma load_script_frame: "load_script st a = Inr f \<Longrightarrow> load_frame st a = Inr (ScriptFrame f)"
  by (auto simp: load_script_def load_frame_def split: option.splits frame.splits)

lemma put_same: "load_script st a = Inr f \<Longrightarrow> put_frame a (ScriptFrame f) st = st"
  by (auto simp: load_script_def put_frame_def fun_upd_idem split: option.splits frame.splits)

lemma drop_top_simps [simp]:
  "stack_size (drop_top k f) = stack_size f - k" "sf_prev (drop_top k f) = sf_prev f"
  "locals_etc (drop_top k f) = locals_etc f" "stack_ok f \<Longrightarrow> stack_ok (drop_top k f)"
  by (auto simp: drop_top_def stack_ok_def)

lemma drop_top_0 [simp]: "drop_top 0 f = f"
  by (simp add: drop_top_def)

lemma tops_0 [simp]: "tops 0 f = []"
  by (simp add: tops_def)

lemma length_tops [simp]: "length (tops k f) = k"
  by (simp add: tops_def)

lemma tops_Suc: "tops (Suc k) f = locals_etc f ! (stack_size f - 1) # tops k (drop_top 1 f)"
  by (auto simp: tops_def drop_top_def map_upt_Suc simp del: upt_Suc intro!: arg_cong[where f = "(!) (locals_etc f)"])

lemma drop_top_drop_top: "drop_top k (drop_top j f) = drop_top (j + k) f"
  by (simp add: drop_top_def)

lemma pop_top:
  assumes "cur_frame st = Some c" "load_script st c = Inr g" "0 < stack_size g" "stack_ok g"
  shows "pop st = Inr (locals_etc g ! (stack_size g - 1), put_frame c (ScriptFrame (drop_top 1 g)) st)"
proof -
  have "stack_size g - 1 < length (locals_etc g)" using assms(3,4) unfolding stack_ok_def by linarith
  then show ?thesis using assms by (simp add: pop_def current_def drop_top_def)
qed

lemma pop_values_tops:
  "cur_frame st = Some c \<Longrightarrow> load_script st c = Inr g \<Longrightarrow> k \<le> stack_size g \<Longrightarrow> stack_ok g \<Longrightarrow>
   pop_values k st = Inr (tops k g, put_frame c (ScriptFrame (drop_top k g)) st)"
proof (induction k arbitrary: st g)
  case 0
  then show ?case by (simp add: put_same)
next
  case (Suc k)
  let ?st = "put_frame c (ScriptFrame (drop_top 1 g)) st"
  have "pop_values k ?st = Inr (tops k (drop_top 1 g), put_frame c (ScriptFrame (drop_top k (drop_top 1 g))) ?st)"
    using Suc.prems by (intro Suc.IH) auto
  then show ?case using pop_top[OF Suc.prems(1,2)] Suc.prems by (simp add: tops_Suc drop_top_drop_top)
qed

text \<open>Two frames: the one that returns and the one that it returns to.\<close>

definition two_frames :: "nat \<Rightarrow> 'o script_frame \<Rightarrow> nat \<Rightarrow> 'o script_frame \<Rightarrow> 'o frames \<Rightarrow> 'o frames" where
  "two_frames c g p f st = put_frame p (ScriptFrame f) (put_frame c (ScriptFrame g) st)"

lemma two_frames_simps [simp]:
  assumes "c \<noteq> p"
  shows "load_script (two_frames c g p f st) c = Inr g" "load_script (two_frames c g p f st) p = Inr f"
    "load_frame (two_frames c g p f st) c = Inr (ScriptFrame g)"
    "put_frame c (ScriptFrame g') (two_frames c g p f st) = two_frames c g' p f st"
    "put_frame p (ScriptFrame f') (two_frames c g p f st) = two_frames c g p f' st"
    "cur_frame (two_frames c g p f st) = cur_frame st" "current (two_frames c g p f st) = current st"
  using assms by (simp_all add: two_frames_def put_commute[of c p])

lemma move_stack_value_tops:
  assumes "c \<noteq> p" "cur_frame st = Some c"
  shows "sf_prev g = Some p \<Longrightarrow> k \<le> stack_size g \<Longrightarrow> stack_ok g \<Longrightarrow> room k f \<Longrightarrow>
    move_stack_value k (two_frames c g p f st) = Inr (two_frames c (drop_top k g) p (push_onto (tops k g) f) st)"
proof (induction k arbitrary: g f)
  case (Suc k)
  let ?x = "locals_etc g ! (stack_size g - 1)"
  have pr: "prev_frame (two_frames c g p f st) = Inr p"
    using assms Suc.prems(1) by (simp add: prev_frame_def current_def)
  have po: "pop (two_frames c g p f st) = Inr (?x, two_frames c (drop_top 1 g) p f st)"
    using pop_top[of "two_frames c g p f st" c g] assms Suc.prems by simp
  have pu: "YogScriptFrame_push_stack p ?x (two_frames c (drop_top 1 g) p f st)
      = Inr (two_frames c (drop_top 1 g) p (push_onto [?x] f) st)"
    using push_stack_onto[of "two_frames c (drop_top 1 g) p f st" p f ?x] assms Suc.prems by simp
  have "move_stack_value k (two_frames c (drop_top 1 g) p (push_onto [?x] f) st)
      = Inr (two_frames c (drop_top k (drop_top 1 g)) p (push_onto (tops k (drop_top 1 g)) (push_onto [?x] f)) st)"
    using Suc.prems by (intro Suc.IH) auto
  moreover have "push_onto (tops k (drop_top 1 g)) (push_onto [?x] f) = push_onto (tops (Suc k) g) f"
    using Suc.prems(4) by (subst push_onto_append) (simp_all add: tops_Suc)
  ultimately show ?case using pr po pu by (simp add: drop_top_drop_top)
qed simp

section \<open>What a return assigns\<close>

text \<open>The values that \<open>a, ..., *b, c, ... = vs\<close> pushes for \<open>l\<close> targets, \<open>m\<close> for the rest and \<open>r\<close> more.\<close>

definition multi_assign :: "nat \<Rightarrow> nat \<Rightarrow> nat \<Rightarrow> 'o yval list \<Rightarrow> 'o local list option" where
  "multi_assign l m r vs =
     (if l + m + r = 0 then Some []
      else if 0 < m
      then (if length vs < l + r then None
            else Some (map Val (take l vs) @ [NewArray (take (length vs - l - r) (drop l vs))]
                   @ map Val (drop (length vs - r) vs)))
      else if l \<noteq> length vs then None
      else Some (map Val vs))"

definition lhs_ok :: "'o script_frame \<Rightarrow> bool" where
  "lhs_ok f \<longleftrightarrow> lhs_middle_num f \<le> 1 \<and> (lhs_middle_num f = 0 \<longrightarrow> lhs_right_num f = 0)
     \<and> room (lhs_left_num f + lhs_middle_num f + lhs_right_num f) f"

abbreviation assigned :: "'o script_frame \<Rightarrow> 'o yval list \<Rightarrow> 'o local list option" where
  "assigned f \<equiv> multi_assign (lhs_left_num f) (lhs_middle_num f) (lhs_right_num f)"

lemma vals_of_Val [simp]: "vals_of (map Val vs) = Inr vs"
  by (induction vs) simp_all

lemma tops_Val:
  assumes "tops n g = map Val vs" "j + k \<le> n"
  shows "tops k (drop_top j g) = map Val (take k (drop j vs))"
proof (rule nth_equalityI)
  have len: "length vs = n" using assms(1) length_tops[of n g] by (metis length_map)
  then show "length (tops k (drop_top j g)) = length (map Val (take k (drop j vs)) :: 'a local list)" using assms(2) by simp
  fix i assume i: "i < length (tops k (drop_top j g))"
  then have "tops k (drop_top j g) ! i = tops n g ! (j + i)" using assms(2) by (simp add: tops_def)
  also have "\<dots> = Val (vs ! (j + i))" using assms len i by simp
  finally show "tops k (drop_top j g) ! i = map Val (take k (drop j vs)) ! i" using assms(2) len i by simp
qed

lemma return_middle_tops:
  assumes "c \<noteq> p" "cur_frame st = Some c" "sf_prev g = Some p" "k \<le> stack_size g" "stack_ok g" "room 1 f"
    "tops k g = map Val vs"
  shows "return_middle k (two_frames c g p f st) = Inr (two_frames c (drop_top k g) p (push_onto [NewArray vs] f) st)"
proof -
  have "pop_values k (two_frames c g p f st) = Inr (map Val vs, two_frames c (drop_top k g) p f st)"
    using pop_values_tops[of "two_frames c g p f st" c g k] assms by simp
  moreover have "prev_frame (two_frames c (drop_top k g) p f st) = Inr p"
    using assms by (simp add: prev_frame_def current_def)
  ultimately show ?thesis
    using push_stack_onto[of "two_frames c (drop_top k g) p f st" p f "NewArray vs"] assms by (simp add: return_middle_def)
qed

lemma move_returned_assigned:
  assumes cp: "c \<noteq> p" "cur_frame st = Some c" and g: "sf_prev g = Some p" "n \<le> stack_size g" "stack_ok g"
    and vs: "tops n g = map Val vs" "0 < n" and f: "lhs_ok f"
  shows "case assigned f vs of
      None \<Rightarrow> \<exists>msg. move_returned_value n (two_frames c g p f st) = Inl (ValueError msg)
    | Some xs \<Rightarrow> \<exists>k. move_returned_value n (two_frames c g p f st) = Inr (two_frames c (drop_top k g) p (push_onto xs f) st)"
proof -
  let ?l = "lhs_left_num f" and ?m = "lhs_middle_num f" and ?r = "lhs_right_num f"
  let ?st = "two_frames c g p f st"
  have len: "length vs = n" using vs(1) length_tops[of n g] by (metis length_map)
  have pr: "prev_frame ?st = Inr p" using cp g by (simp add: prev_frame_def current_def)
  have run: "move_returned_value n ?st =
      (if ?l + ?m + ?r = 0 then Inr ?st
       else if 0 < ?m \<and> n < ?l + ?r then Inl (ValueError ''too few multiple value'')
       else if \<not> 0 < ?m \<and> ?l \<noteq> n then Inl (ValueError ''number of multiple value unmatched'')
       else res_bind (move_stack_value ?l ?st) (\<lambda>st.
            res_bind (if 0 < ?m then return_middle (n - ?l - ?r) st else Inr st) (\<lambda>st. move_stack_value ?r st)))"
    using pr cp(1) vs(2) by (simp add: move_returned_value_def Let_def)
  note ok = f[unfolded lhs_ok_def]
  consider "?l + ?m + ?r = 0" | "0 < ?m" "n < ?l + ?r" | "?m = 0" "0 < ?l" "?l \<noteq> n" | "0 < ?m" "?l + ?r \<le> n" | "?m = 0" "?l = n"
    using vs(2) ok by linarith
  then show ?thesis
  proof cases
    case 1
    then show ?thesis using run by (auto simp: multi_assign_def intro!: exI[of _ 0])
  next
    case 2
    then show ?thesis using run len by (simp add: multi_assign_def)
  next
    case 3
    then show ?thesis using run len by (simp add: multi_assign_def)
  next
    case 5
    then have r: "?r = 0" using ok by simp
    have "move_stack_value n ?st = Inr (two_frames c (drop_top n g) p (push_onto (map Val vs) f) st)"
      using move_stack_value_tops[OF cp g, of f] ok 5 vs(1) by simp
    then show ?thesis using run 5 r vs(2) len by (auto simp: multi_assign_def)
  next
    case 4
    let ?k = "n - ?l - ?r"
    have m: "?m = 1" using 4 ok by simp
    have n: "n = ?l + ?k + ?r" using 4 by simp
    let ?a = "map Val (take ?l vs)" and ?b = "take ?k (drop ?l vs)" and ?d = "map Val (drop (n - ?r) vs)"
    have la: "length ?a = ?l" "length ?d = ?r" using len n by simp_all
    have t1: "tops ?l g = ?a" using tops_Val[OF vs(1), of 0 ?l] n by simp
    have t2: "tops ?k (drop_top ?l g) = map Val ?b" using tops_Val[OF vs(1), of ?l ?k] n by simp
    have t3: "tops ?r (drop_top (?l + ?k) g) = ?d" using tops_Val[OF vs(1), of "?l + ?k" ?r] n len by simp
    have s1: "move_stack_value ?l ?st = Inr (two_frames c (drop_top ?l g) p (push_onto ?a f) st)"
      using move_stack_value_tops[OF cp g(1), of ?l f] g(2,3) ok n t1 by simp
    have s2: "return_middle ?k (two_frames c (drop_top ?l g) p (push_onto ?a f) st)
        = Inr (two_frames c (drop_top (?l + ?k) g) p (push_onto (?a @ [NewArray ?b]) f) st)"
      using return_middle_tops[OF cp, of "drop_top ?l g" ?k "push_onto ?a f" ?b] g n ok la t2 m
      by (simp add: drop_top_drop_top push_onto_append)
    have s3: "move_stack_value ?r (two_frames c (drop_top (?l + ?k) g) p (push_onto (?a @ [NewArray ?b]) f) st)
        = Inr (two_frames c (drop_top n g) p (push_onto (?a @ [NewArray ?b] @ ?d) f) st)"
      using move_stack_value_tops[OF cp, of "drop_top (?l + ?k) g" ?r "push_onto (?a @ [NewArray ?b]) f"] g n ok la t3 m
      by (simp add: drop_top_drop_top push_onto_append)
    show ?thesis using run 4 s1 s2 s3 len by (auto simp: multi_assign_def)
  qed
qed

lemma push_from_array_onto:
  assumes "cur_frame st = Some p" "load_script st p = Inr f" "from \<le> to" "to \<le> length vs" "room (to - from) f"
  shows "push_from_array vs from to st
    = Inr (put_frame p (ScriptFrame (push_onto (map Val (take (to - from) (drop from vs))) f)) st)"
  using assms
proof (induction "to - from" arbitrary: "from" f st)
  case 0
  then show ?case by (simp add: push_from_array_def put_same)
next
  case (Suc k)
  let ?f = "push_onto [Val (vs ! from)] f"
  let ?st = "put_frame p (ScriptFrame ?f) st"
  have lt: "from < to" using Suc.hyps(2) by simp
  have "push_from_array vs (Suc from) to ?st
      = Inr (put_frame p (ScriptFrame (push_onto (map Val (take (to - Suc from) (drop (Suc from) vs))) ?f)) ?st)"
    using Suc.prems Suc.hyps(2) lt by (intro Suc.hyps(1)) auto
  moreover have "push_onto (map Val (take (to - Suc from) (drop (Suc from) vs))) ?f
      = push_onto (map Val (take (to - from) (drop from vs))) f"
  proof -
    have "take (to - from) (drop from vs) = vs ! from # take (to - Suc from) (drop (Suc from) vs)"
      using lt Suc.prems(4) by (simp add: Cons_nth_drop_Suc[symmetric] take_Cons')
    then show ?thesis using Suc.prems(4,5) lt by (subst push_onto_append) auto
  qed
  moreover have "push_from_array vs from to st
      = res_bind (YogScriptFrame_push_stack p (Val (vs ! from)) st) (push_from_array vs (Suc from) to)"
    using Suc.prems lt by (simp add: push_from_array_def[abs_def] upt_conv_Cons current_def)
  moreover have "room 1 f"
  proof -
    have "stack_ok f" "stack_size f + (to - from) \<le> stack_capacity f" using Suc.prems(5) by blast+
    then show ?thesis using lt by linarith
  qed
  ultimately show ?case using push_stack_onto[OF Suc.prems(2), of "Val (vs ! from)"] by simp
qed

lemma push_array_onto:
  assumes "cur_frame st = Some p" "load_script st p = Inr f" "from \<le> to" "to \<le> length vs" "room 1 f"
  shows "push_array_from_array vs from to st
    = Inr (put_frame p (ScriptFrame (push_onto [NewArray (take (to - from) (drop from vs))] f)) st)"
proof -
  have "foldM (\<lambda>i a. res_bind (mem_load vs i) (\<lambda>v. Inr (a @ [v]))) is acc = Inr (acc @ map ((!) vs) is)"
    if "\<forall>i\<in>set is. i < length vs" for "is" acc
    using that by (induction "is" arbitrary: acc) simp_all
  from this[of "[from..<to]" "[]"] have "foldM (\<lambda>i a. res_bind (mem_load vs i) (\<lambda>v. Inr (a @ [v]))) [from..<to] []
      = Inr (map ((!) vs) [from..<to])" using assms(4) by simp
  moreover have "map ((!) vs) [from..<to] = take (to - from) (drop from vs)"
    by (rule nth_equalityI) (use assms in auto)
  ultimately show ?thesis using push_stack_onto[OF assms(2,5)] assms(1) by (simp add: push_array_from_array_def current_def)
qed

lemma push_multi_assigned:
  assumes st: "cur_frame st = Some p" "load_script st p = Inr f" and vs: "vs \<noteq> []" and f: "lhs_ok f"
  shows "case assigned f vs of
      None \<Rightarrow> \<exists>msg. YogEval_push_returned_multi_value vs st = Inl (ValueError msg)
    | Some xs \<Rightarrow> YogEval_push_returned_multi_value vs st = Inr (put_frame p (ScriptFrame (push_onto xs f)) st)"
proof -
  let ?l = "lhs_left_num f" and ?m = "lhs_middle_num f" and ?r = "lhs_right_num f" and ?n = "length vs"
  have run: "YogEval_push_returned_multi_value vs st =
      (if ?l + ?m + ?r = 0 then Inr st
       else if 0 < ?m \<and> ?n < ?l + ?r then Inl (ValueError ''too few multiple value'')
       else if \<not> 0 < ?m \<and> ?l \<noteq> ?n
       then Inl (ValueError ''number of multiple value unmatched. %u value(s) requested, but apply %u value(s)'')
       else res_bind (push_from_array vs 0 ?l st) (\<lambda>st.
            res_bind (if 0 < ?m then push_array_from_array vs ?l (?n - ?r) st else Inr st) (\<lambda>st.
              push_from_array vs (?n - ?r) ?n st)))"
    using st vs by (simp add: YogEval_push_returned_multi_value_def current_def Let_def)
  note ok = f[unfolded lhs_ok_def]
  consider "?l + ?m + ?r = 0" | "0 < ?m" "?n < ?l + ?r" | "?m = 0" "0 < ?l" "?l \<noteq> ?n" | "0 < ?m" "?l + ?r \<le> ?n"
    | "?m = 0" "?l = ?n" "0 < ?n"
    using vs ok by (metis add_is_0 gr0I length_greater_0_conv not_le)
  then show ?thesis
  proof cases
    case 1
    then show ?thesis using run st by (simp add: multi_assign_def put_same)
  next
    case 2
    then show ?thesis using run by (simp add: multi_assign_def)
  next
    case 3
    then show ?thesis using run by (simp add: multi_assign_def)
  next
    case 5
    then have r: "?r = 0" using ok by simp
    have "push_from_array vs 0 ?n st = Inr (put_frame p (ScriptFrame (push_onto (map Val vs) f)) st)"
      using push_from_array_onto[OF st, of 0 ?n vs] 5 ok by simp
    then show ?thesis using run 5 r by (simp add: multi_assign_def push_from_array_def)
  next
    case 4
    let ?k = "?n - ?l - ?r"
    have m: "?m = 1" using 4 ok by simp
    let ?a = "map Val (take ?l vs)" and ?b = "take ?k (drop ?l vs)" and ?d = "map Val (drop (?n - ?r) vs)"
    let ?s1 = "put_frame p (ScriptFrame (push_onto ?a f)) st"
    let ?s2 = "put_frame p (ScriptFrame (push_onto (?a @ [NewArray ?b]) f)) st"
    have la: "length ?a = ?l" "length ?d = ?r" using 4 by simp_all
    have s1: "push_from_array vs 0 ?l st = Inr ?s1" using push_from_array_onto[OF st, of 0 ?l vs] 4 ok by simp
    have s2: "push_array_from_array vs ?l (?n - ?r) ?s1 = Inr ?s2"
      using push_array_onto[of ?s1 p "push_onto ?a f" ?l "?n - ?r" vs] st 4 ok la m
      by (simp add: push_onto_append add.commute)
    have s3: "push_from_array vs (?n - ?r) ?n ?s2
        = Inr (put_frame p (ScriptFrame (push_onto (?a @ [NewArray ?b] @ ?d) f)) st)"
      using push_from_array_onto[of ?s2 p "push_onto (?a @ [NewArray ?b]) f" "?n - ?r" ?n vs] st 4 ok la m
      by (simp add: push_onto_append)
    show ?thesis using run 4 s1 s2 s3 by (simp add: multi_assign_def)
  qed
qed

section \<open>Frames that are clean\<close>

definition frame_wf :: "'o script_frame \<Rightarrow> bool" where
  "frame_wf f \<longleftrightarrow> stack_size f \<le> stack_capacity f
     \<and> length (locals_etc f) = stack_capacity f + locals_num f + outer_frames_num f"

lemma frame_wf_stack_ok: "frame_wf f \<Longrightarrow> stack_ok f"
  by (simp add: frame_wf_def stack_ok_def)

lemma foldM_store_all:
  "length ls = n \<Longrightarrow> foldM (\<lambda>i ls. mem_store ls i x) [0..<n] ls = Inr (replicate n x)"
proof -
  have "foldM (\<lambda>i ls. mem_store ls i x) [k..<k + j] (replicate k x @ ls) = Inr (replicate (k + j) x)"
    if "length ls = j" for k j ls
    using that
  proof (induction j arbitrary: k ls)
    case (Suc j)
    obtain y ys where ls: "ls = y # ys" using Suc.prems by (cases ls) auto
    have "foldM (\<lambda>i ls. mem_store ls i x) [Suc k..<Suc k + j] (replicate (Suc k) x @ ys) = Inr (replicate (Suc k + j) x)"
      using Suc.prems ls by (intro Suc.IH) simp
    moreover have "[k..<k + Suc j] = k # [Suc k..<Suc k + j]" by (simp add: upt_conv_Cons del: upt_Suc)
    moreover have "mem_store (replicate k x @ ls) k x = Inr (replicate (Suc k) x @ ys)"
      using ls by (simp add: list_update_append replicate_app_Cons_same)
    ultimately show ?case by (simp only: foldM.simps res_bind_simps add_Suc add_Suc_right)
  qed simp
  from this[of ls n 0] show "length ls = n \<Longrightarrow> foldM (\<lambda>i ls. mem_store ls i x) [0..<n] ls = Inr (replicate n x)" by simp
qed

definition clean :: "'o script_frame \<Rightarrow> bool" where
  "clean f \<longleftrightarrow> sf_prev f = None \<and> sf_type f = FRAME_SCRIPT \<and> pc f = 0 \<and> stack_size f = 0 \<and> sf_globals f = Undef
     \<and> frame_to_long_return f = None \<and> frame_to_long_break f = None \<and> \<not> used_by_func f \<and> sf_klass f = Undef
     \<and> locals_etc f = replicate (stack_capacity f + locals_num f + outer_frames_num f) Undef"

lemma clean_wf: "clean f \<Longrightarrow> frame_wf f"
  by (simp add: clean_def frame_wf_def)

lemma cleanup_locals_wf:
  "frame_wf f \<Longrightarrow> cleanup_locals f
    = Inr (f\<lparr>locals_etc := replicate (stack_capacity f + locals_num f + outer_frames_num f) Undef\<rparr>)"
  by (simp add: cleanup_locals_def frame_wf_def foldM_store_all)

lemma cleanup_clean:
  assumes "load_script st a = Inr f" "frame_wf f" "sf_type f = FRAME_SCRIPT" "\<not> used_by_func f"
  shows "\<exists>f'. YogScriptFrame_cleanup a st = Inr (put_frame a (ScriptFrame f') st) \<and> clean f'"
proof -
  let ?f = "f\<lparr>sf_prev := None, pc := 0, sf_code := None, stack_size := 0, sf_globals := Undef,
         frame_to_long_return := None, frame_to_long_break := None, sf_klass := Undef\<rparr>"
  have "frame_wf ?f" using assms(2) by (simp add: frame_wf_def)
  from cleanup_locals_wf[OF this] obtain f' where f': "cleanup_locals ?f = Inr f'"
    "f' = ?f\<lparr>locals_etc := replicate (stack_capacity ?f + locals_num ?f + outer_frames_num ?f) Undef\<rparr>" by blast
  have "clean f'" using assms(3,4) by (simp add: f'(2) clean_def)
  moreover have "YogScriptFrame_cleanup a st = Inr (put_frame a (ScriptFrame f') st)"
    using f'(1) assms(1) by (simp add: YogScriptFrame_cleanup_def)
  ultimately show ?thesis by blast
qed

section \<open>The return of values\<close>

lemma two_frames_same:
  assumes "load_script st c = Inr g" "load_script st p = Inr f"
  shows "two_frames c g p f st = st"
  unfolding two_frames_def put_same[OF assms(1)] by (rule put_same[OF assms(2)])

lemma drop_top_fields [simp]:
  "used_by_func (drop_top k f) = used_by_func f" "sf_type (drop_top k f) = sf_type f" "frame_wf f \<Longrightarrow> frame_wf (drop_top k f)"
  by (auto simp: drop_top_def frame_wf_def)

lemma inst_ret_spec:
  assumes st: "cur_frame st = Some c" "load_script st c = Inr g" "load_script st p = Inr f" "p \<noteq> c"
    and g: "sf_prev g = Some p" "n \<le> stack_size g" "frame_wf g" "sf_type g = FRAME_SCRIPT"
    and vs: "tops n g = map Val vs" "0 < n" and f: "lhs_ok f"
  shows "case assigned f vs of
      None \<Rightarrow> \<exists>msg. inst_ret n st = Inl (ValueError msg)
    | Some xs \<Rightarrow> \<exists>st'. inst_ret n st = Inr st' \<and> cur_frame st' = Some p \<and> load_script st' p = Inr (push_onto xs f)
        \<and> script_frames st' = (if used_by_func g \<or> SCRIPT_FRAMES_MAX \<le> length (script_frames st) then script_frames st
                               else script_frames st @ [c])
        \<and> (\<exists>g'. load_script st' c = Inr g' \<and> (used_by_func g \<or> clean g'))"
proof -
  have cp: "c \<noteq> p" using st(4) by simp
  note moved = move_returned_assigned[OF cp st(1) g(1,2) frame_wf_stack_ok[OF g(3)] vs f, unfolded two_frames_same[OF st(2,3)]]
  show ?thesis
  proof (cases "assigned f vs")
    case None
    then show ?thesis using moved by (auto simp: inst_ret_def)
  next
    case (Some xs)
    let ?s = "\<lambda>k. two_frames c (drop_top k g) p (push_onto xs f) st"
    obtain k where k: "move_returned_value n st = Inr (?s k)" using moved Some by auto
    let ?t = "(?s k)\<lparr>cur_frame := Some p\<rparr>"
    have load: "load_script (s\<lparr>cur_frame := x\<rparr>) a = load_script s a" for s :: "'a frames" and x a
      by (simp add: load_script_def)
    have pop: "YogEval_pop_frame (?s k) = Inr ?t"
      using st(1) cp g(1) by (simp add: YogEval_pop_frame_def current_def)
    have run: "inst_ret n st = (if \<not> used_by_func g
        then res_bind (YogScriptFrame_cleanup c ?t) (\<lambda>st. Inr (YogThread_put_script_frame c st)) else Inr ?t)"
      using k pop cp st(1) by (simp add: inst_ret_def current_def load)
    show ?thesis
    proof (cases "used_by_func g")
      case True
      then show ?thesis using run Some cp
        by (auto simp: load two_frames_def)
    next
      case False
      obtain g' where g': "YogScriptFrame_cleanup c ?t = Inr (put_frame c (ScriptFrame g') ?t)" "clean g'"
        using cleanup_clean[of ?t c "drop_top k g"] cp g False by (auto simp: load)
      have put: "load_script (YogThread_put_script_frame a s) b = load_script s b"
        "cur_frame (YogThread_put_script_frame a s) = cur_frame s" for a b and s :: "'a frames"
        by (simp_all add: YogThread_put_script_frame_def load_script_def)
      have "inst_ret n st = Inr (YogThread_put_script_frame c (put_frame c (ScriptFrame g') ?t))" using run False g'(1) by simp
      moreover have "script_frames (YogThread_put_script_frame c (put_frame c (ScriptFrame g') ?t))
          = (if SCRIPT_FRAMES_MAX \<le> length (script_frames st) then script_frames st else script_frames st @ [c])"
        by (simp add: YogThread_put_script_frame_def two_frames_def)
      ultimately show ?thesis using Some False st(4) cp g'(2) by (auto simp: put load)
    qed
  qed
qed

text \<open>C22: \<^verbatim>\<open>return\<close> with one or more values assigns them to the targets that the call site announced: the first ones to the
  left targets, the last ones to the right ones, the others as an array to the one after the star;
  they are pushed on the stack of the caller in this order. When the numbers do not fit, ValueError is raised.
  The caller becomes the current frame, and the frame that returns goes, cleaned, to the pool unless a function
  refers to it or the pool is full. The call site is one that the compiler makes (\<open>lhs_ok\<close>): at most one star, targets to the right only
  after a star, and room for the targets on the stack.\<close>

theorem ret_assigns_values:
  assumes "cur_frame st = Some c" "load_script st c = Inr g" "load_script st p = Inr f" "p \<noteq> c"
    and "sf_prev g = Some p" "n \<le> stack_size g" "frame_wf g" "sf_type g = FRAME_SCRIPT"
    and "tops n g = map Val vs" "0 < n" "lhs_ok f"
  shows "case assigned f vs of
      None \<Rightarrow> \<exists>msg. inst_ret n st = Inl (ValueError msg)
    | Some xs \<Rightarrow> \<exists>st'. inst_ret n st = Inr st' \<and> cur_frame st' = Some p \<and> load_script st' p = Inr (push_onto xs f)
        \<and> script_frames st' = (if used_by_func g \<or> SCRIPT_FRAMES_MAX \<le> length (script_frames st) then script_frames st
                               else script_frames st @ [c])
        \<and> (\<exists>g'. load_script st' c = Inr g' \<and> (used_by_func g \<or> clean g'))"
  by (rule inst_ret_spec[OF assms])

definition sample_frame :: "nat option \<Rightarrow> nat \<Rightarrow> 'o yval list \<Rightarrow> nat \<Rightarrow> nat \<Rightarrow> nat \<Rightarrow> 'o script_frame" where
  "sample_frame prev capacity vs left middle right =
     \<lparr>sf_prev = prev, sf_type = FRAME_SCRIPT, stack_capacity = capacity, locals_num = 0, outer_frames_num = 0, pc = 0,
      stack_size = length vs, sf_code = None, sf_globals = Undef, frame_to_long_return = None, frame_to_long_break = None,
      lhs_left_num = left, lhs_middle_num = middle, lhs_right_num = right, used_by_func = False, sf_klass = Undef, sf_name = 0,
      locals_etc = map Val vs @ replicate (capacity - length vs) Undef\<rparr>"

text \<open>\<^verbatim>\<open>a, *b = f()\<close>, where \<^verbatim>\<open>f\<close> returns three values.\<close>

definition sample_frames :: "nat frames" where
  "sample_frames =
     \<lparr>frame_at = [0 \<mapsto> ScriptFrame (sample_frame None 3 [] 1 1 0),
        1 \<mapsto> ScriptFrame (sample_frame (Some 0) 3 [YFixnum 3, YFixnum 2, YFixnum 1] 0 0 0)],
      next_frame = 2, cur_frame = Some 1, script_frames = [], finish_frames = [], c_frames = [], jmp_val = [],
      frame_to_long_jump = None\<rparr>"

lemmas sample_frames_defs = sample_frames_def sample_frame_def load_script_def load_frame_def frame_wf_def stack_ok_def lhs_ok_def
  tops_def numeral_eq_Suc

theorem ret_assigns_values_witness:
  "case assigned (sample_frame None 3 [] 1 1 0) [YFixnum 1, YFixnum 2, YFixnum 3 :: nat yval] of
      None \<Rightarrow> \<exists>msg. inst_ret 3 sample_frames = Inl (ValueError msg)
    | Some xs \<Rightarrow> \<exists>st'. inst_ret 3 sample_frames = Inr st' \<and> cur_frame st' = Some 0
        \<and> load_script st' 0 = Inr (push_onto xs (sample_frame None 3 [] 1 1 0))
        \<and> script_frames st' = (if used_by_func (sample_frame (Some 0) 3 [YFixnum 3, YFixnum 2, YFixnum 1 :: nat yval] 0 0 0)
              \<or> SCRIPT_FRAMES_MAX \<le> length (script_frames sample_frames) then script_frames sample_frames
            else script_frames sample_frames @ [1])
        \<and> (\<exists>g'. load_script st' 1 = Inr g'
              \<and> (used_by_func (sample_frame (Some 0) 3 [YFixnum 3, YFixnum 2, YFixnum 1 :: nat yval] 0 0 0) \<or> clean g'))"
  by (rule ret_assigns_values) (simp_all add: sample_frames_defs)

text \<open>The current frame \<open>c\<close> is \<open>g\<close> and has the values \<open>vs\<close> on the top of its stack.\<close>

definition on_top :: "'o frames \<Rightarrow> nat \<Rightarrow> 'o script_frame \<Rightarrow> 'o yval list \<Rightarrow> bool" where
  "on_top st c g vs \<longleftrightarrow> cur_frame st = Some c \<and> load_script st c = Inr g \<and> frame_wf g \<and> length vs \<le> stack_size g
     \<and> tops (length vs) g = map Val vs"

text \<open>C23: A \<^verbatim>\<open>return\<close> or \<^verbatim>\<open>break\<close> out of a block with one or more values, which carries them in an array to the target frame, however deep
  below, leaves the same values on the stack of that frame as a plain \<^verbatim>\<open>return\<close> of the same values from a call that the frame
  has made would, and fails just when that would fail. The call site is one that the compiler makes (\<open>lhs_ok\<close>).\<close>

theorem jump_assigns_as_ret:
  assumes "on_top st c g vs" "p \<noteq> c" "load_script st p = Inr f"
    and "on_top st' d k vs" "p \<noteq> d" "load_script st' p = Inr f" "sf_prev k = Some p" "sf_type k = FRAME_SCRIPT"
    and "vs \<noteq> []" "lhs_ok f"
  shows "\<exists>st1. make_jmp_val (length vs) st = Inr (vs, st1)
    \<and> (case push_jmp_val (st1\<lparr>jmp_val := vs, cur_frame := Some p\<rparr>) of
         Inl e \<Rightarrow> (\<exists>m1 m2. e = ValueError m1 \<and> inst_ret (length vs) st' = Inl (ValueError m2))
       | Inr s \<Rightarrow> (\<exists>s'. inst_ret (length vs) st' = Inr s' \<and> load_script s p = load_script s' p))"
proof -
  note g = assms(1)[unfolded on_top_def] and k = assms(4)[unfolded on_top_def]
  have jmp: "make_jmp_val (length vs) st = Inr (vs, put_frame c (ScriptFrame (drop_top (length vs) g)) st)"
    using pop_values_tops[of st c g "length vs"] g frame_wf_stack_ok[of g] assms(9) by (simp add: make_jmp_val_def)
  let ?s = "(put_frame c (ScriptFrame (drop_top (length vs) g)) st)\<lparr>jmp_val := vs, cur_frame := Some p\<rparr>"
  have load: "load_script (s\<lparr>jmp_val := x, cur_frame := y\<rparr>) a = load_script s a" for s :: "'a frames" and x y a
    by (simp add: load_script_def)
  have s: "cur_frame ?s = Some p" "load_script ?s p = Inr f" "jmp_val ?s = vs" using assms(2,3) by (simp_all add: load)
  have ret: "case assigned f vs of
      None \<Rightarrow> \<exists>msg. inst_ret (length vs) st' = Inl (ValueError msg)
    | Some xs \<Rightarrow> \<exists>s'. inst_ret (length vs) st' = Inr s' \<and> load_script s' p = Inr (push_onto xs f)"
    using inst_ret_spec[of st' d k p f "length vs" vs] k assms(5-10) by (auto split: option.split)
  show ?thesis
    using jmp push_multi_assigned[OF s(1,2) assms(9,10)] ret s(3)
    by (cases "assigned f vs") (auto simp: push_jmp_val_def)
qed

text \<open>The same three values, from a call that the function has made and that jumps to its caller.\<close>

definition deeper_frames :: "nat frames" where
  "deeper_frames = sample_frames\<lparr>frame_at := (frame_at sample_frames)(2 \<mapsto>
       ScriptFrame (sample_frame (Some 1) 3 [YFixnum 3, YFixnum 2, YFixnum 1] 0 0 0)),
     next_frame := 3, cur_frame := Some 2\<rparr>"

theorem jump_assigns_as_ret_witness:
  "\<exists>st1. make_jmp_val (length [YFixnum 1, YFixnum 2, YFixnum 3 :: nat yval]) deeper_frames
      = Inr ([YFixnum 1, YFixnum 2, YFixnum 3], st1)
    \<and> (case push_jmp_val (st1\<lparr>jmp_val := [YFixnum 1, YFixnum 2, YFixnum 3], cur_frame := Some 0\<rparr>) of
         Inl e \<Rightarrow> (\<exists>m1 m2. e = ValueError m1
             \<and> inst_ret (length [YFixnum 1, YFixnum 2, YFixnum 3 :: nat yval]) sample_frames = Inl (ValueError m2))
       | Inr s \<Rightarrow> (\<exists>s'. inst_ret (length [YFixnum 1, YFixnum 2, YFixnum 3 :: nat yval]) sample_frames = Inr s'
             \<and> load_script s 0 = load_script s' 0))"
  by (rule jump_assigns_as_ret[where g = "sample_frame (Some 1) 3 [YFixnum 3, YFixnum 2, YFixnum 1] 0 0 0"
        and k = "sample_frame (Some 0) 3 [YFixnum 3, YFixnum 2, YFixnum 1] 0 0 0"
        and f = "sample_frame None 3 [] 1 1 0" and c = 2 and d = 1])
    (simp_all add: on_top_def deeper_frames_def sample_frames_defs)

text \<open>A single value from a C function, or no value, is treated otherwise than the value of \<^verbatim>\<open>return\<close>: \<^verbatim>\<open>a, *b = f()\<close>
  raises ValueError for it, whereas a function in Yog that returns the same value assigns it and an empty array.\<close>

lemma single_value_depends_on_callee:
  assumes "load_script st p = Inr f" "lhs_left_num f + lhs_right_num f = 1" "lhs_middle_num f = 1"
  shows "YogEval_push_returned_value p v st = Inl (ValueError ''too few multiple value'')
    \<and> (\<exists>xs. assigned f [v] = Some xs \<and> Val v \<in> set xs \<and> NewArray [] \<in> set xs)"
  using assms by (cases "lhs_left_num f") (auto simp: YogEval_push_returned_value_def multi_assign_def)

lemma single_value_depends_on_callee_instance:
  "YogEval_push_returned_value 0 YNil sample_frames = Inl (ValueError ''too few multiple value'')
    \<and> (\<exists>xs. assigned (sample_frame None 3 [] 1 1 0) [YNil :: nat yval] = Some xs \<and> Val YNil \<in> set xs \<and> NewArray [] \<in> set xs)"
  by (rule single_value_depends_on_callee) (simp_all add: sample_frames_defs)

end
