(* ===== verification/YogFrameReuse.thy ===== *)
theory YogFrameReuse
  imports YogFrames
begin

text \<open>
  What the pools of frames promise: a frame taken from the pool is like a new one, so that a call binds its
  arguments whatever the frame was used for before. Two defects are shown: caught exceptions leave their
  operands on the stack, and the test for lost frames can be deceived by reuse.
\<close>

section \<open>Frames from the pool\<close>

definition fresh_addresses :: "'o frames \<Rightarrow> bool" where
  "fresh_addresses st \<longleftrightarrow> (\<forall>a\<ge>next_frame st. frame_at st a = None)"

definition pool_ok :: "'o frames \<Rightarrow> bool" where
  "pool_ok st \<longleftrightarrow> fresh_addresses st \<and> distinct (script_frames st)
     \<and> (\<forall>a\<in>set (script_frames st). \<exists>f. load_script st a = Inr f \<and> clean f)"

text \<open>A frame ready for a call of \<open>code\<close>.\<close>

definition ready :: "code \<Rightarrow> nat \<Rightarrow> 'o script_frame \<Rightarrow> bool" where
  "ready code num f \<longleftrightarrow> sf_prev f = None \<and> sf_type f = FRAME_SCRIPT \<and> pc f = 0 \<and> stack_size f = 0 \<and> sf_code f = Some code
     \<and> sf_globals f = Undef \<and> frame_to_long_return f = None \<and> frame_to_long_break f = None \<and> \<not> used_by_func f
     \<and> sf_klass f = Undef \<and> stack_capacity f = code_stack_size code \<and> locals_num f = num
     \<and> outer_size code \<le> outer_frames_num f
     \<and> locals_etc f = replicate (stack_capacity f + locals_num f + outer_frames_num f) Undef"

lemma load_script_Inr: "load_script st a = Inr f \<longleftrightarrow> frame_at st a = Some (ScriptFrame f)"
  by (simp add: load_script_def split: option.splits frame.splits)

lemma load_frame_Inr: "load_frame st a = Inr f \<longleftrightarrow> frame_at st a = Some f"
  by (simp add: load_frame_def split: option.splits)

lemma script_frame_new_ready:
  fixes st :: "'o frames"
  shows "\<exists>f. YogScriptFrame_new FRAME_SCRIPT code num 0 st = Inr (new_frame (ScriptFrame f) st) \<and> ready code num f"
proof -
  let ?n = "code_stack_size code + num + outer_size code"
  let ?f = "\<lparr>sf_prev = None, sf_type = FRAME_SCRIPT, stack_capacity = code_stack_size code, locals_num = num,
        outer_frames_num = outer_size code, pc = 0, stack_size = 0, sf_code = None, sf_globals = Undef,
        frame_to_long_return = None, frame_to_long_break = None, lhs_left_num = 0, lhs_middle_num = 0,
        lhs_right_num = 0, used_by_func = False, sf_klass = Undef, sf_name = 0, locals_etc = replicate ?n Undef :: 'o local list\<rparr>"
  have "cleanup_locals ?f = Inr ?f" by (simp add: cleanup_locals_wf frame_wf_def)
  then show ?thesis
    by (intro exI[of _ "?f\<lparr>sf_code := Some code\<rparr>"])
      (simp add: YogScriptFrame_new_def YogScriptFrame_init_def ready_def Let_def)
qed

text \<open>What taking a frame leaves alone.\<close>

definition takes_frame :: "code \<Rightarrow> nat \<Rightarrow> 'o frames \<Rightarrow> nat \<Rightarrow> 'o frames \<Rightarrow> bool" where
  "takes_frame code num st a st' \<longleftrightarrow>
     (\<exists>f. load_script st' a = Inr f \<and> ready code num f) \<and> (\<forall>b. b \<noteq> a \<longrightarrow> frame_at st' b = frame_at st b)
     \<and> (a \<in> set (script_frames st) \<or> frame_at st a = None) \<and> a \<notin> set (script_frames st')
     \<and> set (script_frames st') \<subseteq> set (script_frames st) \<and> pool_ok st'
     \<and> cur_frame st' = cur_frame st \<and> finish_frames st' = finish_frames st \<and> c_frames st' = c_frames st
     \<and> next_frame st \<le> next_frame st'"

lemma new_frame_simps:
  "new_frame x st = (a, st') \<Longrightarrow> a = next_frame st \<and> st' = put_frame a x (st\<lparr>next_frame := Suc a\<rparr>)"
  by (auto simp: new_frame_def)

lemma pool_ok_butlast:
  assumes "pool_ok st" "script_frames st \<noteq> []"
  shows "pool_ok (st\<lparr>script_frames := butlast (script_frames st)\<rparr>)" "last (script_frames st) \<notin> set (butlast (script_frames st))"
proof -
  have "distinct (butlast (script_frames st) @ [last (script_frames st)])" using assms by (simp add: pool_ok_def)
  then show "last (script_frames st) \<notin> set (butlast (script_frames st))" by simp
  show "pool_ok (st\<lparr>script_frames := butlast (script_frames st)\<rparr>)"
    using assms by (auto simp: pool_ok_def fresh_addresses_def load_script_def distinct_butlast dest: in_set_butlastD)
qed

lemma pool_ok_put:
  assumes "pool_ok st" "a \<notin> set (script_frames st)" "a < next_frame st"
  shows "pool_ok (put_frame a x st)"
  using assms by (auto simp: pool_ok_def fresh_addresses_def load_script_Inr)

lemma takes_new_frame:
  assumes "pool_ok st" "YogScriptFrame_new FRAME_SCRIPT code num 0 st = Inr (a, st')"
  shows "takes_frame code num st a st'"
proof -
  obtain f where f: "new_frame (ScriptFrame f) st = (a, st')" "ready code num f"
    using script_frame_new_ready[of code num st] assms(2) by auto
  note eq = new_frame_simps[OF f(1)]
  have none: "frame_at st (next_frame st) = None" using assms(1) by (simp add: pool_ok_def fresh_addresses_def)
  have notin: "next_frame st \<notin> set (script_frames st)"
  proof
    assume "next_frame st \<in> set (script_frames st)"
    then obtain g where "load_script st (next_frame st) = Inr g" using assms(1) unfolding pool_ok_def by blast
    then show False using none by (simp add: load_script_Inr)
  qed
  have "pool_ok (st\<lparr>next_frame := Suc (next_frame st)\<rparr>)"
    using assms(1) by (simp add: pool_ok_def fresh_addresses_def load_script_def)
  then have "pool_ok st'" using eq notin by (simp add: pool_ok_put)
  then show ?thesis using eq f(2) none notin by (auto simp: takes_frame_def load_script_Inr)
qed

lemma get_script_frame_takes:
  assumes "pool_ok st"
  shows "\<exists>a st'. YogFrame_get_script_frame code num st = Inr (a, st') \<and> takes_frame code num st a st'"
proof -
  have new: "\<exists>a st'. YogScriptFrame_new FRAME_SCRIPT code num 0 s = Inr (a, st') \<and> takes_frame code num s a st'" if "pool_ok s" for s :: "'a frames"
    using script_frame_new_ready[of code num s] takes_new_frame[OF that, of code num] by (metis surj_pair)
  show ?thesis
  proof (cases "script_frames st = []")
    case True
    then show ?thesis using new[OF assms] by (simp add: YogFrame_get_script_frame_def YogThread_get_script_frame_def)
  next
    case False
    let ?a = "last (script_frames st)" and ?s = "st\<lparr>script_frames := butlast (script_frames st)\<rparr>"
    note s = pool_ok_butlast[OF assms False]
    have a: "?a \<in> set (script_frames st)" using False by simp
    then obtain f where f: "load_script st ?a = Inr f" "clean f" using assms by (auto simp: pool_ok_def)
    have lt: "?a < next_frame st"
      using assms f(1) by (auto simp: pool_ok_def fresh_addresses_def load_script_Inr not_less[symmetric])
    have run: "YogFrame_get_script_frame code num st =
        (let actual = stack_capacity f + locals_num f + outer_frames_num f in
         if code_stack_size code + num + outer_size code \<le> actual
         then Inr (?a, put_frame ?a (ScriptFrame (f\<lparr>stack_capacity := code_stack_size code, locals_num := num,
                outer_frames_num := actual - code_stack_size code - num, sf_code := Some code\<rparr>)) ?s)
         else YogScriptFrame_new FRAME_SCRIPT code num 0 ?s)"
      using False f(1) by (simp add: YogFrame_get_script_frame_def YogThread_get_script_frame_def load_script_def Let_def)
    show ?thesis
    proof (cases "code_stack_size code + num + outer_size code \<le> stack_capacity f + locals_num f + outer_frames_num f")
      case True
      let ?f = "f\<lparr>stack_capacity := code_stack_size code, locals_num := num,
          outer_frames_num := stack_capacity f + locals_num f + outer_frames_num f - code_stack_size code - num, sf_code := Some code\<rparr>"
      have "ready code num ?f" using f(2) True by (simp add: ready_def clean_def)
      moreover have "pool_ok (put_frame ?a (ScriptFrame ?f) ?s)" by (rule pool_ok_put) (use s lt in simp_all)
      ultimately have "takes_frame code num st ?a (put_frame ?a (ScriptFrame ?f) ?s)"
        using a s(2) by (auto simp: takes_frame_def dest: in_set_butlastD)
      then show ?thesis using run True by simp
    next
      case False
      then obtain a' st' where new': "YogScriptFrame_new FRAME_SCRIPT code num 0 ?s = Inr (a', st')" "takes_frame code num ?s a' st'"
        using new[OF s(1)] by blast
      have "takes_frame code num st a' st'"
        using new'(2) by (auto simp: takes_frame_def dest: in_set_butlastD)
      then show ?thesis using run False new'(1) by simp
    qed
  qed
qed

section \<open>The frame of a call\<close>

text \<open>The variables of a frame, and the frames around its function.\<close>

definition locals_of :: "'o script_frame \<Rightarrow> 'o local list" where
  "locals_of f = take (locals_num f) (drop (stack_capacity f) (locals_etc f))"

definition outers_of :: "'o script_frame \<Rightarrow> 'o local list" where
  "outers_of f = drop (stack_capacity f + locals_num f) (locals_etc f)"

lemma copy_loop:
  "s + k \<le> length src \<Longrightarrow> d + k \<le> length ls \<Longrightarrow>
   foldM (\<lambda>i ls. res_bind (mem_load src (s + i)) (\<lambda>v. mem_store ls (d + i) v)) [0..<k] ls
    = Inr (take d ls @ take k (drop s src) @ drop (d + k) ls)"
proof (induction k)
  case (Suc k)
  let ?ls = "take d ls @ take k (drop s src) @ drop (d + k) ls"
  have "?ls[d + k := src ! (s + k)] = take d ls @ take (Suc k) (drop s src) @ drop (d + Suc k) ls"
  proof -
    have "drop (d + k) ls = ls ! (d + k) # drop (d + Suc k) ls" using Suc.prems(2) by (simp add: Cons_nth_drop_Suc)
    moreover have "take (Suc k) (drop s src) = take k (drop s src) @ [src ! (s + k)]"
      using Suc.prems(1) by (simp add: take_Suc_conv_app_nth)
    moreover have "min (length ls) d = d" "min (length src - s) k = k" using Suc.prems by linarith+
    ultimately show ?thesis by (simp add: list_update_append)
  qed
  moreover have "d + k < length ?ls" using Suc.prems by simp
  ultimately show ?case using Suc by (simp add: foldM_append)
qed simp

lemma fill_outer_frames_spec:
  assumes a: "load_script st a = Inr f" "stack_capacity f + locals_num f + outer_frames_num f = length (locals_etc f)"
    and o: "load_script st outer = Inr g" "outer \<noteq> a" "frame_wf g"
    and d: "0 < depth" "depth \<le> outer_frames_num f" "depth \<le> Suc (outer_frames_num g)"
  shows "fill_outer_frames fptr a outer depth st
    = Inr (put_frame a (ScriptFrame (f\<lparr>locals_etc := take (stack_capacity f + locals_num f) (locals_etc f)
        @ (Val (YPtr (fptr outer)) # take (depth - 1) (outers_of g))
        @ drop (stack_capacity f + locals_num f + depth) (locals_etc f)\<rparr>)) st)"
proof -
  let ?n = "stack_capacity f + locals_num f" and ?s = "stack_capacity g + locals_num g"
  let ?x = "Val (YPtr (fptr outer))"
  have n: "?n < length (locals_etc f)" using a(2) d by linarith
  let ?ls = "take ?n (locals_etc f) @ ?x # drop (Suc ?n) (locals_etc f)"
  have upd: "(locals_etc f)[?n := ?x] = ?ls" using n by (simp add: upd_conv_take_nth_drop)
  have len: "Suc ?n + (depth - 1) \<le> length ?ls" using a(2) d n by simp
  have src: "?s + (depth - 1) \<le> length (locals_etc g)" using o(3) d(3) by (simp add: frame_wf_def)
  have cp: "foldM (\<lambda>i ls. res_bind (mem_load (locals_etc g) (?s + i)) (\<lambda>v. mem_store ls (Suc ?n + i) v)) [0..<depth - 1] ?ls
      = Inr (take (Suc ?n) ?ls @ take (depth - 1) (drop ?s (locals_etc g)) @ drop (Suc ?n + (depth - 1)) ?ls)"
    by (rule copy_loop[OF src len])
  have "take (Suc ?n) ?ls = take ?n (locals_etc f) @ [?x]" using n by simp
  moreover have "drop (Suc ?n + (depth - 1)) ?ls = drop (?n + depth) (locals_etc f)"
    using n d(1) by (simp add: drop_Cons' add.commute)
  ultimately have cp': "foldM (\<lambda>i ls. res_bind (mem_load (locals_etc g) (?s + i)) (\<lambda>v. mem_store ls (Suc ?n + i) v)) [0..<depth - 1] ?ls
      = Inr (take ?n (locals_etc f) @ (?x # take (depth - 1) (outers_of g)) @ drop (?n + depth) (locals_etc f))"
    using cp by (simp add: outers_of_def)
  have "(\<lambda>i ls. res_bind (load_script st outer) (\<lambda>h. res_bind (mem_load (if outer = a then ls else locals_etc h)
          (stack_capacity h + locals_num h + i)) (\<lambda>v. mem_store ls (?n + 1 + i) v)))
      = (\<lambda>i ls. res_bind (mem_load (locals_etc g) (?s + i)) (\<lambda>v. mem_store ls (Suc ?n + i) v))"
    using o(1,2) by simp
  then show ?thesis using a d n upd cp' by (simp add: fill_outer_frames_def Let_def)
qed

text \<open>A call that can be made: the compiler has counted the variables, and the outer frame is as deep as it assumed.\<close>

definition callable :: "'o script_function \<Rightarrow> arg_info \<Rightarrow> nat \<Rightarrow> 'o frames \<Rightarrow> bool" where
  "callable fn info extra st \<longleftrightarrow> fn_arg_info fn = Some info \<and> info_ok info
     \<and> fn_locals fn = of_bool (fn_needs_self fn) + formals info + extra
     \<and> (0 < outer_size (fn_code fn) \<longrightarrow> outer_frame (fn_frames fn) \<notin> set (script_frames st)
          \<and> (\<exists>g. load_script st (outer_frame (fn_frames fn)) = Inr g \<and> frame_wf g \<and> outer_size (fn_code fn) \<le> Suc (outer_frames_num g)))"

definition outers_filled :: "(nat \<Rightarrow> 'o) \<Rightarrow> 'o script_function \<Rightarrow> 'o frames \<Rightarrow> 'o local list \<Rightarrow> bool" where
  "outers_filled fptr fn st xs \<longleftrightarrow> (0 < outer_size (fn_code fn) \<longrightarrow>
     (\<exists>g. load_script st (outer_frame (fn_frames fn)) = Inr g
        \<and> xs = Val (YPtr (fptr (outer_frame (fn_frames fn)))) # take (outer_size (fn_code fn) - 1) (outers_of g)))"

lemma exec_binds:
  assumes pool: "pool_ok st" and fn: "callable fn info extra st" and splat: "splat call = None" and fit: "args_fit call"
    and K: "all_keywords h call = Some K"
  shows "\<exists>msg. if acceptable info (pos_args call) K (block_arg call)
    then \<exists>st' a f. YogFunction_exec_for_instance fptr h fn self dc call st = Inr st' \<and> cur_frame st' = Some a
      \<and> (a \<in> set (script_frames st) \<or> frame_at st a = None)
      \<and> load_script st' a = Inr f \<and> sf_prev f = cur_frame st \<and> stack_size f = 0 \<and> pc f = 0 \<and> sf_code f = Some (fn_code fn)
      \<and> locals_of f = (if fn_needs_self fn then [case self of None \<Rightarrow> Undef | Some v \<Rightarrow> Val v] else [])
          @ bound_locals info (pos_args call) K (block_arg call) @ replicate extra Undef
      \<and> outers_filled fptr fn st (take (outer_size (fn_code fn)) (outers_of f))
      \<and> (\<forall>b. b \<noteq> a \<longrightarrow> frame_at st' b = frame_at st b)
    else YogFunction_exec_for_instance fptr h fn self dc call st = Inl (ArgumentError msg)"
proof -
  let ?code = "fn_code fn" and ?num = "fn_locals fn"
  note call = fn[unfolded callable_def]
  obtain a s f where get: "YogFrame_get_script_frame ?code ?num st = Inr (a, s)"
    and takes: "takes_frame ?code ?num st a s" and f: "load_script s a = Inr f" "ready ?code ?num f"
    using get_script_frame_takes[OF pool, of ?code ?num] by (auto simp: takes_frame_def)
  note T = takes[unfolded takes_frame_def] and F = f(2)[unfolded ready_def]
  let ?cap = "stack_capacity f" and ?n = "outer_frames_num f"
  let ?self = "if fn_needs_self fn then [case self of None \<Rightarrow> Undef | Some v \<Rightarrow> Val v] else []"
  let ?B = "bound_locals info (pos_args call) K (block_arg call)"
  let ?pre = "replicate ?cap Undef @ ?self" and ?post = "replicate extra Undef @ replicate ?n Undef"
  have ls: "(if fn_needs_self fn then mem_store (locals_etc f) ?cap (case self of None \<Rightarrow> Undef | Some v \<Rightarrow> Val v)
      else Inr (locals_etc f)) = Inr (?pre @ replicate (formals info) Undef @ ?post)"
    using F call by (cases "fn_needs_self fn") (simp_all add: replicate_add list_update_append)
  have pre: "?cap + (if fn_needs_self fn then 1 else 0) = length ?pre" by simp
  obtain msg where fill: "fill_args h (fn_arg_info fn) (?cap + (if fn_needs_self fn then 1 else 0)) call (?pre @ replicate (formals info) Undef @ ?post)
      = (if acceptable info (pos_args call) K (block_arg call) then Inr (?pre @ ?B @ ?post) else Inl (ArgumentError msg))"
    using fill_args_binds[OF conjunct1[OF conjunct2[OF call]] splat fit K, of ?pre ?post] call unfolding pre by auto
  show ?thesis
  proof (cases "acceptable info (pos_args call) K (block_arg call)")
    case False
    then show ?thesis using get f(1) ls fill by (simp add: YogFunction_exec_for_instance_def)
  next
    case True
    let ?f1 = "f\<lparr>sf_globals := fn_globals fn, locals_etc := ?pre @ ?B @ ?post\<rparr>"
    let ?s1 = "put_frame a (ScriptFrame ?f1) s" and ?o = "outer_frame (fn_frames fn)"
    have lB: "length ?B = formals info"
      using call by (auto simp: bound_locals_def formals_def info_ok_def le_Suc_eq)
    have lo: "length ?self + length ?B + extra = ?num" using call lB by simp
    obtain O' where fo: "fill_outer_frames fptr a ?o (outer_size ?code) ?s1
        = Inr (put_frame a (ScriptFrame (?f1\<lparr>locals_etc := ?pre @ ?B @ replicate extra Undef @ O'\<rparr>)) s)"
      and O': "outers_filled fptr fn st (take (outer_size ?code) O')"
    proof (cases "outer_size ?code = 0")
      case True
      then show ?thesis by (intro that[of "replicate ?n Undef"]) (simp_all add: fill_outer_frames_def outers_filled_def)
    next
      case False
      then obtain g where g: "load_script st ?o = Inr g" "frame_wf g" "outer_size ?code \<le> Suc (outer_frames_num g)"
        and notin: "?o \<notin> set (script_frames st)" using call by auto
      have oa: "?o \<noteq> a" using T g(1) notin by (auto simp: load_script_Inr)
      then have g1: "load_script ?s1 ?o = Inr g" using T g(1) by (simp add: load_script_Inr)
      have cap: "stack_capacity ?f1 + locals_num ?f1 = length (?pre @ ?B @ replicate extra Undef)" using F lo by simp
      have len: "stack_capacity ?f1 + locals_num ?f1 + outer_frames_num ?f1 = length (locals_etc ?f1)" using F lo by simp
      have l1: "locals_etc ?f1 = (?pre @ ?B @ replicate extra Undef) @ replicate ?n Undef" by simp
      let ?O = "(Val (YPtr (fptr ?o)) # take (outer_size ?code - 1) (outers_of g)) @ replicate (?n - outer_size ?code) Undef"
      have "fill_outer_frames fptr a ?o (outer_size ?code) ?s1
          = Inr (put_frame a (ScriptFrame (?f1\<lparr>locals_etc := (?pre @ ?B @ replicate extra Undef) @ ?O\<rparr>)) ?s1)"
        using fill_outer_frames_spec[of ?s1 a ?f1 ?o g "outer_size ?code" fptr, OF _ len g1 oa g(2) _ _ g(3)] False F
        unfolding cap l1 by simp
      moreover have "take (outer_size ?code) ?O = Val (YPtr (fptr ?o)) # take (outer_size ?code - 1) (outers_of g)"
      proof -
        have "length (outers_of g) = outer_frames_num g" using g(2) by (simp add: outers_of_def frame_wf_def)
        then show ?thesis using False g(3) by (cases "outer_size ?code") auto
      qed
      ultimately show ?thesis using that[of ?O] g(1) False by (simp add: outers_filled_def)
    qed
    let ?f2 = "?f1\<lparr>locals_etc := ?pre @ ?B @ replicate extra Undef @ O',
        frame_to_long_return := (case fn_long_return (fn_frames fn) of Some r \<Rightarrow> Some r | None \<Rightarrow> cur_frame st),
        frame_to_long_break := fn_long_break (fn_frames fn),
        sf_klass := (case dc of Some c \<Rightarrow> c | None \<Rightarrow> sf_klass f), sf_name := fn_name fn, sf_prev := cur_frame st\<rparr>"
    let ?s2 = "(put_frame a (ScriptFrame ?f2) s)\<lparr>cur_frame := Some a\<rparr>"
    have "YogFunction_exec_for_instance fptr h fn self dc call st = Inr ?s2"
      using get f(1) ls fill True fo T
      by (simp add: YogFunction_exec_for_instance_def update_script_def YogEval_push_frame_def cong: option.case_cong)
    moreover have "load_script ?s2 a = Inr ?f2" by (simp add: load_script_Inr)
    moreover have "locals_of ?f2 = ?self @ ?B @ replicate extra Undef"
      unfolding locals_of_def using F lo by simp
    moreover have "outers_of ?f2 = O'" unfolding outers_of_def using F lo by simp
    ultimately have "YogFunction_exec_for_instance fptr h fn self dc call st = Inr ?s2 \<and> cur_frame ?s2 = Some a
      \<and> (a \<in> set (script_frames st) \<or> frame_at st a = None)
      \<and> load_script ?s2 a = Inr ?f2 \<and> sf_prev ?f2 = cur_frame st \<and> stack_size ?f2 = 0 \<and> pc ?f2 = 0 \<and> sf_code ?f2 = Some ?code
      \<and> locals_of ?f2 = ?self @ ?B @ replicate extra Undef \<and> outers_filled fptr fn st (take (outer_size ?code) (outers_of ?f2))
      \<and> (\<forall>b. b \<noteq> a \<longrightarrow> frame_at ?s2 b = frame_at st b)" using O' F T by simp
    then show ?thesis using True by (simp only: if_True) blast
  qed
qed

lemma exec_bad_keywords:
  assumes pool: "pool_ok st" and fn: "callable fn info extra st" and splat: "splat call = None" and fit: "args_fit call"
    and K: "all_keywords h call = None"
  shows "\<exists>msg. YogFunction_exec_for_instance fptr h fn self dc call st \<in> {Inl (ArgumentError msg), Inl (TypeError msg)}"
proof -
  let ?code = "fn_code fn" and ?num = "fn_locals fn"
  note call = fn[unfolded callable_def]
  obtain a s f where get: "YogFrame_get_script_frame ?code ?num st = Inr (a, s)"
    and takes: "takes_frame ?code ?num st a s" and f: "load_script s a = Inr f" "ready ?code ?num f"
    using get_script_frame_takes[OF pool, of ?code ?num] by (auto simp: takes_frame_def)
  note F = f(2)[unfolded ready_def]
  let ?cap = "stack_capacity f" and ?n = "outer_frames_num f"
  let ?self = "if fn_needs_self fn then [case self of None \<Rightarrow> Undef | Some v \<Rightarrow> Val v] else []"
  let ?pre = "replicate ?cap Undef @ ?self" and ?post = "replicate extra Undef @ replicate ?n Undef"
  have ls: "(if fn_needs_self fn then mem_store (locals_etc f) ?cap (case self of None \<Rightarrow> Undef | Some v \<Rightarrow> Val v)
      else Inr (locals_etc f)) = Inr (?pre @ replicate (formals info) Undef @ ?post)"
    using F call by (cases "fn_needs_self fn") (simp_all add: replicate_add list_update_append)
  have pre: "?cap + (if fn_needs_self fn then 1 else 0) = length ?pre" by simp
  obtain msg where "fill_args h (fn_arg_info fn) (?cap + (if fn_needs_self fn then 1 else 0)) call (?pre @ replicate (formals info) Undef @ ?post)
      \<in> {Inl (ArgumentError msg), Inl (TypeError msg)}"
    using fill_args_bad_keywords[OF conjunct1[OF conjunct2[OF call]] splat fit K, of ?pre ?post] call unfolding pre by auto
  then show ?thesis using get f(1) ls by (auto simp: YogFunction_exec_for_instance_def)
qed

text \<open>C21: A call of a function written in Yog, with distinct parameters, without \<^verbatim>\<open>*\<close> and with at most 255 arguments of either kind, on a frame
  that is new or was used before. When what comes after \<^verbatim>\<open>**\<close>, if anything, is a dict whose keys are symbols, the call raises
  ArgumentError, if its arguments are not acceptable for the parameters, or else makes a frame with an empty stack that starts at the
  first instruction, whose variables are \<^verbatim>\<open>self\<close>, the parameters bound to the arguments and nothing in the others, and whose
  outer frames are the outer frame of the function and its outer frames. No frame but that one changes. After \<^verbatim>\<open>**\<close> anything else makes
  the call raise TypeError, or the ArgumentError of an argument before. (The outer frame of the function, if it has one, is not in the pool: that is so in every
  run, see \<open>YogFrameRuns\<close>.)\<close>

theorem function_call_frame:
  assumes "pool_ok st" "callable fn info extra st" "splat call = None" "args_fit call"
  shows "\<exists>msg. case all_keywords h call of
      Some K \<Rightarrow> if acceptable info (pos_args call) K (block_arg call)
        then \<exists>st' a f. YogFunction_exec_for_instance fptr h fn self dc call st = Inr st' \<and> cur_frame st' = Some a
          \<and> (a \<in> set (script_frames st) \<or> frame_at st a = None)
          \<and> load_script st' a = Inr f \<and> sf_prev f = cur_frame st \<and> stack_size f = 0 \<and> pc f = 0 \<and> sf_code f = Some (fn_code fn)
          \<and> locals_of f = (if fn_needs_self fn then [case self of None \<Rightarrow> Undef | Some v \<Rightarrow> Val v] else [])
              @ bound_locals info (pos_args call) K (block_arg call) @ replicate extra Undef
          \<and> outers_filled fptr fn st (take (outer_size (fn_code fn)) (outers_of f))
          \<and> (\<forall>b. b \<noteq> a \<longrightarrow> frame_at st' b = frame_at st b)
        else YogFunction_exec_for_instance fptr h fn self dc call st = Inl (ArgumentError msg)
    | None \<Rightarrow> YogFunction_exec_for_instance fptr h fn self dc call st \<in> {Inl (ArgumentError msg), Inl (TypeError msg)}"
proof (cases "all_keywords h call")
  case None
  show ?thesis unfolding None option.case by (rule exec_bad_keywords[OF assms None])
next
  case (Some K)
  show ?thesis unfolding Some option.case by (rule exec_binds[OF assms Some])
qed

text \<open>A call of \<^verbatim>\<open>f(self, a, b: 0, *c, **d)\<close> on a frame of the pool.\<close>

definition sample_fn :: "nat script_function" where
  "sample_fn = \<lparr>fn_code = \<lparr>code_stack_size = 2, outer_size = 1, exc_tbl = []\<rparr>, fn_arg_info = Some sample_info, fn_locals = 6,
     fn_globals = Undef, fn_frames = \<lparr>outer_frame = 0, fn_long_return = None, fn_long_break = None\<rparr>, fn_needs_self = True, fn_name = 7\<rparr>"

definition pool_sample :: "nat frames" where
  "pool_sample =
     \<lparr>frame_at = [0 \<mapsto> ScriptFrame (sample_frame None 3 [] 1 0 0),
        1 \<mapsto> ScriptFrame ((sample_frame None 12 [] 0 0 0)\<lparr>locals_etc := replicate 12 Undef\<rparr>)],
      next_frame = 2, cur_frame = Some 0, script_frames = [1], finish_frames = [], c_frames = [], jmp_val = [],
      frame_to_long_jump = None\<rparr>"

lemma pool_sample_ok: "pool_ok pool_sample" "callable sample_fn sample_info 1 pool_sample"
  by (auto simp: pool_sample_def sample_frame_def pool_ok_def fresh_addresses_def load_script_def clean_def callable_def
      sample_fn_def sample_info_def info_ok_def formals_def frame_wf_def)

theorem function_call_frame_witness:
  "\<exists>st' a f. YogFunction_exec_for_instance id sample_objects sample_fn (Some (YPtr 9)) None sample_call pool_sample = Inr st'
    \<and> cur_frame st' = Some a \<and> load_script st' a = Inr f \<and> sf_prev f = Some 0
    \<and> locals_of f = Val (YPtr 9) # bound_locals sample_info [YFixnum 1] [(11, YFixnum 2), (12, YFixnum 3)] None @ [Undef]"
proof -
  have K: "all_keywords sample_objects sample_call = Some [(11, YFixnum 2), (12, YFixnum 3)]"
    by (simp add: sample_call_def all_keywords_def)
  have acc: "acceptable sample_info (pos_args sample_call) [(11, YFixnum 2), (12, YFixnum 3)] (block_arg sample_call)"
    by (simp add: acceptable_def sample_info_def sample_call_def numeral_eq_Suc less_Suc_eq)
  have no: "splat sample_call = None" by (simp add: sample_call_def)
  from function_call_frame[OF pool_sample_ok no sample_call_fit, where h = sample_objects and fptr = id and self = "Some (YPtr 9)"
      and dc = None, unfolded K option.case]
  show ?thesis using acc by (auto simp: sample_call_def pool_sample_def sample_fn_def)
qed

section \<open>Caught exceptions\<close>

text \<open>One round of a loop around \<^verbatim>\<open>try\<close>: a value is pushed as the argument of a call, the evaluation of the next argument raises an
  exception that the same frame catches, and the loop comes back to the same place \<open>p\<close>. (The arguments are
  evaluated from the last to the first: \<^verbatim>\<open>foo(bar(), 1)\<close> with a \<^verbatim>\<open>bar\<close> that raises.)\<close>

definition try_round :: "nat \<Rightarrow> 'o local \<Rightarrow> nat \<Rightarrow> 'o frames \<Rightarrow> 'o frames res" where
  "try_round a v p st =
     res_bind (YogScriptFrame_push_stack a v st) (\<lambda>st.
     res_bind (rollback_frames 1 (Some a) st) (\<lambda>(caught, st).
     if caught then update_script a (\<lambda>f. f\<lparr>pc := p\<rparr>) st else Inl (YogBug ''not caught'')))"

lemma try_round_grows:
  assumes st: "cur_frame st = Some a" "load_script st a = Inr f" and f: "sf_type f = FRAME_SCRIPT" "sf_code f = Some code"
    "find_exception_table_entry code (pc f) = Some target" "room 1 f"
  shows "try_round a v (pc f) st = Inr (put_frame a (ScriptFrame (push_onto [v] f)) st)"
proof -
  have eq: "(push_onto [v] f)\<lparr>pc := pc f\<rparr> = push_onto [v] f" by (simp add: push_onto_def)
  have "put_frame a (ScriptFrame ((push_onto [v] f)\<lparr>pc := target\<rparr>)) (put_frame a (ScriptFrame (push_onto [v] f)) st\<lparr>cur_frame := Some a\<rparr>)
      = put_frame a (ScriptFrame ((push_onto [v] f)\<lparr>pc := target\<rparr>)) st"
    using st(1) by (simp add: put_frame_def)
  moreover have "sf_type (push_onto [v] f) = FRAME_SCRIPT" "sf_code (push_onto [v] f) = Some code" "pc (push_onto [v] f) = pc f"
    using f by (simp_all add: push_onto_def)
  ultimately have "try_round a v (pc f) st = Inr (put_frame a (ScriptFrame ((push_onto [v] f)\<lparr>pc := pc f\<rparr>)) st)"
    using push_stack_onto[OF st(2) f(4), of v] f(3) by (simp add: try_round_def update_script_def)
  then show ?thesis unfolding eq .
qed

text \<open>An exception that is caught leaves on the stack of the catching frame what the \<^verbatim>\<open>try\<close> had pushed: a loop whose body
  raises and catches an exception while a call has an argument on the stack ends, after as many rounds as the stack has
  room for, in a failed assertion that aborts the process.\<close>

lemma caught_exceptions_fill_stack:
  assumes "cur_frame st = Some a" "load_script st a = Inr f" "sf_type f = FRAME_SCRIPT" "sf_code f = Some code"
    and "find_exception_table_entry code (pc f) = Some target" "stack_ok f" "n = stack_capacity f - stack_size f"
  shows "foldM (\<lambda>_. try_round a v (pc f)) [0..<n + 1] st = Inl (YogBug ''Full stack'')"
proof -
  have "foldM (\<lambda>_. try_round a v p) [k..<k + Suc n] st = Inl (YogBug ''Full stack'')"
    if "cur_frame st = Some a" "load_script st a = Inr f" "sf_type f = FRAME_SCRIPT" "sf_code f = Some code" "pc f = p"
      "find_exception_table_entry code p = Some target" "stack_ok f" "n = stack_capacity f - stack_size f" for k p and st :: "'a frames" and f
    using that
  proof (induction n arbitrary: k st f)
    case 0
    then show ?case by (simp add: try_round_def YogScriptFrame_push_stack_def stack_ok_def)
  next
    case (Suc n)
    have r: "room 1 f" using Suc.prems(7,8) by (simp add: stack_ok_def)
    let ?f = "push_onto [v] f" and ?st = "put_frame a (ScriptFrame (push_onto [v] f)) st"
    have "foldM (\<lambda>_. try_round a v p) [Suc k..<Suc k + Suc n] ?st = Inl (YogBug ''Full stack'')"
      by (rule Suc.IH[of _ ?f]) (use Suc.prems r in \<open>simp_all add: push_onto_def stack_ok_def\<close>)
    moreover have "[k..<k + Suc (Suc n)] = k # [Suc k..<Suc k + Suc n]" by (simp add: upt_conv_Cons del: upt_Suc)
    ultimately show ?case using try_round_grows[OF Suc.prems(1-4) _ r, of target v] Suc.prems(5,6)
      by (simp only: foldM.simps res_bind_simps)
  qed
  from this[OF assms(1-4) refl assms(5-7), of 0] show ?thesis by simp
qed

definition try_code :: code where
  "try_code = \<lparr>code_stack_size = 3, outer_size = 0, exc_tbl = [(0, 9, 20)]\<rparr>"

definition try_frame :: "nat script_frame" where
  "try_frame = (sample_frame None 3 [] 1 0 0)\<lparr>pc := 5, sf_code := Some try_code\<rparr>"

definition try_frames :: "nat frames" where
  "try_frames =
     \<lparr>frame_at = [0 \<mapsto> ScriptFrame try_frame], next_frame = 1, cur_frame = Some 0, script_frames = [], finish_frames = [],
      c_frames = [], jmp_val = [], frame_to_long_jump = None\<rparr>"

lemma caught_exceptions_fill_stack_instance:
  "foldM (\<lambda>_. try_round 0 (Val (YFixnum 1)) (pc try_frame)) [0..<3 + 1] try_frames = Inl (YogBug ''Full stack'')"
  by (rule caught_exceptions_fill_stack[where code = try_code and target = 20])
    (simp_all add: try_frames_def try_frame_def try_code_def load_script_def sample_frame_def stack_ok_def find_exception_table_entry_def)

section \<open>A return that is lost\<close>

text \<open>The caller of \<^verbatim>\<open>f\<close> is the frame that a block made in \<^verbatim>\<open>f\<close> returns to, but unlike the frame of \<^verbatim>\<open>f\<close> nothing marks it as
  used: it goes to the pool when it returns. When the next call takes it and calls the block, \<^verbatim>\<open>detect_orphan\<close> finds the
  address in the chain, and the \<^verbatim>\<open>return\<close> of the block jumps into a call that has nothing to do with it.\<close>

definition plain_fn :: "nat \<Rightarrow> nat option \<Rightarrow> nat \<Rightarrow> nat script_function" where
  "plain_fn outer long_return depth =
     \<lparr>fn_code = \<lparr>code_stack_size = 1, outer_size = depth, exc_tbl = []\<rparr>, fn_arg_info = None, fn_locals = 0, fn_globals = Undef,
      fn_frames = \<lparr>outer_frame = outer, fn_long_return = long_return, fn_long_break = None\<rparr>, fn_needs_self = False, fn_name = 0\<rparr>"

definition no_args :: "nat call_args" where
  "no_args = \<lparr>pos_args = [], k_args = [], splat = None, k_splat = None, block_arg = None\<rparr>"

abbreviation call_plain :: "nat script_function \<Rightarrow> nat frames \<Rightarrow> nat frames res" where
  "call_plain fn \<equiv> YogFunction_exec_for_instance id sample_objects fn None None no_args"

definition main_frames :: "nat frames" where
  "main_frames =
     \<lparr>frame_at = [0 \<mapsto> ScriptFrame (sample_frame None 1 [] 0 0 0)], next_frame = 1, cur_frame = Some 0, script_frames = [],
      finish_frames = [], c_frames = [], jmp_val = [], frame_to_long_jump = None\<rparr>"

text \<open>\<open>g\<close> calls \<open>f\<close>, which makes the block; both return; then \<open>h\<close> calls the block, which returns.\<close>

definition lost_return_run :: "nat frames res" where
  "lost_return_run =
     res_bind (call_plain (plain_fn 0 None 0) main_frames) (\<lambda>st.
     res_bind (call_plain (plain_fn 0 None 0) st) (\<lambda>st.
     res_bind (inst_make_block st) (\<lambda>(block, st).
     res_bind (inst_ret 0 st) (\<lambda>st.
     res_bind (inst_ret 0 st) (\<lambda>st.
     res_bind (call_plain (plain_fn 0 None 0) st) (\<lambda>st.
     res_bind (call_plain (plain_fn (outer_frame block) (fn_long_return block) 1) st) (\<lambda>st.
       long_jump 5 0 (fn_long_return block) st)))))))"

lemmas frames_evaluate = YogFunction_exec_for_instance_def plain_fn_def no_args_def main_frames_def YogFrame_get_script_frame_def
  YogThread_get_script_frame_def YogScriptFrame_new_def YogScriptFrame_init_def new_frame_def cleanup_locals_def load_script_def
  put_frame_def fill_args_def fill_outer_frames_def update_script_def YogEval_push_frame_def load_frame_def sample_frame_def
  inst_make_block_def setup_script_function_def current_def inst_ret_def move_returned_value_def prev_frame_def
  YogEval_push_returned_value_def YogEval_pop_frame_def YogScriptFrame_cleanup_def YogThread_put_script_frame_def SCRIPT_FRAMES_MAX_def
  long_jump_def make_jmp_val_def

lemma lost_return_undetected:
  "\<exists>st. lost_return_run = Inr st \<and> frame_to_long_jump st = Some 1"
  by (simp add: lost_return_run_def frames_evaluate numeral_eq_Suc)

end
