(* ===== verification/YogFrameChain.thy ===== *)
theory YogFrameChain
  imports YogFrameReuse
begin

text \<open>
  How a main loop goes on after an exception or a jump, the frames of class bodies and of C functions, and the chain of the frames: the
  invariant that no frame of the pools is in the chain of the calls, and how the operations on frames keep it.
\<close>

section \<open>The main loop after a jump\<close>

datatype jmp_status = JMP_RAISE | JMP_RETURN | JMP_BREAK

text \<open>The loop of \<^verbatim>\<open>YogEval_mainloop\<close> that looks for the frame to jump to; it stops, without success, at a frame of C.\<close>

fun find_target :: "nat \<Rightarrow> nat option \<Rightarrow> 'o frames \<Rightarrow> (bool \<times> 'o frames) res" where
  "find_target 0 fr st = Inl NoReturn"
| "find_target (Suc n) fr st =
     (case fr of
        None \<Rightarrow> Inl (LocalJumpError ''frame to %s is lost'')
      | Some a \<Rightarrow>
          res_bind (load_frame st a) (\<lambda>f.
            case f of
              CFrame _ \<Rightarrow> Inr (False, st)
            | ScriptFrame f \<Rightarrow>
                if frame_to_long_jump st = Some a
                then res_bind (push_jmp_val (st\<lparr>cur_frame := Some a\<rparr>)) (\<lambda>st. Inr (True, st))
                else find_target n (sf_prev f) st))"

text \<open>What \<^verbatim>\<open>YogEval_mainloop\<close> does when a jump comes back to it: whether it goes on with the instructions of the current frame, or jumps
  on to the main loop below.\<close>

definition mainloop_resume :: "nat \<Rightarrow> jmp_status \<Rightarrow> 'o frames \<Rightarrow> (bool \<times> 'o frames) res" where
  "mainloop_resume fuel status st =
     res_bind (skip_c_frame fuel st) (\<lambda>st.
     res_bind (case status of JMP_RAISE \<Rightarrow> rollback_frames fuel (cur_frame st) st
               | JMP_RETURN \<Rightarrow> find_target fuel (cur_frame st) st
               | JMP_BREAK \<Rightarrow> find_target fuel (cur_frame st) st) (\<lambda>(found, st).
       if found then Inr (True, st)
       else res_bind (current st) (\<lambda>a. res_bind (load_frame st a) (\<lambda>f.
            res_bind (skip_to_c_frame fuel (prev_of f) st) (\<lambda>st. Inr (False, st))))))"

section \<open>Other frames that are entered\<close>

text \<open>The body of a class, a module or a package, whose names are those of \<open>vars\<close>.\<close>

definition enter_names :: "code \<Rightarrow> 'o local \<Rightarrow> 'o local \<Rightarrow> 'o frames \<Rightarrow> 'o frames res" where
  "enter_names code vars globals st =
     res_bind (create_frame_for_names code vars st) (\<lambda>(a, st).
     res_bind (update_script a (\<lambda>f. f\<lparr>sf_globals := globals\<rparr>) st) (YogEval_push_frame a))"

text \<open>The call of a function of C, before and after the function.\<close>

definition enter_c :: "'o local \<Rightarrow> 'o frames \<Rightarrow> 'o frames res" where
  "enter_c callee st =
     (case YogFrame_get_c_frame st of (a, st) \<Rightarrow>
        res_bind (load_frame st a) (\<lambda>f.
          case f of
            CFrame g \<Rightarrow> YogEval_push_frame a (put_frame a (CFrame (g\<lparr>cf_f := callee\<rparr>)) st)
          | ScriptFrame _ \<Rightarrow> Inl MemFault))"

definition leave_c :: "'o frames \<Rightarrow> 'o frames res" where
  "leave_c st = res_bind (current st) (\<lambda>a. YogEval_pop_frame (YogThread_put_c_frame a st))"

definition YogCFrame_return_multi_value :: "nat \<Rightarrow> 'o local \<Rightarrow> 'o frames \<Rightarrow> 'o frames res" where
  "YogCFrame_return_multi_value a vals st =
     res_bind (load_frame st a) (\<lambda>f.
       case f of CFrame g \<Rightarrow> Inr (put_frame a (CFrame (g\<lparr>multi_val := vals\<rparr>)) st) | ScriptFrame _ \<Rightarrow> Inl MemFault)"

text \<open>The assignment of a variable, of the current frame or of an outer one.\<close>

definition store_local :: "nat \<Rightarrow> nat \<Rightarrow> 'o local \<Rightarrow> 'o frames \<Rightarrow> 'o frames res" where
  "store_local a index val st =
     res_bind (load_script st a) (\<lambda>f.
     res_bind (mem_store (locals_etc f) (stack_capacity f + index) val) (\<lambda>ls.
       Inr (put_frame a (ScriptFrame (f\<lparr>locals_etc := ls\<rparr>)) st)))"

section \<open>The chain of the calls\<close>

fun chain :: "'o frames \<Rightarrow> nat option \<Rightarrow> nat list \<Rightarrow> bool" where
  "chain st c [] = (c = None)"
| "chain st c (a # as) = (c = Some a \<and> (\<exists>f. frame_at st a = Some f \<and> chain st (prev_of f) as))"

definition frames_inv :: "'o frames \<Rightarrow> bool" where
  "frames_inv st \<longleftrightarrow> pool_ok st \<and> (\<forall>a f. load_script st a = Inr f \<longrightarrow> frame_wf f)
     \<and> (\<exists>as. chain st (cur_frame st) as \<and> distinct as
          \<and> set as \<inter> (set (script_frames st) \<union> set (finish_frames st) \<union> set (c_frames st)) = {})
     \<and> distinct (finish_frames st) \<and> (\<forall>a\<in>set (finish_frames st). \<exists>f. load_script st a = Inr f \<and> sf_type f = FRAME_FINISH)
     \<and> distinct (c_frames st) \<and> (\<forall>a\<in>set (c_frames st). \<exists>f. frame_at st a = Some (CFrame f))"

text \<open>Only the frames of \<open>S\<close> change, and in them neither the previous frame nor the kind, nor are they unmarked.\<close>

definition same_kind :: "'o frame \<Rightarrow> 'o frame \<Rightarrow> bool" where
  "same_kind x y \<longleftrightarrow>
     (case (x, y) of
        (CFrame f, CFrame g) \<Rightarrow> cf_prev f = cf_prev g
      | (ScriptFrame f, ScriptFrame g) \<Rightarrow> sf_prev f = sf_prev g \<and> sf_type f = sf_type g
          \<and> (used_by_func f \<longrightarrow> used_by_func g) \<and> (frame_wf f \<longrightarrow> frame_wf g)
      | _ \<Rightarrow> False)"

definition changes :: "nat set \<Rightarrow> 'o frames \<Rightarrow> 'o frames \<Rightarrow> bool" where
  "changes S st st' \<longleftrightarrow>
     (\<forall>a. a \<notin> S \<longrightarrow> frame_at st' a = frame_at st a)
     \<and> (\<forall>a f. frame_at st a = Some f \<longrightarrow> (\<exists>g. frame_at st' a = Some g \<and> same_kind f g))
     \<and> (\<forall>a. frame_at st a = None \<longrightarrow> frame_at st' a = None)
     \<and> cur_frame st' = cur_frame st \<and> next_frame st' = next_frame st \<and> script_frames st' = script_frames st
     \<and> finish_frames st' = finish_frames st \<and> c_frames st' = c_frames st"

lemma same_kind_refl [simp]: "same_kind f f"
  by (simp add: same_kind_def split: frame.splits)

lemma same_kind_trans: "same_kind f g \<Longrightarrow> same_kind g h \<Longrightarrow> same_kind f h"
  by (auto simp: same_kind_def split: frame.splits)

lemma same_kind_prev: "same_kind f g \<Longrightarrow> prev_of f = prev_of g"
  by (cases f; cases g) (auto simp: same_kind_def)

lemma changes_refl [simp]: "changes S st st"
  by (simp add: changes_def)

lemma changes_trans: "changes S st st' \<Longrightarrow> changes S st' st'' \<Longrightarrow> changes S st st''"
  by (auto simp: changes_def) (metis same_kind_trans)

lemma changes_mono: "changes S st st' \<Longrightarrow> S \<subseteq> T \<Longrightarrow> changes T st st'"
  by (auto simp: changes_def)

lemma changes_put:
  "frame_at st a = Some f \<Longrightarrow> same_kind f g \<Longrightarrow> changes {a} st (put_frame a g st)"
  by (auto simp: changes_def)

lemma chain_changes: "changes S st st' \<Longrightarrow> chain st c as \<Longrightarrow> chain st' c as"
proof (induction as arbitrary: c)
  case (Cons a as)
  obtain f where f: "c = Some a" "frame_at st a = Some f" "chain st (prev_of f) as" using Cons.prems(2) by auto
  obtain g where g: "frame_at st' a = Some g" "same_kind f g" using Cons.prems(1) f(2) unfolding changes_def by blast
  then show ?case using Cons.IH[OF Cons.prems(1) f(3)] f(1) same_kind_prev[OF g(2)] by simp
qed simp

lemma chain_unique: "chain st c as \<Longrightarrow> chain st c bs \<Longrightarrow> as = bs"
proof (induction as arbitrary: c bs)
  case Nil
  then show ?case by (cases bs) auto
next
  case (Cons a as)
  then show ?case by (cases bs) auto
qed

lemma frame_wf_push: "frame_wf f \<Longrightarrow> room 1 f \<Longrightarrow> frame_wf (push_onto [x] f)"
  by (auto simp: frame_wf_def push_onto_def stack_ok_def)

lemma inv_changes:
  assumes inv: "frames_inv st" and ch: "changes S st st'" and as: "chain st (cur_frame st) as" "S \<subseteq> set as"
  shows "frames_inv st'"
proof -
  note i = inv[unfolded frames_inv_def] and c = ch[unfolded changes_def]
  obtain bs where bs: "chain st (cur_frame st) bs" "distinct bs"
      "set bs \<inter> (set (script_frames st) \<union> set (finish_frames st) \<union> set (c_frames st)) = {}" using i by blast
  have "bs = as" by (rule chain_unique[OF bs(1) as(1)])
  then have out: "\<forall>a\<in>set (script_frames st) \<union> set (finish_frames st) \<union> set (c_frames st). frame_at st' a = frame_at st a"
    using bs(3) as(2) c by blast
  have pool: "pool_ok st'"
    using i out c by (auto simp: pool_ok_def fresh_addresses_def load_script_Inr)
  have wf: "frame_wf g" if g: "frame_at st' a = Some (ScriptFrame g)" for a g
  proof (cases "frame_at st a")
    case None
    then show ?thesis using c g by auto
  next
    case (Some f)
    then obtain g' where "frame_at st' a = Some g'" "same_kind f g'" using c by blast
    then have sk: "same_kind f (ScriptFrame g)" using g by simp
    then obtain f0 where f0: "f = ScriptFrame f0" by (cases f) (auto simp: same_kind_def)
    then have "frame_wf f0" using i Some by (auto simp: load_script_Inr)
    then show ?thesis using sk f0 by (simp add: same_kind_def)
  qed
  have "chain st' (cur_frame st') bs" using chain_changes[OF ch bs(1)] c by simp
  then show ?thesis unfolding frames_inv_def
    using pool wf bs(2,3) i c out by (auto simp: load_script_Inr)
qed

section \<open>Moves of values\<close>

lemma push_changes: "YogScriptFrame_push_stack a x st = Inr st' \<Longrightarrow> changes {a} st st'"
  by (auto simp: YogScriptFrame_push_stack_def res_bind_Inr_iff load_script_Inr mem_store_def same_kind_def frame_wf_def
      intro!: changes_put split: if_splits)

lemma current_Inr [simp]: "current st = Inr a \<longleftrightarrow> cur_frame st = Some a"
  by (simp add: current_def split: option.splits)

lemma pop_changes: "pop st = Inr (v, st') \<Longrightarrow> cur_frame st = Some c \<Longrightarrow> changes {c} st st'"
  by (auto simp: pop_def res_bind_Inr_iff load_script_Inr same_kind_def frame_wf_def intro!: changes_put split: if_splits)

lemma changes_cur: "changes S st st' \<Longrightarrow> cur_frame st' = cur_frame st"
  by (simp add: changes_def)

lemma pop_values_changes: "pop_values n st = Inr (vs, st') \<Longrightarrow> cur_frame st = Some c \<Longrightarrow> changes {c} st st'"
proof (induction n arbitrary: st vs)
  case (Suc n)
  then obtain v s ws where s: "pop st = Inr (v, s)" "pop_values n s = Inr (ws, st')"
    by (auto simp: res_bind_Inr_iff)
  have c: "changes {c} st s" by (rule pop_changes[OF s(1) Suc.prems(2)])
  then show ?case using Suc.IH[OF s(2)] Suc.prems(2) changes_cur[OF c] changes_trans by metis
qed simp

lemma prev_frame_Inr: "prev_frame st = Inr p \<longleftrightarrow> (\<exists>c f. cur_frame st = Some c \<and> frame_at st c = Some f \<and> prev_of f = Some p)"
  by (auto simp: prev_frame_def res_bind_def current_def load_frame_def split: option.splits)

lemma prev_frame_changes:
  assumes "changes S st st'" "prev_frame st = Inr p"
  shows "prev_frame st' = Inr p"
proof -
  obtain c f where f: "cur_frame st = Some c" "frame_at st c = Some f" "prev_of f = Some p" using assms(2) by (auto simp: prev_frame_Inr)
  obtain g where "frame_at st' c = Some g" "same_kind f g" using assms(1) f(2) unfolding changes_def by blast
  then show ?thesis using f changes_cur[OF assms(1)] same_kind_prev by (force simp: prev_frame_Inr)
qed

lemma move_stack_changes:
  "move_stack_value n st = Inr st' \<Longrightarrow> cur_frame st = Some c \<Longrightarrow> prev_frame st = Inr p \<Longrightarrow> changes {c, p} st st'"
proof (induction n arbitrary: st)
  case (Suc n)
  then obtain v s1 s2 where s: "pop st = Inr (v, s1)" "YogScriptFrame_push_stack p v s1 = Inr s2" "move_stack_value n s2 = Inr st'"
    by (auto simp: res_bind_Inr_iff)
  have 1: "changes {c, p} st s1" by (rule changes_mono[OF pop_changes[OF s(1) Suc.prems(2)]]) simp
  have 2: "changes {c, p} s1 s2" by (rule changes_mono[OF push_changes[OF s(2)]]) simp
  note 12 = changes_trans[OF 1 2]
  have "changes {c, p} s2 st'"
    by (rule Suc.IH[OF s(3)]) (use Suc.prems(2) changes_cur[OF 12] prev_frame_changes[OF 12 Suc.prems(3)] in simp_all)
  then show ?case by (rule changes_trans[OF 12])
qed simp

lemma return_middle_changes:
  assumes "return_middle n st = Inr st'" "cur_frame st = Some c" "prev_frame st = Inr p"
  shows "changes {c, p} st st'"
proof -
  obtain vs s ws q where s: "pop_values n st = Inr (vs, s)" "prev_frame s = Inr q" "YogScriptFrame_push_stack q (NewArray ws) s = Inr st'"
    using assms(1) by (auto simp: return_middle_def res_bind_Inr_iff)
  have 1: "changes {c} st s" by (rule pop_values_changes[OF s(1) assms(2)])
  then have "q = p" using prev_frame_changes[OF 1 assms(3)] s(2) by simp
  then show ?thesis using changes_mono[OF 1, of "{c, p}"] changes_mono[OF push_changes[OF s(3)], of "{c, p}"] changes_trans by blast
qed

lemma push_value_changes: "YogEval_push_returned_value a v st = Inr st' \<Longrightarrow> changes {a} st st'"
  by (auto simp: YogEval_push_returned_value_def res_bind_Inr_iff dest: push_changes split: if_splits)

lemma checks_passed:
  "(if z then Inr s else if b1 then Inl e1 else if b2 then Inl e2 else body) = Inr s' \<Longrightarrow> \<not> z \<Longrightarrow> body = Inr s'"
  by (simp split: if_split_asm)

lemma move_returned_changes:
  assumes "move_returned_value n st = Inr st'" "cur_frame st = Some c"
  obtains p where "prev_frame st = Inr p" "changes {c, p} st st'"
proof -
  obtain p where p: "prev_frame st = Inr p" using assms(1) by (auto simp: move_returned_value_def res_bind_Inr_iff)
  have "changes {c, p} st st'"
  proof (cases "n = 0")
    case True
    then have "YogEval_push_returned_value p YNil st = Inr st'" using assms(1) p by (simp add: move_returned_value_def)
    then show ?thesis using changes_mono[OF push_value_changes] by blast
  next
    case False
    obtain f where f: "load_script st p = Inr f" using assms(1) p False by (auto simp: move_returned_value_def res_bind_Inr_iff)
    have run: "(if lhs_left_num f + lhs_middle_num f + lhs_right_num f = 0 then Inr st
        else if 0 < lhs_middle_num f \<and> n < lhs_left_num f + lhs_right_num f then Inl (ValueError ''too few multiple value'')
        else if \<not> 0 < lhs_middle_num f \<and> lhs_left_num f \<noteq> n then Inl (ValueError ''number of multiple value unmatched'')
        else res_bind (move_stack_value (lhs_left_num f) st) (\<lambda>st.
             res_bind (if 0 < lhs_middle_num f then return_middle (n - lhs_left_num f - lhs_right_num f) st else Inr st) (\<lambda>st.
               move_stack_value (lhs_right_num f) st))) = Inr st'"
      using assms(1) p f False unfolding move_returned_value_def by (simp add: Let_def)
    show ?thesis
    proof (cases "lhs_left_num f + lhs_middle_num f + lhs_right_num f = 0")
      case False
      then obtain s1 s2 where s: "move_stack_value (lhs_left_num f) st = Inr s1"
        "(if 0 < lhs_middle_num f then return_middle (n - lhs_left_num f - lhs_right_num f) s1 else Inr s1) = Inr s2"
        "move_stack_value (lhs_right_num f) s2 = Inr st'"
        using run by (auto simp: res_bind_Inr_iff simp del: not_gr_zero split: if_split_asm)
      have 1: "changes {c, p} st s1" by (rule move_stack_changes[OF s(1) assms(2) p])
      have c1: "cur_frame s1 = Some c" "prev_frame s1 = Inr p" using changes_cur[OF 1] assms(2) prev_frame_changes[OF 1 p] by simp_all
      have 2: "changes {c, p} s1 s2" using s(2) return_middle_changes[OF _ c1] by (cases "0 < lhs_middle_num f") auto
      have c2: "cur_frame s2 = Some c" "prev_frame s2 = Inr p" using changes_cur[OF 2] c1 prev_frame_changes[OF 2] by simp_all
      show ?thesis using changes_trans[OF changes_trans[OF 1 2] move_stack_changes[OF s(3) c2]] .
    qed (use run in simp)
  qed
  then show thesis using that p by blast
qed

lemma foldM_changes:
  assumes "\<And>x s s'. f x s = Inr s' \<Longrightarrow> cur_frame s = Some c \<Longrightarrow> changes {c} s s'"
  shows "foldM f xs st = Inr st' \<Longrightarrow> cur_frame st = Some c \<Longrightarrow> changes {c} st st'"
proof (induction xs arbitrary: st)
  case (Cons x xs)
  then obtain s where s: "f x st = Inr s" "foldM f xs s = Inr st'" by (auto simp: res_bind_Inr_iff)
  have 1: "changes {c} st s" by (rule assms[OF s(1) Cons.prems(2)])
  show ?case by (rule changes_trans[OF 1 Cons.IH[OF s(2)]]) (use changes_cur[OF 1] Cons.prems(2) in simp)
qed simp

lemma push_from_array_changes: "push_from_array vs i j st = Inr st' \<Longrightarrow> cur_frame st = Some c \<Longrightarrow> changes {c} st st'"
  unfolding push_from_array_def by (rule foldM_changes) (auto simp: res_bind_Inr_iff intro: push_changes)

lemma push_multi_changes:
  assumes "YogEval_push_returned_multi_value vs st = Inr st'" "cur_frame st = Some c"
  shows "changes {c} st st'"
proof -
  have mid: "push_array_from_array vs i j s = Inr s' \<Longrightarrow> cur_frame s = Some c \<Longrightarrow> changes {c} s s'" for i j s s'
    by (auto simp: push_array_from_array_def res_bind_Inr_iff intro: push_changes)
  obtain f where f: "load_script st c = Inr f" and ne: "vs \<noteq> []"
    using assms by (auto simp: YogEval_push_returned_multi_value_def res_bind_Inr_iff Let_def split: if_split_asm)
  have run: "(if lhs_left_num f + lhs_middle_num f + lhs_right_num f = 0 then Inr st
      else if 0 < lhs_middle_num f \<and> length vs < lhs_left_num f + lhs_right_num f then Inl (ValueError ''too few multiple value'')
      else if \<not> 0 < lhs_middle_num f \<and> lhs_left_num f \<noteq> length vs
      then Inl (ValueError ''number of multiple value unmatched. %u value(s) requested, but apply %u value(s)'')
      else res_bind (push_from_array vs 0 (lhs_left_num f) st) (\<lambda>st.
           res_bind (if 0 < lhs_middle_num f then push_array_from_array vs (lhs_left_num f) (length vs - lhs_right_num f) st else Inr st) (\<lambda>st.
             push_from_array vs (length vs - lhs_right_num f) (length vs) st))) = Inr st'"
    using assms f ne unfolding YogEval_push_returned_multi_value_def by (simp add: Let_def current_def)
  show ?thesis
  proof (cases "lhs_left_num f + lhs_middle_num f + lhs_right_num f = 0")
    case False
    have body: "res_bind (push_from_array vs 0 (lhs_left_num f) st) (\<lambda>st.
        res_bind (if 0 < lhs_middle_num f then push_array_from_array vs (lhs_left_num f) (length vs - lhs_right_num f) st else Inr st) (\<lambda>st.
          push_from_array vs (length vs - lhs_right_num f) (length vs) st)) = Inr st'"
      by (rule checks_passed[OF run False])
    obtain s1 s2 where s: "push_from_array vs 0 (lhs_left_num f) st = Inr s1"
      "(if 0 < lhs_middle_num f then push_array_from_array vs (lhs_left_num f) (length vs - lhs_right_num f) s1 else Inr s1) = Inr s2"
      "push_from_array vs (length vs - lhs_right_num f) (length vs) s2 = Inr st'"
      using body by (elim res_bind_InrE)
    have 1: "changes {c} st s1" by (rule push_from_array_changes[OF s(1) assms(2)])
    have c1: "cur_frame s1 = Some c" using changes_cur[OF 1] assms(2) by simp
    have 2: "changes {c} s1 s2" using s(2) mid[OF _ c1] by (cases "0 < lhs_middle_num f") auto
    have c2: "cur_frame s2 = Some c" using changes_cur[OF 2] c1 by simp
    show ?thesis using changes_trans[OF changes_trans[OF 1 2] push_from_array_changes[OF s(3) c2]] .
  qed (use run in simp)
qed

section \<open>Entering and leaving frames\<close>

text \<open>The invariant with its chain.\<close>

definition frames_ok :: "nat list \<Rightarrow> 'o frames \<Rightarrow> bool" where
  "frames_ok as st \<longleftrightarrow> frames_inv st \<and> chain st (cur_frame st) as"

lemma frames_okE:
  assumes "frames_inv st"
  obtains as where "frames_ok as st"
  using assms by (auto simp: frames_ok_def frames_inv_def)

lemma frames_okD:
  assumes "frames_ok as st"
  shows "frames_inv st" "chain st (cur_frame st) as" "distinct as" "pool_ok st"
    "set as \<inter> (set (script_frames st) \<union> set (finish_frames st) \<union> set (c_frames st)) = {}"
    "\<And>a f. load_script st a = Inr f \<Longrightarrow> frame_wf f"
proof -
  obtain bs where bs: "chain st (cur_frame st) bs" "distinct bs"
      "set bs \<inter> (set (script_frames st) \<union> set (finish_frames st) \<union> set (c_frames st)) = {}"
    using assms unfolding frames_ok_def frames_inv_def by blast
  have "as = bs" using assms bs(1) chain_unique unfolding frames_ok_def by blast
  then show "distinct as" "set as \<inter> (set (script_frames st) \<union> set (finish_frames st) \<union> set (c_frames st)) = {}"
    using bs by simp_all
  show "frames_inv st" "chain st (cur_frame st) as" "pool_ok st" "\<And>a f. load_script st a = Inr f \<Longrightarrow> frame_wf f"
    using assms unfolding frames_ok_def frames_inv_def by blast+
qed

lemma chain_exists: "chain st c as \<Longrightarrow> a \<in> set as \<Longrightarrow> frame_at st a \<noteq> None"
  by (induction as arbitrary: c) auto

lemma chain_at: "(\<And>a. a \<in> set as \<Longrightarrow> frame_at st' a = frame_at st a) \<Longrightarrow> chain st c as \<Longrightarrow> chain st' c as"
  by (induction as arbitrary: c) auto

lemma frames_invI:
  assumes "pool_ok st" "\<And>a f. load_script st a = Inr f \<Longrightarrow> frame_wf f" "chain st (cur_frame st) as" "distinct as"
    "set as \<inter> (set (script_frames st) \<union> set (finish_frames st) \<union> set (c_frames st)) = {}"
    "distinct (finish_frames st)" "\<And>a. a \<in> set (finish_frames st) \<Longrightarrow> \<exists>f. load_script st a = Inr f \<and> sf_type f = FRAME_FINISH"
    "distinct (c_frames st)" "\<And>a. a \<in> set (c_frames st) \<Longrightarrow> \<exists>f. frame_at st a = Some (CFrame f)"
  shows "frames_inv st"
  unfolding frames_inv_def using assms by blast

text \<open>A frame that is in no pool and not in the chain is written.\<close>

lemma inv_put_free:
  assumes ok: "frames_ok as st" and a: "a \<notin> set as" "a \<notin> set (script_frames st) \<union> set (finish_frames st) \<union> set (c_frames st)"
    "a < next_frame st" and x: "\<And>f. x = ScriptFrame f \<Longrightarrow> frame_wf f"
  shows "frames_ok as (put_frame a x st)"
proof -
  note d = frames_okD[OF ok] and i = frames_okD(1)[OF ok, unfolded frames_inv_def]
  have c: "chain (put_frame a x st) (cur_frame st) as" by (rule chain_at[OF _ d(2)]) (use a(1) in auto)
  moreover have "frames_inv (put_frame a x st)"
  proof (rule frames_invI[of _ as])
    show "pool_ok (put_frame a x st)" using d(4) a by (intro pool_ok_put) auto
    show "frame_wf f" if "load_script (put_frame a x st) b = Inr f" for b f
      using that x d(6)[of b f] by (cases "b = a") (auto simp: load_script_Inr)
  qed (use c d i a in \<open>auto simp: load_script_Inr\<close>)
  ultimately show ?thesis by (simp add: frames_ok_def)
qed

text \<open>Such a frame becomes the current one.\<close>

lemma inv_enter:
  assumes ok: "frames_ok as st" and a: "a \<notin> set as" "a \<notin> set (script_frames st) \<union> set (finish_frames st) \<union> set (c_frames st)"
    "a < next_frame st" and x: "\<And>f. x = ScriptFrame f \<Longrightarrow> frame_wf f" "prev_of x = cur_frame st"
  shows "frames_inv ((put_frame a x st)\<lparr>cur_frame := Some a\<rparr>)"
proof -
  note ok' = inv_put_free[OF ok a x(1)]
  note d = frames_okD[OF ok'] and i = frames_okD(1)[OF ok', unfolded frames_inv_def]
  let ?s = "(put_frame a x st)\<lparr>cur_frame := Some a\<rparr>"
  have "chain ?s c as" if "chain (put_frame a x st) c as" for c by (rule chain_at[OF _ that]) simp
  then have c: "chain ?s (cur_frame ?s) (a # as)" using d(2) x(2) by simp
  have l: "load_script ?s b = load_script (put_frame a x st) b" for b by (simp add: load_script_def)
  show ?thesis
    by (rule frames_invI[OF _ _ c]) (use d i a in \<open>auto simp: l pool_ok_def fresh_addresses_def\<close>)
qed

lemma set_prev_wf: "frame_wf f \<Longrightarrow> frame_wf (f\<lparr>sf_prev := p\<rparr>)"
  by (simp add: frame_wf_def)

lemma prev_of_set_prev [simp]: "prev_of (link_prev p f) = p"
  by (cases f) simp_all

lemma inv_push_frame:
  assumes ok: "frames_ok as st" and a: "a \<notin> set as" "a \<notin> set (script_frames st) \<union> set (finish_frames st) \<union> set (c_frames st)"
    and st': "YogEval_push_frame a st = Inr st'"
  shows "frames_inv st'"
proof -
  obtain f where f: "frame_at st a = Some f" "st' = (put_frame a (link_prev (cur_frame st) f) st)\<lparr>cur_frame := Some a\<rparr>"
    using st' by (auto simp: YogEval_push_frame_def res_bind_Inr_iff load_frame_Inr)
  have lt: "a < next_frame st"
    using f(1) frames_okD(4)[OF ok] by (auto simp: pool_ok_def fresh_addresses_def not_less[symmetric])
  have wf: "frame_wf g" if "link_prev (cur_frame st) f = ScriptFrame g" for g
    using that f(1) frames_okD(6)[OF ok, of a] by (cases f) (auto simp: load_script_Inr set_prev_wf)
  show ?thesis unfolding f(2) by (rule inv_enter[OF ok a lt wf]) simp_all
qed

text \<open>The current frame is given up for one below it.\<close>

lemma inv_suffix:
  assumes ok: "frames_ok (xs @ ys) st" and c: "chain st c ys"
  shows "frames_ok ys (st\<lparr>cur_frame := c\<rparr>)"
proof -
  note d = frames_okD[OF ok] and i = frames_okD(1)[OF ok, unfolded frames_inv_def]
  have ch: "chain (st\<lparr>cur_frame := c\<rparr>) c ys" by (rule chain_at[OF _ c]) simp
  have l: "load_script (st\<lparr>cur_frame := c\<rparr>) b = load_script st b" for b by (simp add: load_script_def)
  have "frames_inv (st\<lparr>cur_frame := c\<rparr>)"
    by (rule frames_invI[of _ ys]) (use ch d i in \<open>auto simp: l pool_ok_def fresh_addresses_def\<close>)
  then show ?thesis using ch by (simp add: frames_ok_def)
qed

lemma inv_pop_frame:
  assumes "frames_inv st" "YogEval_pop_frame st = Inr st'"
  obtains a f as where "cur_frame st = Some a" "frame_at st a = Some f" "st' = st\<lparr>cur_frame := prev_of f\<rparr>"
    "frames_ok as st'" "a \<notin> set as" "a \<notin> set (script_frames st) \<union> set (finish_frames st) \<union> set (c_frames st)" "a < next_frame st"
proof -
  obtain bs where bs: "frames_ok bs st" by (rule frames_okE[OF assms(1)])
  obtain a f where f: "cur_frame st = Some a" "frame_at st a = Some f" "st' = st\<lparr>cur_frame := prev_of f\<rparr>"
    using assms(2) by (auto simp: YogEval_pop_frame_def res_bind_Inr_iff load_frame_Inr)
  note d = frames_okD[OF bs]
  obtain as where as: "bs = [a] @ as" "chain st (prev_of f) as" using d(2) f(1,2) by (cases bs) auto
  have "frames_ok as st'" unfolding f(3) by (rule inv_suffix[of "[a]" as st "prev_of f", OF _ as(2)]) (use bs as(1) in simp)
  moreover have "a < next_frame st" using f(2) d(4) by (auto simp: pool_ok_def fresh_addresses_def not_less[symmetric])
  ultimately show thesis using that f d(3,5) as(1) by auto
qed

text \<open>A frame is put into its pool.\<close>

lemma inv_put_script:
  assumes ok: "frames_ok as st" and a: "a \<notin> set as" "a \<notin> set (script_frames st)" "load_script st a = Inr f" "clean f"
  shows "frames_inv (YogThread_put_script_frame a st)"
proof (cases "SCRIPT_FRAMES_MAX \<le> length (script_frames st)")
  case True
  then show ?thesis using frames_okD(1)[OF ok] by (simp add: YogThread_put_script_frame_def)
next
  case False
  note d = frames_okD[OF ok] and i = frames_okD(1)[OF ok, unfolded frames_inv_def]
  let ?s = "st\<lparr>script_frames := script_frames st @ [a]\<rparr>"
  have ch: "chain ?s (cur_frame st) as" by (rule chain_at[OF _ d(2)]) simp
  have l: "load_script ?s b = load_script st b" for b by (simp add: load_script_def)
  have "frames_inv ?s"
    by (rule frames_invI[of _ as]) (use ch d i a in \<open>auto simp: l pool_ok_def fresh_addresses_def\<close>)
  then show ?thesis using False by (simp add: YogThread_put_script_frame_def)
qed

lemma inv_put_finish:
  assumes ok: "frames_ok as st" and a: "a \<notin> set as" "a \<notin> set (finish_frames st)" "load_script st a = Inr f" "sf_type f = FRAME_FINISH"
  shows "frames_inv (YogThread_put_finish_frame a st)"
proof (cases "FINISH_FRAMES_MAX \<le> length (finish_frames st)")
  case True
  then show ?thesis using frames_okD(1)[OF ok] by (simp add: YogThread_put_finish_frame_def)
next
  case False
  note d = frames_okD[OF ok] and i = frames_okD(1)[OF ok, unfolded frames_inv_def]
  let ?s = "st\<lparr>finish_frames := finish_frames st @ [a]\<rparr>"
  have ch: "chain ?s (cur_frame st) as" by (rule chain_at[OF _ d(2)]) simp
  have l: "load_script ?s b = load_script st b" for b by (simp add: load_script_def)
  have "frames_inv ?s"
    by (rule frames_invI[of _ as]) (use ch d i a in \<open>auto simp: l pool_ok_def fresh_addresses_def\<close>)
  then show ?thesis using False by (simp add: YogThread_put_finish_frame_def)
qed

lemma inv_put_c:
  assumes ok: "frames_ok as st" and a: "a \<notin> set as" "a \<notin> set (c_frames st)" "frame_at st a = Some (CFrame f)"
  shows "frames_inv (YogThread_put_c_frame a st)"
proof (cases "C_FRAMES_MAX \<le> length (c_frames st)")
  case True
  then show ?thesis using frames_okD(1)[OF ok] by (simp add: YogThread_put_c_frame_def)
next
  case False
  note d = frames_okD[OF ok] and i = frames_okD(1)[OF ok, unfolded frames_inv_def]
  let ?s = "st\<lparr>c_frames := c_frames st @ [a]\<rparr>"
  have ch: "chain ?s (cur_frame st) as" by (rule chain_at[OF _ d(2)]) simp
  have l: "load_script ?s b = load_script st b" for b by (simp add: load_script_def)
  have "frames_inv ?s"
    by (rule frames_invI[of _ as]) (use ch d i a in \<open>auto simp: l pool_ok_def fresh_addresses_def\<close>)
  then show ?thesis using False by (simp add: YogThread_put_c_frame_def)
qed

text \<open>A frame that is taken from the pool or made.\<close>

lemma inv_takes:
  assumes ok: "frames_ok as st" and t: "takes_frame code num st a st'"
  shows "frames_ok as st'" "a \<notin> set as" "a \<notin> set (script_frames st') \<union> set (finish_frames st') \<union> set (c_frames st')"
proof -
  note d = frames_okD[OF ok] and i = frames_okD(1)[OF ok, unfolded frames_inv_def] and T = t[unfolded takes_frame_def]
  have script: "a \<in> set (script_frames st) \<Longrightarrow> \<exists>f. frame_at st a = Some (ScriptFrame f) \<and> sf_type f = FRAME_SCRIPT"
    using d(4) by (auto simp: pool_ok_def load_script_Inr clean_def)
  show as: "a \<notin> set as"
    using T d(5) chain_exists[OF d(2), of a] by blast
  have fin: "a \<notin> set (finish_frames st)"
    using T script i by (force simp: load_script_Inr)
  have cs: "a \<notin> set (c_frames st)"
    using T script i by force
  show "a \<notin> set (script_frames st') \<union> set (finish_frames st') \<union> set (c_frames st')" using T fin cs by simp
  have ch: "chain st' (cur_frame st) as" by (rule chain_at[OF _ d(2)]) (use T as in auto)
  have wf: "frame_wf f" if "load_script st' b = Inr f" for b f
  proof (cases "b = a")
    case True
    obtain g where g: "load_script st' a = Inr g" "ready code num g" using T by blast
    then show ?thesis using that True by (simp add: ready_def frame_wf_def)
  next
    case False
    then show ?thesis using that T d(6)[of b f] by (simp add: load_script_Inr)
  qed
  have "frames_inv st'"
  proof (rule frames_invI[of _ as])
    show "\<exists>f. load_script st' b = Inr f \<and> sf_type f = FRAME_FINISH" if "b \<in> set (finish_frames st')" for b
      using that T fin i by (metis load_script_Inr)
    show "\<exists>f. frame_at st' b = Some (CFrame f)" if "b \<in> set (c_frames st')" for b
      using that T cs i by metis
  qed (use T wf ch d i in auto)
  then show "frames_ok as st'" using ch T by (simp add: frames_ok_def)
qed

section \<open>Frames that functions refer to stay\<close>

definition kept :: "'o frames \<Rightarrow> 'o frames \<Rightarrow> bool" where
  "kept st st' \<longleftrightarrow> (\<forall>a f. load_script st a = Inr f \<longrightarrow> used_by_func f \<longrightarrow> (\<exists>g. load_script st' a = Inr g \<and> used_by_func g))"

lemma kept_refl [simp]: "kept st st"
  by (simp add: kept_def)

lemma kept_trans: "kept st st' \<Longrightarrow> kept st' st'' \<Longrightarrow> kept st st''"
  unfolding kept_def by blast

lemma kept_same_frames: "frame_at st' = frame_at st \<Longrightarrow> kept st st'"
  by (simp add: kept_def load_script_def)

lemma same_kind_script: "same_kind (ScriptFrame f) y \<Longrightarrow> \<exists>g. y = ScriptFrame g \<and> (used_by_func f \<longrightarrow> used_by_func g)"
  by (cases y) (simp_all add: same_kind_def)

lemma kept_changes:
  assumes "changes S st st'"
  shows "kept st st'"
  unfolding kept_def load_script_Inr
proof (intro allI impI)
  fix a f
  assume f: "frame_at st a = Some (ScriptFrame f)" "used_by_func f"
  obtain y where y: "frame_at st' a = Some y" "same_kind (ScriptFrame f) y" using assms f(1) unfolding changes_def by blast
  then show "\<exists>g. frame_at st' a = Some (ScriptFrame g) \<and> used_by_func g" using same_kind_script[OF y(2)] f(2) by auto
qed

lemma kept_put:
  "frame_at st' = (frame_at st)(a \<mapsto> x) \<Longrightarrow> (\<And>f. load_script st a = Inr f \<Longrightarrow> used_by_func f \<Longrightarrow> \<exists>g. x = ScriptFrame g \<and> used_by_func g) \<Longrightarrow> kept st st'"
  by (auto simp: kept_def load_script_Inr)

lemma kept_push_frame: "YogEval_push_frame a st = Inr st' \<Longrightarrow> kept st st'"
  by (auto simp: YogEval_push_frame_def res_bind_Inr_iff load_frame_Inr load_script_Inr put_frame_def intro!: kept_put)

lemma kept_takes:
  assumes "pool_ok st" "takes_frame code num st a st'"
  shows "kept st st'"
  unfolding kept_def
proof (intro allI impI)
  fix b f
  assume f: "load_script st b = Inr f" "used_by_func f"
  have "b \<notin> set (script_frames st)" using assms(1) f unfolding pool_ok_def clean_def by force
  then have "b \<noteq> a" using assms(2) f(1) unfolding takes_frame_def load_script_Inr by auto
  then have "frame_at st' b = frame_at st b" using assms(2) unfolding takes_frame_def by blast
  then show "\<exists>g. load_script st' b = Inr g \<and> used_by_func g" using f by (simp add: load_script_Inr)
qed

end
