(* ===== verification/YogFrameRuns.thy ===== *)
theory YogFrameRuns
  imports YogFrameChain
begin

text \<open>
  The runs of the evaluator as far as frames are concerned, as a step relation: calls, returns, functions that are made,
  the stack of the current frame, functions of C, exceptions and jumps. In every run no frame of the pools is in the chain of the
  calls or the outer frame of a function, so that a call never takes a frame that is still in use.
\<close>

section \<open>Binding keeps the size of a frame\<close>

lemma foldM_length:
  assumes "\<And>x ls ls'. f x ls = Inr ls' \<Longrightarrow> length ls' = length ls"
  shows "foldM f xs ls = Inr ls' \<Longrightarrow> length ls' = length ls"
proof (induction xs arbitrary: ls)
  case (Cons x xs)
  then show ?case using assms by (auto simp: res_bind_Inr_iff)
qed simp

named_theorems keeps_length

lemma mem_store_length [keeps_length]: "mem_store ls i x = Inr ls' \<Longrightarrow> length ls' = length ls"
  by (auto simp: mem_store_def split: if_splits)

lemma set_in_dict_length [keeps_length]: "set_in_dict k key v ls = Inr ls' \<Longrightarrow> length ls' = length ls"
  unfolding set_in_dict_def by (erule res_bind_InrE) (auto dest: mem_store_length split: local.split_asm)

lemma assign_keyword_length [keeps_length]: "assign_keyword_arg info off kw x ls = Inr ls' \<Longrightarrow> length ls' = length ls"
  by (auto simp: assign_keyword_arg_def res_bind_Inr_iff dest: keeps_length split: prod.splits option.splits if_splits)

lemma store_args_length [keeps_length]: "store_args from vs ls = Inr ls' \<Longrightarrow> length ls' = length ls"
  unfolding store_args_def by (erule foldM_length[rotated]) (auto dest: mem_store_length)

lemma fill_too_many_length [keeps_length]: "fill_too_many h info off call ls = Inr ls' \<Longrightarrow> length ls' = length ls"
  by (auto simp: fill_too_many_def wrong_num_args_def res_bind_Inr_iff dest!: keeps_length split: if_splits)

lemma fill_from_splat_length [keeps_length]: "fill_from_splat h info off call ls = Inr ls' \<Longrightarrow> length ls' = length ls"
  by (auto simp: fill_from_splat_def res_bind_Inr_iff Let_def dest!: keeps_length split: if_splits option.splits)

lemma fill_rest_length [keeps_length]: "fill_rest h info off call ls = Inr ls' \<Longrightarrow> length ls' = length ls"
  by (auto simp: fill_rest_def res_bind_Inr_iff dest!: keeps_length split: if_splits)

lemma fill_positional_length [keeps_length]: "fill_positional h info off call ls = Inr ls' \<Longrightarrow> length ls' = length ls"
  by (auto simp: fill_positional_def res_bind_Inr_iff dest!: keeps_length split: if_splits)

lemma assign_splat_keyword_length [keeps_length]: "assign_splat_keyword info off kw x ls = Inr ls' \<Longrightarrow> length ls' = length ls"
  by (auto simp: assign_splat_keyword_def dest: assign_keyword_length split: prod.splits yval.splits)

lemma assign_keywords_length: "foldM (assign_keyword_arg info off kw) xs ls = Inr ls' \<Longrightarrow> length ls' = length ls"
  by (erule foldM_length[rotated]) (rule assign_keyword_length)

lemma assign_splat_keywords_length: "foldM (assign_splat_keyword info off kw) xs ls = Inr ls' \<Longrightarrow> length ls' = length ls"
  by (erule foldM_length[rotated]) (rule assign_splat_keyword_length)

lemma fill_keywords_length [keeps_length]: "fill_keywords h info off kw call ls = Inr ls' \<Longrightarrow> length ls' = length ls"
  by (auto simp: fill_keywords_def res_bind_Inr_iff split: option.split_asm
      dest!: assign_keywords_length assign_splat_keywords_length)

lemma fill_block_length [keeps_length]: "fill_block info off call ls = Inr ls' \<Longrightarrow> length ls' = length ls"
  by (auto simp: fill_block_def dest: mem_store_length split: option.splits if_splits)

lemma check_args_length [keeps_length]: "check_args_assigned info off ls = Inr ls' \<Longrightarrow> length ls' = length ls"
  unfolding check_args_assigned_def
  by (erule foldM_length[rotated]) (auto simp: res_bind_Inr_iff wrong_num_args_def split: if_splits)

lemma fill_args_length: "fill_args h info off call ls = Inr ls' \<Longrightarrow> length ls' = length ls"
  by (auto simp: fill_args_def res_bind_Inr_iff Let_def dest!: keeps_length split: option.splits if_splits)

lemma fill_outer_length:
  assumes "fill_outer_frames fptr a outer depth st = Inr st'" "load_script st a = Inr f"
  shows "\<exists>ls. st' = put_frame a (ScriptFrame (f\<lparr>locals_etc := ls\<rparr>)) st \<and> length ls = length (locals_etc f)"
proof (cases "depth = 0")
  case True
  then show ?thesis using assms by (intro exI[of _ "locals_etc f"]) (simp add: fill_outer_frames_def put_same)
next
  case False
  then obtain ls0 ls where ls: "mem_store (locals_etc f) (stack_capacity f + locals_num f) (Val (YPtr (fptr outer))) = Inr ls0"
    "foldM (\<lambda>i ls. res_bind (load_script st outer) (\<lambda>g.
        res_bind (mem_load (if outer = a then ls else locals_etc g) (stack_capacity g + locals_num g + i)) (\<lambda>v.
          mem_store ls (stack_capacity f + locals_num f + 1 + i) v))) [0..<depth - 1] ls0 = Inr ls"
    "st' = put_frame a (ScriptFrame (f\<lparr>locals_etc := ls\<rparr>)) st"
    using assms by (auto simp: fill_outer_frames_def Let_def res_bind_Inr_iff split: if_split_asm)
  have "length ls = length ls0" by (rule foldM_length[OF _ ls(2)]) (auto simp: res_bind_Inr_iff dest: mem_store_length)
  then show ?thesis using ls(1,3) mem_store_length by fastforce
qed

text \<open>A call ends with a new current frame.\<close>

lemma exec_enters:
  assumes pool: "pool_ok st" and run: "YogFunction_exec_for_instance fptr h fn self dc call st = Inr st'"
  obtains a s x where "takes_frame (fn_code fn) (fn_locals fn) st a s" "st' = (put_frame a (ScriptFrame x) s)\<lparr>cur_frame := Some a\<rparr>"
    "frame_wf x" "sf_prev x = cur_frame s" "\<not> used_by_func x"
proof -
  obtain a s where s: "YogFrame_get_script_frame (fn_code fn) (fn_locals fn) st = Inr (a, s)" "takes_frame (fn_code fn) (fn_locals fn) st a s"
    using get_script_frame_takes[OF pool] by blast
  obtain f where f: "load_script s a = Inr f" "ready (fn_code fn) (fn_locals fn) f" using s(2) by (auto simp: takes_frame_def)
  obtain ls1 ls2 s1 s2 where r:
    "(if fn_needs_self fn then mem_store (locals_etc f) (stack_capacity f) (case self of None \<Rightarrow> Undef | Some v \<Rightarrow> Val v)
      else Inr (locals_etc f)) = Inr ls1"
    "fill_args h (fn_arg_info fn) (stack_capacity f + (if fn_needs_self fn then 1 else 0)) call ls1 = Inr ls2"
    "fill_outer_frames fptr a (outer_frame (fn_frames fn)) (outer_size (fn_code fn))
      (put_frame a (ScriptFrame (f\<lparr>sf_globals := fn_globals fn, locals_etc := ls2\<rparr>)) s) = Inr s1"
    "update_script a (\<lambda>f. f\<lparr>
         frame_to_long_return := (case fn_long_return (fn_frames fn) of Some r \<Rightarrow> Some r | None \<Rightarrow> cur_frame s1),
         frame_to_long_break := fn_long_break (fn_frames fn),
         sf_klass := (case dc of Some c \<Rightarrow> c | None \<Rightarrow> sf_klass f), sf_name := fn_name fn\<rparr>) s1 = Inr s2"
    "YogEval_push_frame a s2 = Inr st'"
    using run f(1) unfolding YogFunction_exec_for_instance_def s(1)
    by (auto simp only: res_bind_simps prod.case elim!: res_bind_InrE)
  let ?f = "f\<lparr>sf_globals := fn_globals fn, locals_etc := ls2\<rparr>"
  have l2: "length ls2 = length (locals_etc f)"
    using r(1) fill_args_length[OF r(2)] by (auto dest: mem_store_length split: if_splits)
  obtain ls where ls: "s1 = put_frame a (ScriptFrame (?f\<lparr>locals_etc := ls\<rparr>)) (put_frame a (ScriptFrame ?f) s)" "length ls = length ls2"
    using fill_outer_length[OF r(3)] by (auto simp: load_script_Inr)
  let ?x = "?f\<lparr>locals_etc := ls, frame_to_long_return := (case fn_long_return (fn_frames fn) of Some r \<Rightarrow> Some r | None \<Rightarrow> cur_frame s1),
      frame_to_long_break := fn_long_break (fn_frames fn), sf_klass := (case dc of Some c \<Rightarrow> c | None \<Rightarrow> sf_klass f), sf_name := fn_name fn,
      sf_prev := cur_frame s\<rparr>"
  have s1: "load_script s1 a = Inr (?f\<lparr>locals_etc := ls\<rparr>)" by (simp add: ls(1) load_script_Inr)
  have "frame_at s2 a = Some (ScriptFrame (?f\<lparr>locals_etc := ls, frame_to_long_return := (case fn_long_return (fn_frames fn) of Some r \<Rightarrow> Some r | None \<Rightarrow> cur_frame s1),
      frame_to_long_break := fn_long_break (fn_frames fn), sf_klass := (case dc of Some c \<Rightarrow> c | None \<Rightarrow> sf_klass f), sf_name := fn_name fn\<rparr>))"
    "cur_frame s2 = cur_frame s" and put: "put_frame a y s2 = put_frame a y s" for y
    using r(4) s1 by (auto simp: update_script_def ls(1) put_frame_def cong: option.case_cong)
  then have "st' = (put_frame a (ScriptFrame ?x) s2)\<lparr>cur_frame := Some a\<rparr>"
    using r(5) by (simp add: YogEval_push_frame_def load_frame_def)
  then have st': "st' = (put_frame a (ScriptFrame ?x) s)\<lparr>cur_frame := Some a\<rparr>" by (simp only: put)
  have len: "length (locals_etc f) = stack_capacity f + locals_num f + outer_frames_num f" and sz: "stack_size f = 0"
    using f(2) by (simp_all add: ready_def)
  have wf: "frame_wf ?x" using l2 ls(2) len sz by (simp add: frame_wf_def)
  have un: "\<not> used_by_func ?x" using f(2) by (simp add: ready_def)
  show thesis by (rule that[OF s(2) st' wf _ un]) simp
qed

section \<open>Every operation keeps the invariant\<close>

definition safe :: "'o frames \<Rightarrow> 'o frames \<Rightarrow> bool" where
  "safe st st' \<longleftrightarrow> frames_inv st' \<and> kept st st'"

lemma safe_trans: "safe st st' \<Longrightarrow> safe st' st'' \<Longrightarrow> safe st st''"
  using kept_trans by (auto simp: safe_def)

lemma in_chain:
  assumes "frames_ok as st"
  shows "cur_frame st = Some c \<Longrightarrow> c \<in> set as" "prev_frame st = Inr p \<Longrightarrow> p \<in> set as"
proof -
  note c = frames_okD(2)[OF assms]
  show "cur_frame st = Some c \<Longrightarrow> c \<in> set as" using c by (cases as) auto
  show "p \<in> set as" if p: "prev_frame st = Inr p"
  proof -
    obtain c f where f: "cur_frame st = Some c" "frame_at st c = Some f" "prev_of f = Some p" using p by (auto simp: prev_frame_Inr)
    then obtain bs where "as = c # bs" "chain st (Some p) bs" using c by (cases as) auto
    then show ?thesis by (cases bs) auto
  qed
qed

lemma safe_changes:
  assumes ok: "frames_ok as st" and ch: "changes S st st'" and S: "S \<subseteq> set as"
  shows "frames_ok as st'" "kept st st'"
  using inv_changes[OF frames_okD(1)[OF ok] ch frames_okD(2)[OF ok] S] chain_changes[OF ch frames_okD(2)[OF ok]]
    changes_cur[OF ch] kept_changes[OF ch] by (simp_all add: frames_ok_def)

lemma safe_changes_cur:
  assumes inv: "frames_inv st" and ch: "changes {c} st st'" and c: "cur_frame st = Some c"
  shows "safe st st'"
proof -
  obtain as where as: "frames_ok as st" by (rule frames_okE[OF inv])
  have "{c} \<subseteq> set as" using in_chain(1)[OF as c] by simp
  from safe_changes[OF as ch this] show ?thesis by (simp add: safe_def frames_okD)
qed

lemma safe_update_free:
  assumes ok: "frames_ok as st" and a: "a \<notin> set as" "a \<notin> set (script_frames st) \<union> set (finish_frames st) \<union> set (c_frames st)"
    and f: "load_script st a = Inr f" and g: "frame_wf g" "used_by_func f \<longrightarrow> used_by_func g"
  shows "frames_ok as (put_frame a (ScriptFrame g) st)" "kept st (put_frame a (ScriptFrame g) st)"
proof -
  have lt: "a < next_frame st"
    using f frames_okD(4)[OF ok] by (auto simp: pool_ok_def fresh_addresses_def load_script_Inr not_less[symmetric])
  show "frames_ok as (put_frame a (ScriptFrame g) st)" by (rule inv_put_free[OF ok a lt]) (use g in simp)
  show "kept st (put_frame a (ScriptFrame g) st)" by (rule kept_put) (use f g in \<open>auto simp: put_frame_def\<close>)
qed

lemma safe_call:
  assumes inv: "frames_inv st" and run: "YogFunction_exec_for_instance fptr h fn self dc call st = Inr st'"
  shows "safe st st'"
proof -
  obtain as where as: "frames_ok as st" by (rule frames_okE[OF inv])
  note pool = frames_okD(4)[OF as]
  obtain a s x where t: "takes_frame (fn_code fn) (fn_locals fn) st a s" "st' = (put_frame a (ScriptFrame x) s)\<lparr>cur_frame := Some a\<rparr>"
    "frame_wf x" "sf_prev x = cur_frame s" "\<not> used_by_func x"
    by (rule exec_enters[OF pool run])
  note s = inv_takes[OF as t(1)]
  obtain f where f: "load_script s a = Inr f" "\<not> used_by_func f" using t(1) by (auto simp: takes_frame_def ready_def)
  have lt: "a < next_frame s"
    using f(1) frames_okD(4)[OF s(1)] by (auto simp: pool_ok_def fresh_addresses_def load_script_Inr not_less[symmetric])
  have "frames_inv st'" unfolding t(2) by (rule inv_enter[OF s lt]) (use t(3,4) in simp_all)
  moreover have "kept s st'" by (rule kept_put[of _ _ a "ScriptFrame x"]) (use f t(2) in \<open>auto simp: put_frame_def\<close>)
  ultimately show ?thesis using kept_trans[OF kept_takes[OF pool t(1)]] by (simp add: safe_def)
qed

lemma safe_names:
  assumes inv: "frames_inv st" and run: "enter_names code vars globals st = Inr st'"
  shows "safe st st'"
proof -
  obtain as where as: "frames_ok as st" by (rule frames_okE[OF inv])
  note pool = frames_okD(4)[OF as]
  obtain a s where t: "YogFrame_get_script_frame code 1 st = Inr (a, s)" "takes_frame code 1 st a s"
    using get_script_frame_takes[OF pool] by blast
  obtain f where f: "load_script s a = Inr f" "ready code 1 f" using t(2) by (auto simp: takes_frame_def)
  obtain ls where ls: "mem_store (locals_etc f) (stack_capacity f) vars = Inr ls"
    and push: "YogEval_push_frame a (put_frame a (ScriptFrame (f\<lparr>locals_etc := ls, sf_globals := globals\<rparr>)) s) = Inr st'"
    using run f(1) t(1) unfolding enter_names_def create_frame_for_names_def
    by (auto simp: res_bind_Inr_iff update_script_def load_script_Inr put_frame_def)
  have wf: "frame_wf (f\<lparr>locals_etc := ls, sf_globals := globals\<rparr>)"
    using f(2) mem_store_length[OF ls] by (simp add: ready_def frame_wf_def)
  note s = inv_takes[OF as t(2)]
  note u = safe_update_free[OF s f(1) wf, simplified]
  have "frames_inv st'" by (rule inv_push_frame[OF u(1) s(2) _ push]) (use s(3) in simp)
  then show ?thesis
    using kept_trans[OF kept_trans[OF kept_takes[OF pool t(2)] u(2)] kept_push_frame[OF push]] by (simp add: safe_def)
qed

lemma changes_script:
  assumes "changes S st st'" "load_script st a = Inr f"
  shows "\<exists>g. load_script st' a = Inr g \<and> same_kind (ScriptFrame f) (ScriptFrame g)"
proof -
  obtain y where y: "frame_at st' a = Some y" "same_kind (ScriptFrame f) y"
    using assms unfolding changes_def load_script_Inr by blast
  then show ?thesis using same_kind_script[OF y(2)] by (auto simp: load_script_Inr)
qed

lemma put_script_frames [simp]:
  "frame_at (YogThread_put_script_frame a st) = frame_at st" "frame_at (YogThread_put_finish_frame a st) = frame_at st"
  "frame_at (YogThread_put_c_frame a st) = frame_at st"
  by (simp_all add: YogThread_put_script_frame_def YogThread_put_finish_frame_def YogThread_put_c_frame_def)

lemma safe_ret:
  assumes inv: "frames_inv st" and cur: "cur_frame st = Some c" "load_script st c = Inr f" "sf_type f = FRAME_SCRIPT"
    and run: "inst_ret n st = Inr st'"
  shows "safe st st'"
proof -
  obtain as where as: "frames_ok as st" by (rule frames_okE[OF inv])
  obtain s t g where r: "move_returned_value n st = Inr s" "YogEval_pop_frame s = Inr t" "load_script t c = Inr g"
    and run': "(if \<not> used_by_func g then res_bind (YogScriptFrame_cleanup c t) (\<lambda>st. Inr (YogThread_put_script_frame c st)) else Inr t) = Inr st'"
  proof -
    obtain s where s: "move_returned_value n st = Inr s" using run by (auto simp: inst_ret_def res_bind_Inr_iff)
    obtain p where "changes {c, p} st s" by (rule move_returned_changes[OF s cur(1)])
    then have "cur_frame s = Some c" using changes_cur cur(1) by metis
    then show thesis using that s run by (auto simp: inst_ret_def res_bind_Inr_iff)
  qed
  obtain p where p: "prev_frame st = Inr p" "changes {c, p} st s" by (rule move_returned_changes[OF r(1) cur(1)])
  have "{c, p} \<subseteq> set as" using in_chain[OF as] cur(1) p(1) by simp
  note s = safe_changes[OF as p(2) this]
  have cs: "cur_frame s = Some c" using changes_cur[OF p(2)] cur(1) by simp
  obtain x bs where x: "t = s\<lparr>cur_frame := x\<rparr>" "frames_ok bs t" "c \<notin> set bs"
      "c \<notin> set (script_frames s) \<union> set (finish_frames s) \<union> set (c_frames s)"
    using inv_pop_frame[OF frames_okD(1)[OF s(1)] r(2)] cs by (metis option.inject)
  have kt: "kept st t" by (rule kept_trans[OF s(2) kept_same_frames]) (simp add: x(1))
  have g: "frame_wf g" "sf_type g = FRAME_SCRIPT"
    using changes_script[OF p(2) cur(2)] r(3) cur(3) frames_okD(6)[OF x(2) r(3)] unfolding x(1)
    by (auto simp: load_script_Inr same_kind_def)
  show ?thesis
  proof (cases "used_by_func g")
    case True
    then show ?thesis using run' kt frames_okD(1)[OF x(2)] by (simp add: safe_def)
  next
    case False
    obtain g' where g': "YogScriptFrame_cleanup c t = Inr (put_frame c (ScriptFrame g') t)" "clean g'"
      using cleanup_clean[OF r(3) g False] by blast
    have st': "st' = YogThread_put_script_frame c (put_frame c (ScriptFrame g') t)" using run' False g'(1) by simp
    have out: "c \<notin> set (script_frames t) \<union> set (finish_frames t) \<union> set (c_frames t)" using x(1,4) by simp
    have imp: "used_by_func g \<longrightarrow> used_by_func g'" using False by simp
    note u = safe_update_free[OF x(2,3) out r(3) clean_wf[OF g'(2)] imp]
    have "frames_inv st'" unfolding st' by (rule inv_put_script[OF u(1) x(3) _ _ g'(2)]) (use out in \<open>simp_all add: load_script_Inr\<close>)
    moreover have "kept (put_frame c (ScriptFrame g') t) st'" unfolding st' by (rule kept_same_frames) simp
    ultimately show ?thesis using kept_trans[OF kept_trans[OF kt u(2)]] by (simp add: safe_def)
  qed
qed

lemma safe_finish:
  assumes inv: "frames_inv st" and cur: "cur_frame st = Some c" "load_script st c = Inr f" "sf_type f = FRAME_FINISH"
    and run: "inst_finish st = Inr (v, st')"
  shows "safe st st'"
proof -
  obtain as where as: "frames_ok as st" by (rule frames_okE[OF inv])
  obtain s where p: "pop st = Inr (v, s)" using run by (auto simp: inst_finish_def res_bind_Inr_iff)
  note ch = pop_changes[OF p cur(1)]
  have cs: "cur_frame s = Some c" using changes_cur[OF ch] cur(1) by simp
  obtain t g where t: "YogEval_pop_frame s = Inr t" "load_script t c = Inr g"
      "st' = YogThread_put_finish_frame c (put_frame c (ScriptFrame (g\<lparr>sf_prev := None, pc := 0, stack_size := 0\<rparr>)) t)"
    using run p cs by (auto simp: inst_finish_def res_bind_Inr_iff YogFinishFrame_clean_def update_script_def)
  let ?g = "g\<lparr>sf_prev := None, pc := 0, stack_size := 0\<rparr>"
  have "{c} \<subseteq> set as" using in_chain(1)[OF as cur(1)] by simp
  note s = safe_changes[OF as ch this]
  obtain x bs where x: "t = s\<lparr>cur_frame := x\<rparr>" "frames_ok bs t" "c \<notin> set bs"
      "c \<notin> set (script_frames s) \<union> set (finish_frames s) \<union> set (c_frames s)"
    using inv_pop_frame[OF frames_okD(1)[OF s(1)] t(1)] cs by (metis option.inject)
  have kt: "kept st t" by (rule kept_trans[OF s(2) kept_same_frames]) (simp add: x(1))
  have g: "frame_wf g" "sf_type g = FRAME_FINISH"
    using changes_script[OF ch cur(2)] t(2) cur(3) frames_okD(6)[OF x(2) t(2)] unfolding x(1)
    by (auto simp: load_script_Inr same_kind_def)
  have out: "c \<notin> set (script_frames t) \<union> set (finish_frames t) \<union> set (c_frames t)" using x(1,4) by simp
  have wf: "frame_wf ?g" "used_by_func g \<longrightarrow> used_by_func ?g" using g(1) by (simp_all add: frame_wf_def)
  note u = safe_update_free[OF x(2,3) out t(2) wf]
  have "frames_inv st'" unfolding t(3)
    by (rule inv_put_finish[OF u(1) x(3), where f = ?g]) (use out g(2) in \<open>simp_all add: load_script_Inr\<close>)
  moreover have "kept (put_frame c (ScriptFrame ?g) t) st'" unfolding t(3) by (rule kept_same_frames) simp
  ultimately show ?thesis using kept_trans[OF kept_trans[OF kt u(2)]] by (simp add: safe_def)
qed

text \<open>Frames that are taken from a pool, or made.\<close>

definition entering :: "nat list \<Rightarrow> nat \<Rightarrow> 'o frames \<Rightarrow> bool" where
  "entering as a st \<longleftrightarrow> frames_ok as st \<and> a \<notin> set as \<and> a \<notin> set (script_frames st) \<union> set (finish_frames st) \<union> set (c_frames st)"

lemma entering_push:
  assumes "entering as a st" "YogEval_push_frame a st = Inr st'"
  shows "safe st st'"
  using inv_push_frame[OF _ _ _ assms(2)] kept_push_frame[OF assms(2)] assms(1) unfolding entering_def safe_def by blast

lemma entering_new:
  assumes ok: "frames_ok as st" and new: "new_frame x st = (a, s)" and x: "\<And>f. x = ScriptFrame f \<Longrightarrow> frame_wf f"
  shows "entering as a s" "kept st s"
proof -
  note d = frames_okD[OF ok] and i = frames_okD(1)[OF ok, unfolded frames_inv_def]
  note eq = new_frame_simps[OF new]
  let ?t = "st\<lparr>next_frame := Suc a\<rparr>"
  have none: "frame_at st a = None" using d(4) eq by (simp add: pool_ok_def fresh_addresses_def)
  have l: "load_script ?t b = load_script st b" for b by (simp add: load_script_def)
  have ch: "chain ?t (cur_frame ?t) as" using chain_at[of as ?t st, OF _ d(2)] by simp
  have t: "frames_ok as ?t" unfolding frames_ok_def
  proof (rule conjI[OF frames_invI[OF _ _ ch] ch])
    show "pool_ok ?t" using d(4) conjunct1[OF eq] unfolding pool_ok_def fresh_addresses_def l by simp
  qed (use d i in \<open>auto simp: l\<close>)
  have a: "a \<notin> set as" "a \<notin> set (script_frames st) \<union> set (finish_frames st) \<union> set (c_frames st)"
    using chain_exists[OF d(2)] none i d(4) by (force simp: pool_ok_def load_script_Inr)+
  have "frames_ok as s" using inv_put_free[OF t a(1) _ _ x] a eq by simp
  then show "entering as a s" using a eq by (simp add: entering_def)
  show "kept st s" by (rule kept_put[of _ _ a x]) (use eq none in \<open>auto simp: put_frame_def load_script_Inr\<close>)
qed

lemma entering_pool:
  assumes ok: "frames_ok as st"
  shows "c_frames st \<noteq> [] \<Longrightarrow> entering as (last (c_frames st)) (st\<lparr>c_frames := butlast (c_frames st)\<rparr>)
      \<and> (\<exists>g. frame_at st (last (c_frames st)) = Some (CFrame g))"
    "finish_frames st \<noteq> [] \<Longrightarrow> entering as (last (finish_frames st)) (st\<lparr>finish_frames := butlast (finish_frames st)\<rparr>)"
proof -
  note d = frames_okD[OF ok] and i = frames_okD(1)[OF ok, unfolded frames_inv_def]
  have kinds: "\<exists>f. frame_at st b = Some (ScriptFrame f) \<and> sf_type f = FRAME_SCRIPT" if "b \<in> set (script_frames st)" for b
    using that d(4) by (auto simp: pool_ok_def load_script_Inr clean_def)
  have fin: "\<exists>f. frame_at st b = Some (ScriptFrame f) \<and> sf_type f = FRAME_FINISH" if "b \<in> set (finish_frames st)" for b
    using that i by (auto simp: load_script_Inr)
  have cs: "\<exists>f. frame_at st b = Some (CFrame f)" if "b \<in> set (c_frames st)" for b using that i by blast
  have last: "last xs \<notin> set (butlast xs)" "distinct (butlast xs)" if "distinct xs" "xs \<noteq> []" for xs :: "nat list"
  proof -
    have "distinct (butlast xs @ [last xs])" using that by simp
    then show "last xs \<notin> set (butlast xs)" "distinct (butlast xs)" by simp_all
  qed
  show "entering as (last (c_frames st)) (st\<lparr>c_frames := butlast (c_frames st)\<rparr>) \<and> (\<exists>g. frame_at st (last (c_frames st)) = Some (CFrame g))"
    if ne: "c_frames st \<noteq> []"
  proof -
    let ?a = "last (c_frames st)" and ?s = "st\<lparr>c_frames := butlast (c_frames st)\<rparr>"
    have a: "?a \<in> set (c_frames st)" using ne by simp
    have sub: "set (butlast (c_frames st)) \<subseteq> set (c_frames st)" by (auto dest: in_set_butlastD)
    have l: "load_script ?s b = load_script st b" for b by (simp add: load_script_def)
    have ch: "chain ?s (cur_frame ?s) as" using chain_at[of as ?s st, OF _ d(2)] by simp
    have "frames_ok as ?s" unfolding frames_ok_def
    proof (rule conjI[OF frames_invI[OF _ _ ch] ch])
      show "pool_ok ?s" using d(4) by (simp add: pool_ok_def fresh_addresses_def l)
      show "set as \<inter> (set (script_frames ?s) \<union> set (finish_frames ?s) \<union> set (c_frames ?s)) = {}" using d(5) sub by auto
      show "distinct (c_frames ?s)" using last(2) i ne by simp
    qed (use d i sub in \<open>auto simp: l\<close>)
    moreover have "?a \<notin> set as" using a d(5) by blast
    moreover have "?a \<notin> set (script_frames st)" "?a \<notin> set (finish_frames st)" using kinds[of ?a] fin[of ?a] cs[OF a] by auto
    moreover have "?a \<notin> set (butlast (c_frames st))" using last(1) i ne by blast
    ultimately show ?thesis using cs[OF a] by (simp add: entering_def)
  qed
  show "entering as (last (finish_frames st)) (st\<lparr>finish_frames := butlast (finish_frames st)\<rparr>)" if ne: "finish_frames st \<noteq> []"
  proof -
    let ?a = "last (finish_frames st)" and ?s = "st\<lparr>finish_frames := butlast (finish_frames st)\<rparr>"
    have a: "?a \<in> set (finish_frames st)" using ne by simp
    have sub: "set (butlast (finish_frames st)) \<subseteq> set (finish_frames st)" by (auto dest: in_set_butlastD)
    have l: "load_script ?s b = load_script st b" for b by (simp add: load_script_def)
    have ch: "chain ?s (cur_frame ?s) as" using chain_at[of as ?s st, OF _ d(2)] by simp
    have "frames_ok as ?s" unfolding frames_ok_def
    proof (rule conjI[OF frames_invI[OF _ _ ch] ch])
      show "pool_ok ?s" using d(4) by (simp add: pool_ok_def fresh_addresses_def l)
      show "set as \<inter> (set (script_frames ?s) \<union> set (finish_frames ?s) \<union> set (c_frames ?s)) = {}" using d(5) sub by auto
      show "distinct (finish_frames ?s)" using last(2) i ne by simp
    qed (use d i sub in \<open>auto simp: l\<close>)
    moreover have "?a \<notin> set as" using a d(5) by blast
    moreover have "?a \<notin> set (script_frames st)" "?a \<notin> set (c_frames st)" using kinds[of ?a] cs[of ?a] fin[OF a] by auto
    moreover have "?a \<notin> set (butlast (finish_frames st))" using last(1) i ne by blast
    ultimately show ?thesis by (simp add: entering_def)
  qed
qed

lemma entering_put_c:
  assumes e: "entering as a st" and g: "frame_at st a = Some (CFrame g)"
  shows "entering as a (put_frame a (CFrame g') st)" "kept st (put_frame a (CFrame g') st)"
proof -
  have ok: "frames_ok as st" and a: "a \<notin> set as" "a \<notin> set (script_frames st) \<union> set (finish_frames st) \<union> set (c_frames st)"
    using e unfolding entering_def by blast+
  have lt: "a < next_frame st"
    using g frames_okD(4)[OF ok] by (auto simp: pool_ok_def fresh_addresses_def not_less[symmetric])
  show "entering as a (put_frame a (CFrame g') st)" using inv_put_free[OF ok a lt, of "CFrame g'"] a by (simp add: entering_def)
  show "kept st (put_frame a (CFrame g') st)" by (rule kept_put) (use g in \<open>auto simp: put_frame_def load_script_Inr\<close>)
qed

lemma safe_enter_c:
  assumes inv: "frames_inv st" and run: "enter_c callee st = Inr st'"
  shows "safe st st'"
proof -
  obtain as where as: "frames_ok as st" by (rule frames_okE[OF inv])
  obtain a s where s: "YogFrame_get_c_frame st = (a, s)" by fastforce
  have e: "entering as a s \<and> kept st s"
  proof (cases "c_frames st = []")
    case True
    then have "new_frame (CFrame \<lparr>cf_prev = None, cf_f = Undef, multi_val = Undef\<rparr>) st = (a, s)"
      using s by (simp add: YogFrame_get_c_frame_def YogThread_get_c_frame_def YogCFrame_new_def)
    from entering_new[OF as this] show ?thesis by simp
  next
    case False
    then have eq: "a = last (c_frames st)" "s = st\<lparr>c_frames := butlast (c_frames st)\<rparr>"
      using s by (simp_all add: YogFrame_get_c_frame_def YogThread_get_c_frame_def)
    show ?thesis using entering_pool(1)[OF as False] kept_same_frames[of s st] unfolding eq by simp
  qed
  obtain g where g: "frame_at s a = Some (CFrame g)" "YogEval_push_frame a (put_frame a (CFrame (g\<lparr>cf_f := callee\<rparr>)) s) = Inr st'"
    using run unfolding enter_c_def s prod.case by (elim res_bind_InrE) (auto simp: load_frame_Inr split: frame.split_asm)
  note p = entering_put_c[OF conjunct1[OF e] g(1), of "g\<lparr>cf_f := callee\<rparr>"]
  show ?thesis using safe_trans[of st "put_frame a (CFrame (g\<lparr>cf_f := callee\<rparr>)) s" st'] entering_push[OF p(1) g(2)]
      kept_trans[OF conjunct2[OF e] p(2)] p(1) frames_okD(1) by (auto simp: safe_def entering_def)
qed

lemma safe_leave_c:
  assumes inv: "frames_inv st" and cur: "cur_frame st = Some c" "frame_at st c = Some (CFrame g)" and run: "leave_c st = Inr st'"
  shows "safe st st'"
proof -
  let ?t = "st\<lparr>cur_frame := cf_prev g\<rparr>"
  have pop: "YogEval_pop_frame st = Inr ?t"
    using cur by (simp add: YogEval_pop_frame_def current_def load_frame_def)
  obtain as where t: "frames_ok as ?t" "c \<notin> set as" "c \<notin> set (c_frames st)"
    using inv_pop_frame[OF inv pop] cur(1) by (metis UnI2 option.inject)
  have "st' = YogThread_put_c_frame c ?t"
    using run cur by (auto simp: leave_c_def current_def YogEval_pop_frame_def YogThread_put_c_frame_def load_frame_def)
  then show ?thesis
    using inv_put_c[OF t(1,2), of g] t(3) cur(2) kept_same_frames[of "YogThread_put_c_frame c ?t" st] by (simp add: safe_def)
qed

lemma safe_push_finish:
  assumes inv: "frames_inv st" and run: "YogEval_push_finish_frame code num st = Inr st'"
  shows "safe st st'"
proof -
  obtain as where as: "frames_ok as st" by (rule frames_okE[OF inv])
  show ?thesis
  proof (cases "finish_frames st = []")
    case True
    then obtain a s where s: "YogFinishFrame_new code num st = Inr (a, s)" "YogEval_push_frame a s = Inr st'"
      using run by (auto simp: YogEval_push_finish_frame_def YogThread_get_finish_frame_def res_bind_Inr_iff)
    obtain f where f: "YogScriptFrame_init FRAME_FINISH code num 1 (replicate (code_stack_size code + num + outer_size code) Undef) = Inr f"
        "new_frame (ScriptFrame f) st = (a, s)"
      using s(1) by (auto simp: YogFinishFrame_new_def YogScriptFrame_new_def Let_def res_bind_Inr_iff)
    have "frame_wf f" using f(1)
      by (auto simp: YogScriptFrame_init_def res_bind_Inr_iff cleanup_locals_def Let_def foldM_store_all frame_wf_def)
    then show ?thesis
      using entering_new[OF as f(2)] entering_push[OF _ s(2), of as] kept_trans by (auto simp: safe_def)
  next
    case False
    let ?s = "st\<lparr>finish_frames := butlast (finish_frames st)\<rparr>"
    have push: "YogEval_push_frame (last (finish_frames st)) ?s = Inr st'"
      using run False by (simp add: YogEval_push_finish_frame_def YogThread_get_finish_frame_def)
    have "kept st ?s" by (rule kept_same_frames) simp
    then show ?thesis using entering_push[OF entering_pool(2)[OF as False] push] kept_trans by (auto simp: safe_def)
  qed
qed

section \<open>The walks along the chain\<close>

lemma safe_suffix:
  assumes "frames_ok (xs @ ys) st" "chain st c ys"
  shows "frames_ok ys (st\<lparr>cur_frame := c\<rparr>)" "kept st (st\<lparr>cur_frame := c\<rparr>)"
  using inv_suffix[OF assms] kept_same_frames[of "st\<lparr>cur_frame := c\<rparr>" st] by simp_all

lemma chain_next:
  assumes "frames_ok (xs @ ys) st" "chain st (Some a) ys" "frame_at st a = Some f"
  obtains zs where "ys = a # zs" "frames_ok ((xs @ [a]) @ zs) st" "chain st (prev_of f) zs"
  using assms by (cases ys) auto

lemma rollback_safe:
  "frames_ok (xs @ ys) st \<Longrightarrow> chain st fr ys \<Longrightarrow> rollback_frames n fr st = Inr (b, st') \<Longrightarrow> safe st st' \<and> (\<not> b \<longrightarrow> st' = st)"
proof (induction n arbitrary: fr xs ys)
  case (Suc n)
  have here: "safe st st" using Suc.prems(1) by (simp add: safe_def frames_okD)
  show ?case
  proof (cases fr)
    case None
    then show ?thesis using Suc.prems(3) here by simp
  next
    case (Some a)
    then obtain x where x: "frame_at st a = Some x" using Suc.prems(3) by (auto simp: res_bind_Inr_iff load_frame_Inr)
    obtain zs where zs: "ys = a # zs" "frames_ok ((xs @ [a]) @ zs) st" "chain st (prev_of x) zs"
      by (rule chain_next[OF Suc.prems(1) _ x]) (use Suc.prems(2) Some in simp)
    show ?thesis
    proof (cases "\<exists>f code. x = ScriptFrame f \<and> sf_type f = FRAME_SCRIPT \<and> sf_code f = Some code")
      case False
      then show ?thesis using Suc.prems(3) Some x here
        by (auto simp: load_frame_def split: frame.split_asm if_split_asm option.split_asm)
    next
      case True
      then obtain f code where f: "x = ScriptFrame f" "sf_type f = FRAME_SCRIPT" "sf_code f = Some code" by blast
      show ?thesis
      proof (cases "find_exception_table_entry code (pc f)")
        case None
        then have "rollback_frames n (sf_prev f) st = Inr (b, st')" using Suc.prems(3) Some x f by (simp add: load_frame_def)
        then show ?thesis using Suc.IH[OF zs(2) _] zs(3) f(1) by simp
      next
        case (Some t)
        let ?s = "st\<lparr>cur_frame := Some a\<rparr>"
        have st': "b" "st' = put_frame a (ScriptFrame (f\<lparr>pc := t\<rparr>)) ?s"
          using Suc.prems(3) \<open>fr = Some a\<close> x f Some by (simp_all add: load_frame_def)
        have ch: "changes {a} ?s st'" unfolding st'(2)
          by (rule changes_put[of _ _ "ScriptFrame f"]) (use x f in \<open>simp_all add: same_kind_def frame_wf_def\<close>)
        have "chain st (Some a) ys" using Suc.prems(2) \<open>fr = Some a\<close> by simp
        note s = safe_suffix[OF Suc.prems(1) this]
        have "{a} \<subseteq> set ys" by (simp add: zs(1))
        note c = safe_changes[OF s(1) ch this]
        show ?thesis using frames_okD(1)[OF c(1)] kept_trans[OF s(2) c(2)] st'(1) by (simp add: safe_def)
      qed
    qed
  qed
qed simp

lemma skip_c_safe: "frames_inv st \<Longrightarrow> skip_c_frame n st = Inr st' \<Longrightarrow> safe st st'"
proof (induction n arbitrary: st)
  case (Suc n)
  obtain as where as: "frames_ok as st" by (rule frames_okE[OF Suc.prems(1)])
  obtain a f where f: "cur_frame st = Some a" "frame_at st a = Some f"
      "(case f of CFrame g \<Rightarrow> skip_c_frame n (st\<lparr>cur_frame := cf_prev g\<rparr>) | ScriptFrame _ \<Rightarrow> Inr st) = Inr st'"
    using Suc.prems(2) by (auto simp: res_bind_Inr_iff load_frame_Inr)
  show ?case
  proof (cases f)
    case (CFrame g)
    obtain zs where zs: "as = a # zs" "frames_ok (([] @ [a]) @ zs) st" "chain st (prev_of f) zs"
      by (rule chain_next[of "[]" as st a f]) (use as f frames_okD(2)[OF as] in auto)
    note s = safe_suffix[OF zs(2,3)]
    have "safe (st\<lparr>cur_frame := prev_of f\<rparr>) st'" using Suc.IH[OF frames_okD(1)[OF s(1)]] f(3) CFrame by simp
    then show ?thesis using kept_trans[OF s(2)] by (simp add: safe_def)
  next
    case (ScriptFrame g)
    then show ?thesis using f(3) Suc.prems(1) by (simp add: safe_def)
  qed
qed simp

lemma skip_to_c_safe:
  "frames_ok (xs @ ys) st \<Longrightarrow> chain st fr ys \<Longrightarrow> skip_to_c_frame n fr st = Inr st' \<Longrightarrow> safe st st'"
proof (induction n arbitrary: fr xs ys)
  case (Suc n)
  then obtain a x where x: "fr = Some a" "frame_at st a = Some x"
    by (auto simp: res_bind_Inr_iff load_frame_Inr split: option.split_asm)
  have c: "chain st (Some a) ys" using Suc.prems(2) x(1) by simp
  obtain zs where zs: "ys = a # zs" "frames_ok ((xs @ [a]) @ zs) st" "chain st (prev_of x) zs"
    by (rule chain_next[OF Suc.prems(1) c x(2)])
  note here = safe_suffix[OF Suc.prems(1) c] and below = safe_suffix[OF zs(2,3)]
  have run: "(case x of CFrame _ \<Rightarrow> Inr (st\<lparr>cur_frame := Some a\<rparr>)
      | ScriptFrame f \<Rightarrow> (case sf_type f of FRAME_SCRIPT \<Rightarrow> skip_to_c_frame n (sf_prev f) st
          | FRAME_FINISH \<Rightarrow> Inr (st\<lparr>cur_frame := sf_prev f\<rparr>))) = Inr st'"
    using Suc.prems(3) x by (simp add: load_frame_def)
  show ?case
  proof (cases x)
    case (CFrame g)
    then show ?thesis using run here by (auto simp: safe_def frames_okD)
  next
    case (ScriptFrame f)
    then show ?thesis using run below Suc.IH[OF zs(2)] zs(3)
      by (cases "sf_type f") (auto simp: safe_def frames_okD)
  qed
qed simp

lemma find_target_safe:
  "frames_ok (xs @ ys) st \<Longrightarrow> chain st fr ys \<Longrightarrow> find_target n fr st = Inr (b, st') \<Longrightarrow> safe st st' \<and> (\<not> b \<longrightarrow> st' = st)"
proof (induction n arbitrary: fr xs ys)
  case (Suc n)
  then obtain a x where x: "fr = Some a" "frame_at st a = Some x"
    by (auto simp: res_bind_Inr_iff load_frame_Inr split: option.split_asm)
  have c: "chain st (Some a) ys" using Suc.prems(2) x(1) by simp
  obtain zs where zs: "ys = a # zs" "frames_ok ((xs @ [a]) @ zs) st" "chain st (prev_of x) zs"
    by (rule chain_next[OF Suc.prems(1) c x(2)])
  have run: "(case x of CFrame _ \<Rightarrow> Inr (False, st)
      | ScriptFrame f \<Rightarrow> if frame_to_long_jump st = Some a
          then res_bind (push_jmp_val (st\<lparr>cur_frame := Some a\<rparr>)) (\<lambda>st. Inr (True, st)) else find_target n (sf_prev f) st) = Inr (b, st')"
    using Suc.prems(3) x by (simp add: load_frame_def)
  show ?case
  proof (cases x)
    case (CFrame g)
    then show ?thesis using run Suc.prems(1) by (simp add: safe_def frames_okD)
  next
    case (ScriptFrame f)
    show ?thesis
    proof (cases "frame_to_long_jump st = Some a")
      case True
      let ?s = "st\<lparr>cur_frame := Some a\<rparr>"
      have p: "push_jmp_val ?s = Inr st'" "b" using run ScriptFrame True by (auto simp: res_bind_Inr_iff)
      have ch: "changes {a} ?s st'" by (rule push_multi_changes[OF p(1)[unfolded push_jmp_val_def]]) simp
      note s = safe_suffix[OF Suc.prems(1) c]
      have "{a} \<subseteq> set ys" by (simp add: zs(1))
      note d = safe_changes[OF s(1) ch this]
      show ?thesis using frames_okD(1)[OF d(1)] kept_trans[OF s(2) d(2)] p(2) by (simp add: safe_def)
    next
      case False
      then show ?thesis using run ScriptFrame Suc.IH[OF zs(2)] zs(3) by simp
    qed
  qed
qed simp

lemma safe_resume:
  assumes inv: "frames_inv st" and run: "mainloop_resume fuel status st = Inr (b, st')"
  shows "safe st st'"
proof -
  obtain s found t where r: "skip_c_frame fuel st = Inr s"
    "(case status of JMP_RAISE \<Rightarrow> rollback_frames fuel (cur_frame s) s
      | JMP_RETURN \<Rightarrow> find_target fuel (cur_frame s) s | JMP_BREAK \<Rightarrow> find_target fuel (cur_frame s) s) = Inr (found, t)"
    "(if found then Inr (True, t) else res_bind (current t) (\<lambda>a. res_bind (load_frame t a) (\<lambda>f.
        res_bind (skip_to_c_frame fuel (prev_of f) t) (\<lambda>st. Inr (False, st))))) = Inr (b, st')"
    using run unfolding mainloop_resume_def by (elim res_bind_InrE) auto
  note s = skip_c_safe[OF inv r(1)]
  have "frames_inv s" using s by (simp add: safe_def)
  then obtain as where as: "frames_ok as s" by (rule frames_okE)
  have as': "frames_ok ([] @ as) s" using as by simp
  note walk = rollback_safe[OF as' frames_okD(2)[OF as]] find_target_safe[OF as' frames_okD(2)[OF as]]
  have t: "safe s t \<and> (\<not> found \<longrightarrow> t = s)" using r(2) walk by (cases status) simp_all
  show ?thesis
  proof (cases found)
    case True
    then show ?thesis using r(3) safe_trans[OF s] t by simp
  next
    case False
    then obtain a f where f: "cur_frame s = Some a" "frame_at s a = Some f" "skip_to_c_frame fuel (prev_of f) s = Inr st'"
      using r(3) t by (auto simp: res_bind_Inr_iff load_frame_Inr)
    have c: "chain s (Some a) as" using frames_okD(2)[OF as] f(1) by simp
    obtain zs where zs: "as = a # zs" "frames_ok (([] @ [a]) @ zs) s" "chain s (prev_of f) zs"
      by (rule chain_next[OF as' c f(2)])
    show ?thesis by (rule safe_trans[OF s skip_to_c_safe[OF zs(2,3) f(3)]])
  qed
qed

text \<open>Any fuel above the length of the chain is enough: more of it changes nothing.\<close>

lemma rollback_fuel:
  "chain st fr ys \<Longrightarrow> length ys < n \<Longrightarrow> length ys < m \<Longrightarrow> rollback_frames n fr st = rollback_frames m fr st"
proof (induction ys arbitrary: fr n m)
  case Nil
  then show ?case by (cases n; cases m) simp_all
next
  case (Cons a ys)
  obtain i j where ij: "n = Suc i" "m = Suc j" "length ys < i" "length ys < j" using Cons.prems(2,3) by (cases n; cases m) auto
  obtain x where x: "fr = Some a" "frame_at st a = Some x" "chain st (prev_of x) ys" using Cons.prems(1) by auto
  have "rollback_frames i (prev_of x) st = rollback_frames j (prev_of x) st" by (rule Cons.IH[OF x(3) ij(3,4)])
  then show ?case using x ij(1,2) by (cases x) (auto simp: load_frame_def split: option.split)
qed

lemma find_target_fuel:
  "chain st fr ys \<Longrightarrow> length ys < n \<Longrightarrow> length ys < m \<Longrightarrow> find_target n fr st = find_target m fr st"
proof (induction ys arbitrary: fr n m)
  case Nil
  then show ?case by (cases n; cases m) simp_all
next
  case (Cons a ys)
  obtain i j where ij: "n = Suc i" "m = Suc j" "length ys < i" "length ys < j" using Cons.prems(2,3) by (cases n; cases m) auto
  obtain x where x: "fr = Some a" "frame_at st a = Some x" "chain st (prev_of x) ys" using Cons.prems(1) by auto
  have "find_target i (prev_of x) st = find_target j (prev_of x) st" by (rule Cons.IH[OF x(3) ij(3,4)])
  then show ?case using x ij(1,2) by (cases x) (auto simp: load_frame_def)
qed

lemma skip_to_c_fuel:
  "chain st fr ys \<Longrightarrow> length ys < n \<Longrightarrow> length ys < m \<Longrightarrow> skip_to_c_frame n fr st = skip_to_c_frame m fr st"
proof (induction ys arbitrary: fr n m)
  case Nil
  then show ?case by (cases n; cases m) simp_all
next
  case (Cons a ys)
  obtain i j where ij: "n = Suc i" "m = Suc j" "length ys < i" "length ys < j" using Cons.prems(2,3) by (cases n; cases m) auto
  obtain x where x: "fr = Some a" "frame_at st a = Some x" "chain st (prev_of x) ys" using Cons.prems(1) by auto
  have "skip_to_c_frame i (prev_of x) st = skip_to_c_frame j (prev_of x) st" by (rule Cons.IH[OF x(3) ij(3,4)])
  then show ?case using x ij(1,2) by (cases x) (auto simp: load_frame_def split: frame_type.split)
qed

section \<open>Runs\<close>

text \<open>The state of a thread that has called nothing.\<close>

definition no_frames :: "'o frames" where
  "no_frames = \<lparr>frame_at = Map.empty, next_frame = 0, cur_frame = None, script_frames = [], finish_frames = [], c_frames = [],
     jmp_val = [], frame_to_long_jump = None\<rparr>"

text \<open>One step: any operation on the frames, with any arguments. The instruction \<^verbatim>\<open>finish\<close> is only in the code of finish frames,
  \<^verbatim>\<open>ret\<close> only in that of the others. The last three rules are the operations that raise an exception after a part of their work:
  a call whose frame is taken and filled but not pushed, a jump that has popped its values, and a main loop that has moved to a frame of
  the chain. The other operations check before they change anything.\<close>

inductive frame_step :: "'o frames \<Rightarrow> 'o frames \<Rightarrow> bool" where
  call: "YogFunction_exec_for_instance fptr h fn self dc args st = Inr st' \<Longrightarrow> frame_step st st'"
| names: "enter_names code vars globals st = Inr st' \<Longrightarrow> frame_step st st'"
| enter_main_loop: "YogEval_push_finish_frame code num st = Inr st' \<Longrightarrow> frame_step st st'"
| ret: "cur_frame st = Some c \<Longrightarrow> load_script st c = Inr f \<Longrightarrow> sf_type f = FRAME_SCRIPT \<Longrightarrow> inst_ret n st = Inr st'
    \<Longrightarrow> frame_step st st'"
| finish: "cur_frame st = Some c \<Longrightarrow> load_script st c = Inr f \<Longrightarrow> sf_type f = FRAME_FINISH \<Longrightarrow> inst_finish st = Inr (v, st')
    \<Longrightarrow> frame_step st st'"
| push: "cur_frame st = Some c \<Longrightarrow> YogScriptFrame_push_stack c x st = Inr st' \<Longrightarrow> frame_step st st'"
| pop: "pop st = Inr (x, st') \<Longrightarrow> frame_step st st'"
| targets: "set_lhs_composition l m r st = Inr st' \<Longrightarrow> frame_step st st'"
| returned: "cur_frame st = Some c \<Longrightarrow> YogEval_push_returned_value c v st = Inr st' \<Longrightarrow> frame_step st st'"
| returned_multi: "YogEval_push_returned_multi_value vs st = Inr st' \<Longrightarrow> frame_step st st'"
| make_function: "setup_script_function st = Inr (fs, st') \<Longrightarrow> frame_step st st'"
| make_block: "inst_make_block st = Inr (fs, st') \<Longrightarrow> frame_step st st'"
| c_call: "enter_c callee st = Inr st' \<Longrightarrow> frame_step st st'"
| c_return: "cur_frame st = Some c \<Longrightarrow> frame_at st c = Some (CFrame g) \<Longrightarrow> leave_c st = Inr st' \<Longrightarrow> frame_step st st'"
| pop_frame: "YogEval_pop_frame st = Inr st' \<Longrightarrow> frame_step st st'"
| c_values: "cur_frame st = Some c \<Longrightarrow> YogCFrame_return_multi_value c x st = Inr st' \<Longrightarrow> frame_step st st'"
| branch: "cur_frame st = Some c \<Longrightarrow> update_script c (\<lambda>f. f\<lparr>pc := p\<rparr>) st = Inr st' \<Longrightarrow> frame_step st st'"
| store: "cur_frame st = Some c \<Longrightarrow> store_local c i x st = Inr st' \<Longrightarrow> frame_step st st'"
| store_nonlocal: "load_script st a = Inr f \<Longrightarrow> used_by_func f \<Longrightarrow> sf_type f = FRAME_SCRIPT \<Longrightarrow> store_local a i x st = Inr st'
    \<Longrightarrow> frame_step st st'"
| jump: "long_jump fuel n target st = Inr st' \<Longrightarrow> frame_step st st'"
| resume: "mainloop_resume fuel status st = Inr (b, st') \<Longrightarrow> frame_step st st'"
| call_fails: "YogFrame_get_script_frame code num st = Inr (a, s) \<Longrightarrow> frame_wf f \<Longrightarrow> frame_step st (put_frame a (ScriptFrame f) s)"
| jump_fails: "make_jmp_val n st = Inr (vs, st') \<Longrightarrow> frame_step st st'"
| resume_fails: "chain st (cur_frame st) (xs @ a # ys) \<Longrightarrow> frame_step st (st\<lparr>cur_frame := Some a\<rparr>)"

lemma no_frames_inv: "frames_inv no_frames"
  by (rule frames_invI[of _ "[]"]) (simp_all add: no_frames_def pool_ok_def fresh_addresses_def load_script_def)

lemma update_script_changes:
  assumes "update_script c u st = Inr st'" "\<And>f. same_kind (ScriptFrame f) (ScriptFrame (u f))"
  shows "changes {c} st st'"
  using assms by (auto simp: update_script_def res_bind_Inr_iff load_script_Inr intro!: changes_put)

lemma setup_changes: "setup_script_function st = Inr (fs, st') \<Longrightarrow> cur_frame st = Some c \<Longrightarrow> changes {c} st st'"
  by (auto simp: setup_script_function_def res_bind_Inr_iff same_kind_def frame_wf_def intro!: update_script_changes[of c])

lemma frames_inv_jump [simp]: "frames_inv (st\<lparr>jmp_val := vs, frame_to_long_jump := t\<rparr>) = frames_inv st"
proof -
  have l: "load_script (st\<lparr>jmp_val := vs, frame_to_long_jump := t\<rparr>) a = load_script st a" for a by (simp add: load_script_def)
  have "chain (st\<lparr>jmp_val := vs, frame_to_long_jump := t\<rparr>) c as = chain st c as" for c as by (induction as arbitrary: c) simp_all
  then show ?thesis by (simp add: frames_inv_def pool_ok_def fresh_addresses_def l)
qed

lemma safe_jump_values:
  assumes inv: "frames_inv st" and run: "make_jmp_val n st = Inr (vs, s)"
  shows "safe st s"
proof (cases "n = 0")
  case True
  then show ?thesis using run inv by (simp add: make_jmp_val_def safe_def)
next
  case False
  then obtain ws where p: "pop_values n st = Inr (ws, s)" using run by (auto simp: make_jmp_val_def res_bind_Inr_iff)
  then obtain c where "cur_frame st = Some c" using False by (cases n) (auto simp: pop_def res_bind_Inr_iff)
  then show ?thesis using pop_values_changes[OF p] safe_changes_cur inv by blast
qed

lemma safe_call_fails:
  assumes inv: "frames_inv st" and get: "YogFrame_get_script_frame code num st = Inr (a, s)" and f: "frame_wf f"
  shows "safe st (put_frame a (ScriptFrame f) s)"
proof -
  obtain as where as: "frames_ok as st" by (rule frames_okE[OF inv])
  note pool = frames_okD(4)[OF as]
  have t: "takes_frame code num st a s" using get_script_frame_takes[OF pool, of code num] get by auto
  note s = inv_takes[OF as t]
  obtain g where g: "load_script s a = Inr g" "ready code num g" using t by (auto simp: takes_frame_def)
  have imp: "used_by_func g \<longrightarrow> used_by_func f" using g(2) by (simp add: ready_def)
  note u = safe_update_free[OF s g(1) f imp]
  show ?thesis using frames_okD(1)[OF u(1)] kept_trans[OF kept_takes[OF pool t] u(2)] by (simp add: safe_def)
qed

lemma store_changes: "store_local a i x st = Inr st' \<Longrightarrow> changes {a} st st'"
  by (auto simp: store_local_def res_bind_Inr_iff load_script_Inr same_kind_def frame_wf_def dest: mem_store_length intro!: changes_put)

lemma multi_value_changes:
  assumes "YogCFrame_return_multi_value a x st = Inr st'"
  shows "changes {a} st st'"
proof -
  obtain f where f: "frame_at st a = Some f" using assms
    by (auto simp: YogCFrame_return_multi_value_def res_bind_Inr_iff load_frame_Inr)
  then show ?thesis using assms
    by (cases f) (auto simp: YogCFrame_return_multi_value_def load_frame_def same_kind_def intro!: changes_put)
qed

lemma safe_store_nonlocal:
  assumes inv: "frames_inv st" and f: "load_script st a = Inr f" "used_by_func f" "sf_type f = FRAME_SCRIPT"
    and run: "store_local a i x st = Inr st'"
  shows "safe st st'"
proof -
  obtain as where as: "frames_ok as st" by (rule frames_okE[OF inv])
  show ?thesis
  proof (cases "a \<in> set as")
    case True
    then have "{a} \<subseteq> set as" by simp
    from safe_changes[OF as store_changes[OF run] this] show ?thesis by (simp add: safe_def frames_okD)
  next
    case False
    have wf: "frame_wf f" using inv f(1) by (simp add: frames_inv_def)
    have pools: "a \<notin> set (script_frames st) \<union> set (finish_frames st) \<union> set (c_frames st)"
      using inv f by (force simp: frames_inv_def pool_ok_def clean_def load_script_Inr)
    obtain ls where "st' = put_frame a (ScriptFrame (f\<lparr>locals_etc := ls\<rparr>)) st" "length ls = length (locals_etc f)"
      using run f(1) by (auto simp: store_local_def res_bind_Inr_iff dest: mem_store_length)
    with safe_update_free[OF as False pools f(1), of "f\<lparr>locals_etc := ls\<rparr>"] wf show ?thesis
      by (auto simp: safe_def frames_okD frame_wf_def)
  qed
qed

lemma chain_suffix: "chain st c (xs @ a # ys) \<Longrightarrow> chain st (Some a) (a # ys)"
  by (induction xs arbitrary: c) auto

lemma safe_pop_frame:
  assumes inv: "frames_inv st" and run: "YogEval_pop_frame st = Inr st'"
  shows "safe st st'"
proof -
  obtain a f as where "frame_at st a = Some f" "st' = st\<lparr>cur_frame := prev_of f\<rparr>" "frames_ok as st'"
    by (rule inv_pop_frame[OF inv run]) blast
  then show ?thesis using frames_okD(1) kept_same_frames[of st' st] by (auto simp: safe_def)
qed

lemma step_safe: "frame_step st st' \<Longrightarrow> frames_inv st \<Longrightarrow> safe st st'"
proof (induction rule: frame_step.induct)
  case (pop st x st')
  then obtain c where "cur_frame st = Some c" by (auto simp: pop_def res_bind_Inr_iff)
  then show ?case using pop safe_changes_cur pop_changes by blast
next
  case (targets l m r st st')
  then obtain c where c: "cur_frame st = Some c"
      "update_script c (\<lambda>f. f\<lparr>lhs_left_num := l, lhs_middle_num := m, lhs_right_num := r\<rparr>) st = Inr st'"
    by (auto simp: set_lhs_composition_def res_bind_Inr_iff)
  have "changes {c} st st'" by (rule update_script_changes[OF c(2)]) (simp add: same_kind_def frame_wf_def)
  then show ?case using targets safe_changes_cur c(1) by blast
next
  case (returned_multi vs st st')
  then obtain c where "cur_frame st = Some c"
    by (auto simp: YogEval_push_returned_multi_value_def res_bind_Inr_iff Let_def split: if_split_asm)
  then show ?case using returned_multi safe_changes_cur push_multi_changes by blast
next
  case (make_function st fs st')
  then obtain c where "cur_frame st = Some c" by (auto simp: setup_script_function_def res_bind_Inr_iff)
  then show ?case using make_function safe_changes_cur setup_changes by blast
next
  case (make_block st fs st')
  then obtain fs' where fs: "setup_script_function st = Inr (fs', st')" by (auto simp: inst_make_block_def res_bind_Inr_iff)
  then obtain c where "cur_frame st = Some c" by (auto simp: setup_script_function_def res_bind_Inr_iff)
  then show ?case using make_block safe_changes_cur setup_changes[OF fs] by blast
next
  case (branch st c p st')
  have "changes {c} st st'" by (rule update_script_changes[OF branch(2)]) (simp add: same_kind_def frame_wf_def)
  then show ?case using branch safe_changes_cur by blast
next
  case (jump fuel n target st st')
  then obtain vs s where s: "make_jmp_val n st = Inr (vs, s)" "st' = s\<lparr>jmp_val := vs, frame_to_long_jump := target\<rparr>"
    by (auto simp: long_jump_def res_bind_Inr_iff)
  then show ?case using safe_jump_values[OF jump(2) s(1)] kept_same_frames[of st' s] kept_trans by (auto simp: safe_def)
next
  case (resume_fails st xs a ys)
  obtain as where as: "frames_ok as st" by (rule frames_okE[OF resume_fails(2)])
  have ok: "frames_ok (xs @ a # ys) st" using resume_fails(1,2) by (simp add: frames_ok_def)
  note s = safe_suffix[OF ok chain_suffix[OF resume_fails(1)]]
  show ?case using frames_okD(1)[OF s(1)] s(2) by (simp add: safe_def)
qed (blast intro: safe_call safe_names safe_push_finish safe_ret safe_finish safe_enter_c safe_leave_c safe_resume
  safe_pop_frame safe_jump_values safe_call_fails safe_store_nonlocal
  safe_changes_cur[OF _ store_changes] safe_changes_cur[OF _ multi_value_changes]
  safe_changes_cur[OF _ push_changes] safe_changes_cur[OF _ push_value_changes])+

lemma run_safe: "frame_step\<^sup>*\<^sup>* st st' \<Longrightarrow> frames_inv st \<Longrightarrow> safe st st'"
proof (induction rule: rtranclp_induct)
  case base
  then show ?case by (simp add: safe_def)
next
  case (step s t)
  then show ?case using safe_trans step_safe by (metis safe_def)
qed

text \<open>C20: In every run of a thread, from its start and without coroutines, a call takes a frame that is ready, whatever it was used for, and that is neither in the chain of the
  calls nor the outer frame of a function made at any time before: the frames that are reused are those that are no longer
  needed. A run is any sequence of the operations that touch frames, in any order and with any arguments, failing ones included.\<close>

theorem pool_frames_unused:
  assumes "frame_step\<^sup>*\<^sup>* no_frames st" "frame_step\<^sup>*\<^sup>* st st'"
  shows "\<exists>a s f as. YogFrame_get_script_frame code num st' = Inr (a, s) \<and> load_script s a = Inr f \<and> ready code num f
    \<and> chain st' (cur_frame st') as \<and> a \<notin> set as \<and> (\<forall>g. load_script st a = Inr g \<longrightarrow> \<not> used_by_func g)"
proof -
  have safe: "frames_inv st'" "kept st st'"
    using run_safe[OF assms(2)] run_safe[OF assms(1) no_frames_inv] by (simp_all add: safe_def)
  obtain as where as: "frames_ok as st'" by (rule frames_okE[OF safe(1)])
  obtain a s where s: "YogFrame_get_script_frame code num st' = Inr (a, s)" "takes_frame code num st' a s"
    using get_script_frame_takes[OF frames_okD(4)[OF as]] by blast
  have unused: "\<not> used_by_func g" if "load_script st' a = Inr g" for g
    using s(2) that frames_okD(4)[OF as] by (force simp: takes_frame_def pool_ok_def clean_def load_script_Inr)
  then have "\<not> used_by_func g" if "load_script st a = Inr g" for g using safe(2) that unfolding kept_def by blast
  then show ?thesis using s inv_takes(2)[OF as s(2)] frames_okD(2)[OF as] unfolding takes_frame_def by blast
qed

text \<open>A run: the main program calls a function that makes a function, so that its frame stays; the function returns
  and another one is called, whose frame goes to the pool.\<close>

definition in_script :: "'o frames \<Rightarrow> bool" where
  "in_script st \<longleftrightarrow> (\<exists>c f. cur_frame st = Some c \<and> load_script st c = Inr f \<and> sf_type f = FRAME_SCRIPT)"

definition run_code :: code where
  "run_code = \<lparr>code_stack_size = 1, outer_size = 0, exc_tbl = []\<rparr>"

definition making_run :: "nat frames res" where
  "making_run =
     res_bind (YogEval_push_finish_frame run_code 1 no_frames) (\<lambda>st.
     res_bind (enter_names run_code Undef Undef st) (\<lambda>st.
     res_bind (call_plain (plain_fn 0 None 0) st) (\<lambda>st.
     res_bind (setup_script_function st) (\<lambda>(fs, st). Inr st))))"

lemma making_run_steps:
  assumes "making_run = Inr st"
  shows "frame_step\<^sup>*\<^sup>* no_frames st"
proof -
  obtain s1 s2 s3 fs where s: "YogEval_push_finish_frame run_code 1 no_frames = Inr s1" "enter_names run_code Undef Undef s1 = Inr s2"
    "call_plain (plain_fn 0 None 0) s2 = Inr s3" "setup_script_function s3 = Inr (fs, st)"
    using assms by (auto simp: making_run_def res_bind_Inr_iff)
  have "frame_step no_frames s1" "frame_step s1 s2" "frame_step s2 s3" "frame_step s3 st"
    by (rule frame_step.enter_main_loop[OF s(1)], rule frame_step.names[OF s(2)], rule frame_step.call[OF s(3)],
      rule frame_step.make_function[OF s(4)])
  then show ?thesis by (meson rtranclp.rtrancl_refl rtranclp.rtrancl_into_rtrancl)
qed

lemma sample_run:
  "\<exists>st s1 s2 st'. making_run = Inr st \<and> in_script st \<and> inst_ret 0 st = Inr s1
    \<and> call_plain (plain_fn 0 None 0) s1 = Inr s2 \<and> in_script s2 \<and> inst_ret 0 s2 = Inr st'"
  by (simp add: making_run_def in_script_def run_code_def no_frames_def YogEval_push_finish_frame_def YogThread_get_finish_frame_def
      YogFinishFrame_new_def enter_names_def create_frame_for_names_def mem_store_def frames_evaluate numeral_eq_Suc)

theorem pool_frames_unused_witness:
  "\<exists>st (st' :: nat frames) a s f as. making_run = Inr st \<and> YogFrame_get_script_frame run_code 0 st' = Inr (a, s) \<and> load_script s a = Inr f
    \<and> ready run_code 0 f \<and> chain st' (cur_frame st') as \<and> a \<notin> set as \<and> (\<forall>g. load_script st a = Inr g \<longrightarrow> \<not> used_by_func g)"
proof -
  obtain st s1 s2 st' where run: "making_run = Inr st" "in_script st" "inst_ret 0 st = Inr s1"
    "call_plain (plain_fn 0 None 0) s1 = Inr s2" "in_script s2" "inst_ret 0 s2 = Inr st'"
    using sample_run by blast
  have "frame_step st s1" "frame_step s2 st'"
    using run(2,3,5,6) by (auto simp: in_script_def intro: frame_step.ret)
  then have "frame_step\<^sup>*\<^sup>* st st'" using frame_step.call[OF run(4)] by (meson rtranclp.rtrancl_refl rtranclp.rtrancl_into_rtrancl)
  from pool_frames_unused[OF making_run_steps[OF run(1)] this, of run_code 0] run(1) show ?thesis by blast
qed

end
