(* ===== verification/Spec2Isabelle.thy ===== *)
theory Spec2Isabelle
  imports YogComparable YogTableIter YogDict YogArray YogEncoding YogStringLaws YogSymbols YogBinary YogStringNumber
    YogMarkSweep YogCopying YogSuspend YogNativeFunction2 YogDictKeys YogFrameRuns
begin

text \<open>
  A model of the core of Yog, a dynamic language with an interpreter in C, and the theorems that
  make it correct. The sources are under \<^verbatim>\<open>src/src\<close> and \<^verbatim>\<open>src/include/yog\<close> of the repository.

  \<^bold>\<open>The program.\<close> Every value of a Yog program is a 64 bit word (\<^verbatim>\<open>YogVal\<close>): a tagged
  immediate (integer, symbol, boolean, nil) or a pointer to an object. The built-in classes are C
  files that define methods on these words. The hash table of \<^verbatim>\<open>table.c\<close> carries dicts, sets,
  and the symbol tables; the growable arrays of \<^verbatim>\<open>array.c\<close>, \<^verbatim>\<open>string.c\<close> and \<^verbatim>\<open>binary.c\<close>
  carry lists, text and bytes; integers beyond 62 bits are signed magnitudes of \<^verbatim>\<open>bignum.c\<close> over the
  digit arrays of \<^verbatim>\<open>src/BigDigits\<close>; \<^verbatim>\<open>encoding.c\<close> turns text into bytes and back; \<^verbatim>\<open>vm.c\<close> interns the
  names of the symbols for all threads. Objects are allocated from a heap per thread, which the
  collectors of \<^verbatim>\<open>gc.c\<close> and \<^verbatim>\<open>gc/\<close> clean while all threads stand still.

  \<^bold>\<open>Theories, and the code they model.\<close>
  \<^item> \<open>YogPrelude\<close>: exceptions and failures (\<^verbatim>\<open>error.c\<close> raises), bounded memory accesses, machine
    integers, the overflow check of \<^verbatim>\<open>gc.c\<close>'s allocators.
  \<^item> \<open>YogValue\<close>: the tag macros of \<^verbatim>\<open>yog.h\<close> on words, the view of a word by kind, and \<^verbatim>\<open>value.c\<close>.
  \<^item> \<open>YogFixnum\<close>: \<^verbatim>\<open>fixnum.c\<close>. \<open>YogComparable\<close>: the mixin of \<^verbatim>\<open>comparable.c\<close>.
  \<^item> \<open>BigDigits\<close>, \<open>BigDivide\<close>, \<open>BigConvert\<close>: \<^verbatim>\<open>bigdigits.c\<close>: sums, products and shifts of digit
    arrays, Knuth's division on half-digits and on digits, decimal conversions. \<open>Bigd\<close>: \<^verbatim>\<open>bigd.c\<close>,
    the self-adjusting numbers over them, whose value is a natural number.
  \<^item> \<open>YogBignum\<close>, \<open>YogBignumLaws\<close>: \<^verbatim>\<open>bignum.c\<close> and the value of a Bignum. \<open>YogIntegers\<close>: the operators
    of both integer classes together, with the Bignum operations that \<^verbatim>\<open>fixnum.c\<close> calls instantiated by
    the model of \<^verbatim>\<open>bignum.c\<close>. \<open>YogIntegerConv\<close>: conversions to C integers and text.
    \<open>YogStringNumber\<close>: \<^verbatim>\<open>String#to_i\<close> and the round trip of integers through text.
  \<^item> \<open>YogTable\<close>, \<open>YogTableMap\<close>, \<open>YogTableIter\<close>: \<^verbatim>\<open>table.c\<close>: the operations on bins of chained
    entries, their refinement to finite maps, and iteration.
  \<^item> \<open>YogDict\<close>: \<^verbatim>\<open>dict.c\<close> and \<^verbatim>\<open>set.c\<close> over the table. \<open>YogDictKeys\<close>: the methods \<^verbatim>\<open>==\<close> and \<^verbatim>\<open>hash\<close> of nil,
    truth values, symbols, Fixnums and strings, shown to keep the laws that the table needs.
  \<^item> \<open>YogSequence\<close>, \<open>YogArray\<close>: the interface of growable buffers and \<^verbatim>\<open>array.c\<close>.
  \<^item> \<open>YogEncoding\<close>: \<^verbatim>\<open>encoding.c\<close>. \<open>YogString\<close>, \<open>YogStringLaws\<close>: \<^verbatim>\<open>string.c\<close>.
  \<^item> \<open>YogSymbols\<close>: \<^verbatim>\<open>symbol.c\<close> and the interning of \<^verbatim>\<open>vm.c\<close>. \<open>YogBinary\<close>: \<^verbatim>\<open>binary.c\<close>.

  \<^item> \<open>YogHeap\<close>: what the collectors see of objects, \<^verbatim>\<open>YogGC_keep\<close> and \<^verbatim>\<open>YogGC_KEEP\<close>, and the live
    objects, their specification. \<open>YogMarkSweep\<close>: \<^verbatim>\<open>gc/mark-sweep.c\<close> with \<^verbatim>\<open>gc\<close> of \<^verbatim>\<open>gc.c\<close> over the heaps of
    all threads. \<open>YogCopying\<close>: \<^verbatim>\<open>gc/copying.c\<close> on the one heap of a VM with one thread. Both collections
    are shown to keep exactly the live objects.
  \<^item> \<open>YogSuspend\<close>: how the threads stop for a collection, \<^verbatim>\<open>gc.c\<close> and the registration of threads of
    \<^verbatim>\<open>vm.c\<close>, as a step relation whose steps are the sections that hold the interpreter lock.

  \<^item> \<open>YogArguments\<close>: the arguments of a call of a function written in Yog, \<^verbatim>\<open>fill_args\<close> of \<^verbatim>\<open>callable.c\<close> on the record that
    \<^verbatim>\<open>setup_params\<close> of \<^verbatim>\<open>compile.c\<close> makes, shown to bind what a specification of the parameters says.
    \<open>YogNativeCalls\<close>: those of a C function of the first kind, \<^verbatim>\<open>get_args.c\<close>. \<open>YogNativeFunction2\<close>: those of
    the second kind, \<^verbatim>\<open>YogNativeFunction2_call_for_instance\<close> up to the call. The counts of the arguments of a call are
    bytes: \<open>received\<close> is what arrives of a call, all of it when the call has at most 255 arguments of either kind.
  \<^item> \<open>YogFrames\<close>: the frames of calls of \<^verbatim>\<open>frame.c\<close>, the pools of \<^verbatim>\<open>thread.c\<close> and the parts of \<^verbatim>\<open>eval.c\<close>,
    \<^verbatim>\<open>insts.def\<close> and \<^verbatim>\<open>callable.c\<close> that make, fill, return from and jump between them, on a map from addresses to frames.
    \<open>YogFrameReuse\<close>: calls on new and on reused frames, and two defects. \<open>YogFrameChain\<close>: how a main loop goes on after
    an exception or a jump, the entry of class bodies and C functions, and the chain of the frames as an invariant. \<open>YogFrameRuns\<close>: the step relation of all these
    operations in any order, failing ones included, and what holds in each of its runs. An object pointer to the frame at
    an address is a parameter (\<open>fptr\<close>). \<open>YogFrameReuse\<close> builds on \<open>YogArguments\<close>.

  \<^bold>\<open>Conventions.\<close> One definition per C function, branches in the order of the code. An operation
  that can raise returns \<open>'a res\<close>, a sum of \<open>yog_error\<close> and the value. \<open>MemFault\<close>, \<open>ArithFault\<close> and
  \<open>NoReturn\<close> are C behaviours that the code does not handle; that they do not occur is part of
  what the functional theorems show, and that they do occur, of what the theorems on defects show.
  A mutated object is passed in and returned updated.

  \<^bold>\<open>Interfaces.\<close> The locales \<open>hash_laws\<close> (what the table asks of its key functions), \<open>growable\<close> and
  \<open>sequence\<close> (what arrays, strings and binaries promise), \<open>char_writer\<close> and \<open>codec\<close> (what the
  string functions ask of an encoding), \<open>magnitude\<close> (what \<^verbatim>\<open>bignum.c\<close> asks of its digit arrays) and
  \<open>ufo_order\<close> (a three-way comparison) are interpreted on the model's own
  definitions in the theories of their providers.

  \<^bold>\<open>Fuel and bounds.\<close> The growth of a capacity by doubling has fuel 65: after 64 doublings the
  64 bit capacity has wrapped to zero, where the code loops for ever (\<open>NoReturn\<close>). A binary search
  has one unit more than the length of its interval, which halves. A replacement over a string has
  one unit per character, since every round consumes one, or none when the pattern is empty, which
  is the non-termination theorem.

  The collectors have one unit of fuel more than there are objects: \<^verbatim>\<open>keep_object\<close> nests at most as
  deep (the fuel stands for the C stack), and the loops over headers and spaces are as long.

  The walks along the chain of frames have fuel; any fuel above the length of the chain gives the same result
  (\<open>rollback_fuel\<close>, \<open>find_target_fuel\<close>, \<open>skip_to_c_fuel\<close>).

  Sizes of allocations are \<^verbatim>\<open>size_t\<close> and wrap (\<open>size_wrap\<close>); the theorems on allocation exclude the sizes that do.

  The loops over digits are structural or bounded by the number of digits. A left shift assumes that
  the digits of the result can be counted in 64 bits (\<open>shiftable\<close>), the limit of \<^verbatim>\<open>size_t\<close>.

  \<^bold>\<open>C library.\<close> \<^verbatim>\<open>strtol\<close>, \<^verbatim>\<open>snprintf\<close> of integers, \<^verbatim>\<open>isalpha\<close> and \<^verbatim>\<open>tolower\<close> in the C locale are
  modelled as the standard describes them, saturation of \<^verbatim>\<open>strtol\<close> included.

  \<^bold>\<open>Parameters.\<close> C doubles (\<open>float_ops\<close>), the tables of the Japanese encodings, the methods
  \<^verbatim>\<open>hash\<close> and \<^verbatim>\<open>==\<close> of user objects, where \<^verbatim>\<open>malloc\<close> puts a block (\<open>malloc_fresh\<close>: not over a live one), the names of symbols in the parsing of arguments (\<open>intern\<close>, \<open>id2name\<close>;
  \<open>YogSymbols\<close> shows that the VM's agree), and blocks, which are functions on the interpreter's state.

  \<^bold>\<open>Not modelled.\<close> The instruction loop itself with its handles and jump buffers, coroutines, the registration of
  classes and methods, how the roots of a collection are recorded (local variables, handles), the copying collector on the heaps of
  several threads (but for a lemma on a defect), the generational and the
  mark-sweep-compact collector with their write barriers, what a finalizer does beyond being called (that of Thread releases its heap), regular expressions (the
  bundled Corgi library), input and output, the compiler, and the vendored libraries other than BigDigits.
\<close>

end
